(* ===== verification/Prelude.thy ===== *)
theory Prelude
  imports Main "HOL-Library.Word" "HOL-Library.List_Lexorder"
begin

unbundle bit_operations_syntax

section \<open>Prelude: bytes, words, faults and buffers\<close>

text \<open>
  What every component of the development uses: the names of the machine types, the faults
  that end a C++ execution (a failed \<open>assert\<close>, a read outside an object, \<open>abort\<close>, and so on) with
  the result type of code that can fault, byte buffers with checked reads and writes, the
  memory image of integers, and the C library's \<open>memcmp\<close> and \<open>strlen\<close>.
\<close>

named_theorems res_simps "evaluation of code that may fault"
named_theorems word_nat "reading words as natural numbers"

subsection \<open>Types\<close>

type_synonym byte = "8 word"
type_synonym u32 = "32 word"
type_synonym u64 = "64 word"
type_synonym bytes = "byte list"

text \<open>
  A \<open>const char*\<close> is the array object it points into together with the offset in it.
\<close>

type_synonym cptr = "bytes \<times> nat"

datatype fault =
    Assertion_failed
  | Out_of_bounds
  | Null_pointer
  | Dangling
  | Uninitialised
  | Bad_alloc
  | Undefined_arith
  | Aborted

type_synonym 'a res = "fault + 'a"

subsection \<open>Sequencing code that may fault\<close>

definition rbind :: "'a res \<Rightarrow> ('a \<Rightarrow> 'b res) \<Rightarrow> 'b res" where
  "rbind m f = (case m of Inl e \<Rightarrow> Inl e | Inr x \<Rightarrow> f x)"

definition rassert :: "bool \<Rightarrow> unit res" where
  "rassert b = (if b then Inr () else Inl Assertion_failed)"

subsection \<open>Buffers\<close>

definition mem_read :: "bytes \<Rightarrow> nat \<Rightarrow> nat \<Rightarrow> bytes res" where
  "mem_read buf off n =
     (if off + n \<le> length buf then Inr (take n (drop off buf)) else Inl Out_of_bounds)"

definition mem_write :: "'a list \<Rightarrow> nat \<Rightarrow> 'a list \<Rightarrow> 'a list res" where
  "mem_write buf off xs =
     (if off + length xs \<le> length buf
      then Inr (take off buf @ xs @ drop (off + length xs) buf) else Inl Out_of_bounds)"

definition ptr_read :: "cptr \<Rightarrow> nat \<Rightarrow> bytes res" where
  "ptr_read p n = mem_read (fst p) (snd p) n"

definition ptr_add :: "cptr \<Rightarrow> nat \<Rightarrow> cptr" where
  "ptr_add p n = (fst p, snd p + n)"

text \<open>The bytes of a string literal.\<close>

definition lit :: "string \<Rightarrow> bytes" where
  "lit s = map of_char s"

definition newline :: bytes where "newline = [10]"

subsection \<open>Memory images of integers\<close>

primrec le_bytes :: "nat \<Rightarrow> 'a::len word \<Rightarrow> bytes" where
  "le_bytes 0 v = []"
| "le_bytes (Suc n) v = ucast v # le_bytes n (drop_bit 8 v)"

primrec le_word :: "bytes \<Rightarrow> 'a::len word" where
  "le_word [] = 0"
| "le_word (b # bs) = ucast b OR push_bit 8 (le_word bs)"

text \<open>
  \<open>memcpy\<close> from and to an integer object copies its memory image, which depends on the
  byte order of the machine (\<open>True\<close> for little endian).
\<close>

definition mem_image :: "bool \<Rightarrow> nat \<Rightarrow> 'a::len word \<Rightarrow> bytes" where
  "mem_image little n v = (if little then le_bytes n v else rev (le_bytes n v))"

definition mem_value :: "bool \<Rightarrow> bytes \<Rightarrow> 'a::len word" where
  "mem_value little bs = le_word (if little then bs else rev bs)"

subsection \<open>The C library's byte comparisons\<close>

text \<open>
  \<open>memcmp\<close> returns the difference of the first two bytes that differ; callers may rely
  on its sign only.
\<close>

fun bytes_diff :: "bytes \<Rightarrow> bytes \<Rightarrow> int" where
  "bytes_diff (x # xs) (y # ys) = (if x = y then bytes_diff xs ys else uint x - uint y)"
| "bytes_diff _ _ = 0"

definition memcmp :: "cptr \<Rightarrow> cptr \<Rightarrow> nat \<Rightarrow> int res" where
  "memcmp p q n = rbind (ptr_read p n) (\<lambda>xs. rbind (ptr_read q n) (\<lambda>ys. Inr (bytes_diff xs ys)))"

definition strlen :: "cptr \<Rightarrow> nat res" where
  "strlen p =
     (if 0 \<in> set (drop (snd p) (fst p))
      then Inr (length (takeWhile (\<lambda>b. b \<noteq> 0) (drop (snd p) (fst p))))
      else Inl Out_of_bounds)"

section \<open>Lemmas\<close>

subsection \<open>Faults\<close>

lemma rbind_Inl [simp, res_simps]: "rbind (Inl e) f = Inl e"
  by (simp add: rbind_def)

lemma rbind_Inr [simp, res_simps]: "rbind (Inr x) f = f x"
  by (simp add: rbind_def)

lemma rbind_eq_Inr: "rbind m f = Inr y \<longleftrightarrow> (\<exists>x. m = Inr x \<and> f x = Inr y)"
  by (cases m) auto

lemma rbind_InrE:
  assumes "rbind m f = Inr y"
  obtains x where "m = Inr x" and "f x = Inr y"
  using assms by (auto simp: rbind_eq_Inr)

lemma rbind_cong [fundef_cong]:
  "m = m' \<Longrightarrow> (\<And>x. m' = Inr x \<Longrightarrow> f x = g x) \<Longrightarrow> rbind m f = rbind m' g"
  by (cases m') auto

lemma rbind_assoc: "rbind (rbind m f) g = rbind m (\<lambda>x. rbind (f x) g)"
  by (cases m) auto

lemma rassert_True [simp, res_simps]: "rassert True = Inr ()"
  by (simp add: rassert_def)

lemma rassert_False [simp, res_simps]: "rassert False = Inl Assertion_failed"
  by (simp add: rassert_def)

lemma rassert_eq_Inr [simp]: "rassert b = Inr u \<longleftrightarrow> b"
  by (simp add: rassert_def)

subsection \<open>Buffers\<close>

lemma mem_read_Inr [simp]: "off + n \<le> length buf \<Longrightarrow> mem_read buf off n = Inr (take n (drop off buf))"
  by (simp add: mem_read_def)

lemma mem_read_eq_Inr:
  "mem_read buf off n = Inr xs \<longleftrightarrow> off + n \<le> length buf \<and> xs = take n (drop off buf)"
  by (auto simp: mem_read_def)

lemma ptr_read_eq_Inr:
  "ptr_read p n = Inr xs \<longleftrightarrow> snd p + n \<le> length (fst p) \<and> xs = take n (drop (snd p) (fst p))"
  by (simp add: ptr_read_def mem_read_eq_Inr)

lemma mem_write_Inr [simp]:
  "off + length xs \<le> length buf \<Longrightarrow>
     mem_write buf off xs = Inr (take off buf @ xs @ drop (off + length xs) buf)"
  by (simp add: mem_write_def)

lemma lit_Nil [simp]: "lit [] = []" and lit_Cons [simp]: "lit (c # s) = of_char c # lit s"
  by (simp_all add: lit_def)

lemma length_lit [simp]: "length (lit s) = length s"
  by (simp add: lit_def)

subsection \<open>Memory images\<close>

lemma length_le_bytes [simp]: "length (le_bytes n v) = n"
  by (induction n arbitrary: v) auto

lemma length_mem_image [simp]: "length (mem_image little n v) = n"
  by (simp add: mem_image_def)

lemma bit_le_word:
  "bit (le_word bs :: 'a::len word) n \<longleftrightarrow>
     n < LENGTH('a) \<and> n div 8 < length bs \<and> bit (bs ! (n div 8)) (n mod 8)"
proof (induction bs arbitrary: n)
  case Nil
  then show ?case by simp
next
  case (Cons b bs)
  show ?case
  proof (cases "n < 8")
    case True
    then show ?thesis by (auto simp: bit_or_iff bit_push_bit_iff bit_ucast_iff)
  next
    case False
    then obtain m where m: "n = 8 + m" using le_Suc_ex by (metis not_less)
    have nb: "\<not> bit b (8 + m)" by (auto dest: bit_imp_le_length)
    have d: "(8 + m) div 8 = Suc (m div 8)" by simp
    show ?thesis
      unfolding m by (auto simp: d nb bit_or_iff bit_push_bit_iff bit_ucast_iff Cons.IH)
  qed
qed

lemma le_bytes_nth: "k < n \<Longrightarrow> le_bytes n v ! k = ucast (drop_bit (8 * k) v)"
proof (induction n arbitrary: v k)
  case 0
  then show ?case by simp
next
  case (Suc n)
  then show ?case by (cases k) (auto simp: drop_bit_drop_bit algebra_simps)
qed

lemma le_word_le_bytes: "le_word (le_bytes n v) = take_bit (8 * n) (v :: 'a::len word)"
proof (rule bit_word_eqI)
  fix k assume k: "k < LENGTH('a)"
  have "8 * (k div 8) + k mod 8 = k" by simp
  moreover have "k div 8 < n \<longleftrightarrow> k < 8 * n" by auto
  ultimately show "bit (le_word (le_bytes n v) :: 'a word) k = bit (take_bit (8 * n) v) k"
    using k by (auto simp: bit_le_word le_bytes_nth bit_ucast_iff bit_drop_bit_eq bit_take_bit_iff)
qed

lemma mem_value_mem_image [simp]:
  "LENGTH('a::len) \<le> 8 * n \<Longrightarrow> mem_value little (mem_image little n v) = (v :: 'a word)"
  by (simp add: mem_value_def mem_image_def le_word_le_bytes take_bit_word_eq_self)

lemma le_bytes_le_word:
  assumes "8 * length bs \<le> LENGTH('a::len)"
  shows "le_bytes (length bs) (le_word bs :: 'a word) = bs"
proof (rule nth_equalityI)
  show "length (le_bytes (length bs) (le_word bs :: 'a word)) = length bs" by simp
next
  fix i assume "i < length (le_bytes (length bs) (le_word bs :: 'a word))"
  then have i: "i < length bs" by simp
  show "le_bytes (length bs) (le_word bs :: 'a word) ! i = bs ! i"
  proof (rule bit_word_eqI)
    fix k assume k: "k < LENGTH(8)"
    have "8 * i + k < LENGTH('a)" using i k assms by simp
    then show "bit (le_bytes (length bs) (le_word bs :: 'a word) ! i) k = bit (bs ! i) k"
      using i k by (auto simp: le_bytes_nth bit_ucast_iff bit_drop_bit_eq bit_le_word)
  qed
qed

subsection \<open>Lexicographic comparison\<close>

lemma bytes_diff_less:
  "length xs = length ys \<Longrightarrow> (bytes_diff xs ys < 0) = (xs < ys)"
  by (induction xs ys rule: bytes_diff.induct) (auto simp: word_less_def)

lemma bytes_diff_eq:
  "length xs = length ys \<Longrightarrow> (bytes_diff xs ys = 0) = (xs = ys)"
  by (induction xs ys rule: bytes_diff.induct) (auto simp: word_uint_eq_iff)

lemma bytes_diff_swap: "bytes_diff ys xs = - bytes_diff xs ys"
  by (induction xs ys rule: bytes_diff.induct) auto

lemma bytes_diff_refl [simp]: "bytes_diff xs xs = 0"
  by (induction xs) auto

subsection \<open>Bytes as numbers\<close>

lemma unat_byte_less: "unat (b :: byte) < 256"
  using unsigned_less [of b, where 'a = nat] by simp

lemma unat_ucast_up [word_nat]:
  assumes "LENGTH('b::len) \<le> LENGTH('a::len)"
  shows "unat (ucast (w :: 'b word) :: 'a word) = unat w"
proof -
  have "unat w < 2 ^ LENGTH('b)" by simp
  also have "(2::nat) ^ LENGTH('b) \<le> 2 ^ LENGTH('a)" using assms by (simp add: power_increasing)
  finally show ?thesis by (simp add: unsigned_ucast_eq take_bit_nat_eq_self)
qed

lemma unat_of_nat_small [word_nat]: "n < 2 ^ LENGTH('a::len) \<Longrightarrow> unat (of_nat n :: 'a word) = n"
  by (simp add: unat_of_nat take_bit_nat_eq_self)

end
