(* ===== verification/Slices.thy ===== *)
theory Slices
  imports Prelude
begin

text \<open>
  The class \<open>Slice\<close> (src/db/Slice.h, src/db/Slice.cpp): a pointer to bytes owned by
  somebody else and a length. The model keeps the pointer (the array object and an offset
  into it), so that every read the code makes can be checked against the object's end.
  The abstraction of a slice is its byte view; \<open>slice_ok\<close> says that the view lies
  inside the object, and the lemmas show that on such slices every operation is free of
  faults and computes the function of the views that its comment promises.
\<close>

section \<open>Definitions\<close>

record slice =
  s_data :: cptr
  s_size :: nat

text \<open>The empty C string \<open>""\<close>: one NUL byte.\<close>

definition empty_cstr :: cptr where
  "empty_cstr = ([0], 0)"

definition Slice_default :: slice where
  "Slice_default = \<lparr>s_data = empty_cstr, s_size = 0\<rparr>"

definition Slice_ptr :: "cptr \<Rightarrow> nat \<Rightarrow> slice" where
  "Slice_ptr data n = \<lparr>s_data = data, s_size = n\<rparr>"

text \<open>From a \<open>std::string\<close>, whose \<open>data()\<close> ends in a NUL.\<close>

definition Slice_string :: "bytes \<Rightarrow> slice" where
  "Slice_string dataStr = \<lparr>s_data = (dataStr @ [0], 0), s_size = length dataStr\<rparr>"

definition Slice_cstr :: "cptr \<Rightarrow> slice res" where
  "Slice_cstr data = rbind (strlen data) (\<lambda>n. Inr \<lparr>s_data = data, s_size = n\<rparr>)"

definition Slice_Data :: "slice \<Rightarrow> cptr" where
  "Slice_Data s = s_data s"

definition Slice_Size :: "slice \<Rightarrow> nat" where
  "Slice_Size s = s_size s"

definition Slice_Empty :: "slice \<Rightarrow> bool" where
  "Slice_Empty s = (s_size s = 0)"

definition Slice_Clear :: "slice \<Rightarrow> slice" where
  "Slice_Clear s = s\<lparr>s_data := empty_cstr, s_size := 0\<rparr>"

definition Slice_DropFirstNBytes :: "slice \<Rightarrow> nat \<Rightarrow> slice res" where
  "Slice_DropFirstNBytes s n =
     rbind (rassert (n \<le> Slice_Size s)) (\<lambda>_.
     Inr (s\<lparr>s_data := ptr_add (s_data s) n, s_size := s_size s - n\<rparr>))"

definition Slice_StartsWith :: "slice \<Rightarrow> slice \<Rightarrow> bool res" where
  "Slice_StartsWith s x =
     (if s_size s \<ge> s_size x
      then rbind (memcmp (s_data s) (s_data x) (s_size x)) (\<lambda>c. Inr (c = 0))
      else Inr False)"

definition Slice_String :: "slice \<Rightarrow> bytes res" where
  "Slice_String s = ptr_read (s_data s) (s_size s)"

definition Slice_Compare :: "slice \<Rightarrow> slice \<Rightarrow> int res" where
  "Slice_Compare s t =
     (let minLen = (if Slice_Size s < Slice_Size t then Slice_Size s else Slice_Size t)
      in rbind (memcmp (Slice_Data s) (Slice_Data t) minLen) (\<lambda>cmp.
         Inr (if cmp = 0
              then (if Slice_Size s < Slice_Size t then -1
                    else if Slice_Size s > Slice_Size t then 1
                    else cmp)
              else cmp)))"

definition Slice_index :: "slice \<Rightarrow> nat \<Rightarrow> byte res" where
  "Slice_index s i =
     rbind (rassert (i < Slice_Size s)) (\<lambda>_.
     rbind (ptr_read (ptr_add (s_data s) i) 1) (\<lambda>bs. Inr (hd bs)))"

definition Slice_eq :: "slice \<Rightarrow> slice \<Rightarrow> bool res" where
  "Slice_eq x y =
     (if Slice_Size x = Slice_Size y
      then rbind (memcmp (Slice_Data x) (Slice_Data y) (Slice_Size x)) (\<lambda>c. Inr (c = 0))
      else Inr False)"

definition Slice_neq :: "slice \<Rightarrow> slice \<Rightarrow> bool res" where
  "Slice_neq x y = rbind (Slice_eq x y) (\<lambda>b. Inr (\<not> b))"

subsection \<open>Specification: the byte view\<close>

definition slice_ok :: "slice \<Rightarrow> bool" where
  "slice_ok s \<longleftrightarrow> snd (s_data s) + s_size s \<le> length (fst (s_data s))"

definition view :: "slice \<Rightarrow> bytes" where
  "view s = take (s_size s) (drop (snd (s_data s)) (fst (s_data s)))"

definition cmp_bytes :: "bytes \<Rightarrow> bytes \<Rightarrow> int" where
  "cmp_bytes a b =
     (let n = min (length a) (length b); c = bytes_diff (take n a) (take n b)
      in if c = 0 then int (of_bool (length b < length a)) - int (of_bool (length a < length b))
         else c)"

section \<open>Lemmas\<close>

subsection \<open>Views\<close>

lemma length_view [simp]: "slice_ok s \<Longrightarrow> length (view s) = s_size s"
  by (simp add: slice_ok_def view_def)

lemma Slice_Size_view: "slice_ok s \<Longrightarrow> Slice_Size s = length (view s)"
  by (simp add: Slice_Size_def)

lemma ptr_read_view [simp]:
  "slice_ok s \<Longrightarrow> n \<le> s_size s \<Longrightarrow> ptr_read (s_data s) n = Inr (take n (view s))"
  by (simp add: slice_ok_def view_def ptr_read_def min_def)

lemma view_default [simp]: "view Slice_default = []" "slice_ok Slice_default"
  by (simp_all add: view_def slice_ok_def Slice_default_def empty_cstr_def)

lemma view_Slice_string [simp]: "view (Slice_string str) = str" "slice_ok (Slice_string str)"
  by (simp_all add: view_def slice_ok_def Slice_string_def)

lemma size_Slice_string [simp]:
  "s_size (Slice_string str) = length str" "Slice_Size (Slice_string str) = length str"
  by (simp_all add: Slice_string_def Slice_Size_def)

lemma Slice_ptr_sub:
  assumes "slice_ok s" and "n \<le> s_size s"
  shows "slice_ok (Slice_ptr (s_data s) n)" and "view (Slice_ptr (s_data s) n) = take n (view s)"
  using assms by (auto simp: slice_ok_def view_def Slice_ptr_def min_def)

lemma view_Slice_Clear [simp]: "view (Slice_Clear s) = []" "slice_ok (Slice_Clear s)"
  by (simp_all add: view_def slice_ok_def Slice_Clear_def empty_cstr_def)

lemma memcmp_views:
  assumes "slice_ok a" "slice_ok b" "n \<le> s_size a" "n \<le> s_size b"
  shows "memcmp (s_data a) (s_data b) n = Inr (bytes_diff (take n (view a)) (take n (view b)))"
  using assms by (simp add: memcmp_def)

lemma Slice_cstr_Inr:
  assumes "Slice_cstr p = Inr s"
  shows "slice_ok s \<and> 0 \<notin> set (view s) \<and> fst p ! (snd p + s_size s) = 0
    \<and> s_data s = p \<and> snd p + s_size s < length (fst p)"
proof -
  let ?d = "drop (snd p) (fst p)"
  let ?n = "length (takeWhile (\<lambda>b. b \<noteq> 0) ?d)"
  from assms have z: "0 \<in> set ?d" and s: "s = \<lparr>s_data = p, s_size = ?n\<rparr>"
    by (auto simp: Slice_cstr_def strlen_def split: if_splits)
  from z have "takeWhile (\<lambda>b. b \<noteq> 0) ?d \<noteq> ?d"
    by (metis (mono_tags, lifting) takeWhile_eq_all_conv)
  then have lt: "?n < length ?d"
    by (metis length_takeWhile_le le_neq_implies_less takeWhile_eq_take take_all order_refl)
  have nz: "?d ! ?n = 0"
    using nth_length_takeWhile [OF lt] by simp
  have tk: "take ?n ?d = takeWhile (\<lambda>b. b \<noteq> 0) ?d"
    by (simp add: takeWhile_eq_take [symmetric])
  show ?thesis
    using lt nz by (auto simp: s slice_ok_def view_def tk dest: set_takeWhileD)
qed

subsection \<open>Operations on views\<close>

lemma Slice_String_view [simp]: "slice_ok s \<Longrightarrow> Slice_String s = Inr (view s)"
  by (simp add: Slice_String_def)

lemma Slice_Empty_view: "slice_ok s \<Longrightarrow> Slice_Empty s \<longleftrightarrow> view s = []"
  by (metis Slice_Empty_def length_0_conv length_view)

lemma Slice_index_view:
  assumes "slice_ok s"
  shows "Slice_index s i = (if i < length (view s) then Inr (view s ! i) else Inl Assertion_failed)"
proof (cases "i < s_size s")
  case True
  then have "take 1 (drop (snd (s_data s) + i) (fst (s_data s))) = [view s ! i]"
    using assms by (simp add: slice_ok_def view_def take_Suc hd_drop_conv_nth)
  then show ?thesis
    using True assms
    by (simp add: Slice_index_def Slice_Size_def ptr_add_def ptr_read_def slice_ok_def view_def)
next
  case False
  then show ?thesis using assms by (simp add: Slice_index_def Slice_Size_def)
qed

lemma Slice_DropFirstNBytes_view:
  assumes "slice_ok s" and "Slice_DropFirstNBytes s n = Inr s'"
  shows "slice_ok s' \<and> view s' = drop n (view s)"
  using assms
  by (auto simp: Slice_DropFirstNBytes_def rbind_eq_Inr slice_ok_def view_def ptr_add_def
      Slice_Size_def drop_take add.commute)

lemma Slice_StartsWith_view:
  assumes "slice_ok s" and "slice_ok x"
  shows "Slice_StartsWith s x = Inr (take (length (view x)) (view s) = view x)"
proof (cases "s_size x \<le> s_size s")
  case True
  then show ?thesis
    using assms by (simp add: Slice_StartsWith_def memcmp_views bytes_diff_eq)
next
  case False
  then have "length (take (length (view x)) (view s)) \<noteq> length (view x)"
    using assms by simp
  then have "take (length (view x)) (view s) \<noteq> view x" by metis
  then show ?thesis using False by (simp add: Slice_StartsWith_def)
qed

lemma Slice_Compare_view:
  "slice_ok a \<Longrightarrow> slice_ok b \<Longrightarrow> Slice_Compare a b = Inr (cmp_bytes (view a) (view b))"
  by (auto simp: Slice_Compare_def cmp_bytes_def Slice_Size_def Slice_Data_def memcmp_views
      Let_def min_def)

lemma Slice_eq_view:
  assumes "slice_ok a" and "slice_ok b"
  shows "Slice_eq a b = Inr (view a = view b)"
proof (cases "s_size a = s_size b")
  case True
  then show ?thesis
    using assms by (simp add: Slice_eq_def Slice_Size_def Slice_Data_def memcmp_views bytes_diff_eq)
next
  case False
  then have "view a \<noteq> view b" using assms by (metis length_view)
  then show ?thesis using False by (simp add: Slice_eq_def Slice_Size_def)
qed

subsection \<open>The order of views is lexicographic\<close>

lemma Nil_less_bytes: "[] < (xs :: bytes) \<longleftrightarrow> xs \<noteq> []"
  by (cases xs) auto

lemma bytes_less_take:
  fixes a b :: bytes
  shows "a < b \<longleftrightarrow>
    (let n = min (length a) (length b)
     in take n a < take n b \<or> take n a = take n b \<and> length a < length b)"
  by (induction a b rule: bytes_diff.induct) (auto simp: Let_def Nil_less_bytes)

lemma cmp_bytes_less: "cmp_bytes a b < 0 \<longleftrightarrow> a < b"
  by (subst bytes_less_take) (auto simp: cmp_bytes_def Let_def bytes_diff_less bytes_diff_eq)

lemma cmp_bytes_eq: "cmp_bytes a b = 0 \<longleftrightarrow> a = b"
proof
  assume "cmp_bytes a b = 0"
  then have *: "take (min (length a) (length b)) a = take (min (length a) (length b)) b"
    and "length a = length b"
    by (auto simp: cmp_bytes_def Let_def bytes_diff_eq of_bool_def split: if_splits)
  then show "a = b" by simp
qed (simp add: cmp_bytes_def)

lemma cmp_bytes_swap: "cmp_bytes b a = - cmp_bytes a b"
  by (auto simp: cmp_bytes_def Let_def min.commute bytes_diff_swap [of "take _ b"])

lemma cmp_bytes_greater: "0 < cmp_bytes a b \<longleftrightarrow> b < a"
  using cmp_bytes_less [of b a] by (simp add: cmp_bytes_swap [of b a])

lemma sgn_cmp_bytes: "sgn (cmp_bytes a b) = (if a < b then -1 else if a = b then 0 else 1)"
  using cmp_bytes_less [of a b] cmp_bytes_eq [of a b] by (auto simp: sgn_if)

lemmas cmp_bytes_order = cmp_bytes_less cmp_bytes_eq cmp_bytes_greater

section \<open>Properties\<close>

text \<open>
  on slices that lie inside their objects, \<open>Compare\<close> never reads out of bounds, and
  the sign of its result is the lexicographic order of the two views by unsigned bytes,
  a proper prefix being smaller.
\<close>

theorem Slice_Compare_lexicographic:
  assumes "slice_ok a" and "slice_ok b"
  shows "\<exists>c. Slice_Compare a b = Inr c \<and>
    sgn c = (if view a < view b then -1 else if view a = view b then 0 else 1)"
  using assms by (simp add: Slice_Compare_view sgn_cmp_bytes)

theorem Slice_Compare_lexicographic_witness:
  "\<exists>c. Slice_Compare (Slice_string [97, 98]) (Slice_string [97, 255, 1]) = Inr c \<and>
    sgn c = (if [97, 98] < [97, 255, 1 :: byte] then -1 else if [97, 98] = [97, 255, 1 :: byte] then 0 else 1)"
  using Slice_Compare_lexicographic [of "Slice_string [97, 98]" "Slice_string [97, 255, 1]"]
  by simp

end
