(* ===== verification/Coding.thy ===== *)
theory Coding
  imports Slices
begin

text \<open>
  The integer encodings of src/db/Coding.h and src/db/Coding.cpp: fixed 32 and 64 bit
  integers and the variable-length integers that block entries use. The first argument
  \<open>kLittleEndian\<close> is the constant of src/db/port_posix.h, which states the byte order of
  the machine; the theorems hold for both orders. In the variable-length readers the pointers
  \<open>p\<close> and \<open>limit\<close> are offsets into one buffer \<open>buf\<close>, \<open>NULL\<close> is \<open>None\<close>,
  and the value stored through the last argument is returned beside the new \<open>p\<close>.
\<close>

section \<open>Definitions\<close>

definition EncodeFixed64 :: "bool \<Rightarrow> bytes \<Rightarrow> u64 \<Rightarrow> bytes res" where
  "EncodeFixed64 kLittleEndian buf value =
     (if kLittleEndian then mem_write buf 0 (mem_image kLittleEndian 8 value)
      else mem_write buf 0
        [ucast (value AND 0xff),
         ucast (drop_bit 8 value AND 0xff),
         ucast (drop_bit 16 value AND 0xff),
         ucast (drop_bit 24 value AND 0xff),
         ucast (drop_bit 32 value AND 0xff),
         ucast (drop_bit 40 value AND 0xff),
         ucast (drop_bit 48 value AND 0xff),
         ucast (drop_bit 56 value AND 0xff)])"

definition PutFixed64 :: "bool \<Rightarrow> bytes \<Rightarrow> u64 \<Rightarrow> bytes res" where
  "PutFixed64 kLittleEndian dst value =
     rbind (EncodeFixed64 kLittleEndian (replicate 8 0) value) (\<lambda>buf. Inr (dst @ buf))"

definition DecodeFixed32 :: "bool \<Rightarrow> cptr \<Rightarrow> u32 res" where
  "DecodeFixed32 kLittleEndian ptr =
     rbind (ptr_read ptr 4) (\<lambda>bs.
       if kLittleEndian then Inr (mem_value kLittleEndian bs)
       else Inr (ucast (bs ! 0) OR push_bit 8 (ucast (bs ! 1)) OR push_bit 16 (ucast (bs ! 2))
                 OR push_bit 24 (ucast (bs ! 3))))"

definition DecodeFixed64 :: "bool \<Rightarrow> cptr \<Rightarrow> u64 res" where
  "DecodeFixed64 kLittleEndian ptr =
     (if kLittleEndian
      then rbind (ptr_read ptr 8) (\<lambda>bs. Inr (mem_value kLittleEndian bs))
      else rbind (DecodeFixed32 kLittleEndian ptr) (\<lambda>lo.
           rbind (DecodeFixed32 kLittleEndian (ptr_add ptr 4)) (\<lambda>hi.
           Inr (push_bit 32 (ucast hi) OR ucast lo))))"

function GetVarint32PtrFallback_loop ::
    "bytes \<Rightarrow> nat \<Rightarrow> nat \<Rightarrow> nat \<Rightarrow> u32 \<Rightarrow> (nat \<times> u32) option res" where
  "GetVarint32PtrFallback_loop buf p limit shift result =
     (if shift \<le> 28 \<and> p < limit then
        rbind (mem_read buf p 1) (\<lambda>bs.
        let byte = ucast (hd bs) :: u32 in
        if byte AND 128 \<noteq> 0
        then GetVarint32PtrFallback_loop buf (p + 1) limit (shift + 7)
               (result OR push_bit shift (byte AND 127))
        else Inr (Some (p + 1, result OR push_bit shift byte)))
      else Inr None)"
  by pat_completeness auto
termination
  by (relation "measure (\<lambda>(buf, p, limit, shift, result). 35 - shift)") auto

definition GetVarint32PtrFallback :: "bytes \<Rightarrow> nat \<Rightarrow> nat \<Rightarrow> (nat \<times> u32) option res" where
  "GetVarint32PtrFallback buf p limit = GetVarint32PtrFallback_loop buf p limit 0 0"

definition GetVarint32Ptr :: "bytes \<Rightarrow> nat \<Rightarrow> nat \<Rightarrow> (nat \<times> u32) option res" where
  "GetVarint32Ptr buf p limit =
     (if p < limit then
        rbind (mem_read buf p 1) (\<lambda>bs.
        let result = ucast (hd bs) :: u32 in
        if result AND 128 = 0 then Inr (Some (p + 1, result))
        else GetVarint32PtrFallback buf p limit)
      else GetVarint32PtrFallback buf p limit)"

function GetVarint64Ptr_loop ::
    "bytes \<Rightarrow> nat \<Rightarrow> nat \<Rightarrow> nat \<Rightarrow> u64 \<Rightarrow> (nat \<times> u64) option res" where
  "GetVarint64Ptr_loop buf p limit shift result =
     (if shift \<le> 63 \<and> p < limit then
        rbind (mem_read buf p 1) (\<lambda>bs.
        let byte = ucast (hd bs) :: u64 in
        if byte AND 128 \<noteq> 0
        then GetVarint64Ptr_loop buf (p + 1) limit (shift + 7)
               (result OR push_bit shift (byte AND 127))
        else Inr (Some (p + 1, result OR push_bit shift byte)))
      else Inr None)"
  by pat_completeness auto
termination
  by (relation "measure (\<lambda>(buf, p, limit, shift, result). 70 - shift)") auto

definition GetVarint64Ptr :: "bytes \<Rightarrow> nat \<Rightarrow> nat \<Rightarrow> (nat \<times> u64) option res" where
  "GetVarint64Ptr buf p limit = GetVarint64Ptr_loop buf p limit 0 0"

declare GetVarint32PtrFallback_loop.simps [simp del]
declare GetVarint64Ptr_loop.simps [simp del]

subsection \<open>Specification: base-128 groups\<close>

text \<open>
  A group is a run of bytes with the top bit set followed by one byte without it; it stands
  for the number whose base-128 digits, least significant first, are the low seven bits.
  \<open>varint_group\<close> reads a group as (number, length); \<open>varint_enc\<close> is the encoder that
  the format document describes (the repository has no writer yet).
\<close>

fun varint_group :: "bytes \<Rightarrow> (nat \<times> nat) option" where
  "varint_group [] = None"
| "varint_group (b # bs) =
     (if unat b < 128 then Some (unat b, 1)
      else case varint_group bs of None \<Rightarrow> None
           | Some (v, n) \<Rightarrow> Some (unat b - 128 + 128 * v, Suc n))"

fun varint_enc :: "nat \<Rightarrow> bytes" where
  "varint_enc n = (if n < 128 then [of_nat n] else of_nat (n mod 128 + 128) # varint_enc (n div 128))"

declare varint_enc.simps [simp del]

section \<open>Lemmas\<close>

subsection \<open>Fixed-width integers\<close>

lemma take_8_cases:
  assumes "length bs = 8"
  obtains b0 b1 b2 b3 b4 b5 b6 b7 where "bs = [b0, b1, b2, b3, b4, b5, b6, b7]"
  using assms by (auto simp: length_Suc_conv eval_nat_numeral)

lemma take_4_cases:
  assumes "length bs = 4"
  obtains b0 b1 b2 b3 where "bs = [b0, b1, b2, b3]"
  using assms by (auto simp: length_Suc_conv eval_nat_numeral)

lemma ucast_and_255: "ucast (v AND 0xff :: u64) = (ucast v :: byte)"
proof (rule bit_word_eqI)
  fix n assume "n < LENGTH(8)"
  moreover have m: "(0xff :: u64) = mask 8" by (simp add: mask_eq_exp_minus_1)
  ultimately show "bit (ucast (v AND 0xff :: u64) :: byte) n = bit (ucast v :: byte) n"
    by (simp only: m) (simp add: bit_ucast_iff bit_and_iff bit_mask_iff)
qed

lemma EncodeFixed64_bytes:
  "8 \<le> length buf \<Longrightarrow> EncodeFixed64 kLittleEndian buf v = Inr (le_bytes 8 v @ drop 8 buf)"
  by (cases kLittleEndian)
     (simp_all add: EncodeFixed64_def mem_image_def ucast_and_255 eval_nat_numeral drop_bit_drop_bit)

lemma PutFixed64_bytes [simp]: "PutFixed64 kLittleEndian dst v = Inr (dst @ le_bytes 8 v)"
  by (simp add: PutFixed64_def EncodeFixed64_bytes)

lemma DecodeFixed32_bytes:
  assumes "snd p + 4 \<le> length (fst p)"
  shows "DecodeFixed32 kLittleEndian p = Inr (le_word (take 4 (drop (snd p) (fst p))))"
proof -
  from assms have "length (take 4 (drop (snd p) (fst p))) = 4" by simp
  then show ?thesis
    using assms
    by (elim take_4_cases)
       (simp add: DecodeFixed32_def ptr_read_def mem_value_def push_bit_or)
qed

lemma le_word_append: "le_word (xs @ ys) = (le_word xs OR push_bit (8 * length xs) (le_word ys) :: 'a::len word)"
  by (induction xs) (auto simp: push_bit_or ac_simps)

lemma ucast_le_word:
  assumes "8 * length xs \<le> LENGTH('b::len)"
  shows "ucast (le_word xs :: 'b word) = (le_word xs :: 'a::len word)"
proof (rule bit_word_eqI)
  fix n assume "n < LENGTH('a)"
  have "n div 8 < length xs \<Longrightarrow> n < LENGTH('b)" using assms by auto
  then show "bit (ucast (le_word xs :: 'b word) :: 'a word) n = bit (le_word xs :: 'a word) n"
    using \<open>n < LENGTH('a)\<close> by (auto simp: bit_ucast_iff bit_le_word)
qed

lemma DecodeFixed64_bytes:
  assumes "snd p + 8 \<le> length (fst p)"
  shows "DecodeFixed64 kLittleEndian p = Inr (le_word (take 8 (drop (snd p) (fst p))))"
proof (cases kLittleEndian)
  case True
  then show ?thesis using assms by (simp add: DecodeFixed64_def ptr_read_def mem_value_def)
next
  case False
  let ?d = "drop (snd p) (fst p)"
  have split: "take 8 ?d = take 4 ?d @ take 4 (drop 4 ?d)"
    using take_add [of 4 4 ?d] by simp
  have "le_word (take 8 ?d) =
      (push_bit 32 (ucast (le_word (take 4 (drop 4 ?d)) :: u32)) OR ucast (le_word (take 4 ?d) :: u32) :: u64)"
    unfolding split using assms by (simp add: le_word_append ucast_le_word or.commute)
  then show ?thesis
    using False assms by (simp add: DecodeFixed64_def DecodeFixed32_bytes ptr_add_def add.commute)
qed

subsection \<open>Groups\<close>

lemma byte_and_128:
  assumes "8 \<le> LENGTH('a::len)"
  shows "(ucast (b :: byte) AND 128 = (0 :: 'a word)) \<longleftrightarrow> unat b < 128"
proof -
  have "(128 :: 'a word) = 2 ^ 7" by simp
  then have "(ucast b AND 128 = (0 :: 'a word)) \<longleftrightarrow> \<not> bit (ucast b :: 'a word) 7"
    by (simp only: and_exp_eq_0_iff_not_bit)
  also have "\<dots> \<longleftrightarrow> \<not> bit b 7" using assms by (simp add: bit_ucast_iff)
  also have "bit b 7 \<longleftrightarrow> bit (unat b) 7"
    by (simp add: bit_unsigned_iff)
  also have "\<dots> \<longleftrightarrow> odd (unat b div 128)" by (simp add: bit_iff_odd)
  also have "odd (unat b div 128) \<longleftrightarrow> \<not> unat b < 128"
  proof -
    have "unat b < 256" using unsigned_less [of b, where 'a = nat] by simp
    then have "unat b div 128 < 2" by simp
    moreover have "unat b div 128 = 0 \<longleftrightarrow> unat b < 128" by (simp add: div_eq_0_iff)
    ultimately show ?thesis by (metis One_nat_def less_2_cases odd_one even_zero)
  qed
  finally show ?thesis by simp
qed

lemma varint_step:
  assumes "128 \<le> unat (b :: byte)" and "8 \<le> LENGTH('a::len)"
  shows "(ucast b AND 127 OR push_bit 7 (of_nat v) :: 'a word) = of_nat (unat b - 128 + 128 * v)"
proof -
  have "unat b < 256" using unsigned_less [of b, where 'a = nat] by simp
  then have m: "unat b mod 128 = unat b - 128" using assms(1) by (simp add: mod_if)
  have k: "(127 :: 'a word) = mask 7" by (simp add: mask_eq_exp_minus_1)
  have u: "ucast b = (of_nat (unat b) :: 'a word)" by simp
  have "ucast b AND 127 = (take_bit 7 (of_nat (unat b)) :: 'a word)"
    by (simp add: take_bit_eq_mask k)
  also have "\<dots> = of_nat (take_bit 7 (unat b))"
    by (simp only: take_bit_of_nat)
  finally have lo: "ucast b AND 127 = (of_nat (unat b - 128) :: 'a word)"
    by (simp add: take_bit_eq_mod m)
  have "(ucast b AND 127) + push_bit 7 (of_nat v :: 'a word) = (ucast b AND 127) OR push_bit 7 (of_nat v)"
    by (rule disjunctive_add_eq_or, rule bit_word_eqI) (auto simp: bit_and_iff bit_push_bit_iff k bit_mask_iff)
  then show ?thesis by (simp add: lo push_bit_eq_mult mult.commute)
qed

lemma varint_step_at:
  assumes "\<not> unat (b :: byte) < 128" and "8 \<le> LENGTH('a::len)"
  shows "(r OR push_bit s (ucast b) AND push_bit s 127) OR push_bit (s + 7) (of_nat v)
    = (r OR push_bit s (ucast b + 128 * of_nat v - 128) :: 'a word)"
proof -
  have "(r OR push_bit s (ucast b) AND push_bit s 127) OR push_bit (s + 7) (of_nat v)
      = r OR push_bit s (ucast b AND 127 OR push_bit 7 (of_nat v) :: 'a word)"
    by (simp add: push_bit_or or.assoc)
  also have "\<dots> = r OR push_bit s (of_nat (unat b - 128 + 128 * v))"
    using assms by (simp only: varint_step not_less)
  finally show ?thesis using assms by (simp add: of_nat_diff not_less)
qed

lemma GetVarint32PtrFallback_loop_group:
  assumes "limit \<le> length buf"
  shows "GetVarint32PtrFallback_loop buf p limit shift r =
    Inr (case varint_group (take ((35 - shift) div 7) (take (limit - p) (drop p buf))) of
           None \<Rightarrow> None
         | Some (v, n) \<Rightarrow> Some (p + n, r OR push_bit shift (of_nat v)))"
  using assms
proof (induction buf p limit shift r rule: GetVarint32PtrFallback_loop.induct)
  case (1 buf p limit shift r)
  show ?case
  proof (cases "shift \<le> 28 \<and> p < limit")
    case True
    then have k: "(35 - shift) div 7 = Suc ((35 - (shift + 7)) div 7)" by auto
    have d: "drop p buf = buf ! p # drop (p + 1) buf"
      using True "1.prems" by (simp add: Cons_nth_drop_Suc)
    have l: "limit - p = Suc (limit - (p + 1))" using True by arith
    show ?thesis
    proof (cases "unat (buf ! p) < 128")
      case True': True
      then show ?thesis
        using True "1.prems"
        by (subst GetVarint32PtrFallback_loop.simps) (simp add: k d l byte_and_128)
    next
      case False
      then show ?thesis
        using True "1.prems" "1.IH" [of "[buf ! p]"]
        by (subst GetVarint32PtrFallback_loop.simps)
           (auto simp: k d l byte_and_128 varint_step_at split: option.splits)
    qed
  next
    case False
    then have "(35 - shift) div 7 = 0 \<or> limit - p = 0" by auto
    then show ?thesis using False by (subst GetVarint32PtrFallback_loop.simps) auto
  qed
qed

lemma GetVarint64Ptr_loop_group:
  assumes "limit \<le> length buf"
  shows "GetVarint64Ptr_loop buf p limit shift r =
    Inr (case varint_group (take ((70 - shift) div 7) (take (limit - p) (drop p buf))) of
           None \<Rightarrow> None
         | Some (v, n) \<Rightarrow> Some (p + n, r OR push_bit shift (of_nat v)))"
  using assms
proof (induction buf p limit shift r rule: GetVarint64Ptr_loop.induct)
  case (1 buf p limit shift r)
  show ?case
  proof (cases "shift \<le> 63 \<and> p < limit")
    case True
    then have k: "(70 - shift) div 7 = Suc ((70 - (shift + 7)) div 7)" by auto
    have d: "drop p buf = buf ! p # drop (p + 1) buf"
      using True "1.prems" by (simp add: Cons_nth_drop_Suc)
    have l: "limit - p = Suc (limit - (p + 1))" using True by arith
    show ?thesis
    proof (cases "unat (buf ! p) < 128")
      case True': True
      then show ?thesis
        using True "1.prems"
        by (subst GetVarint64Ptr_loop.simps) (simp add: k d l byte_and_128)
    next
      case False
      then show ?thesis
        using True "1.prems" "1.IH" [of "[buf ! p]"]
        by (subst GetVarint64Ptr_loop.simps)
           (auto simp: k d l byte_and_128 varint_step_at split: option.splits)
    qed
  next
    case False
    then have "(70 - shift) div 7 = 0 \<or> limit - p = 0" by auto
    then show ?thesis using False by (subst GetVarint64Ptr_loop.simps) auto
  qed
qed

lemma GetVarint32PtrFallback_group:
  "limit \<le> length buf \<Longrightarrow> GetVarint32PtrFallback buf p limit =
    Inr (map_option (\<lambda>(v, n). (p + n, of_nat v))
          (varint_group (take 5 (take (limit - p) (drop p buf)))))"
  by (simp add: GetVarint32PtrFallback_def GetVarint32PtrFallback_loop_group split: option.split)

lemma GetVarint64Ptr_group:
  "limit \<le> length buf \<Longrightarrow> GetVarint64Ptr buf p limit =
    Inr (map_option (\<lambda>(v, n). (p + n, of_nat v))
          (varint_group (take 10 (take (limit - p) (drop p buf)))))"
  by (simp add: GetVarint64Ptr_def GetVarint64Ptr_loop_group split: option.split)

lemma GetVarint32Ptr_eq_fallback:
  assumes "limit \<le> length buf"
  shows "GetVarint32Ptr buf p limit = GetVarint32PtrFallback buf p limit"
proof (cases "p < limit \<and> unat (buf ! p) < 128")
  case True
  have d: "drop p buf = buf ! p # drop (p + 1) buf"
    using True assms by (simp add: Cons_nth_drop_Suc)
  have l: "limit - p = Suc (limit - (p + 1))" using True by arith
  show ?thesis
    using True assms
    by (simp add: GetVarint32PtrFallback_group GetVarint32Ptr_def d l byte_and_128 eval_nat_numeral)
next
  case False
  have d: "p < limit \<Longrightarrow> drop p buf = buf ! p # drop (p + 1) buf"
    using assms by (simp add: Cons_nth_drop_Suc)
  from False assms show ?thesis by (auto simp: GetVarint32Ptr_def byte_and_128 d)
qed

lemma varint_group_bounds:
  "varint_group bs = Some (v, n) \<Longrightarrow> 0 < n \<and> n \<le> length bs \<and> v < 128 ^ n"
proof (induction bs arbitrary: v n)
  case Nil
  then show ?case by simp
next
  case (Cons b bs)
  show ?case
  proof (cases "unat b < 128")
    case True
    then show ?thesis using Cons.prems by auto
  next
    case False
    then obtain w m where w: "varint_group bs = Some (w, m)" and vn: "v = unat b - 128 + 128 * w" "n = Suc m"
      using Cons.prems by (auto split: option.splits)
    have "unat b < 256" using unsigned_less [of b, where 'a = nat] by simp
    moreover have "w + 1 \<le> 128 ^ m" "m \<le> length bs" using Cons.IH [OF w] by simp_all
    ultimately show ?thesis by (simp add: vn)
  qed
qed

lemma varint_group_append:
  "varint_group bs = Some (v, n) \<Longrightarrow> varint_group (bs @ cs) = Some (v, n)"
  by (induction bs arbitrary: v n) (auto split: option.splits if_splits)

lemma varint_group_enc: "varint_group (varint_enc n) = Some (n, length (varint_enc n))"
proof (induction n rule: varint_enc.induct)
  case (1 n)
  show ?case
  proof (cases "n < 128")
    case True
    then show ?thesis by (subst varint_enc.simps, subst varint_enc.simps) (simp add: unat_of_nat)
  next
    case False
    have "n mod 128 + 128 < 256" using mod_less_divisor [of 128 n] by simp
    then have u: "unat (of_nat (n mod 128 + 128) :: byte) = n mod 128 + 128"
      by (simp only: unat_of_nat) simp
    show ?thesis
      using False "1.IH"
      by (subst varint_enc.simps, subst (2) varint_enc.simps) (simp add: u del: of_nat_add)
  qed
qed

lemma length_varint_enc: "n < 128 ^ Suc k \<Longrightarrow> length (varint_enc n) \<le> Suc k"
proof (induction k arbitrary: n)
  case 0
  then show ?case by (subst varint_enc.simps) simp
next
  case (Suc k)
  then have "n div 128 < 128 ^ Suc k" by (simp add: less_mult_imp_div_less mult.commute)
  then show ?case using Suc.IH [of "n div 128"] by (subst varint_enc.simps) simp
qed

section \<open>Properties\<close>

text \<open>
  a number stored with \<open>PutFixed64\<close> on a machine of either byte order and read back
  with \<open>DecodeFixed64\<close> on a machine of either byte order is the number that was stored: the
  encoding on disk does not depend on the host, and both operations stay inside their buffers.
\<close>

theorem Fixed64_roundtrip:
  "rbind (PutFixed64 writer_little dst v) (\<lambda>s. DecodeFixed64 reader_little (s, length dst)) = Inr v"
proof -
  have "le_word (le_bytes 8 v) = v"
    by (simp add: le_word_le_bytes take_bit_word_eq_self)
  then show ?thesis by (simp add: DecodeFixed64_bytes)
qed

text \<open>
  with a limit inside the buffer, \<open>GetVarint32Ptr\<close> (fast path and fallback together)
  never reads outside the buffer and decodes the base-128 group that starts at \<open>p\<close>: it
  returns NULL exactly when no group of at most five bytes ends before \<open>limit\<close>, and otherwise
  the position after the group and the group's number modulo \<open>2 ^ 32\<close>.
\<close>

theorem GetVarint32Ptr_decodes:
  assumes "limit \<le> length buf"
  shows "GetVarint32Ptr buf p limit =
    Inr (map_option (\<lambda>(v, n). (p + n, of_nat v))
          (varint_group (take 5 (take (limit - p) (drop p buf)))))"
  using assms by (simp add: GetVarint32Ptr_eq_fallback GetVarint32PtrFallback_group)

theorem GetVarint32Ptr_decodes_witness:
  "GetVarint32Ptr [0xac, 0x02, 0x80] 0 3 = Inr (Some (2, 300))
   \<and> GetVarint32Ptr [0xac, 0x02, 0x80] 2 3 = Inr None"
  using GetVarint32Ptr_decodes [of 3 "[0xac, 0x02, 0x80]" 0]
    GetVarint32Ptr_decodes [of 3 "[0xac, 0x02, 0x80]" 2]
  by simp

text \<open>
  every 32-bit number written as a base-128 group, anywhere inside a longer buffer, is
  read back by \<open>GetVarint32Ptr\<close>, which leaves the pointer just past the group.
\<close>

theorem GetVarint32Ptr_roundtrip:
  "GetVarint32Ptr (pre @ varint_enc (unat v) @ post) (length pre)
      (length (pre @ varint_enc (unat v) @ post)) =
    Inr (Some (length pre + length (varint_enc (unat v)), v))"
proof -
  have "unat v < 128 ^ Suc 4" using unsigned_less [of v, where 'a = nat] by simp
  then have "length (varint_enc (unat v)) \<le> 5"
    using length_varint_enc [of "unat v" 4] by simp
  then show ?thesis
    by (simp add: GetVarint32Ptr_eq_fallback GetVarint32PtrFallback_group
        varint_group_append [OF varint_group_enc])
qed

text \<open>
  the same for \<open>GetVarint64Ptr\<close> and every 64-bit number.
\<close>

theorem GetVarint64Ptr_roundtrip:
  "GetVarint64Ptr (pre @ varint_enc (unat v) @ post) (length pre)
      (length (pre @ varint_enc (unat v) @ post)) =
    Inr (Some (length pre + length (varint_enc (unat v)), v))"
proof -
  have "unat v < 128 ^ Suc 9" using unsigned_less [of v, where 'a = nat] by simp
  then have "length (varint_enc (unat v)) \<le> 10"
    using length_varint_enc [of "unat v" 9] by simp
  then show ?thesis
    by (simp add: GetVarint64Ptr_group varint_group_append [OF varint_group_enc])
qed

end
