(* ===== verification/Comparators.thy ===== *)
theory Comparators
  imports Slices
begin

text \<open>
  The interface \<open>Comparator\<close> (src/db/Comparator.h) and its bytewise implementation
  (src/db/Comparator.cpp). An object of the interface is a record of its virtual methods.
  The contract that the header's comments state is the locale \<open>comparator\<close> (a total
  preorder on the keys it accepts, computed without faults) and its extension
  \<open>shortening_comparator\<close> (what the two space-saving methods may return). The bytewise
  comparator interprets both; the internal-key comparator of theory \<open>DB_Format\<close> is shown
  there to satisfy the contract whenever its user comparator does.
\<close>

section \<open>Definitions\<close>

record Comparator =
  Compare :: "slice \<Rightarrow> slice \<Rightarrow> int res"
  Name :: bytes
  FindShortestSeparator :: "bytes \<Rightarrow> slice \<Rightarrow> bytes res"
  FindShortSuccessor :: "bytes \<Rightarrow> bytes res"

subsection \<open>BytewiseComparatorImpl\<close>

definition Bytewise_Compare :: "slice \<Rightarrow> slice \<Rightarrow> int res" where
  "Bytewise_Compare a b = Slice_Compare a b"

text \<open>The loop that finds the length of the common prefix.\<close>

function common_prefix_loop :: "bytes \<Rightarrow> slice \<Rightarrow> nat \<Rightarrow> nat \<Rightarrow> nat res" where
  "common_prefix_loop start limit min_length diff_index =
     (if diff_index < min_length then
        rbind (Slice_index limit diff_index) (\<lambda>l.
        if start ! diff_index = l
        then common_prefix_loop start limit min_length (diff_index + 1)
        else Inr diff_index)
      else Inr diff_index)"
  by pat_completeness auto
termination
  by (relation "measure (\<lambda>(start, limit, min_length, diff_index). min_length - diff_index)") auto

definition Bytewise_FindShortestSeparator :: "bytes \<Rightarrow> slice \<Rightarrow> bytes res" where
  "Bytewise_FindShortestSeparator start limit =
     (let min_length = min (length start) (Slice_Size limit) in
      rbind (common_prefix_loop start limit min_length 0) (\<lambda>diff_index.
      if diff_index \<ge> min_length then Inr start
      else
        (let diff_byte = start ! diff_index in
         rbind (Slice_index limit diff_index) (\<lambda>limit_byte.
         if diff_byte < 0xff \<and> unat diff_byte + 1 < unat limit_byte then
           (let start' = take (diff_index + 1) (start[diff_index := start ! diff_index + 1]) in
            rbind (Bytewise_Compare (Slice_string start') limit) (\<lambda>c.
            rbind (rassert (c < 0)) (\<lambda>_. Inr start')))
         else Inr start))))"

function short_successor_loop :: "bytes \<Rightarrow> nat \<Rightarrow> nat \<Rightarrow> bytes" where
  "short_successor_loop key n i =
     (if i < n then
        (let byte = key ! i in
         if byte \<noteq> 0xff then take (i + 1) (key[i := byte + 1])
         else short_successor_loop key n (i + 1))
      else key)"
  by pat_completeness auto
termination
  by (relation "measure (\<lambda>(key, n, i). n - i)") auto

definition Bytewise_FindShortSuccessor :: "bytes \<Rightarrow> bytes res" where
  "Bytewise_FindShortSuccessor key = Inr (short_successor_loop key (length key) 0)"

definition BytewiseComparatorImpl :: Comparator where
  "BytewiseComparatorImpl =
     \<lparr>Compare = Bytewise_Compare,
      Name = lit ''releveldb.BytewiseComparator'',
      FindShortestSeparator = Bytewise_FindShortestSeparator,
      FindShortSuccessor = Bytewise_FindShortSuccessor\<rparr>"

declare common_prefix_loop.simps [simp del]
declare short_successor_loop.simps [simp del]

section \<open>The contract of a comparator\<close>

text \<open>
  \<open>keys\<close> is the set of byte strings the comparator accepts and \<open>ord\<close> the three-way
  comparison of their contents that \<open>Compare\<close> must compute on any slices that show them.
\<close>

locale comparator =
  fixes cmp :: Comparator
    and keys :: "bytes \<Rightarrow> bool"
    and ord :: "bytes \<Rightarrow> bytes \<Rightarrow> int"
  assumes Compare_ord:
      "\<lbrakk>slice_ok a; slice_ok b; keys (view a); keys (view b)\<rbrakk>
         \<Longrightarrow> Compare cmp a b = Inr (ord (view a) (view b))"
    and ord_swap: "\<lbrakk>keys x; keys y\<rbrakk> \<Longrightarrow> sgn (ord y x) = - sgn (ord x y)"
    and ord_trans: "\<lbrakk>keys x; keys y; keys z; ord x y \<le> 0; ord y z \<le> 0\<rbrakk> \<Longrightarrow> ord x z \<le> 0"
begin

lemma ord_refl: "keys x \<Longrightarrow> ord x x = 0"
  using ord_swap [of x x] by (simp add: sgn_if split: if_splits)

lemma ord_flip: "\<lbrakk>keys x; keys y\<rbrakk> \<Longrightarrow> ord y x < 0 \<longleftrightarrow> 0 < ord x y"
  using ord_swap [of x y] by (auto simp: sgn_if split: if_splits)

lemma ord_flip_zero: "\<lbrakk>keys x; keys y\<rbrakk> \<Longrightarrow> ord y x = 0 \<longleftrightarrow> ord x y = 0"
  using ord_swap [of x y] by (auto simp: sgn_if split: if_splits)

lemma ord_total: "\<lbrakk>keys x; keys y\<rbrakk> \<Longrightarrow> ord x y \<le> 0 \<or> ord y x \<le> 0"
  using ord_flip [of x y] by linarith

lemma ord_less_le_trans:
  assumes "keys x" "keys y" "keys z" "ord x y < 0" "ord y z \<le> 0"
  shows "ord x z < 0"
proof (rule ccontr)
  assume "\<not> ord x z < 0"
  then have "ord z x \<le> 0" using ord_flip [of z x] assms(1,3) ord_flip_zero [of z x] by force
  with assms(1-3,5) have "ord y x \<le> 0" by (blast intro: ord_trans)
  then show False using assms(1,2,4) ord_flip [of y x] by linarith
qed

lemma ord_le_less_trans:
  assumes "keys x" "keys y" "keys z" "ord x y \<le> 0" "ord y z < 0"
  shows "ord x z < 0"
proof (rule ccontr)
  assume "\<not> ord x z < 0"
  then have "ord z x \<le> 0" using ord_flip [of z x] assms(1,3) ord_flip_zero [of z x] by force
  with assms(1-4) have "ord z y \<le> 0" by (blast intro: ord_trans)
  then show False using assms(2,3,5) ord_flip [of z y] by linarith
qed

end

text \<open>
  The comments of the header: if \<open>start < limit\<close>, the separator changes \<open>start\<close> to a short
  string in \<open>[start, limit)\<close>; the successor changes a key to a short string not below it.
\<close>

locale shortening_comparator = comparator +
  assumes separator:
      "\<lbrakk>keys s; slice_ok l; keys (view l)\<rbrakk> \<Longrightarrow>
         \<exists>t. FindShortestSeparator cmp s l = Inr t \<and> keys t \<and> length t \<le> length s \<and>
           (if ord s (view l) < 0 then ord s t \<le> 0 \<and> ord t (view l) < 0 else t = s)"
    and successor:
      "keys k \<Longrightarrow>
         \<exists>t. FindShortSuccessor cmp k = Inr t \<and> keys t \<and> length t \<le> length k \<and> ord k t \<le> 0"

section \<open>Lemmas\<close>

subsection \<open>Incrementing one byte of a string\<close>

lemma unat_byte_succ: "b \<noteq> 0xff \<Longrightarrow> unat (b + 1 :: byte) = unat b + 1"
proof -
  assume "b \<noteq> 0xff"
  then have "unat b \<noteq> 255" by (simp add: word_unat_eq_iff)
  then show ?thesis using unsigned_less [of b, where 'a = nat] by (simp add: unat_word_ariths)
qed

lemma byte_succ_greater: "b \<noteq> 0xff \<Longrightarrow> b < b + (1 :: byte)"
  by (simp add: word_less_nat_alt unat_byte_succ)

lemma bytes_less_at:
  fixes xs ys :: bytes
  assumes "i < length xs" and "i < length ys" and "take i xs = take i ys" and "xs ! i < ys ! i"
  shows "xs < ys"
proof -
  have "xs = take i xs @ xs ! i # drop (Suc i) xs" and "ys = take i ys @ ys ! i # drop (Suc i) ys"
    using assms(1,2) by (simp_all only: id_take_nth_drop [symmetric])
  moreover have "ps @ x # us < ps @ y # vs" if "x < y" for ps us vs :: bytes and x y :: byte
    using that by (induction ps) auto
  ultimately show ?thesis using assms(3,4) by metis
qed

lemma bump_at:
  assumes "i < length s" and "s ! i \<noteq> (0xff :: byte)"
  shows "s < take (i + 1) (s[i := s ! i + 1])"
  using assms by (intro bytes_less_at [of i]) (auto simp: byte_succ_greater)

lemma common_prefix_loop_Inr:
  assumes "slice_ok l" "min_length \<le> length (view l)" "min_length \<le> length s"
    and "i \<le> min_length" "take i s = take i (view l)"
  shows "\<exists>d. common_prefix_loop s l min_length i = Inr d \<and> d \<le> min_length \<and>
    take d s = take d (view l) \<and> (d < min_length \<longrightarrow> s ! d \<noteq> view l ! d)"
  using assms
proof (induction s l min_length i rule: common_prefix_loop.induct)
  case (1 s l n i)
  show ?case
  proof (cases "i < n \<and> s ! i = view l ! i")
    case True
    then have "take (i + 1) s = take (i + 1) (view l)"
      using "1.prems" by (simp add: take_Suc_conv_app_nth)
    then show ?thesis
      using True "1.prems" "1.IH" [of "view l ! i"]
      by (subst common_prefix_loop.simps) (simp add: Slice_index_view)
  next
    case False
    then show ?thesis
      using "1.prems" by (subst common_prefix_loop.simps) (auto simp: Slice_index_view)
  qed
qed

subsection \<open>The bytewise comparator keeps the contract\<close>

lemma Bytewise_Compare_view:
  "slice_ok a \<Longrightarrow> slice_ok b \<Longrightarrow> Bytewise_Compare a b = Inr (cmp_bytes (view a) (view b))"
  by (simp add: Bytewise_Compare_def Slice_Compare_view)

text \<open>
  What the separator returns, on every branch: the common prefix with its next byte
  incremented when there is room for that byte below the limit's, the unchanged start
  otherwise; the assertion never fails.
\<close>

lemma Bytewise_separator_cases:
  assumes l: "slice_ok l"
  obtains (shortened) d where "d < length s" "d < length (view l)" "take d s = take d (view l)"
      "s ! d < view l ! d" "s ! d \<noteq> 0xff"
      "Bytewise_FindShortestSeparator s l = Inr (take (d + 1) (s[d := s ! d + 1]))"
      "take (d + 1) (s[d := s ! d + 1]) < view l"
  | (unchanged) "Bytewise_FindShortestSeparator s l = Inr s"
proof -
  let ?n = "min (length s) (Slice_Size l)"
  have n: "?n \<le> length (view l)" "?n \<le> length s"
    using l by (simp_all add: Slice_Size_def)
  obtain d where d: "common_prefix_loop s l ?n 0 = Inr d" "d \<le> ?n" "take d s = take d (view l)"
      "d < ?n \<longrightarrow> s ! d \<noteq> view l ! d"
    using common_prefix_loop_Inr [OF l n, of 0] by auto
  show thesis
  proof (cases "d < ?n \<and> s ! d < 0xff \<and> unat (s ! d) + 1 < unat (view l ! d)")
    case True
    then have dl: "d < length s" "d < length (view l)" using l by (auto simp: Slice_Size_def)
    let ?t = "take (d + 1) (s[d := s ! d + 1])"
    have ff: "s ! d \<noteq> 0xff" using True by auto
    then have "s ! d + 1 < view l ! d" using True by (simp add: word_less_nat_alt unat_byte_succ)
    then have lt: "?t < view l"
      using dl d(3) by (intro bytes_less_at [of d]) auto
    moreover have "Bytewise_FindShortestSeparator s l = Inr ?t"
      using True l d(1) lt dl
      by (auto simp: Bytewise_FindShortestSeparator_def Slice_index_view Bytewise_Compare_view
          cmp_bytes_less Let_def)
    moreover have "s ! d < view l ! d" using True by (simp add: word_less_nat_alt)
    ultimately show thesis using dl d(3) ff by (intro shortened) auto
  next
    case False
    have "Bytewise_FindShortestSeparator s l = Inr s"
      using False l d
      by (auto simp: Bytewise_FindShortestSeparator_def Slice_index_view Let_def Slice_Size_def)
    then show thesis by (rule unchanged)
  qed
qed

lemma short_successor_loop_cases:
  assumes "i \<le> length k" "n = length k" "\<forall>j < i. k ! j = 0xff"
  shows "(short_successor_loop k n i = k \<and> (\<forall>b \<in> set k. b = 0xff)) \<or>
    (\<exists>j < length k. k ! j \<noteq> 0xff \<and> (\<forall>m < j. k ! m = 0xff) \<and>
      short_successor_loop k n i = take (j + 1) (k[j := k ! j + 1]))"
  using assms
proof (induction k n i rule: short_successor_loop.induct)
  case (1 k n i)
  consider "i < n" "k ! i \<noteq> 0xff" | "i < n" "k ! i = 0xff" | "i = n"
    using "1.prems" by force
  then show ?case
  proof cases
    case 1
    then show ?thesis
      using "1.prems" by (subst (1 2) short_successor_loop.simps) (auto simp: Let_def)
  next
    case 2
    then have "\<forall>j < i + 1. k ! j = 0xff" using "1.prems" by (auto simp: less_Suc_eq)
    then show ?thesis
      using 2 "1.prems" "1.IH" by (subst (1 2) short_successor_loop.simps) (simp add: Let_def)
  next
    case 3
    then show ?thesis
      using "1.prems" by (subst (1 2) short_successor_loop.simps) (auto simp: in_set_conv_nth)
  qed
qed

lemma Bytewise_successor_ge:
  "\<exists>t. Bytewise_FindShortSuccessor k = Inr t \<and> length t \<le> length k \<and> k \<le> t"
proof -
  from short_successor_loop_cases [of 0 k "length k"] consider
      "short_successor_loop k (length k) 0 = k"
    | j where "j < length k" "k ! j \<noteq> 0xff"
        "short_successor_loop k (length k) 0 = take (j + 1) (k[j := k ! j + 1])"
    by auto
  then show ?thesis
    by cases (auto simp: Bytewise_FindShortSuccessor_def intro: less_imp_le bump_at [simplified])
qed

interpretation bytewise: shortening_comparator BytewiseComparatorImpl "\<lambda>_. True" cmp_bytes
proof unfold_locales
  fix a b
  assume "slice_ok a" "slice_ok b"
  then show "Compare BytewiseComparatorImpl a b = Inr (cmp_bytes (view a) (view b))"
    by (simp add: BytewiseComparatorImpl_def Bytewise_Compare_view)
next
  fix x y
  show "sgn (cmp_bytes y x) = - sgn (cmp_bytes x y)"
    by (simp add: cmp_bytes_swap [of x y])
next
  fix x y z
  assume "cmp_bytes x y \<le> 0" "cmp_bytes y z \<le> 0"
  then show "cmp_bytes x z \<le> 0"
    by (meson cmp_bytes_greater leD leI le_less_trans not_less)
next
  fix s l
  assume l: "slice_ok l"
  show "\<exists>t. FindShortestSeparator BytewiseComparatorImpl s l = Inr t \<and> True \<and>
      length t \<le> length s \<and>
      (if cmp_bytes s (view l) < 0 then cmp_bytes s t \<le> 0 \<and> cmp_bytes t (view l) < 0 else t = s)"
    using l
  proof (cases rule: Bytewise_separator_cases [of l s])
    case (shortened d)
    have "s < view l" using shortened by (intro bytes_less_at [of d]) auto
    moreover have "s < take (d + 1) (s[d := s ! d + 1])" using shortened by (intro bump_at)
    ultimately show ?thesis
      using shortened by (auto simp: BytewiseComparatorImpl_def cmp_bytes_less intro: less_imp_le)
  next
    case unchanged
    then show ?thesis by (simp add: BytewiseComparatorImpl_def cmp_bytes_eq [THEN iffD2])
  qed
next
  fix k
  show "\<exists>t. FindShortSuccessor BytewiseComparatorImpl k = Inr t \<and> True \<and>
      length t \<le> length k \<and> cmp_bytes k t \<le> 0"
    using Bytewise_successor_ge [of k]
    by (auto simp: BytewiseComparatorImpl_def le_less cmp_bytes_less [symmetric] cmp_bytes_eq)
qed


section \<open>Properties\<close>

text \<open>
  \<open>BytewiseComparatorImpl::FindShortestSeparator\<close> never faults (its reads of
  \<open>limit\<close> are in range and its assertion holds); when \<open>start < limit\<close> it returns a string
  in \<open>[start, limit)\<close> that is no longer than \<open>start\<close>, and otherwise it leaves
  \<open>start\<close> unchanged.
\<close>

theorem Bytewise_separator_contract:
  assumes "slice_ok limit"
  shows "\<exists>t. Bytewise_FindShortestSeparator start limit = Inr t \<and> length t \<le> length start \<and>
    (if start < view limit then start \<le> t \<and> t < view limit else t = start)"
  using bytewise.separator [of limit start] assms
  by (auto simp: BytewiseComparatorImpl_def cmp_bytes_less not_less [symmetric]
      cmp_bytes_greater [symmetric] split: if_splits)

theorem Bytewise_separator_contract_witness:
  "Bytewise_FindShortestSeparator [102, 111, 111] (Slice_string [104, 105]) = Inr [103] \<and>
   (\<exists>t. Bytewise_FindShortestSeparator [102, 111, 111] (Slice_string [104, 105]) = Inr t \<and>
    length t \<le> length [102, 111, 111 :: byte] \<and>
    (if [102, 111, 111] < [104, 105 :: byte] then [102, 111, 111] \<le> t \<and> t < [104, 105] else t = [102, 111, 111]))"
proof
  show "Bytewise_FindShortestSeparator [102, 111, 111] (Slice_string [104, 105]) = Inr [103]"
    by (simp add: Bytewise_FindShortestSeparator_def common_prefix_loop.simps Slice_index_view
        Bytewise_Compare_view cmp_bytes_def)
qed (use Bytewise_separator_contract [of "Slice_string [104, 105]" "[102, 111, 111]"] in simp)

text \<open>
  \<open>BytewiseComparatorImpl::FindShortSuccessor\<close> keeps the leading run of 0xff bytes,
  increments the first byte that is not 0xff and drops the rest; a run of 0xff bytes alone is
  left as it is. The result is never below the key.
\<close>

theorem Bytewise_successor_exact:
  "\<exists>t. Bytewise_FindShortSuccessor key = Inr t \<and> key \<le> t \<and>
    t = (case dropWhile (\<lambda>b. b = 0xff) key of [] \<Rightarrow> key
         | b # _ \<Rightarrow> takeWhile (\<lambda>b. b = 0xff) key @ [b + 1])"
proof -
  let ?P = "\<lambda>b. b = (0xff :: byte)"
  consider "short_successor_loop key (length key) 0 = key" "\<forall>b \<in> set key. b = 0xff"
    | j where "j < length key" "key ! j \<noteq> 0xff" "\<forall>m < j. key ! m = 0xff"
        "short_successor_loop key (length key) 0 = take (j + 1) (key[j := key ! j + 1])"
    using short_successor_loop_cases [of 0 key "length key"] by auto
  then have "short_successor_loop key (length key) 0 =
      (case dropWhile ?P key of [] \<Rightarrow> key | b # _ \<Rightarrow> takeWhile ?P key @ [b + 1])"
  proof cases
    case 1
    then have d: "dropWhile ?P key = []" by (simp only: dropWhile_eq_Nil_conv)
    show ?thesis by (simp only: d 1(1) list.case)
  next
    case (2 j)
    have k: "key = take j key @ key ! j # drop (Suc j) key"
      using 2(1) by (simp only: id_take_nth_drop [symmetric])
    have all: "\<forall>b \<in> set (take j key). b = 0xff" using 2 by (auto simp: in_set_conv_nth)
    have "dropWhile ?P key = key ! j # drop (Suc j) key" and "takeWhile ?P key = take j key"
      using all 2(2) by (subst k, simp)+
    then show ?thesis using 2 by (simp add: take_Suc_conv_app_nth)
  qed
  then show ?thesis
    using Bytewise_successor_ge [of key] by (auto simp: Bytewise_FindShortSuccessor_def)
qed

end
