(* ===== verification/Logging.thy ===== *)
theory Logging
  imports Slices
begin

text \<open>
  The escaping of byte strings for humans (src/db/Logging.h, src/db/Logging.cpp), and the
  decimal conversion of \<open>snprintf\<close> that debug strings use.
\<close>

section \<open>Definitions\<close>

text \<open>\<open>%02x\<close> of a value below 256, and \<open>%llu\<close> / \<open>%d\<close> of a number that is not negative.\<close>

definition hex_digit :: "nat \<Rightarrow> byte" where
  "hex_digit n = (if n < 10 then of_nat (48 + n) else of_nat (87 + n))"

definition hex2 :: "nat \<Rightarrow> bytes" where
  "hex2 n = [hex_digit (n div 16), hex_digit (n mod 16)]"

fun decimal :: "nat \<Rightarrow> bytes" where
  "decimal n = (if n < 10 then [of_nat (48 + n)] else decimal (n div 10) @ [of_nat (48 + n mod 10)])"

declare decimal.simps [simp del]

text \<open>\<open>snprintf\<close> into a buffer of \<open>n\<close> bytes keeps \<open>n - 1\<close> characters and ends in a NUL.\<close>

definition snprintf_cstr :: "nat \<Rightarrow> bytes \<Rightarrow> bytes" where
  "snprintf_cstr n text = take (n - 1) text"

function AppendEscapeStringto_loop :: "bytes \<Rightarrow> slice \<Rightarrow> nat \<Rightarrow> bytes res" where
  "AppendEscapeStringto_loop target s i =
     (if i < Slice_Size s then
        rbind (Slice_index s i) (\<lambda>c.
        if sint c \<ge> 32 \<and> sint c \<le> 126
        then AppendEscapeStringto_loop (target @ [c]) s (i + 1)
        else AppendEscapeStringto_loop
               (target @ snprintf_cstr 10 (lit [CHR 0x5C, CHR ''x''] @ hex2 (unat (scast c AND (0xff :: u32)))))
               s (i + 1))
      else Inr target)"
  by pat_completeness auto
termination
  by (relation "measure (\<lambda>(target, s, i). Slice_Size s - i)") auto

declare AppendEscapeStringto_loop.simps [simp del]

definition AppendEscapeStringto :: "bytes \<Rightarrow> slice \<Rightarrow> bytes res" where
  "AppendEscapeStringto target s = AppendEscapeStringto_loop target s 0"

definition EscapeString :: "slice \<Rightarrow> bytes res" where
  "EscapeString s = AppendEscapeStringto [] s"

subsection \<open>Specification\<close>

definition printable :: "byte \<Rightarrow> bool" where
  "printable c \<longleftrightarrow> 32 \<le> unat c \<and> unat c \<le> 126"

definition escape_byte :: "byte \<Rightarrow> bytes" where
  "escape_byte c = (if printable c then [c] else [92, 120] @ hex2 (unat c))"

section \<open>Lemmas\<close>

lemma sint_byte: "sint (c::byte) = (if uint c < 128 then uint c else uint c - 256)"
proof -
  have u: "uint c < 256" "0 \<le> uint c" using unsigned_less [of c, where 'a = int] by simp_all
  then have "uint c div 128 = (if uint c < 128 then 0 else 1)" by auto
  then have b: "bit (uint c) 7 \<longleftrightarrow> \<not> uint c < 128"
    by (simp add: bit_iff_odd)
  have "sint c = take_bit 8 (uint c) - 2 ^ 8 * of_bool (bit (uint c) 7)"
    by (simp add: sint_uint signed_take_bit_eq_take_bit_minus)
  then show ?thesis using u by (simp add: b take_bit_int_eq_self)
qed
lemma scast_low_byte: "unat (scast (c :: byte) AND (0xff :: u32)) = unat c"
proof -
  have m: "(0xff :: u32) = mask 8" by (simp add: mask_eq_exp_minus_1)
  have "scast c AND (mask 8 :: u32) = ucast c"
    by (intro bit_word_eqI)
       (auto simp: bit_and_iff bit_mask_iff bit_ucast_iff bit_word_scast_iff dest: bit_imp_le_length)
  then show ?thesis unfolding m by (simp add: unat_ucast_up)
qed

lemma sint_printable: "32 \<le> sint (c :: byte) \<and> sint c \<le> 126 \<longleftrightarrow> printable c"
proof -
  have u: "uint c < 256" "0 \<le> uint c" using unsigned_less [of c, where 'a = int] by simp_all
  obtain k where "uint c = int k" "unat c = k"
    using u by (metis unat_eq_nat_uint int_nat_eq)
  then show ?thesis using u by (auto simp: printable_def sint_byte)
qed

lemma escape_text [simp]: "snprintf_cstr 10 (92 # 120 # hex2 n) = 92 # 120 # hex2 n"
  by (simp add: snprintf_cstr_def hex2_def)

lemma escape_byte_cases:
  "printable c \<Longrightarrow> escape_byte c = [c]"
  "\<not> printable c \<Longrightarrow> escape_byte c = 92 # 120 # hex2 (unat c)"
  by (simp_all add: escape_byte_def)

lemma AppendEscapeStringto_loop_view:
  "slice_ok s \<Longrightarrow> AppendEscapeStringto_loop target s i =
     Inr (target @ concat (map escape_byte (drop i (view s))))"
proof (induction target s i rule: AppendEscapeStringto_loop.induct)
  case (1 target s i)
  show ?case
  proof (cases "i < length (view s)")
    case True
    then have d: "drop i (view s) = view s ! i # drop (i + 1) (view s)"
      using "1.prems" by (simp add: Cons_nth_drop_Suc)
    have idx: "Slice_index s i = Inr (view s ! i)" "i < Slice_Size s"
      using True "1.prems" by (simp_all add: Slice_index_view Slice_Size_def)
    show ?thesis
      using "1.prems" idx "1.IH" [OF idx(2) idx(1)]
      by (cases "printable (view s ! i)"; subst AppendEscapeStringto_loop.simps)
         (simp_all add: sint_printable d escape_byte_cases scast_low_byte)
  next
    case False
    then show ?thesis
      using "1.prems" by (subst AppendEscapeStringto_loop.simps) (simp add: Slice_Size_def)
  qed
qed

lemma AppendEscapeStringto_view [simp]:
  "slice_ok s \<Longrightarrow> AppendEscapeStringto target s = Inr (target @ concat (map escape_byte (view s)))"
  by (simp add: AppendEscapeStringto_def AppendEscapeStringto_loop_view)

lemma EscapeString_view [simp]:
  "slice_ok s \<Longrightarrow> EscapeString s = Inr (concat (map escape_byte (view s)))"
  by (simp add: EscapeString_def)

lemma hex_digit_printable: "n < 16 \<Longrightarrow> printable (hex_digit n)"
  by (auto simp: hex_digit_def printable_def unat_of_nat simp del: of_nat_add)

lemma escape_byte_printable: "\<forall>b \<in> set (escape_byte c). printable b"
proof -
  have "unat c div 16 < 16" "unat c mod 16 < 16"
    using unat_byte_less [of c] by (simp_all add: less_mult_imp_div_less)
  moreover have "printable 92" "printable 120" by (simp_all add: printable_def)
  ultimately show ?thesis
    by (auto simp: escape_byte_def hex2_def hex_digit_printable)
qed

lemma length_escape_byte: "1 \<le> length (escape_byte c) \<and> length (escape_byte c) \<le> 4"
  by (simp add: escape_byte_def hex2_def)

section \<open>Properties\<close>

text \<open>
  \<open>EscapeString\<close> of a slice inside its object never faults, returns printable ASCII
  only, byte by byte (a printable byte is itself, any other the four characters of its
  hexadecimal escape), so that the text is between once and four times as long as the input
  and a printable input is returned unchanged.
\<close>

theorem EscapeString_printable:
  assumes "slice_ok s"
  shows "\<exists>r. EscapeString s = Inr r \<and> r = concat (map escape_byte (view s)) \<and> list_all printable r
    \<and> length (view s) \<le> length r \<and> length r \<le> 4 * length (view s)
    \<and> (list_all printable (view s) \<longrightarrow> r = view s)"
proof -
  have all: "list_all printable (concat (map escape_byte xs)) \<and> length xs \<le> length (concat (map escape_byte xs))
    \<and> length (concat (map escape_byte xs)) \<le> 4 * length xs
    \<and> (list_all printable xs \<longrightarrow> concat (map escape_byte xs) = xs)" for xs
  proof (induction xs)
    case Nil
    then show ?case by simp
  next
    case (Cons x xs)
    have "list_all printable (escape_byte x)"
      using escape_byte_printable [of x] by (simp add: list_all_iff)
    then show ?case
      using Cons.IH length_escape_byte [of x]
      by (cases "printable x") (simp_all add: escape_byte_cases(1))
  qed
  show ?thesis using all [of "view s"] assms by simp
qed

theorem EscapeString_printable_witness:
  "\<exists>r. EscapeString (Slice_string [97, 0, 200]) = Inr r \<and> list_all printable r
    \<and> r = [97, 92, 120, 48, 48, 92, 120, 99, 56]"
  using EscapeString_printable [of "Slice_string [97, 0, 200]"]
  by (simp add: escape_byte_def printable_def hex2_def hex_digit_def)

end
