(* ===== verification/DB_Format.thy ===== *)
theory DB_Format
  imports Comparators Coding Logging
begin

text \<open>
  Internal keys (src/db/DBFormat.h, src/db/DBFormat.cpp): a user key followed by eight bytes
  that pack a 56-bit sequence number and a value type, their serialization and parsing, and
  the comparator that orders them by user key, then by decreasing sequence number and type.
  The comparator is parameterised by the user's \<open>Comparator\<close> object, as the class is; the
  locale \<open>user_comparator\<close> shows that it keeps the contract of theory \<open>Comparators\<close>
  whenever the user's does, and is interpreted on the bytewise comparator. A value type is
  kept as the byte it is stored as, since the code casts unchecked bytes to the enumeration.
\<close>

section \<open>Definitions\<close>

type_synonym ValueType = byte

definition kTypeDeletion :: ValueType where "kTypeDeletion = 0"

definition kTypeValue :: ValueType where "kTypeValue = 1"

definition kValueTypeForSeek :: ValueType where "kValueTypeForSeek = kTypeValue"

definition kMaxSequenceNumber :: u64 where
  "kMaxSequenceNumber = push_bit 56 1 - 1"

record ParsedInternalKey =
  user_key :: slice
  sequence_no :: u64
  value_type :: ValueType

definition InternalKeyEncodingLength :: "ParsedInternalKey \<Rightarrow> nat" where
  "InternalKeyEncodingLength key = Slice_Size (user_key key) + 8"

definition PackSequenceAndType :: "u64 \<Rightarrow> ValueType \<Rightarrow> u64 res" where
  "PackSequenceAndType seq t =
     rbind (rassert (seq \<le> kMaxSequenceNumber)) (\<lambda>_.
     rbind (rassert (t \<le> kValueTypeForSeek)) (\<lambda>_.
     Inr (push_bit 8 seq OR ucast t)))"

definition AppendInternalKey :: "bool \<Rightarrow> bytes \<Rightarrow> ParsedInternalKey \<Rightarrow> bytes res" where
  "AppendInternalKey little result key =
     rbind (ptr_read (Slice_Data (user_key key)) (Slice_Size (user_key key))) (\<lambda>uk.
     rbind (PackSequenceAndType (sequence_no key) (value_type key)) (\<lambda>packed.
     PutFixed64 little (result @ uk) packed))"

text \<open>The boolean result and the out parameter are one option.\<close>

definition ParseInternalKey :: "bool \<Rightarrow> slice \<Rightarrow> ParsedInternalKey option res" where
  "ParseInternalKey little internal_key =
     (let n = Slice_Size internal_key in
      if n < 8 then Inr None
      else
        rbind (DecodeFixed64 little (ptr_add (Slice_Data internal_key) (n - 8))) (\<lambda>num.
        let c = ucast (num AND 0xff) :: byte in
        Inr (Some \<lparr>user_key = Slice_ptr (Slice_Data internal_key) (n - 8),
                   sequence_no = drop_bit 8 num, value_type = c\<rparr>)))"

definition ExtractUserKey :: "slice \<Rightarrow> slice res" where
  "ExtractUserKey internal_key =
     rbind (rassert (Slice_Size internal_key \<ge> 8)) (\<lambda>_.
     Inr (Slice_ptr (Slice_Data internal_key) (Slice_Size internal_key - 8)))"

definition ExtractValueType :: "bool \<Rightarrow> slice \<Rightarrow> ValueType res" where
  "ExtractValueType little internal_key =
     rbind (rassert (Slice_Size internal_key \<ge> 8)) (\<lambda>_.
     let n = Slice_Size internal_key in
     rbind (DecodeFixed64 little (ptr_add (Slice_Data internal_key) (n - 8))) (\<lambda>num.
     Inr (ucast (num AND 0xff))))"

definition ParsedInternalKey_DebugString :: "ParsedInternalKey \<Rightarrow> bytes res" where
  "ParsedInternalKey_DebugString key =
     (let buf = snprintf_cstr 50 (lit ''@ '' @ decimal (unat (sequence_no key)) @ lit '' : ''
                                   @ decimal (unat (value_type key))) in
      rbind (EscapeString (user_key key)) (\<lambda>escaped.
      Inr (lit [CHR 0x27] @ escaped @ buf)))"

subsection \<open>InternalKeyComparator\<close>

definition InternalKey_Compare :: "bool \<Rightarrow> Comparator \<Rightarrow> slice \<Rightarrow> slice \<Rightarrow> int res" where
  "InternalKey_Compare little user_comparator a b =
     rbind (ExtractUserKey a) (\<lambda>ua.
     rbind (ExtractUserKey b) (\<lambda>ub.
     rbind (Compare user_comparator ua ub) (\<lambda>result.
     if result = 0 then
       rbind (DecodeFixed64 little (ptr_add (Slice_Data a) (Slice_Size a - 8))) (\<lambda>num_a.
       rbind (DecodeFixed64 little (ptr_add (Slice_Data b) (Slice_Size b - 8))) (\<lambda>num_b.
       Inr (if num_a > num_b then -1 else if num_a < num_b then 1 else result)))
     else Inr result)))"

definition InternalKey_FindShortestSeparator ::
    "bool \<Rightarrow> Comparator \<Rightarrow> bytes \<Rightarrow> slice \<Rightarrow> bytes res" where
  "InternalKey_FindShortestSeparator little user_comparator start limit =
     rbind (ExtractUserKey (Slice_string start)) (\<lambda>user_start.
     rbind (ExtractUserKey limit) (\<lambda>user_limit.
     rbind (Slice_String user_start) (\<lambda>tmp0.
     rbind (FindShortestSeparator user_comparator tmp0 user_limit) (\<lambda>tmp.
     rbind (if length tmp < Slice_Size user_start
            then rbind (Compare user_comparator user_start (Slice_string tmp)) (\<lambda>c. Inr (c < 0))
            else Inr False) (\<lambda>shorter.
     if shorter then
       rbind (PackSequenceAndType kMaxSequenceNumber kValueTypeForSeek) (\<lambda>packed.
       rbind (PutFixed64 little tmp packed) (\<lambda>tmp'.
       rbind (InternalKey_Compare little user_comparator (Slice_string start) (Slice_string tmp')) (\<lambda>c1.
       rbind (rassert (c1 < 0)) (\<lambda>_.
       rbind (InternalKey_Compare little user_comparator (Slice_string tmp') limit) (\<lambda>c2.
       rbind (rassert (c2 < 0)) (\<lambda>_.
       Inr tmp'))))))
     else Inr start)))))"

definition InternalKey_FindShortSuccessor :: "bool \<Rightarrow> Comparator \<Rightarrow> bytes \<Rightarrow> bytes res" where
  "InternalKey_FindShortSuccessor little user_comparator key =
     rbind (ExtractUserKey (Slice_string key)) (\<lambda>user_key.
     rbind (Slice_String user_key) (\<lambda>tmp0.
     rbind (FindShortSuccessor user_comparator tmp0) (\<lambda>tmp.
     rbind (if length tmp < Slice_Size user_key
            then rbind (Compare user_comparator user_key (Slice_string tmp)) (\<lambda>c. Inr (c < 0))
            else Inr False) (\<lambda>shorter.
     if shorter then
       rbind (PackSequenceAndType kMaxSequenceNumber kValueTypeForSeek) (\<lambda>packed.
       rbind (PutFixed64 little tmp packed) (\<lambda>tmp'.
       rbind (InternalKey_Compare little user_comparator (Slice_string key) (Slice_string tmp')) (\<lambda>c.
       rbind (rassert (c < 0)) (\<lambda>_.
       Inr tmp'))))
     else Inr key))))"

definition InternalKeyComparator :: "bool \<Rightarrow> Comparator \<Rightarrow> Comparator" where
  "InternalKeyComparator little user_comparator =
     \<lparr>Compare = InternalKey_Compare little user_comparator,
      Name = lit ''releveldb.InternalKeyComparator'',
      FindShortestSeparator = InternalKey_FindShortestSeparator little user_comparator,
      FindShortSuccessor = InternalKey_FindShortSuccessor little user_comparator\<rparr>"

subsection \<open>InternalKey\<close>

text \<open>An \<open>InternalKey\<close> is its string \<open>rep_\<close>.\<close>

record InternalKey =
  rep :: bytes

definition InternalKey_default :: InternalKey where
  "InternalKey_default = \<lparr>rep = []\<rparr>"

definition InternalKey_new :: "bool \<Rightarrow> slice \<Rightarrow> u64 \<Rightarrow> ValueType \<Rightarrow> InternalKey res" where
  "InternalKey_new little key s t =
     rbind (AppendInternalKey little [] \<lparr>user_key = key, sequence_no = s, value_type = t\<rparr>) (\<lambda>r.
     Inr \<lparr>rep = r\<rparr>)"

definition InternalKey_DecodeFrom :: "InternalKey \<Rightarrow> slice \<Rightarrow> InternalKey res" where
  "InternalKey_DecodeFrom k s =
     rbind (ptr_read (Slice_Data s) (Slice_Size s)) (\<lambda>r. Inr (k\<lparr>rep := r\<rparr>))"

definition InternalKey_Encode :: "InternalKey \<Rightarrow> slice res" where
  "InternalKey_Encode k = rbind (rassert (rep k \<noteq> [])) (\<lambda>_. Inr (Slice_string (rep k)))"

definition InternalKey_UserKey :: "InternalKey \<Rightarrow> slice res" where
  "InternalKey_UserKey k = ExtractUserKey (Slice_string (rep k))"

definition InternalKey_Clear :: "InternalKey \<Rightarrow> InternalKey" where
  "InternalKey_Clear k = k\<lparr>rep := []\<rparr>"

definition InternalKeyComparator_CompareKeys ::
    "bool \<Rightarrow> Comparator \<Rightarrow> InternalKey \<Rightarrow> InternalKey \<Rightarrow> int res" where
  "InternalKeyComparator_CompareKeys little user_comparator a b =
     rbind (InternalKey_Encode a) (\<lambda>ea.
     rbind (InternalKey_Encode b) (\<lambda>eb.
     InternalKey_Compare little user_comparator ea eb))"

definition InternalKey_DebugString :: "bool \<Rightarrow> InternalKey \<Rightarrow> bytes res" where
  "InternalKey_DebugString little k =
     rbind (ParseInternalKey little (Slice_string (rep k))) (\<lambda>p.
     case p of
       Some parsed \<Rightarrow> ParsedInternalKey_DebugString parsed
     | None \<Rightarrow> AppendEscapeStringto (lit ''(bad)'') (Slice_string (rep k)))"

subsection \<open>Specification\<close>

text \<open>An internal key as bytes is a user key and a packed number.\<close>

definition ikey_user :: "bytes \<Rightarrow> bytes" where
  "ikey_user k = take (length k - 8) k"

definition ikey_tag :: "bytes \<Rightarrow> u64" where
  "ikey_tag k = le_word (drop (length k - 8) k)"

definition ikeys :: "(bytes \<Rightarrow> bool) \<Rightarrow> bytes \<Rightarrow> bool" where
  "ikeys keys k \<longleftrightarrow> 8 \<le> length k \<and> keys (ikey_user k)"

definition ikey_ord :: "(bytes \<Rightarrow> bytes \<Rightarrow> int) \<Rightarrow> bytes \<Rightarrow> bytes \<Rightarrow> int" where
  "ikey_ord ord a b =
     (let c = ord (ikey_user a) (ikey_user b) in
      if c = 0 then (if ikey_tag b < ikey_tag a then -1 else if ikey_tag a < ikey_tag b then 1 else 0)
      else c)"

definition ikey_bytes :: "bytes \<Rightarrow> u64 \<Rightarrow> ValueType \<Rightarrow> bytes" where
  "ikey_bytes uk seq t = uk @ le_bytes 8 (push_bit 8 seq OR ucast t)"

section \<open>Lemmas\<close>

subsection \<open>Packing\<close>

lemma kMaxSequenceNumber_mask: "kMaxSequenceNumber = mask 56"
  by (simp add: kMaxSequenceNumber_def mask_eq_exp_minus_1)

lemma kValueTypeForSeek_1 [simp]: "kValueTypeForSeek = 1"
  by (simp add: kValueTypeForSeek_def kTypeValue_def)

lemma pack_type: "ucast ((push_bit 8 seq OR ucast t) AND (0xff :: u64)) = (t :: byte)"
  unfolding ucast_and_255
  by (rule bit_word_eqI) (auto simp: bit_ucast_iff bit_or_iff bit_push_bit_iff)

lemma pack_sequence:
  assumes "seq \<le> kMaxSequenceNumber"
  shows "drop_bit 8 (push_bit 8 seq OR ucast (t :: byte) :: u64) = seq"
proof (rule bit_word_eqI)
  fix n assume n: "n < LENGTH(64)"
  have "unat seq \<le> unat (mask 56 :: u64)"
    using assms unfolding kMaxSequenceNumber_mask by (simp add: word_le_nat_alt)
  then have "unat seq < 2 ^ 56" by (simp add: mask_eq_exp_minus_1)
  then have "take_bit 56 seq = seq"
    by (simp add: word_unat_eq_iff unsigned_take_bit_eq take_bit_nat_eq_self)
  then have "bit seq n \<Longrightarrow> n < 56" by (metis bit_take_bit_iff)
  moreover have "\<not> bit t (8 + n)" by (auto dest: bit_imp_le_length)
  ultimately show "bit (drop_bit 8 (push_bit 8 seq OR ucast t)) n = bit seq n"
    using n by (auto simp: bit_drop_bit_eq bit_or_iff bit_push_bit_iff bit_ucast_iff)
qed


lemma PackSequenceAndType_Inr:
  "seq \<le> kMaxSequenceNumber \<Longrightarrow> t \<le> kValueTypeForSeek \<Longrightarrow>
     PackSequenceAndType seq t = Inr (push_bit 8 seq OR ucast t)"
  by (simp add: PackSequenceAndType_def)

subsection \<open>The parts of an internal key\<close>

lemma ikey_parts_append [simp]:
  "ikey_user (uk @ le_bytes 8 v) = uk" "ikey_tag (uk @ le_bytes 8 v) = v"
  by (simp_all add: ikey_user_def ikey_tag_def le_word_le_bytes take_bit_word_eq_self)

lemma ikey_bytes_parts [simp]:
  "ikey_user (ikey_bytes uk seq t) = uk"
  "ikey_tag (ikey_bytes uk seq t) = push_bit 8 seq OR ucast t"
  "length (ikey_bytes uk seq t) = length uk + 8"
  by (simp_all add: ikey_bytes_def)

lemma ikey_eqI:
  assumes "8 \<le> length a" "8 \<le> length b" "ikey_user a = ikey_user b" "ikey_tag a = ikey_tag b"
  shows "a = b"
proof -
  have "drop (length k - 8) k = le_bytes 8 (ikey_tag k)" if "8 \<le> length k" for k
    using le_bytes_le_word [of "drop (length k - 8) k", where 'a = 64] that
    by (simp add: ikey_tag_def)
  then have "k = ikey_user k @ le_bytes 8 (ikey_tag k)" if "8 \<le> length k" for k
    using that by (metis append_take_drop_id ikey_user_def)
  then show ?thesis using assms by metis
qed

lemma ExtractUserKey_view:
  assumes "slice_ok k" and "8 \<le> length (view k)"
  shows "\<exists>u. ExtractUserKey k = Inr u \<and> slice_ok u \<and> view u = ikey_user (view k)
    \<and> Slice_Size u = length (view k) - 8"
  using assms Slice_ptr_sub [of k "s_size k - 8"]
  by (simp add: ExtractUserKey_def Slice_Size_def Slice_Data_def ikey_user_def)
     (simp add: Slice_ptr_def)

lemma DecodeFixed64_tail:
  assumes "slice_ok k" and "8 \<le> length (view k)"
  shows "DecodeFixed64 little (ptr_add (Slice_Data k) (Slice_Size k - 8)) = Inr (ikey_tag (view k))"
proof -
  have k: "snd (s_data k) + s_size k \<le> length (fst (s_data k))" "8 \<le> s_size k"
    using assms by (simp_all add: slice_ok_def)
  then have "drop (s_size k - 8) (view k) = take 8 (drop (snd (s_data k) + (s_size k - 8)) (fst (s_data k)))"
    by (simp add: view_def drop_take add.commute)
  then show ?thesis
    using k assms
    by (simp add: DecodeFixed64_bytes ptr_add_def Slice_Data_def Slice_Size_def ikey_tag_def)
qed

lemma ParseInternalKey_view:
  assumes "slice_ok k"
  shows "if length (view k) < 8 then ParseInternalKey little k = Inr None
    else \<exists>p. ParseInternalKey little k = Inr (Some p) \<and> slice_ok (user_key p)
      \<and> view (user_key p) = ikey_user (view k) \<and> sequence_no p = drop_bit 8 (ikey_tag (view k))
      \<and> value_type p = ucast (ikey_tag (view k) AND 0xff)"
  using assms DecodeFixed64_tail [OF assms, of little] Slice_ptr_sub [of k "s_size k - 8"]
  by (auto simp: ParseInternalKey_def Let_def Slice_Size_def Slice_Data_def ikey_user_def)

lemma unpack_pack: "push_bit 8 (drop_bit 8 v) OR ucast (ucast (v AND 0xff) :: byte) = (v :: u64)"
  unfolding ucast_and_255
  by (rule bit_word_eqI) (auto simp: bit_ucast_iff bit_or_iff bit_push_bit_iff bit_drop_bit_eq dest: bit_imp_le_length)

lemma drop_bit_max: "drop_bit 8 (v :: u64) \<le> kMaxSequenceNumber"
proof -
  have "unat v < 2 ^ 64" using unsigned_less [of v] by simp
  then have "drop_bit 8 (unat v) \<le> 2 ^ 56 - 1" by (simp add: drop_bit_eq_div)
  then have "unat (drop_bit 8 v) \<le> 2 ^ 56 - 1" by (simp only: unat_drop_bit_eq)
  then show ?thesis unfolding kMaxSequenceNumber_mask by (simp add: word_le_nat_alt mask_eq_exp_minus_1)
qed

lemma ikey_split:
  assumes "8 \<le> length k"
  shows "ikey_bytes (ikey_user k) (drop_bit 8 (ikey_tag k)) (ucast (ikey_tag k AND 0xff)) = k"
proof -
  have "drop (length k - 8) k = le_bytes 8 (ikey_tag k)"
    using le_bytes_le_word [of "drop (length k - 8) k", where 'a = 64] assms by (simp add: ikey_tag_def)
  then have "k = ikey_user k @ le_bytes 8 (ikey_tag k)" by (metis append_take_drop_id ikey_user_def)
  then show ?thesis unfolding ikey_bytes_def unpack_pack by simp
qed

lemma AppendInternalKey_bytes:
  assumes "slice_ok (user_key key)" "sequence_no key \<le> kMaxSequenceNumber"
    "value_type key \<le> kValueTypeForSeek"
  shows "AppendInternalKey little result key =
    Inr (result @ ikey_bytes (view (user_key key)) (sequence_no key) (value_type key))"
  using assms
  by (simp add: AppendInternalKey_def PackSequenceAndType_def Slice_Data_def Slice_Size_def
      ikey_bytes_def)

lemma ExtractValueType_view:
  assumes "slice_ok k" and "8 \<le> length (view k)"
  shows "ExtractValueType little k = Inr (ucast (ikey_tag (view k) AND 0xff))"
  using assms DecodeFixed64_tail [OF assms, of little] by (simp add: ExtractValueType_def Slice_Size_def)

text \<open>A parsed key whose type is one of the two is written back as it was.\<close>

lemma Append_of_Parse:
  assumes "slice_ok k" and "ParseInternalKey reader_little k = Inr (Some q)" and "value_type q \<le> kValueTypeForSeek"
  shows "AppendInternalKey writer_little [] q = Inr (view k)"
proof -
  have len: "8 \<le> length (view k)"
    using ParseInternalKey_view [OF assms(1), of reader_little] assms(2) by (auto split: if_splits)
  then have q: "slice_ok (user_key q)" "view (user_key q) = ikey_user (view k)"
    "sequence_no q = drop_bit 8 (ikey_tag (view k))" "value_type q = ucast (ikey_tag (view k) AND 0xff)"
    using ParseInternalKey_view [OF assms(1), of reader_little] assms(2) by (auto split: if_splits)
  have "AppendInternalKey writer_little [] q = Inr (ikey_bytes (view (user_key q)) (sequence_no q) (value_type q))"
    using AppendInternalKey_bytes [of q writer_little "[]"] q(1,3) assms(3) drop_bit_max by simp
  then show ?thesis unfolding q(2-4) ikey_split [OF len] .
qed

lemma InternalKeyComparator_methods [simp]:
  "Compare (InternalKeyComparator little c) = InternalKey_Compare little c"
  "FindShortestSeparator (InternalKeyComparator little c) = InternalKey_FindShortestSeparator little c"
  "FindShortSuccessor (InternalKeyComparator little c) = InternalKey_FindShortSuccessor little c"
  by (simp_all add: InternalKeyComparator_def)

subsection \<open>The order of internal keys\<close>

context comparator
begin

lemma InternalKey_Compare_view:
  assumes a: "slice_ok a" "ikeys keys (view a)" and b: "slice_ok b" "ikeys keys (view b)"
  shows "InternalKey_Compare little cmp a b = Inr (ikey_ord ord (view a) (view b))"
proof -
  have la: "8 \<le> length (view a)" and lb: "8 \<le> length (view b)"
    using a(2) b(2) by (simp_all only: ikeys_def)
  obtain ua where ua: "ExtractUserKey a = Inr ua" "slice_ok ua" "view ua = ikey_user (view a)"
    using ExtractUserKey_view [OF a(1) la] by blast
  obtain ub where ub: "ExtractUserKey b = Inr ub" "slice_ok ub" "view ub = ikey_user (view b)"
    using ExtractUserKey_view [OF b(1) lb] by blast
  have "Compare cmp ua ub = Inr (ord (ikey_user (view a)) (ikey_user (view b)))"
    using Compare_ord [of ua ub] ua ub a(2) b(2) by (simp add: ikeys_def)
  then show ?thesis
    by (simp add: InternalKey_Compare_def ua ub ikey_ord_def Let_def
        DecodeFixed64_tail [OF a(1) la] DecodeFixed64_tail [OF b(1) lb])
qed

lemma ikey_ord_swap:
  assumes "ikeys keys x" "ikeys keys y"
  shows "sgn (ikey_ord ord y x) = - sgn (ikey_ord ord x y)"
proof -
  have "keys (ikey_user x)" "keys (ikey_user y)" using assms by (simp_all add: ikeys_def)
  then show ?thesis
    using ord_swap [of "ikey_user x" "ikey_user y"] ord_flip_zero [of "ikey_user x" "ikey_user y"]
    by (auto simp: ikey_ord_def Let_def)
qed

lemma ikey_ord_trans:
  assumes "ikeys keys x" "ikeys keys y" "ikeys keys z" "ikey_ord ord x y \<le> 0" "ikey_ord ord y z \<le> 0"
  shows "ikey_ord ord x z \<le> 0"
proof -
  let ?u = ikey_user
  have k: "keys (?u x)" "keys (?u y)" "keys (?u z)" using assms by (simp_all add: ikeys_def)
  have xy: "ord (?u x) (?u y) < 0 \<or> ord (?u x) (?u y) = 0 \<and> ikey_tag y \<le> ikey_tag x"
    and yz: "ord (?u y) (?u z) < 0 \<or> ord (?u y) (?u z) = 0 \<and> ikey_tag z \<le> ikey_tag y"
    using assms(4,5) by (auto simp: ikey_ord_def Let_def split: if_splits)
  have "ord (?u x) (?u z) < 0 \<or> ord (?u x) (?u z) \<le> 0 \<and> ikey_tag z \<le> ikey_tag x"
  proof (cases "ord (?u x) (?u y) < 0 \<or> ord (?u y) (?u z) < 0")
    case True
    then show ?thesis
      using xy yz ord_less_le_trans [OF k] ord_le_less_trans [OF k] by fastforce
  next
    case False
    then show ?thesis using xy yz ord_trans [OF k] by auto
  qed
  then show ?thesis by (auto simp: ikey_ord_def Let_def)
qed

end

text \<open>
  A user comparator that keeps the contract makes an internal-key comparator that keeps it,
  on all byte strings of at least eight bytes whose user part the user comparator accepts.
\<close>

locale user_comparator = shortening_comparator +
  fixes little :: bool
begin

lemma InternalKey_separator:
  assumes s: "ikeys keys s" and l: "slice_ok l" "ikeys keys (view l)"
  shows "\<exists>t. InternalKey_FindShortestSeparator little cmp s l = Inr t \<and> ikeys keys t \<and>
    length t \<le> length s \<and>
    (if ikey_ord ord s (view l) < 0 then ikey_ord ord s t \<le> 0 \<and> ikey_ord ord t (view l) < 0 else t = s)"
proof -
  have len: "8 \<le> length s" "8 \<le> length (view l)" using s l(2) by (simp_all only: ikeys_def)
  have k: "keys (ikey_user s)" "keys (ikey_user (view l))" using s l(2) by (simp_all add: ikeys_def)
  obtain us where us: "ExtractUserKey (Slice_string s) = Inr us" "slice_ok us"
      "view us = ikey_user s" "Slice_Size us = length s - 8"
    using ExtractUserKey_view [of "Slice_string s"] len(1) by auto
  obtain ul where ul: "ExtractUserKey l = Inr ul" "slice_ok ul" "view ul = ikey_user (view l)"
    using ExtractUserKey_view [OF l(1) len(2)] by blast
  obtain t where t: "FindShortestSeparator cmp (ikey_user s) ul = Inr t" "keys t"
      "if ord (ikey_user s) (ikey_user (view l)) < 0
       then ord (ikey_user s) t \<le> 0 \<and> ord t (ikey_user (view l)) < 0 else t = ikey_user s"
    using separator [of "ikey_user s" ul, unfolded ul(3)] k ul(2) by blast
  have cmp_t: "Compare cmp us (Slice_string t) = Inr (ord (ikey_user s) t)"
    using Compare_ord [of us "Slice_string t"] us k t(2) by simp
  let ?t' = "t @ le_bytes 8 (push_bit 8 kMaxSequenceNumber OR 1)"
  show ?thesis
  proof (cases "length t < length s - 8 \<and> ord (ikey_user s) t < 0")
    case True
    have "ord (ikey_user s) (ikey_user (view l)) < 0" "ord t (ikey_user (view l)) < 0"
      using t(3) True ord_refl [OF k(1)] by (auto split: if_splits)
    then have c: "ikey_ord ord s ?t' < 0" "ikey_ord ord ?t' (view l) < 0" "ikey_ord ord s (view l) < 0"
      using True by (simp_all add: ikey_ord_def Let_def)
    have t': "ikeys keys ?t'" using t(2) by (simp add: ikeys_def)
    have "InternalKey_FindShortestSeparator little cmp s l = Inr ?t'"
      using True us ul t(1) cmp_t c s l t'
      by (simp add: InternalKey_FindShortestSeparator_def PackSequenceAndType_def
          InternalKey_Compare_view)
    then show ?thesis using True t' c by auto
  next
    case False
    then have "InternalKey_FindShortestSeparator little cmp s l = Inr s"
      using us ul t(1) cmp_t by (auto simp: InternalKey_FindShortestSeparator_def)
    then show ?thesis using s ord_refl [OF k(1)] by (auto simp: ikey_ord_def)
  qed
qed

lemma InternalKey_successor:
  assumes s: "ikeys keys s"
  shows "\<exists>t. InternalKey_FindShortSuccessor little cmp s = Inr t \<and> ikeys keys t \<and>
    length t \<le> length s \<and> ikey_ord ord s t \<le> 0"
proof -
  have len: "8 \<le> length s" using s by (simp only: ikeys_def)
  have k: "keys (ikey_user s)" using s by (simp add: ikeys_def)
  obtain us where us: "ExtractUserKey (Slice_string s) = Inr us" "slice_ok us"
      "view us = ikey_user s" "Slice_Size us = length s - 8"
    using ExtractUserKey_view [of "Slice_string s"] len by auto
  obtain t where t: "FindShortSuccessor cmp (ikey_user s) = Inr t" "keys t"
    using successor [OF k] by blast
  have cmp_t: "Compare cmp us (Slice_string t) = Inr (ord (ikey_user s) t)"
    using Compare_ord [of us "Slice_string t"] us k t(2) by simp
  let ?t' = "t @ le_bytes 8 (push_bit 8 kMaxSequenceNumber OR 1)"
  show ?thesis
  proof (cases "length t < length s - 8 \<and> ord (ikey_user s) t < 0")
    case True
    then have c: "ikey_ord ord s ?t' < 0" by (simp add: ikey_ord_def Let_def)
    have t': "ikeys keys ?t'" using t(2) by (simp add: ikeys_def)
    have "InternalKey_FindShortSuccessor little cmp s = Inr ?t'"
      using True us t(1) cmp_t c s t'
      by (simp add: InternalKey_FindShortSuccessor_def PackSequenceAndType_def
          InternalKey_Compare_view)
    then show ?thesis using True t' c by auto
  next
    case False
    then have "InternalKey_FindShortSuccessor little cmp s = Inr s"
      using us t(1) cmp_t by (auto simp: InternalKey_FindShortSuccessor_def)
    then show ?thesis using s ord_refl [OF k] by (auto simp: ikey_ord_def)
  qed
qed

end

sublocale user_comparator \<subseteq> ik: shortening_comparator "InternalKeyComparator little cmp" "ikeys keys" "ikey_ord ord"
proof unfold_locales
  fix a b
  assume "slice_ok a" "slice_ok b" "ikeys keys (view a)" "ikeys keys (view b)"
  then show "Compare (InternalKeyComparator little cmp) a b = Inr (ikey_ord ord (view a) (view b))"
    by (simp add: InternalKey_Compare_view)
next
  fix x y
  assume "ikeys keys x" "ikeys keys y"
  then show "sgn (ikey_ord ord y x) = - sgn (ikey_ord ord x y)" by (rule ikey_ord_swap)
next
  fix x y z
  assume "ikeys keys x" "ikeys keys y" "ikeys keys z" "ikey_ord ord x y \<le> 0" "ikey_ord ord y z \<le> 0"
  then show "ikey_ord ord x z \<le> 0" by (rule ikey_ord_trans)
qed (simp_all add: InternalKey_separator InternalKey_successor)

interpretation bytewise_user: user_comparator BytewiseComparatorImpl "\<lambda>_. True" cmp_bytes little
  for little
  by unfold_locales


subsection \<open>Packed numbers are ordered by sequence number, then type\<close>

lemma unat_pack:
  assumes "seq \<le> kMaxSequenceNumber"
  shows "unat (push_bit 8 seq OR ucast (t :: byte) :: u64) = unat seq * 256 + unat t"
proof -
  let ?p = "push_bit 8 seq OR ucast t :: u64"
  have lo: "unat ?p mod 256 = unat t"
  proof -
    have "ucast ?p = t" using pack_type [of seq t] by (simp only: ucast_and_255)
    then have "unat (ucast ?p :: byte) = unat t" by simp
    then show ?thesis by (simp add: unsigned_ucast_eq take_bit_eq_mod)
  qed
  have "drop_bit 8 (unat ?p) = unat seq" using pack_sequence [OF assms] by (metis unat_drop_bit_eq)
  then have "unat ?p div 256 = unat seq" by (simp add: drop_bit_eq_div)
  then show ?thesis using lo div_mult_mod_eq [of "unat ?p" 256] by simp
qed

lemma pack_less:
  assumes "sa \<le> kMaxSequenceNumber" "sb \<le> kMaxSequenceNumber"
  shows "(push_bit 8 sa OR ucast (ta :: byte) :: u64) < push_bit 8 sb OR ucast (tb :: byte)
    \<longleftrightarrow> sa < sb \<or> sa = sb \<and> ta < tb"
proof -
  have "unat ta < 256" "unat tb < 256" by (rule unat_byte_less)+
  then have "unat sa * 256 + unat ta < unat sb * 256 + unat tb
      \<longleftrightarrow> unat sa < unat sb \<or> unat sa = unat sb \<and> unat ta < unat tb" by auto
  then show ?thesis
    by (simp only: word_less_nat_alt unat_pack [OF assms(1)] unat_pack [OF assms(2)] word_unat_eq_iff)
qed

section \<open>Properties\<close>

text \<open>
  C24: Internal keys are encoded and decoded without loss, on hosts of either byte order. An internal key built by
  \<open>AppendInternalKey\<close> from a user key, a sequence number in range and one of the two value types has the length
  \<open>InternalKeyEncodingLength\<close> announces and no assertion fails; \<open>ParseInternalKey\<close> reads back exactly the three parts, and
  \<open>ExtractUserKey\<close> and \<open>ExtractValueType\<close> the user key and the type. Conversely, whatever \<open>ParseInternalKey\<close> accepts with
  one of the two types is what \<open>AppendInternalKey\<close> writes for the parts read.
\<close>

theorem InternalKey_roundtrip:
  assumes "slice_ok (user_key key)" and "sequence_no key \<le> kMaxSequenceNumber"
    and "value_type key \<le> kValueTypeForSeek"
  shows "(\<exists>s p u. AppendInternalKey writer_little [] key = Inr s
      \<and> length s = InternalKeyEncodingLength key
      \<and> ParseInternalKey reader_little (Slice_string s) = Inr (Some p)
      \<and> view (user_key p) = view (user_key key)
      \<and> sequence_no p = sequence_no key \<and> value_type p = value_type key
      \<and> ExtractUserKey (Slice_string s) = Inr u \<and> view u = view (user_key key)
      \<and> ExtractValueType reader_little (Slice_string s) = Inr (value_type key))
    \<and> (\<forall>k q. slice_ok k \<longrightarrow> ParseInternalKey reader_little k = Inr (Some q) \<longrightarrow> value_type q \<le> kValueTypeForSeek \<longrightarrow>
        AppendInternalKey writer_little [] q = Inr (view k))"
proof -
  let ?s = "ikey_bytes (view (user_key key)) (sequence_no key) (value_type key)"
  have s: "AppendInternalKey writer_little [] key = Inr ?s"
    using AppendInternalKey_bytes [OF assms, of writer_little "[]"] by simp
  obtain p where p: "ParseInternalKey reader_little (Slice_string ?s) = Inr (Some p)"
      "view (user_key p) = view (user_key key)"
      "sequence_no p = drop_bit 8 (ikey_tag ?s)" "value_type p = ucast (ikey_tag ?s AND 0xff)"
    using ParseInternalKey_view [of "Slice_string ?s" reader_little] by auto
  obtain u where u: "ExtractUserKey (Slice_string ?s) = Inr u" "view u = view (user_key key)"
    using ExtractUserKey_view [of "Slice_string ?s"] by auto
  have "ExtractValueType reader_little (Slice_string ?s) = Inr (ucast (ikey_tag ?s AND 0xff))"
    using ExtractValueType_view [of "Slice_string ?s" reader_little] by simp
  then have t: "ExtractValueType reader_little (Slice_string ?s) = Inr (value_type key)"
    by (simp only: ikey_bytes_parts pack_type)
  have "sequence_no p = sequence_no key"
    using p(3) pack_sequence [OF assms(2), of "value_type key"] by (simp only: ikey_bytes_parts)
  moreover have "value_type p = value_type key"
    using p(4) by (simp only: ikey_bytes_parts pack_type)
  moreover have "length ?s = InternalKeyEncodingLength key"
    using assms(1) by (simp add: InternalKeyEncodingLength_def Slice_Size_def)
  ultimately show ?thesis using s p(1,2) u t Append_of_Parse by blast
qed

theorem InternalKey_roundtrip_witness:
  "\<exists>s p. AppendInternalKey True [] \<lparr>user_key = Slice_string [107], sequence_no = 3, value_type = kTypeValue\<rparr> = Inr s
    \<and> ParseInternalKey False (Slice_string s) = Inr (Some p)
    \<and> view (user_key p) = [107] \<and> sequence_no p = 3 \<and> value_type p = kTypeValue"
  using InternalKey_roundtrip
    [of "\<lparr>user_key = Slice_string [107], sequence_no = 3, value_type = kTypeValue\<rparr>" True False]
  by (auto simp: kMaxSequenceNumber_def kTypeValue_def)

text \<open>
  C10: \<open>InternalKeyComparator::Compare\<close> of two well-formed internal keys orders them by
  increasing user key (by the user comparator), then by decreasing sequence number, then by
  decreasing type, whatever comparator that keeps the interface's contract the user supplies.
\<close>

theorem InternalKey_Compare_order:
  assumes "comparator ucmp keys ord"
    and "slice_ok a" "view a = ikey_bytes ka sa ta" "keys ka" "sa \<le> kMaxSequenceNumber"
    and "slice_ok b" "view b = ikey_bytes kb sb tb" "keys kb" "sb \<le> kMaxSequenceNumber"
  shows "\<exists>c. InternalKey_Compare little ucmp a b = Inr c \<and>
    sgn c = (if ord ka kb \<noteq> 0 then sgn (ord ka kb)
             else if sb < sa \<or> sa = sb \<and> tb < ta then -1
             else if sa = sb \<and> ta = tb then 0 else 1)"
proof -
  have "InternalKey_Compare little ucmp a b = Inr (ikey_ord ord (view a) (view b))"
    using assms(2-) by (intro comparator.InternalKey_Compare_view [OF assms(1)]) (simp_all add: ikeys_def)
  moreover have "sgn (ikey_ord ord (view a) (view b)) =
      (if ord ka kb \<noteq> 0 then sgn (ord ka kb)
       else if sb < sa \<or> sa = sb \<and> tb < ta then -1
       else if sa = sb \<and> ta = tb then 0 else 1)"
    using pack_less [OF assms(5,9), of ta tb] pack_less [OF assms(9,5), of tb ta]
    by (auto simp: ikey_ord_def Let_def assms(3,7))
  ultimately show ?thesis by blast
qed

theorem InternalKey_Compare_order_witness:
  "\<exists>c. InternalKey_Compare True BytewiseComparatorImpl
         (Slice_string (ikey_bytes [102] 7 1)) (Slice_string (ikey_bytes [102] 5 1)) = Inr c \<and> sgn c = -1"
  using InternalKey_Compare_order [OF bytewise.comparator_axioms,
      of "Slice_string (ikey_bytes [102] 7 1)" "[102]" 7 1
         "Slice_string (ikey_bytes [102] 5 1)" "[102]" 5 1 True]
  by (simp add: kMaxSequenceNumber_def cmp_bytes_eq [THEN iffD2])

text \<open>
  C23: with any user comparator that keeps the interface's contract,
  \<open>InternalKeyComparator::FindShortestSeparator\<close> never fails one of its assertions, its
  result is no longer than \<open>start\<close>, and it lies in \<open>[start, limit)\<close> in the order of
  internal keys when \<open>start < limit\<close>; otherwise \<open>start\<close> is returned unchanged.
\<close>

theorem InternalKey_separator_contract:
  assumes "shortening_comparator ucmp keys ord"
    and "ikeys keys start" and "slice_ok limit" and "ikeys keys (view limit)"
  shows "\<exists>t. InternalKey_FindShortestSeparator little ucmp start limit = Inr t
    \<and> ikeys keys t \<and> length t \<le> length start
    \<and> (if ikey_ord ord start (view limit) < 0
       then ikey_ord ord start t \<le> 0 \<and> ikey_ord ord t (view limit) < 0 else t = start)"
  using user_comparator.InternalKey_separator [OF user_comparator.intro] assms by blast

theorem InternalKey_separator_contract_witness:
  "\<exists>t. InternalKey_FindShortestSeparator True BytewiseComparatorImpl
         (ikey_bytes [102, 111, 111] 100 1) (Slice_string (ikey_bytes [104, 101] 200 1)) = Inr t
    \<and> ikey_ord cmp_bytes (ikey_bytes [102, 111, 111] 100 1) t \<le> 0
    \<and> ikey_ord cmp_bytes t (ikey_bytes [104, 101] 200 1) < 0"
proof -
  have lt: "ikey_ord cmp_bytes (ikey_bytes [102, 111, 111] 100 1) (ikey_bytes [104, 101] 200 1) < 0"
    by (simp add: ikey_ord_def cmp_bytes_def Let_def)
  show ?thesis
    using InternalKey_separator_contract [OF bytewise.shortening_comparator_axioms,
        of "ikey_bytes [102, 111, 111] 100 1" "Slice_string (ikey_bytes [104, 101] 200 1)" True] lt
    by (auto simp: ikeys_def)
qed

text \<open>
  with any user comparator that keeps the interface's contract,
  \<open>InternalKeyComparator::FindShortSuccessor\<close> never fails its assertion and returns an
  internal key that is no longer than the given one and not below it.
\<close>

theorem InternalKey_successor_contract:
  assumes "shortening_comparator ucmp keys ord" and "ikeys keys key"
  shows "\<exists>t. InternalKey_FindShortSuccessor little ucmp key = Inr t
    \<and> ikeys keys t \<and> length t \<le> length key \<and> ikey_ord ord key t \<le> 0"
  using user_comparator.InternalKey_successor [OF user_comparator.intro] assms by blast

theorem InternalKey_successor_contract_witness:
  "\<exists>t. InternalKey_FindShortSuccessor True BytewiseComparatorImpl (ikey_bytes [255, 255] 100 1) = Inr t
    \<and> ikey_ord cmp_bytes (ikey_bytes [255, 255] 100 1) t \<le> 0"
  using InternalKey_successor_contract [OF bytewise.shortening_comparator_axioms,
      of "ikey_bytes [255, 255] 100 1" True]
  by (auto simp: ikeys_def)

text \<open>
  \<open>ParseInternalKey\<close> rejects exactly the strings shorter than eight bytes. The type
  byte is not validated: every longer string is accepted, with the low byte of its last eight
  as the type, also where that byte is no value of the enumeration.
\<close>

theorem ParseInternalKey_accepts:
  "(ParseInternalKey little (Slice_string s) = Inr None \<longleftrightarrow> length s < 8) \<and>
   (\<exists>p. ParseInternalKey little (Slice_string (uk @ le_bytes 8 tag)) = Inr (Some p)
      \<and> view (user_key p) = uk \<and> sequence_no p = drop_bit 8 tag \<and> value_type p = ucast tag)"
proof
  show "ParseInternalKey little (Slice_string s) = Inr None \<longleftrightarrow> length s < 8"
    using ParseInternalKey_view [of "Slice_string s" little] by (auto split: if_splits)
  show "\<exists>p. ParseInternalKey little (Slice_string (uk @ le_bytes 8 tag)) = Inr (Some p)
      \<and> view (user_key p) = uk \<and> sequence_no p = drop_bit 8 tag \<and> value_type p = ucast tag"
    using ParseInternalKey_view [of "Slice_string (uk @ le_bytes 8 tag)" little]
    by (auto simp: ucast_and_255)
qed

end
