(* ===== verification/Random_Gen.thy ===== *)
theory Random_Gen
  imports Prelude
begin

text \<open>
  The pseudo-random generator of src/db/random.h, which computes \<open>seed * 16807\<close> modulo
  \<open>2 ^ 31 - 1\<close> without a division. \<open>int\<close> arguments are 32-bit words; a remainder by zero
  and a shift by 32 or more are undefined in C++ and faults here.
\<close>

section \<open>Definitions\<close>

record Random =
  seed :: u32

definition Random_new :: "u32 \<Rightarrow> Random" where
  "Random_new s =
     (let seed = s AND 0x7fffffff in
      \<lparr>seed = (if seed = 0 \<or> seed = 2147483647 then 1 else seed)\<rparr>)"

definition Random_Next :: "Random \<Rightarrow> u32 \<times> Random" where
  "Random_Next r =
     (let M = 2147483647 :: u32;
          A = 16807 :: u64;
          product = ucast (seed r) * A;
          seed1 = ucast (drop_bit 31 product + (product AND ucast M)) :: u32;
          seed2 = (if seed1 > M then seed1 - M else seed1)
      in (seed2, r\<lparr>seed := seed2\<rparr>))"

definition Random_Uniform :: "Random \<Rightarrow> u32 \<Rightarrow> (u32 \<times> Random) res" where
  "Random_Uniform r n =
     (case Random_Next r of (x, r') \<Rightarrow> if n = 0 then Inl Undefined_arith else Inr (x mod n, r'))"

definition Random_OneIn :: "Random \<Rightarrow> u32 \<Rightarrow> (bool \<times> Random) res" where
  "Random_OneIn r n =
     (case Random_Next r of (x, r') \<Rightarrow> if n = 0 then Inl Undefined_arith else Inr (x mod n = 0, r'))"

definition Random_Skewed :: "Random \<Rightarrow> u32 \<Rightarrow> (u32 \<times> Random) res" where
  "Random_Skewed r max_log =
     rbind (Random_Uniform r (max_log + 1)) (\<lambda>(k, r').
     if unat k \<ge> 32 then Inl Undefined_arith
     else Random_Uniform r' (push_bit (unat k) 1))"

text \<open>The state after \<open>n\<close> draws.\<close>

primrec Random_iterate :: "nat \<Rightarrow> Random \<Rightarrow> Random" where
  "Random_iterate 0 r = r"
| "Random_iterate (Suc n) r = Random_iterate n (snd (Random_Next r))"

subsection \<open>Specification\<close>

definition mersenne31 :: nat where "mersenne31 = 2147483647"

definition seed_ok :: "Random \<Rightarrow> bool" where
  "seed_ok r \<longleftrightarrow> 0 < unat (seed r) \<and> unat (seed r) < mersenne31"

section \<open>Lemmas\<close>

lemma seed_ok_new: "seed_ok (Random_new s)"
proof -
  have m: "(0x7fffffff :: u32) = mask 31" by (simp add: mask_eq_exp_minus_1)
  have "unat (s AND mask 31) < 2 ^ 31"
    by (simp only: take_bit_eq_mask [symmetric] unsigned_take_bit_eq take_bit_nat_less_exp)
  then have "unat (s AND 0x7fffffff) \<le> 2147483647" unfolding m by simp
  moreover have "unat (s AND 0x7fffffff) = 0 \<longleftrightarrow> s AND 0x7fffffff = 0"
    and "unat (s AND 0x7fffffff) = 2147483647 \<longleftrightarrow> s AND 0x7fffffff = 2147483647"
    by (simp_all add: word_unat_eq_iff)
  ultimately show ?thesis
    by (auto simp: seed_ok_def Random_new_def mersenne31_def Let_def)
qed

text \<open>The reduction by shift and mask, on natural numbers.\<close>

lemma mersenne_fold:
  fixes p :: nat
  shows "p mod mersenne31 = (p div 2 ^ 31 + p mod 2 ^ 31) mod mersenne31"
proof -
  have "p = p div 2 ^ 31 * 2 ^ 31 + p mod 2 ^ 31" by simp
  also have "\<dots> = p div 2 ^ 31 * mersenne31 + (p div 2 ^ 31 + p mod 2 ^ 31)"
    by (simp add: mersenne31_def)
  finally show ?thesis by (metis mod_mult_self3)
qed

lemma mersenne_sub:
  "2147483647 < (x :: nat) \<Longrightarrow> x < 2 * 2147483647 \<Longrightarrow> x mod mersenne31 = x - 2147483647"
  by (simp add: mersenne31_def le_mod_geq)

lemma mersenne_coprime: "coprime (16807 :: nat) mersenne31"
proof (rule coprimeI)
  fix c :: nat
  assume "c dvd 16807" and "c dvd mersenne31"
  then have "c dvd 5790 * mersenne31 - 739806647 * 16807" by (intro dvd_diff_nat dvd_mult)
  then show "c dvd 1" by (simp add: mersenne31_def)
qed

lemma mersenne_nonzero:
  assumes "0 < s" "s < mersenne31"
  shows "s * 16807 mod mersenne31 \<noteq> 0"
proof
  assume "s * 16807 mod mersenne31 = 0"
  then have "mersenne31 dvd s * 16807" by (simp add: mod_eq_0_iff_dvd)
  then have "mersenne31 dvd s"
    using mersenne_coprime by (simp add: coprime_dvd_mult_left_iff coprime_commute)
  then show False using assms by (auto dest: dvd_imp_le)
qed

lemma Random_Next_unat:
  assumes "seed_ok r"
  shows "unat (fst (Random_Next r)) = unat (seed r) * 16807 mod mersenne31"
proof -
  let ?s = "unat (seed r)" and ?w = "ucast (seed r) * 16807 :: u64"
  let ?p = "?s * 16807"
  have s: "0 < ?s" "?s < 2147483647" using assms by (simp_all add: seed_ok_def mersenne31_def)
  have w: "unat ?w = ?p"
    using s by (simp add: unat_word_ariths unat_ucast_up)
  have hi: "unat (drop_bit 31 ?w) = ?p div 2 ^ 31"
    by (subst unat_drop_bit_eq) (simp only: w drop_bit_eq_div)
  have m: "(ucast (2147483647 :: u32) :: u64) = mask 31"
    by (simp add: mask_eq_exp_minus_1)
  have lo: "unat (?w AND mask 31) = ?p mod 2 ^ 31"
    by (simp only: take_bit_eq_mask [symmetric], subst unsigned_take_bit_eq) (simp only: w take_bit_eq_mod)
  let ?f = "?p div 2 ^ 31 + ?p mod 2 ^ 31"
  have hib: "?p div 2 ^ 31 < 16807" using s by (simp add: less_mult_imp_div_less)
  have lob: "?p mod 2 ^ 31 < 2 ^ 31" by simp
  have f: "?f < 2 ^ 32" "?f < 2 * 2147483647" using hib lob by simp_all
  have sum: "unat (drop_bit 31 ?w + (?w AND mask 31)) = ?f"
    using f(1) by (simp add: unat_word_ariths hi lo)
  let ?seed1 = "ucast (drop_bit 31 ?w + (?w AND mask 31)) :: u32"
  have seed1: "unat ?seed1 = ?f"
    using f(1) by (simp add: unsigned_ucast_eq sum take_bit_eq_mod)
  have fold: "?p mod mersenne31 = ?f mod mersenne31" by (rule mersenne_fold)
  have nz: "?f mod mersenne31 \<noteq> 0"
    using mersenne_nonzero [of ?s] assms fold by (simp add: seed_ok_def)
  have "unat (if ?seed1 > 2147483647 then ?seed1 - 2147483647 else ?seed1) = ?f mod mersenne31"
  proof (cases "?f > 2147483647")
    case True
    then have "?seed1 > 2147483647" by (simp add: word_less_nat_alt seed1)
    moreover have "unat (?seed1 - 2147483647) = ?f - 2147483647"
      using True by (simp add: unat_sub_if' seed1)
    moreover have "?f mod mersenne31 = ?f - 2147483647"
      by (rule mersenne_sub [OF True f(2)])
    ultimately show ?thesis by simp
  next
    case False
    moreover have "?f \<noteq> 2147483647" using nz by (metis mersenne31_def mod_self)
    ultimately have lt: "?f < mersenne31" unfolding mersenne31_def by linarith
    have "\<not> ?seed1 > 2147483647" using False by (simp only: word_less_nat_alt seed1) simp
    then show ?thesis by (simp only: if_False seed1 mod_less [OF lt])
  qed
  then show ?thesis by (simp only: Random_Next_def Let_def m fst_conv fold)
qed

lemma Random_Next_seed: "seed (snd (Random_Next r)) = fst (Random_Next r)"
  by (simp add: Random_Next_def Let_def)

lemma seed_ok_Next: "seed_ok r \<Longrightarrow> seed_ok (snd (Random_Next r))"
  using mersenne_nonzero [of "unat (seed r)"]
  by (auto simp: seed_ok_def Random_Next_seed Random_Next_unat mersenne31_def)

lemma Random_iterate_unat:
  "seed_ok r \<Longrightarrow> unat (seed (Random_iterate n r)) = unat (seed r) * 16807 ^ n mod mersenne31"
proof (induction n arbitrary: r)
  case 0
  then show ?case by (simp add: seed_ok_def)
next
  case (Suc n)
  then have "unat (seed (Random_iterate (Suc n) r)) =
      (unat (seed r) * 16807 mod mersenne31) * 16807 ^ n mod mersenne31"
    by (simp add: seed_ok_Next Random_Next_seed Random_Next_unat)
  also have "\<dots> = unat (seed r) * 16807 * 16807 ^ n mod mersenne31"
    by (rule mod_mult_left_eq)
  finally show ?case by (simp add: mult.assoc)
qed

section \<open>Properties\<close>

text \<open>
  from any seed, the state after \<open>n\<close> draws is \<open>seed * 16807 ^ n\<close> modulo
  \<open>2 ^ 31 - 1\<close> and never 0 or \<open>2 ^ 31 - 1\<close>: the shift-and-mask reduction computes the
  multiplicative generator exactly, with no loss to the 32-bit state.
\<close>

theorem Random_is_multiplicative_generator:
  "let r = Random_new s; x = unat (seed (Random_iterate n r)) in
     x = unat (seed r) * 16807 ^ n mod mersenne31 \<and> 0 < x \<and> x < mersenne31"
proof -
  have "seed_ok (Random_iterate n r)" if "seed_ok r" for r
    using that by (induction n arbitrary: r) (simp_all add: seed_ok_Next)
  then have "seed_ok (Random_iterate n (Random_new s))" using seed_ok_new by blast
  then show ?thesis
    using Random_iterate_unat [OF seed_ok_new, of n s] by (simp add: Let_def seed_ok_def)
qed

text \<open>
  \<open>Uniform\<close> with a positive bound returns a value below it and \<open>Skewed\<close> with a
  \<open>max_log\<close> of at most 30 returns a value below \<open>2 ^ max_log\<close>, with no undefined
  arithmetic, and both leave a usable seed.
\<close>

theorem Random_Skewed_bound:
  assumes "seed_ok r" and "unat max_log \<le> 30"
  shows "\<exists>x r'. Random_Skewed r max_log = Inr (x, r') \<and> unat x < 2 ^ unat max_log \<and> seed_ok r'"
proof -
  have U: "\<exists>x r'. Random_Uniform q n = Inr (x, r') \<and> unat x < unat n \<and> seed_ok r'"
    if "n \<noteq> 0" "seed_ok q" for n q
  proof -
    have "0 < unat n" using that(1) by (simp add: unat_gt_0)
    then show ?thesis
      using that seed_ok_Next [of q] by (auto simp: Random_Uniform_def unat_mod split: prod.split)
  qed
  have ml: "unat (max_log + 1) = unat max_log + 1"
    using assms(2) by (simp add: unat_word_ariths)
  then have "max_log + 1 \<noteq> 0" by (auto simp: word_unat_eq_iff)
  then obtain k q where k: "Random_Uniform r (max_log + 1) = Inr (k, q)" "unat k \<le> unat max_log" "seed_ok q"
    using U [OF _ assms(1), of "max_log + 1"] ml by auto
  have p: "unat (push_bit (unat k) 1 :: u32) = 2 ^ unat k"
    using k(2) assms(2)
    by (simp only: unsigned_push_bit_eq unsigned_1) (simp add: take_bit_nat_eq_self)
  then have "push_bit (unat k) 1 \<noteq> (0 :: u32)" by (auto simp: word_unat_eq_iff)
  then obtain x r' where "Random_Uniform q (push_bit (unat k) 1) = Inr (x, r')" "unat x < 2 ^ unat k" "seed_ok r'"
    using U [OF _ k(3), of "push_bit (unat k) 1"] p by auto
  moreover have "(2::nat) ^ unat k \<le> 2 ^ unat max_log" using k(2) by simp
  ultimately show ?thesis
    using k assms(2) by (auto simp: Random_Skewed_def simp del: power_increasing_iff)
qed

theorem Random_Skewed_bound_witness:
  "\<exists>x r'. Random_Skewed (Random_new 301) 10 = Inr (x, r') \<and> unat x < 2 ^ 10 \<and> seed_ok r'"
  using Random_Skewed_bound [OF seed_ok_new, of 10 301] by simp

end
