(* ===== verification/Arena.thy ===== *)
theory Arena
  imports Prelude
begin

text \<open>
  The arena allocator (src/db/Arena.h, src/db/Arena.cpp). \<open>size_t\<close> values and addresses are
  64-bit words, so that the pointer and size arithmetic wraps as it does in the code. What
  \<open>new char[n]\<close> returns is an argument of the operations (\<open>None\<close> is \<open>std::bad_alloc\<close>);
  \<open>fresh_block\<close> states what the C++ standard promises of it: a new object, disjoint from
  the live ones, at an address aligned for any fundamental type. The invariant speaks of the
  regions handed out so far, kept as (address, length) pairs of natural numbers, and
  \<open>arena_reach\<close> describes every sequence of allocations.
\<close>

section \<open>Definitions\<close>

record arena =
  alloc_ptr :: u64
  alloc_bytes_remaining :: u64
  blocks :: "(u64 \<times> u64) list"
  memory_usage :: u64

definition kBlockSize :: u64 where "kBlockSize = 4096"

definition Arena_new :: arena where
  "Arena_new = \<lparr>alloc_ptr = 0, alloc_bytes_remaining = 0, blocks = [], memory_usage = 0\<rparr>"

definition MemoryUsage :: "arena \<Rightarrow> u64" where
  "MemoryUsage a = memory_usage a"

definition AllocateNewBlock :: "u64 option \<Rightarrow> u64 \<Rightarrow> arena \<Rightarrow> (u64 \<times> arena) res" where
  "AllocateNewBlock new_result bytes a =
     (case new_result of
        None \<Rightarrow> Inl Bad_alloc
      | Some ret \<Rightarrow>
          Inr (ret, a\<lparr>blocks := blocks a @ [(ret, bytes)],
                      memory_usage := memory_usage a + bytes + 8\<rparr>))"

definition AllocateFallback :: "u64 option \<Rightarrow> u64 \<Rightarrow> arena \<Rightarrow> (u64 \<times> arena) res" where
  "AllocateFallback new_result bytes a =
     (if bytes > kBlockSize div 4 then AllocateNewBlock new_result bytes a
      else
        rbind (AllocateNewBlock new_result kBlockSize a) (\<lambda>(ret, a1).
        Inr (ret, a1\<lparr>alloc_ptr := ret + bytes, alloc_bytes_remaining := kBlockSize - bytes\<rparr>)))"

definition Allocate :: "u64 option \<Rightarrow> u64 \<Rightarrow> arena \<Rightarrow> (u64 \<times> arena) res" where
  "Allocate new_result bytes a =
     rbind (rassert (bytes > 0)) (\<lambda>_.
     if bytes \<le> alloc_bytes_remaining a
     then Inr (alloc_ptr a, a\<lparr>alloc_ptr := alloc_ptr a + bytes,
                              alloc_bytes_remaining := alloc_bytes_remaining a - bytes\<rparr>)
     else AllocateFallback new_result bytes a)"

definition AllocateAligned :: "u64 option \<Rightarrow> u64 \<Rightarrow> arena \<Rightarrow> (u64 \<times> arena) res" where
  "AllocateAligned new_result bytes a =
     (let align = 8;
          current_mod = alloc_ptr a AND (align - 1);
          slop = (if current_mod = 0 then 0 else align - current_mod);
          needed = bytes + slop
      in rbind (rassert (align AND (align - 1) = 0)) (\<lambda>_.
         rbind (if needed \<le> alloc_bytes_remaining a
                then Inr (alloc_ptr a + slop,
                          a\<lparr>alloc_ptr := alloc_ptr a + needed,
                            alloc_bytes_remaining := alloc_bytes_remaining a - needed\<rparr>)
                else AllocateFallback new_result bytes a) (\<lambda>(result, a1).
         rbind (rassert (result AND (align - 1) = 0)) (\<lambda>_.
         Inr (result, a1)))))"

text \<open>The destructor, as the list of pointers it passes to \<open>delete[]\<close>, in order.\<close>

definition Arena_destroy :: "arena \<Rightarrow> u64 list" where
  "Arena_destroy a = map (\<lambda>i. fst (blocks a ! i)) [0..<length (blocks a)]"

subsection \<open>Specification\<close>

type_synonym region = "nat \<times> nat"

definition apart :: "region \<Rightarrow> region \<Rightarrow> bool" where
  "apart r s \<longleftrightarrow> fst r + snd r \<le> fst s \<or> fst s + snd s \<le> fst r"

definition within :: "region \<Rightarrow> region \<Rightarrow> bool" where
  "within r s \<longleftrightarrow> fst s \<le> fst r \<and> fst r + snd r \<le> fst s + snd s"

definition block_regions :: "arena \<Rightarrow> region list" where
  "block_regions a = map (\<lambda>(b, n). (unat b, unat n)) (blocks a)"

definition free_region :: "arena \<Rightarrow> region" where
  "free_region a = (unat (alloc_ptr a), unat (alloc_bytes_remaining a))"

text \<open>The size of the block that the slow path requests for an allocation.\<close>

definition block_request :: "u64 \<Rightarrow> u64" where
  "block_request bytes = (if bytes > 1024 then bytes else 4096)"

definition fresh_block :: "arena \<Rightarrow> u64 option \<Rightarrow> u64 \<Rightarrow> bool" where
  "fresh_block a new_result n \<longleftrightarrow>
     (case new_result of None \<Rightarrow> True
      | Some ret \<Rightarrow> ret \<noteq> 0 \<and> unat ret + unat n < 2 ^ 64 \<and> ret AND 7 = 0 \<and>
          list_all (apart (unat ret, unat n)) (block_regions a))"

definition arena_inv :: "arena \<Rightarrow> region list \<Rightarrow> bool" where
  "arena_inv a R \<longleftrightarrow>
     sorted_wrt apart (block_regions a) \<and>
     (\<forall>b \<in> set (block_regions a). 0 < fst b \<and> 0 < snd b \<and> fst b + snd b < 2 ^ 64) \<and>
     (snd (free_region a) = 0 \<or> (\<exists>b \<in> set (block_regions a). within (free_region a) b)) \<and>
     sorted_wrt apart R \<and>
     (\<forall>r \<in> set R. 0 < snd r \<and> (snd (free_region a) = 0 \<or> apart r (free_region a)) \<and>
        (\<exists>b \<in> set (block_regions a). within r b)) \<and>
     sum_list (map snd R) + snd (free_region a) \<le> sum_list (map snd (block_regions a)) \<and>
     memory_usage a = of_nat (sum_list (map (\<lambda>b. snd b + 8) (block_regions a)))"

text \<open>
  Every arena that allocations can produce, with the regions handed out, the last one first.
\<close>

inductive arena_reach :: "arena \<Rightarrow> region list \<Rightarrow> bool" where
  arena_start: "arena_reach Arena_new []"
| arena_allocate:
    "\<lbrakk>arena_reach a R; fresh_block a m (block_request n); Allocate m n a = Inr (p, a')\<rbrakk>
       \<Longrightarrow> arena_reach a' ((unat p, unat n) # R)"
| arena_aligned:
    "\<lbrakk>arena_reach a R; fresh_block a m (block_request n); 0 < unat n; unat n + 7 < 2 ^ 64;
      AllocateAligned m n a = Inr (p, a')\<rbrakk>
       \<Longrightarrow> arena_reach a' ((unat p, unat n) # R)"

section \<open>Lemmas\<close>

subsection \<open>Regions\<close>

lemma apart_sym: "apart r s \<Longrightarrow> apart s r"
  by (auto simp: apart_def)

lemma apart_within: "apart b c \<Longrightarrow> within r b \<Longrightarrow> within s c \<Longrightarrow> apart r s"
  by (auto simp: apart_def within_def)

lemma apart_empty_within: "snd s = 0 \<Longrightarrow> snd r = 0 \<Longrightarrow> apart r s"
  by (auto simp: apart_def)

lemma block_regions_snoc [simp]:
  "block_regions (a\<lparr>blocks := blocks a @ [(b, n)], memory_usage := u\<rparr>)
     = block_regions a @ [(unat b, unat n)]"
  by (simp add: block_regions_def)

subsection \<open>Taking from the current block\<close>

lemma arena_inv_bump:
  assumes inv: "arena_inv a R" and n: "0 < unat n"
    and fits: "unat k + unat n \<le> unat (alloc_bytes_remaining a)"
  shows "arena_inv (a\<lparr>alloc_ptr := alloc_ptr a + (n + k),
                      alloc_bytes_remaining := alloc_bytes_remaining a - (n + k)\<rparr>)
           ((unat (alloc_ptr a + k), unat n) # R)"
proof -
  let ?f = "free_region a"
  let ?a' = "a\<lparr>alloc_ptr := alloc_ptr a + (n + k),
               alloc_bytes_remaining := alloc_bytes_remaining a - (n + k)\<rparr>"
  have "snd ?f \<noteq> 0" using fits n by (simp add: free_region_def)
  then obtain b where b: "b \<in> set (block_regions a)" "within ?f b" "fst b + snd b < 2 ^ 64"
    using inv by (auto simp: arena_inv_def)
  then have top: "unat (alloc_ptr a) + unat (alloc_bytes_remaining a) < 2 ^ 64"
    by (auto simp: within_def free_region_def)
  have nk: "unat (n + k) = unat n + unat k"
    using fits top by (simp add: unat_word_ariths)
  have pk: "unat (alloc_ptr a + k) = unat (alloc_ptr a) + unat k"
    using fits top by (simp add: unat_word_ariths)
  have p': "unat (alloc_ptr a + (n + k)) = unat (alloc_ptr a) + (unat n + unat k)"
    using fits top nk by (simp add: unat_word_ariths)
  have r': "unat (alloc_bytes_remaining a - (n + k)) = unat (alloc_bytes_remaining a) - (unat n + unat k)"
    using fits nk by (simp add: unat_sub_if')
  have f': "free_region ?a' = (unat (alloc_ptr a) + (unat n + unat k),
      unat (alloc_bytes_remaining a) - (unat n + unat k))"
    by (simp add: free_region_def p' r')
  have bl: "block_regions ?a' = block_regions a" by (simp add: block_regions_def)
  have old: "apart r (free_region ?a') \<and> apart (unat (alloc_ptr a + k), unat n) r" if "r \<in> set R" for r
  proof -
    have "apart r (unat (alloc_ptr a), unat (alloc_bytes_remaining a))"
      using inv that \<open>snd ?f \<noteq> 0\<close> by (auto simp: arena_inv_def free_region_def)
    then show ?thesis using fits by (auto simp: apart_def f' pk)
  qed
  have new: "apart (unat (alloc_ptr a + k), unat n) (free_region ?a')"
    by (auto simp: apart_def f' pk)
  have "within (unat (alloc_ptr a), unat (alloc_bytes_remaining a)) b"
    using b(2) by (simp add: free_region_def)
  then have w: "within (unat (alloc_ptr a + k), unat n) b" "within (free_region ?a') b"
    using fits by (auto simp: within_def f' pk)
  show ?thesis
    using inv n b(1) w new old fits unfolding arena_inv_def bl f'
    by (auto simp: free_region_def)
qed

subsection \<open>Requesting a block\<close>

lemma arena_inv_new_block:
  assumes inv: "arena_inv a R" and fresh: "fresh_block a (Some ret) sz" and s: "0 < unat sz"
  defines "a1 \<equiv> a\<lparr>blocks := blocks a @ [(ret, sz)], memory_usage := memory_usage a + sz + 8\<rparr>"
  shows "sorted_wrt apart (block_regions a1)"
    and "\<forall>b \<in> set (block_regions a1). 0 < fst b \<and> 0 < snd b \<and> fst b + snd b < 2 ^ 64"
    and "\<forall>r \<in> set R. apart r (unat ret, unat sz) \<and> (\<exists>b \<in> set (block_regions a1). within r b)"
    and "snd (free_region a) = 0 \<or> apart (unat ret, unat sz) (free_region a)"
    and "memory_usage a1 = of_nat (sum_list (map (\<lambda>b. snd b + 8) (block_regions a1)))"
proof -
  have bl: "block_regions a1 = block_regions a @ [(unat ret, unat sz)]"
    by (simp add: a1_def)
  have ap: "\<forall>b \<in> set (block_regions a). apart (unat ret, unat sz) b"
    using fresh by (auto simp: fresh_block_def list_all_iff)
  then show "sorted_wrt apart (block_regions a1)"
    using inv by (auto simp: bl sorted_wrt_append arena_inv_def intro: apart_sym)
  show "\<forall>b \<in> set (block_regions a1). 0 < fst b \<and> 0 < snd b \<and> fst b + snd b < 2 ^ 64"
    using inv fresh s by (auto simp: bl arena_inv_def fresh_block_def unat_gt_0)
  have self: "within (unat ret, unat sz) (unat ret, unat sz)" by (simp add: within_def)
  show "\<forall>r \<in> set R. apart r (unat ret, unat sz) \<and> (\<exists>b \<in> set (block_regions a1). within r b)"
  proof
    fix r assume "r \<in> set R"
    then obtain b where b: "b \<in> set (block_regions a)" "within r b"
      using inv by (auto simp: arena_inv_def)
    then have "apart r (unat ret, unat sz)"
      using ap self by (meson apart_sym apart_within)
    then show "apart r (unat ret, unat sz) \<and> (\<exists>b \<in> set (block_regions a1). within r b)"
      using b by (auto simp: bl)
  qed
  show "snd (free_region a) = 0 \<or> apart (unat ret, unat sz) (free_region a)"
    using inv ap self by (auto simp: arena_inv_def intro: apart_within)
  show "memory_usage a1 = of_nat (sum_list (map (\<lambda>b. snd b + 8) (block_regions a1)))"
    using inv by (simp add: bl arena_inv_def a1_def add.assoc)
qed

lemma arena_inv_fallback:
  assumes inv: "arena_inv a R" and n: "0 < unat n"
    and fresh: "fresh_block a m (block_request n)"
    and step: "AllocateFallback m n a = Inr (p, a')"
  shows "arena_inv a' ((unat p, unat n) # R)" and "p AND 7 = 0" and "p \<noteq> 0"
proof -
  obtain ret where m: "m = Some ret"
    using step by (auto simp: AllocateFallback_def AllocateNewBlock_def split: option.splits if_splits)
  have p: "p = ret"
    using step by (auto simp: m AllocateFallback_def AllocateNewBlock_def split: if_splits)
  show "p AND 7 = 0" and "p \<noteq> 0" using fresh by (simp_all add: p m fresh_block_def)
  have s: "0 < unat (block_request n)" by (simp add: block_request_def n)
  note blk = arena_inv_new_block [OF inv fresh [unfolded m] s]
  show "arena_inv a' ((unat p, unat n) # R)"
  proof (cases "n > 1024")
    case True
    then have a': "a' = a\<lparr>blocks := blocks a @ [(ret, n)], memory_usage := memory_usage a + n + 8\<rparr>"
      and rq: "block_request n = n"
      using step by (auto simp: m AllocateFallback_def AllocateNewBlock_def kBlockSize_def block_request_def)
    have fr: "free_region a' = free_region a" by (simp add: a' free_region_def)
    have bl: "block_regions a' = block_regions a @ [(unat ret, unat n)]" by (simp add: a')
    note B = blk [unfolded rq, folded a']
    show ?thesis
      using B inv n unfolding arena_inv_def
      by (auto simp: fr bl p within_def intro: apart_sym)
  next
    case False
    then have a': "a' = (a\<lparr>blocks := blocks a @ [(ret, 4096)], memory_usage := memory_usage a + 4096 + 8\<rparr>)
        \<lparr>alloc_ptr := ret + n, alloc_bytes_remaining := 4096 - n\<rparr>" (is "_ = ?a1\<lparr>alloc_ptr := _, alloc_bytes_remaining := _\<rparr>")
      and rq: "block_request n = 4096"
      using step by (auto simp: m AllocateFallback_def AllocateNewBlock_def kBlockSize_def block_request_def)
    let ?a2 = "?a1\<lparr>alloc_ptr := ret, alloc_bytes_remaining := 4096\<rparr>"
    have a'': "a' = ?a2\<lparr>alloc_ptr := alloc_ptr ?a2 + (n + 0),
        alloc_bytes_remaining := alloc_bytes_remaining ?a2 - (n + 0)\<rparr>"
      by (simp add: a')
    have bl: "block_regions ?a2 = block_regions ?a1" by (simp add: block_regions_def)
    note B = blk [unfolded rq]
    have "arena_inv ?a2 R"
      using B inv unfolding arena_inv_def bl by (auto simp: free_region_def within_def)
    moreover have "unat n \<le> 4096" using False by (simp add: word_less_nat_alt)
    ultimately show ?thesis
      using arena_inv_bump [of ?a2 R n 0] n by (simp add: p a'')
  qed
qed

lemma Allocate_fits:
  "\<lbrakk>0 < unat n; n \<le> alloc_bytes_remaining a\<rbrakk> \<Longrightarrow>
     Allocate m n a = Inr (alloc_ptr a, a\<lparr>alloc_ptr := alloc_ptr a + n,
                              alloc_bytes_remaining := alloc_bytes_remaining a - n\<rparr>)"
  by (simp add: Allocate_def unat_gt_0 word_gt_0)

lemma arena_inv_Allocate:
  assumes inv: "arena_inv a R" and fresh: "fresh_block a m (block_request n)"
    and step: "Allocate m n a = Inr (p, a')"
  shows "arena_inv a' ((unat p, unat n) # R)"
proof -
  have n: "0 < unat n" using step by (auto simp: Allocate_def rassert_def unat_gt_0 split: if_splits)
  show ?thesis
  proof (cases "n \<le> alloc_bytes_remaining a")
    case True
    then show ?thesis
      using arena_inv_bump [OF inv n, of 0] step
      by (auto simp: Allocate_fits n word_le_nat_alt)
  next
    case False
    then have "AllocateFallback m n a = Inr (p, a')"
      using step n by (simp add: Allocate_def unat_gt_0 word_gt_0)
    then show ?thesis by (rule arena_inv_fallback(1) [OF inv n fresh])
  qed
qed

definition arena_slop :: "arena \<Rightarrow> u64" where
  "arena_slop a = (if alloc_ptr a AND 7 = 0 then 0 else 8 - (alloc_ptr a AND 7))"

lemma and_7_mod: "unat (w AND 7 :: u64) = unat w mod 8"
proof -
  have "w AND 7 = take_bit 3 w" by (simp add: take_bit_eq_mask mask_eq_exp_minus_1)
  then have "unat (w AND 7) = take_bit 3 (unat w)" by (simp only: unsigned_take_bit_eq)
  then show ?thesis by (simp add: take_bit_eq_mod)
qed

lemma arena_slop_bound: "unat (arena_slop a) \<le> 7"
proof -
  have "unat (8 - (alloc_ptr a AND 7)) = 8 - unat (alloc_ptr a) mod 8"
    by (simp add: unat_sub_if' and_7_mod)
  moreover have "unat (alloc_ptr a AND 7) \<noteq> 0 \<longleftrightarrow> alloc_ptr a AND 7 \<noteq> 0"
    by (simp add: unat_eq_0)
  ultimately show ?thesis by (auto simp: arena_slop_def and_7_mod)
qed

lemma arena_slop_aligns:
  assumes "unat (alloc_ptr a) + unat (arena_slop a) < 2 ^ 64"
  shows "(alloc_ptr a + arena_slop a) AND 7 = 0"
proof -
  have e: "unat (alloc_ptr a + arena_slop a) = unat (alloc_ptr a) + unat (arena_slop a)"
    using assms by (simp add: unat_word_ariths)
  have "(unat (alloc_ptr a) + unat (arena_slop a)) mod 8 = 0"
  proof (cases "alloc_ptr a AND 7 = 0")
    case True
    then have "unat (alloc_ptr a) mod 8 = 0" by (metis and_7_mod unsigned_0)
    then show ?thesis using True by (simp add: arena_slop_def)
  next
    case False
    then have "unat (alloc_ptr a) mod 8 \<noteq> 0" by (metis and_7_mod unat_eq_0)
    moreover have "unat (arena_slop a) = 8 - unat (alloc_ptr a) mod 8"
      using False by (simp add: arena_slop_def unat_sub_if' and_7_mod)
    ultimately show ?thesis by presburger
  qed
  then have "unat ((alloc_ptr a + arena_slop a) AND 7) = 0" by (simp add: and_7_mod e)
  then show ?thesis by (simp add: unat_eq_0)
qed

lemma AllocateAligned_unfold:
  "AllocateAligned m n a =
     rbind (if n + arena_slop a \<le> alloc_bytes_remaining a
            then Inr (alloc_ptr a + arena_slop a,
                      a\<lparr>alloc_ptr := alloc_ptr a + (n + arena_slop a),
                        alloc_bytes_remaining := alloc_bytes_remaining a - (n + arena_slop a)\<rparr>)
            else AllocateFallback m n a) (\<lambda>(result, a1).
     rbind (rassert (result AND 7 = 0)) (\<lambda>_. Inr (result, a1)))"
  by (simp add: AllocateAligned_def arena_slop_def Let_def cong: if_cong)

text \<open>
  With a request that leaves room for the padding, the aligned allocation meets its own
  assertion: it returns an aligned address unless \<open>new\<close> throws.
\<close>

lemma AllocateAligned_steps:
  assumes inv: "arena_inv a R" and n: "0 < unat n" "unat n + 7 < 2 ^ 64"
    and fresh: "fresh_block a m (block_request n)"
  shows "(\<exists>p a'. AllocateAligned m n a = Inr (p, a') \<and> p AND 7 = 0 \<and>
            arena_inv a' ((unat p, unat n) # R)) \<or>
         (m = None \<and> AllocateAligned m n a = Inl Bad_alloc)"
proof (cases "n + arena_slop a \<le> alloc_bytes_remaining a")
  case True
  have e: "unat (n + arena_slop a) = unat n + unat (arena_slop a)"
    using n arena_slop_bound [of a] by (simp add: unat_word_ariths)
  then have fits: "unat (arena_slop a) + unat n \<le> unat (alloc_bytes_remaining a)"
    using True by (simp add: word_le_nat_alt)
  then have "snd (free_region a) \<noteq> 0" using n by (simp add: free_region_def)
  then have "unat (alloc_ptr a) + unat (alloc_bytes_remaining a) < 2 ^ 64"
    using inv by (fastforce simp: arena_inv_def within_def free_region_def)
  then have "(alloc_ptr a + arena_slop a) AND 7 = 0"
    using fits n by (intro arena_slop_aligns) simp
  then show ?thesis
    using True arena_inv_bump [OF inv n(1) fits] by (simp add: AllocateAligned_unfold)
next
  case False
  show ?thesis
  proof (cases "AllocateFallback m n a")
    case (Inr q)
    then show ?thesis
      using False arena_inv_fallback [OF inv n(1) fresh, of "fst q" "snd q"]
      by (cases q) (simp add: AllocateAligned_unfold)
  next
    case (Inl e)
    then have "m = None \<and> e = Bad_alloc"
      by (auto simp: AllocateFallback_def AllocateNewBlock_def split: option.splits if_splits)
    then show ?thesis using False Inl by (simp add: AllocateAligned_unfold)
  qed
qed

lemma arena_reach_inv: "arena_reach a R \<Longrightarrow> arena_inv a R"
proof (induction rule: arena_reach.induct)
  case arena_start
  show ?case by (simp add: arena_inv_def Arena_new_def free_region_def block_regions_def)
next
  case (arena_allocate a R m n p a')
  then show ?case by (blast intro: arena_inv_Allocate)
next
  case (arena_aligned a R m n p a')
  then show ?case using AllocateAligned_steps [of a R n m] by auto
qed

lemma sorted_wrt_apart_distinct:
  assumes "sorted_wrt apart rs" and "\<forall>r \<in> set rs. 0 < snd r"
  shows "distinct (map fst rs)"
  using assms by (induction rs) (fastforce simp: apart_def)+

section \<open>Properties\<close>

text \<open>
  C11: whatever sequence of \<open>Allocate\<close> calls, and of \<open>AllocateAligned\<close> calls of at least one byte and
  of a size to which \<open>size_t\<close> can add the padding of seven bytes, has run, the
  regions handed out never overlap, and each lies inside one of the blocks the arena owns;
  the blocks themselves do not overlap either.
\<close>

theorem arena_regions_disjoint:
  assumes "arena_reach a R"
  shows "sorted_wrt apart R \<and> sorted_wrt apart (block_regions a) \<and>
    list_all (\<lambda>r. 0 < snd r \<and> list_ex (within r) (block_regions a)) R"
  using arena_reach_inv [OF assms] by (auto simp: arena_inv_def list_all_iff list_ex_iff)

text \<open>
  A run: a small allocation from a first block, an aligned one beside it, a large one in a
  block of its own, and one more from the first block.
\<close>

definition example_arena :: arena where
  "example_arena = \<lparr>alloc_ptr = 4232, alloc_bytes_remaining = 3960,
     blocks = [(4096, 4096), (16384, 5000)], memory_usage = 9112\<rparr>"

lemmas arena_ops = AllocateAligned_def Allocate_def AllocateFallback_def AllocateNewBlock_def
  kBlockSize_def Arena_new_def Let_def

lemma example_arena_reach:
  "arena_reach example_arena [(4224, 8), (16384, 5000), (4200, 24), (4096, 100)]"
proof -
  have "arena_reach \<lparr>alloc_ptr = 4196, alloc_bytes_remaining = 3996, blocks = [(4096, 4096)],
      memory_usage = 4104\<rparr> [(unat (4096 :: u64), unat (100 :: u64))]"
    by (rule arena_allocate [of Arena_new _ "Some 4096", OF arena_start])
       (simp_all add: arena_ops fresh_block_def block_request_def block_regions_def)
  then have "arena_reach \<lparr>alloc_ptr = 4224, alloc_bytes_remaining = 3968, blocks = [(4096, 4096)],
      memory_usage = 4104\<rparr> [(unat (4200 :: u64), unat (24 :: u64)),
        (unat (4096 :: u64), unat (100 :: u64))]"
    by (rule arena_aligned [of _ _ None])
       (simp_all add: arena_ops fresh_block_def block_request_def)
  then have "arena_reach \<lparr>alloc_ptr = 4224, alloc_bytes_remaining = 3968,
      blocks = [(4096, 4096), (16384, 5000)], memory_usage = 9112\<rparr>
      [(unat (16384 :: u64), unat (5000 :: u64)), (unat (4200 :: u64), unat (24 :: u64)),
        (unat (4096 :: u64), unat (100 :: u64))]"
    by (rule arena_aligned [of _ _ "Some 16384"])
       (simp_all add: arena_ops fresh_block_def block_request_def block_regions_def apart_def)
  then have "arena_reach example_arena
      [(unat (4224 :: u64), unat (8 :: u64)), (unat (16384 :: u64), unat (5000 :: u64)),
       (unat (4200 :: u64), unat (24 :: u64)), (unat (4096 :: u64), unat (100 :: u64))]"
    by (rule arena_allocate [of _ _ None])
       (simp_all add: arena_ops fresh_block_def block_request_def example_arena_def)
  then show ?thesis by simp
qed

theorem arena_regions_disjoint_witness:
  "arena_reach example_arena [(4224, 8), (16384, 5000), (4200, 24), (4096, 100)] \<and>
   sorted_wrt apart [(4224, 8), (16384, 5000), (4200, 24), (4096, 100)]"
  using arena_regions_disjoint [OF example_arena_reach] example_arena_reach by blast

text \<open>
  in every reachable arena, \<open>AllocateAligned\<close> of a non-empty request that leaves
  room for the padding in \<open>size_t\<close> never fails its assertion: it either propagates
  \<open>bad_alloc\<close> or returns a non-overlapping, eight-byte aligned region of an arena that is
  reachable again.
\<close>

theorem AllocateAligned_correct:
  assumes "arena_reach a R" and "0 < unat n" and "unat n + 7 < 2 ^ 64"
    and "fresh_block a m (block_request n)"
  shows "AllocateAligned m n a = Inl Bad_alloc \<and> m = None \<or>
    (\<exists>p a'. AllocateAligned m n a = Inr (p, a') \<and> unat p mod 8 = 0 \<and>
       list_all (apart (unat p, unat n)) R \<and> arena_reach a' ((unat p, unat n) # R))"
proof -
  have "\<exists>p a'. AllocateAligned m n a = Inr (p, a') \<and> unat p mod 8 = 0 \<and>
      list_all (apart (unat p, unat n)) R \<and> arena_reach a' ((unat p, unat n) # R)"
    if ok: "AllocateAligned m n a = Inr (p, a')" "p AND 7 = 0" "arena_inv a' ((unat p, unat n) # R)"
    for p a'
  proof (intro exI conjI)
    show "AllocateAligned m n a = Inr (p, a')" by (rule ok(1))
    show "unat p mod 8 = 0" using ok(2) by (metis and_7_mod unsigned_0)
    show "list_all (apart (unat p, unat n)) R" using ok(3) by (auto simp: arena_inv_def list_all_iff)
    show "arena_reach a' ((unat p, unat n) # R)" using assms ok(1) by (blast intro: arena_aligned)
  qed
  then show ?thesis
    using AllocateAligned_steps [OF arena_reach_inv [OF assms(1)] assms(2,3,4)] by blast
qed

theorem AllocateAligned_correct_witness:
  "\<exists>p a'. AllocateAligned None 17 example_arena = Inr (p, a') \<and> unat p mod 8 = 0 \<and>
     arena_reach a' [(unat p, 17), (4224, 8), (16384, 5000), (4200, 24), (4096, 100)]"
  using AllocateAligned_correct [OF example_arena_reach, of 17 None]
  by (auto simp: fresh_block_def arena_ops example_arena_def)

text \<open>
  \<open>MemoryUsage\<close> counts every block with the pointer that records it, as long as
  the count fits in \<open>size_t\<close>; it is never less than the bytes handed out.
\<close>

theorem MemoryUsage_accounts:
  assumes "arena_reach a R" and "sum_list (map (\<lambda>b. snd b + 8) (block_regions a)) < 2 ^ 64"
  shows "unat (MemoryUsage a) = sum_list (map snd (block_regions a)) + 8 * length (blocks a) \<and>
    sum_list (map snd R) \<le> unat (MemoryUsage a)"
proof -
  have inv: "arena_inv a R" by (rule arena_reach_inv [OF assms(1)])
  have "unat (MemoryUsage a) = sum_list (map (\<lambda>b. snd b + 8) (block_regions a))"
    using inv assms(2) by (simp add: MemoryUsage_def arena_inv_def unat_of_nat take_bit_nat_eq_self)
  also have "\<dots> = sum_list (map snd (block_regions a)) + 8 * length (blocks a)"
    by (simp add: sum_list_addf sum_list_triv block_regions_def o_def)
  finally show ?thesis using inv by (simp add: arena_inv_def)
qed

theorem MemoryUsage_accounts_witness:
  "unat (MemoryUsage example_arena) = 9112 \<and> 5132 \<le> unat (MemoryUsage example_arena)"
  using MemoryUsage_accounts [OF example_arena_reach]
  by (simp add: example_arena_def block_regions_def)

text \<open>
  the destructor passes each block the arena obtained from \<open>new[]\<close> to
  \<open>delete[]\<close>, exactly once, and nothing else.
\<close>

theorem Arena_destroy_frees_once:
  assumes "arena_reach a R"
  shows "distinct (Arena_destroy a) \<and> set (Arena_destroy a) = fst ` set (blocks a)"
proof -
  have d: "Arena_destroy a = map fst (blocks a)"
    unfolding Arena_destroy_def by (rule nth_equalityI) simp_all
  have "distinct (map fst (block_regions a))"
    using arena_reach_inv [OF assms] by (intro sorted_wrt_apart_distinct) (auto simp: arena_inv_def)
  then have "distinct (map unat (map fst (blocks a)))"
    by (simp add: block_regions_def case_prod_unfold o_def)
  then have "distinct (map fst (blocks a))" by (rule conjunct1 [OF iffD1 [OF distinct_map]])
  then show ?thesis by (simp add: d)
qed

theorem Arena_destroy_frees_once_witness: "distinct (Arena_destroy example_arena)"
  using Arena_destroy_frees_once [OF example_arena_reach] by blast

text \<open>
  The padding can wrap the size: after an allocation of one byte, a request of the largest
  \<open>size_t\<close> value is granted from the six bytes that the sum wraps to.
\<close>

lemma AllocateAligned_request_wraps:
  defines "a \<equiv> \<lparr>alloc_ptr = 4097, alloc_bytes_remaining = 4095, blocks = [(4096, 4096)],
    memory_usage = 4104\<rparr>"
  shows "Allocate (Some 4096) 1 Arena_new = Inr (4096, a)"
    and "AllocateAligned None (- 1) a =
      Inr (4104, a\<lparr>alloc_ptr := 4103, alloc_bytes_remaining := 4089\<rparr>)"
  by (simp_all add: arena_ops a_def)

end
