(* ===== verification/Atomic_Pointer.thy ===== *)
theory Atomic_Pointer
  imports Prelude
begin

text \<open>
  \<open>AtomicPointer\<close> of src/db/atomic_pointer.h, in the variant built from raw pointers and a
  memory barrier (the one the compiler selects on x86 and ARM with GCC): a cell that holds a
  pointer, or is still uninitialised after the default constructor. One load or one store is
  one atomic step; the developments that interleave threads do so between these steps, in
  the order of the program text. That order is the only guarantee the barriers give there:
  a release store is not moved before the stores that precede it, and an acquire load is not
  moved after the loads that follow it.
\<close>

type_synonym AtomicPointer = "u64 option"

definition AtomicPointer_uninit :: AtomicPointer where
  "AtomicPointer_uninit = None"

definition AtomicPointer_new :: "u64 \<Rightarrow> AtomicPointer" where
  "AtomicPointer_new p = Some p"

definition NoBarrier_Load :: "AtomicPointer \<Rightarrow> u64 res" where
  "NoBarrier_Load ap = (case ap of None \<Rightarrow> Inl Uninitialised | Some p \<Rightarrow> Inr p)"

definition NoBarrier_Store :: "u64 \<Rightarrow> AtomicPointer \<Rightarrow> AtomicPointer" where
  "NoBarrier_Store v ap = Some v"

definition Acquire_Load :: "AtomicPointer \<Rightarrow> u64 res" where
  "Acquire_Load ap = (case ap of None \<Rightarrow> Inl Uninitialised | Some p \<Rightarrow> Inr p)"

definition Release_Store :: "u64 \<Rightarrow> AtomicPointer \<Rightarrow> AtomicPointer" where
  "Release_Store v ap = Some v"

lemma load_store [simp]:
  "NoBarrier_Load (NoBarrier_Store v ap) = Inr v" "NoBarrier_Load (Release_Store v ap) = Inr v"
  "Acquire_Load (NoBarrier_Store v ap) = Inr v" "Acquire_Load (Release_Store v ap) = Inr v"
  "NoBarrier_Load (AtomicPointer_new v) = Inr v" "Acquire_Load (AtomicPointer_new v) = Inr v"
  by (simp_all add: NoBarrier_Load_def NoBarrier_Store_def Acquire_Load_def Release_Store_def
      AtomicPointer_new_def)

lemma load_eq [simp]:
  "NoBarrier_Load ap = Inr p \<longleftrightarrow> ap = Some p" "Acquire_Load ap = Inr p \<longleftrightarrow> ap = Some p"
  by (simp_all add: NoBarrier_Load_def Acquire_Load_def split: option.split)

end
