(* ===== verification/Skip_List.thy ===== *)
theory Skip_List
  imports Atomic_Pointer Arena Random_Gen
begin

text \<open>
  The skip list (src/db/SkipList.h). Nodes live in a heap from addresses to records; the
  addresses come from the arena. A \<open>next_\<close> slot is an \<open>AtomicPointer\<close>, uninitialised until
  its first store. Dereferencing the null pointer, an address with no node, a slot outside
  the allocated array or an uninitialised slot is a fault. The search loop has no bound in
  the code, so it is a partial function whose value is \<open>None\<close> if it does not return. The
  key type, its comparator and the size of a node are the template's parameters. The second
  half of the theory interleaves one writer with readers, one atomic access at a time.
\<close>

section \<open>Definitions\<close>

subsection \<open>Nodes\<close>

record 'k Node =
  node_key :: 'k
  node_next :: "AtomicPointer list"

record 'k SkipList =
  sl_compare :: "'k \<Rightarrow> 'k \<Rightarrow> int"
  sl_node_size :: u64
  sl_arena :: arena
  sl_head :: u64
  sl_max_height :: AtomicPointer
  sl_rand :: Random
  sl_heap :: "u64 \<Rightarrow> 'k Node option"

definition kMaxHeight :: nat where "kMaxHeight = 12"

definition deref :: "('k, 'z) SkipList_scheme \<Rightarrow> u64 \<Rightarrow> 'k Node res" where
  "deref sl p =
     (if p = 0 then Inl Null_pointer
      else case sl_heap sl p of None \<Rightarrow> Inl Dangling | Some x \<Rightarrow> Inr x)"

definition slot_get :: "'a list \<Rightarrow> int \<Rightarrow> 'a res" where
  "slot_get xs i = (if 0 \<le> i \<and> i < int (length xs) then Inr (xs ! nat i) else Inl Out_of_bounds)"

definition slot_set :: "'a list \<Rightarrow> int \<Rightarrow> 'a \<Rightarrow> 'a list res" where
  "slot_set xs i v =
     (if 0 \<le> i \<and> i < int (length xs) then Inr (xs[nat i := v]) else Inl Out_of_bounds)"

definition Next :: "('k, 'z) SkipList_scheme \<Rightarrow> u64 \<Rightarrow> int \<Rightarrow> u64 res" where
  "Next sl p n =
     rbind (deref sl p) (\<lambda>x. rbind (rassert (n \<ge> 0)) (\<lambda>_.
     rbind (slot_get (node_next x) n) (\<lambda>ap. Acquire_Load ap)))"

definition SetNext :: "u64 \<Rightarrow> int \<Rightarrow> u64 \<Rightarrow> ('k, 'z) SkipList_scheme \<Rightarrow> ('k, 'z) SkipList_scheme res" where
  "SetNext p n v sl =
     rbind (deref sl p) (\<lambda>x. rbind (rassert (n \<ge> 0)) (\<lambda>_.
     rbind (slot_get (node_next x) n) (\<lambda>ap.
     rbind (slot_set (node_next x) n (Release_Store v ap)) (\<lambda>ns.
     Inr (sl\<lparr>sl_heap := (sl_heap sl)(p \<mapsto> x\<lparr>node_next := ns\<rparr>)\<rparr>)))))"

definition NoBarrier_Next :: "('k, 'z) SkipList_scheme \<Rightarrow> u64 \<Rightarrow> int \<Rightarrow> u64 res" where
  "NoBarrier_Next sl p n =
     rbind (deref sl p) (\<lambda>x. rbind (rassert (n \<ge> 0)) (\<lambda>_.
     rbind (slot_get (node_next x) n) (\<lambda>ap. NoBarrier_Load ap)))"

definition NoBarrier_SetNext ::
    "u64 \<Rightarrow> int \<Rightarrow> u64 \<Rightarrow> ('k, 'z) SkipList_scheme \<Rightarrow> ('k, 'z) SkipList_scheme res" where
  "NoBarrier_SetNext p n v sl =
     rbind (deref sl p) (\<lambda>x. rbind (rassert (n \<ge> 0)) (\<lambda>_.
     rbind (slot_get (node_next x) n) (\<lambda>ap.
     rbind (slot_set (node_next x) n (NoBarrier_Store v ap)) (\<lambda>ns.
     Inr (sl\<lparr>sl_heap := (sl_heap sl)(p \<mapsto> x\<lparr>node_next := ns\<rparr>)\<rparr>)))))"

subsection \<open>The list's helpers\<close>

text \<open>\<open>max_height_\<close> holds an integer cast to a pointer; reading it back truncates to \<open>int\<close>.\<close>

definition GetMaxHeight :: "('k, 'z) SkipList_scheme \<Rightarrow> int res" where
  "GetMaxHeight sl =
     rbind (NoBarrier_Load (sl_max_height sl)) (\<lambda>v. Inr (sint (ucast v :: u32)))"

definition Equal :: "('k, 'z) SkipList_scheme \<Rightarrow> 'k \<Rightarrow> 'k \<Rightarrow> bool" where
  "Equal sl a b \<longleftrightarrow> sl_compare sl a b = 0"

definition KeyIsAfterNode :: "('k, 'z) SkipList_scheme \<Rightarrow> 'k \<Rightarrow> u64 \<Rightarrow> bool res" where
  "KeyIsAfterNode sl key n =
     (if n \<noteq> 0 then rbind (deref sl n) (\<lambda>x. Inr (sl_compare sl (node_key x) key < 0))
      else Inr False)"

text \<open>\<open>NewNode\<close>; the node's slots are whatever the arena's memory holds.\<close>

definition NewNode ::
    "u64 option \<Rightarrow> 'k \<Rightarrow> nat \<Rightarrow> 'k SkipList \<Rightarrow> (u64 \<times> 'k SkipList) res" where
  "NewNode new_result key height sl =
     rbind (AllocateAligned new_result (sl_node_size sl + 8 * (of_nat height - 1)) (sl_arena sl))
       (\<lambda>(mem, a).
     Inr (mem, sl\<lparr>sl_arena := a, sl_heap := (sl_heap sl)(mem \<mapsto>
           \<lparr>node_key = key, node_next = replicate height AtomicPointer_uninit\<rparr>)\<rparr>))"

subsection \<open>Searching\<close>

text \<open>
  One turn of the search loop: it either goes on with a new \<open>x\<close>, \<open>level\<close> and \<open>prev\<close>, or
  returns. A \<open>prev\<close> of \<open>None\<close> is the null argument; its entries start uninitialised.
\<close>

type_synonym prevs = "u64 option list"

definition FindGreaterOrEqual_step ::
    "('k, 'z) SkipList_scheme \<Rightarrow> 'k \<Rightarrow> u64 \<times> int \<times> prevs option
       \<Rightarrow> ((u64 \<times> int \<times> prevs option) + (u64 \<times> prevs option)) res" where
  "FindGreaterOrEqual_step sl key st =
     (case st of (x, level, prev) \<Rightarrow>
        rbind (Next sl x level) (\<lambda>next.
        rbind (KeyIsAfterNode sl key next) (\<lambda>after.
        if after then Inr (Inl (next, level, prev))
        else
          rbind (case prev of None \<Rightarrow> Inr None
                 | Some p \<Rightarrow> rbind (slot_set p level (Some x)) (\<lambda>p'. Inr (Some p'))) (\<lambda>prev'.
          if level = 0 then Inr (Inr (next, prev'))
          else Inr (Inl (x, level - 1, prev'))))))"

partial_function (option) FindGreaterOrEqual_loop ::
    "('k, 'z) SkipList_scheme \<Rightarrow> 'k \<Rightarrow> u64 \<times> int \<times> prevs option
       \<Rightarrow> (u64 \<times> prevs option) res option" where
  "FindGreaterOrEqual_loop sl key st =
     (case FindGreaterOrEqual_step sl key st of
        Inl e \<Rightarrow> Some (Inl e)
      | Inr r \<Rightarrow> (case r of Inl st' \<Rightarrow> FindGreaterOrEqual_loop sl key st' | Inr y \<Rightarrow> Some (Inr y)))"

definition FindGreaterOrEqual ::
    "('k, 'z) SkipList_scheme \<Rightarrow> 'k \<Rightarrow> prevs option \<Rightarrow> (u64 \<times> prevs option) res option" where
  "FindGreaterOrEqual sl key prev =
     (case GetMaxHeight sl of
        Inl e \<Rightarrow> Some (Inl e)
      | Inr mh \<Rightarrow> FindGreaterOrEqual_loop sl key (sl_head sl, mh - 1, prev))"

text \<open>What \<open>Contains\<close> does with the node it found.\<close>

definition Contains_result :: "('k, 'z) SkipList_scheme \<Rightarrow> 'k \<Rightarrow> u64 \<Rightarrow> bool res" where
  "Contains_result sl key x =
     (if x \<noteq> 0 then rbind (deref sl x) (\<lambda>n. Inr (Equal sl key (node_key n))) else Inr False)"

definition Contains :: "('k, 'z) SkipList_scheme \<Rightarrow> 'k \<Rightarrow> bool res option" where
  "Contains sl key =
     map_option (\<lambda>r. rbind r (\<lambda>(x, _). Contains_result sl key x)) (FindGreaterOrEqual sl key None)"

subsection \<open>Inserting\<close>

text \<open>
  \<open>Insert\<close>, cut at its accesses to the shared nodes: the search with the assertion against
  duplicates, the raising of the height, and the two stores of each turn of the linking loop.
\<close>

definition Insert_search :: "'k \<Rightarrow> 'k SkipList \<Rightarrow> prevs res option" where
  "Insert_search key sl =
     map_option (\<lambda>r.
       rbind r (\<lambda>(x, prev).
       rbind (if x = 0 then Inr True
              else rbind (deref sl x) (\<lambda>n. Inr (\<not> Equal sl (node_key n) key))) (\<lambda>ok.
       rbind (rassert ok) (\<lambda>_.
       case prev of None \<Rightarrow> Inl Null_pointer | Some p \<Rightarrow> Inr p))))
     (FindGreaterOrEqual sl key (Some (replicate kMaxHeight None)))"

function fill_prev :: "u64 \<Rightarrow> int \<Rightarrow> int \<Rightarrow> prevs \<Rightarrow> prevs res" where
  "fill_prev head i height prev =
     (if i < height
      then rbind (slot_set prev i (Some head)) (\<lambda>prev'. fill_prev head (i + 1) height prev')
      else Inr prev)"
  by auto
termination by (relation "measure (\<lambda>(head, i, height, prev). nat (height - i))") auto

definition Insert_raise :: "int \<Rightarrow> prevs \<Rightarrow> 'k SkipList \<Rightarrow> (prevs \<times> 'k SkipList) res" where
  "Insert_raise height prev sl =
     rbind (GetMaxHeight sl) (\<lambda>mh.
     if height > mh
     then rbind (fill_prev (sl_head sl) mh height prev) (\<lambda>prev'.
          Inr (prev', sl\<lparr>sl_max_height := Release_Store (of_int height) (sl_max_height sl)\<rparr>))
     else Inr (prev, sl))"

definition prev_node :: "prevs \<Rightarrow> int \<Rightarrow> u64 res" where
  "prev_node prev i =
     rbind (slot_get prev i) (\<lambda>p. case p of None \<Rightarrow> Inl Uninitialised | Some q \<Rightarrow> Inr q)"

definition Insert_store_x :: "u64 \<Rightarrow> prevs \<Rightarrow> int \<Rightarrow> 'k SkipList \<Rightarrow> 'k SkipList res" where
  "Insert_store_x x prev i sl =
     rbind (prev_node prev i) (\<lambda>p. rbind (NoBarrier_Next sl p i) (\<lambda>nx. NoBarrier_SetNext x i nx sl))"

definition Insert_store_prev :: "u64 \<Rightarrow> prevs \<Rightarrow> int \<Rightarrow> 'k SkipList \<Rightarrow> 'k SkipList res" where
  "Insert_store_prev x prev i sl = rbind (prev_node prev i) (\<lambda>p. SetNext p i x sl)"

primrec Insert_link :: "u64 \<Rightarrow> prevs \<Rightarrow> int list \<Rightarrow> 'k SkipList \<Rightarrow> 'k SkipList res" where
  "Insert_link x prev [] sl = Inr sl"
| "Insert_link x prev (i # is) sl =
     rbind (Insert_store_x x prev i sl) (\<lambda>sl1.
     rbind (Insert_store_prev x prev i sl1) (\<lambda>sl2. Insert_link x prev is sl2))"

definition insert_height :: int where "insert_height = 5"

definition Insert :: "u64 option \<Rightarrow> 'k \<Rightarrow> 'k SkipList \<Rightarrow> 'k SkipList res option" where
  "Insert new_result key sl =
     map_option (\<lambda>r.
       rbind r (\<lambda>prev.
       rbind (Insert_raise insert_height prev sl) (\<lambda>(prev', sl1).
       rbind (NewNode new_result key (nat insert_height) sl1) (\<lambda>(x, sl2).
       Insert_link x prev' [0..insert_height - 1] sl2))))
     (Insert_search key sl)"

subsection \<open>Construction\<close>

text \<open>The constructor; \<open>zero\<close> is the key the literal 0 converts to.\<close>

primrec clear_head :: "int list \<Rightarrow> 'k SkipList \<Rightarrow> 'k SkipList res" where
  "clear_head [] sl = Inr sl"
| "clear_head (i # is) sl = rbind (SetNext (sl_head sl) i 0 sl) (\<lambda>sl1. clear_head is sl1)"

definition SkipList_new ::
    "u64 option \<Rightarrow> ('k \<Rightarrow> 'k \<Rightarrow> int) \<Rightarrow> u64 \<Rightarrow> 'k \<Rightarrow> arena \<Rightarrow> (u64 \<Rightarrow> 'k Node option) \<Rightarrow> 'k SkipList res" where
  "SkipList_new new_result cmp node_size zero a heap =
     rbind (NewNode new_result zero kMaxHeight
              \<lparr>sl_compare = cmp, sl_node_size = node_size, sl_arena = a, sl_head = 0,
               sl_max_height = AtomicPointer_uninit, sl_rand = Random_new 0xdeadbeef, sl_heap = heap\<rparr>)
       (\<lambda>(head, sl).
     clear_head [0..int kMaxHeight - 1]
       (sl\<lparr>sl_head := head, sl_max_height := AtomicPointer_new 1\<rparr>))"

subsection \<open>Specification\<close>

text \<open>The pointer a node holds at a level, if it has been stored there.\<close>

definition node_link :: "('k, 'z) SkipList_scheme \<Rightarrow> u64 \<Rightarrow> nat \<Rightarrow> u64 option" where
  "node_link sl p l =
     (if p = 0 then None
      else case sl_heap sl p of None \<Rightarrow> None
           | Some x \<Rightarrow> if l < length (node_next x) then node_next x ! l else None)"

definition has_slot :: "('k, 'z) SkipList_scheme \<Rightarrow> u64 \<Rightarrow> nat \<Rightarrow> bool" where
  "has_slot sl p l \<longleftrightarrow>
     p \<noteq> 0 \<and> (case sl_heap sl p of None \<Rightarrow> False | Some x \<Rightarrow> l < length (node_next x))"

definition key_of :: "('k, 'z) SkipList_scheme \<Rightarrow> u64 \<Rightarrow> 'k" where
  "key_of sl p = node_key (the (sl_heap sl p))"

text \<open>\<open>segment\<close>: following level \<open>l\<close> from \<open>p\<close> meets these nodes; \<open>chain\<close>: and then null.\<close>

primrec segment :: "('k, 'z) SkipList_scheme \<Rightarrow> nat \<Rightarrow> u64 \<Rightarrow> u64 list \<Rightarrow> bool" where
  "segment sl l p [] \<longleftrightarrow> True"
| "segment sl l p (q # qs) \<longleftrightarrow> node_link sl p l = Some q \<and> q \<noteq> 0 \<and> segment sl l q qs"

definition chain :: "('k, 'z) SkipList_scheme \<Rightarrow> nat \<Rightarrow> u64 \<Rightarrow> u64 list \<Rightarrow> bool" where
  "chain sl l p qs \<longleftrightarrow> segment sl l p qs \<and> node_link sl (last (p # qs)) l = Some 0"

text \<open>
  The shape of a list: at every level the nodes form a chain from the head to null, strictly
  increasing in key; each level is part of the level below; levels at or above the current
  height are empty.
\<close>

definition sl_shape :: "('k, 'z) SkipList_scheme \<Rightarrow> nat \<Rightarrow> (nat \<Rightarrow> u64 list) \<Rightarrow> bool" where
  "sl_shape sl mh lev \<longleftrightarrow>
     sl_max_height sl = Some (of_nat mh) \<and> 1 \<le> mh \<and> mh \<le> kMaxHeight \<and>
     (\<forall>l \<ge> mh. lev l = []) \<and>
     (\<forall>l < kMaxHeight. chain sl l (sl_head sl) (lev l)) \<and>
     (\<forall>l. set (lev (Suc l)) \<subseteq> set (lev l)) \<and>
     (\<forall>l. sorted_wrt (\<lambda>p q. sl_compare sl (key_of sl p) (key_of sl q) < 0) (lev l)) \<and>
     sl_head sl \<notin> set (lev 0)"

text \<open>Every node was handed out by the arena.\<close>

definition sl_memory :: "'k SkipList \<Rightarrow> bool" where
  "sl_memory sl \<longleftrightarrow>
     0 < unat (sl_node_size sl) \<and> unat (sl_node_size sl) + 128 < 2 ^ 64 \<and>
     (\<exists>R. arena_reach (sl_arena sl) R \<and> (\<forall>p \<in> dom (sl_heap sl). unat p \<in> fst ` set R))"

text \<open>What a list represents: its keys, in increasing order.\<close>

definition sl_rep :: "'k SkipList \<Rightarrow> 'k list \<Rightarrow> bool" where
  "sl_rep sl ks \<longleftrightarrow>
     sl_memory sl \<and> (\<exists>mh lev. sl_shape sl mh lev \<and> ks = map (key_of sl) (lev 0))"

definition level_before :: "('k, 'z) SkipList_scheme \<Rightarrow> 'k \<Rightarrow> u64 list \<Rightarrow> u64 list" where
  "level_before sl k ps = takeWhile (\<lambda>p. sl_compare sl (key_of sl p) k < 0) ps"

definition level_after :: "('k, 'z) SkipList_scheme \<Rightarrow> 'k \<Rightarrow> u64 list \<Rightarrow> u64 list" where
  "level_after sl k ps = dropWhile (\<lambda>p. sl_compare sl (key_of sl p) k < 0) ps"

text \<open>The \<open>prev\<close> array after a search that ended its descent: the last node before the key.\<close>

definition prevs_below :: "('k, 'z) SkipList_scheme \<Rightarrow> 'k \<Rightarrow> (nat \<Rightarrow> u64 list) \<Rightarrow> nat \<Rightarrow> prevs \<Rightarrow> prevs" where
  "prevs_below sl k lev n ps =
     map (\<lambda>i. if i < n then Some (last (sl_head sl # level_before sl k (lev i))) else ps ! i)
       [0..<length ps]"

subsection \<open>A writer and its readers\<close>

text \<open>
  The interleavings: one thread runs \<open>Insert\<close>s (its caller serialises writers), another runs
  \<open>Contains\<close>. A step is one access to the shared nodes or to the height, in program order,
  or work on the thread's own variables. Readers write nothing, so one reader stands for all.
\<close>

datatype 'k writer =
    Idle
  | Raise 'k prevs
  | Alloc 'k prevs
  | Store_x u64 prevs int
  | Store_prev u64 prevs int

datatype 'k reader = Start 'k | Searching 'k u64 int | Answered 'k bool

inductive sl_step ::
    "'k SkipList \<times> 'k writer \<times> 'k reader \<Rightarrow> 'k SkipList \<times> 'k writer \<times> 'k reader \<Rightarrow> bool" where
  writer_search:
    "Insert_search key sl = Some (Inr prev) \<Longrightarrow> sl_step (sl, Idle, r) (sl, Raise key prev, r)"
| writer_raise:
    "Insert_raise insert_height prev sl = Inr (prev', sl') \<Longrightarrow>
       sl_step (sl, Raise key prev, r) (sl', Alloc key prev', r)"
| writer_alloc:
    "\<lbrakk>fresh_block (sl_arena sl) m (block_request (sl_node_size sl + 32));
      NewNode m key (nat insert_height) sl = Inr (x, sl')\<rbrakk> \<Longrightarrow>
       sl_step (sl, Alloc key prev, r) (sl', Store_x x prev 0, r)"
| writer_store_x:
    "Insert_store_x x prev i sl = Inr sl' \<Longrightarrow>
       sl_step (sl, Store_x x prev i, r) (sl', Store_prev x prev i, r)"
| writer_store_prev:
    "Insert_store_prev x prev i sl = Inr sl' \<Longrightarrow>
       sl_step (sl, Store_prev x prev i, r)
         (sl', if i + 1 < insert_height then Store_x x prev (i + 1) else Idle, r)"
| reader_start:
    "GetMaxHeight sl = Inr mh \<Longrightarrow>
       sl_step (sl, w, Start key) (sl, w, Searching key (sl_head sl) (mh - 1))"
| reader_step:
    "FindGreaterOrEqual_step sl key (x, level, None) = Inr (Inl (x', level', None)) \<Longrightarrow>
       sl_step (sl, w, Searching key x level) (sl, w, Searching key x' level')"
| reader_answer:
    "\<lbrakk>FindGreaterOrEqual_step sl key (x, level, None) = Inr (Inr (n, None));
      Contains_result sl key n = Inr b\<rbrakk> \<Longrightarrow>
       sl_step (sl, w, Searching key x level) (sl, w, Answered key b)"

text \<open>A key is in the list when a node reached from the head on the lowest level equals it.\<close>

definition sl_has :: "'k SkipList \<Rightarrow> 'k \<Rightarrow> bool" where
  "sl_has sl k \<longleftrightarrow>
     (\<exists>ps. chain sl 0 (sl_head sl) ps \<and> list_ex (\<lambda>p. sl_compare sl k (key_of sl p) = 0) ps)"

text \<open>The contract of the key comparator.\<close>

locale key_order =
  fixes cmp :: "'k \<Rightarrow> 'k \<Rightarrow> int"
  assumes cmp_swap: "sgn (cmp b a) = - sgn (cmp a b)"
    and cmp_trans: "cmp a b \<le> 0 \<Longrightarrow> cmp b c \<le> 0 \<Longrightarrow> cmp a c \<le> 0"

section \<open>Lemmas\<close>

subsection \<open>Key comparators\<close>

context key_order
begin

lemma cmp_less_swap: "cmp b a < 0 \<longleftrightarrow> 0 < cmp a b"
  using cmp_swap [of b a] by (auto simp: sgn_if split: if_splits)

lemma cmp_eq_swap: "cmp b a = 0 \<longleftrightarrow> cmp a b = 0"
  using cmp_swap [of b a] by (auto simp: sgn_if split: if_splits)

lemma cmp_refl [simp]: "cmp a a = 0"
  using cmp_swap [of a a] by (auto simp: sgn_if split: if_splits)

lemma cmp_less_le_trans: "cmp a b < 0 \<Longrightarrow> cmp b c \<le> 0 \<Longrightarrow> cmp a c < 0"
  using cmp_trans [of a b c] cmp_trans [of b c a] cmp_less_swap [of a c] cmp_eq_swap [of a c]
    cmp_less_swap [of a b]
  by (smt (verit))

lemma cmp_le_less_trans: "cmp a b \<le> 0 \<Longrightarrow> cmp b c < 0 \<Longrightarrow> cmp a c < 0"
  using cmp_trans [of a b c] cmp_trans [of c a b] cmp_less_swap cmp_eq_swap
  by (smt (verit))

lemma cmp_less_trans: "cmp a b < 0 \<Longrightarrow> cmp b c < 0 \<Longrightarrow> cmp a c < 0"
  by (rule cmp_less_le_trans) auto

end

subsection \<open>Links and chains\<close>

lemma node_link_has_slot: "node_link sl p l = Some q \<Longrightarrow> has_slot sl p l"
  by (auto simp: node_link_def has_slot_def split: option.splits if_splits)

lemma Next_eq: "node_link sl p l = Some q \<Longrightarrow> Next sl p (int l) = Inr q"
  by (auto simp: node_link_def Next_def deref_def slot_get_def rbind_eq_Inr split: option.splits if_splits)

lemma NoBarrier_Next_eq: "node_link sl p l = Some q \<Longrightarrow> NoBarrier_Next sl p (int l) = Inr q"
  by (auto simp: node_link_def NoBarrier_Next_def deref_def slot_get_def rbind_eq_Inr split: option.splits if_splits)

lemma has_slot_deref:
  assumes "has_slot sl p l"
  obtains x where "sl_heap sl p = Some x" "deref sl p = Inr x" "p \<noteq> 0" "node_key x = key_of sl p"
    "l < length (node_next x)"
  using assms by (auto simp: has_slot_def deref_def key_of_def split: option.splits)

definition set_link :: "u64 \<Rightarrow> nat \<Rightarrow> u64 \<Rightarrow> ('k, 'z) SkipList_scheme \<Rightarrow> ('k, 'z) SkipList_scheme" where
  "set_link p l v sl =
     sl\<lparr>sl_heap := (sl_heap sl)(p \<mapsto>
         (the (sl_heap sl p))\<lparr>node_next := (node_next (the (sl_heap sl p)))[l := Some v]\<rparr>)\<rparr>"

lemma SetNext_eq:
  assumes "has_slot sl p l"
  shows "SetNext p (int l) v sl = Inr (set_link p l v sl)"
    and "NoBarrier_SetNext p (int l) v sl = Inr (set_link p l v sl)"
  using assms
  by (auto simp: SetNext_def NoBarrier_SetNext_def set_link_def slot_get_def slot_set_def
      Release_Store_def NoBarrier_Store_def elim: has_slot_deref)

lemma set_link_simps [simp]:
  "sl_compare (set_link p l v sl) = sl_compare sl" "sl_head (set_link p l v sl) = sl_head sl"
  "sl_max_height (set_link p l v sl) = sl_max_height sl" "sl_arena (set_link p l v sl) = sl_arena sl"
  "sl_node_size (set_link p l v sl) = sl_node_size sl"
  by (simp_all add: set_link_def)

lemma key_of_set_link [simp]: "key_of (set_link p l v sl) q = key_of sl q"
  by (simp add: key_of_def set_link_def)

lemma node_link_set_link:
  "has_slot sl p l \<Longrightarrow>
     node_link (set_link p l v sl) q m = (if q = p \<and> m = l then Some v else node_link sl q m)"
  by (auto simp: node_link_def set_link_def has_slot_def split: option.splits)

lemma has_slot_set_link [simp]:
  "has_slot sl p l \<Longrightarrow> has_slot (set_link p l v sl) q m = has_slot sl q m"
  by (auto simp: set_link_def has_slot_def split: option.splits)

lemma dom_set_link: "has_slot sl p l \<Longrightarrow> dom (sl_heap (set_link p l v sl)) = dom (sl_heap sl)"
  by (auto simp: set_link_def has_slot_def split: option.splits)

lemma segment_append:
  "segment sl l p (xs @ ys) \<longleftrightarrow> segment sl l p xs \<and> segment sl l (last (p # xs)) ys"
  by (induction xs arbitrary: p) auto

lemma segment_cong:
  "(\<And>q. q \<in> set (butlast (p # qs)) \<Longrightarrow> node_link sl' q l = node_link sl q l) \<Longrightarrow>
     segment sl' l p qs = segment sl l p qs"
proof (induction qs arbitrary: p)
  case (Cons a qs)
  then show ?case by (cases qs) auto
qed simp

lemma chain_cong:
  assumes "\<And>q. q \<in> set (p # qs) \<Longrightarrow> node_link sl' q l = node_link sl q l"
  shows "chain sl' l p qs = chain sl l p qs"
proof -
  have "segment sl' l p qs = segment sl l p qs"
    by (rule segment_cong) (meson assms in_set_butlastD)
  moreover have "node_link sl' (last (p # qs)) l = node_link sl (last (p # qs)) l"
    by (rule assms) (rule last_in_set, simp)
  ultimately show ?thesis by (simp add: chain_def)
qed

lemma chain_Nil: "chain sl l p [] \<longleftrightarrow> node_link sl p l = Some 0"
  by (simp add: chain_def)

lemma chain_Cons:
  "chain sl l p (q # qs) \<longleftrightarrow> node_link sl p l = Some q \<and> q \<noteq> 0 \<and> chain sl l q qs"
  by (auto simp: chain_def)

lemma chain_append:
  "chain sl l p (xs @ ys) \<longleftrightarrow> segment sl l p xs \<and> chain sl l (last (p # xs)) ys"
  by (auto simp: chain_def segment_append)

lemma chain_next: "chain sl l p qs \<Longrightarrow> node_link sl p l = Some (hd (qs @ [0]))"
  by (cases qs) (auto simp: chain_def)

lemma chain_has_slot: "chain sl l p qs \<Longrightarrow> q \<in> set (p # qs) \<Longrightarrow> has_slot sl q l"
proof (induction qs arbitrary: p)
  case Nil
  then show ?case by (auto simp: chain_def intro: node_link_has_slot)
next
  case (Cons a qs)
  then have "chain sl l a qs" "has_slot sl p l"
    by (auto simp: chain_def intro: node_link_has_slot)
  then show ?case using Cons.IH [of a] Cons.prems(2) by auto
qed

subsection \<open>Shapes\<close>

lemma sl_shape_below: "sl_shape sl mh lev \<Longrightarrow> p \<in> set (lev (Suc l)) \<Longrightarrow> p \<in> set (lev l)"
  unfolding sl_shape_def by blast

lemma sl_shape_sorted:
  "sl_shape sl mh lev \<Longrightarrow>
     sorted_wrt (\<lambda>p q. sl_compare sl (key_of sl p) (key_of sl q) < 0) (lev l)"
  unfolding sl_shape_def by blast

lemma sl_shape_subset:
  assumes "sl_shape sl mh lev" and "i \<le> j"
  shows "set (lev j) \<subseteq> set (lev i)"
  using assms(2)
proof (induction rule: dec_induct)
  case (step n)
  then show ?case using sl_shape_below [OF assms(1), of _ n] by blast
qed simp

lemma sl_shape_slot:
  assumes "sl_shape sl mh lev" and "l < kMaxHeight" and "p \<in> set (sl_head sl # lev l)"
  shows "has_slot sl p l"
  using assms chain_has_slot [of sl l "sl_head sl" "lev l" p] by (simp add: sl_shape_def)

lemma GetMaxHeight_shape:
  assumes "sl_shape sl mh lev"
  shows "GetMaxHeight sl = Inr (int mh)"
proof -
  have mh: "mh \<le> 12" and v: "sl_max_height sl = Some (of_nat mh)"
    using assms by (auto simp: sl_shape_def kMaxHeight_def)
  have "mh < 2 ^ 31" "mh < 2 ^ 64" using mh by simp_all
  then have "sint (ucast (of_nat mh :: u64) :: u32) = int mh"
    by (simp add: sint_uint uint_nat unsigned_ucast_eq unat_of_nat take_bit_nat_eq_self
        signed_take_bit_int_eq_self take_bit_int_eq_self)
  then show ?thesis by (simp add: GetMaxHeight_def v NoBarrier_Load_def)
qed

lemma level_split: "level_before sl k ps @ level_after sl k ps = ps"
  by (simp add: level_before_def level_after_def)

lemma level_before_less: "p \<in> set (level_before sl k ps) \<Longrightarrow> sl_compare sl (key_of sl p) k < 0"
  by (auto simp: level_before_def dest: set_takeWhileD)

lemma level_before_eq:
  assumes "\<forall>p \<in> set pre. sl_compare sl (key_of sl p) k < 0"
    and "rest = [] \<or> \<not> sl_compare sl (key_of sl (hd rest)) k < 0"
  shows "level_before sl k (pre @ rest) = pre" and "level_after sl k (pre @ rest) = rest"
  using assms by (cases rest; simp add: level_before_def level_after_def)+

lemma length_prevs_below [simp]: "length (prevs_below sl k lev n ps) = length ps"
  by (simp add: prevs_below_def)

lemma prevs_below_nth:
  "i < length ps \<Longrightarrow> prevs_below sl k lev n ps ! i =
     (if i < n then Some (last (sl_head sl # level_before sl k (lev i))) else ps ! i)"
  by (simp add: prevs_below_def)

lemma prevs_below_step:
  "prevs_below sl k lev n (ps[n := Some (last (sl_head sl # level_before sl k (lev n)))])
     = prevs_below sl k lev (Suc n) ps"
  by (rule nth_equalityI) (auto simp: prevs_below_nth nth_list_update less_Suc_eq)

lemma prevs_below_0 [simp]: "prevs_below sl k lev 0 ps = ps"
  by (rule nth_equalityI) (auto simp: prevs_below_nth)

text \<open>One turn of the search, at a node of the level or at the head.\<close>

lemma FindGreaterOrEqual_step_shape:
  assumes shape: "sl_shape sl mh lev" and l: "l < kMaxHeight" and lev: "lev l = pre @ rest"
    and prev: "\<forall>ps. prev = Some ps \<longrightarrow> length ps = kMaxHeight"
  defines "x \<equiv> last (sl_head sl # pre)" and "nx \<equiv> hd (rest @ [0])"
  shows "FindGreaterOrEqual_step sl k (x, int l, prev) = Inr
     (if rest \<noteq> [] \<and> sl_compare sl (key_of sl nx) k < 0 then Inl (nx, int l, prev)
      else if l = 0 then Inr (nx, map_option (\<lambda>ps. ps[l := Some x]) prev)
      else Inl (x, int l - 1, map_option (\<lambda>ps. ps[l := Some x]) prev))"
proof -
  have c: "chain sl l (sl_head sl) (pre @ rest)" using shape l lev by (auto simp: sl_shape_def)
  then have link: "node_link sl x l = Some nx" using chain_next by (force simp: chain_append x_def nx_def)
  have after: "KeyIsAfterNode sl k nx = Inr (rest \<noteq> [] \<and> sl_compare sl (key_of sl nx) k < 0)"
  proof (cases rest)
    case (Cons q qs)
    then have "has_slot sl nx l" using sl_shape_slot [OF shape l, of q] by (simp add: lev nx_def)
    then show ?thesis by (auto simp: KeyIsAfterNode_def Cons elim: has_slot_deref)
  qed (simp add: KeyIsAfterNode_def nx_def)
  have store: "(case prev of None \<Rightarrow> Inr None
      | Some p \<Rightarrow> rbind (slot_set p (int l) (Some x)) (\<lambda>p'. Inr (Some p')))
      = Inr (map_option (\<lambda>ps. ps[l := Some x]) prev)"
    using prev l by (auto simp: slot_set_def split: option.split)
  show ?thesis
    unfolding FindGreaterOrEqual_step_def prod.case Next_eq [OF link] rbind_Inr after store by auto
qed

context key_order
begin

lemma level_below_split:
  assumes shape: "sl_shape sl mh lev" and cmp: "sl_compare sl = cmp"
    and lev: "lev (Suc l) = pre @ rest" and pre: "\<forall>p \<in> set pre. cmp (key_of sl p) k < 0"
  obtains pre' rest' where "lev l = pre' @ rest'" and "\<forall>p \<in> set pre'. cmp (key_of sl p) k < 0"
    and "last (sl_head sl # pre') = last (sl_head sl # pre)"
proof (cases pre rule: rev_cases)
  case Nil
  then show ?thesis by (intro that [of "[]"]) auto
next
  case (snoc xs x)
  then have "x \<in> set (lev l)" using sl_shape_below [OF shape, of x l] lev by simp
  then obtain us vs where split: "lev l = us @ x # vs" by (meson split_list)
  have x: "cmp (key_of sl x) k < 0" using pre snoc by simp
  have "sorted_wrt (\<lambda>p q. cmp (key_of sl p) (key_of sl q) < 0) (us @ x # vs)"
    using sl_shape_sorted [OF shape, of l] by (simp only: cmp split)
  then have "\<forall>p \<in> set us. cmp (key_of sl p) k < 0"
    using x by (auto simp: sorted_wrt_append intro: cmp_less_trans)
  then show ?thesis using x split snoc by (intro that [of "us @ [x]"]) auto
qed

text \<open>The search loop returns, from any point of its descent.\<close>

lemma FindGreaterOrEqual_loop_shape:
  assumes shape: "sl_shape sl mh lev" and cmp: "sl_compare sl = cmp"
  shows "\<lbrakk>l < kMaxHeight; lev l = pre @ rest; \<forall>p \<in> set pre. cmp (key_of sl p) k < 0;
      \<forall>ps. prev = Some ps \<longrightarrow> length ps = kMaxHeight\<rbrakk> \<Longrightarrow>
     FindGreaterOrEqual_loop sl k (last (sl_head sl # pre), int l, prev) =
       Some (Inr (hd (level_after sl k (lev 0) @ [0]), map_option (prevs_below sl k lev (Suc l)) prev))"
proof (induction l arbitrary: pre rest prev)
  case 0
  show ?case
    using 0
  proof (induction rest arbitrary: pre)
    case Nil
    note st = FindGreaterOrEqual_step_shape [OF shape Nil.prems(1,2,4), of k]
    show ?case
      by (subst FindGreaterOrEqual_loop.simps)
        (use Nil.prems st level_before_eq [of pre sl k "[]"] prevs_below_step [of sl k lev 0] in
          \<open>auto simp: cmp option.map_comp split: option.split\<close>)
  next
    case (Cons q qs)
    note st = FindGreaterOrEqual_step_shape [OF shape Cons.prems(1,2,4), of k]
    show ?case
    proof (cases "cmp (key_of sl q) k < 0")
      case True
      then show ?thesis
        using Cons.IH [of "pre @ [q]"] Cons.prems st
        by (subst FindGreaterOrEqual_loop.simps) (simp add: cmp)
    next
      case False
      then show ?thesis
        by (subst FindGreaterOrEqual_loop.simps)
          (use Cons.prems st level_before_eq [of pre sl k "q # qs"] prevs_below_step [of sl k lev 0] in
            \<open>auto simp: cmp option.map_comp split: option.split\<close>)
    qed
  qed
next
  case (Suc l)
  note IH = Suc.IH
  have descend: "FindGreaterOrEqual_loop sl k (last (sl_head sl # pre), int l,
        map_option (\<lambda>ps. ps[Suc l := Some (last (sl_head sl # pre))]) prev) =
      Some (Inr (hd (level_after sl k (lev 0) @ [0]), map_option (prevs_below sl k lev (Suc (Suc l))) prev))"
    if lev: "lev (Suc l) = pre @ rest" and pre: "\<forall>p \<in> set pre. cmp (key_of sl p) k < 0"
      and prev: "\<forall>ps. prev = Some ps \<longrightarrow> length ps = kMaxHeight" and l: "Suc l < kMaxHeight"
      and stop: "rest = [] \<or> \<not> cmp (key_of sl (hd rest)) k < 0" for pre rest prev
  proof -
    obtain pre' rest' where below: "lev l = pre' @ rest'" "\<forall>p \<in> set pre'. cmp (key_of sl p) k < 0"
      "last (sl_head sl # pre') = last (sl_head sl # pre)"
      using level_below_split [OF shape cmp lev pre] by blast
    have "level_before sl k (lev (Suc l)) = pre"
      unfolding lev using pre stop by (intro level_before_eq) (simp_all add: cmp)
    then show ?thesis
      using IH [OF _ below(1,2), of "map_option (\<lambda>ps. ps[Suc l := Some (last (sl_head sl # pre))]) prev"]
        below(3) prev l prevs_below_step [of sl k lev "Suc l"]
      by (cases prev) (auto simp del: last.simps)
  qed
  show ?case
    using Suc.prems
  proof (induction rest arbitrary: pre)
    case Nil
    note st = FindGreaterOrEqual_step_shape [OF shape Nil.prems(1,2,4), of k]
    show ?case
      by (subst FindGreaterOrEqual_loop.simps) (use Nil.prems st descend [of pre "[]"] in simp)
  next
    case (Cons q qs)
    note st = FindGreaterOrEqual_step_shape [OF shape Cons.prems(1,2,4), of k]
    show ?case
    proof (cases "cmp (key_of sl q) k < 0")
      case True
      then show ?thesis
        using Cons.IH [of "pre @ [q]"] Cons.prems st
        by (subst FindGreaterOrEqual_loop.simps) (simp add: cmp)
    next
      case False
      then show ?thesis
        by (subst FindGreaterOrEqual_loop.simps)
          (use Cons.prems st descend [of pre "q # qs"] in \<open>simp add: cmp\<close>)
    qed
  qed
qed

lemma FindGreaterOrEqual_shape:
  assumes shape: "sl_shape sl mh lev" and cmp: "sl_compare sl = cmp"
    and prev: "\<forall>ps. prev = Some ps \<longrightarrow> length ps = kMaxHeight"
  shows "FindGreaterOrEqual sl k prev =
    Some (Inr (hd (level_after sl k (lev 0) @ [0]), map_option (prevs_below sl k lev mh) prev))"
proof -
  have "1 \<le> mh" "mh \<le> kMaxHeight" using shape by (auto simp: sl_shape_def)
  then have "FindGreaterOrEqual_loop sl k (last (sl_head sl # []), int (mh - 1), prev) =
      Some (Inr (hd (level_after sl k (lev 0) @ [0]), map_option (prevs_below sl k lev (Suc (mh - 1))) prev))"
    by (intro FindGreaterOrEqual_loop_shape [OF shape cmp, of _ "[]" "lev (mh - 1)"] prev) auto
  then show ?thesis
    using \<open>1 \<le> mh\<close> by (simp add: FindGreaterOrEqual_def GetMaxHeight_shape [OF shape] of_nat_diff)
qed

end

subsection \<open>Changes that keep the shape\<close>

lemma sl_shape_transfer:
  assumes shape: "sl_shape sl mh lev"
    and same: "sl_compare sl' = sl_compare sl" "sl_head sl' = sl_head sl"
    and links: "\<And>p l. l < kMaxHeight \<Longrightarrow> p \<in> set (sl_head sl # lev l) \<Longrightarrow> node_link sl' p l = node_link sl p l"
    and keys: "\<And>p. p \<in> set (lev 0) \<Longrightarrow> key_of sl' p = key_of sl p"
    and height: "sl_max_height sl' = Some (of_nat mh')" "mh \<le> mh'" "mh' \<le> kMaxHeight"
  shows "sl_shape sl' mh' lev"
proof -
  have "chain sl' l (sl_head sl) (lev l)" if "l < kMaxHeight" for l
    using shape that chain_cong [of "sl_head sl" "lev l" sl' l sl, OF links [OF that]]
    by (simp add: sl_shape_def)
  moreover have "sorted_wrt (\<lambda>p q. sl_compare sl (key_of sl' p) (key_of sl' q) < 0) (lev l)" for l
  proof (rule sorted_wrt_mono_rel [OF _ sl_shape_sorted [OF shape]])
    fix p q assume "p \<in> set (lev l)" "q \<in> set (lev l)" "sl_compare sl (key_of sl p) (key_of sl q) < 0"
    then show "sl_compare sl (key_of sl' p) (key_of sl' q) < 0"
      using sl_shape_subset [OF shape, of 0 l] keys [of p] keys [of q] by (simp add: subset_iff)
  qed
  ultimately show ?thesis
    using shape height unfolding sl_shape_def same by (auto simp: sl_shape_def)
qed

lemma sl_shape_new_node:
  assumes shape: "sl_shape sl mh lev" and fresh: "p \<notin> dom (sl_heap sl)"
    and sl'_def: "sl' = sl\<lparr>sl_arena := a, sl_heap := (sl_heap sl)(p \<mapsto> x)\<rparr>"
  shows "sl_shape sl' mh lev"
proof (rule sl_shape_transfer [OF shape])
  have used: "q \<noteq> p" if "l < kMaxHeight" "q \<in> set (sl_head sl # lev l)" for q l
    using sl_shape_slot [OF shape that] fresh by (auto simp: has_slot_def split: option.splits)
  show "node_link sl' q l = node_link sl q l" if "l < kMaxHeight" "q \<in> set (sl_head sl # lev l)" for q l
    using used [OF that] by (simp add: node_link_def sl'_def)
  show "key_of sl' q = key_of sl q" if "q \<in> set (lev 0)" for q
    using used [of 0 q] that by (simp add: key_of_def sl'_def kMaxHeight_def)
  show "sl_max_height sl' = Some (of_nat mh)" "mh \<le> kMaxHeight"
    using shape by (simp_all add: sl_shape_def sl'_def)
qed (simp_all add: sl'_def)

text \<open>The store into a node that is not on the level yet.\<close>

lemma sl_shape_store_off:
  assumes shape: "sl_shape sl mh lev" and x: "has_slot sl x i" "x \<notin> set (lev i)" "x \<noteq> sl_head sl"
  shows "sl_shape (set_link x i v sl) mh lev"
proof (rule sl_shape_transfer [OF shape])
  show "sl_max_height (set_link x i v sl) = Some (of_nat mh)" "mh \<le> kMaxHeight"
    using shape by (simp_all add: sl_shape_def)
qed (use x in \<open>auto simp: node_link_set_link\<close>)

text \<open>Memory: what the arena returns is never an address in use.\<close>

lemma sl_memory_new_node:
  assumes mem: "sl_memory sl" and n: "n \<le> 12" "1 \<le> n"
    and fresh: "fresh_block (sl_arena sl) m (block_request (sl_node_size sl + 8 * (of_nat n - 1)))"
  shows "(\<exists>p a. NewNode m key n sl = Inr (p, sl\<lparr>sl_arena := a, sl_heap := (sl_heap sl)(p \<mapsto>
            \<lparr>node_key = key, node_next = replicate n None\<rparr>)\<rparr>) \<and> p \<noteq> 0 \<and> p \<notin> dom (sl_heap sl) \<and>
            sl_memory (sl\<lparr>sl_arena := a, sl_heap := (sl_heap sl)(p \<mapsto>
            \<lparr>node_key = key, node_next = replicate n None\<rparr>)\<rparr>)) \<or>
         (m = None \<and> NewNode m key n sl = Inl Bad_alloc)"
proof -
  let ?size = "sl_node_size sl + 8 * (of_nat n - 1)"
  obtain R where R: "arena_reach (sl_arena sl) R" "\<forall>p \<in> dom (sl_heap sl). unat p \<in> fst ` set R"
    and size: "0 < unat (sl_node_size sl)" "unat (sl_node_size sl) + 128 < 2 ^ 64"
    using mem by (auto simp: sl_memory_def)
  have "unat (of_nat n - 1 :: u64) = n - 1"
    using n by (simp add: unat_sub_if' unat_of_nat take_bit_nat_eq_self)
  then have "unat (8 * (of_nat n - 1) :: u64) = 8 * (n - 1)"
    using n by (subst unat_word_ariths) simp
  then have u: "unat ?size = unat (sl_node_size sl) + 8 * (n - 1)"
    using n size by (subst unat_word_ariths) simp
  then have us: "0 < unat ?size" "unat ?size + 7 < 2 ^ 64" using size n by simp_all
  from AllocateAligned_steps [OF arena_reach_inv [OF R(1)] us fresh] show ?thesis
  proof
    assume "\<exists>p a'. AllocateAligned m ?size (sl_arena sl) = Inr (p, a') \<and> p AND 7 = 0 \<and>
      arena_inv a' ((unat p, unat ?size) # R)"
    then obtain p a where p: "AllocateAligned m ?size (sl_arena sl) = Inr (p, a)"
      "arena_inv a ((unat p, unat ?size) # R)" by blast
    have reach: "arena_reach a ((unat p, unat ?size) # R)"
      by (rule arena_aligned [OF R(1) fresh us p(1)])
    have "p \<noteq> 0" using p(2) by (fastforce simp: arena_inv_def within_def)
    moreover have "p \<notin> dom (sl_heap sl)"
    proof
      assume "p \<in> dom (sl_heap sl)"
      then obtain r where r: "r \<in> set R" "unat p = fst r" using R(2) by fastforce
      then have "apart (unat p, unat ?size) r" "0 < snd r" using p(2) by (auto simp: arena_inv_def)
      then show False using us(1) r(2) by (auto simp: apart_def)
    qed
    moreover have "sl_memory (sl\<lparr>sl_arena := a, sl_heap := (sl_heap sl)(p \<mapsto> x)\<rparr>)" for x
      using mem reach R(2) by (force simp: sl_memory_def)
    moreover have "NewNode m key n sl = Inr (p, sl\<lparr>sl_arena := a, sl_heap := (sl_heap sl)(p \<mapsto>
        \<lparr>node_key = key, node_next = replicate n None\<rparr>)\<rparr>)"
      unfolding NewNode_def p(1) by (simp add: AtomicPointer_uninit_def)
    ultimately show ?thesis by blast
  next
    assume none: "m = None \<and> AllocateAligned m ?size (sl_arena sl) = Inl Bad_alloc"
    then have "NewNode m key n sl = Inl Bad_alloc" unfolding NewNode_def by auto
    then show ?thesis using none by blast
  qed
qed

subsection \<open>Linking\<close>

text \<open>
  The state between two turns of the linking loop: \<open>x\<close> holds \<open>k\<close>, is on the levels below
  \<open>i\<close> and is not on the others; \<open>B l\<close> and \<open>A l\<close> are the nodes of level \<open>l\<close> before and after it.
\<close>

definition linked :: "u64 \<Rightarrow> (nat \<Rightarrow> u64 list) \<Rightarrow> (nat \<Rightarrow> u64 list) \<Rightarrow> nat \<Rightarrow> nat \<Rightarrow> u64 list" where
  "linked x B A i l = (if l < i then B l @ x # A l else B l @ A l)"

definition sl_linking ::
    "'k SkipList \<Rightarrow> nat \<Rightarrow> 'k \<Rightarrow> u64 \<Rightarrow> (nat \<Rightarrow> u64 list) \<Rightarrow> (nat \<Rightarrow> u64 list) \<Rightarrow> nat \<Rightarrow> bool" where
  "sl_linking sl mh k x B A i \<longleftrightarrow>
     sl_shape sl mh (linked x B A i) \<and> i \<le> nat insert_height \<and> nat insert_height \<le> mh \<and>
     x \<noteq> 0 \<and> x \<noteq> sl_head sl \<and> key_of sl x = k \<and> (\<forall>l < nat insert_height. has_slot sl x l) \<and>
     (\<forall>l. x \<notin> set (B l) \<and> x \<notin> set (A l)) \<and>
     (\<forall>l. \<forall>p \<in> set (B l). sl_compare sl (key_of sl p) k < 0) \<and>
     (\<forall>l. \<forall>p \<in> set (A l). sl_compare sl k (key_of sl p) < 0)"

lemma insert_height_nat [simp]: "nat insert_height = 5" "insert_height = 5"
  by (simp_all add: insert_height_def)

lemma sl_linking_link:
  assumes "sl_linking sl mh k x B A i" and "i < 5"
  shows "node_link sl (last (sl_head sl # B i)) i = Some (hd (A i @ [0]))"
proof -
  have "chain sl i (sl_head sl) (linked x B A i i)"
    using assms unfolding sl_linking_def sl_shape_def kMaxHeight_def by auto
  then show ?thesis by (auto simp: linked_def chain_append simp del: last.simps dest: chain_next)
qed

lemma Insert_store_x_linking:
  assumes lk: "sl_linking sl mh k x B A i" and i: "i < 5"
    and prev: "prev_node prev (int i) = Inr (last (sl_head sl # B i))"
  defines "sl1 \<equiv> set_link x i (hd (A i @ [0])) sl"
  shows "Insert_store_x x prev (int i) sl = Inr sl1" and "sl_linking sl1 mh k x B A i"
    and "node_link sl1 x i = Some (hd (A i @ [0]))"
proof -
  have slot: "has_slot sl x i" using lk i by (simp add: sl_linking_def)
  then show "Insert_store_x x prev (int i) sl = Inr sl1"
    using prev NoBarrier_Next_eq [OF sl_linking_link [OF lk i]] SetNext_eq(2) [OF slot]
    by (simp add: Insert_store_x_def sl1_def)
  have "sl_shape sl1 mh (linked x B A i)"
    unfolding sl1_def using lk slot
    by (intro sl_shape_store_off) (simp_all add: sl_linking_def linked_def)
  then show "sl_linking sl1 mh k x B A i"
    using lk slot by (simp add: sl_linking_def sl1_def)
  show "node_link sl1 x i = Some (hd (A i @ [0]))"
    by (simp add: sl1_def node_link_set_link slot)
qed

lemma chain_insert:
  assumes c: "chain sl l h (B @ A)" and x: "node_link sl x l = Some (hd (A @ [0]))" "x \<noteq> 0"
    and d: "distinct (h # B @ A)" "x \<notin> set (h # B @ A)"
  shows "chain (set_link (last (h # B)) l x sl) l h (B @ x # A)"
proof -
  let ?p = "last (h # B)" and ?sl = "set_link (last (h # B)) l x sl"
  have seg: "segment sl l h B" and after: "chain sl l ?p A" using c by (simp_all add: chain_append)
  have p: "?p \<in> set (h # B)" by (rule last_in_set) simp
  have slot: "has_slot sl ?p l" by (rule node_link_has_slot [OF chain_next [OF after]])
  have "?p \<notin> set (butlast (h # B))"
    using d(1) by (metis append_butlast_last_id distinct.simps(2) distinct_append list.distinct(1)
        not_distinct_conv_prefix append_Cons)
  then have "segment ?sl l h B = segment sl l h B"
    by (intro segment_cong) (use node_link_set_link [OF slot] in fastforce)
  moreover have "chain ?sl l x A"
  proof -
    have xa: "chain sl l x A" using x(1) after by (cases A) (auto simp: chain_def)
    have "?p \<notin> set (x # A)" using d p by auto
    then have "chain ?sl l x A = chain sl l x A"
      by (intro chain_cong) (use node_link_set_link [OF slot] in fastforce)
    then show ?thesis using xa by simp
  qed
  moreover have "node_link ?sl ?p l = Some x" by (simp add: node_link_set_link [OF slot] del: last.simps)
  ultimately show ?thesis using seg x(2) by (auto simp only: chain_append chain_Cons)
qed

context key_order
begin

lemma sorted_keys_distinct:
  assumes "sorted_wrt (\<lambda>p q. cmp (key_of sl p) (key_of sl q) < 0) ps"
  shows "distinct ps"
  using assms by (induction ps) (auto dest: bspec)

lemma sl_shape_distinct:
  assumes shape: "sl_shape sl mh lev" and cmp: "sl_compare sl = cmp"
  shows "distinct (sl_head sl # lev l)"
proof -
  have "sl_head sl \<notin> set (lev l)"
    using shape sl_shape_subset [OF shape, of 0 l] by (auto simp: sl_shape_def)
  then show ?thesis using sl_shape_sorted [OF shape, of l] sorted_keys_distinct by (auto simp: cmp)
qed

text \<open>The store that publishes the node on a level.\<close>

lemma Insert_store_prev_linking:
  assumes lk: "sl_linking sl mh k x B A i" and cmp: "sl_compare sl = cmp" and i: "i < 5"
    and prev: "prev_node prev (int i) = Inr (last (sl_head sl # B i))"
    and x: "node_link sl x i = Some (hd (A i @ [0]))"
  defines "sl1 \<equiv> set_link (last (sl_head sl # B i)) i x sl"
  shows "Insert_store_prev x prev (int i) sl = Inr sl1" and "sl_linking sl1 mh k x B A (Suc i)"
proof -
  let ?p = "last (sl_head sl # B i)"
  have slot: "has_slot sl ?p i" by (rule node_link_has_slot [OF sl_linking_link [OF lk i]])
  then show "Insert_store_prev x prev (int i) sl = Inr sl1"
    using prev by (simp add: Insert_store_prev_def SetNext_eq(1) sl1_def del: last.simps)
  have shape: "sl_shape sl mh (linked x B A i)" and xk: "key_of sl x = k" "x \<noteq> 0" "x \<noteq> sl_head sl"
    and xn: "\<forall>l. x \<notin> set (B l) \<and> x \<notin> set (A l)" and mh: "5 \<le> mh"
    and Bk: "\<forall>l. \<forall>p \<in> set (B l). cmp (key_of sl p) k < 0"
    and Ak: "\<forall>l. \<forall>p \<in> set (A l). cmp k (key_of sl p) < 0"
    using lk by (auto simp: sl_linking_def cmp)
  have at_i: "linked x B A i i = B i @ A i" and i12: "i < kMaxHeight"
    using i by (simp_all add: linked_def kMaxHeight_def)
  have other: "linked x B A (Suc i) l = linked x B A i l" if "l \<noteq> i" for l
    using that by (auto simp: linked_def)
  have at: "linked x B A (Suc i) i = B i @ x # A i" by (simp add: linked_def)
  have "chain sl1 l (sl_head sl) (linked x B A (Suc i) l)" if l: "l < kMaxHeight" for l
  proof (cases "l = i")
    case True
    have "chain sl i (sl_head sl) (B i @ A i)" using shape i12 at_i by (auto simp: sl_shape_def)
    moreover have "distinct (sl_head sl # B i @ A i)"
      using sl_shape_distinct [OF shape cmp, of i] at_i by simp
    ultimately show ?thesis
      using chain_insert [of sl i "sl_head sl" "B i" "A i" x] x xk xn True at by (auto simp: sl1_def)
  next
    case False
    have "chain sl1 l (sl_head sl) (linked x B A i l) = chain sl l (sl_head sl) (linked x B A i l)"
      by (rule chain_cong) (use False node_link_set_link [OF slot] in \<open>auto simp: sl1_def\<close>)
    then show ?thesis using shape l other [OF False] by (simp add: sl_shape_def)
  qed
  moreover have "sorted_wrt (\<lambda>p q. cmp (key_of sl1 p) (key_of sl1 q) < 0) (linked x B A (Suc i) l)" for l
  proof (cases "l = i")
    case True
    have "sorted_wrt (\<lambda>p q. cmp (key_of sl p) (key_of sl q) < 0) (B i @ A i)"
      using sl_shape_sorted [OF shape, of i] by (simp add: cmp at_i)
    then show ?thesis
      using True Bk Ak xk by (auto simp: at sorted_wrt_append sl1_def)
  next
    case False
    then show ?thesis using sl_shape_sorted [OF shape, of l] by (simp add: other cmp sl1_def)
  qed
  moreover have "set (linked x B A (Suc i) (Suc l)) \<subseteq> set (linked x B A (Suc i) l)" for l
    using sl_shape_below [OF shape, of _ l] by (fastforce simp: linked_def split: if_splits)
  moreover have "sl_head sl \<notin> set (linked x B A (Suc i) 0)"
    using sl_shape_distinct [OF shape cmp, of 0] xk by (auto simp: linked_def split: if_splits)
  moreover have "linked x B A (Suc i) l = []" if "mh \<le> l" for l
    using shape other [of l] that mh i by (auto simp: sl_shape_def)
  ultimately have "sl_shape sl1 mh (linked x B A (Suc i))"
    using shape by (simp add: sl_shape_def sl1_def cmp)
  then show "sl_linking sl1 mh k x B A (Suc i)"
    using lk i slot by (simp add: sl_linking_def sl1_def del: last.simps)
qed

end

text \<open>The part of a list that linking leaves alone.\<close>

definition same_nodes :: "'k SkipList \<Rightarrow> 'k SkipList \<Rightarrow> bool" where
  "same_nodes sl sl' \<longleftrightarrow>
     sl_compare sl' = sl_compare sl \<and> sl_head sl' = sl_head sl \<and> sl_arena sl' = sl_arena sl \<and>
     sl_node_size sl' = sl_node_size sl \<and> dom (sl_heap sl') = dom (sl_heap sl) \<and>
     key_of sl' = key_of sl"

lemma same_nodes_set_link: "has_slot sl p l \<Longrightarrow> same_nodes sl (set_link p l v sl)"
  by (auto simp: same_nodes_def dom_set_link)

lemma same_nodes_trans: "same_nodes a b \<Longrightarrow> same_nodes b c \<Longrightarrow> same_nodes a c"
  by (simp add: same_nodes_def)

lemma same_nodes_memory: "same_nodes a b \<Longrightarrow> sl_memory a \<Longrightarrow> sl_memory b"
  by (simp add: same_nodes_def sl_memory_def)

lemma same_nodes_refl: "same_nodes a a"
  by (simp add: same_nodes_def)

context key_order
begin

lemma Insert_link_linking:
  assumes prev: "\<And>i. i < 5 \<Longrightarrow> prev_node prev (int i) = Inr (last (h # B i))"
  shows "\<lbrakk>sl_linking sl mh k x B A i; sl_compare sl = cmp; sl_head sl = h; i \<le> 5\<rbrakk> \<Longrightarrow>
    \<exists>sl'. Insert_link x prev (map int [i..<5]) sl = Inr sl' \<and> sl_linking sl' mh k x B A 5 \<and> same_nodes sl sl'"
proof (induction "5 - i" arbitrary: i sl)
  case 0
  then show ?case by (auto simp: same_nodes_refl)
next
  case (Suc n)
  then have i: "i < 5" by simp
  have p: "prev_node prev (int i) = Inr (last (sl_head sl # B i))"
    using prev [OF i] Suc.prems(3) by simp
  note X = Insert_store_x_linking [OF Suc.prems(1) i p]
  define sl1 where "sl1 = set_link x i (hd (A i @ [0])) sl"
  note X = X [folded sl1_def]
  have c1: "sl_compare sl1 = cmp" "sl_head sl1 = h" using Suc.prems by (simp_all add: sl1_def)
  have p1: "prev_node prev (int i) = Inr (last (sl_head sl1 # B i))" using prev [OF i] c1 by simp
  define sl2 where "sl2 = set_link (last (sl_head sl1 # B i)) i x sl1"
  note P = Insert_store_prev_linking [OF X(2) c1(1) i p1 X(3), folded sl2_def]
  have "has_slot sl x i" using Suc.prems(1) i by (simp add: sl_linking_def)
  then have s1: "same_nodes sl sl1" unfolding sl1_def by (rule same_nodes_set_link)
  have "has_slot sl1 (last (sl_head sl1 # B i)) i"
    by (rule node_link_has_slot [OF sl_linking_link [OF X(2) i]])
  then have s2: "same_nodes sl1 sl2" unfolding sl2_def by (rule same_nodes_set_link)
  have c2: "sl_compare sl2 = cmp" "sl_head sl2 = h" using c1 by (simp_all add: sl2_def)
  have n: "n = 5 - Suc i" using Suc.hyps(2) by simp
  obtain sl' where "Insert_link x prev (map int [Suc i..<5]) sl2 = Inr sl'"
    "sl_linking sl' mh k x B A 5" "same_nodes sl2 sl'"
    using Suc.hyps(1) [OF n P(2) c2] i by auto
  then show ?case
    using i X(1) P(1) s1 s2 by (auto simp: upt_conv_Cons intro: same_nodes_trans)
qed

text \<open>A key's place in a sorted list of nodes, when nothing there equals it.\<close>

lemma level_after_greater:
  assumes sorted: "sorted_wrt (\<lambda>p q. cmp (key_of sl p) (key_of sl q) < 0) ps"
    and cmp: "sl_compare sl = cmp" and none: "\<forall>p \<in> set ps. cmp (key_of sl p) k \<noteq> 0"
  shows "\<forall>p \<in> set (level_after sl k ps). cmp k (key_of sl p) < 0"
  using sorted none
proof (induction ps)
  case (Cons p ps)
  have tail: "\<forall>q \<in> set ps. cmp (key_of sl p) (key_of sl q) < 0" using Cons.prems(1) by simp
  show ?case
  proof (cases "cmp (key_of sl p) k < 0")
    case False
    then have "cmp k (key_of sl p) < 0"
      using Cons.prems(2) cmp_less_swap [of k "key_of sl p"] by force
    then show ?thesis using tail False by (auto simp: level_after_def cmp intro: cmp_less_trans)
  qed (use Cons in \<open>simp add: level_after_def cmp\<close>)
qed (simp add: level_after_def)

lemma found_equal_iff:
  assumes sorted: "sorted_wrt (\<lambda>p q. cmp (key_of sl p) (key_of sl q) < 0) ps"
    and cmp: "sl_compare sl = cmp"
  shows "(\<exists>p \<in> set ps. cmp (key_of sl p) k = 0) \<longleftrightarrow>
    (level_after sl k ps \<noteq> [] \<and> cmp (key_of sl (hd (level_after sl k ps))) k = 0)"
  using sorted
proof (induction ps)
  case (Cons p ps)
  have tail: "\<forall>q \<in> set ps. cmp (key_of sl p) (key_of sl q) < 0" using Cons.prems(1) by simp
  have "cmp (key_of sl q) k \<noteq> 0" if "0 < cmp (key_of sl p) k" "q \<in> set ps" for q
    using that tail cmp_less_trans [of k "key_of sl p" "key_of sl q"] cmp_less_swap
    by (metis cmp_eq_swap less_irrefl)
  then show ?case
    using Cons tail
    by (cases "cmp (key_of sl p) k" "0 :: int" rule: linorder_cases) (auto simp: level_after_def cmp)
qed (simp add: level_after_def)

lemma found_node:
  assumes shape: "sl_shape sl mh lev" and cmp: "sl_compare sl = cmp"
  shows "hd (level_after sl k (lev 0) @ [0]) = 0 \<longleftrightarrow> level_after sl k (lev 0) = []"
    and "level_after sl k (lev 0) \<noteq> [] \<Longrightarrow>
      deref sl (hd (level_after sl k (lev 0) @ [0])) =
        Inr (the (sl_heap sl (hd (level_after sl k (lev 0)))))"
proof -
  have slot: "has_slot sl (hd (level_after sl k (lev 0))) 0" if "level_after sl k (lev 0) \<noteq> []"
  proof -
    have "hd (level_after sl k (lev 0)) \<in> set (lev 0)"
      using that level_split [of sl k "lev 0"] by (metis Un_iff hd_in_set set_append)
    then show ?thesis using sl_shape_slot [OF shape, of 0] by (simp add: kMaxHeight_def)
  qed
  show "hd (level_after sl k (lev 0) @ [0]) = 0 \<longleftrightarrow> level_after sl k (lev 0) = []"
    using slot by (cases "level_after sl k (lev 0)") (auto simp: has_slot_def)
  show "deref sl (hd (level_after sl k (lev 0) @ [0])) =
      Inr (the (sl_heap sl (hd (level_after sl k (lev 0)))))" if "level_after sl k (lev 0) \<noteq> []"
    using slot that by (auto simp: has_slot_def deref_def split: option.splits)
qed

lemma Contains_shape:
  assumes shape: "sl_shape sl mh lev" and cmp: "sl_compare sl = cmp"
  shows "Contains sl k = Some (Inr (\<exists>p \<in> set (lev 0). cmp k (key_of sl p) = 0))"
  using found_equal_iff [OF sl_shape_sorted [OF shape, of 0, unfolded cmp] cmp, of k]
    found_node [OF shape cmp, of k] cmp_eq_swap
  by (cases "level_after sl k (lev 0)")
    (auto simp: Contains_def FindGreaterOrEqual_shape [OF shape cmp] Contains_result_def Equal_def cmp
      key_of_def)

lemma Insert_search_shape:
  assumes shape: "sl_shape sl mh lev" and cmp: "sl_compare sl = cmp"
  shows "Insert_search k sl = Some
    (if \<exists>p \<in> set (lev 0). cmp (key_of sl p) k = 0 then Inl Assertion_failed
     else Inr (prevs_below sl k lev mh (replicate kMaxHeight None)))"
  using found_equal_iff [OF sl_shape_sorted [OF shape, of 0, unfolded cmp] cmp, of k]
    found_node [OF shape cmp, of k]
  by (cases "level_after sl k (lev 0)")
    (auto simp: Insert_search_def FindGreaterOrEqual_shape [OF shape cmp] Equal_def cmp key_of_def)

end

declare fill_prev.simps [simp del]

lemma fill_prev_eq:
  "n \<le> length ps \<Longrightarrow> fill_prev head (int i) (int n) ps =
     Inr (map (\<lambda>j. if i \<le> j \<and> j < n then Some head else ps ! j) [0..<length ps])"
proof (induction "n - i" arbitrary: i ps)
  case 0
  then show ?case
    by (subst fill_prev.simps) (auto intro!: nth_equalityI)
next
  case (Suc d)
  then have i: "i < n" by simp
  have "fill_prev head (int (Suc i)) (int n) (ps[i := Some head]) =
      Inr (map (\<lambda>j. if Suc i \<le> j \<and> j < n then Some head else ps[i := Some head] ! j) [0..<length ps])"
    using Suc.hyps(1) [of "Suc i" "ps[i := Some head]"] Suc.hyps(2) Suc.prems by simp
  also have "map (\<lambda>j. if Suc i \<le> j \<and> j < n then Some head else ps[i := Some head] ! j) [0..<length ps]
      = map (\<lambda>j. if i \<le> j \<and> j < n then Some head else ps ! j) [0..<length ps]"
    using i by (auto simp: nth_list_update)
  finally show ?case
    using i Suc.prems by (subst fill_prev.simps) (simp add: slot_set_def add.commute)
qed

lemma Insert_raise_shape:
  assumes shape: "sl_shape sl mh lev"
  defines "mh' \<equiv> max mh 5"
  shows "\<exists>sl'. Insert_raise insert_height (prevs_below sl k lev mh (replicate kMaxHeight None)) sl =
      Inr (prevs_below sl k lev mh' (replicate kMaxHeight None), sl') \<and> sl_shape sl' mh' lev \<and>
      same_nodes sl sl' \<and> (sl_memory sl \<longrightarrow> sl_memory sl')"
proof (cases "5 > mh")
  case True
  have empty: "lev l = []" if "mh \<le> l" for l using shape that by (simp add: sl_shape_def)
  let ?ps = "replicate kMaxHeight None"
  have "fill_prev (sl_head sl) (int mh) (int 5) (prevs_below sl k lev mh ?ps) =
      Inr (prevs_below sl k lev 5 ?ps)"
    using True empty
    by (subst fill_prev_eq)
      (auto simp: kMaxHeight_def prevs_below_nth level_before_def intro!: nth_equalityI)
  moreover have "sl_shape (sl\<lparr>sl_max_height := Some 5\<rparr>) 5 lev"
    by (rule sl_shape_transfer [OF shape])
      (use True in \<open>auto simp: node_link_def key_of_def kMaxHeight_def\<close>)
  ultimately show ?thesis
    using True
    by (auto simp: Insert_raise_def GetMaxHeight_shape [OF shape] mh'_def Release_Store_def
        same_nodes_def sl_memory_def key_of_def fun_eq_iff max_def)
next
  case False
  then show ?thesis
    using shape by (auto simp: Insert_raise_def GetMaxHeight_shape [OF shape] mh'_def max_def same_nodes_refl)
qed

lemma sl_shape_dom:
  assumes shape: "sl_shape sl mh lev" and "p \<in> set (sl_head sl # lev l)"
  shows "p \<in> dom (sl_heap sl)"
proof -
  have "p \<in> set (sl_head sl # lev 0)"
    using assms(2) sl_shape_subset [OF shape, of 0 l] by auto
  then have "has_slot sl p 0" by (intro sl_shape_slot [OF shape]) (simp_all add: kMaxHeight_def)
  then show ?thesis by (auto simp: has_slot_def split: option.splits)
qed

lemma prev_node_prevs_below:
  "\<lbrakk>i < 5; 5 \<le> n\<rbrakk> \<Longrightarrow>
     prev_node (prevs_below sl k lev n (replicate kMaxHeight None)) (int i) =
       Inr (last (sl_head sl # level_before sl k (lev i)))"
  by (simp add: prev_node_def slot_get_def prevs_below_nth kMaxHeight_def)

context key_order
begin

text \<open>The state in which linking starts: the node exists and is on no level.\<close>

lemma linking_start:
  assumes shape: "sl_shape sl mh lev" and cmp: "sl_compare sl = cmp" and mh: "5 \<le> mh"
    and none: "\<forall>p \<in> set (lev 0). cmp (key_of sl p) k \<noteq> 0"
    and x: "x \<noteq> 0" "x \<notin> dom (sl_heap sl)"
    and sl': "sl' = sl\<lparr>sl_arena := a, sl_heap := (sl_heap sl)(x \<mapsto> \<lparr>node_key = k, node_next = replicate 5 None\<rparr>)\<rparr>"
  shows "sl_linking sl' mh k x (\<lambda>l. level_before sl k (lev l)) (\<lambda>l. level_after sl k (lev l)) 0"
proof -
  have linked_start: "linked x (\<lambda>l. level_before sl k (lev l)) (\<lambda>l. level_after sl k (lev l)) 0 = lev"
    by (rule ext) (simp add: linked_def level_split)
  have key_x: "key_of sl' x = k" by (simp add: key_of_def sl')
  have key: "key_of sl' p = key_of sl p" if "p \<in> dom (sl_heap sl)" for p
    using that x by (auto simp: key_of_def sl')
  have mem: "p \<in> set (lev l)" if "p \<in> set (level_before sl k (lev l)) \<union> set (level_after sl k (lev l))" for p l
    using that level_split [of sl k "lev l"] by (metis set_append)
  then have dom: "p \<in> dom (sl_heap sl)"
    if "p \<in> set (level_before sl k (lev l)) \<union> set (level_after sl k (lev l))" for p l
    using that sl_shape_dom [OF shape, of p l] by auto
  have greater: "\<forall>p \<in> set (level_after sl k (lev l)). cmp k (key_of sl p) < 0" for l
  proof (rule level_after_greater [OF _ cmp])
    show "sorted_wrt (\<lambda>p q. cmp (key_of sl p) (key_of sl q) < 0) (lev l)"
      using sl_shape_sorted [OF shape] by (simp add: cmp)
    show "\<forall>p \<in> set (lev l). cmp (key_of sl p) k \<noteq> 0"
      using none sl_shape_subset [OF shape, of 0 l] by auto
  qed
  have "sl_shape sl' mh (linked x (\<lambda>l. level_before sl k (lev l)) (\<lambda>l. level_after sl k (lev l)) 0)"
    unfolding linked_start using shape x(2) sl' by (rule sl_shape_new_node)
  moreover have "x \<noteq> sl_head sl" using sl_shape_dom [OF shape, of "sl_head sl" 0] x(2) by auto
  moreover have "has_slot sl' x l" if "l < 5" for l using that x by (simp add: has_slot_def sl')
  moreover have "cmp (key_of sl' p) k < 0" if "p \<in> set (level_before sl k (lev l))" for p l
    using level_before_less [OF that] key dom [of p l] that by (simp add: cmp)
  moreover have "cmp k (key_of sl' p) < 0" if "p \<in> set (level_after sl k (lev l))" for p l
    using greater key dom [of p l] that by simp
  moreover have "sl_compare sl' = cmp" "sl_head sl' = sl_head sl" by (simp_all add: sl' cmp)
  moreover have "x \<notin> set (level_before sl k (lev l))" "x \<notin> set (level_after sl k (lev l))" for l
    using dom [of x l] x(2) by blast+
  ultimately show ?thesis
    using mh x(1) key_x unfolding sl_linking_def by auto
qed

lemma Insert_shape:
  assumes shape: "sl_shape sl mh lev" and cmp: "sl_compare sl = cmp" and mem: "sl_memory sl"
    and none: "\<forall>p \<in> set (lev 0). cmp (key_of sl p) k \<noteq> 0"
    and fresh: "fresh_block (sl_arena sl) m (block_request (sl_node_size sl + 32))"
  shows "(m = None \<and> Insert m k sl = Some (Inl Bad_alloc)) \<or>
    (\<exists>sl' mh' lev'. Insert m k sl = Some (Inr sl') \<and> sl_shape sl' mh' lev' \<and> sl_memory sl' \<and>
       sl_compare sl' = cmp \<and> sl_node_size sl' = sl_node_size sl \<and>
       map (key_of sl') (lev' 0) =
         map (key_of sl) (level_before sl k (lev 0)) @ k # map (key_of sl) (level_after sl k (lev 0)))"
proof -
  let ?B = "\<lambda>l. level_before sl k (lev l)" and ?A = "\<lambda>l. level_after sl k (lev l)"
  let ?none = "replicate kMaxHeight None :: prevs"
  define prev where "prev = prevs_below sl k lev (max mh 5) ?none"
  have search: "Insert_search k sl = Some (Inr (prevs_below sl k lev mh ?none))"
    using Insert_search_shape [OF shape cmp] none by auto
  obtain sl1 where raise: "Insert_raise insert_height (prevs_below sl k lev mh ?none) sl = Inr (prev, sl1)"
    and shape1: "sl_shape sl1 (max mh 5) lev" and same1: "same_nodes sl sl1" and mem1: "sl_memory sl1"
    using Insert_raise_shape [OF shape, of k] mem by (auto simp: prev_def)
  have cmp1: "sl_compare sl1 = cmp" and key1: "key_of sl1 = key_of sl" and head1: "sl_head sl1 = sl_head sl"
    and dom1: "dom (sl_heap sl1) = dom (sl_heap sl)"
    using same1 cmp by (auto simp: same_nodes_def)
  have BA1: "level_before sl1 k = level_before sl k" "level_after sl1 k = level_after sl k"
    by (simp_all add: level_before_def level_after_def key1 cmp1 cmp fun_eq_iff)
  have five: "5 \<le> (12 :: nat)" "1 \<le> (5 :: nat)" by simp_all
  have "fresh_block (sl_arena sl1) m (block_request (sl_node_size sl1 + 8 * (of_nat 5 - 1)))"
    using fresh same1 by (simp add: same_nodes_def)
  from sl_memory_new_node [OF mem1 five this, of k] show ?thesis
  proof (elim disjE exE conjE)
    assume "m = None" "NewNode m k 5 sl1 = Inl Bad_alloc"
    then show ?thesis by (simp add: Insert_def search raise [simplified])
  next
    fix x a
    let ?sl2 = "sl1\<lparr>sl_arena := a, sl_heap := (sl_heap sl1)(x \<mapsto> \<lparr>node_key = k, node_next = replicate 5 None\<rparr>)\<rparr>"
    assume new: "NewNode m k 5 sl1 = Inr (x, ?sl2)" and x: "x \<noteq> 0" "x \<notin> dom (sl_heap sl1)"
      and mem2: "sl_memory ?sl2"
    have lk: "sl_linking ?sl2 (max mh 5) k x ?B ?A 0"
      using linking_start [OF shape1 cmp1 _ _ x refl, of k] none by (simp add: key1 BA1)
    have prev: "prev_node prev (int i) = Inr (last (sl_head sl # ?B i))" if "i < 5" for i
      unfolding prev_def using that by (rule prev_node_prevs_below) simp
    have head2: "sl_compare ?sl2 = cmp" "sl_head ?sl2 = sl_head sl" by (simp_all add: cmp1 head1)
    obtain sl' where link: "Insert_link x prev (map int [0..<5]) ?sl2 = Inr sl'"
      and lk': "sl_linking sl' (max mh 5) k x ?B ?A 5" and same': "same_nodes ?sl2 sl'"
      using Insert_link_linking [OF prev lk head2] by auto
    have upto: "[0..4] = map int [0..<5]" by (simp add: upto_rec1 upt_rec)
    have "Insert m k sl = Some (Inr sl')"
      using link by (simp add: Insert_def search raise [simplified] new upto)
    moreover have "map (key_of sl') (linked x ?B ?A 5 0) =
        map (key_of sl) (?B 0) @ k # map (key_of sl) (?A 0)"
    proof -
      have "key_of sl' p = key_of sl p" if "p \<in> set (lev 0)" for p
      proof -
        have "p \<noteq> x" using sl_shape_dom [OF shape, of p 0] that x(2) dom1 by auto
        then have "key_of ?sl2 p = key_of sl1 p" by (simp add: key_of_def)
        then show ?thesis using same' key1 by (simp add: same_nodes_def)
      qed
      then have "key_of sl' p = key_of sl p" if "p \<in> set (?B 0) \<union> set (?A 0)" for p
        using that level_split [of sl k "lev 0"] by (metis set_append)
      then show ?thesis using lk' by (simp add: linked_def sl_linking_def)
    qed
    moreover have "sl_compare sl' = cmp" "sl_node_size sl' = sl_node_size sl"
      using same' same1 cmp1 by (simp_all add: same_nodes_def)
    ultimately show ?thesis
      using lk' same_nodes_memory [OF same' mem2] unfolding sl_linking_def by blast
  qed
qed

end

subsection \<open>Construction\<close>

lemma clear_head_eq:
  "\<lbrakk>\<forall>l < 12. has_slot sl (sl_head sl) l; i \<le> 12\<rbrakk> \<Longrightarrow>
     \<exists>sl'. clear_head (map int [i..<12]) sl = Inr sl' \<and> same_nodes sl sl' \<and>
       sl_max_height sl' = sl_max_height sl \<and>
       (\<forall>l < 12. node_link sl' (sl_head sl) l = (if i \<le> l then Some 0 else node_link sl (sl_head sl) l))"
proof (induction "12 - i" arbitrary: i sl)
  case 0
  then show ?case by (auto simp: same_nodes_refl)
next
  case (Suc n)
  then have i: "i < 12" and n: "n = 12 - Suc i" by simp_all
  have slot: "has_slot sl (sl_head sl) i" using Suc.prems(1) i by simp
  let ?sl1 = "set_link (sl_head sl) i 0 sl"
  obtain sl' where sl': "clear_head (map int [Suc i..<12]) ?sl1 = Inr sl'" "same_nodes ?sl1 sl'"
    "sl_max_height sl' = sl_max_height sl"
    "\<forall>l < 12. node_link sl' (sl_head sl) l = (if Suc i \<le> l then Some 0 else node_link ?sl1 (sl_head sl) l)"
    using Suc.hyps(1) [OF n, of ?sl1] Suc.prems(1) i slot by auto
  have "clear_head (map int [i..<12]) sl = Inr sl'"
    using sl'(1) i by (simp add: upt_conv_Cons SetNext_eq(1) [OF slot])
  then show ?case
    using sl' same_nodes_trans [OF same_nodes_set_link [OF slot] sl'(2)]
    by (auto simp: node_link_set_link [OF slot])
qed

lemma SkipList_new_shape:
  assumes mem: "arena_reach a R" "\<forall>p \<in> dom heap. unat p \<in> fst ` set R"
    and size: "0 < unat node_size" "unat node_size + 128 < 2 ^ 64"
    and fresh: "fresh_block a m (block_request (node_size + 88))"
  shows "(m = None \<and> SkipList_new m cmp node_size zero a heap = Inl Bad_alloc) \<or>
    (\<exists>sl. SkipList_new m cmp node_size zero a heap = Inr sl \<and> sl_shape sl 1 (\<lambda>_. []) \<and>
       sl_memory sl \<and> sl_compare sl = cmp \<and> sl_node_size sl = node_size)"
proof -
  define sl0 where "sl0 = \<lparr>sl_compare = cmp, sl_node_size = node_size, sl_arena = a, sl_head = 0,
    sl_max_height = AtomicPointer_uninit, sl_rand = Random_new 0xdeadbeef, sl_heap = heap\<rparr>"
  have mem0: "sl_memory sl0" using mem size by (auto simp: sl_memory_def sl0_def)
  have fresh0: "fresh_block (sl_arena sl0) m (block_request (sl_node_size sl0 + 8 * (of_nat 12 - 1)))"
    using fresh by (simp add: sl0_def)
  have twelve: "12 \<le> (12 :: nat)" "1 \<le> (12 :: nat)" by simp_all
  from sl_memory_new_node [OF mem0 twelve fresh0, of zero] show ?thesis
  proof (elim disjE exE conjE)
    assume "m = None" "NewNode m zero 12 sl0 = Inl Bad_alloc"
    then show ?thesis by (simp add: SkipList_new_def sl0_def [symmetric] kMaxHeight_def)
  next
    fix p a'
    let ?sl1 = "sl0\<lparr>sl_arena := a', sl_heap := (sl_heap sl0)(p \<mapsto> \<lparr>node_key = zero, node_next = replicate 12 None\<rparr>)\<rparr>"
    assume new: "NewNode m zero 12 sl0 = Inr (p, ?sl1)" and p: "p \<noteq> 0" and mem1: "sl_memory ?sl1"
    define sl2 where "sl2 = ?sl1\<lparr>sl_head := p, sl_max_height := AtomicPointer_new 1\<rparr>"
    have h2: "sl_head sl2 = p" "sl_max_height sl2 = Some 1" "sl_compare sl2 = cmp" "sl_node_size sl2 = node_size"
      by (simp_all add: sl2_def AtomicPointer_new_def sl0_def)
    have slot: "\<forall>l < 12. has_slot sl2 (sl_head sl2) l" using p by (simp add: has_slot_def sl2_def)
    have mem2: "sl_memory sl2" using mem1 by (simp add: sl_memory_def sl2_def)
    obtain sl' where sl': "clear_head (map int [0..<12]) sl2 = Inr sl'" "same_nodes sl2 sl'"
      "sl_max_height sl' = sl_max_height sl2" "\<forall>l < 12. node_link sl' (sl_head sl2) l = Some 0"
      using clear_head_eq [OF slot, of 0] by auto
    have upto: "[0..11] = map int [0..<12]" by (simp add: upto_rec1 upt_rec)
    have "SkipList_new m cmp node_size zero a heap = Inr sl'"
      using sl'(1) unfolding SkipList_new_def sl0_def [symmetric] kMaxHeight_def new
      by (simp add: sl2_def upto)
    moreover have "sl_shape sl' 1 (\<lambda>_. [])"
      using sl' h2 by (auto simp: sl_shape_def same_nodes_def chain_def kMaxHeight_def)
    ultimately show ?thesis
      using same_nodes_memory [OF sl'(2) mem2] sl'(2) h2 by (auto simp: same_nodes_def)
  qed
qed

subsection \<open>Interleavings\<close>

definition writer_ok :: "'k SkipList \<Rightarrow> nat \<Rightarrow> (nat \<Rightarrow> u64 list) \<Rightarrow> 'k writer \<Rightarrow> bool" where
  "writer_ok sl mh lev w =
     (case w of
        Idle \<Rightarrow> True
      | Raise k prev \<Rightarrow>
          (\<forall>p \<in> set (lev 0). sl_compare sl (key_of sl p) k \<noteq> 0) \<and>
          prev = prevs_below sl k lev mh (replicate kMaxHeight None)
      | Alloc k prev \<Rightarrow>
          (\<forall>p \<in> set (lev 0). sl_compare sl (key_of sl p) k \<noteq> 0) \<and> 5 \<le> mh \<and>
          prev = prevs_below sl k lev mh (replicate kMaxHeight None)
      | Store_x x prev i \<Rightarrow>
          (\<exists>k B A j. i = int j \<and> j < 5 \<and> lev = linked x B A j \<and> sl_linking sl mh k x B A j \<and>
             (\<forall>l < 5. prev_node prev (int l) = Inr (last (sl_head sl # B l))))
      | Store_prev x prev i \<Rightarrow>
          (\<exists>k B A j. i = int j \<and> j < 5 \<and> lev = linked x B A j \<and> sl_linking sl mh k x B A j \<and>
             node_link sl x j = Some (hd (A j @ [0])) \<and>
             (\<forall>l < 5. prev_node prev (int l) = Inr (last (sl_head sl # B l)))))"

definition reader_ok :: "'k SkipList \<Rightarrow> nat \<Rightarrow> (nat \<Rightarrow> u64 list) \<Rightarrow> 'k reader \<Rightarrow> bool" where
  "reader_ok sl mh lev r =
     (case r of
        Searching k x level \<Rightarrow>
          0 \<le> level \<and> level < int mh \<and>
          (x = sl_head sl \<or> x \<in> set (lev (nat level)) \<and> sl_compare sl (key_of sl x) k < 0)
      | _ \<Rightarrow> True)"

definition sl_ok :: "'k SkipList \<Rightarrow> nat \<Rightarrow> (nat \<Rightarrow> u64 list) \<Rightarrow> bool" where
  "sl_ok sl mh lev \<longleftrightarrow> key_order (sl_compare sl) \<and> sl_memory sl \<and> sl_shape sl mh lev"

text \<open>What every step of the writer leaves to the reader.\<close>

definition sl_grows ::
    "'k SkipList \<Rightarrow> nat \<Rightarrow> (nat \<Rightarrow> u64 list) \<Rightarrow> 'k SkipList \<Rightarrow> nat \<Rightarrow> (nat \<Rightarrow> u64 list) \<Rightarrow> bool" where
  "sl_grows sl mh lev sl' mh' lev' \<longleftrightarrow>
     sl_compare sl' = sl_compare sl \<and> sl_head sl' = sl_head sl \<and> mh \<le> mh' \<and>
     (\<forall>l. set (lev l) \<subseteq> set (lev' l)) \<and> (\<forall>l. \<forall>p \<in> set (lev l). key_of sl' p = key_of sl p)"

lemma reader_ok_grows:
  "\<lbrakk>reader_ok sl mh lev r; sl_grows sl mh lev sl' mh' lev'\<rbrakk> \<Longrightarrow> reader_ok sl' mh' lev' r"
  by (cases r) (auto simp: reader_ok_def sl_grows_def)

lemma sl_grows_same_nodes:
  "\<lbrakk>same_nodes sl sl'; mh \<le> mh'; \<And>l. set (lev l) \<subseteq> set (lev' l)\<rbrakk> \<Longrightarrow> sl_grows sl mh lev sl' mh' lev'"
  by (auto simp: sl_grows_def same_nodes_def)

lemma chain_unique: "\<lbrakk>chain sl l p xs; chain sl l p ys\<rbrakk> \<Longrightarrow> xs = ys"
proof (induction xs arbitrary: p ys)
  case Nil
  then show ?case by (cases ys) (simp_all add: chain_Nil chain_Cons)
next
  case (Cons x xs)
  then show ?case by (cases ys) (auto simp add: chain_Nil chain_Cons)
qed

lemma sl_has_shape:
  assumes "sl_shape sl mh lev"
  shows "sl_has sl k \<longleftrightarrow> (\<exists>p \<in> set (lev 0). sl_compare sl k (key_of sl p) = 0)"
proof -
  have "chain sl 0 (sl_head sl) (lev 0)" using assms by (simp add: sl_shape_def kMaxHeight_def)
  then have "chain sl 0 (sl_head sl) ps \<longleftrightarrow> ps = lev 0" for ps using chain_unique by blast
  then show ?thesis by (simp add: sl_has_def list_ex_iff)
qed

lemma sl_has_grows:
  assumes "sl_shape sl mh lev" "sl_shape sl' mh' lev'" "sl_grows sl mh lev sl' mh' lev'" "sl_has sl k"
  shows "sl_has sl' k"
proof -
  obtain p where p: "p \<in> set (lev 0)" "sl_compare sl k (key_of sl p) = 0"
    using assms(1,4) by (auto simp: sl_has_shape)
  then have "p \<in> set (lev' 0)" "sl_compare sl' k (key_of sl' p) = 0"
    using assms(3) by (auto simp: sl_grows_def)
  then show ?thesis by (auto simp: sl_has_shape [OF assms(2)])
qed

lemma set_linked_mono: "set (linked x B A i l) \<subseteq> set (linked x B A (Suc i) l)"
  by (auto simp: linked_def)

context key_order
begin

lemma reader_split:
  assumes shape: "sl_shape sl mh lev" and cmp: "sl_compare sl = cmp"
    and x: "x = sl_head sl \<or> x \<in> set (lev l) \<and> cmp (key_of sl x) k < 0"
  obtains pre rest where "lev l = pre @ rest" and "last (sl_head sl # pre) = x"
    and "\<forall>p \<in> set pre. cmp (key_of sl p) k < 0"
proof (cases "x = sl_head sl")
  case True
  then show ?thesis by (intro that [of "[]"]) auto
next
  case False
  then obtain us vs where split: "lev l = us @ x # vs" using x by (meson split_list)
  have "sorted_wrt (\<lambda>p q. cmp (key_of sl p) (key_of sl q) < 0) (us @ x # vs)"
    using sl_shape_sorted [OF shape, of l] by (simp only: cmp split)
  then have "\<forall>p \<in> set us. cmp (key_of sl p) k < 0"
    using x False by (auto simp: sorted_wrt_append intro: cmp_less_trans)
  then show ?thesis using x False split by (intro that [of "us @ [x]"]) auto
qed

text \<open>A reader's turn of the search loop on a well-formed list.\<close>

lemma reader_turn:
  assumes shape: "sl_shape sl mh lev" and cmp: "sl_compare sl = cmp"
    and r: "reader_ok sl mh lev (Searching k x level)"
  shows "(\<exists>x' level'. FindGreaterOrEqual_step sl k (x, level, None) = Inr (Inl (x', level', None)) \<and>
            reader_ok sl mh lev (Searching k x' level')) \<or>
         (\<exists>n. FindGreaterOrEqual_step sl k (x, level, None) = Inr (Inr (n, None)) \<and>
            Contains_result sl k n = Inr (sl_has sl k))"
proof -
  obtain l where l: "level = int l" "l < mh" "x = sl_head sl \<or> x \<in> set (lev l) \<and> cmp (key_of sl x) k < 0"
    using r by (auto simp: reader_ok_def cmp elim!: nonneg_int_cases)
  have l12: "l < kMaxHeight" using l(2) shape by (simp add: sl_shape_def)
  obtain pre rest where split: "lev l = pre @ rest" "last (sl_head sl # pre) = x"
    "\<forall>p \<in> set pre. cmp (key_of sl p) k < 0"
    using reader_split [OF shape cmp l(3)] by blast
  note st = FindGreaterOrEqual_step_shape [OF shape l12 split(1), of None k, unfolded split(2), folded l(1)]
  consider (go) "rest \<noteq> []" "cmp (key_of sl (hd rest)) k < 0"
    | (down) "rest = [] \<or> \<not> cmp (key_of sl (hd rest)) k < 0" "l \<noteq> 0"
    | (stop) "rest = [] \<or> \<not> cmp (key_of sl (hd rest)) k < 0" "l = 0" by blast
  then show ?thesis
  proof cases
    case go
    then have "hd rest \<in> set (lev l)" using split(1) by simp
    then show ?thesis using st go l by (simp add: cmp reader_ok_def)
  next
    case down
    have "x = sl_head sl \<or> x \<in> set (lev (l - 1)) \<and> cmp (key_of sl x) k < 0"
      using l(3) sl_shape_below [OF shape, of x "l - 1"] down(2) by auto
    then show ?thesis
      using st down l by (auto simp: cmp reader_ok_def nat_diff_distrib)
  next
    case stop
    have after: "level_after sl k (lev 0) = rest"
      using level_before_eq(2) [of pre sl k rest] split stop by (simp add: cmp)
    have "FindGreaterOrEqual_step sl k (x, level, None) = Inr (Inr (hd (rest @ [0]), None))"
      using st stop by (auto simp: cmp)
    moreover have "Contains_result sl k (hd (rest @ [0])) = Inr (sl_has sl k)"
      using found_equal_iff [OF sl_shape_sorted [OF shape, of 0, unfolded cmp] cmp, of k]
        found_node [OF shape cmp, of k] cmp_eq_swap
      unfolding after sl_has_shape [OF shape]
      by (cases rest) (auto simp: Contains_result_def Equal_def cmp key_of_def)
    ultimately show ?thesis by blast
  qed
qed

end

text \<open>A step of the writer keeps the list well-formed and only makes it grow.\<close>

lemma writer_step_grows:
  assumes step: "sl_step (sl, w, r) (sl', w', r)" and ok: "sl_ok sl mh lev" "writer_ok sl mh lev w"
    and moves: "w' \<noteq> w"
  shows "\<exists>mh' lev'. sl_ok sl' mh' lev' \<and> writer_ok sl' mh' lev' w' \<and> sl_grows sl mh lev sl' mh' lev'"
proof -
  have order: "key_order (sl_compare sl)" and mem: "sl_memory sl" and shape: "sl_shape sl mh lev"
    using ok(1) by (auto simp: sl_ok_def)
  note search = key_order.Insert_search_shape [OF order shape refl]
  show ?thesis
    using step moves
  proof (cases rule: sl_step.cases)
    case (writer_search key prev)
    then have "writer_ok sl mh lev w'" using search [of key] by (auto simp: writer_ok_def split: if_splits)
    then show ?thesis using ok writer_search by (auto simp: sl_grows_def)
  next
    case (writer_raise prev prev' key)
    then have w: "\<forall>p \<in> set (lev 0). sl_compare sl (key_of sl p) key \<noteq> 0"
      "prev = prevs_below sl key lev mh (replicate kMaxHeight None)"
      using ok(2) by (auto simp: writer_ok_def)
    have r: "prev' = prevs_below sl key lev (max mh 5) (replicate kMaxHeight None)"
      "sl_shape sl' (max mh 5) lev" "same_nodes sl sl'" "sl_memory sl'"
      using Insert_raise_shape [OF shape, of key] writer_raise w(2) mem by auto
    have "prevs_below sl' key lev n ps = prevs_below sl key lev n ps" for n ps
      using r(3) by (simp add: prevs_below_def level_before_def same_nodes_def)
    then have "writer_ok sl' (max mh 5) lev w'"
      using r w writer_raise by (auto simp: writer_ok_def same_nodes_def)
    moreover have "sl_ok sl' (max mh 5) lev" using r order by (simp add: sl_ok_def same_nodes_def)
    ultimately show ?thesis using sl_grows_same_nodes [OF r(3), of mh "max mh 5" lev lev] by auto
  next
    case (writer_alloc m key x prev)
    then have w: "\<forall>p \<in> set (lev 0). sl_compare sl (key_of sl p) key \<noteq> 0" "5 \<le> mh"
      "prev = prevs_below sl key lev mh (replicate kMaxHeight None)"
      using ok(2) by (auto simp: writer_ok_def)
    have five: "5 \<le> (12 :: nat)" "1 \<le> (5 :: nat)" by simp_all
    have "fresh_block (sl_arena sl) m (block_request (sl_node_size sl + 8 * (of_nat 5 - 1)))"
      using writer_alloc by simp
    then obtain a where x: "x \<noteq> 0" "x \<notin> dom (sl_heap sl)" "sl_memory sl'"
      and sl': "sl' = sl\<lparr>sl_arena := a, sl_heap := (sl_heap sl)(x \<mapsto> \<lparr>node_key = key, node_next = replicate 5 None\<rparr>)\<rparr>"
      using sl_memory_new_node [OF mem five, of m key] writer_alloc by auto
    note lk = key_order.linking_start [OF order shape refl w(2,1) x(1,2) sl']
    have lev: "linked x (\<lambda>l. level_before sl key (lev l)) (\<lambda>l. level_after sl key (lev l)) 0 = lev"
      by (rule ext) (simp add: linked_def level_split)
    have "writer_ok sl' mh lev w'"
      unfolding writer_ok_def writer_alloc(2) writer.case
      by (rule exI [of _ key], rule exI [of _ "\<lambda>l. level_before sl key (lev l)"],
          rule exI [of _ "\<lambda>l. level_after sl key (lev l)"], rule exI [of _ 0])
        (use lk lev w prev_node_prevs_below [of _ mh sl key lev] in \<open>simp add: sl'\<close>)
    moreover have "sl_ok sl' mh lev"
      using lk lev order x(3) by (simp add: sl_ok_def sl_linking_def sl')
    moreover have "sl_grows sl mh lev sl' mh lev"
    proof -
      have "p \<noteq> x" if "p \<in> set (lev l)" for p l
        using sl_shape_dom [OF shape, of p l] that x(2) by auto
      then show ?thesis by (auto simp: sl_grows_def sl' key_of_def)
    qed
    ultimately show ?thesis by blast
  next
    case (writer_store_x x prev i)
    then obtain k B A j where w: "i = int j" "j < 5" "lev = linked x B A j" "sl_linking sl mh k x B A j"
      "\<forall>l < 5. prev_node prev (int l) = Inr (last (sl_head sl # B l))"
      using ok(2) by (auto simp: writer_ok_def)
    have slot: "has_slot sl x j" using w(2,4) by (simp add: sl_linking_def)
    note X = Insert_store_x_linking [OF w(4,2) w(5)[rule_format, OF w(2)]]
    have sl': "sl' = set_link x j (hd (A j @ [0])) sl" using X(1) writer_store_x w(1) by simp
    note X = X(2,3) [folded sl']
    have same: "same_nodes sl sl'" unfolding sl' by (rule same_nodes_set_link [OF slot])
    have "writer_ok sl' mh lev w'"
      using X w writer_store_x same unfolding same_nodes_def by (simp add: writer_ok_def) blast
    moreover have "sl_ok sl' mh lev"
      using X(1) w(3) order same same_nodes_memory [OF same mem] by (simp add: sl_ok_def sl_linking_def same_nodes_def)
    ultimately show ?thesis using sl_grows_same_nodes [OF same, of mh mh lev lev] by blast
  next
    case (writer_store_prev x prev i)
    then obtain k B A j where w: "i = int j" "j < 5" "lev = linked x B A j" "sl_linking sl mh k x B A j"
      "\<forall>l < 5. prev_node prev (int l) = Inr (last (sl_head sl # B l))"
      and link: "node_link sl x j = Some (hd (A j @ [0]))"
      using ok(2) by (auto simp: writer_ok_def)
    note P = key_order.Insert_store_prev_linking [OF order w(4) refl w(2) w(5)[rule_format, OF w(2)] link]
    have slot: "has_slot sl (last (sl_head sl # B j)) j"
      by (rule node_link_has_slot [OF sl_linking_link [OF w(4,2)]])
    have sl': "sl' = set_link (last (sl_head sl # B j)) j x sl"
      using P(1) writer_store_prev w(1) by simp
    note P = P(2) [folded sl']
    have same: "same_nodes sl sl'" unfolding sl' by (rule same_nodes_set_link [OF slot])
    let ?lev' = "linked x B A (Suc j)"
    have "writer_ok sl' mh ?lev' w'"
    proof (cases "Suc j < 5")
      case True
      have prev': "\<forall>l < 5. prev_node prev (int l) = Inr (last (sl_head sl' # B l))"
        using w(5) same by (simp add: same_nodes_def)
      have w': "w' = Store_x x prev (int (Suc j))" using True w(1) writer_store_prev(2) by simp
      show ?thesis
        unfolding writer_ok_def w' writer.case
        by (rule exI [of _ k], rule exI [of _ B], rule exI [of _ A], rule exI [of _ "Suc j"])
          (use True P prev' in simp)
    next
      case False
      then show ?thesis using w(1) by (simp add: writer_ok_def writer_store_prev(2))
    qed
    moreover have "sl_ok sl' mh ?lev'"
      using P order same same_nodes_memory [OF same mem] by (simp add: sl_ok_def sl_linking_def same_nodes_def)
    moreover have "sl_grows sl mh lev sl' mh ?lev'"
      unfolding w(3) by (rule sl_grows_same_nodes [OF same]) (simp_all add: set_linked_mono)
    ultimately show ?thesis by blast
  qed simp_all
qed

definition conc_ok :: "'k SkipList \<times> 'k writer \<times> 'k reader \<Rightarrow> bool" where
  "conc_ok c =
     (case c of (sl, w, r) \<Rightarrow> \<exists>mh lev. sl_ok sl mh lev \<and> writer_ok sl mh lev w \<and> reader_ok sl mh lev r)"

text \<open>
  The invariant of the interleaving, with what a reader that has begun (at the list \<open>s\<close>) will
  answer.
\<close>

definition answer_ok :: "'k SkipList \<Rightarrow> 'k \<Rightarrow> 'k SkipList \<times> 'k writer \<times> 'k reader \<Rightarrow> bool" where
  "answer_ok s k c =
     (case c of (sl, w, r) \<Rightarrow>
        (sl_has s k \<longrightarrow> sl_has sl k) \<and>
        (case r of Start k' \<Rightarrow> k' = k | Searching k' x l \<Rightarrow> k' = k
         | Answered k' b \<Rightarrow> k' = k \<and> (sl_has s k \<longrightarrow> b) \<and> (b \<longrightarrow> sl_has sl k)))"

lemma sl_step_split:
  assumes "sl_step (sl, w, r) (sl', w', r')"
  shows "(r' = r \<and> w' \<noteq> w) \<or> (sl' = sl \<and> w' = w)"
  using assms by (cases rule: sl_step.cases) auto

lemma sl_step_conc_ok:
  assumes step: "sl_step (sl, w, r) (sl', w', r')" and inv: "conc_ok (sl, w, r)"
  shows "conc_ok (sl', w', r')" and "sl_has sl k \<Longrightarrow> sl_has sl' k"
    and "answer_ok s k (sl, w, r) \<Longrightarrow> answer_ok s k (sl', w', r')"
proof -
  obtain mh lev where ok: "sl_ok sl mh lev" "writer_ok sl mh lev w" "reader_ok sl mh lev r"
    using inv by (auto simp: conc_ok_def)
  then have order: "key_order (sl_compare sl)" and shape: "sl_shape sl mh lev" by (auto simp: sl_ok_def)
  have "conc_ok (sl', w', r') \<and> (\<forall>k. sl_has sl k \<longrightarrow> sl_has sl' k) \<and>
      (\<forall>s k. answer_ok s k (sl, w, r) \<longrightarrow> answer_ok s k (sl', w', r'))"
  proof (cases "w' = w")
    case False
    then have r: "r' = r" using sl_step_split [OF step] by blast
    obtain mh' lev' where new: "sl_ok sl' mh' lev'" "writer_ok sl' mh' lev' w'" "sl_grows sl mh lev sl' mh' lev'"
      using writer_step_grows [OF _ ok(1,2) False] step r by blast
    have has: "sl_has sl k \<longrightarrow> sl_has sl' k" for k
      using sl_has_grows [OF shape _ new(3)] new(1) by (auto simp: sl_ok_def)
    then have "answer_ok s k (sl, w, r) \<longrightarrow> answer_ok s k (sl', w', r')" for s k
      by (auto simp: answer_ok_def r split: reader.split)
    then show ?thesis
      using new reader_ok_grows [OF ok(3) new(3)] r has by (auto simp: conc_ok_def)
  next
    case True
    then have sl: "sl' = sl" using sl_step_split [OF step] by blast
    have "reader_ok sl mh lev r' \<and> (\<forall>s k. answer_ok s k (sl, w, r) \<longrightarrow> answer_ok s k (sl, w, r'))"
      using step True
    proof (cases rule: sl_step.cases)
      case (reader_start h key)
      have "1 \<le> mh" using shape by (simp add: sl_shape_def)
      then show ?thesis
        using reader_start GetMaxHeight_shape [OF shape] by (auto simp: reader_ok_def answer_ok_def)
    next
      case (reader_step key x level x' level')
      then show ?thesis
        using key_order.reader_turn [OF order shape refl, of key x level] ok(3)
        by (auto simp: answer_ok_def)
    next
      case (reader_answer key x level n b)
      then show ?thesis
        using key_order.reader_turn [OF order shape refl, of key x level] ok(3)
        by (auto simp: answer_ok_def reader_ok_def)
    qed (auto split: if_splits)
    then show ?thesis using ok True sl by (auto simp: conc_ok_def)
  qed
  then show "conc_ok (sl', w', r')" "sl_has sl k \<Longrightarrow> sl_has sl' k"
    "answer_ok s k (sl, w, r) \<Longrightarrow> answer_ok s k (sl', w', r')" by blast+
qed

lemma sl_steps_conc_ok:
  assumes "sl_step\<^sup>*\<^sup>* c c'" and "conc_ok c"
  shows "conc_ok c' \<and> (sl_has (fst c) k \<longrightarrow> sl_has (fst c') k) \<and>
    (answer_ok s k c \<longrightarrow> answer_ok s k c')"
  using assms
proof (induction rule: rtranclp_induct)
  case (step d e)
  obtain sl w r where d: "d = (sl, w, r)" by (cases d)
  obtain sl' w' r' where e: "e = (sl', w', r')" by (cases e)
  show ?case
    using step sl_step_conc_ok(1) [of sl w r sl' w' r'] sl_step_conc_ok(2) [of sl w r sl' w' r' k]
      sl_step_conc_ok(3) [of sl w r sl' w' r' s k]
    by (auto simp: d e)
qed simp

lemma conc_ok_initial:
  "\<lbrakk>key_order (sl_compare sl); sl_rep sl ks\<rbrakk> \<Longrightarrow> conc_ok (sl, Idle, Start k)"
  by (auto simp: conc_ok_def sl_rep_def sl_ok_def writer_ok_def reader_ok_def)

section \<open>The comparator on \<open>uint64_t\<close> keys\<close>

text \<open>The comparator the list is used with (src/tests/SkipListTests/SkipListTests.cpp).\<close>

definition u64_compare :: "u64 \<Rightarrow> u64 \<Rightarrow> int" where
  "u64_compare a b = (if a < b then - 1 else if a > b then 1 else 0)"

interpretation u64_order: key_order u64_compare
  by unfold_locales (auto simp: u64_compare_def split: if_splits)

text \<open>The empty list that the constructor builds in a new arena.\<close>

definition empty_list :: "u64 SkipList" where
  "empty_list =
     \<lparr>sl_compare = u64_compare, sl_node_size = 16,
      sl_arena = \<lparr>alloc_ptr = 4200, alloc_bytes_remaining = 3992, blocks = [(4096, 4096)], memory_usage = 4104\<rparr>,
      sl_head = 4096, sl_max_height = Some 1, sl_rand = Random_new 0xdeadbeef,
      sl_heap = [4096 \<mapsto> \<lparr>node_key = 0, node_next = replicate 12 (Some 0)\<rparr>]\<rparr>"

lemma fresh_first: "fresh_block Arena_new (Some 4096) (block_request 104)"
  by (simp add: fresh_block_def Arena_new_def block_regions_def block_request_def)

lemmas list_ops = deref_def slot_get_def slot_set_def Next_def SetNext_def NoBarrier_Next_def
  NoBarrier_SetNext_def Acquire_Load_def NoBarrier_Load_def Release_Store_def NoBarrier_Store_def
  AtomicPointer_new_def AtomicPointer_uninit_def

lemma upto_12: "[0..11 :: int] = [0, 1, 2, 3, 4, 5, 6, 7, 8, 9, 10, 11]"
  by (simp add: upto_rec1)

lemma replicate_12: "replicate 12 x = [x, x, x, x, x, x, x, x, x, x, x, x]"
  by (simp add: numeral_eq_Suc)

lemma replicate_5: "replicate 5 x = [x, x, x, x, x]"
  by (simp add: numeral_eq_Suc)

lemma upt_12: "[0..<12] = [0, 1, 2, 3, 4, 5, 6, 7, 8, 9, 10, 11]"
  by (simp add: upt_rec)

lemma empty_list_new: "SkipList_new (Some 4096) u64_compare 16 0 Arena_new Map.empty = Inr empty_list"
  by (simp add: SkipList_new_def NewNode_def kMaxHeight_def arena_ops upto_12 list_ops empty_list_def
      replicate_12)

lemma empty_list_shape: "sl_shape empty_list 1 (\<lambda>_. [])" and empty_list_memory: "sl_memory empty_list"
  using SkipList_new_shape [OF arena_start, of Map.empty 16 "Some 4096" u64_compare 0] fresh_first
  by (auto simp: empty_list_new)

lemma empty_list_rep: "sl_rep empty_list []" and empty_list_compare: "sl_compare empty_list = u64_compare"
  using empty_list_shape empty_list_memory by (auto simp: sl_rep_def empty_list_def)

lemma empty_list_order: "key_order (sl_compare empty_list)"
  by (simp add: empty_list_compare u64_order.key_order_axioms)

lemma fresh_second: "fresh_block (sl_arena empty_list) (Some 16384) (block_request (sl_node_size empty_list + 32))"
  by (simp add: fresh_block_def empty_list_def block_regions_def block_request_def apart_def)

text \<open>
  A run: a reader of key 7 has begun on the empty list; the writer inserts 7 and has stored
  the new node's link on the lowest level (\<open>example_mid\<close>), then publishes it there
  (\<open>example_end\<close>); the reader goes on.
\<close>

definition example_prev :: prevs where
  "example_prev = [Some 4096, Some 4096, Some 4096, Some 4096, Some 4096, None, None, None, None, None, None, None]"

definition example_list :: "u64 \<Rightarrow> AtomicPointer \<Rightarrow> u64 SkipList" where
  "example_list p ap = empty_list\<lparr>sl_max_height := Some 5,
     sl_arena := \<lparr>alloc_ptr = 4248, alloc_bytes_remaining = 3944, blocks = [(4096, 4096)], memory_usage = 4104\<rparr>,
     sl_heap := [4096 \<mapsto> \<lparr>node_key = 0, node_next = (replicate 12 (Some 0))[0 := Some p]\<rparr>,
                 4200 \<mapsto> \<lparr>node_key = 7, node_next = [ap, None, None, None, None]\<rparr>]\<rparr>"

definition example_mid :: "u64 SkipList" where "example_mid = example_list 0 (Some 0)"
definition example_end :: "u64 SkipList" where "example_end = example_list 4200 (Some 0)"

lemmas sl_steps_snoc = rtranclp.rtrancl_into_rtrancl [of sl_step]

lemma example_raise:
  "Insert_raise insert_height (prevs_below empty_list 7 (\<lambda>_. []) 1 (replicate kMaxHeight None)) empty_list
     = Inr (example_prev, empty_list\<lparr>sl_max_height := Some 5\<rparr>)"
proof -
  let ?ps = "[Some 4096, None, None, None, None, None, None, None, None, None, None, None] :: prevs"
  have head: "sl_head empty_list = 4096" by (simp add: empty_list_def)
  have ps: "prevs_below empty_list 7 (\<lambda>_. []) 1 (replicate kMaxHeight None) = ?ps"
    by (simp add: prevs_below_def kMaxHeight_def upt_12 replicate_12 level_before_def head)
  have "fill_prev 4096 1 5 ?ps = Inr example_prev"
    using fill_prev_eq [of 5 ?ps 4096 1] by (simp add: upt_rec example_prev_def)
  then show ?thesis
    using GetMaxHeight_shape [OF empty_list_shape]
    by (simp add: Insert_raise_def ps [simplified] head Release_Store_def)
qed

lemma example_steps:
  "sl_step\<^sup>*\<^sup>* (empty_list, Idle, Start 7) (example_mid, Store_prev 4200 example_prev 0, Searching 7 4096 0)"
proof -
  let ?r = "Searching 7 4096 0 :: u64 reader"
  have s1: "sl_step (empty_list, Idle, Start 7) (empty_list, Idle, Searching 7 4096 0)"
    using reader_start [of empty_list 1 Idle 7] GetMaxHeight_shape [OF empty_list_shape]
    by (simp add: empty_list_def)
  have s2: "sl_step (empty_list, Idle, Searching 7 4096 0)
      (empty_list, Raise 7 (prevs_below empty_list 7 (\<lambda>_. []) 1 (replicate kMaxHeight None)), Searching 7 4096 0)"
    using u64_order.Insert_search_shape [OF empty_list_shape empty_list_compare, of 7]
    by (intro sl_step.writer_search) simp
  have s3: "sl_step (empty_list, Raise 7 (prevs_below empty_list 7 (\<lambda>_. []) 1 (replicate kMaxHeight None)), Searching 7 4096 0)
      (empty_list\<lparr>sl_max_height := Some 5\<rparr>, Alloc 7 example_prev, Searching 7 4096 0)"
    by (rule sl_step.writer_raise [OF example_raise])
  have s4: "sl_step (empty_list\<lparr>sl_max_height := Some 5\<rparr>, Alloc 7 example_prev, ?r)
      (example_list 0 None, Store_x 4200 example_prev 0, Searching 7 4096 0)"
    by (rule sl_step.writer_alloc [of _ None])
      (simp_all add: NewNode_def arena_ops empty_list_def list_ops example_list_def fresh_block_def
        replicate_12 replicate_5 fun_eq_iff)
  have s5: "sl_step (example_list 0 None, Store_x 4200 example_prev 0, ?r)
      (example_mid, Store_prev 4200 example_prev 0, Searching 7 4096 0)"
    by (intro sl_step.writer_store_x)
      (simp add: Insert_store_x_def prev_node_def list_ops example_list_def example_prev_def
        empty_list_def replicate_12 example_mid_def fun_eq_iff)
  show ?thesis
    by (rule sl_steps_snoc [OF sl_steps_snoc [OF sl_steps_snoc [OF sl_steps_snoc [OF
          r_into_rtranclp [of sl_step, OF s1] s2] s3] s4] s5])
qed

lemma example_answer:
  "sl_step\<^sup>*\<^sup>* (empty_list, Idle, Start 7) (example_end, Store_x 4200 example_prev 1, Answered 7 True)"
proof -
  have s1: "sl_step (example_mid, Store_prev 4200 example_prev 0, Searching 7 4096 0)
      (example_end, Store_x 4200 example_prev 1, Searching 7 4096 0)"
    using writer_store_prev [of 4200 example_prev 0 example_mid example_end]
    by (simp add: Insert_store_prev_def prev_node_def list_ops example_list_def example_prev_def
        empty_list_def replicate_12 example_mid_def example_end_def fun_eq_iff)
  have s2: "sl_step (example_end, Store_x 4200 example_prev 1, Searching 7 4096 0)
      (example_end, Store_x 4200 example_prev 1, Answered 7 True)"
    by (rule sl_step.reader_answer [of _ _ _ _ 4200])
      (simp_all add: FindGreaterOrEqual_step_def list_ops KeyIsAfterNode_def Contains_result_def
        Equal_def example_end_def example_list_def empty_list_def replicate_12 u64_compare_def)
  show ?thesis by (rule sl_steps_snoc [OF sl_steps_snoc [OF example_steps s1] s2])
qed

section \<open>Properties of one thread\<close>

text \<open>
  the constructor, given memory, builds a list that represents the empty set, and
  otherwise only propagates the allocation failure.
\<close>

theorem SkipList_new_correct:
  assumes "arena_reach a R" and "\<forall>p \<in> dom heap. unat p \<in> fst ` set R"
    and "0 < unat node_size" and "unat node_size + 128 < 2 ^ 64"
    and "fresh_block a m (block_request (node_size + 88))"
  shows "(m = None \<and> SkipList_new m cmp node_size zero a heap = Inl Bad_alloc) \<or>
    (\<exists>sl. SkipList_new m cmp node_size zero a heap = Inr sl \<and> sl_rep sl [] \<and> sl_compare sl = cmp)"
  using SkipList_new_shape [OF assms, of cmp zero] by (fastforce simp: sl_rep_def)

theorem SkipList_new_correct_witness:
  "\<exists>sl. SkipList_new (Some 4096) u64_compare 16 0 Arena_new Map.empty = Inr sl \<and> sl_rep sl []"
  using SkipList_new_correct [OF arena_start, of Map.empty 16 "Some 4096" u64_compare 0] fresh_first
  by auto

text \<open>
  C18: \<open>FindGreaterOrEqual\<close> returns on every well-formed list. It yields the first node
  whose key is not below the key sought, or null, and fills \<open>prev\<close> for every level in use
  with the last node of that level below the key (the head if there is none).
\<close>

theorem FindGreaterOrEqual_correct:
  assumes "key_order (sl_compare sl)" and "sl_shape sl mh lev" and "length ps = kMaxHeight"
  shows "FindGreaterOrEqual sl k (Some ps) = Some (Inr
      (hd (dropWhile (\<lambda>p. sl_compare sl (key_of sl p) k < 0) (lev 0) @ [0]),
       Some (map (\<lambda>i. if i < mh
                      then Some (last (sl_head sl # takeWhile (\<lambda>p. sl_compare sl (key_of sl p) k < 0) (lev i)))
                      else ps ! i) [0..<kMaxHeight])))"
  using key_order.FindGreaterOrEqual_shape [OF assms(1,2) refl, of "Some ps" k] assms(3)
  by (simp add: level_after_def level_before_def prevs_below_def)

theorem FindGreaterOrEqual_correct_witness:
  "FindGreaterOrEqual empty_list 7 (Some (replicate 12 None)) =
     Some (Inr (0, Some (Some 4096 # tl (replicate 12 None))))"
  using FindGreaterOrEqual_correct [OF empty_list_order empty_list_shape, of "replicate 12 None" 7]
  by (simp add: kMaxHeight_def empty_list_def upt_12 replicate_12)

text \<open>
  C12: \<open>Contains\<close> returns on every well-formed list, without a fault, and answers whether
  a key that compares equal is in the list.
\<close>

theorem Contains_correct:
  assumes "key_order (sl_compare sl)" and "sl_rep sl ks"
  shows "Contains sl k = Some (Inr (list_ex (\<lambda>x. sl_compare sl k x = 0) ks))"
  using assms(2) key_order.Contains_shape [OF assms(1) _ refl, of _ _ k]
  by (auto simp: sl_rep_def list_ex_iff)

theorem Contains_correct_witness: "Contains empty_list 10 = Some (Inr False)"
  using Contains_correct [OF empty_list_order empty_list_rep] by simp

text \<open>
  C1: \<open>Insert\<close> of a key that no entry equals returns; given memory it puts the key in
  its place in the order and keeps the list well-formed, and otherwise it only propagates the
  allocation failure.
\<close>

theorem Insert_correct:
  assumes "key_order (sl_compare sl)" and "sl_rep sl ks"
    and "\<not> list_ex (\<lambda>x. sl_compare sl x k = 0) ks"
    and "fresh_block (sl_arena sl) m (block_request (sl_node_size sl + 32))"
  shows "(m = None \<and> Insert m k sl = Some (Inl Bad_alloc)) \<or>
    (\<exists>sl'. Insert m k sl = Some (Inr sl') \<and> sl_compare sl' = sl_compare sl \<and>
       sl_rep sl' (takeWhile (\<lambda>x. sl_compare sl x k < 0) ks @ k # dropWhile (\<lambda>x. sl_compare sl x k < 0) ks))"
proof -
  obtain mh lev where sl: "sl_shape sl mh lev" "sl_memory sl" "ks = map (key_of sl) (lev 0)"
    using assms(2) by (auto simp: sl_rep_def)
  then have "\<forall>p \<in> set (lev 0). sl_compare sl (key_of sl p) k \<noteq> 0"
    using assms(3) by (auto simp: list_ex_iff)
  from key_order.Insert_shape [OF assms(1) sl(1) refl sl(2) this assms(4)] show ?thesis
  proof (elim disjE exE conjE)
    fix sl' mh' lev'
    assume ok: "Insert m k sl = Some (Inr sl')" "sl_compare sl' = sl_compare sl"
      and rep: "sl_shape sl' mh' lev'" "sl_memory sl'"
      and keys: "map (key_of sl') (lev' 0) = map (key_of sl) (level_before sl k (lev 0)) @ k #
        map (key_of sl) (level_after sl k (lev 0))"
    have "sl_rep sl' (map (key_of sl') (lev' 0))" using rep by (auto simp: sl_rep_def)
    then show ?thesis
      using ok by (simp add: keys sl(3) level_before_def level_after_def takeWhile_map dropWhile_map o_def)
  qed simp
qed

theorem Insert_correct_witness:
  "\<exists>sl'. Insert (Some 16384) 7 empty_list = Some (Inr sl') \<and> sl_rep sl' [7]"
  using Insert_correct [OF empty_list_order empty_list_rep _ fresh_second, of 7] by auto

text \<open>
  \<open>Insert\<close> of a key that compares equal to an entry fails the assertion against
  duplicates, before anything is allocated or stored.
\<close>

theorem Insert_duplicate:
  assumes "key_order (sl_compare sl)" and "sl_rep sl ks" and "list_ex (\<lambda>x. sl_compare sl x k = 0) ks"
  shows "Insert m k sl = Some (Inl Assertion_failed)"
  using assms(2,3) key_order.Insert_search_shape [OF assms(1) _ refl, of _ _ k]
  by (fastforce simp: sl_rep_def Insert_def list_ex_iff)

theorem Insert_duplicate_witness:
  "\<exists>sl'. Insert (Some 16384) 7 empty_list = Some (Inr sl') \<and>
     Insert None 7 sl' = Some (Inl Assertion_failed)"
proof -
  obtain sl' where sl': "Insert (Some 16384) 7 empty_list = Some (Inr sl')" "sl_rep sl' [7]"
    "sl_compare sl' = u64_compare"
    using u64_order.Insert_shape [OF empty_list_shape empty_list_compare empty_list_memory _ fresh_second, of 7]
    by (fastforce simp: sl_rep_def level_before_def level_after_def)
  then show ?thesis
    using Insert_duplicate [of sl' "[7]" 7 None] u64_order.key_order_axioms by simp
qed

section \<open>Properties of a writer and its readers\<close>

text \<open>
  C2: \<open>Contains\<close> needs no lock. However its accesses interleave with those of a writer, it
  answers true if the key was in the list when it began, and it answers true only if the key
  is in the list when it ends.
\<close>

theorem Contains_concurrent:
  assumes "key_order (sl_compare s0)" and "sl_rep s0 ks"
    and "sl_step\<^sup>*\<^sup>* (s0, Idle, Start k) (s, w, Start k)"
    and "sl_step\<^sup>*\<^sup>* (s, w, Start k) (s', w', Answered k b)"
  shows "(sl_has s k \<longrightarrow> b) \<and> (b \<longrightarrow> sl_has s' k)"
proof -
  have "conc_ok (s, w, Start k)"
    using sl_steps_conc_ok [OF assms(3) conc_ok_initial [OF assms(1,2)]] by blast
  then show ?thesis
    using sl_steps_conc_ok [OF assms(4), of k s] by (simp add: answer_ok_def)
qed

theorem Contains_concurrent_witness:
  "sl_step\<^sup>*\<^sup>* (empty_list, Idle, Start 7) (example_end, Store_x 4200 example_prev 1, Answered 7 True) \<and>
   \<not> sl_has empty_list 7 \<and> sl_has example_end 7"
  using Contains_concurrent [OF empty_list_order empty_list_rep rtranclp.rtrancl_refl example_answer]
    example_answer sl_has_shape [OF empty_list_shape, of 7]
  by simp

text \<open>
  C20: in no interleaving does a reader or the writer's linking fault: every turn of the
  reader's search meets initialised pointers to live nodes only, and so does every store of
  the writer.
\<close>

theorem interleaving_no_fault:
  assumes "key_order (sl_compare s0)" and "sl_rep s0 ks"
    and "sl_step\<^sup>*\<^sup>* (s0, Idle, Start k) (s, w, r)"
  shows "(case r of Searching k x level \<Rightarrow> FindGreaterOrEqual_step s k (x, level, None) \<in> range Inr | _ \<Rightarrow> True) \<and>
    (case w of Store_x x prev i \<Rightarrow> Insert_store_x x prev i s \<in> range Inr
     | Store_prev x prev i \<Rightarrow> Insert_store_prev x prev i s \<in> range Inr | _ \<Rightarrow> True)"
proof -
  have "conc_ok (s, w, r)"
    using sl_steps_conc_ok [OF assms(3) conc_ok_initial [OF assms(1,2)]] by blast
  then obtain mh lev where ok: "sl_ok s mh lev" "writer_ok s mh lev w" "reader_ok s mh lev r"
    by (auto simp: conc_ok_def)
  then have order: "key_order (sl_compare s)" and shape: "sl_shape s mh lev" by (auto simp: sl_ok_def)
  have "case r of Searching k x level \<Rightarrow> FindGreaterOrEqual_step s k (x, level, None) \<in> range Inr | _ \<Rightarrow> True"
    using ok(3) key_order.reader_turn [OF order shape refl] by (cases r) fastforce+
  moreover have "case w of Store_x x prev i \<Rightarrow> Insert_store_x x prev i s \<in> range Inr
     | Store_prev x prev i \<Rightarrow> Insert_store_prev x prev i s \<in> range Inr | _ \<Rightarrow> True"
  proof (cases w)
    case (Store_x x prev i)
    then obtain k B A j where "i = int j" "j < 5" "sl_linking s mh k x B A j"
      "prev_node prev (int j) = Inr (last (sl_head s # B j))"
      using ok(2) by (auto simp: writer_ok_def)
    then show ?thesis using Insert_store_x_linking(1) [of s mh k x B A j prev] Store_x by simp
  next
    case (Store_prev x prev i)
    then obtain k B A j where "i = int j" "j < 5" "sl_linking s mh k x B A j"
      "prev_node prev (int j) = Inr (last (sl_head s # B j))" "node_link s x j = Some (hd (A j @ [0]))"
      using ok(2) by (auto simp: writer_ok_def)
    then show ?thesis
      using key_order.Insert_store_prev_linking(1) [OF order _ refl, of mh k x B A j prev] Store_prev by simp
  qed simp_all
  ultimately show ?thesis by blast
qed

theorem interleaving_no_fault_witness:
  "sl_step\<^sup>*\<^sup>* (empty_list, Idle, Start 7) (example_mid, Store_prev 4200 example_prev 0, Searching 7 4096 0) \<and>
   FindGreaterOrEqual_step example_mid 7 (4096, 0, None) \<in> range Inr \<and>
   Insert_store_prev 4200 example_prev 0 example_mid \<in> range Inr"
  using interleaving_no_fault [OF empty_list_order empty_list_rep example_steps] example_steps by simp

end
