(* ===== verification/Status_Val.thy ===== *)
theory Status_Val
  imports Slices Logging
begin

text \<open>
  The class \<open>Status\<close> (src/db/Status.h, src/db/Status.cpp). A status is a pointer: null for
  OK, otherwise a \<open>new[]\<close> buffer of the message length (a native \<open>uint32_t\<close>), the code and the
  message. The model keeps the heap of such buffers, with bytes that are uninitialised until
  written, so that leaks, double frees and writes past the end of a buffer are visible; the
  abstraction of a status is its code and message.
\<close>

section \<open>Definitions\<close>

subsection \<open>The heap of character buffers\<close>

record Heap =
  next_addr :: nat
  buffers :: "nat \<Rightarrow> byte option list option"

definition new_chars :: "nat \<Rightarrow> Heap \<Rightarrow> nat \<times> Heap" where
  "new_chars n h =
     (next_addr h, h\<lparr>next_addr := next_addr h + 1, buffers := (buffers h)(next_addr h \<mapsto> replicate n None)\<rparr>)"

definition delete_chars :: "nat \<Rightarrow> Heap \<Rightarrow> Heap res" where
  "delete_chars p h =
     (if p = 0 then Inr h
      else case buffers h p of None \<Rightarrow> Inl Dangling | Some _ \<Rightarrow> Inr (h\<lparr>buffers := (buffers h)(p := None)\<rparr>))"

definition heap_read :: "nat \<Rightarrow> nat \<Rightarrow> nat \<Rightarrow> Heap \<Rightarrow> bytes res" where
  "heap_read p off n h =
     (if p = 0 then Inl Null_pointer
      else case buffers h p of
             None \<Rightarrow> Inl Dangling
           | Some b \<Rightarrow>
               if off + n > length b then Inl Out_of_bounds
               else if None \<in> set (take n (drop off b)) then Inl Uninitialised
               else Inr (map the (take n (drop off b))))"

definition heap_write :: "nat \<Rightarrow> nat \<Rightarrow> bytes \<Rightarrow> Heap \<Rightarrow> Heap res" where
  "heap_write p off bs h =
     (if p = 0 then Inl Null_pointer
      else case buffers h p of
             None \<Rightarrow> Inl Dangling
           | Some b \<Rightarrow> rbind (mem_write b off (map Some bs)) (\<lambda>b'. Inr (h\<lparr>buffers := (buffers h)(p \<mapsto> b')\<rparr>)))"

subsection \<open>Codes\<close>

text \<open>\<open>KOther\<close> stands for a value that is cast to the enumeration without naming one of its members.\<close>

datatype StatusCode =
  KOK | KNotFound | KCorruption | KNotSupproted | KInvalidArgument | KIOError | KOther int

definition code_to_int :: "StatusCode \<Rightarrow> int" where
  "code_to_int c =
     (case c of KOK \<Rightarrow> 0 | KNotFound \<Rightarrow> 1 | KCorruption \<Rightarrow> 2 | KNotSupproted \<Rightarrow> 3
      | KInvalidArgument \<Rightarrow> 4 | KIOError \<Rightarrow> 5 | KOther i \<Rightarrow> i)"

definition int_to_code :: "int \<Rightarrow> StatusCode" where
  "int_to_code i =
     (if i = 0 then KOK else if i = 1 then KNotFound else if i = 2 then KCorruption
      else if i = 3 then KNotSupproted else if i = 4 then KInvalidArgument
      else if i = 5 then KIOError else KOther i)"

subsection \<open>Operations\<close>

definition codeOff :: nat where "codeOff = 4"

text \<open>The private constructor; \<open>little\<close> is the machine's byte order.\<close>

definition Status_new :: "bool \<Rightarrow> StatusCode \<Rightarrow> slice \<Rightarrow> slice \<Rightarrow> Heap \<Rightarrow> (nat \<times> Heap) res" where
  "Status_new little code msg msg2 h =
     (let msgLen = of_nat (Slice_Size msg) :: u32;
          msg2Len = of_nat (Slice_Size msg2) :: u32;
          statusLen = msgLen + (if msg2Len \<noteq> 0 then msg2Len + 2 else 0);
          (result, h0) = new_chars (unat (statusLen + 5)) h
      in
        rbind (heap_write result 0 (mem_image little 4 statusLen) h0) (\<lambda>h1.
        rbind (heap_write result codeOff [of_int (code_to_int code)] h1) (\<lambda>h2.
        rbind (ptr_read (Slice_Data msg) (unat msgLen)) (\<lambda>m.
        rbind (heap_write result 5 m h2) (\<lambda>h3.
        rbind (if msg2Len > 0
               then rbind (heap_write result (unat (msgLen + 5)) (lit '':'') h3) (\<lambda>h4.
                    rbind (heap_write result (unat (msgLen + 6)) (lit '' '') h4) (\<lambda>h5.
                    rbind (ptr_read (Slice_Data msg2) (unat msg2Len)) (\<lambda>m2.
                    heap_write result (unat msgLen + 7) m2 h5)))
               else Inr h3) (\<lambda>h6. Inr (result, h6)))))))"

definition Status_OK :: nat where "Status_OK = 0"

definition Status_NotFound :: "bool \<Rightarrow> slice \<Rightarrow> slice \<Rightarrow> Heap \<Rightarrow> (nat \<times> Heap) res" where
  "Status_NotFound little msg msg2 h = Status_new little KNotFound msg msg2 h"

definition Status_Corruption :: "bool \<Rightarrow> slice \<Rightarrow> slice \<Rightarrow> Heap \<Rightarrow> (nat \<times> Heap) res" where
  "Status_Corruption little msg msg2 h = Status_new little KCorruption msg msg2 h"

definition Status_NotSupported :: "bool \<Rightarrow> slice \<Rightarrow> slice \<Rightarrow> Heap \<Rightarrow> (nat \<times> Heap) res" where
  "Status_NotSupported little msg msg2 h = Status_new little KNotSupproted msg msg2 h"

definition Status_InvalidArgument :: "bool \<Rightarrow> slice \<Rightarrow> slice \<Rightarrow> Heap \<Rightarrow> (nat \<times> Heap) res" where
  "Status_InvalidArgument little msg msg2 h = Status_new little KInvalidArgument msg msg2 h"

definition Status_IOError :: "bool \<Rightarrow> slice \<Rightarrow> slice \<Rightarrow> Heap \<Rightarrow> (nat \<times> Heap) res" where
  "Status_IOError little msg msg2 h = Status_new little KIOError msg msg2 h"

definition Status_ok :: "nat \<Rightarrow> bool" where
  "Status_ok st \<longleftrightarrow> st = 0"

definition Status_Code :: "nat \<Rightarrow> Heap \<Rightarrow> StatusCode res" where
  "Status_Code st h =
     (if st = 0 then Inr KOK
      else rbind (heap_read st codeOff 1 h) (\<lambda>bs. Inr (int_to_code (sint (hd bs)))))"

definition Status_Is :: "StatusCode \<Rightarrow> nat \<Rightarrow> Heap \<Rightarrow> bool res" where
  "Status_Is c st h = rbind (Status_Code st h) (\<lambda>c'. Inr (c' = c))"

definition IsNotFound :: "nat \<Rightarrow> Heap \<Rightarrow> bool res" where "IsNotFound = Status_Is KNotFound"
definition IsCorruption :: "nat \<Rightarrow> Heap \<Rightarrow> bool res" where "IsCorruption = Status_Is KCorruption"
definition IsIOError :: "nat \<Rightarrow> Heap \<Rightarrow> bool res" where "IsIOError = Status_Is KIOError"
definition IsNotSupportedError :: "nat \<Rightarrow> Heap \<Rightarrow> bool res" where
  "IsNotSupportedError = Status_Is KNotSupproted"
definition IsInvalidArgument :: "nat \<Rightarrow> Heap \<Rightarrow> bool res" where
  "IsInvalidArgument = Status_Is KInvalidArgument"

definition CopyState :: "bool \<Rightarrow> nat \<Rightarrow> Heap \<Rightarrow> (nat \<times> Heap) res" where
  "CopyState little state h =
     rbind (heap_read state 0 4 h) (\<lambda>bs.
     let size = mem_value little bs :: u32;
         (buffer, h1) = new_chars (unat (size + 5)) h
     in rbind (heap_read state 0 (unat (size + 5)) h1) (\<lambda>cs.
        rbind (heap_write buffer 0 cs h1) (\<lambda>h2. Inr (buffer, h2))))"

definition Status_copy :: "bool \<Rightarrow> nat \<Rightarrow> Heap \<Rightarrow> (nat \<times> Heap) res" where
  "Status_copy little st h =
     rbind (Status_Code st h) (\<lambda>c. if c = KOK then Inr (0, h) else CopyState little st h)"

text \<open>The assignment; the first argument is the old value of \<open>this\<close>.\<close>

definition Status_assign :: "bool \<Rightarrow> nat \<Rightarrow> nat \<Rightarrow> Heap \<Rightarrow> (nat \<times> Heap) res" where
  "Status_assign little this_status st h =
     rbind (Status_Code st h) (\<lambda>c. if c = KOK then Inr (0, h) else CopyState little st h)"

definition Status_destroy :: "nat \<Rightarrow> Heap \<Rightarrow> Heap res" where
  "Status_destroy st h = (if st \<noteq> 0 then delete_chars st h else Inr h)"

definition decimal_int :: "int \<Rightarrow> bytes" where
  "decimal_int i = (if i < 0 then lit ''-'' @ decimal (nat (- i)) else decimal (nat i))"

definition Status_type :: "StatusCode \<Rightarrow> bytes" where
  "Status_type c =
     (case c of
        KNotFound \<Rightarrow> lit ''Not Found: ''
      | KInvalidArgument \<Rightarrow> lit ''Invalid Argument: ''
      | KCorruption \<Rightarrow> lit ''Corruption: ''
      | KNotSupproted \<Rightarrow> lit ''Not Supported: ''
      | KIOError \<Rightarrow> lit ''IO Error: ''
      | _ \<Rightarrow> snprintf_cstr 30 (lit ''Unknown code('' @ decimal_int (code_to_int c) @ lit ''): ''))"

definition Status_ToString :: "bool \<Rightarrow> nat \<Rightarrow> Heap \<Rightarrow> bytes res" where
  "Status_ToString little st h =
     (if st = 0 then Inr (lit ''OK'')
      else
        rbind (Status_Code st h) (\<lambda>c.
        rbind (heap_read st 0 4 h) (\<lambda>bs.
        rbind (heap_read st 5 (unat (mem_value little bs :: u32)) h) (\<lambda>m.
        Inr (Status_type c @ m)))))"

subsection \<open>Specification\<close>

definition heap_ok :: "Heap \<Rightarrow> bool" where
  "heap_ok h \<longleftrightarrow> 0 < next_addr h \<and> (\<forall>p \<ge> next_addr h. buffers h p = None)"

text \<open>What a status stands for: nothing for OK, else the code and the message.\<close>

type_synonym status_value = "(StatusCode \<times> bytes) option"

definition status_image :: "bool \<Rightarrow> StatusCode \<Rightarrow> bytes \<Rightarrow> bytes" where
  "status_image little c m =
     mem_image little 4 (of_nat (length m) :: u32) @ [of_int (code_to_int c)] @ m"

definition status_rep :: "bool \<Rightarrow> Heap \<Rightarrow> nat \<Rightarrow> status_value \<Rightarrow> bool" where
  "status_rep little h st v \<longleftrightarrow>
     (case v of
        None \<Rightarrow> st = 0
      | Some (c, m) \<Rightarrow>
          st \<noteq> 0 \<and> c \<in> {KNotFound, KCorruption, KNotSupproted, KInvalidArgument, KIOError} \<and>
          length m + 5 < 2 ^ 32 \<and> buffers h st = Some (map Some (status_image little c m)))"

definition status_message :: "bytes \<Rightarrow> bytes \<Rightarrow> bytes" where
  "status_message m m2 = (if m2 = [] then m else m @ lit '': '' @ m2)"

section \<open>Lemmas\<close>

lemma heap_read_image:
  assumes "status_rep little h st (Some (c, m))" and "off + n \<le> 5 + length m"
  shows "heap_read st off n h = Inr (take n (drop off (status_image little c m)))"
proof -
  have "length (status_image little c m) = 5 + length m" by (simp add: status_image_def)
  then show ?thesis
    using assms by (auto simp: heap_read_def status_rep_def drop_map take_map o_def)
qed

lemma code_of_image [simp]:
  "c \<in> {KNotFound, KCorruption, KNotSupproted, KInvalidArgument, KIOError} \<Longrightarrow>
     int_to_code (sint (of_int (code_to_int c) :: byte)) = c"
  by (auto simp: code_to_int_def int_to_code_def)

lemma Status_Code_rep:
  "status_rep little h st v \<Longrightarrow>
     Status_Code st h = Inr (case v of None \<Rightarrow> KOK | Some (c, m) \<Rightarrow> c)"
proof (cases v)
  case (Some q)
  obtain c m where q: "q = (c, m)" by (cases q)
  assume rep: "status_rep little h st v"
  then have "heap_read st codeOff 1 h = Inr (take 1 (drop 4 (status_image little c m)))"
    using heap_read_image [of little h st c m 4 1] Some q by (simp add: codeOff_def)
  then show ?thesis
    using rep Some q by (simp add: Status_Code_def status_rep_def status_image_def)
qed (simp add: Status_Code_def status_rep_def)

text \<open>A write just behind what is initialised.\<close>

definition with_buffer :: "Heap \<Rightarrow> nat \<Rightarrow> bytes \<Rightarrow> nat \<Rightarrow> Heap" where
  "with_buffer h p xs k =
     h\<lparr>next_addr := Suc p, buffers := (buffers h)(p \<mapsto> map Some xs @ replicate k None)\<rparr>"

lemma heap_write_append:
  "\<lbrakk>p \<noteq> 0; off = length xs; length ys \<le> k\<rbrakk> \<Longrightarrow>
     heap_write p off ys (with_buffer h p xs k) = Inr (with_buffer h p (xs @ ys) (k - length ys))"
  by (simp add: heap_write_def with_buffer_def mem_write_def)

lemma new_chars_eq: "new_chars n h = (next_addr h, with_buffer h (next_addr h) [] n)"
  by (simp add: new_chars_def with_buffer_def)

lemma heap_ok_with_buffer: "heap_ok h \<Longrightarrow> heap_ok (with_buffer h (next_addr h) xs k)"
  by (simp add: heap_ok_def with_buffer_def)

lemma status_rep_with_buffer:
  "\<lbrakk>heap_ok h; status_rep little h st v\<rbrakk> \<Longrightarrow> status_rep little (with_buffer h (next_addr h) xs k) st v"
  by (auto simp: status_rep_def with_buffer_def heap_ok_def split: option.splits)

lemma Status_new_eq:
  assumes ok: "heap_ok h" "slice_ok msg" "slice_ok msg2"
    and fits: "5 + length (status_message (view msg) (view msg2)) < 2 ^ 32"
  shows "Status_new little c msg msg2 h = Inr (next_addr h,
    with_buffer h (next_addr h) (status_image little c (status_message (view msg) (view msg2))) 0)"
proof -
  let ?m = "view msg" and ?m2 = "view msg2"
  let ?l = "of_nat (length ?m) :: u32" and ?l2 = "of_nat (length ?m2) :: u32"
  let ?msg = "status_message ?m ?m2"
  have p: "next_addr h \<noteq> 0" using ok by (simp add: heap_ok_def)
  have sizes: "Slice_Size msg = length ?m" "Slice_Size msg2 = length ?m2"
    using ok by (simp_all add: Slice_Size_view)
  have len: "length ?msg = length ?m + (if ?m2 = [] then 0 else length ?m2 + 2)"
    by (simp add: status_message_def)
  then have bounds: "length ?m + 7 + length ?m2 < 2 ^ 32 \<or> ?m2 = []" "length ?m + 5 < 2 ^ 32" "length ?m2 < 2 ^ 32"
    using fits by (auto split: if_splits)
  have u: "unat ?l = length ?m" "unat ?l2 = length ?m2"
    using bounds by (simp_all add: unat_of_nat take_bit_nat_eq_self)
  have l2: "?l2 = 0 \<longleftrightarrow> ?m2 = []" using u(2) by (metis length_0_conv unat_eq_0)
  have stl: "?l + (if ?l2 \<noteq> 0 then ?l2 + 2 else 0) = of_nat (length ?msg)"
    using l2 by (simp add: len algebra_simps)
  have total: "unat (of_nat (length ?msg) + 5 :: u32) = 5 + length ?msg"
    using fits by (simp add: unat_word_ariths unat_of_nat take_bit_nat_eq_self)
  have r1: "ptr_read (Slice_Data msg) (length ?m) = Inr ?m"
    and r2: "ptr_read (Slice_Data msg2) (length ?m2) = Inr ?m2"
    using ok by (simp_all add: Slice_Data_def)
  note w = heap_write_append [OF p]
  show ?thesis
  proof (cases "?m2 = []")
    case True
    then show ?thesis
      using total r1 u stl l2
      by (simp add: Status_new_def sizes Let_def new_chars_eq w codeOff_def status_image_def
          status_message_def)
  next
    case False
    then have "?l2 > 0" using l2 by (simp add: word_gt_0)
    moreover have "unat (?l + 5) = length ?m + 5" "unat (?l + 6) = length ?m + 6"
      using bounds False by (simp_all add: unat_word_ariths u)
    ultimately show ?thesis
      using False total r1 r2 u stl
      by (simp add: Status_new_def sizes Let_def new_chars_eq w codeOff_def status_image_def
          status_message_def ac_simps)
  qed
qed

lemma status_rep_new:
  assumes "heap_ok h" and "c \<in> {KNotFound, KCorruption, KNotSupproted, KInvalidArgument, KIOError}"
    and "length m + 5 < 2 ^ 32"
  shows "status_rep little (with_buffer h (next_addr h) (status_image little c m) 0) (next_addr h) (Some (c, m))"
  using assms by (auto simp: status_rep_def with_buffer_def heap_ok_def)

lemma CopyState_rep:
  assumes ok: "heap_ok h" and rep: "status_rep little h st (Some (c, m))"
  shows "CopyState little st h = Inr (next_addr h, with_buffer h (next_addr h) (status_image little c m) 0)"
proof -
  have p: "next_addr h \<noteq> 0" using ok by (simp add: heap_ok_def)
  have len: "length m + 5 < 2 ^ 32" using rep by (simp add: status_rep_def)
  have size: "mem_value little (take 4 (status_image little c m)) = (of_nat (length m) :: u32)"
    by (simp add: status_image_def)
  have u: "unat (of_nat (length m) + 5 :: u32) = length m + 5"
    using len by (simp add: unat_word_ariths unat_of_nat take_bit_nat_eq_self)
  have "status_rep little (with_buffer h (next_addr h) [] (length m + 5)) st (Some (c, m))"
    by (rule status_rep_with_buffer [OF ok rep])
  then have rd: "heap_read st 0 (length m + 5) (with_buffer h (next_addr h) [] (length m + 5)) =
      Inr (status_image little c m)"
    by (subst heap_read_image [of little _ st c m]) (simp_all add: status_image_def)
  have "length (status_image little c m) = length m + 5" by (simp add: status_image_def)
  then show ?thesis
    using heap_read_image [OF rep, of 0 4] rd
    by (simp add: CopyState_def size u new_chars_eq heap_write_append [OF p])
qed

lemma Status_destroy_with_buffer:
  assumes ok: "heap_ok h"
  shows "Status_destroy (next_addr h) (with_buffer h (next_addr h) xs k) = Inr (h\<lparr>next_addr := Suc (next_addr h)\<rparr>)"
proof -
  have "(buffers h)(next_addr h := None) = buffers h" using ok by (auto simp: heap_ok_def)
  then show ?thesis using ok by (simp add: Status_destroy_def delete_chars_def with_buffer_def heap_ok_def)
qed

lemma Status_destroy_rep:
  assumes "status_rep little h st v"
  shows "Status_destroy st h = Inr (if st = 0 then h else h\<lparr>buffers := (buffers h)(st := None)\<rparr>)"
  using assms by (auto simp: Status_destroy_def delete_chars_def status_rep_def split: option.splits)

lemma Status_copy_rep:
  assumes "heap_ok h" and "status_rep little h st v"
  shows "\<exists>st' h'. Status_copy little st h = Inr (st', h') \<and> status_rep little h' st' v \<and> heap_ok h'"
proof (cases v)
  case None
  then show ?thesis
    using assms by (simp add: Status_copy_def Status_Code_def status_rep_def)
next
  case (Some q)
  obtain c m where q: "q = (c, m)" by (cases q)
  have c: "c \<in> {KNotFound, KCorruption, KNotSupproted, KInvalidArgument, KIOError}" "length m + 5 < 2 ^ 32"
    using assms(2) Some q by (auto simp: status_rep_def)
  have "Status_copy little st h =
      Inr (next_addr h, with_buffer h (next_addr h) (status_image little c m) 0)"
    using CopyState_rep [OF assms(1), of little st c m] Status_Code_rep [OF assms(2)] assms(2) Some q c(1)
    by (auto simp: Status_copy_def)
  then show ?thesis
    using status_rep_new [OF assms(1) c] heap_ok_with_buffer [OF assms(1)] Some q by simp
qed

section \<open>Properties\<close>

definition error_codes :: "StatusCode set" where
  "error_codes = {KNotFound, KCorruption, KNotSupproted, KInvalidArgument, KIOError}"

text \<open>
  an error status whose text fits in the 32-bit length is built without touching any
  byte outside its new buffer, and stands for the code and the two messages joined by ": ";
  every other status keeps what it stands for.
\<close>

theorem Status_new_correct:
  assumes "heap_ok h" and "slice_ok msg" and "slice_ok msg2" and "c \<in> error_codes"
    and "5 + length (status_message (view msg) (view msg2)) < 2 ^ 32"
  shows "\<exists>st h'. Status_new little c msg msg2 h = Inr (st, h') \<and> heap_ok h' \<and>
    status_rep little h' st (Some (c, status_message (view msg) (view msg2))) \<and>
    (\<forall>st0 v. status_rep little h st0 v \<longrightarrow> st0 \<noteq> st \<and> status_rep little h' st0 v)"
proof -
  let ?p = "next_addr h" and ?m = "status_message (view msg) (view msg2)"
  let ?h = "with_buffer h ?p (status_image little c ?m) 0"
  have "st0 \<noteq> ?p" if "status_rep little h st0 v" for st0 v
    using that assms(1) by (auto simp: status_rep_def heap_ok_def split: option.splits)
  then show ?thesis
    using Status_new_eq [OF assms(1,2,3,5), of little c] heap_ok_with_buffer [OF assms(1)]
      status_rep_new [OF assms(1), of c ?m little] status_rep_with_buffer [OF assms(1)] assms(4,5)
    by (intro exI [of _ ?p] exI [of _ ?h]) (auto simp: error_codes_def add.commute)
qed

definition empty_heap :: Heap where "empty_heap = \<lparr>next_addr = 1, buffers = (\<lambda>_. None)\<rparr>"

lemma heap_ok_empty: "heap_ok empty_heap"
  by (simp add: heap_ok_def empty_heap_def)

theorem Status_new_correct_witness:
  "\<exists>st h'. Status_new True KNotFound (Slice_string (lit ''key'')) Slice_default empty_heap = Inr (st, h') \<and>
     status_rep True h' st (Some (KNotFound, lit ''key''))"
  using Status_new_correct [OF heap_ok_empty, of "Slice_string (lit ''key'')" Slice_default KNotFound True]
  by (auto simp: error_codes_def status_message_def)

text \<open>
  copying is deep: the copy stands for the same value in a buffer of its own, so that
  destroying either one leaves the other valid, and the original is untouched.
\<close>

theorem Status_copy_deep:
  assumes "heap_ok h" and "status_rep little h st v"
  shows "\<exists>st' h'. Status_copy little st h = Inr (st', h') \<and>
    status_rep little h' st' v \<and> status_rep little h' st v \<and>
    (\<exists>h1. Status_destroy st h' = Inr h1 \<and> status_rep little h1 st' v) \<and>
    (\<exists>h2. Status_destroy st' h' = Inr h2 \<and> status_rep little h2 st v \<and> buffers h2 = buffers h)"
proof (cases v)
  case None
  then have st: "st = 0" using assms(2) by (simp add: status_rep_def)
  then show ?thesis
    using None by (simp add: Status_copy_def Status_Code_def status_rep_def Status_destroy_def)
next
  case (Some q)
  obtain c m where q: "q = (c, m)" by (cases q)
  let ?p = "next_addr h"
  let ?h = "with_buffer h ?p (status_image little c m) 0"
  have c: "c \<in> {KNotFound, KCorruption, KNotSupproted, KInvalidArgument, KIOError}" "length m + 5 < 2 ^ 32"
    using assms(2) Some q by (auto simp: status_rep_def)
  have copy: "Status_copy little st h = Inr (?p, ?h)"
    using CopyState_rep [OF assms(1), of little st c m] Status_Code_rep [OF assms(2)] assms(2) Some q c(1)
    by (auto simp: Status_copy_def)
  have new: "status_rep little ?h ?p v" using status_rep_new [OF assms(1) c] Some q by simp
  have old: "status_rep little ?h st v" by (rule status_rep_with_buffer [OF assms])
  have "st \<noteq> ?p" using assms Some q by (auto simp: status_rep_def heap_ok_def)
  then have "\<exists>h1. Status_destroy st ?h = Inr h1 \<and> status_rep little h1 ?p v"
    using Status_destroy_rep [OF old] new Some q by (auto simp: status_rep_def)
  moreover have "\<exists>h2. Status_destroy ?p ?h = Inr h2 \<and> status_rep little h2 st v \<and> buffers h2 = buffers h"
    using Status_destroy_with_buffer [OF assms(1)] assms(2) Some q by (auto simp: status_rep_def)
  ultimately show ?thesis using copy new old by blast
qed

theorem Status_copy_deep_witness:
  "\<exists>st' h'. Status_copy True 0 empty_heap = Inr (st', h') \<and> status_rep True h' st' None"
  using Status_copy_deep [OF heap_ok_empty, of True 0 None] by (auto simp: status_rep_def)

text \<open>
  \<open>ToString\<close> and the predicates read back what a status stands for.
\<close>

theorem Status_reads:
  assumes "status_rep little h st v"
  shows "Status_ToString little st h =
      Inr (case v of None \<Rightarrow> lit ''OK'' | Some (c, m) \<Rightarrow> Status_type c @ m) \<and>
    Status_ok st = (v = None) \<and> (\<forall>c. Status_Is c st h = Inr (c = (case v of None \<Rightarrow> KOK | Some (c', m) \<Rightarrow> c')))"
proof -
  have "Status_ToString little st h = Inr (Status_type c @ m)" if v: "v = Some (c, m)" for c m
  proof -
    note rep = assms [unfolded v]
    have "mem_value little (take 4 (status_image little c m)) = (of_nat (length m) :: u32)"
      by (simp add: status_image_def)
    moreover have "unat (of_nat (length m) :: u32) = length m"
      using rep by (simp add: status_rep_def unat_of_nat take_bit_nat_eq_self)
    ultimately show ?thesis
      using heap_read_image [OF rep, of 0 4] heap_read_image [OF rep, of 5 "length m"]
        Status_Code_rep [OF rep] rep
      by (simp add: Status_ToString_def status_rep_def status_image_def)
  qed
  then show ?thesis
    using assms Status_Code_rep [OF assms]
    by (auto simp: Status_ToString_def Status_ok_def Status_Is_def status_rep_def split: option.splits)
qed

lemma example_status_rep:
  "status_rep True (with_buffer empty_heap 1 (status_image True KNotFound (lit ''key'')) 0) 1
     (Some (KNotFound, lit ''key''))"
  using status_rep_new [OF heap_ok_empty, of KNotFound "lit ''key''" True]
  by (simp add: empty_heap_def)

theorem Status_reads_witness:
  "Status_ToString True 1 (with_buffer empty_heap 1 (status_image True KNotFound (lit ''key'')) 0)
     = Inr (lit ''Not Found: key'') \<and>
   Status_Is KCorruption 1 (with_buffer empty_heap 1 (status_image True KNotFound (lit ''key'')) 0) = Inr False"
  using Status_reads [OF example_status_rep] by (simp add: Status_type_def)

text \<open>
  the assignment gives its target the source's value, and drops the old value without
  freeing it: the old buffer is still allocated and no status refers to it.
\<close>

theorem Status_assign_leaks:
  assumes "heap_ok h" and "status_rep little h old (Some w)" and "status_rep little h st v" and "old \<noteq> st"
  shows "\<exists>st' h'. Status_assign little old st h = Inr (st', h') \<and> status_rep little h' st' v \<and>
    st' \<noteq> old \<and> buffers h' old \<noteq> None \<and>
    (\<exists>h1. Status_destroy st' h' = Inr h1 \<and> buffers h1 old \<noteq> None)"
proof (cases v)
  case None
  then show ?thesis
    using assms by (auto simp: Status_assign_def Status_Code_def status_rep_def Status_destroy_def split: prod.splits)
next
  case (Some q)
  obtain c m where q: "q = (c, m)" by (cases q)
  let ?h = "with_buffer h (next_addr h) (status_image little c m) 0"
  have c: "c \<in> {KNotFound, KCorruption, KNotSupproted, KInvalidArgument, KIOError}" "length m + 5 < 2 ^ 32"
    using assms(3) Some q by (auto simp: status_rep_def)
  have "Status_assign little old st h = Inr (next_addr h, ?h)"
    using CopyState_rep [OF assms(1), of little st c m] Status_Code_rep [OF assms(3)] assms(3) Some q c(1)
    by (auto simp: Status_assign_def)
  moreover have "buffers h old \<noteq> None" "old \<noteq> next_addr h"
    using assms(1,2) by (auto simp: status_rep_def heap_ok_def split: prod.splits)
  moreover have "Status_destroy (next_addr h) ?h = Inr (h\<lparr>next_addr := Suc (next_addr h)\<rparr>)"
    by (rule Status_destroy_with_buffer [OF assms(1)])
  moreover have "status_rep little ?h (next_addr h) v" using status_rep_new [OF assms(1) c] Some q by simp
  ultimately show ?thesis by (auto simp: with_buffer_def)
qed

theorem Status_assign_leaks_witness:
  "\<exists>st' h'. Status_assign True 1 0 (with_buffer empty_heap 1 (status_image True KNotFound (lit ''key'')) 0)
     = Inr (st', h') \<and> st' \<noteq> 1 \<and> buffers h' 1 \<noteq> None"
  using Status_assign_leaks [of "with_buffer empty_heap 1 (status_image True KNotFound (lit ''key'')) 0" True 1
      "(KNotFound, lit ''key'')" 0 None] example_status_rep heap_ok_with_buffer [OF heap_ok_empty]
  by (auto simp: status_rep_def empty_heap_def)

text \<open>
  The length is computed in 32 bits: a message of \<open>2 ^ 32 - 5\<close> bytes makes the code allocate
  an empty buffer and write four bytes into it.
\<close>

lemma Status_new_length_wraps:
  assumes "Slice_Size msg = 4294967291" and "Slice_Size msg2 = 0" and "heap_ok h"
  shows "Status_new little c msg msg2 h = Inl Out_of_bounds"
  using assms
  by (simp add: Status_new_def Let_def new_chars_def heap_write_def mem_write_def heap_ok_def)

end
