(* ===== verification/Iterators.thy ===== *)
theory Iterators
  imports Status_Val
begin

text \<open>
  The base class \<open>Iterator\<close> and the iterator over nothing (src/db/Iterator.h,
  src/db/Iterator.cpp). The base keeps a chain of cleanup functions: the first one inside the
  object, the others in nodes from \<open>new\<close>, linked behind it. The model keeps the nodes in a heap
  (address 0 is null) and records the calls of cleanup functions in order; a function pointer
  is an option whose \<open>None\<close> is the null pointer. The destructor's loop follows the chain
  without a bound and is a partial function. \<open>positioned\<close> is the part of the iterator
  interface that its implementations share: the accessors may be called exactly when the
  iterator is valid.
\<close>

section \<open>Definitions\<close>

subsection \<open>The cleanup chain\<close>

record 'f Cleanup =
  c_function :: "'f option"
  c_arg1 :: u64
  c_arg2 :: u64
  c_next :: nat

record 'f Iterator =
  cleanup :: "'f Cleanup"
  cleanup_heap :: "nat \<Rightarrow> 'f Cleanup option"
  next_cleanup :: nat
  cleanup_calls :: "('f \<times> u64 \<times> u64) list"

definition Iterator_new :: "(nat \<Rightarrow> 'f Cleanup option) \<Rightarrow> nat \<Rightarrow> 'f Iterator" where
  "Iterator_new heap fresh =
     \<lparr>cleanup = \<lparr>c_function = None, c_arg1 = 0, c_arg2 = 0, c_next = 0\<rparr>,
      cleanup_heap = heap, next_cleanup = fresh, cleanup_calls = []\<rparr>"

definition RegisterCleanup ::
    "'f option \<Rightarrow> u64 \<Rightarrow> u64 \<Rightarrow> 'f Iterator \<Rightarrow> 'f Iterator res" where
  "RegisterCleanup f arg1 arg2 it =
     rbind (rassert (f \<noteq> None)) (\<lambda>_.
     if c_function (cleanup it) = None
     then Inr (it\<lparr>cleanup := (cleanup it)\<lparr>c_function := f, c_arg1 := arg1, c_arg2 := arg2\<rparr>\<rparr>)
     else
       (let c = next_cleanup it;
            node = \<lparr>c_function = f, c_arg1 = arg1, c_arg2 = arg2, c_next = c_next (cleanup it)\<rparr>
        in Inr (it\<lparr>cleanup := (cleanup it)\<lparr>c_next := c\<rparr>,
                   cleanup_heap := (cleanup_heap it)(c \<mapsto> node),
                   next_cleanup := c + 1\<rparr>)))"

text \<open>Calling through a function pointer.\<close>

definition call_cleanup :: "'f Cleanup \<Rightarrow> 'f Iterator \<Rightarrow> 'f Iterator res" where
  "call_cleanup c it =
     (case c_function c of
        None \<Rightarrow> Inl Null_pointer
      | Some f \<Rightarrow> Inr (it\<lparr>cleanup_calls := cleanup_calls it @ [(f, c_arg1 c, c_arg2 c)]\<rparr>))"

definition cleanup_step :: "nat \<Rightarrow> 'f Iterator \<Rightarrow> (nat \<times> 'f Iterator) res" where
  "cleanup_step c it =
     (case cleanup_heap it c of
        None \<Rightarrow> Inl Dangling
      | Some node \<Rightarrow>
          rbind (call_cleanup node it) (\<lambda>it1.
          Inr (c_next node, it1\<lparr>cleanup_heap := (cleanup_heap it1)(c := None)\<rparr>)))"

partial_function (option) cleanup_loop :: "nat \<Rightarrow> 'f Iterator \<Rightarrow> 'f Iterator res option" where
  "cleanup_loop c it =
     (if c = 0 then Some (Inr it)
      else case cleanup_step c it of
             Inl e \<Rightarrow> Some (Inl e)
           | Inr r \<Rightarrow> cleanup_loop (fst r) (snd r))"

definition Iterator_destroy :: "'f Iterator \<Rightarrow> 'f Iterator res option" where
  "Iterator_destroy it =
     (if c_function (cleanup it) \<noteq> None
      then (case call_cleanup (cleanup it) it of
              Inl e \<Rightarrow> Some (Inl e)
            | Inr it1 \<Rightarrow> cleanup_loop (c_next (cleanup it1)) it1)
      else Some (Inr it))"

text \<open>The registrations of a client, one after another.\<close>

primrec register_all :: "('f \<times> u64 \<times> u64) list \<Rightarrow> 'f Iterator \<Rightarrow> 'f Iterator res" where
  "register_all [] it = Inr it"
| "register_all (r # rs) it =
     rbind (RegisterCleanup (Some (fst r)) (fst (snd r)) (snd (snd r)) it) (\<lambda>it1. register_all rs it1)"

subsection \<open>The iterator over nothing\<close>

record 'f EmptyIterator =
  empty_base :: "'f Iterator"
  empty_status :: nat

definition EmptyIterator_new ::
    "bool \<Rightarrow> nat \<Rightarrow> Heap \<Rightarrow> 'f Iterator \<Rightarrow> ('f EmptyIterator \<times> Heap) res" where
  "EmptyIterator_new little s h b =
     rbind (Status_copy little s h) (\<lambda>(st, h1). Inr (\<lparr>empty_base = b, empty_status = st\<rparr>, h1))"

definition Empty_Valid :: "'f EmptyIterator \<Rightarrow> bool" where "Empty_Valid it = False"
definition Empty_Seek :: "slice \<Rightarrow> 'f EmptyIterator \<Rightarrow> 'f EmptyIterator" where "Empty_Seek key it = it"
definition Empty_SeekToFirst :: "'f EmptyIterator \<Rightarrow> 'f EmptyIterator" where "Empty_SeekToFirst it = it"
definition Empty_SeekToLast :: "'f EmptyIterator \<Rightarrow> 'f EmptyIterator" where "Empty_SeekToLast it = it"

definition Empty_Next :: "'f EmptyIterator \<Rightarrow> 'f EmptyIterator res" where
  "Empty_Next it = rbind (rassert False) (\<lambda>_. Inr it)"

definition Empty_Prev :: "'f EmptyIterator \<Rightarrow> 'f EmptyIterator res" where
  "Empty_Prev it = rbind (rassert False) (\<lambda>_. Inr it)"

definition Empty_Key :: "'f EmptyIterator \<Rightarrow> slice res" where
  "Empty_Key it = rbind (rassert False) (\<lambda>_. Inr Slice_default)"

definition Empty_Value :: "'f EmptyIterator \<Rightarrow> slice res" where
  "Empty_Value it = rbind (rassert False) (\<lambda>_. Inr Slice_default)"

definition Empty_GetStatus :: "bool \<Rightarrow> 'f EmptyIterator \<Rightarrow> Heap \<Rightarrow> (nat \<times> Heap) res" where
  "Empty_GetStatus little it h = Status_copy little (empty_status it) h"

text \<open>The destructor: the derived part, then its status, then the base.\<close>

definition Empty_destroy :: "'f EmptyIterator \<Rightarrow> Heap \<Rightarrow> (Heap \<times> 'f Iterator) res option" where
  "Empty_destroy it h =
     (case Status_destroy (empty_status it) h of
        Inl e \<Rightarrow> Some (Inl e)
      | Inr h1 \<Rightarrow> map_option (\<lambda>r. rbind r (\<lambda>b. Inr (h1, b))) (Iterator_destroy (empty_base it)))"

definition NewEmptyIterator :: "bool \<Rightarrow> Heap \<Rightarrow> 'f Iterator \<Rightarrow> ('f EmptyIterator \<times> Heap) res" where
  "NewEmptyIterator little h b = EmptyIterator_new little Status_OK h b"

definition NewErrorIterator :: "bool \<Rightarrow> nat \<Rightarrow> Heap \<Rightarrow> 'f Iterator \<Rightarrow> ('f EmptyIterator \<times> Heap) res" where
  "NewErrorIterator little status h b = EmptyIterator_new little status h b"

subsection \<open>Specification\<close>

text \<open>The order in which the destructor runs what was registered: the first, then the others backwards.\<close>

fun cleanup_order :: "'a list \<Rightarrow> 'a list" where
  "cleanup_order [] = []"
| "cleanup_order (r # rs) = r # rev rs"

text \<open>The nodes behind an address, in chain order.\<close>

primrec cleanup_chain :: "(nat \<Rightarrow> 'f Cleanup option) \<Rightarrow> nat \<Rightarrow> nat list \<Rightarrow> bool" where
  "cleanup_chain heap p [] \<longleftrightarrow> p = 0"
| "cleanup_chain heap p (q # qs) \<longleftrightarrow>
     p = q \<and> q \<noteq> 0 \<and> (case heap q of None \<Rightarrow> False | Some c \<Rightarrow> cleanup_chain heap (c_next c) qs)"

definition cleanup_call :: "'f Cleanup \<Rightarrow> 'f \<times> u64 \<times> u64" where
  "cleanup_call c = (the (c_function c), c_arg1 c, c_arg2 c)"

text \<open>The iterator \<open>it\<close> has \<open>rs\<close> registered on top of the heap \<open>heap0\<close>.\<close>

definition registered ::
    "(nat \<Rightarrow> 'f Cleanup option) \<Rightarrow> ('f \<times> u64 \<times> u64) list \<Rightarrow> 'f Iterator \<Rightarrow> bool" where
  "registered heap0 rs it \<longleftrightarrow>
     0 < next_cleanup it \<and> (\<forall>p \<ge> next_cleanup it. cleanup_heap it p = None) \<and> cleanup_calls it = [] \<and>
     (case rs of
        [] \<Rightarrow> c_function (cleanup it) = None \<and> c_next (cleanup it) = 0 \<and> cleanup_heap it = heap0
      | r # rs' \<Rightarrow>
          c_function (cleanup it) \<noteq> None \<and> cleanup_call (cleanup it) = r \<and>
          (\<exists>qs. distinct qs \<and> cleanup_chain (cleanup_heap it) (c_next (cleanup it)) qs \<and>
             (\<forall>q \<in> set qs. heap0 q = None \<and> c_function (the (cleanup_heap it q)) \<noteq> None) \<and>
             map (\<lambda>q. cleanup_call (the (cleanup_heap it q))) qs = rev rs' \<and>
             (\<forall>p. p \<notin> set qs \<longrightarrow> cleanup_heap it p = heap0 p)))"

text \<open>What the implementations of the iterator interface share.\<close>

locale positioned =
  fixes valid :: "'s \<Rightarrow> bool" and key :: "'s \<Rightarrow> slice res" and val :: "'s \<Rightarrow> slice res"
  assumes key_iff: "(\<exists>k. key s = Inr k) \<longleftrightarrow> valid s"
    and val_iff: "(\<exists>v. val s = Inr v) \<longleftrightarrow> valid s"
begin

text \<open>Reading the entry a valid iterator stands on.\<close>

definition entry :: "'s \<Rightarrow> (slice \<times> slice) res" where
  "entry s = rbind (key s) (\<lambda>k. rbind (val s) (\<lambda>v. Inr (k, v)))"

lemma entry_valid: "(\<exists>kv. entry s = Inr kv) \<longleftrightarrow> valid s"
  using key_iff [of s] val_iff [of s] by (auto simp: entry_def rbind_eq_Inr)

lemma entry_invalid: "\<not> valid s \<Longrightarrow> \<exists>e. entry s = Inl e"
  using entry_valid [of s] by (cases "entry s") auto

end

interpretation empty_it: positioned Empty_Valid Empty_Key Empty_Value
  by unfold_locales (simp_all add: Empty_Valid_def Empty_Key_def Empty_Value_def)

section \<open>Lemmas\<close>

lemma cleanup_chain_upd:
  "p \<notin> set qs \<Longrightarrow> cleanup_chain (heap(p := x)) q qs = cleanup_chain heap q qs"
  by (induction qs arbitrary: q) (auto split: option.splits)

lemma RegisterCleanup_registered:
  assumes "registered heap0 rs it"
  shows "\<exists>it'. RegisterCleanup (Some f) a b it = Inr it' \<and> registered heap0 (rs @ [(f, a, b)]) it'"
proof (cases rs)
  case Nil
  then show ?thesis
    using assms by (auto simp: registered_def RegisterCleanup_def cleanup_call_def intro!: exI [of _ "[]"])
next
  case (Cons r rs')
  let ?p = "next_cleanup it"
  let ?node = "\<lparr>c_function = Some f, c_arg1 = a, c_arg2 = b, c_next = c_next (cleanup it)\<rparr>"
  obtain qs where qs: "distinct qs" "cleanup_chain (cleanup_heap it) (c_next (cleanup it)) qs"
    "\<forall>q \<in> set qs. heap0 q = None \<and> c_function (the (cleanup_heap it q)) \<noteq> None"
    "map (\<lambda>q. cleanup_call (the (cleanup_heap it q))) qs = rev rs'"
    "\<forall>p. p \<notin> set qs \<longrightarrow> cleanup_heap it p = heap0 p"
    using assms Cons by (auto simp: registered_def)
  have chain_some: "cleanup_heap it q \<noteq> None" if "cleanup_chain (cleanup_heap it) n xs" "q \<in> set xs" for n q xs
    using that by (induction xs arbitrary: n) (auto split: option.splits)
  have unused: "cleanup_heap it ?p = None" "?p \<noteq> 0" using assms by (simp_all add: registered_def)
  then have out: "?p \<notin> set qs" using chain_some [OF qs(2), of ?p] by auto
  then have fresh: "?p \<notin> set qs" "heap0 ?p = None" "?p \<noteq> 0"
    using unused qs(5)[rule_format, OF out] by auto
  have "cleanup_chain ((cleanup_heap it)(?p \<mapsto> ?node)) ?p (?p # qs)"
    using fresh qs(2) by (simp add: cleanup_chain_upd)
  moreover have "map (\<lambda>q. cleanup_call (the (((cleanup_heap it)(?p \<mapsto> ?node)) q))) (?p # qs) = rev (rs' @ [(f, a, b)])"
  proof -
    have "map (\<lambda>q. cleanup_call (the (((cleanup_heap it)(?p \<mapsto> ?node)) q))) qs = rev rs'"
      unfolding qs(4) [symmetric] using fresh(1) by (intro map_cong) auto
    then show ?thesis by (simp add: cleanup_call_def)
  qed
  ultimately show ?thesis
    using assms Cons qs fresh
    by (auto simp: registered_def RegisterCleanup_def Let_def cleanup_call_def
        simp del: fun_upd_apply intro!: exI [of _ "?p # qs"]) auto
qed

lemma register_all_registered:
  "registered heap0 rs it \<Longrightarrow> \<exists>it'. register_all rs2 it = Inr it' \<and> registered heap0 (rs @ rs2) it'"
proof (induction rs2 arbitrary: rs it)
  case (Cons r rs2)
  obtain f a b where r: "r = (f, a, b)" by (cases r)
  obtain it1 where "RegisterCleanup (Some f) a b it = Inr it1" "registered heap0 (rs @ [r]) it1"
    using RegisterCleanup_registered [OF Cons.prems] r by blast
  then show ?case using Cons.IH [of "rs @ [r]" it1] r by simp
qed simp

lemma cleanup_loop_chain:
  "\<lbrakk>distinct qs; cleanup_chain (cleanup_heap it) c qs;
    \<forall>q \<in> set qs. c_function (the (cleanup_heap it q)) \<noteq> None\<rbrakk> \<Longrightarrow>
   cleanup_loop c it = Some (Inr (it\<lparr>
     cleanup_heap := (\<lambda>p. if p \<in> set qs then None else cleanup_heap it p),
     cleanup_calls := cleanup_calls it @ map (\<lambda>q. cleanup_call (the (cleanup_heap it q))) qs\<rparr>))"
proof (induction qs arbitrary: c it)
  case Nil
  then show ?case by (subst cleanup_loop.simps) simp
next
  case (Cons q qs)
  obtain node f where node: "cleanup_heap it q = Some node" "c_function node = Some f"
    "cleanup_chain (cleanup_heap it) (c_next node) qs" "c = q" "q \<noteq> 0"
    using Cons.prems by (auto split: option.splits)
  let ?it = "it\<lparr>cleanup_calls := cleanup_calls it @ [(f, c_arg1 node, c_arg2 node)],
    cleanup_heap := (cleanup_heap it)(q := None)\<rparr>"
  have step: "cleanup_step c it = Inr (c_next node, ?it)"
    using node by (simp add: cleanup_step_def call_cleanup_def)
  have q: "q \<notin> set qs" using Cons.prems(1) by simp
  have "\<forall>x \<in> set qs. c_function (the (cleanup_heap ?it x)) \<noteq> None"
    using Cons.prems(3) q by auto
  moreover have "cleanup_chain (cleanup_heap ?it) (c_next node) qs"
    using node(3) by (simp add: cleanup_chain_upd [OF q])
  ultimately have "cleanup_loop (c_next node) ?it = Some (Inr (?it\<lparr>
     cleanup_heap := (\<lambda>p. if p \<in> set qs then None else cleanup_heap ?it p),
     cleanup_calls := cleanup_calls ?it @ map (\<lambda>x. cleanup_call (the (cleanup_heap ?it x))) qs\<rparr>))"
    using Cons.prems(1) by (intro Cons.IH) (simp_all del: fun_upd_apply)
  moreover have "map (\<lambda>x. cleanup_call (the (if x = q then None else cleanup_heap it x))) qs =
      map (\<lambda>x. cleanup_call (the (cleanup_heap it x))) qs"
    using q by (intro map_cong) auto
  ultimately show ?case
    using node step by (subst cleanup_loop.simps) (auto simp: cleanup_call_def fun_eq_iff)
qed

section \<open>Properties\<close>

text \<open>
  the destructor returns; it runs every registered cleanup exactly once, the first one
  registered before all others and these in reverse order, and frees every node that
  registering allocated and nothing else.
\<close>

theorem cleanups_run_once:
  assumes "0 < fresh" and "\<forall>p \<ge> fresh. heap p = None"
  shows "\<exists>it it'. register_all rs (Iterator_new heap fresh) = Inr it \<and>
    Iterator_destroy it = Some (Inr it') \<and> cleanup_calls it' = cleanup_order rs \<and> cleanup_heap it' = heap"
proof -
  have "registered heap [] (Iterator_new heap fresh)"
    using assms by (simp add: registered_def Iterator_new_def)
  then obtain it where it: "register_all rs (Iterator_new heap fresh) = Inr it" "registered heap rs it"
    using register_all_registered [of heap "[]"] by auto
  show ?thesis
  proof (cases rs)
    case Nil
    then show ?thesis using it by (auto simp: registered_def Iterator_destroy_def)
  next
    case (Cons r rs')
    obtain qs where qs: "distinct qs" "cleanup_chain (cleanup_heap it) (c_next (cleanup it)) qs"
      "\<forall>q \<in> set qs. heap q = None \<and> c_function (the (cleanup_heap it q)) \<noteq> None"
      "map (\<lambda>q. cleanup_call (the (cleanup_heap it q))) qs = rev rs'"
      "\<forall>p. p \<notin> set qs \<longrightarrow> cleanup_heap it p = heap p"
      using it(2) Cons by (auto simp: registered_def)
    obtain f where f: "c_function (cleanup it) = Some f" "(f, c_arg1 (cleanup it), c_arg2 (cleanup it)) = r"
      using it(2) Cons by (auto simp: registered_def cleanup_call_def)
    let ?it = "it\<lparr>cleanup_calls := [r]\<rparr>"
    have "call_cleanup (cleanup it) it = Inr ?it"
      using f it(2) by (simp add: call_cleanup_def registered_def)
    moreover have "cleanup_loop (c_next (cleanup it)) ?it = Some (Inr (?it\<lparr>
        cleanup_heap := (\<lambda>p. if p \<in> set qs then None else cleanup_heap ?it p),
        cleanup_calls := cleanup_calls ?it @ map (\<lambda>q. cleanup_call (the (cleanup_heap ?it q))) qs\<rparr>))"
      using qs by (intro cleanup_loop_chain) auto
    moreover have "(\<lambda>p. if p \<in> set qs then None else cleanup_heap it p) = heap"
      using qs(3,5) by auto
    ultimately show ?thesis
      using it(1) f(1) Cons qs(4) by (auto simp: Iterator_destroy_def)
  qed
qed

theorem cleanups_run_once_witness:
  "\<exists>it it'. register_all [(10 :: int, 1, 2), (20, 3, 4), (30, 5, 6)] (Iterator_new (\<lambda>_. None) 1) = Inr it \<and>
    Iterator_destroy it = Some (Inr it') \<and> cleanup_calls it' = [(10, 1, 2), (30, 5, 6), (20, 3, 4)]"
  using cleanups_run_once [of 1 "\<lambda>_. None" "[(10 :: int, 1, 2), (20, 3, 4), (30, 5, 6)]"] by auto

text \<open>
  an error iterator is never valid, its accessors and moves fail their assertion, and
  \<open>GetStatus\<close> returns a status that stands for the error it was built with.
\<close>

theorem NewErrorIterator_reports:
  assumes "heap_ok h" and "status_rep little h s v"
  shows "\<exists>it h1 st h2. NewErrorIterator little s h b = Inr (it, h1) \<and>
    Empty_GetStatus little it h1 = Inr (st, h2) \<and> status_rep little h2 st v \<and>
    \<not> Empty_Valid it \<and> Empty_Key it = Inl Assertion_failed \<and> Empty_Value it = Inl Assertion_failed \<and>
    Empty_Next it = Inl Assertion_failed \<and> Empty_Prev it = Inl Assertion_failed"
proof -
  obtain st1 h1 where c1: "Status_copy little s h = Inr (st1, h1)" "status_rep little h1 st1 v" "heap_ok h1"
    using Status_copy_rep [OF assms] by blast
  obtain st2 h2 where c2: "Status_copy little st1 h1 = Inr (st2, h2)" "status_rep little h2 st2 v"
    using Status_copy_rep [OF c1(3,2)] by blast
  show ?thesis
    using c1(1) c2
    by (auto simp: NewErrorIterator_def EmptyIterator_new_def Empty_GetStatus_def Empty_Valid_def
        Empty_Next_def Empty_Prev_def Empty_Key_def Empty_Value_def)
qed

theorem NewErrorIterator_reports_witness:
  "\<exists>it h1 st h2. NewErrorIterator True 0 empty_heap (Iterator_new (\<lambda>_. None) 1 :: int Iterator) = Inr (it, h1) \<and>
    Empty_GetStatus True it h1 = Inr (st, h2) \<and> status_rep True h2 st None"
  using NewErrorIterator_reports [OF heap_ok_empty, of True 0 None "Iterator_new (\<lambda>_. None) 1 :: int Iterator"]
  by (auto simp: status_rep_def)

end
