(* ===== verification/Blocks.thy ===== *)
theory Blocks
  imports Coding Comparators Iterators
begin

text \<open>
  Table blocks (src/db/Block.h, src/db/Block.cpp, src/db/Format.h): the constructor that
  checks the trailer, the decoding of one entry, and the iterator's \<open>Seek\<close>, a binary search
  over the restart points followed by a linear scan. Pointers into the block are offsets into
  the array object that \<open>data_\<close> points to; offsets and lengths keep their 32 bits, sizes their
  64. Both loops of \<open>Seek\<close> are partial functions, shown to return on every input. The members
  \<open>current_\<close> and \<open>restart_index_\<close>, which the constructor does not set, start uninitialised. The
  iterator's status is kept as the value it stands for (theory \<open>Status_Val\<close>).
\<close>

section \<open>Definitions\<close>

subsection \<open>Blocks\<close>

record BlockContents =
  bc_data :: slice
  cachable :: bool
  heap_allocated :: bool

record Block =
  b_data :: cptr
  b_size :: u64
  restart_offset :: "u32 option"
  owned :: bool

definition NumRestarts :: "bool \<Rightarrow> Block \<Rightarrow> u32 res" where
  "NumRestarts little b =
     rbind (rassert (b_size b \<ge> 4)) (\<lambda>_.
     DecodeFixed32 little (ptr_add (b_data b) (unat (b_size b - 4))))"

definition Block_new :: "bool \<Rightarrow> BlockContents \<Rightarrow> Block res" where
  "Block_new little content =
     (let b = \<lparr>b_data = Slice_Data (bc_data content), b_size = of_nat (Slice_Size (bc_data content)),
               restart_offset = None, owned = heap_allocated content\<rparr>
      in
        if b_size b < 4 then Inr (b\<lparr>b_size := 0\<rparr>)
        else
          (let max_num_restart = (b_size b - 4) div 4 in
           rbind (NumRestarts little b) (\<lambda>n.
           if ucast n > max_num_restart then Inr (b\<lparr>b_size := 0\<rparr>)
           else Inr (b\<lparr>restart_offset := Some (ucast (b_size b - ucast (1 + n) * 4))\<rparr>))))"

definition Block_Size :: "Block \<Rightarrow> u64" where
  "Block_Size b = b_size b"

text \<open>The destructor, as the pointers it passes to \<open>delete[]\<close>.\<close>

definition Block_destroy :: "Block \<Rightarrow> cptr list" where
  "Block_destroy b = (if owned b then [b_data b] else [])"

subsection \<open>One entry\<close>

text \<open>
  \<open>DecodeEntry\<close> between the offsets \<open>p\<close> and \<open>limit\<close>: the position of the key delta, and the
  three lengths; \<open>None\<close> is the null pointer.
\<close>

definition DecodeEntry_check ::
    "nat \<Rightarrow> nat \<Rightarrow> u32 \<Rightarrow> u32 \<Rightarrow> u32 \<Rightarrow> (nat \<times> u32 \<times> u32 \<times> u32) option" where
  "DecodeEntry_check p limit shared non_shared value_length =
     (if (of_int (int limit - int p) :: u32) < non_shared + value_length then None
      else Some (p, shared, non_shared, value_length))"

definition DecodeEntry :: "bytes \<Rightarrow> nat \<Rightarrow> nat \<Rightarrow> (nat \<times> u32 \<times> u32 \<times> u32) option res" where
  "DecodeEntry buf p limit =
     (if int limit - int p < 3 then Inr None
      else
        rbind (mem_read buf p 3) (\<lambda>bs.
        let shared = ucast (bs ! 0) :: u32;
            non_shared = ucast (bs ! 1) :: u32;
            value_length = ucast (bs ! 2) :: u32
        in
          if (shared OR non_shared OR value_length) < 128
          then Inr (DecodeEntry_check (p + 3) limit shared non_shared value_length)
          else
            rbind (GetVarint32Ptr buf p limit) (\<lambda>r1. case r1 of None \<Rightarrow> Inr None | Some (p1, shared1) \<Rightarrow>
            rbind (GetVarint32Ptr buf p1 limit) (\<lambda>r2. case r2 of None \<Rightarrow> Inr None | Some (p2, non_shared1) \<Rightarrow>
            rbind (GetVarint32Ptr buf p2 limit) (\<lambda>r3. case r3 of None \<Rightarrow> Inr None | Some (p3, value_length1) \<Rightarrow>
            Inr (DecodeEntry_check p3 limit shared1 non_shared1 value_length1))))))"

subsection \<open>The iterator\<close>

record BlockIter =
  it_comparator :: Comparator
  it_data :: cptr
  it_restarts :: u32
  it_num_restarts :: u32
  it_current :: "u32 option"
  it_restart_index :: "u32 option"
  it_key :: bytes
  it_value :: slice
  it_status :: status_value

definition BlockIter_new :: "Comparator \<Rightarrow> cptr \<Rightarrow> u32 \<Rightarrow> u32 \<Rightarrow> BlockIter res" where
  "BlockIter_new cmp data restarts num_restarts =
     rbind (rassert (num_restarts > 0)) (\<lambda>_.
     Inr \<lparr>it_comparator = cmp, it_data = data, it_restarts = restarts, it_num_restarts = num_restarts,
          it_current = None, it_restart_index = None, it_key = [], it_value = Slice_default,
          it_status = None\<rparr>)"

definition BlockIter_Valid :: "BlockIter \<Rightarrow> bool res" where
  "BlockIter_Valid it =
     (case it_current it of None \<Rightarrow> Inl Uninitialised | Some c \<Rightarrow> Inr (c < it_restarts it))"

definition BlockIter_Key :: "BlockIter \<Rightarrow> slice res" where
  "BlockIter_Key it = rbind (BlockIter_Valid it) (\<lambda>v. rbind (rassert v) (\<lambda>_. Inr (Slice_string (it_key it))))"

definition BlockIter_Value :: "BlockIter \<Rightarrow> slice res" where
  "BlockIter_Value it = rbind (BlockIter_Valid it) (\<lambda>v. rbind (rassert v) (\<lambda>_. Inr (it_value it)))"

definition BlockIter_GetStatus :: "BlockIter \<Rightarrow> status_value" where
  "BlockIter_GetStatus it = it_status it"

definition GetRestartPoint :: "bool \<Rightarrow> u32 \<Rightarrow> BlockIter \<Rightarrow> u32 res" where
  "GetRestartPoint little index it =
     rbind (rassert (index < it_num_restarts it)) (\<lambda>_.
     DecodeFixed32 little (ptr_add (ptr_add (it_data it) (unat (it_restarts it))) (unat index * 4)))"

definition BlockIter_Compare :: "slice \<Rightarrow> slice \<Rightarrow> BlockIter \<Rightarrow> int res" where
  "BlockIter_Compare a b it = Compare (it_comparator it) a b"

text \<open>The difference of two pointers is defined inside one object only.\<close>

definition NextEntryOffset :: "BlockIter \<Rightarrow> u32 res" where
  "NextEntryOffset it =
     (if fst (Slice_Data (it_value it)) = fst (it_data it)
      then Inr (of_int (int (snd (Slice_Data (it_value it))) + int (Slice_Size (it_value it))
                        - int (snd (it_data it))))
      else Inl Undefined_arith)"

definition CorruptionError :: "BlockIter \<Rightarrow> BlockIter" where
  "CorruptionError it =
     it\<lparr>it_current := Some (it_restarts it), it_restart_index := Some (it_num_restarts it),
        it_status := Some (KCorruption, lit ''bad entry in block''), it_key := [],
        it_value := Slice_Clear (it_value it)\<rparr>"

definition SeekToRestartPoint :: "bool \<Rightarrow> u32 \<Rightarrow> BlockIter \<Rightarrow> BlockIter res" where
  "SeekToRestartPoint little index it =
     (let it1 = it\<lparr>it_key := [], it_restart_index := Some index\<rparr>
      in rbind (GetRestartPoint little index it1) (\<lambda>offset.
         Inr (it1\<lparr>it_value := Slice_ptr (ptr_add (it_data it1) (unat offset)) 0\<rparr>)))"

text \<open>The loop that moves \<open>restart_index_\<close> up to the restart block of the entry.\<close>

function advance_restart :: "bool \<Rightarrow> u32 \<Rightarrow> u32 \<Rightarrow> BlockIter \<Rightarrow> u32 res" where
  "advance_restart little current restart_index it =
     (if restart_index + 1 < it_num_restarts it
      then rbind (GetRestartPoint little (restart_index + 1) it) (\<lambda>r.
           if r < current then advance_restart little current (restart_index + 1) it
           else Inr restart_index)
      else Inr restart_index)"
  by pat_completeness auto
termination
proof (relation "measure (\<lambda>(little, current, i :: u32, it).
    if i + 1 = 0 then 2 ^ 32 + 1 else 2 ^ 32 - unat i)", goal_cases)
  case (2 little current i it r)
  have i: "unat i < 2 ^ 32" and n: "unat (it_num_restarts it) < 2 ^ 32"
    using unsigned_less [of i, where 'a = nat] unsigned_less [of "it_num_restarts it", where 'a = nat] by simp_all
  have lt: "unat (i + 1) < unat (it_num_restarts it)" using 2(1) by (simp add: word_less_nat_alt)
  show ?case
  proof (cases "i + 1 = 0")
    case False
    then have u: "unat (i + 1) = unat i + 1"
      using i by (metis unatSuc Suc_eq_plus1 add.commute)
    have "i + 1 + 1 \<noteq> 0"
    proof
      assume "i + 1 + 1 = 0"
      then have "i + 1 = - 1" by (simp only: eq_neg_iff_add_eq_0)
      also have "(- 1 :: u32) = 4294967295" by simp
      finally have "unat (i + 1) = 4294967295" by (simp only:) simp
      then show False using lt n by simp
    qed
    then show ?thesis using False u i by simp
  qed simp
qed simp

declare advance_restart.simps [simp del]

definition ParseNextKey :: "bool \<Rightarrow> BlockIter \<Rightarrow> (bool \<times> BlockIter) res" where
  "ParseNextKey little it =
     rbind (NextEntryOffset it) (\<lambda>current.
     let it1 = it\<lparr>it_current := Some current\<rparr>;
         buf = fst (it_data it);
         p = snd (it_data it) + unat current;
         limit = snd (it_data it) + unat (it_restarts it)
     in
       if p \<ge> limit
       then Inr (False, it1\<lparr>it_current := Some (it_restarts it), it_restart_index := Some (it_num_restarts it)\<rparr>)
       else
         rbind (DecodeEntry buf p limit) (\<lambda>r.
         case r of
           None \<Rightarrow> Inr (False, CorruptionError it1)
         | Some (q, shared, non_shared, value_length) \<Rightarrow>
             if length (it_key it) < unat shared then Inr (False, CorruptionError it1)
             else
               rbind (ptr_read (buf, q) (unat non_shared)) (\<lambda>delta.
               let it2 = it1\<lparr>it_key := take (unat shared) (it_key it) @ delta,
                             it_value := Slice_ptr (buf, q + unat non_shared) (unat value_length)\<rparr>
               in case it_restart_index it of
                    None \<Rightarrow> Inl Uninitialised
                  | Some ri \<Rightarrow>
                      rbind (advance_restart little current ri it2) (\<lambda>ri'.
                      Inr (True, it2\<lparr>it_restart_index := Some ri'\<rparr>)))))"

subsection \<open>Seek\<close>

text \<open>The comparison of one turn of the binary search; \<open>None\<close> is the corrupt entry.\<close>

definition seek_probe :: "bool \<Rightarrow> slice \<Rightarrow> u32 \<Rightarrow> BlockIter \<Rightarrow> int option res" where
  "seek_probe little target mid it =
     rbind (GetRestartPoint little mid it) (\<lambda>region_offset.
     let buf = fst (it_data it); base = snd (it_data it) in
     rbind (DecodeEntry buf (base + unat region_offset) (base + unat (it_restarts it))) (\<lambda>r.
     case r of
       None \<Rightarrow> Inr None
     | Some (key_ptr, shared, non_shared, value_length) \<Rightarrow>
         if shared \<noteq> 0 then Inr None
         else rbind (BlockIter_Compare (Slice_ptr (buf, key_ptr) (unat non_shared)) target it) (\<lambda>c. Inr (Some c))))"

partial_function (option) seek_search ::
    "bool \<Rightarrow> slice \<Rightarrow> BlockIter \<Rightarrow> u32 \<Rightarrow> u32 \<Rightarrow> u32 option res option" where
  "seek_search little target it left right =
     (if left < right then
        (let mid = (left + right + 1) div 2 in
         case seek_probe little target mid it of
           Inl e \<Rightarrow> Some (Inl e)
         | Inr r \<Rightarrow>
             (case r of
                None \<Rightarrow> Some (Inr None)
              | Some c \<Rightarrow>
                  if c < 0 then seek_search little target it mid right
                  else seek_search little target it left (mid - 1)))
      else Some (Inr (Some left)))"

partial_function (option) seek_scan :: "bool \<Rightarrow> slice \<Rightarrow> BlockIter \<Rightarrow> BlockIter res option" where
  "seek_scan little target it =
     (case ParseNextKey little it of
        Inl e \<Rightarrow> Some (Inl e)
      | Inr r \<Rightarrow>
          (if \<not> fst r then Some (Inr (snd r))
           else
             (case BlockIter_Compare (Slice_string (it_key (snd r))) target (snd r) of
                Inl e \<Rightarrow> Some (Inl e)
              | Inr c \<Rightarrow> if c \<ge> 0 then Some (Inr (snd r)) else seek_scan little target (snd r))))"

definition BlockIter_Seek :: "bool \<Rightarrow> slice \<Rightarrow> BlockIter \<Rightarrow> BlockIter res option" where
  "BlockIter_Seek little target it =
     (case seek_search little target it 0 (it_num_restarts it - 1) of
        None \<Rightarrow> None
      | Some r \<Rightarrow>
          (case r of
             Inl e \<Rightarrow> Some (Inl e)
           | Inr left \<Rightarrow>
               (case left of
                  None \<Rightarrow> Some (Inr (CorruptionError it))
                | Some l \<Rightarrow>
                    (case SeekToRestartPoint little l it of
                       Inl e \<Rightarrow> Some (Inl e)
                     | Inr it1 \<Rightarrow> seek_scan little target it1))))"

interpretation block_it: positioned "\<lambda>it. BlockIter_Valid it = Inr True" BlockIter_Key BlockIter_Value
  by unfold_locales (auto simp: BlockIter_Key_def BlockIter_Value_def rbind_eq_Inr)

subsection \<open>Specification: well-formed blocks\<close>

text \<open>
  The entries from an offset on, as (offset, key, value): each is decoded at its offset, its
  key takes a prefix of the key before it, and it ends where the next one begins. \<open>b0\<close> is
  where the block starts in its array and \<open>lim\<close> the offset of the restart array.
\<close>

fun block_entries ::
    "bytes \<Rightarrow> nat \<Rightarrow> nat \<Rightarrow> nat \<Rightarrow> bytes \<Rightarrow> (nat \<times> bytes \<times> bytes) list \<Rightarrow> bool" where
  "block_entries buf b0 lim off prev [] \<longleftrightarrow> off = lim"
| "block_entries buf b0 lim off prev ((o1, k, v) # es) \<longleftrightarrow>
     o1 = off \<and> off < lim \<and>
     (case DecodeEntry buf (b0 + off) (b0 + lim) of
        Inl e \<Rightarrow> False
      | Inr r \<Rightarrow>
          (case r of
             None \<Rightarrow> False
           | Some (q, shared, non_shared, value_length) \<Rightarrow>
               unat shared \<le> length prev \<and> q + unat non_shared + unat value_length \<le> b0 + lim \<and>
               k = take (unat shared) prev @ take (unat non_shared) (drop q buf) \<and>
               v = take (unat value_length) (drop (q + unat non_shared) buf) \<and>
               block_entries buf b0 lim (q + unat non_shared + unat value_length - b0) k es))"

text \<open>
  A well-formed block: its entries come in groups, the restart array has one offset for each
  group, and at these offsets keys are stored whole.
\<close>

definition block_wf ::
    "bool \<Rightarrow> bytes \<Rightarrow> nat \<Rightarrow> u32 \<Rightarrow> u32 \<Rightarrow> (nat \<times> bytes \<times> bytes) list list \<Rightarrow> bool" where
  "block_wf little buf b0 restarts num groups \<longleftrightarrow>
     length groups = unat num \<and> 0 < unat num \<and> unat num < 2 ^ 31 \<and> [] \<notin> set groups \<and>
     b0 + unat restarts + 4 * unat num \<le> length buf \<and>
     (\<forall>i < unat num.
        DecodeFixed32 little (buf, b0 + unat restarts + 4 * i) = Inr (of_nat (fst (hd (groups ! i)))) \<and>
        fst (hd (groups ! i)) < 2 ^ 32 \<and>
        block_entries buf b0 (unat restarts) (fst (hd (groups ! i))) [] (concat (drop i groups)))"

definition entry_key :: "nat \<times> bytes \<times> bytes \<Rightarrow> bytes" where
  "entry_key e = fst (snd e)"

text \<open>What \<open>Seek\<close> must leave: the iterator on the first entry of a list, or past the end.\<close>

definition standing_on :: "BlockIter \<Rightarrow> BlockIter \<Rightarrow> (nat \<times> bytes \<times> bytes) list \<Rightarrow> bool" where
  "standing_on it it' es \<longleftrightarrow>
     it_status it' = it_status it \<and>
     (case es of
        [] \<Rightarrow> BlockIter_Valid it' = Inr False
      | (o1, k, v) # es' \<Rightarrow>
          BlockIter_Valid it' = Inr True \<and> it_current it' = Some (of_nat o1) \<and>
          it_key it' = k \<and> slice_ok (it_value it') \<and> view (it_value it') = v)"

section \<open>Lemmas\<close>

subsection \<open>Decoding an entry\<close>

lemma varint32_loop_bounds:
  "GetVarint32PtrFallback_loop buf p limit shift result = Inr (Some (q, v)) \<Longrightarrow> p < q \<and> q \<le> limit"
proof (induction buf p limit shift result rule: GetVarint32PtrFallback_loop.induct)
  case (1 buf p limit shift result)
  from "1.prems" show ?case
    using "1.IH"
    by (subst (asm) GetVarint32PtrFallback_loop.simps)
      (auto simp: rbind_eq_Inr Let_def split: if_splits, (fastforce simp: Let_def)?)
qed

lemma GetVarint32Ptr_bounds:
  "GetVarint32Ptr buf p limit = Inr (Some (q, v)) \<Longrightarrow> p < q \<and> q \<le> limit"
  using varint32_loop_bounds [of buf p limit 0 0]
  by (auto simp: GetVarint32Ptr_def GetVarint32PtrFallback_def rbind_eq_Inr Let_def split: if_splits)

lemma DecodeEntry_bounds:
  assumes "DecodeEntry buf p limit = Inr (Some (q, sh, ns, vl))"
  shows "p + 3 \<le> q" and "q \<le> limit" and "\<not> (of_nat (limit - q) :: u32) < ns + vl"
proof -
  have "p + 3 \<le> q \<and> q \<le> limit \<and> DecodeEntry_check q limit sh ns vl = Some (q, sh, ns, vl)"
    using assms
    by (fastforce simp: DecodeEntry_def DecodeEntry_check_def rbind_eq_Inr Let_def
        split: if_splits option.splits dest!: GetVarint32Ptr_bounds)
  then show "p + 3 \<le> q" and "q \<le> limit" and "\<not> (of_nat (limit - q) :: u32) < ns + vl"
    by (auto simp: DecodeEntry_check_def of_nat_diff split: if_splits)
qed

text \<open>
  The check of the two lengths is done modulo \<open>2 ^ 32\<close>; the offset that follows the entry is
  the sum modulo \<open>2 ^ 32\<close> too, and so lies between the entry and the restart array.
\<close>

lemma next_offset_after:
  assumes q: "b0 + off + 3 \<le> q" "q \<le> b0 + unat (restarts :: u32)"
    and check: "\<not> (of_nat (b0 + unat restarts - q) :: u32) < ns + vl"
  shows "off < unat (of_int (int (q + unat ns) + int (unat vl) - int b0) :: u32)"
    and "unat (of_int (int (q + unat ns) + int (unat vl) - int b0) :: u32) \<le> unat restarts"
    and "unat ns + unat vl < 2 ^ 32 \<Longrightarrow>
      unat (of_int (int (q + unat ns) + int (unat vl) - int b0) :: u32) = q + unat ns + unat vl - b0"
proof -
  have r: "unat restarts < 2 ^ 32" using unsigned_less [of restarts, where 'a = nat] by simp
  have "unat (of_nat (b0 + unat restarts - q) :: u32) = b0 + unat restarts - q"
    by (rule unat_of_nat_small) (use q r in simp)
  then have le: "unat (ns + vl) \<le> b0 + unat restarts - q"
    using check by (simp add: word_less_nat_alt not_less)
  have "(of_int (int (q + unat ns) + int (unat vl) - int b0) :: u32) = of_nat (q - b0) + (ns + vl)"
    using q by (simp add: of_nat_diff)
  also have "\<dots> = of_nat (q - b0 + unat (ns + vl))" by simp
  finally have e: "unat (of_int (int (q + unat ns) + int (unat vl) - int b0) :: u32) = q - b0 + unat (ns + vl)"
    by (simp only:) (rule unat_of_nat_small, use q le r in simp)
  show "off < unat (of_int (int (q + unat ns) + int (unat vl) - int b0) :: u32)"
    and "unat (of_int (int (q + unat ns) + int (unat vl) - int b0) :: u32) \<le> unat restarts"
    unfolding e using q le by simp_all
  show "unat (of_int (int (q + unat ns) + int (unat vl) - int b0) :: u32) = q + unat ns + unat vl - b0"
    if "unat ns + unat vl < 2 ^ 32"
    unfolding e using q that by (simp add: unat_word_ariths)
qed

subsection \<open>The iterator's frame\<close>

definition same_block :: "BlockIter \<Rightarrow> BlockIter \<Rightarrow> bool" where
  "same_block it it' \<longleftrightarrow>
     it_comparator it' = it_comparator it \<and> it_data it' = it_data it \<and>
     it_restarts it' = it_restarts it \<and> it_num_restarts it' = it_num_restarts it"

lemma same_block_trans: "same_block a b \<Longrightarrow> same_block b c \<Longrightarrow> same_block a c"
  by (simp add: same_block_def)

lemma ParseNextKey_progress:
  assumes "ParseNextKey little it = Inr (True, it')"
  shows "same_block it it' \<and> it_status it' = it_status it \<and>
    (\<exists>c c'. NextEntryOffset it = Inr c \<and> NextEntryOffset it' = Inr c' \<and>
       unat c < unat (it_restarts it) \<and> unat c < unat c')"
proof -
  let ?buf = "fst (it_data it)" and ?b0 = "snd (it_data it)"
  obtain c q sh ns vl delta ri ri' where c: "NextEntryOffset it = Inr c"
    and lt: "unat c < unat (it_restarts it)"
    and d: "DecodeEntry ?buf (?b0 + unat c) (?b0 + unat (it_restarts it)) = Inr (Some (q, sh, ns, vl))"
    and it': "it' = it\<lparr>it_current := Some c, it_key := take (unat sh) (it_key it) @ delta,
        it_value := Slice_ptr (?buf, q + unat ns) (unat vl), it_restart_index := Some ri'\<rparr>"
    using assms
    by (fastforce simp: ParseNextKey_def rbind_eq_Inr Let_def split: if_splits option.splits)
  note b = DecodeEntry_bounds [OF d]
  have "NextEntryOffset it' = Inr (of_int (int (q + unat ns) + int (unat vl) - int ?b0))"
    by (simp add: NextEntryOffset_def it' Slice_ptr_def Slice_Data_def Slice_Size_def)
  then show ?thesis
    using c lt next_offset_after(1) [OF b] by (auto simp: it' same_block_def)
qed

subsection \<open>The loops return\<close>

lemma mid_bounds:
  assumes "left < (right :: u32)" and "unat right < 2 ^ 31"
  defines "mid \<equiv> (left + right + 1) div 2"
  shows "unat left < unat mid" and "unat mid \<le> unat right" and "unat (mid - 1) = unat mid - 1"
proof -
  have lr: "unat left < unat right" using assms(1) by (simp add: word_less_nat_alt)
  then have m: "unat mid = (unat left + unat right + 1) div 2"
    using assms(2) by (simp add: mid_def unat_div unat_word_ariths)
  then show "unat left < unat mid" "unat mid \<le> unat right" using lr by simp_all
  then show "unat (mid - 1) = unat mid - 1" by (simp add: unat_sub_if')
qed

lemma seek_search_returns:
  assumes "unat right < 2 ^ 31"
  shows "\<exists>r. seek_search little target it left right = Some r \<and>
    (\<forall>l. r = Inr (Some l) \<longrightarrow> unat l \<le> max (unat left) (unat right))"
  using assms
proof (induction "unat right - unat left" arbitrary: left right rule: less_induct)
  case less
  show ?case
  proof (cases "left < right")
    case True
    let ?mid = "(left + right + 1) div 2"
    note m = mid_bounds [OF True less.prems]
    have up: "\<exists>r. seek_search little target it ?mid right = Some r \<and>
        (\<forall>l. r = Inr (Some l) \<longrightarrow> unat l \<le> max (unat ?mid) (unat right))"
      using m less.prems by (intro less.hyps) simp_all
    have down: "\<exists>r. seek_search little target it left (?mid - 1) = Some r \<and>
        (\<forall>l. r = Inr (Some l) \<longrightarrow> unat l \<le> max (unat left) (unat (?mid - 1)))"
      using m less.prems by (intro less.hyps) simp_all
    show ?thesis
      using True m up down
      by (subst seek_search.simps) (fastforce simp: Let_def split: sum.split option.split)
  next
    case False
    then show ?thesis by (subst seek_search.simps) simp
  qed
qed

lemma seek_scan_returns:
  "\<exists>r. seek_scan little target it = Some r"
proof (cases "NextEntryOffset it")
  case (Inl e)
  then show ?thesis by (subst seek_scan.simps) (simp add: ParseNextKey_def)
next
  case (Inr c)
  then show ?thesis
  proof (induction "unat (it_restarts it) - unat c" arbitrary: it c rule: less_induct)
    case less
    show ?case
    proof (cases "ParseNextKey little it")
      case (Inl e)
      then show ?thesis by (subst seek_scan.simps) simp
    next
      case (Inr r)
      obtain b it' where r: "r = (b, it')" by (cases r)
      show ?thesis
      proof (cases b)
        case True
        then obtain c' where c': "NextEntryOffset it' = Inr c'" "unat c < unat (it_restarts it)" "unat c < unat c'"
          "it_restarts it' = it_restarts it"
          using ParseNextKey_progress [of little it it'] Inr r less.prems by (auto simp: same_block_def)
        have "\<exists>r. seek_scan little target it' = Some r"
          using c' by (intro less.hyps [OF _ c'(1)]) simp
        then show ?thesis
          using Inr r by (subst seek_scan.simps) (auto split: sum.split)
      next
        case False
        then show ?thesis using Inr r by (subst seek_scan.simps) simp
      qed
    qed
  qed
qed

subsection \<open>Seek on a well-formed block\<close>

lemma GetRestartPoint_wf:
  assumes wf: "block_wf little buf b0 restarts num groups" and i: "index < num"
    and it: "it_data it = (buf, b0)" "it_restarts it = restarts" "it_num_restarts it = num"
  shows "GetRestartPoint little index it = Inr (of_nat (fst (hd (groups ! unat index))))"
proof -
  have "unat index < unat num" using i by (simp add: word_less_nat_alt)
  then show ?thesis
    using wf it i by (simp add: GetRestartPoint_def block_wf_def ptr_add_def mult.commute)
qed

lemma advance_restart_wf:
  "\<lbrakk>block_wf little buf b0 restarts num groups; it_data it = (buf, b0);
    it_restarts it = restarts; it_num_restarts it = num\<rbrakk> \<Longrightarrow>
   \<exists>ri'. advance_restart little current ri it = Inr ri'"
proof (induction little current ri it rule: advance_restart.induct)
  case (1 little current ri it)
  show ?case
  proof (cases "ri + 1 < it_num_restarts it")
    case True
    let ?r = "of_nat (fst (hd (groups ! unat (ri + 1)))) :: u32"
    have r: "GetRestartPoint little (ri + 1) it = Inr ?r"
      using GetRestartPoint_wf [OF "1.prems"(1) _ "1.prems"(2-4), of "ri + 1"] True "1.prems"(4) by simp
    show ?thesis
    proof (cases "?r < current")
      case less: True
      have "\<exists>ri'. advance_restart little current (ri + 1) it = Inr ri'"
        by (rule "1.IH" [OF True r less "1.prems"])
      then show ?thesis using True r less by (subst advance_restart.simps) simp
    next
      case False
      then show ?thesis using True r by (subst advance_restart.simps) simp
    qed
  next
    case False
    then show ?thesis by (subst advance_restart.simps) simp
  qed
qed

text \<open>The value of the iterator ends at an offset.\<close>

definition at_offset :: "BlockIter \<Rightarrow> nat \<Rightarrow> bool" where
  "at_offset it off \<longleftrightarrow>
     fst (Slice_Data (it_value it)) = fst (it_data it) \<and>
     snd (Slice_Data (it_value it)) + Slice_Size (it_value it) = snd (it_data it) + off"

lemma NextEntryOffset_at: "at_offset it off \<Longrightarrow> NextEntryOffset it = Inr (of_nat off)"
proof -
  assume a: "at_offset it off"
  then have "int (snd (Slice_Data (it_value it))) + int (Slice_Size (it_value it)) - int (snd (it_data it)) = int off"
    by (simp add: at_offset_def)
  then show ?thesis using a by (simp add: NextEntryOffset_def at_offset_def)
qed

lemma ParseNextKey_end:
  assumes "at_offset it (unat (it_restarts it))"
  shows "ParseNextKey little it =
    Inr (False, it\<lparr>it_current := Some (it_restarts it), it_restart_index := Some (it_num_restarts it)\<rparr>)"
  using NextEntryOffset_at [OF assms] by (simp add: ParseNextKey_def)

lemma ParseNextKey_entry:
  assumes wf: "block_wf little buf b0 restarts num groups"
    and it: "it_data it = (buf, b0)" "it_restarts it = restarts" "it_num_restarts it = num"
    and ri: "it_restart_index it = Some ri" and off: "at_offset it off"
    and entries: "block_entries buf b0 (unat restarts) off (it_key it) ((o1, k, v) # es)"
  shows "\<exists>it' off'. ParseNextKey little it = Inr (True, it') \<and> same_block it it' \<and>
    it_status it' = it_status it \<and> it_current it' = Some (of_nat o1) \<and> of_nat o1 < restarts \<and> it_key it' = k \<and>
    slice_ok (it_value it') \<and> view (it_value it') = v \<and> it_restart_index it' \<noteq> None \<and>
    at_offset it' off' \<and> block_entries buf b0 (unat restarts) off' k es"
proof -
  obtain q sh ns vl where d: "DecodeEntry buf (b0 + off) (b0 + unat restarts) = Inr (Some (q, sh, ns, vl))"
    and e: "o1 = off" "off < unat restarts" "unat sh \<le> length (it_key it)"
      "q + unat ns + unat vl \<le> b0 + unat restarts"
      "k = take (unat sh) (it_key it) @ take (unat ns) (drop q buf)"
      "v = take (unat vl) (drop (q + unat ns) buf)"
      "block_entries buf b0 (unat restarts) (q + unat ns + unat vl - b0) k es"
    using entries by (auto split: sum.splits option.splits)
  have u: "unat (of_nat off :: u32) = off"
    by (rule unat_of_nat_small) (use e(2) unsigned_less [of restarts, where 'a = nat] in simp)
  have len: "b0 + unat restarts \<le> length buf" using wf by (simp add: block_wf_def)
  have read: "ptr_read (buf, q) (unat ns) = Inr (take (unat ns) (drop q buf))"
    using e(4) len by (simp add: ptr_read_def)
  let ?it2 = "it\<lparr>it_current := Some (of_nat off), it_key := k, it_value := Slice_ptr (buf, q + unat ns) (unat vl)\<rparr>"
  obtain ri' where ri': "advance_restart little (of_nat off) ri ?it2 = Inr ri'"
    using advance_restart_wf [OF wf, of ?it2] it by auto
  let ?it3 = "?it2\<lparr>it_restart_index := Some ri'\<rparr>"
  have "ParseNextKey little it = Inr (True, ?it3)"
    using NextEntryOffset_at [OF off] it ri d e read ri' u by (simp add: ParseNextKey_def)
  moreover have "at_offset ?it3 (q + unat ns + unat vl - b0)"
    using DecodeEntry_bounds(1) [OF d] it by (simp add: at_offset_def Slice_ptr_def Slice_Data_def Slice_Size_def)
  moreover have "slice_ok (it_value ?it3)" "view (it_value ?it3) = v"
    using e(4,6) len by (simp_all add: slice_ok_def view_def Slice_ptr_def)
  moreover have "of_nat o1 < restarts" using e(1,2) u by (simp add: word_less_nat_alt)
  ultimately show ?thesis using e(1,7) by (auto simp: same_block_def)
qed

lemma concat_drop_hd:
  assumes "i < length groups" and "[] \<notin> set groups"
  shows "\<exists>es. concat (drop i groups) = hd (groups ! i) # es"
proof -
  have "groups ! i \<noteq> []" using assms by (metis nth_mem)
  then show ?thesis
    using assms(1) by (simp add: Cons_nth_drop_Suc [symmetric]) (metis append_Cons list.collapse)
qed

context comparator
begin

lemma seek_scan_wf:
  assumes wf: "block_wf little buf b0 restarts num groups" and target: "slice_ok target" "keys (view target)"
  shows "\<lbrakk>it_comparator it = cmp; it_data it = (buf, b0); it_restarts it = restarts; it_num_restarts it = num;
      it_restart_index it \<noteq> None; at_offset it off; block_entries buf b0 (unat restarts) off (it_key it) es;
      \<forall>e \<in> set es. keys (entry_key e)\<rbrakk> \<Longrightarrow>
    \<exists>it'. seek_scan little target it = Some (Inr it') \<and> same_block it it' \<and>
      standing_on it it' (dropWhile (\<lambda>e. ord (entry_key e) (view target) < 0) es)"
proof (induction es arbitrary: it off)
  case Nil
  then show ?case
    using ParseNextKey_end [of it little]
    by (subst seek_scan.simps) (simp add: same_block_def standing_on_def BlockIter_Valid_def)
next
  case (Cons e es)
  obtain o1 k v where e: "e = (o1, k, v)" by (cases e)
  obtain it' off' where step: "ParseNextKey little it = Inr (True, it')" "same_block it it'"
    "it_status it' = it_status it" "it_current it' = Some (of_nat o1)" "of_nat o1 < restarts" "it_key it' = k"
    "slice_ok (it_value it')" "view (it_value it') = v" "it_restart_index it' \<noteq> None"
    "at_offset it' off'" "block_entries buf b0 (unat restarts) off' k es"
    using ParseNextKey_entry [OF wf, of it _ off o1 k v es] Cons.prems e by auto
  have k: "keys k" using Cons.prems e by (simp add: entry_key_def)
  have frame: "it_comparator it' = cmp" "it_data it' = (buf, b0)" "it_restarts it' = restarts" "it_num_restarts it' = num"
    using step(2) Cons.prems by (simp_all add: same_block_def)
  have c: "BlockIter_Compare (Slice_string (it_key it')) target it' = Inr (ord k (view target))"
    using Compare_ord [of "Slice_string k" target] target k frame step(6) by (simp add: BlockIter_Compare_def)
  show ?case
  proof (cases "ord k (view target) < 0")
    case True
    have "\<exists>it''. seek_scan little target it' = Some (Inr it'') \<and> same_block it' it'' \<and>
        standing_on it' it'' (dropWhile (\<lambda>e. ord (entry_key e) (view target) < 0) es)"
      using Cons.prems(8) step(6,9-11) frame by (intro Cons.IH [of it' off']) auto
    then show ?thesis
      using True step c same_block_trans [OF step(2)]
      by (subst seek_scan.simps) (auto simp: e entry_key_def standing_on_def)
  next
    case False
    then show ?thesis
      using step c frame
      by (subst seek_scan.simps) (simp add: e entry_key_def standing_on_def BlockIter_Valid_def)
  qed
qed

definition first_key :: "(nat \<times> bytes \<times> bytes) list list \<Rightarrow> nat \<Rightarrow> bytes" where
  "first_key groups i = entry_key (hd (groups ! i))"

lemma seek_probe_wf:
  assumes wf: "block_wf little buf b0 restarts num groups"
    and it: "it_comparator it = cmp" "it_data it = (buf, b0)" "it_restarts it = restarts" "it_num_restarts it = num"
    and target: "slice_ok target" "keys (view target)"
    and keys: "\<forall>e \<in> set (concat groups). keys (entry_key e)" and mid: "mid < num"
  shows "seek_probe little target mid it = Inr (Some (ord (first_key groups (unat mid)) (view target)))"
proof -
  let ?i = "unat mid"
  let ?off = "fst (hd (groups ! ?i))"
  have i: "?i < unat num" "?i < length groups" using mid wf by (simp_all add: word_less_nat_alt block_wf_def)
  obtain es where es: "concat (drop ?i groups) = hd (groups ! ?i) # es"
    using concat_drop_hd [OF i(2)] wf by (auto simp: block_wf_def)
  obtain o1 k v where h: "hd (groups ! ?i) = (o1, k, v)" by (cases "hd (groups ! ?i)")
  have "block_entries buf b0 (unat restarts) o1 [] ((o1, k, v) # es)"
    using wf i es h by (auto simp: block_wf_def)
  then obtain q sh ns vl where d: "DecodeEntry buf (b0 + o1) (b0 + unat restarts) = Inr (Some (q, sh, ns, vl))"
    and e: "unat sh = 0" "q + unat ns + unat vl \<le> b0 + unat restarts" "k = take (unat ns) (drop q buf)"
    by (auto split: sum.splits option.splits)
  have "o1 < 2 ^ 32" using wf i h by (auto simp: block_wf_def)
  then have u: "unat (of_nat o1 :: u32) = o1" by (intro unat_of_nat_small) simp
  have rp: "GetRestartPoint little mid it = Inr (of_nat o1)"
    using GetRestartPoint_wf [OF wf mid it(2-4)] h by simp
  have len: "b0 + unat restarts \<le> length buf" using wf by (simp add: block_wf_def)
  then have sl: "slice_ok (Slice_ptr (buf, q) (unat ns))" "view (Slice_ptr (buf, q) (unat ns)) = k"
    using e by (simp_all add: slice_ok_def view_def Slice_ptr_def)
  have "hd (groups ! ?i) \<in> set (concat groups)"
    using es by (metis append_take_drop_id concat_append in_set_conv_decomp)
  then have "keys k" using keys [rule_format, of "hd (groups ! ?i)"] h by (simp add: entry_key_def)
  then have "Compare cmp (Slice_ptr (buf, q) (unat ns)) target = Inr (ord k (view target))"
    using Compare_ord [OF sl(1) target(1)] target(2) sl(2) by simp
  moreover have "sh = 0" using e(1) by (simp add: unat_eq_0)
  ultimately show ?thesis
    using rp d u it by (simp add: seek_probe_def BlockIter_Compare_def first_key_def entry_key_def h)
qed

lemma seek_search_wf:
  assumes wf: "block_wf little buf b0 restarts num groups"
    and it: "it_comparator it = cmp" "it_data it = (buf, b0)" "it_restarts it = restarts" "it_num_restarts it = num"
    and target: "slice_ok target" "keys (view target)"
    and keys: "\<forall>e \<in> set (concat groups). keys (entry_key e)"
  shows "\<lbrakk>unat right < unat num; unat left < unat num\<rbrakk> \<Longrightarrow>
    \<exists>l. seek_search little target it left right = Some (Inr (Some l)) \<and> unat l < unat num \<and>
      (l = left \<or> ord (first_key groups (unat l)) (view target) < 0)"
proof (induction "unat right - unat left" arbitrary: left right rule: less_induct)
  case less
  show ?case
  proof (cases "left < right")
    case True
    let ?mid = "(left + right + 1) div 2"
    have "unat num < 2 ^ 31" using wf by (simp add: block_wf_def)
    then have "unat right < 2 ^ 31" using less.prems by simp
    note m = mid_bounds [OF True this]
    have "?mid < num" using m(2) less.prems by (simp add: word_less_nat_alt)
    note probe = seek_probe_wf [OF wf it target keys this]
    let ?c = "ord (first_key groups (unat ?mid)) (view target)"
    have up: "\<exists>l. seek_search little target it ?mid right = Some (Inr (Some l)) \<and> unat l < unat num \<and>
        (l = ?mid \<or> ord (first_key groups (unat l)) (view target) < 0)"
      using m less.prems by (intro less.hyps) simp_all
    have down: "\<exists>l. seek_search little target it left (?mid - 1) = Some (Inr (Some l)) \<and> unat l < unat num \<and>
        (l = left \<or> ord (first_key groups (unat l)) (view target) < 0)"
      using m less.prems by (intro less.hyps) simp_all
    show ?thesis
    proof (cases "?c < 0")
      case lt: True
      then show ?thesis
        using True probe up by (subst seek_search.simps) (auto simp: Let_def)
    next
      case False
      then show ?thesis
        using True probe down by (subst seek_search.simps) (auto simp: Let_def)
    qed
  next
    case False
    then show ?thesis using less.prems by (subst seek_search.simps) simp
  qed
qed

lemma dropWhile_skip_groups:
  assumes sorted: "sorted_wrt (\<lambda>x y. ord (entry_key x) (entry_key y) \<le> 0) (concat groups)"
    and keys: "\<forall>e \<in> set (concat groups). keys (entry_key e)" "keys t"
    and l: "l < length groups" "[] \<notin> set groups" and first: "l = 0 \<or> ord (first_key groups l) t < 0"
  shows "dropWhile (\<lambda>e. ord (entry_key e) t < 0) (concat groups) =
    dropWhile (\<lambda>e. ord (entry_key e) t < 0) (concat (drop l groups))"
proof -
  obtain es where es: "concat (drop l groups) = hd (groups ! l) # es"
    using concat_drop_hd [OF l] by blast
  have split: "concat groups = concat (take l groups) @ hd (groups ! l) # es"
    using es by (metis append_take_drop_id concat_append)
  have "ord (entry_key e) t < 0" if e: "e \<in> set (concat (take l groups))" for e
  proof -
    have "l \<noteq> 0" using e by (cases l) simp_all
    then have "ord (first_key groups l) t < 0" using first by simp
    moreover have "ord (entry_key e) (first_key groups l) \<le> 0"
      using sorted e unfolding split first_key_def by (auto simp: sorted_wrt_append)
    moreover have "keys (entry_key e)" "keys (first_key groups l)"
      using keys(1) e unfolding split first_key_def by simp_all
    ultimately show ?thesis using ord_le_less_trans keys(2) by blast
  qed
  then have "dropWhile (\<lambda>e. ord (entry_key e) t < 0) (concat (take l groups) @ hd (groups ! l) # es) =
      dropWhile (\<lambda>e. ord (entry_key e) t < 0) (hd (groups ! l) # es)"
    by (intro dropWhile_append2) simp
  then show ?thesis using es split by simp
qed

lemma BlockIter_Seek_wf:
  assumes wf: "block_wf little buf b0 (it_restarts it) (it_num_restarts it) groups"
    and it: "it_comparator it = cmp" "it_data it = (buf, b0)"
    and target: "slice_ok target" "keys (view target)"
    and keys: "\<forall>e \<in> set (concat groups). keys (entry_key e)"
    and sorted: "sorted_wrt (\<lambda>x y. ord (entry_key x) (entry_key y) \<le> 0) (concat groups)"
  shows "\<exists>it'. BlockIter_Seek little target it = Some (Inr it') \<and>
    standing_on it it' (dropWhile (\<lambda>e. ord (entry_key e) (view target) < 0) (concat groups))"
proof -
  have num: "0 < unat (it_num_restarts it)" "unat (it_num_restarts it) < 2 ^ 31" "length groups = unat (it_num_restarts it)"
    "[] \<notin> set groups"
    using wf by (simp_all add: block_wf_def)
  have "unat (it_num_restarts it - 1) < unat (it_num_restarts it)"
    using num(1) by (simp add: unat_sub_if')
  then obtain l where l: "seek_search little target it 0 (it_num_restarts it - 1) = Some (Inr (Some l))"
    "unat l < unat (it_num_restarts it)" "l = 0 \<or> ord (first_key groups (unat l)) (view target) < 0"
    using seek_search_wf [OF wf it refl refl target keys, of "it_num_restarts it - 1" 0] num(1) by auto
  let ?off = "fst (hd (groups ! unat l))"
  let ?it1 = "it\<lparr>it_key := [], it_restart_index := Some l\<rparr>"
  let ?it2 = "?it1\<lparr>it_value := Slice_ptr (buf, b0 + ?off) 0\<rparr>"
  have off: "?off < 2 ^ 32" "block_entries buf b0 (unat (it_restarts it)) ?off [] (concat (drop (unat l) groups))"
    using wf l(2) by (auto simp: block_wf_def)
  have "GetRestartPoint little l ?it1 = Inr (of_nat ?off)"
    using GetRestartPoint_wf [OF wf, of l ?it1] it l(2) by (simp add: word_less_nat_alt)
  moreover have "unat (of_nat ?off :: u32) = ?off" by (rule unat_of_nat_small) (use off(1) in simp)
  ultimately have seek: "SeekToRestartPoint little l it = Inr ?it2"
    using it by (simp add: SeekToRestartPoint_def Let_def ptr_add_def)
  have sub: "\<forall>e \<in> set (concat (drop (unat l) groups)). keys (entry_key e)"
    using keys in_set_dropD by fastforce
  have "\<exists>it'. seek_scan little target ?it2 = Some (Inr it') \<and> same_block ?it2 it' \<and>
      standing_on ?it2 it' (dropWhile (\<lambda>e. ord (entry_key e) (view target) < 0) (concat (drop (unat l) groups)))"
    using it off sub
    by (intro seek_scan_wf [OF wf target, of ?it2 ?off]) (simp_all add: at_offset_def Slice_ptr_def Slice_Data_def Slice_Size_def)
  moreover have "dropWhile (\<lambda>e. ord (entry_key e) (view target) < 0) (concat (drop (unat l) groups)) =
      dropWhile (\<lambda>e. ord (entry_key e) (view target) < 0) (concat groups)"
    using dropWhile_skip_groups [OF sorted keys target(2) _ num(4)] l(2,3) num(3) by (metis unat_0)
  ultimately show ?thesis
    using l(1) seek by (auto simp: BlockIter_Seek_def standing_on_def)
qed

end

subsection \<open>The trailer\<close>

lemma Block_new_cases:
  assumes ok: "slice_ok (bc_data c)" and small: "Slice_Size (bc_data c) < 2 ^ 32"
  shows "\<exists>b. Block_new little c = Inr b \<and>
    (b_size b = 0 \<or>
     (\<exists>r n. NumRestarts little b = Inr n \<and> restart_offset b = Some r \<and>
        unat (b_size b) = Slice_Size (bc_data c) \<and> b_data b = Slice_Data (bc_data c) \<and>
        unat r + 4 * (unat n + 1) = Slice_Size (bc_data c)))"
proof -
  let ?n = "Slice_Size (bc_data c)" and ?p = "Slice_Data (bc_data c)"
  let ?b = "\<lparr>b_data = ?p, b_size = of_nat ?n, restart_offset = None, owned = heap_allocated c\<rparr>"
  have size: "unat (of_nat ?n :: u64) = ?n" by (rule unat_of_nat_small) (use small in simp)
  show ?thesis
  proof (cases "?n < 4")
    case True
    then have "(of_nat ?n :: u64) < 4" using size by (simp add: word_less_nat_alt)
    then show ?thesis by (simp add: Block_new_def Let_def)
  next
    case False
    then have big: "\<not> (of_nat ?n :: u64) < 4" using size by (simp add: word_less_nat_alt)
    have sub: "unat (of_nat ?n - 4 :: u64) = ?n - 4"
      using False size by (simp add: unat_sub_if')
    have "snd ?p + ?n \<le> length (fst ?p)" using ok by (simp add: slice_ok_def Slice_Data_def Slice_Size_def)
    then have "\<exists>v. DecodeFixed32 little (ptr_add ?p (?n - 4)) = Inr v"
      using False by (simp add: DecodeFixed32_def ptr_read_def ptr_add_def)
    then obtain n where n: "NumRestarts little ?b = Inr n"
      using big by (auto simp: NumRestarts_def sub not_less)
    have max: "unat ((of_nat ?n - 4) div 4 :: u64) = (?n - 4) div 4"
      by (simp add: unat_div sub)
    show ?thesis
    proof (cases "(ucast n :: u64) > (of_nat ?n - 4) div 4")
      case True
      then show ?thesis using big n by (simp add: Block_new_def Let_def)
    next
      case False
      then have le: "unat n \<le> (?n - 4) div 4"
        by (simp add: word_less_nat_alt not_less max unat_ucast_up)
      then have fit: "4 * (unat n + 1) \<le> ?n" using \<open>\<not> ?n < 4\<close> by simp
      have n1: "unat (1 + n) = unat n + 1"
        using fit small by (simp add: unat_word_ariths)
      have m: "unat (ucast (1 + n) * 4 :: u64) = 4 * (unat n + 1)"
        using fit small n1 by (simp add: unat_word_ariths unat_ucast_up)
      have r64: "unat (of_nat ?n - ucast (1 + n) * 4 :: u64) = ?n - 4 * (unat n + 1)"
        using fit size m by (simp add: unat_sub_if')
      have r: "unat (ucast (of_nat ?n - ucast (1 + n) * 4 :: u64) :: u32) = ?n - 4 * (unat n + 1)"
        using small by (simp only: unsigned_ucast_eq r64) (simp add: take_bit_nat_eq_self)
      let ?b' = "?b\<lparr>restart_offset := Some (ucast (of_nat ?n - ucast (1 + n) * 4 :: u64))\<rparr>"
      have "Block_new little c = Inr ?b'" using big n False by (simp add: Block_new_def Let_def)
      moreover have "NumRestarts little ?b' = Inr n" using n by (simp add: NumRestarts_def)
      ultimately show ?thesis using r fit size by auto
    qed
  qed
qed

section \<open>Properties\<close>

text \<open>
  C7: on a well-formed block whose keys are in order, with any comparator that keeps the
  interface's contract, \<open>Seek\<close> returns and stands on the first entry whose key is not below
  the target, with that entry's key and value; if there is none it is past the end. No read
  leaves the block and the status is unchanged.
\<close>

theorem BlockIter_Seek_correct:
  assumes "comparator (it_comparator it) keys ord"
    and "block_wf little buf b0 (it_restarts it) (it_num_restarts it) groups"
    and "it_data it = (buf, b0)"
    and "sorted_wrt (\<lambda>x y. ord (entry_key x) (entry_key y) \<le> 0) (concat groups)"
    and "list_all (\<lambda>e. keys (entry_key e)) (concat groups)"
    and "slice_ok target" and "keys (view target)"
  shows "\<exists>it'. BlockIter_Seek little target it = Some (Inr it') \<and>
    standing_on it it' (dropWhile (\<lambda>e. ord (entry_key e) (view target) < 0) (concat groups))"
  using comparator.BlockIter_Seek_wf [OF assms(1,2) refl assms(3,6,7) _ assms(4)] assms(5)
  by (simp add: list_all_iff)

text \<open>
  A block of three entries, "a" and "ab" (which shares "a") after the first restart point and
  "c" after the second.
\<close>

definition example_block :: bytes where
  "example_block =
     [0, 1, 1, 97, 49,  1, 1, 1, 98, 50,  0, 1, 1, 99, 51,  0, 0, 0, 0,  10, 0, 0, 0,  2, 0, 0, 0]"

definition example_groups :: "(nat \<times> bytes \<times> bytes) list list" where
  "example_groups = [[(0, [97], [49]), (5, [97, 98], [50])], [(10, [99], [51])]]"

definition example_iter :: BlockIter where
  "example_iter = \<lparr>it_comparator = BytewiseComparatorImpl, it_data = (example_block, 0), it_restarts = 15,
     it_num_restarts = 2, it_current = None, it_restart_index = None, it_key = [],
     it_value = Slice_default, it_status = None\<rparr>"

lemma example_block_wf: "block_wf True example_block 0 15 2 example_groups"
proof -
  have "\<forall>i < 2. DecodeFixed32 True (example_block, 15 + 4 * i) = Inr (of_nat (fst (hd (example_groups ! i)))) \<and>
      fst (hd (example_groups ! i)) < 2 ^ 32 \<and>
      block_entries example_block 0 15 (fst (hd (example_groups ! i))) [] (concat (drop i example_groups))"
    by (simp add: less_2_cases_iff all_conj_distrib [symmetric] example_groups_def example_block_def
        DecodeFixed32_def ptr_read_def mem_value_def DecodeEntry_def DecodeEntry_check_def Let_def)
  then show ?thesis by (simp add: block_wf_def example_groups_def example_block_def)
qed

theorem BlockIter_Seek_correct_witness:
  "\<exists>it'. BlockIter_Seek True (Slice_string [98]) example_iter = Some (Inr it') \<and>
    it_current it' = Some 10 \<and> it_key it' = [99] \<and> view (it_value it') = [51]"
proof -
  have "comparator (it_comparator example_iter) (\<lambda>_. True) cmp_bytes"
    by (simp add: example_iter_def bytewise.comparator_axioms)
  moreover have "sorted_wrt (\<lambda>x y. cmp_bytes (entry_key x) (entry_key y) \<le> 0) (concat example_groups)"
    by (simp add: example_groups_def entry_key_def cmp_bytes_def)
  ultimately have "\<exists>it'. BlockIter_Seek True (Slice_string [98]) example_iter = Some (Inr it') \<and>
    standing_on example_iter it' (dropWhile (\<lambda>e. cmp_bytes (entry_key e) (view (Slice_string [98])) < 0) (concat example_groups))"
    using example_block_wf
    by (intro BlockIter_Seek_correct) (simp_all add: example_iter_def list_all_iff)
  then show ?thesis
    by (auto simp: standing_on_def example_groups_def entry_key_def cmp_bytes_def)
qed

text \<open>
  C25: \<open>Seek\<close> returns on every block that has a restart point and less than \<open>2 ^ 31\<close> of them, which
  the constructor makes sure of for a block shorter than 8 GiB, however corrupt its bytes are: both of its unbounded loops end. (With more restart points the
  sum of two indices wraps around.)
\<close>

theorem BlockIter_Seek_returns:
  assumes "unat (it_num_restarts it) < 2 ^ 31" and "0 < unat (it_num_restarts it)"
  shows "\<exists>r. BlockIter_Seek little target it = Some r"
proof -
  have "unat (it_num_restarts it - 1) < 2 ^ 31"
    using assms by (simp add: unat_sub_if')
  then obtain r where r: "seek_search little target it 0 (it_num_restarts it - 1) = Some r"
    using seek_search_returns by blast
  show ?thesis
    using r seek_scan_returns
    by (auto simp: BlockIter_Seek_def split: sum.split option.split)
qed

theorem BlockIter_Seek_returns_witness:
  "\<exists>r. BlockIter_Seek True (Slice_string [98]) (example_iter\<lparr>it_data := (replicate 30 255, 0)\<rparr>) = Some r"
  by (rule BlockIter_Seek_returns) (simp_all add: example_iter_def)

text \<open>
  C38: an accepted entry lies between its start and the limit: the key delta begins at least
  three bytes after the entry and not past the limit, and if the two lengths do not wrap in 32
  bits, the key delta and the value end within the limit.
\<close>

theorem DecodeEntry_within:
  assumes "DecodeEntry buf p limit = Inr (Some (q, shared, non_shared, value_length))"
    and "limit - p < 2 ^ 32" and "unat non_shared + unat value_length < 2 ^ 32"
  shows "p + 3 \<le> q \<and> q \<le> limit \<and> q + unat non_shared + unat value_length \<le> limit"
proof -
  note b = DecodeEntry_bounds [OF assms(1)]
  have "unat (of_nat (limit - q) :: u32) = limit - q"
    by (rule unat_of_nat_small) (use b(1) assms(2) in simp)
  moreover have "unat (non_shared + value_length) = unat non_shared + unat value_length"
    using assms(3) by (simp add: unat_word_ariths)
  ultimately show ?thesis using b by (simp add: word_less_nat_alt)
qed

theorem DecodeEntry_within_witness:
  "DecodeEntry example_block 5 15 = Inr (Some (8, 1, 1, 1)) \<and> (8 :: nat) + unat (1 :: u32) + unat (1 :: u32) \<le> 15"
proof -
  have d: "DecodeEntry example_block 5 15 = Inr (Some (8, 1, 1, 1))"
    by (simp add: DecodeEntry_def DecodeEntry_check_def example_block_def Let_def)
  show ?thesis using DecodeEntry_within [OF d] d by simp
qed

text \<open>
  Without that condition the check accepts lengths whose sum wraps: here a key delta of
  \<open>2 ^ 32 - 1\<close> bytes, which \<open>ParseNextKey\<close> then reads past the end of the block.
\<close>

lemma DecodeEntry_accepts_wrapped:
  "DecodeEntry [0, 255, 255, 255, 255, 15, 1, 0] 0 8 = Inr (Some (7, 0, 4294967295, 1))"
  by (simp add: DecodeEntry_def DecodeEntry_check_def GetVarint32Ptr_def GetVarint32PtrFallback_def
      GetVarint32PtrFallback_loop.simps Let_def word_less_nat_alt)

lemma ParseNextKey_reads_past_end:
  "ParseNextKey True (example_iter\<lparr>it_data := ([0, 255, 255, 255, 255, 15, 1, 0], 0), it_restarts := 8,
      it_restart_index := Some 0, it_value := Slice_ptr ([0, 255, 255, 255, 255, 15, 1, 0], 0) 0\<rparr>)
     = Inl Out_of_bounds"
  by (simp add: ParseNextKey_def NextEntryOffset_def Slice_Data_def Slice_Size_def Slice_ptr_def
      DecodeEntry_accepts_wrapped ptr_read_def mem_read_def example_iter_def Let_def)

text \<open>
  for any contents of less than \<open>2 ^ 32\<close> bytes the constructor reads nothing outside
  them, and either marks the block as bad (size 0) or computes the offset at which the restart
  array of \<open>NumRestarts()\<close> entries and the count exactly fill the block.
\<close>

theorem Block_new_trailer:
  assumes "slice_ok (bc_data c)" and "Slice_Size (bc_data c) < 2 ^ 32"
  shows "\<exists>b. Block_new little c = Inr b \<and>
    (b_size b = 0 \<or>
     (\<exists>r n. NumRestarts little b = Inr n \<and> restart_offset b = Some r \<and>
        unat (Block_Size b) = Slice_Size (bc_data c) \<and> unat r + 4 * (unat n + 1) = Slice_Size (bc_data c)))"
  using Block_new_cases [OF assms, of little] by (auto simp: Block_Size_def)

theorem Block_new_trailer_witness:
  "\<exists>b. Block_new True \<lparr>bc_data = Slice_ptr (example_block, 0) 27, cachable = True, heap_allocated = False\<rparr> = Inr b \<and>
    (b_size b = 0 \<or> (\<exists>r n. NumRestarts True b = Inr n \<and> restart_offset b = Some r \<and> unat r + 4 * (unat n + 1) = 27))"
  using Block_new_trailer [of "\<lparr>bc_data = Slice_ptr (example_block, 0) 27, cachable = True, heap_allocated = False\<rparr>" True]
  by (simp add: slice_ok_def Slice_ptr_def Slice_Size_def example_block_def) blast

text \<open>
  \<open>restart_index_\<close> is not always the restart block that \<open>current_\<close> falls in: on the first entry
  of a later restart block it still names the block before.
\<close>

lemma restart_index_lags:
  "advance_restart True 10 0 example_iter = Inr 0"
  by (subst advance_restart.simps)
    (simp add: GetRestartPoint_def example_iter_def example_block_def ptr_add_def DecodeFixed32_def
      ptr_read_def mem_value_def)

end
