(* ===== verification/Bg_Thread.thy ===== *)
theory Bg_Thread
  imports Prelude
begin

text \<open>
  The background thread of \<open>PosixEnv\<close> (src/db/Env_posix.cpp): \<open>Schedule\<close>, called by any number
  of threads, and \<open>BGThread\<close>, the consumer, over one mutex, one condition variable and the
  queue. A step is one \<open>pthread\<close> call or one access to the shared members, in program order. The
  mutex, the condition variable (with spurious wake-ups) and thread creation behave as POSIX
  says; a call that fails ends the process (\<open>PthreadCall\<close>), so the steps are those of the
  calls that succeed. Two ghost members record what was scheduled and what has run.
\<close>

section \<open>Definitions\<close>

text \<open>\<open>PthreadCall\<close>: a failed call aborts.\<close>

definition PthreadCall :: "int \<Rightarrow> unit res" where
  "PthreadCall result = (if result \<noteq> 0 then Inl Aborted else Inr ())"

text \<open>A work item: a function and its argument.\<close>

type_synonym BGItem = "nat \<times> u64"

text \<open>Where a thread inside \<open>Schedule\<close> is.\<close>

datatype client =
    Outside
  | Locking BGItem
  | Starting BGItem
  | Signalling BGItem
  | Pushing BGItem
  | Unlocking

text \<open>Where the background thread is; \<open>Woken\<close> is inside \<open>pthread_cond_wait\<close>, taking the mutex again.\<close>

datatype worker =
    NotStarted
  | Locks
  | Checks
  | Waits
  | Woken
  | Pops
  | Unlocks BGItem
  | Runs BGItem

datatype owner = Nobody | Client nat | Worker

record BGState =
  mu :: owner
  started_bgthread :: bool
  queue :: "BGItem list"
  clients :: "nat \<Rightarrow> client"
  bgthread :: worker
  scheduled :: "BGItem list"
  executed :: "BGItem list"

definition PosixEnv_start :: BGState where
  "PosixEnv_start = \<lparr>mu = Nobody, started_bgthread = False, queue = [], clients = (\<lambda>_. Outside),
     bgthread = NotStarted, scheduled = [], executed = []\<rparr>"

definition client_at :: "nat \<Rightarrow> client \<Rightarrow> BGState \<Rightarrow> BGState" where
  "client_at t c s = s\<lparr>clients := (clients s)(t := c)\<rparr>"

text \<open>The steps of \<open>Schedule\<close>.\<close>

inductive schedule_step :: "BGState \<Rightarrow> BGState \<Rightarrow> bool" where
  schedule_call:
    "clients s t = Outside \<Longrightarrow> schedule_step s (client_at t (Locking it) s)"
| schedule_lock:
    "\<lbrakk>clients s t = Locking it; mu s = Nobody\<rbrakk> \<Longrightarrow>
       schedule_step s (client_at t (Starting it) (s\<lparr>mu := Client t\<rparr>))"
| schedule_start:
    "clients s t = Starting it \<Longrightarrow>
       schedule_step s (client_at t (Signalling it)
         (if \<not> started_bgthread s then s\<lparr>started_bgthread := True, bgthread := Locks\<rparr> else s))"
| schedule_signal:
    "clients s t = Signalling it \<Longrightarrow>
       schedule_step s (client_at t (Pushing it)
         (if queue s = [] \<and> bgthread s = Waits then s\<lparr>bgthread := Woken\<rparr> else s))"
| schedule_push:
    "clients s t = Pushing it \<Longrightarrow>
       schedule_step s (client_at t Unlocking
         (s\<lparr>queue := queue s @ [it], scheduled := scheduled s @ [it]\<rparr>))"
| schedule_unlock:
    "clients s t = Unlocking \<Longrightarrow> schedule_step s (client_at t Outside (s\<lparr>mu := Nobody\<rparr>))"

text \<open>The steps of \<open>BGThread\<close>.\<close>

inductive worker_step :: "BGState \<Rightarrow> BGState \<Rightarrow> bool" where
  worker_lock:
    "\<lbrakk>bgthread s = Locks; mu s = Nobody\<rbrakk> \<Longrightarrow> worker_step s (s\<lparr>bgthread := Checks, mu := Worker\<rparr>)"
| worker_wait:
    "\<lbrakk>bgthread s = Checks; queue s = []\<rbrakk> \<Longrightarrow> worker_step s (s\<lparr>bgthread := Waits, mu := Nobody\<rparr>)"
| worker_spurious:
    "bgthread s = Waits \<Longrightarrow> worker_step s (s\<lparr>bgthread := Woken\<rparr>)"
| worker_relock:
    "\<lbrakk>bgthread s = Woken; mu s = Nobody\<rbrakk> \<Longrightarrow> worker_step s (s\<lparr>bgthread := Checks, mu := Worker\<rparr>)"
| worker_ready:
    "\<lbrakk>bgthread s = Checks; queue s \<noteq> []\<rbrakk> \<Longrightarrow> worker_step s (s\<lparr>bgthread := Pops\<rparr>)"
| worker_pop:
    "\<lbrakk>bgthread s = Pops; queue s = it # its\<rbrakk> \<Longrightarrow>
       worker_step s (s\<lparr>bgthread := Unlocks it, queue := its\<rparr>)"
| worker_unlock:
    "bgthread s = Unlocks it \<Longrightarrow> worker_step s (s\<lparr>bgthread := Runs it, mu := Nobody\<rparr>)"
| worker_run:
    "bgthread s = Runs it \<Longrightarrow>
       worker_step s (s\<lparr>bgthread := Locks, executed := executed s @ [it]\<rparr>)"

definition bg_step :: "BGState \<Rightarrow> BGState \<Rightarrow> bool" where
  "bg_step s s' \<longleftrightarrow> schedule_step s s' \<or> worker_step s s'"

subsection \<open>Specification\<close>

text \<open>The item that the background thread has taken off the queue and not finished.\<close>

definition in_hand :: "worker \<Rightarrow> BGItem list" where
  "in_hand w = (case w of Unlocks it \<Rightarrow> [it] | Runs it \<Rightarrow> [it] | _ \<Rightarrow> [])"

definition holds_mutex :: "client \<Rightarrow> bool" where
  "holds_mutex c = (case c of Outside \<Rightarrow> False | Locking it \<Rightarrow> False | _ \<Rightarrow> True)"

definition worker_holds :: "worker \<Rightarrow> bool" where
  "worker_holds w = (case w of Checks \<Rightarrow> True | Pops \<Rightarrow> True | Unlocks it \<Rightarrow> True | _ \<Rightarrow> False)"

definition bg_inv :: "BGState \<Rightarrow> bool" where
  "bg_inv s \<longleftrightarrow>
     (\<forall>t. holds_mutex (clients s t) \<longleftrightarrow> mu s = Client t) \<and>
     (worker_holds (bgthread s) \<longleftrightarrow> mu s = Worker) \<and>
     (started_bgthread s \<longleftrightarrow> bgthread s \<noteq> NotStarted) \<and>
     (\<forall>t it. clients s t = Signalling it \<or> clients s t = Pushing it \<longrightarrow> started_bgthread s) \<and>
     (queue s \<noteq> [] \<longrightarrow> started_bgthread s) \<and>
     (bgthread s = Waits \<longrightarrow> queue s = [] \<and> (\<forall>t it. clients s t \<noteq> Pushing it)) \<and>
     (bgthread s = Pops \<longrightarrow> queue s \<noteq> []) \<and>
     executed s @ in_hand (bgthread s) @ queue s = scheduled s"

section \<open>Lemmas\<close>

lemma in_hand_simps [simp]:
  "in_hand NotStarted = []" "in_hand Locks = []" "in_hand Checks = []" "in_hand Waits = []"
  "in_hand Woken = []" "in_hand Pops = []" "in_hand (Unlocks it) = [it]" "in_hand (Runs it) = [it]"
  by (simp_all add: in_hand_def)

lemma holds_mutex_simps [simp]:
  "\<not> holds_mutex Outside" "\<not> holds_mutex (Locking it)" "holds_mutex (Starting it)"
  "holds_mutex (Signalling it)" "holds_mutex (Pushing it)" "holds_mutex Unlocking"
  by (simp_all add: holds_mutex_def)

lemma worker_holds_simps [simp]:
  "\<not> worker_holds NotStarted" "\<not> worker_holds Locks" "worker_holds Checks" "\<not> worker_holds Waits"
  "\<not> worker_holds Woken" "worker_holds Pops" "worker_holds (Unlocks it)" "\<not> worker_holds (Runs it)"
  by (simp_all add: worker_holds_def)

lemma bg_inv_start: "bg_inv PosixEnv_start"
  by (simp add: bg_inv_def PosixEnv_start_def)

lemma bg_inv_holder: "\<lbrakk>bg_inv s; clients s t = c; holds_mutex c\<rbrakk> \<Longrightarrow> mu s = Client t"
  by (auto simp: bg_inv_def)

lemma bg_inv_not_holder: "\<lbrakk>bg_inv s; clients s t = c; \<not> holds_mutex c\<rbrakk> \<Longrightarrow> mu s \<noteq> Client t"
  by (auto simp: bg_inv_def)

lemma bg_inv_worker: "\<lbrakk>bg_inv s; mu s \<noteq> Worker\<rbrakk> \<Longrightarrow> \<not> worker_holds (bgthread s)"
  by (simp add: bg_inv_def)

lemma schedule_step_inv: "\<lbrakk>schedule_step s s'; bg_inv s\<rbrakk> \<Longrightarrow> bg_inv s'"
proof (induction rule: schedule_step.induct)
  case (schedule_call s t it)
  then show ?case
    using bg_inv_not_holder [of s t Outside] by (auto simp: bg_inv_def client_at_def)
next
  case (schedule_lock s t it)
  then show ?case
    by (auto simp: bg_inv_def client_at_def)
next
  case (schedule_start s t it)
  then have m: "mu s = Client t" using bg_inv_holder by force
  show ?case
    using schedule_start m bg_inv_worker [of s] by (auto simp: bg_inv_def client_at_def)
next
  case (schedule_signal s t it)
  then have m: "mu s = Client t" using bg_inv_holder by force
  show ?case
    using schedule_signal m by (cases it) (auto simp: bg_inv_def client_at_def)
next
  case (schedule_push s t it)
  then have m: "mu s = Client t" using bg_inv_holder by force
  show ?case
    using schedule_push m by (cases it) (auto simp: bg_inv_def client_at_def)
next
  case (schedule_unlock s t)
  then have m: "mu s = Client t" using bg_inv_holder by force
  show ?case
    using schedule_unlock m by (auto simp: bg_inv_def client_at_def)
qed

lemma worker_step_inv: "\<lbrakk>worker_step s s'; bg_inv s\<rbrakk> \<Longrightarrow> bg_inv s'"
proof (induction rule: worker_step.induct)
  case (worker_wait s)
  then have "mu s = Worker" by (simp add: bg_inv_def)
  then have "clients s t \<noteq> Pushing it" for t it
    using bg_inv_holder [OF worker_wait(3), of t "Pushing it"] by auto
  then show ?case using worker_wait by (auto simp: bg_inv_def)
qed (auto simp: bg_inv_def)

lemma bg_steps_inv: "\<lbrakk>bg_step\<^sup>*\<^sup>* s s'; bg_inv s\<rbrakk> \<Longrightarrow> bg_inv s'"
  by (induction rule: rtranclp_induct) (auto simp: bg_step_def intro: schedule_step_inv worker_step_inv)

subsection \<open>Progress\<close>

lemma bg_steps_snoc: "\<lbrakk>bg_step\<^sup>*\<^sup>* a b; bg_step b c\<rbrakk> \<Longrightarrow> bg_step\<^sup>*\<^sup>* a c"
  by (rule rtranclp.rtrancl_into_rtrancl)

lemma bg_step_cons: "\<lbrakk>bg_step a b; bg_step\<^sup>*\<^sup>* b c\<rbrakk> \<Longrightarrow> bg_step\<^sup>*\<^sup>* a c"
  by (rule converse_rtranclp_into_rtranclp)

text \<open>How many steps a thread inside \<open>Schedule\<close> is away from giving the mutex back.\<close>

definition client_rank :: "client \<Rightarrow> nat" where
  "client_rank c = (case c of Starting it \<Rightarrow> 4 | Signalling it \<Rightarrow> 3 | Pushing it \<Rightarrow> 2 | Unlocking \<Rightarrow> 1 | _ \<Rightarrow> 0)"

text \<open>A thread that holds the mutex inside \<open>Schedule\<close> gives it back; items are only added.\<close>

lemma client_releases:
  "\<lbrakk>mu s = Client t; bg_inv s\<rbrakk> \<Longrightarrow>
     \<exists>s'. bg_step\<^sup>*\<^sup>* s s' \<and> mu s' = Nobody \<and> executed s' = executed s \<and>
       in_hand (bgthread s') = in_hand (bgthread s) \<and> (\<exists>new. queue s' = queue s @ new)"
proof (induction "client_rank (clients s t)" arbitrary: s rule: less_induct)
  case less
  have holds: "holds_mutex (clients s t)" using less.prems by (simp add: bg_inv_def)
  have go: "\<exists>s'. bg_step\<^sup>*\<^sup>* s s' \<and> mu s' = Nobody \<and> executed s' = executed s \<and>
      in_hand (bgthread s') = in_hand (bgthread s) \<and> (\<exists>new. queue s' = queue s @ new)"
    if step: "schedule_step s s1" and r: "client_rank (clients s1 t) < client_rank (clients s t)"
      and m: "mu s1 = Client t" and e: "executed s1 = executed s" "in_hand (bgthread s1) = in_hand (bgthread s)"
      "queue s1 = queue s @ new1" for s1 new1
  proof -
    have "bg_step s s1" using step by (simp add: bg_step_def)
    moreover obtain s' where "bg_step\<^sup>*\<^sup>* s1 s'" "mu s' = Nobody" "executed s' = executed s1"
      "in_hand (bgthread s') = in_hand (bgthread s1)" "\<exists>new. queue s' = queue s1 @ new"
      using less.hyps [OF r m schedule_step_inv [OF step less.prems(2)]] by blast
    ultimately show ?thesis using e by (metis append.assoc bg_step_cons)
  qed
  show ?case
  proof (cases "clients s t")
    case (Starting it)
    have "bgthread s = NotStarted" if "\<not> started_bgthread s" using less.prems(2) that by (simp add: bg_inv_def)
    then show ?thesis
      using go [OF schedule_start [OF Starting], of "[]"] Starting less.prems(1)
      by (auto simp: client_at_def client_rank_def)
  next
    case (Signalling it)
    then show ?thesis
      using go [OF schedule_signal [OF Signalling], of "[]"] less.prems(1)
      by (auto simp: client_at_def client_rank_def split: if_splits)
  next
    case (Pushing it)
    then show ?thesis
      using go [OF schedule_push [OF Pushing], of "[it]"] less.prems(1)
      by (auto simp: client_at_def client_rank_def)
  next
    case Unlocking
    have "bg_step\<^sup>*\<^sup>* s (client_at t Outside (s\<lparr>mu := Nobody\<rparr>))"
      using schedule_unlock [OF Unlocking] by (auto simp: bg_step_def)
    then show ?thesis by (auto simp: client_at_def)
  qed (use holds in simp_all)
qed

text \<open>From a free mutex, the worker reaches the end of the next item.\<close>

lemma worker_steps: "worker_step a b \<Longrightarrow> bg_step a b"
  by (simp add: bg_step_def)

lemma worker_runs_item:
  assumes "bgthread s = Pops" and "queue s = it # its"
  shows "\<exists>s'. bg_step\<^sup>*\<^sup>* s s' \<and> executed s' = executed s @ [it]"
proof -
  let ?s1 = "s\<lparr>bgthread := Unlocks it, queue := its\<rparr>"
  let ?s2 = "?s1\<lparr>bgthread := Runs it, mu := Nobody\<rparr>"
  have "bg_step s ?s1" using worker_pop [OF assms] by (rule worker_steps)
  moreover have "bg_step ?s1 ?s2" using worker_unlock [of ?s1 it] by (intro worker_steps) simp
  moreover have "bg_step ?s2 (?s2\<lparr>bgthread := Locks, executed := executed s @ [it]\<rparr>)"
    using worker_run [of ?s2 it] by (intro worker_steps) simp
  ultimately have "bg_step\<^sup>*\<^sup>* s (?s2\<lparr>bgthread := Locks, executed := executed s @ [it]\<rparr>)"
    by (meson bg_step_cons r_into_rtranclp)
  then show ?thesis by (intro exI conjI) (assumption, simp)
qed

lemma worker_takes_item:
  assumes inv: "bg_inv s" and m: "mu s = Nobody" and w: "bgthread s = Locks \<or> bgthread s = Woken"
    and q: "queue s = it # its"
  shows "\<exists>s'. bg_step\<^sup>*\<^sup>* s s' \<and> executed s' = executed s @ [it]"
proof -
  let ?s1 = "s\<lparr>bgthread := Checks, mu := Worker\<rparr>"
  have "bg_step s ?s1" using w worker_lock [OF _ m] worker_relock [OF _ m] by (auto intro: worker_steps)
  moreover have "bg_step ?s1 (?s1\<lparr>bgthread := Pops\<rparr>)"
    using worker_ready [of ?s1] q by (intro worker_steps) simp
  moreover obtain s' where "bg_step\<^sup>*\<^sup>* (?s1\<lparr>bgthread := Pops\<rparr>) s'" "executed s' = executed s @ [it]"
    using worker_runs_item [of "?s1\<lparr>bgthread := Pops\<rparr>" it its] q by auto
  ultimately show ?thesis by (meson bg_step_cons)
qed

lemma idle_worker_waits_for_mutex:
  assumes "bg_inv s" and "queue s \<noteq> []" and "mu s = Nobody" and "in_hand (bgthread s) = []"
  shows "bgthread s = Locks \<or> bgthread s = Woken"
  using assms by (cases "bgthread s") (auto simp: bg_inv_def)

lemma next_item_runs:
  assumes inv: "bg_inv s" and rest: "in_hand (bgthread s) @ queue s = it # its"
  shows "\<exists>s'. bg_step\<^sup>*\<^sup>* s s' \<and> executed s' = executed s @ [it]"
proof (cases "in_hand (bgthread s) = []")
  case False
  then consider "bgthread s = Unlocks it" | "bgthread s = Runs it"
    using rest by (cases "bgthread s") auto
  then show ?thesis
  proof cases
    case 1
    let ?s1 = "s\<lparr>bgthread := Runs it, mu := Nobody\<rparr>"
    have "bg_step s ?s1" using worker_unlock [OF 1] by (rule worker_steps)
    moreover have "bg_step ?s1 (?s1\<lparr>bgthread := Locks, executed := executed s @ [it]\<rparr>)"
      using worker_run [of ?s1 it] by (intro worker_steps) simp
    ultimately have "bg_step\<^sup>*\<^sup>* s (?s1\<lparr>bgthread := Locks, executed := executed s @ [it]\<rparr>)"
      by (meson bg_step_cons r_into_rtranclp)
    then show ?thesis by (intro exI conjI) (assumption, simp)
  next
    case 2
    have "bg_step s (s\<lparr>bgthread := Locks, executed := executed s @ [it]\<rparr>)"
      using worker_run [OF 2] by (rule worker_steps)
    then have "bg_step\<^sup>*\<^sup>* s (s\<lparr>bgthread := Locks, executed := executed s @ [it]\<rparr>)" by simp
    then show ?thesis by (intro exI conjI) (assumption, simp)
  qed
next
  case True
  then have q: "queue s = it # its" using rest by simp
  show ?thesis
  proof (cases "mu s")
    case Nobody
    then show ?thesis
      using worker_takes_item [OF inv Nobody _ q] idle_worker_waits_for_mutex [OF inv _ Nobody True] q by simp
  next
    case (Client t)
    obtain s1 new where s1: "bg_step\<^sup>*\<^sup>* s s1" "mu s1 = Nobody" "executed s1 = executed s"
      "in_hand (bgthread s1) = []" "queue s1 = it # its @ new"
      using client_releases [OF Client inv] True q by auto
    have inv1: "bg_inv s1" by (rule bg_steps_inv [OF s1(1) inv])
    then obtain s' where "bg_step\<^sup>*\<^sup>* s1 s'" "executed s' = executed s1 @ [it]"
      using worker_takes_item [OF inv1 s1(2) _ s1(5)] idle_worker_waits_for_mutex [OF inv1 _ s1(2,4)] s1(5) by auto
    then show ?thesis using s1(1,3) by (metis rtranclp_trans)
  next
    case Worker
    then consider "bgthread s = Checks" | "bgthread s = Pops"
      using inv True by (cases "bgthread s") (auto simp: bg_inv_def)
    then show ?thesis
    proof cases
      case 1
      have "bg_step s (s\<lparr>bgthread := Pops\<rparr>)" using worker_ready [OF 1] q by (intro worker_steps) simp
      moreover obtain s' where "bg_step\<^sup>*\<^sup>* (s\<lparr>bgthread := Pops\<rparr>) s'" "executed s' = executed s @ [it]"
        using worker_runs_item [of "s\<lparr>bgthread := Pops\<rparr>" it its] q by auto
      ultimately show ?thesis by (meson bg_step_cons)
    next
      case 2
      then show ?thesis using worker_runs_item q by blast
    qed
  qed
qed

section \<open>Properties\<close>

text \<open>
  C16: whatever the interleaving, the items that have run, the one in hand and those in the
  queue are, in this order, exactly the items scheduled: each runs at most once, none is lost,
  and they run in the order of their \<open>Schedule\<close> calls. At most one thread is inside the mutex.
\<close>

theorem scheduled_in_order:
  assumes "bg_step\<^sup>*\<^sup>* PosixEnv_start s"
  shows "executed s @ in_hand (bgthread s) @ queue s = scheduled s \<and>
    (\<forall>t u. holds_mutex (clients s t) \<and> holds_mutex (clients s u) \<longrightarrow> t = u) \<and>
    (\<forall>t. \<not> (holds_mutex (clients s t) \<and> worker_holds (bgthread s)))"
proof -
  have inv: "bg_inv s" by (rule bg_steps_inv [OF assms bg_inv_start])
  then have "t = u" if "holds_mutex (clients s t)" "holds_mutex (clients s u)" for t u
    using that bg_inv_holder [OF inv refl] by (metis owner.inject)
  then show ?thesis using inv unfolding bg_inv_def by (metis owner.distinct(5))
qed

text \<open>A run: one thread schedules an item, the background thread starts and takes it.\<close>

lemma example_bg_run:
  "bg_step\<^sup>*\<^sup>* PosixEnv_start
     (PosixEnv_start\<lparr>mu := Nobody, started_bgthread := True, queue := [(7, 8)], bgthread := Locks, scheduled := [(7, 8)]\<rparr>)"
proof -
  have stay: "(\<lambda>_ :: nat. Outside)(t := Outside) = (\<lambda>_. Outside)" for t by auto
  let ?s1 = "client_at 1 (Locking (7, 8)) PosixEnv_start"
  let ?s2 = "client_at 1 (Starting (7, 8)) (?s1\<lparr>mu := Client 1\<rparr>)"
  let ?s3 = "client_at 1 (Signalling (7, 8)) (?s2\<lparr>started_bgthread := True, bgthread := Locks\<rparr>)"
  let ?s4 = "client_at 1 (Pushing (7, 8)) ?s3"
  let ?s5 = "client_at 1 Unlocking (?s4\<lparr>queue := [(7, 8)], scheduled := [(7, 8)]\<rparr>)"
  let ?s6 = "client_at 1 Outside (?s5\<lparr>mu := Nobody\<rparr>)"
  note defs = bg_step_def client_at_def PosixEnv_start_def
  have "bg_step PosixEnv_start ?s1" using schedule_call [of PosixEnv_start 1] by (simp add: defs)
  moreover have "bg_step ?s1 ?s2" using schedule_lock [of ?s1 1 "(7, 8)"] by (simp add: defs)
  moreover have "bg_step ?s2 ?s3" using schedule_start [of ?s2 1 "(7, 8)"] by (simp add: defs)
  moreover have "bg_step ?s3 ?s4" using schedule_signal [of ?s3 1 "(7, 8)"] by (simp add: defs)
  moreover have "bg_step ?s4 ?s5" using schedule_push [of ?s4 1 "(7, 8)"] by (simp add: defs)
  moreover have "bg_step ?s5 ?s6" using schedule_unlock [of ?s5 1] by (simp add: defs)
  ultimately have "bg_step\<^sup>*\<^sup>* PosixEnv_start ?s6" by (meson bg_step_cons rtranclp.rtrancl_refl)
  moreover have "?s6 = PosixEnv_start\<lparr>mu := Nobody, started_bgthread := True, queue := [(7, 8)], bgthread := Locks, scheduled := [(7, 8)]\<rparr>"
    by (simp add: client_at_def PosixEnv_start_def stay)
  ultimately show ?thesis by simp
qed

theorem scheduled_in_order_witness:
  "bg_step\<^sup>*\<^sup>* PosixEnv_start
     (PosixEnv_start\<lparr>mu := Nobody, started_bgthread := True, queue := [(7, 8)], bgthread := Locks, scheduled := [(7, 8)]\<rparr>) \<and>
   [] @ [] @ [(7 :: nat, 8 :: u64)] = [(7, 8)]"
  using scheduled_in_order [OF example_bg_run] example_bg_run by (simp add: PosixEnv_start_def)

text \<open>
  C26: no wake-up is lost: while the queue is not empty the background thread exists and is
  never asleep on the condition variable, although \<open>Schedule\<close> signals before it pushes.
\<close>

theorem no_lost_wakeup:
  assumes "bg_step\<^sup>*\<^sup>* PosixEnv_start s" and "queue s \<noteq> []"
  shows "bgthread s \<noteq> NotStarted \<and> bgthread s \<noteq> Waits"
  using bg_steps_inv [OF assms(1) bg_inv_start] assms(2) by (auto simp: bg_inv_def)

theorem no_lost_wakeup_witness:
  "bgthread (PosixEnv_start\<lparr>mu := Nobody, started_bgthread := True, queue := [(7, 8)], bgthread := Locks, scheduled := [(7, 8)]\<rparr>) \<noteq> Waits"
  using no_lost_wakeup [OF example_bg_run] by simp

text \<open>
  nothing blocks: from every reachable state with an item that has not run, the threads
  can reach a state in which the next item in order has run.
\<close>

theorem scheduled_item_can_run:
  assumes "bg_step\<^sup>*\<^sup>* PosixEnv_start s" and "length (executed s) < length (scheduled s)"
  shows "\<exists>s'. bg_step\<^sup>*\<^sup>* s s' \<and> executed s' = executed s @ [scheduled s ! length (executed s)]"
proof -
  have inv: "bg_inv s" by (rule bg_steps_inv [OF assms(1) bg_inv_start])
  then have sch: "scheduled s = executed s @ in_hand (bgthread s) @ queue s" by (simp add: bg_inv_def)
  then obtain it its where r: "in_hand (bgthread s) @ queue s = it # its"
    using assms(2) by (cases "in_hand (bgthread s) @ queue s") auto
  then have "scheduled s ! length (executed s) = it" by (simp add: sch)
  then show ?thesis using next_item_runs [OF inv r] by simp
qed

theorem scheduled_item_can_run_witness:
  "\<exists>s'. bg_step\<^sup>*\<^sup>* (PosixEnv_start\<lparr>mu := Nobody, started_bgthread := True, queue := [(7, 8)], bgthread := Locks, scheduled := [(7, 8)]\<rparr>) s' \<and>
     executed s' = [(7, 8)]"
  using scheduled_item_can_run [OF example_bg_run] by (simp add: PosixEnv_start_def)

end
