(* ===== verification/Port_Posix.thy ===== *)
theory Port_Posix
  imports Bg_Thread
begin

text \<open>
  The port layer (src/db/port_posix.h, src/db/port_posix.cpp, src/db/MutexLock.h) and the code that
  rests on it: the singletons created under \<open>InitOnce\<close> or \<open>pthread_once\<close> (\<open>BytewiseComparator()\<close> in
  src/db/Comparator.cpp, \<open>Env::Default()\<close> in src/db/Env_posix.cpp), threads started by \<open>StartThread\<close>,
  and the lock guard. \<open>pthread_once\<close> behaves as POSIX says: one caller runs the initialiser, the
  others wait until it is done.
\<close>

section \<open>Definitions\<close>

subsection \<open>Singletons\<close>

datatype once_control = Once_never | Once_running nat | Once_done

text \<open>Where a thread is in the function that returns the singleton.\<close>

datatype getter =
    Not_called
  | In_InitOnce
  | In_initializer
  | After_InitOnce
  | Returned "nat option"

record Singleton =
  once :: once_control
  instance_ptr :: "nat option"
  instances :: nat
  getters :: "nat \<Rightarrow> getter"

text \<open>\<open>InitModule\<close>, \<open>InitDefaultEnv\<close>: a new object, its address stored in the static pointer.\<close>

definition InitModule :: "Singleton \<Rightarrow> Singleton" where
  "InitModule s = s\<lparr>instances := instances s + 1, instance_ptr := Some (instances s + 1)\<rparr>"

definition Singleton_start :: Singleton where
  "Singleton_start = \<lparr>once = Once_never, instance_ptr = None, instances = 0, getters = \<lambda>_. Not_called\<rparr>"

definition getter_at :: "nat \<Rightarrow> getter \<Rightarrow> Singleton \<Rightarrow> Singleton" where
  "getter_at t g s = s\<lparr>getters := (getters s)(t := g)\<rparr>"

text \<open>The steps of \<open>BytewiseComparator()\<close> and of \<open>Env::Default()\<close>.\<close>

inductive singleton_step :: "Singleton \<Rightarrow> Singleton \<Rightarrow> bool" where
  get_call: "getters s t = Not_called \<Longrightarrow> singleton_step s (getter_at t In_InitOnce s)"
| once_first: "getters s t = In_InitOnce \<Longrightarrow> once s = Once_never \<Longrightarrow>
    singleton_step s (getter_at t In_initializer (s\<lparr>once := Once_running t\<rparr>))"
| once_init: "getters s t = In_initializer \<Longrightarrow>
    singleton_step s (getter_at t After_InitOnce ((InitModule s)\<lparr>once := Once_done\<rparr>))"
| once_later: "getters s t = In_InitOnce \<Longrightarrow> once s = Once_done \<Longrightarrow>
    singleton_step s (getter_at t After_InitOnce s)"
| get_return: "getters s t = After_InitOnce \<Longrightarrow>
    singleton_step s (getter_at t (Returned (instance_ptr s)) s)"

definition InitOnce :: "int \<Rightarrow> Singleton \<Rightarrow> Singleton res" where
  "InitOnce pthread_result s = rbind (PthreadCall pthread_result) (\<lambda>_. Inr s)"

subsection \<open>Threads started by StartThread\<close>

record StartThreadState =
  user_function :: nat
  user_arg :: u64

text \<open>The heap of argument blocks and the calls made so far.\<close>

record Threads =
  states :: "nat \<Rightarrow> StartThreadState option"
  next_state :: nat
  calls :: "(nat \<times> u64) list"

definition StartThread :: "int \<Rightarrow> nat \<Rightarrow> u64 \<Rightarrow> Threads \<Rightarrow> (nat \<times> Threads) res" where
  "StartThread create_result f arg s =
     (let state = next_state s;
          s1 = s\<lparr>next_state := state + 1,
                 states := (states s)(state \<mapsto> \<lparr>user_function = f, user_arg = arg\<rparr>)\<rparr>
      in rbind (PthreadCall create_result) (\<lambda>_. Inr (state, s1)))"

text \<open>The new thread's body, with the block's address.\<close>

definition StartThreadWrapper :: "nat \<Rightarrow> Threads \<Rightarrow> Threads res" where
  "StartThreadWrapper arg s =
     (case states s arg of
        None \<Rightarrow> Inl Dangling
      | Some state \<Rightarrow>
          Inr (s\<lparr>calls := calls s @ [(user_function state, user_arg state)],
                 states := (states s)(arg := None)\<rparr>))"

subsection \<open>The lock guard and the stubs\<close>

text \<open>The constructor waits, here is not enabled (\<open>None\<close>), while the mutex is taken.\<close>

definition MutexLock_new :: "nat \<Rightarrow> nat option \<Rightarrow> nat option option" where
  "MutexLock_new t mutex = (case mutex of None \<Rightarrow> Some (Some t) | Some _ \<Rightarrow> None)"

definition MutexLock_destroy :: "nat \<Rightarrow> nat option \<Rightarrow> nat option res" where
  "MutexLock_destroy t mutex = (if mutex = Some t then Inr None else Inl Undefined_arith)"

text \<open>Without the library Snappy these report that nothing was done.\<close>

definition Snappy_Compress :: "bytes \<Rightarrow> bytes \<Rightarrow> bool \<times> bytes" where
  "Snappy_Compress input output = (False, output)"

definition Snappy_GetUncompressedLength :: "bytes \<Rightarrow> nat \<Rightarrow> bool \<times> nat" where
  "Snappy_GetUncompressedLength input result = (False, result)"

definition Snappy_Uncompress :: "bytes \<Rightarrow> bytes \<Rightarrow> bool \<times> bytes" where
  "Snappy_Uncompress input output = (False, output)"

definition GetHeapProfile :: bool where "GetHeapProfile = False"

subsection \<open>Specification\<close>

definition singleton_inv :: "Singleton \<Rightarrow> bool" where
  "singleton_inv s \<longleftrightarrow>
     (\<forall>t. getters s t = In_initializer \<longleftrightarrow> once s = Once_running t) \<and>
     (\<forall>t. getters s t = After_InitOnce \<or> (\<exists>p. getters s t = Returned p) \<longrightarrow> once s = Once_done) \<and>
     (\<forall>t p. getters s t = Returned p \<longrightarrow> p = Some 1) \<and>
     (if once s = Once_done then instances s = 1 \<and> instance_ptr s = Some 1 else instances s = 0)"

section \<open>Lemmas\<close>

lemma getters_at [simp]:
  "getters (getter_at t g s) = (getters s)(t := g)" "once (getter_at t g s) = once s"
  "instances (getter_at t g s) = instances s" "instance_ptr (getter_at t g s) = instance_ptr s"
  by (simp_all add: getter_at_def)

lemma InitModule_simps [simp]:
  "getters (InitModule s) = getters s" "once (InitModule s) = once s"
  "instances (InitModule s) = instances s + 1" "instance_ptr (InitModule s) = Some (instances s + 1)"
  by (simp_all add: InitModule_def)

lemma singleton_inv_step:
  assumes "singleton_step s s'" and "singleton_inv s"
  shows "singleton_inv s'"
  using assms
proof (induction rule: singleton_step.induct)
  case (once_init s t)
  then have r: "once s = Once_running t" by (simp add: singleton_inv_def)
  then have "getters s u \<noteq> In_initializer" if "u \<noteq> t" for u
    using once_init that by (auto simp: singleton_inv_def)
  then show ?case using once_init r by (auto simp: singleton_inv_def)
next
  case (get_call s t)
  then have "once s \<noteq> Once_running t" unfolding singleton_inv_def by (metis getter.distinct(3))
  then show ?case using get_call by (auto simp: singleton_inv_def split: if_splits)
qed (auto simp: singleton_inv_def split: if_splits)

lemma singleton_inv_reachable: "singleton_step\<^sup>*\<^sup>* Singleton_start s \<Longrightarrow> singleton_inv s"
proof (induction rule: rtranclp_induct)
  case base
  show ?case by (simp add: singleton_inv_def Singleton_start_def)
next
  case (step s s')
  then show ?case by (blast intro: singleton_inv_step)
qed

text \<open>
  However the threads that call \<open>BytewiseComparator()\<close> (or \<open>Env::Default()\<close>) interleave, every one
  that returns gets the same non-null pointer, and at most one object is ever created.
\<close>

theorem singleton_created_once:
  assumes "singleton_step\<^sup>*\<^sup>* Singleton_start s"
  shows "instances s \<le> 1 \<and> (\<forall>t p. getters s t = Returned p \<longrightarrow> p = Some 1 \<and> instances s = 1)"
  using singleton_inv_reachable [OF assms] by (auto simp: singleton_inv_def split: if_splits)

lemma singleton_example:
  "singleton_step\<^sup>*\<^sup>* Singleton_start
     (getter_at 5 (Returned (Some 1)) (getter_at 5 After_InitOnce ((InitModule (getter_at 5 In_initializer
       ((getter_at 5 In_InitOnce Singleton_start)\<lparr>once := Once_running 5\<rparr>)))\<lparr>once := Once_done\<rparr>)))"
proof -
  let ?s1 = "getter_at 5 In_InitOnce Singleton_start"
  let ?s2 = "getter_at 5 In_initializer (?s1\<lparr>once := Once_running 5\<rparr>)"
  let ?s3 = "getter_at 5 After_InitOnce ((InitModule ?s2)\<lparr>once := Once_done\<rparr>)"
  have "singleton_step Singleton_start ?s1" by (rule get_call) (simp add: Singleton_start_def)
  moreover have "singleton_step ?s1 ?s2" by (rule once_first) (simp_all add: Singleton_start_def)
  moreover have "singleton_step ?s2 ?s3" by (rule once_init) simp
  moreover have "instance_ptr ?s3 = Some 1" by (simp add: Singleton_start_def)
  then have "singleton_step ?s3 (getter_at 5 (Returned (Some 1)) ?s3)"
    using get_return [of ?s3 5] by simp
  ultimately show ?thesis by (meson converse_rtranclp_into_rtranclp r_into_rtranclp)
qed

theorem singleton_created_once_witness:
  "\<exists>s. singleton_step\<^sup>*\<^sup>* Singleton_start s \<and> getters s 5 = Returned (Some 1) \<and> instances s = 1"
  using singleton_created_once [OF singleton_example] singleton_example by (intro exI conjI) auto

text \<open>A started thread makes its one call and frees its block.\<close>

lemma StartThread_runs:
  assumes "\<forall>a \<ge> next_state s. states s a = None"
  shows "StartThread 0 f arg s = Inr (a, s1) \<Longrightarrow>
    \<exists>s2. StartThreadWrapper a s1 = Inr s2 \<and> calls s2 = calls s @ [(f, arg)] \<and> states s2 = states s"
  using assms
  by (auto simp: StartThread_def PthreadCall_def StartThreadWrapper_def Let_def fun_upd_idem_iff)

lemma StartThread_aborts: "r \<noteq> 0 \<Longrightarrow> StartThread r f arg s = Inl Aborted"
  by (simp add: StartThread_def PthreadCall_def Let_def)

lemma MutexLock_guard: "MutexLock_new t m = Some m1 \<Longrightarrow> m = None \<and> MutexLock_destroy t m1 = Inr None"
  by (auto simp: MutexLock_new_def MutexLock_destroy_def split: option.splits)

end
