(* ===== verification/Formats.thy ===== *)
theory Formats
  imports Slices
begin

text \<open>
  Constants and plain data of src/db/Log_format.h, src/db/Options.h, src/db/DB.h and src/db/DBFormat.h,
  and the abstract classes of src/db/Cache.h and src/db/FilterPolicy.h as records of their virtual
  functions over the state \<open>'c\<close> of the object. Nothing in the repository implements the two
  interfaces yet, so there is nothing to prove about them here.
\<close>

section \<open>Definitions\<close>

subsection \<open>The log format\<close>

datatype RecordType = kZeroType | kFullType | kFirstType | kMiddleType | kLastType

definition RecordType_code :: "RecordType \<Rightarrow> int" where
  "RecordType_code t =
     (case t of kZeroType \<Rightarrow> 0 | kFullType \<Rightarrow> 1 | kFirstType \<Rightarrow> 2 | kMiddleType \<Rightarrow> 3 | kLastType \<Rightarrow> 4)"

definition kMaxRecordType :: int where "kMaxRecordType = RecordType_code kLastType"
definition log_kBlockSize :: int where "log_kBlockSize = 32768"
definition log_kHeaderSize :: int where "log_kHeaderSize = 4 + 2 + 1"

subsection \<open>Options and versions\<close>

record ReadOptions =
  verify_checksums :: bool
  fill_cache :: bool
  snapshot :: "nat option"

definition ReadOptions_new :: ReadOptions where
  "ReadOptions_new = \<lparr>verify_checksums = False, fill_cache = True, snapshot = None\<rparr>"

definition kMajorVersion :: int where "kMajorVersion = 1"
definition kMinorVersion :: int where "kMinorVersion = 19"

subsection \<open>Levels\<close>

definition kNumLevels :: int where "kNumLevels = 7"
definition kL0_CompactionTrigger :: int where "kL0_CompactionTrigger = 4"
definition kL0_SlowdownWritesTrigger :: int where "kL0_SlowdownWritesTrigger = 8"
definition kL0_StopWritesTrigger :: int where "kL0_StopWritesTrigger = 12"
definition kMaxMemCompactLevel :: int where "kMaxMemCompactLevel = 2"
definition kReadBytesPeriod :: int where "kReadBytesPeriod = 1048576"

subsection \<open>Interfaces\<close>

record ('c, 'h) Cache =
  cache_Insert :: "slice \<Rightarrow> nat \<Rightarrow> u64 \<Rightarrow> nat \<Rightarrow> 'c \<Rightarrow> ('h \<times> 'c) res"
  cache_Lookup :: "slice \<Rightarrow> 'c \<Rightarrow> ('h option \<times> 'c) res"
  cache_Release :: "'h \<Rightarrow> 'c \<Rightarrow> 'c res"
  cache_Value :: "'h \<Rightarrow> 'c \<Rightarrow> nat res"
  cache_Erase :: "slice \<Rightarrow> 'c \<Rightarrow> 'c res"
  cache_NewId :: "'c \<Rightarrow> (u64 \<times> 'c) res"
  cache_Prune :: "'c \<Rightarrow> 'c res"
  cache_TotalCharge :: "'c \<Rightarrow> u64 res"

text \<open>The body \<open>Cache\<close> itself gives to \<open>Prune\<close>.\<close>

definition Cache_Prune :: "'c \<Rightarrow> 'c res" where "Cache_Prune c = Inr c"

record 'c FilterPolicy =
  policy_Name :: bytes
  policy_CreateFilter :: "slice list \<Rightarrow> int \<Rightarrow> bytes \<Rightarrow> 'c \<Rightarrow> bytes res"
  policy_KeyMayMatch :: "slice \<Rightarrow> slice \<Rightarrow> 'c \<Rightarrow> bool res"

section \<open>Lemmas\<close>

text \<open>The thresholds of level 0 are in order, and a log block holds more than a record header.\<close>

lemma level0_thresholds:
  "kL0_CompactionTrigger < kL0_SlowdownWritesTrigger" "kL0_SlowdownWritesTrigger < kL0_StopWritesTrigger"
  "kMaxMemCompactLevel < kNumLevels"
  by (simp_all add: kL0_CompactionTrigger_def kL0_SlowdownWritesTrigger_def kL0_StopWritesTrigger_def
      kMaxMemCompactLevel_def kNumLevels_def)

lemma record_type_bound: "0 \<le> RecordType_code t \<and> RecordType_code t \<le> kMaxRecordType"
  by (cases t) (simp_all add: RecordType_code_def kMaxRecordType_def)

end
