(* ===== verification/Env_Files.thy ===== *)
theory Env_Files
  imports Status_Val
begin

text \<open>
  The interfaces of src/db/Env.h and the code of src/db/Env.cpp that only uses them. An abstract
  class is the record of its virtual functions, over a type \<open>'w\<close> for the state of the world and a
  type for the objects; an object is passed and returned, since its methods change it. The out
  parameter of a \<open>New...\<close> function is an object or null. The two locales state what the code
  relies on: that writing and reading of files, and the objects that do it, behave. Under them
  \<open>WriteStringToFile\<close> and \<open>ReadFileToString\<close> return, leak nothing and store and load the string.
\<close>

section \<open>Definitions\<close>

subsection \<open>Interfaces\<close>

record ('w, 's) SequentialFile =
  sf_Read :: "'s \<Rightarrow> nat \<Rightarrow> bytes \<Rightarrow> 'w \<Rightarrow> ((status_value \<times> slice \<times> bytes \<times> 's) \<times> 'w) res"
  sf_Skip :: "'s \<Rightarrow> u64 \<Rightarrow> 'w \<Rightarrow> ((status_value \<times> 's) \<times> 'w) res"
  sf_delete :: "'s \<Rightarrow> 'w \<Rightarrow> 'w res"

record ('w, 'r) RandomAccessFile =
  rf_Read :: "'r \<Rightarrow> u64 \<Rightarrow> nat \<Rightarrow> bytes \<Rightarrow> 'w \<Rightarrow> ((status_value \<times> slice \<times> bytes) \<times> 'w) res"
  rf_delete :: "'r \<Rightarrow> 'w \<Rightarrow> 'w res"

record ('w, 'f) WritableFile =
  wf_Append :: "'f \<Rightarrow> slice \<Rightarrow> 'w \<Rightarrow> ((status_value \<times> 'f) \<times> 'w) res"
  wf_Close :: "'f \<Rightarrow> 'w \<Rightarrow> ((status_value \<times> 'f) \<times> 'w) res"
  wf_Flush :: "'f \<Rightarrow> 'w \<Rightarrow> ((status_value \<times> 'f) \<times> 'w) res"
  wf_Sync :: "'f \<Rightarrow> 'w \<Rightarrow> ((status_value \<times> 'f) \<times> 'w) res"
  wf_delete :: "'f \<Rightarrow> 'w \<Rightarrow> 'w res"

record ('w, 'g, 'v) Logger =
  lg_Logv :: "'g \<Rightarrow> bytes \<Rightarrow> 'v \<Rightarrow> 'w \<Rightarrow> 'w res"

record ('w, 's, 'r, 'f, 'k, 'g) Env =
  env_NewSequentialFile :: "bytes \<Rightarrow> 'w \<Rightarrow> ((status_value \<times> 's option) \<times> 'w) res"
  env_NewRandomAccessFile :: "bytes \<Rightarrow> 'w \<Rightarrow> ((status_value \<times> 'r option) \<times> 'w) res"
  env_NewWritableFile :: "bytes \<Rightarrow> 'w \<Rightarrow> ((status_value \<times> 'f option) \<times> 'w) res"
  env_NewAppendableFile :: "bytes \<Rightarrow> 'w \<Rightarrow> ((status_value \<times> 'f option) \<times> 'w) res"
  env_FileExists :: "bytes \<Rightarrow> 'w \<Rightarrow> (bool \<times> 'w) res"
  env_GetChildren :: "bytes \<Rightarrow> 'w \<Rightarrow> ((status_value \<times> bytes list) \<times> 'w) res"
  env_DeleteFile :: "bytes \<Rightarrow> 'w \<Rightarrow> (status_value \<times> 'w) res"
  env_CreateDir :: "bytes \<Rightarrow> 'w \<Rightarrow> (status_value \<times> 'w) res"
  env_DeleteDir :: "bytes \<Rightarrow> 'w \<Rightarrow> (status_value \<times> 'w) res"
  env_GetFileSize :: "bytes \<Rightarrow> 'w \<Rightarrow> ((status_value \<times> u64) \<times> 'w) res"
  env_RenameFile :: "bytes \<Rightarrow> bytes \<Rightarrow> 'w \<Rightarrow> (status_value \<times> 'w) res"
  env_LockFile :: "bytes \<Rightarrow> 'w \<Rightarrow> ((status_value \<times> 'k option) \<times> 'w) res"
  env_UnlockFile :: "'k \<Rightarrow> 'w \<Rightarrow> (status_value \<times> 'w) res"
  env_Schedule :: "nat \<Rightarrow> nat \<Rightarrow> 'w \<Rightarrow> 'w res"
  env_StartThread :: "nat \<Rightarrow> nat \<Rightarrow> 'w \<Rightarrow> 'w res"
  env_GetTestDirectory :: "'w \<Rightarrow> ((status_value \<times> bytes) \<times> 'w) res"
  env_NewLogger :: "bytes \<Rightarrow> 'w \<Rightarrow> ((status_value \<times> 'g option) \<times> 'w) res"
  env_NowMicros :: "'w \<Rightarrow> (u64 \<times> 'w) res"
  env_SleepForMicroseconds :: "int \<Rightarrow> 'w \<Rightarrow> 'w res"

subsection \<open>Operations\<close>

text \<open>The body that \<open>Env\<close> itself gives to \<open>NewAppendableFile\<close>.\<close>

definition Env_NewAppendableFile :: "bytes \<Rightarrow> status_value" where
  "Env_NewAppendableFile fname = Some (KNotSupproted, status_message (lit ''NewAppendableFile'') fname)"

definition Log ::
  "('w, 'g, 'v) Logger \<Rightarrow> 'g option \<Rightarrow> bytes \<Rightarrow> 'v \<Rightarrow> 'w \<Rightarrow> 'w res" where
  "Log lg info_log format ap w =
     (case info_log of None \<Rightarrow> Inr w | Some l \<Rightarrow> lg_Logv lg l format ap w)"

definition DoWriteStringToFile ::
  "('w, 's, 'r, 'f, 'k, 'g) Env \<Rightarrow> ('w, 'f) WritableFile \<Rightarrow> slice \<Rightarrow> bytes \<Rightarrow> bool \<Rightarrow> 'w \<Rightarrow>
   (status_value \<times> 'w) res" where
  "DoWriteStringToFile env fops data fname should_sync w =
     rbind (env_NewWritableFile env fname w) (\<lambda>((s, file), w1).
     if s \<noteq> None then Inr (s, w1)
     else case file of
       None \<Rightarrow> Inl Null_pointer
     | Some f1 \<Rightarrow>
         rbind (wf_Append fops f1 data w1) (\<lambda>((s, f2), w2).
         rbind (if s = None \<and> should_sync then wf_Sync fops f2 w2 else Inr ((s, f2), w2)) (\<lambda>((s, f3), w3).
         rbind (if s = None then wf_Close fops f3 w3 else Inr ((s, f3), w3)) (\<lambda>((s, f4), w4).
         rbind (wf_delete fops f4 w4) (\<lambda>w5.
         if s \<noteq> None
         then rbind (env_DeleteFile env fname w5) (\<lambda>(_, w6). Inr (s, w6))
         else Inr (s, w5))))))"

definition WriteStringToFile ::
  "('w, 's, 'r, 'f, 'k, 'g) Env \<Rightarrow> ('w, 'f) WritableFile \<Rightarrow> slice \<Rightarrow> bytes \<Rightarrow> 'w \<Rightarrow>
   (status_value \<times> 'w) res" where
  "WriteStringToFile env fops data fname w = DoWriteStringToFile env fops data fname False w"

definition WriteStringToFileSync ::
  "('w, 's, 'r, 'f, 'k, 'g) Env \<Rightarrow> ('w, 'f) WritableFile \<Rightarrow> slice \<Rightarrow> bytes \<Rightarrow> 'w \<Rightarrow>
   (status_value \<times> 'w) res" where
  "WriteStringToFileSync env fops data fname w = DoWriteStringToFile env fops data fname True w"

definition kBufferSize :: nat where "kBufferSize = 8192"

text \<open>The \<open>while (true)\<close> loop; \<open>None\<close> would be a loop that never ends.\<close>

partial_function (option) read_loop ::
  "('w, 's) SequentialFile \<Rightarrow> 's \<Rightarrow> bytes \<Rightarrow> bytes \<Rightarrow> 'w \<Rightarrow> ((status_value \<times> bytes \<times> 's) \<times> 'w) res option" where
  "read_loop sops f space data w =
     (case sf_Read sops f kBufferSize space w of
        Inl e \<Rightarrow> Some (Inl e)
      | Inr ((s, fragment, space', f'), w') \<Rightarrow>
          if s \<noteq> None then Some (Inr ((s, data, f'), w'))
          else case ptr_read (Slice_Data fragment) (Slice_Size fragment) of
                 Inl e \<Rightarrow> Some (Inl e)
               | Inr bs \<Rightarrow>
                   if Slice_Empty fragment then Some (Inr ((s, data @ bs, f'), w'))
                   else read_loop sops f' space' (data @ bs) w')"

text \<open>The buffer is allocated with bytes of any value, the argument \<open>space\<close>.\<close>

definition ReadFileToString ::
  "('w, 's, 'r, 'f, 'k, 'g) Env \<Rightarrow> ('w, 's) SequentialFile \<Rightarrow> bytes \<Rightarrow> bytes \<Rightarrow> 'w \<Rightarrow>
   ((status_value \<times> bytes) \<times> 'w) res option" where
  "ReadFileToString env sops space fname w =
     (case env_NewSequentialFile env fname w of
        Inl e \<Rightarrow> Some (Inl e)
      | Inr ((s, file), w1) \<Rightarrow>
          if s \<noteq> None then Some (Inr ((s, []), w1))
          else case file of
            None \<Rightarrow> Some (Inl Null_pointer)
          | Some f \<Rightarrow>
              (case read_loop sops f space [] w1 of
                 None \<Rightarrow> None
               | Some (Inl e) \<Rightarrow> Some (Inl e)
               | Some (Inr ((s, data, f'), w2)) \<Rightarrow>
                   Some (rbind (sf_delete sops f' w2) (\<lambda>w3. Inr ((s, data), w3)))))"

text \<open>\<open>EnvWrapper\<close> forwards every method to its target.\<close>

definition EnvWrapper ::
  "('w, 's, 'r, 'f, 'k, 'g) Env \<Rightarrow> ('w, 's, 'r, 'f, 'k, 'g) Env" where
  "EnvWrapper target =
     \<lparr>env_NewSequentialFile = \<lambda>f. env_NewSequentialFile target f,
      env_NewRandomAccessFile = \<lambda>f. env_NewRandomAccessFile target f,
      env_NewWritableFile = \<lambda>f. env_NewWritableFile target f,
      env_NewAppendableFile = \<lambda>f. env_NewAppendableFile target f,
      env_FileExists = \<lambda>f. env_FileExists target f,
      env_GetChildren = \<lambda>dir. env_GetChildren target dir,
      env_DeleteFile = \<lambda>f. env_DeleteFile target f,
      env_CreateDir = \<lambda>d. env_CreateDir target d,
      env_DeleteDir = \<lambda>d. env_DeleteDir target d,
      env_GetFileSize = \<lambda>f. env_GetFileSize target f,
      env_RenameFile = \<lambda>s t. env_RenameFile target s t,
      env_LockFile = \<lambda>f. env_LockFile target f,
      env_UnlockFile = \<lambda>l. env_UnlockFile target l,
      env_Schedule = \<lambda>f a. env_Schedule target f a,
      env_StartThread = \<lambda>f a. env_StartThread target f a,
      env_GetTestDirectory = env_GetTestDirectory target,
      env_NewLogger = \<lambda>fname. env_NewLogger target fname,
      env_NowMicros = env_NowMicros target,
      env_SleepForMicroseconds = \<lambda>micros. env_SleepForMicroseconds target micros\<rparr>"

section \<open>Lemmas\<close>

lemma EnvWrapper_target [simp]: "EnvWrapper t = t"
  by (simp add: EnvWrapper_def)

declare read_loop.simps [code]

subsection \<open>Writing\<close>

text \<open>
  What the writer relies on. \<open>opens\<close> are the system's resources in use and \<open>holds\<close> those an object
  holds; \<open>writing w f name c\<close> says that \<open>f\<close> writes the file \<open>name\<close> and that \<open>c\<close> was appended so far; \<open>calm w name\<close> that no call will fail.
\<close>

locale writable_files =
  fixes env :: "('w, 's, 'r, 'f, 'k, 'g) Env"
    and fops :: "('w, 'f) WritableFile"
    and good :: "'w \<Rightarrow> bool"
    and opens :: "'w \<Rightarrow> 'h set"
    and key :: "bytes \<Rightarrow> 'n"
    and contents :: "'w \<Rightarrow> 'n \<Rightarrow> bytes option"
    and stable :: "'w \<Rightarrow> 'n \<Rightarrow> bytes option"
    and holds :: "'f \<Rightarrow> 'h set"
    and opened :: "'w \<Rightarrow> 'f \<Rightarrow> bytes \<Rightarrow> bool"
    and closed :: "'f \<Rightarrow> bool"
    and writing :: "'w \<Rightarrow> 'f \<Rightarrow> bytes \<Rightarrow> bytes \<Rightarrow> bool"
    and calm :: "'w \<Rightarrow> bytes \<Rightarrow> bool"
  assumes new_law: "good w \<Longrightarrow>
      \<exists>v fo w'. env_NewWritableFile env name w = Inr ((v, fo), w') \<and> good w' \<and>
        (\<forall>k. k \<noteq> key name \<longrightarrow> contents w' k = contents w k) \<and>
        (v = None \<longrightarrow> (\<exists>f. fo = Some f \<and> opened w' f name \<and> writing w' f name [] \<and>
           holds f \<inter> opens w = {} \<and> opens w' = opens w \<union> holds f)) \<and>
        (v \<noteq> None \<longrightarrow> opens w' = opens w \<and> contents w' = contents w) \<and>
        (calm w name \<longrightarrow> v = None \<and> calm w' name)"
    and append_law: "good w \<Longrightarrow> opened w f name \<Longrightarrow> slice_ok d \<Longrightarrow>
      \<exists>v f' w'. wf_Append fops f d w = Inr ((v, f'), w') \<and> good w' \<and> opened w' f' name \<and>
        holds f' = holds f \<and> opens w' = opens w \<and>
        (\<forall>k. k \<noteq> key name \<longrightarrow> contents w' k = contents w k) \<and>
        (\<forall>c. writing w f name c \<and> v = None \<longrightarrow> writing w' f' name (c @ view d)) \<and>
        (calm w name \<longrightarrow> v = None \<and> calm w' name)"
    and sync_law: "good w \<Longrightarrow> opened w f name \<Longrightarrow>
      \<exists>v f' w'. wf_Sync fops f w = Inr ((v, f'), w') \<and> good w' \<and> opened w' f' name \<and>
        holds f' = holds f \<and> opens w' = opens w \<and>
        (\<forall>k. k \<noteq> key name \<longrightarrow> contents w' k = contents w k) \<and>
        (\<forall>c. writing w f name c \<and> v = None \<longrightarrow> writing w' f' name c \<and> stable w' (key name) = Some c) \<and>
        (calm w name \<longrightarrow> v = None \<and> calm w' name)"
    and close_law: "good w \<Longrightarrow> opened w f name \<Longrightarrow>
      \<exists>v f' w'. wf_Close fops f w = Inr ((v, f'), w') \<and> good w' \<and> closed f' \<and> holds f' = {} \<and>
        opens w' = opens w - holds f \<and> stable w' = stable w \<and>
        (\<forall>k. k \<noteq> key name \<longrightarrow> contents w' k = contents w k) \<and>
        (\<forall>c. writing w f name c \<and> v = None \<longrightarrow> contents w' (key name) = Some c) \<and>
        (calm w name \<longrightarrow> v = None \<and> calm w' name)"
    and delete_law: "good w \<Longrightarrow> opened w f name \<or> closed f \<Longrightarrow>
      \<exists>w'. wf_delete fops f w = Inr w' \<and> good w' \<and> opens w' = opens w - holds f \<and>
        (\<forall>k. k \<noteq> key name \<longrightarrow> contents w' k = contents w k) \<and>
        (closed f \<longrightarrow> contents w' = contents w \<and> stable w' = stable w) \<and>
        (calm w name \<longrightarrow> calm w' name)"
    and delete_file_law: "good w \<Longrightarrow>
      \<exists>v w'. env_DeleteFile env name w = Inr (v, w') \<and> good w' \<and> opens w' = opens w \<and>
        (\<forall>k. k \<noteq> key name \<longrightarrow> contents w' k = contents w k) \<and>
        (v = None \<longrightarrow> contents w' (key name) = None) \<and> (v \<noteq> None \<longrightarrow> contents w' = contents w)"
begin

text \<open>The part after the file was opened: append, sync, close.\<close>

lemma write_body:
  assumes g: "good w1" and o: "opened w1 f name" and wr: "writing w1 f name []" and d: "slice_ok d"
  obtains v f4 w4 where
    "rbind (wf_Append fops f d w1) (\<lambda>((s, f2), w2).
       rbind (if s = None \<and> sync then wf_Sync fops f2 w2 else Inr ((s, f2), w2)) (\<lambda>((s, f3), w3).
       if s = None then wf_Close fops f3 w3 else Inr ((s, f3), w3))) = Inr ((v, f4), w4)"
    "good w4" "opened w4 f4 name \<or> closed f4" "opens w4 - holds f4 = opens w1 - holds f"
    "\<forall>k. k \<noteq> key name \<longrightarrow> contents w4 k = contents w1 k"
    "v = None \<longrightarrow> closed f4 \<and> contents w4 (key name) = Some (view d)"
    "v = None \<and> sync \<longrightarrow> stable w4 (key name) = Some (view d)"
    "calm w1 name \<longrightarrow> v = None \<and> calm w4 name"
proof -
  obtain v2 f2 w2 where a: "wf_Append fops f d w1 = Inr ((v2, f2), w2)" "good w2" "opened w2 f2 name"
    "holds f2 = holds f" "opens w2 = opens w1" "\<forall>k. k \<noteq> key name \<longrightarrow> contents w2 k = contents w1 k"
    "v2 = None \<longrightarrow> writing w2 f2 name (view d)" "calm w1 name \<longrightarrow> v2 = None \<and> calm w2 name"
    using append_law [OF g o d] wr by fastforce
  obtain v3 f3 w3 where s:
    "(if v2 = None \<and> sync then wf_Sync fops f2 w2 else Inr ((v2, f2), w2)) = Inr ((v3, f3), w3)"
    "good w3" "opened w3 f3 name" "holds f3 = holds f" "opens w3 = opens w1"
    "\<forall>k. k \<noteq> key name \<longrightarrow> contents w3 k = contents w1 k"
    "v3 = None \<longrightarrow> writing w3 f3 name (view d) \<and> (sync \<longrightarrow> stable w3 (key name) = Some (view d))"
    "calm w1 name \<longrightarrow> v3 = None \<and> calm w3 name"
  proof (cases "v2 = None \<and> sync")
    case True
    then show ?thesis using sync_law [OF a(2,3)] a that by auto
  next
    case False
    then show ?thesis using a that by auto
  qed
  show ?thesis
  proof (cases "v3 = None")
    case True
    then show ?thesis using close_law [OF s(2,3)] s a that by fastforce
  next
    case False
    show ?thesis by (rule that [of v3 f3 w3]) (use s a False in \<open>simp_all del: not_None_eq\<close>)
  qed
qed

lemma DoWriteStringToFile_contract:
  assumes g: "good w" and d: "slice_ok d"
  shows "\<exists>v w'. DoWriteStringToFile env fops d name sync w = Inr (v, w') \<and> good w' \<and> opens w' = opens w \<and>
    (\<forall>k. k \<noteq> key name \<longrightarrow> contents w' k = contents w k) \<and>
    (v = None \<longrightarrow> contents w' (key name) = Some (view d)) \<and>
    (v = None \<and> sync \<longrightarrow> stable w' (key name) = Some (view d)) \<and>
    (calm w name \<longrightarrow> v = None \<and> calm w' name) \<and>
    (v \<noteq> None \<longrightarrow> contents w' = contents w \<or>
       (\<exists>v1 w1. env_DeleteFile env name w1 = Inr (v1, w') \<and> (v1 = None \<longrightarrow> contents w' (key name) = None)))"
proof -
  obtain v1 fo w1 where n: "env_NewWritableFile env name w = Inr ((v1, fo), w1)" "good w1"
    "\<forall>k. k \<noteq> key name \<longrightarrow> contents w1 k = contents w k"
    "v1 = None \<longrightarrow> (\<exists>f. fo = Some f \<and> opened w1 f name \<and> writing w1 f name [] \<and>
       holds f \<inter> opens w = {} \<and> opens w1 = opens w \<union> holds f)"
    "v1 \<noteq> None \<longrightarrow> opens w1 = opens w \<and> contents w1 = contents w"
    "calm w name \<longrightarrow> v1 = None \<and> calm w1 name"
    using new_law [OF g, of name] by (elim exE conjE) (rule that)
  show ?thesis
  proof (cases "v1 = None")
    case False
    then show ?thesis using n by (simp add: DoWriteStringToFile_def del: not_None_eq)
  next
    case True
    then obtain f where f: "fo = Some f" "opened w1 f name" "writing w1 f name []"
      "opens w1 - holds f = opens w" using n(4) by blast
    obtain v f4 w4 where b:
      "rbind (wf_Append fops f d w1) (\<lambda>((s, f2), w2).
         rbind (if s = None \<and> sync then wf_Sync fops f2 w2 else Inr ((s, f2), w2)) (\<lambda>((s, f3), w3).
         if s = None then wf_Close fops f3 w3 else Inr ((s, f3), w3))) = Inr ((v, f4), w4)"
      "good w4" "opened w4 f4 name \<or> closed f4" "opens w4 - holds f4 = opens w1 - holds f"
      "\<forall>k. k \<noteq> key name \<longrightarrow> contents w4 k = contents w1 k"
      "v = None \<longrightarrow> closed f4 \<and> contents w4 (key name) = Some (view d)"
      "v = None \<and> sync \<longrightarrow> stable w4 (key name) = Some (view d)"
      "calm w1 name \<longrightarrow> v = None \<and> calm w4 name"
      using write_body [OF n(2) f(2,3) d] by blast
    obtain w5 where w5: "wf_delete fops f4 w4 = Inr w5" "good w5" "opens w5 = opens w"
      "\<forall>k. k \<noteq> key name \<longrightarrow> contents w5 k = contents w k"
      "closed f4 \<longrightarrow> contents w5 = contents w4 \<and> stable w5 = stable w4" "calm w4 name \<longrightarrow> calm w5 name"
      using delete_law [OF b(2,3)] b(4,5) f(4) n(3) by metis
    have eq: "DoWriteStringToFile env fops d name sync w =
        rbind (wf_delete fops f4 w4) (\<lambda>w5.
          if v \<noteq> None then rbind (env_DeleteFile env name w5) (\<lambda>(_, w6). Inr (v, w6)) else Inr (v, w5))"
      using n(1) True f(1) b(1)
      by (auto simp: DoWriteStringToFile_def rbind_eq_Inr split: prod.splits)
    show ?thesis
    proof (cases "v = None")
      case True
      then show ?thesis using eq w5 b n(6) by auto
    next
      case False
      obtain v6 w6 where d6: "env_DeleteFile env name w5 = Inr (v6, w6)" "good w6" "opens w6 = opens w"
        "\<forall>k. k \<noteq> key name \<longrightarrow> contents w6 k = contents w k"
        "v6 = None \<longrightarrow> contents w6 (key name) = None"
        using delete_file_law [OF w5(2)] w5(3,4) by metis
      show ?thesis using eq w5 d6 False b(8) n(6) by auto
    qed
  qed
qed

end

subsection \<open>Reading\<close>

text \<open>\<open>reading w f rest\<close>: the bytes of the file that \<open>f\<close> has still to deliver.\<close>

locale readable_files =
  fixes env :: "('w, 's, 'r, 'f, 'k, 'g) Env"
    and sops :: "('w, 's) SequentialFile"
    and good :: "'w \<Rightarrow> bool"
    and opens :: "'w \<Rightarrow> 'h set"
    and key :: "bytes \<Rightarrow> 'n"
    and contents :: "'w \<Rightarrow> 'n \<Rightarrow> bytes option"
    and reader_holds :: "'s \<Rightarrow> 'h set"
    and reading :: "'w \<Rightarrow> 's \<Rightarrow> bytes \<Rightarrow> bool"
    and calm :: "'w \<Rightarrow> bytes \<Rightarrow> bool"
  assumes open_law: "good w \<Longrightarrow>
      \<exists>v fo w'. env_NewSequentialFile env name w = Inr ((v, fo), w') \<and> good w' \<and>
        contents w' = contents w \<and>
        (v = None \<longrightarrow> (\<exists>f c. fo = Some f \<and> contents w (key name) = Some c \<and> reading w' f c \<and>
           reader_holds f \<inter> opens w = {} \<and> opens w' = opens w \<union> reader_holds f)) \<and>
        (v \<noteq> None \<longrightarrow> opens w' = opens w) \<and>
        (calm w name \<and> contents w (key name) \<noteq> None \<longrightarrow> v = None \<and> calm w' name)"
    and read_law: "good w \<Longrightarrow> reading w f rest \<Longrightarrow> n \<le> length scratch \<Longrightarrow>
      \<exists>v sl sc f' w' rest'. sf_Read sops f n scratch w = Inr ((v, sl, sc, f'), w') \<and> good w' \<and>
        contents w' = contents w \<and> opens w' = opens w \<and> reader_holds f' = reader_holds f \<and>
        length sc = length scratch \<and> slice_ok sl \<and> rest = view sl @ rest' \<and> reading w' f' rest' \<and>
        (v = None \<longrightarrow> view sl = take n rest) \<and>
        (\<forall>name. calm w name \<longrightarrow> v = None \<and> calm w' name)"
    and reader_delete_law: "good w \<Longrightarrow> reading w f rest \<Longrightarrow>
      \<exists>w'. sf_delete sops f w = Inr w' \<and> good w' \<and> contents w' = contents w \<and>
        opens w' = opens w - reader_holds f \<and> (\<forall>name. calm w name \<longrightarrow> calm w' name)"
begin

text \<open>Each turn of the loop shortens what is left, or is the last.\<close>

lemma read_loop_contract:
  assumes "good w" and "reading w f rest" and "kBufferSize \<le> length space"
  shows "\<exists>v got f' w' rest'. read_loop sops f space data w = Some (Inr ((v, data @ got, f'), w')) \<and> good w' \<and>
    contents w' = contents w \<and> opens w' = opens w \<and> reader_holds f' = reader_holds f \<and>
    reading w' f' rest' \<and> (\<exists>tail. rest = got @ tail) \<and> (v = None \<longrightarrow> rest = got) \<and>
    (\<forall>name. calm w name \<longrightarrow> v = None \<and> calm w' name)"
  using assms
proof (induction "length rest" arbitrary: w f rest space data rule: less_induct)
  case less
  obtain v sl sc f' w' rest' where r: "sf_Read sops f kBufferSize space w = Inr ((v, sl, sc, f'), w')"
    "good w'" "contents w' = contents w" "opens w' = opens w" "reader_holds f' = reader_holds f"
    "length sc = length space" "slice_ok sl" "rest = view sl @ rest'" "reading w' f' rest'"
    "v = None \<longrightarrow> view sl = take kBufferSize rest" "\<forall>name. calm w name \<longrightarrow> v = None \<and> calm w' name"
    using read_law [OF less.prems] by (elim exE conjE) (rule that)
  have rd: "ptr_read (Slice_Data sl) (Slice_Size sl) = Inr (view sl)"
    using r(7) by (simp add: Slice_Data_def Slice_Size_def)
  have em: "Slice_Empty sl = (view sl = [])"
    using length_view [OF r(7)] by (auto simp: Slice_Empty_def)
  consider (err) "v \<noteq> None" | (last) "v = None" "view sl = []" | (more) "v = None" "view sl \<noteq> []" by blast
  then show ?case
  proof cases
    case err
    then have "read_loop sops f space data w = Some (Inr ((v, data @ [], f'), w'))"
      using r(1) by (subst read_loop.simps) simp
    then show ?thesis using r err by auto
  next
    case last
    then have "read_loop sops f space data w = Some (Inr ((v, data @ [], f'), w'))"
      using r(1) rd em by (subst read_loop.simps) simp
    moreover have "rest = []" using last r(10) by (auto simp: kBufferSize_def)
    ultimately show ?thesis using r last by auto
  next
    case more
    have eq: "read_loop sops f space data w = read_loop sops f' sc (data @ view sl) w'"
      using more r(1) rd em by (subst read_loop.simps) simp
    have "length rest' < length rest" using more r(8) by simp
    from less.hyps [OF this r(2,9)] less.prems(3) r(6)
    obtain v2 got f2 w2 rest2 where
      "read_loop sops f' sc (data @ view sl) w' = Some (Inr ((v2, (data @ view sl) @ got, f2), w2))" "good w2"
      "contents w2 = contents w'" "opens w2 = opens w'" "reader_holds f2 = reader_holds f'"
      "reading w2 f2 rest2" "\<exists>tail. rest' = got @ tail" "v2 = None \<longrightarrow> rest' = got"
      "\<forall>name. calm w' name \<longrightarrow> v2 = None \<and> calm w2 name"
      by metis
    then show ?thesis using eq r by (intro exI [of _ v2] exI [of _ "view sl @ got"]) auto
  qed
qed

lemma ReadFileToString_contract:
  assumes g: "good w" and sp: "length space = kBufferSize"
  shows "\<exists>v data w'. ReadFileToString env sops space name w = Some (Inr ((v, data), w')) \<and> good w' \<and>
    contents w' = contents w \<and> opens w' = opens w \<and>
    (v = None \<longrightarrow> contents w (key name) = Some data) \<and>
    (data \<noteq> [] \<longrightarrow> (\<exists>tail. contents w (key name) = Some (data @ tail))) \<and>
    (calm w name \<and> contents w (key name) \<noteq> None \<longrightarrow> v = None \<and> calm w' name)"
proof -
  obtain v1 fo w1 where n: "env_NewSequentialFile env name w = Inr ((v1, fo), w1)" "good w1"
    "contents w1 = contents w"
    "v1 = None \<longrightarrow> (\<exists>f c. fo = Some f \<and> contents w (key name) = Some c \<and> reading w1 f c \<and>
       reader_holds f \<inter> opens w = {} \<and> opens w1 = opens w \<union> reader_holds f)"
    "v1 \<noteq> None \<longrightarrow> opens w1 = opens w"
    "calm w name \<and> contents w (key name) \<noteq> None \<longrightarrow> v1 = None \<and> calm w1 name"
    using open_law [OF g, of name] by (elim exE conjE) (rule that)
  show ?thesis
  proof (cases "v1 = None")
    case False
    then show ?thesis using n by (simp add: ReadFileToString_def del: not_None_eq)
  next
    case True
    then obtain f c where f: "fo = Some f" "contents w (key name) = Some c" "reading w1 f c"
      "opens w1 - reader_holds f = opens w" using n(4) by blast
    obtain v got f' w2 rest' where l: "read_loop sops f space [] w1 = Some (Inr ((v, [] @ got, f'), w2))"
      "good w2" "contents w2 = contents w1" "opens w2 = opens w1" "reader_holds f' = reader_holds f"
      "reading w2 f' rest'" "\<exists>tail. c = got @ tail" "v = None \<longrightarrow> c = got"
      "\<forall>name. calm w1 name \<longrightarrow> v = None \<and> calm w2 name"
      using read_loop_contract [OF n(2) f(3) eq_imp_le [OF sp [symmetric]], of "[]"]
      by (elim exE conjE) (rule that, auto)
    obtain w3 where d: "sf_delete sops f' w2 = Inr w3" "good w3" "contents w3 = contents w"
      "opens w3 = opens w" "\<forall>name. calm w2 name \<longrightarrow> calm w3 name"
      using reader_delete_law [OF l(2,6)] l(3,4,5) f(4) n(3) by metis
    have "ReadFileToString env sops space name w = Some (Inr ((v, got), w3))"
      using n(1) True f(1) l(1) d(1) by (simp add: ReadFileToString_def)
    moreover have "calm w name \<Longrightarrow> v = None \<and> calm w3 name" using n(6) f(2) l(9) d(5) by blast
    moreover have "v = None \<longrightarrow> contents w (key name) = Some got"
      "got \<noteq> [] \<longrightarrow> (\<exists>tail. contents w (key name) = Some (got @ tail))"
      using l(7,8) f(2) by auto
    ultimately show ?thesis using d(2-4) by blast
  qed
qed

end

subsection \<open>Both\<close>

locale file_store = writable_files + readable_files env sops good opens key contents reader_holds reading calm
  for sops and reader_holds and reading
begin

lemma write_then_read:
  assumes g: "good w" and d: "slice_ok d" and sp: "length space = kBufferSize"
    and w1: "DoWriteStringToFile env fops d name sync w = Inr (None, w1)"
    and r: "ReadFileToString env sops space name w1 = Some (Inr ((None, data), w2))"
  shows "data = view d"
proof -
  have "good w1" "contents w1 (key name) = Some (view d)"
    using DoWriteStringToFile_contract [OF g d, of name sync] w1 by auto
  then show ?thesis using ReadFileToString_contract [OF _ sp, of w1 name] r by auto
qed

end

end
