(* ===== verification/Posix_World.thy ===== *)
theory Posix_World
  imports Status_Val
begin

text \<open>
  What \<open>PosixEnv\<close> uses of the C library and of POSIX: streams (\<open>fopen\<close>, \<open>fread\<close>, \<open>fwrite\<close>,
  \<open>fseek\<close>, \<open>fflush\<close>, \<open>fclose\<close>), descriptors (\<open>open\<close>, \<open>pread\<close>, \<open>fsync\<close>, \<open>close\<close>), mappings
  (\<open>mmap\<close>, \<open>munmap\<close>), record locks (\<open>fcntl\<close>) and names (\<open>access\<close>, \<open>unlink\<close>, \<open>rename\<close>, \<open>mkdir\<close>,
  \<open>rmdir\<close>, \<open>opendir\<close>). A file is identified by its name and is its
  contents, and beside them what the last \<open>fsync\<close> of it
  made durable; a stream has a position and the bytes written but not yet flushed; a record
  lock belongs to the process and, as POSIX has it, is dropped when the process closes any
  descriptor of the file. Every call that can fail takes its outcome from
  a script, so that the theorems, which hold for every script, cover every pattern of errors:
  an outcome is the number of bytes transferred before the error and the \<open>errno\<close> value, zero
  for success. Using a stream or a descriptor that is not open is undefined and a fault.
\<close>

section \<open>Definitions\<close>

record Stream =
  st_name :: bytes
  st_pos :: nat
  st_pending :: bytes
  st_eof :: bool

record World =
  disk :: "bytes \<Rightarrow> bytes option"
  streams :: "nat \<Rightarrow> Stream option"
  fds :: "nat \<Rightarrow> bytes option"
  maps :: "nat \<Rightarrow> bytes option"
  next_handle :: nat
  durable :: "bytes \<Rightarrow> bytes option"
  fd_syncs :: "bytes list"
  held :: "bytes set"
  foreign :: "bytes set"
  dirs :: "bytes \<Rightarrow> bytes list option"
  environ :: "bytes \<Rightarrow> bytes option"
  script :: "(nat \<times> int) list"
  err_no :: int
  strerror :: "int \<Rightarrow> bytes"

definition ENOENT :: int where "ENOENT = 2"
definition EACCES :: int where "EACCES = 13"
definition EEXIST :: int where "EEXIST = 17"
definition ENODEV :: int where "ENODEV = 19"
definition EISDIR :: int where "EISDIR = 21"
definition EINVAL :: int where "EINVAL = 22"

text \<open>\<open>c_str()\<close> read as a C string: up to the first NUL.\<close>

definition c_str :: "bytes \<Rightarrow> bytes" where
  "c_str name = takeWhile (\<lambda>b. b \<noteq> 0) name"

definition take_outcome :: "World \<Rightarrow> (nat \<times> int) \<times> World" where
  "take_outcome w =
     (case script w of [] \<Rightarrow> ((0, 0), w) | x # xs \<Rightarrow> (x, w\<lparr>script := xs\<rparr>))"

definition fail_with :: "int \<Rightarrow> World \<Rightarrow> World" where
  "fail_with e w = w\<lparr>err_no := e\<rparr>"

definition get_stream :: "nat option \<Rightarrow> World \<Rightarrow> Stream res" where
  "get_stream f w =
     (case f of None \<Rightarrow> Inl Null_pointer
      | Some h \<Rightarrow> (case streams w h of None \<Rightarrow> Inl Dangling | Some st \<Rightarrow> Inr st))"

definition put_stream :: "nat option \<Rightarrow> Stream option \<Rightarrow> World \<Rightarrow> World" where
  "put_stream f st w = w\<lparr>streams := (streams w)(the f := st)\<rparr>"

definition file_bytes :: "World \<Rightarrow> bytes \<Rightarrow> bytes" where
  "file_bytes w name = (case disk w name of None \<Rightarrow> [] | Some c \<Rightarrow> c)"

datatype fmode = Fread | Fwrite | Fappend

definition c_fopen :: "bytes \<Rightarrow> fmode \<Rightarrow> World \<Rightarrow> nat option \<times> World" where
  "c_fopen name mode w =
     (case take_outcome w of ((k, e), w1) \<Rightarrow>
        if e \<noteq> 0 then (None, fail_with e w1)
        else if mode = Fread \<and> disk w1 name = None then (None, fail_with ENOENT w1)
        else
          (let h = next_handle w1;
               w2 = (case mode of
                       Fread \<Rightarrow> w1
                     | Fwrite \<Rightarrow> w1\<lparr>disk := (disk w1)(name \<mapsto> [])\<rparr>
                     | Fappend \<Rightarrow> w1\<lparr>disk := (disk w1)(name \<mapsto> file_bytes w1 name)\<rparr>)
           in (Some h, w2\<lparr>next_handle := h + 1,
                 streams := (streams w2)(h \<mapsto>
                   \<lparr>st_name = name, st_pos = 0, st_pending = [], st_eof = False\<rparr>)\<rparr>)))"

text \<open>
  \<open>fread\<close>: the bytes read; a short count without an error is the end of the file, which the
  stream remembers.
\<close>

definition c_fread :: "nat \<Rightarrow> nat option \<Rightarrow> World \<Rightarrow> (bytes \<times> World) res" where
  "c_fread n f w =
     rbind (get_stream f w) (\<lambda>st.
     case take_outcome w of ((k, e), w1) \<Rightarrow>
       (let avail = take n (drop (st_pos st) (file_bytes w1 (st_name st)));
            got = (if e = 0 then avail else take (min k (n - 1)) avail);
            st' = st\<lparr>st_pos := st_pos st + length got, st_eof := st_eof st \<or> (e = 0 \<and> length got < n)\<rparr>
        in Inr (got, put_stream f (Some st') (if e = 0 then w1 else fail_with e w1))))"

definition c_feof :: "nat option \<Rightarrow> World \<Rightarrow> bool res" where
  "c_feof f w = rbind (get_stream f w) (\<lambda>st. Inr (st_eof st))"

text \<open>\<open>fseek\<close> from the current position; a position before the start is an error.\<close>

definition c_fseek :: "nat option \<Rightarrow> int \<Rightarrow> World \<Rightarrow> (int \<times> World) res" where
  "c_fseek f off w =
     rbind (get_stream f w) (\<lambda>st.
     case take_outcome w of ((k, e), w1) \<Rightarrow>
       if e \<noteq> 0 then Inr (- 1, fail_with e w1)
       else if int (st_pos st) + off < 0 then Inr (- 1, fail_with EINVAL w1)
       else Inr (0, put_stream f (Some (st\<lparr>st_pos := nat (int (st_pos st) + off), st_eof := False\<rparr>)) w1))"

text \<open>\<open>fwrite\<close>: the number of bytes accepted, all of them unless there is an error.\<close>

definition c_fwrite :: "bytes \<Rightarrow> nat option \<Rightarrow> World \<Rightarrow> (nat \<times> World) res" where
  "c_fwrite bs f w =
     rbind (get_stream f w) (\<lambda>st.
     if bs = [] then Inr (0, w)
     else case take_outcome w of ((k, e), w1) \<Rightarrow>
       (let got = (if e = 0 then bs else take (min k (length bs - 1)) bs)
        in Inr (length got, put_stream f (Some (st\<lparr>st_pending := st_pending st @ got\<rparr>))
             (if e = 0 then w1 else fail_with e w1))))"

text \<open>Writing out what is pending; after an error a part of it may have reached the file.\<close>

definition flush_stream :: "Stream \<Rightarrow> World \<Rightarrow> int \<times> Stream \<times> World" where
  "flush_stream st w =
     (case take_outcome w of ((k, e), w1) \<Rightarrow>
        (let out = (if e = 0 then st_pending st else take k (st_pending st));
             w2 = (if out = [] \<or> disk w1 (st_name st) = None then w1
                   else w1\<lparr>disk := (disk w1)(st_name st \<mapsto> file_bytes w1 (st_name st) @ out)\<rparr>)
         in if e = 0 then (0, st\<lparr>st_pending := []\<rparr>, w2)
            else (- 1, st\<lparr>st_pending := drop k (st_pending st)\<rparr>, fail_with e w2)))"

definition c_fflush :: "nat option \<Rightarrow> World \<Rightarrow> (int \<times> World) res" where
  "c_fflush f w =
     rbind (get_stream f w) (\<lambda>st.
     case flush_stream st w of (r, st', w1) \<Rightarrow> Inr (r, put_stream f (Some st') w1))"

text \<open>Closing a stream closes its descriptor, and with it the locks of the process on the file go.\<close>

definition c_fclose :: "nat option \<Rightarrow> World \<Rightarrow> (int \<times> World) res" where
  "c_fclose f w =
     rbind (get_stream f w) (\<lambda>st.
     case flush_stream st w of (r, st', w1) \<Rightarrow>
       Inr (r, (put_stream f None w1)\<lparr>held := held w1 - {st_name st}\<rparr>))"

text \<open>Descriptors. \<open>open\<close> for reading, and with \<open>O_CREAT\<close> for writing.\<close>

definition new_fd :: "bytes \<Rightarrow> World \<Rightarrow> nat option \<times> World" where
  "new_fd name w =
     (Some (next_handle w), w\<lparr>next_handle := next_handle w + 1, fds := (fds w)(next_handle w \<mapsto> name)\<rparr>)"

definition c_open_read :: "bytes \<Rightarrow> World \<Rightarrow> nat option \<times> World" where
  "c_open_read name w =
     (case take_outcome w of ((k, e), w1) \<Rightarrow>
        if e \<noteq> 0 then (None, fail_with e w1)
        else if disk w1 name = None \<and> dirs w1 name = None then (None, fail_with ENOENT w1)
        else new_fd name w1)"

definition c_open_create :: "bytes \<Rightarrow> World \<Rightarrow> nat option \<times> World" where
  "c_open_create name w =
     (case take_outcome w of ((k, e), w1) \<Rightarrow>
        if e \<noteq> 0 then (None, fail_with e w1)
        else new_fd name (w1\<lparr>disk := (disk w1)(name \<mapsto> file_bytes w1 name)\<rparr>))"

definition c_close :: "nat \<Rightarrow> World \<Rightarrow> World res" where
  "c_close fd w =
     (case fds w fd of
        None \<Rightarrow> Inl Dangling
      | Some name \<Rightarrow> Inr (w\<lparr>fds := (fds w)(fd := None), held := held w - {name}\<rparr>))"

definition c_fsync :: "nat \<Rightarrow> World \<Rightarrow> (int \<times> World) res" where
  "c_fsync fd w =
     (case fds w fd of
        None \<Rightarrow> Inl Dangling
      | Some name \<Rightarrow>
          (case take_outcome w of ((k, e), w1) \<Rightarrow>
             if e \<noteq> 0 then Inr (- 1, fail_with e w1)
             else Inr (0, w1\<lparr>fd_syncs := name # fd_syncs w1\<rparr>)))"

text \<open>\<open>fsync(fileno(f))\<close>: what has been flushed to the file becomes durable.\<close>

definition c_fsync_stream :: "nat option \<Rightarrow> World \<Rightarrow> (int \<times> World) res" where
  "c_fsync_stream f w =
     rbind (get_stream f w) (\<lambda>st.
     case take_outcome w of ((k, e), w1) \<Rightarrow>
       if e \<noteq> 0 then Inr (- 1, fail_with e w1)
       else Inr (0, w1\<lparr>durable := (durable w1)(st_name st := disk w1 (st_name st))\<rparr>))"

text \<open>\<open>fcntl(fd, F_SETLK)\<close> with an exclusive lock on the whole file, or its release.\<close>

definition c_setlk :: "nat \<Rightarrow> bool \<Rightarrow> World \<Rightarrow> (int \<times> World) res" where
  "c_setlk fd lock w =
     (case fds w fd of
        None \<Rightarrow> Inl Dangling
      | Some name \<Rightarrow>
          (case take_outcome w of ((k, e), w1) \<Rightarrow>
             if e \<noteq> 0 then Inr (- 1, fail_with e w1)
             else if \<not> lock then Inr (0, w1\<lparr>held := held w1 - {name}\<rparr>)
             else if name \<in> foreign w1 then Inr (- 1, fail_with EACCES w1)
             else Inr (0, w1\<lparr>held := insert name (held w1)\<rparr>)))"

text \<open>\<open>mmap\<close> of a whole file; a length of zero is an error.\<close>

definition c_mmap :: "nat \<Rightarrow> nat \<Rightarrow> World \<Rightarrow> (nat option \<times> World) res" where
  "c_mmap fd n w =
     (case fds w fd of
        None \<Rightarrow> Inl Dangling
      | Some name \<Rightarrow>
          (case take_outcome w of ((k, e), w1) \<Rightarrow>
             if e \<noteq> 0 then Inr (None, fail_with e w1)
             else if n = 0 then Inr (None, fail_with EINVAL w1)
             else if disk w1 name = None then Inr (None, fail_with ENODEV w1)
             else Inr (Some (next_handle w1), w1\<lparr>next_handle := next_handle w1 + 1,
                    maps := (maps w1)(next_handle w1 \<mapsto> name)\<rparr>)))"

definition c_munmap :: "nat \<Rightarrow> World \<Rightarrow> World res" where
  "c_munmap m w = (if maps w m = None then Inl Dangling else Inr (w\<lparr>maps := (maps w)(m := None)\<rparr>))"

text \<open>\<open>pread\<close>: the bytes at an offset, or an error.\<close>

definition c_pread :: "nat \<Rightarrow> nat \<Rightarrow> int \<Rightarrow> World \<Rightarrow> (bytes option \<times> World) res" where
  "c_pread fd n off w =
     (case fds w fd of
        None \<Rightarrow> Inl Dangling
      | Some name \<Rightarrow>
          (case take_outcome w of ((k, e), w1) \<Rightarrow>
             if e \<noteq> 0 then Inr (None, fail_with e w1)
             else if off < 0 then Inr (None, fail_with EINVAL w1)
             else if disk w1 name = None \<and> dirs w1 name \<noteq> None then Inr (None, fail_with EISDIR w1)
             else Inr (Some (take n (drop (nat off) (file_bytes w1 name))), w1)))"

text \<open>Names.\<close>

definition c_unlink :: "bytes \<Rightarrow> World \<Rightarrow> int \<times> World" where
  "c_unlink name w =
     (case take_outcome w of ((k, e), w1) \<Rightarrow>
        if e \<noteq> 0 then (- 1, fail_with e w1)
        else if disk w1 name = None then (- 1, fail_with ENOENT w1)
        else (0, w1\<lparr>disk := (disk w1)(name := None)\<rparr>))"

definition c_rename :: "bytes \<Rightarrow> bytes \<Rightarrow> World \<Rightarrow> int \<times> World" where
  "c_rename src target w =
     (case take_outcome w of ((k, e), w1) \<Rightarrow>
        if e \<noteq> 0 then (- 1, fail_with e w1)
        else case disk w1 src of
               None \<Rightarrow> (- 1, fail_with ENOENT w1)
             | Some c \<Rightarrow> (0, w1\<lparr>disk := (disk w1)(src := None, target := Some c)\<rparr>))"

text \<open>\<open>access(F_OK)\<close>.\<close>

definition c_access :: "bytes \<Rightarrow> World \<Rightarrow> int \<times> World" where
  "c_access name w =
     (case take_outcome w of ((k, e), w1) \<Rightarrow>
        if e \<noteq> 0 then (- 1, fail_with e w1)
        else if disk w1 name = None \<and> dirs w1 name = None then (- 1, fail_with ENOENT w1)
        else (0, w1))"

text \<open>\<open>stat\<close>: the size; that of a directory may be anything.\<close>

definition c_stat :: "bytes \<Rightarrow> World \<Rightarrow> nat option \<times> World" where
  "c_stat name w =
     (case take_outcome w of ((k, e), w1) \<Rightarrow>
        if e \<noteq> 0 then (None, fail_with e w1)
        else case disk w1 name of
               None \<Rightarrow> if dirs w1 name = None then (None, fail_with ENOENT w1) else (Some k, w1)
             | Some c \<Rightarrow> (Some (length c), w1))"

definition c_mkdir :: "bytes \<Rightarrow> World \<Rightarrow> int \<times> World" where
  "c_mkdir name w =
     (case take_outcome w of ((k, e), w1) \<Rightarrow>
        if e \<noteq> 0 then (- 1, fail_with e w1)
        else if dirs w1 name \<noteq> None then (- 1, fail_with EEXIST w1)
        else (0, w1\<lparr>dirs := (dirs w1)(name \<mapsto> [lit ''.'', lit ''..''])\<rparr>))"

definition c_rmdir :: "bytes \<Rightarrow> World \<Rightarrow> int \<times> World" where
  "c_rmdir name w =
     (case take_outcome w of ((k, e), w1) \<Rightarrow>
        if e \<noteq> 0 then (- 1, fail_with e w1)
        else if dirs w1 name = None then (- 1, fail_with ENOENT w1)
        else (0, w1\<lparr>dirs := (dirs w1)(name := None)\<rparr>))"

text \<open>\<open>opendir\<close>: the stream of entries that \<open>readdir\<close> will deliver.\<close>

definition c_opendir :: "bytes \<Rightarrow> World \<Rightarrow> bytes list option \<times> World" where
  "c_opendir name w =
     (case take_outcome w of ((k, e), w1) \<Rightarrow>
        if e \<noteq> 0 then (None, fail_with e w1)
        else case dirs w1 name of
               None \<Rightarrow> (None, fail_with ENOENT w1)
             | Some es \<Rightarrow> (Some es, w1))"

definition world_ok :: "World \<Rightarrow> bool" where
  "world_ok w \<longleftrightarrow> (\<forall>h \<ge> next_handle w. streams w h = None \<and> fds w h = None \<and> maps w h = None)"

section \<open>Lemmas\<close>

lemma take_outcome_simps [simp]:
  "disk (snd (take_outcome w)) = disk w" "streams (snd (take_outcome w)) = streams w"
  "fds (snd (take_outcome w)) = fds w" "maps (snd (take_outcome w)) = maps w"
  "next_handle (snd (take_outcome w)) = next_handle w"
  "durable (snd (take_outcome w)) = durable w" "fd_syncs (snd (take_outcome w)) = fd_syncs w"
  "held (snd (take_outcome w)) = held w" "foreign (snd (take_outcome w)) = foreign w"
  "dirs (snd (take_outcome w)) = dirs w" "environ (snd (take_outcome w)) = environ w"
  "strerror (snd (take_outcome w)) = strerror w"
  by (simp_all add: take_outcome_def split: list.split)

text \<open>An outcome is taken in one step: the rest of the world stays.\<close>

definition same_world :: "World \<Rightarrow> World \<Rightarrow> bool" where
  "same_world w1 w \<longleftrightarrow>
     disk w1 = disk w \<and> streams w1 = streams w \<and> fds w1 = fds w \<and> maps w1 = maps w \<and>
     next_handle w1 = next_handle w \<and> durable w1 = durable w \<and> fd_syncs w1 = fd_syncs w \<and>
     held w1 = held w \<and> foreign w1 = foreign w \<and> dirs w1 = dirs w \<and> environ w1 = environ w \<and>
     strerror w1 = strerror w"

lemma take_outcomeE:
  obtains k e w1 where "take_outcome w = ((k, e), w1)" "same_world w1 w"
  using take_outcome_simps [of w] unfolding same_world_def by (cases "take_outcome w") force

lemma fail_with_simps [simp]:
  "disk (fail_with e w) = disk w" "streams (fail_with e w) = streams w" "fds (fail_with e w) = fds w"
  "maps (fail_with e w) = maps w" "next_handle (fail_with e w) = next_handle w"
  "durable (fail_with e w) = durable w" "fd_syncs (fail_with e w) = fd_syncs w"
  "held (fail_with e w) = held w" "foreign (fail_with e w) = foreign w" "dirs (fail_with e w) = dirs w"
  "environ (fail_with e w) = environ w" "strerror (fail_with e w) = strerror w"
  by (simp_all add: fail_with_def)

lemma put_stream_simps [simp]:
  "disk (put_stream f st w) = disk w" "fds (put_stream f st w) = fds w" "maps (put_stream f st w) = maps w"
  "next_handle (put_stream f st w) = next_handle w" "durable (put_stream f st w) = durable w"
  "fd_syncs (put_stream f st w) = fd_syncs w" "held (put_stream f st w) = held w"
  "strerror (put_stream f st w) = strerror w"
  "file_bytes (put_stream f st w) name = file_bytes w name"
  "streams (put_stream (Some h) st w) = (streams w)(h := st)"
  by (simp_all add: put_stream_def file_bytes_def)

lemma get_stream_Some [simp]: "streams w h = Some st \<Longrightarrow> get_stream (Some h) w = Inr st"
  by (simp add: get_stream_def)

lemma c_str_id: "0 \<notin> set name \<Longrightarrow> c_str name = name"
  by (auto simp: c_str_def takeWhile_eq_all_conv)

end
