(* ===== verification/Posix_Files.thy ===== *)
theory Posix_Files
  imports Posix_World
begin

text \<open>
  The stream based files of src/db/Env_posix.cpp: \<open>PosixSequentialFile\<close> and \<open>PosixWritableFile\<close>,
  with the \<open>IOError\<close> helper. The lemmas give, for every operation and every outcome of the
  system calls under it, the result, the object and the world afterwards.
\<close>

section \<open>Definitions\<close>

definition IOError :: "bytes \<Rightarrow> int \<Rightarrow> World \<Rightarrow> status_value" where
  "IOError ctxt err_number w = Some (KIOError, status_message ctxt (strerror w err_number))"

subsection \<open>PosixSequentialFile\<close>

record PosixSequentialFile =
  sq_filename :: bytes
  sq_file :: "nat option"

definition Sequential_Read ::
  "PosixSequentialFile \<Rightarrow> nat \<Rightarrow> bytes \<Rightarrow> World \<Rightarrow> ((status_value \<times> slice \<times> bytes) \<times> World) res" where
  "Sequential_Read f n scratch w =
     rbind (c_fread n (sq_file f) w) (\<lambda>(got, w1).
     rbind (mem_write scratch 0 got) (\<lambda>scratch'.
     let byte_read = length got; result = Slice_ptr (scratch', 0) byte_read
     in if byte_read < n
        then rbind (c_feof (sq_file f) w1) (\<lambda>eof.
             Inr ((if eof then None else IOError (sq_filename f) (err_no w1) w1, result, scratch'), w1))
        else Inr ((None, result, scratch'), w1)))"

definition Sequential_Skip :: "PosixSequentialFile \<Rightarrow> u64 \<Rightarrow> World \<Rightarrow> (status_value \<times> World) res" where
  "Sequential_Skip f n w =
     rbind (c_fseek (sq_file f) (sint n) w) (\<lambda>(r, w1).
     Inr (if r \<noteq> 0 then IOError (sq_filename f) (err_no w1) w1 else None, w1))"

definition Sequential_destroy :: "PosixSequentialFile \<Rightarrow> World \<Rightarrow> World res" where
  "Sequential_destroy f w = rbind (c_fclose (sq_file f) w) (\<lambda>(_, w1). Inr w1)"

subsection \<open>PosixWritableFile\<close>

record PosixWritableFile =
  pw_filename :: bytes
  pw_file :: "nat option"

definition Writable_destroy :: "PosixWritableFile \<Rightarrow> World \<Rightarrow> World res" where
  "Writable_destroy f w =
     (if pw_file f \<noteq> None then rbind (c_fclose (pw_file f) w) (\<lambda>(_, w1). Inr w1) else Inr w)"

definition Writable_Append :: "PosixWritableFile \<Rightarrow> slice \<Rightarrow> World \<Rightarrow> (status_value \<times> World) res" where
  "Writable_Append f data w =
     rbind (ptr_read (Slice_Data data) (Slice_Size data)) (\<lambda>bs.
     rbind (c_fwrite bs (pw_file f) w) (\<lambda>(r, w1).
     Inr (if r \<noteq> Slice_Size data then IOError (pw_filename f) (err_no w1) w1 else None, w1)))"

definition Writable_Close ::
  "PosixWritableFile \<Rightarrow> World \<Rightarrow> ((status_value \<times> PosixWritableFile) \<times> World) res" where
  "Writable_Close f w =
     rbind (c_fclose (pw_file f) w) (\<lambda>(r, w1).
     Inr ((if r \<noteq> 0 then IOError (pw_filename f) (err_no w1) w1 else None, f\<lparr>pw_file := None\<rparr>), w1))"

definition Writable_Flush :: "PosixWritableFile \<Rightarrow> World \<Rightarrow> (status_value \<times> World) res" where
  "Writable_Flush f w =
     rbind (c_fflush (pw_file f) w) (\<lambda>(r, w1).
     Inr (if r \<noteq> 0 then IOError (pw_filename f) (err_no w1) w1 else None, w1))"

text \<open>\<open>strrchr\<close>: the index of the last occurrence of a byte.\<close>

definition strrchr :: "bytes \<Rightarrow> byte \<Rightarrow> nat option" where
  "strrchr f c =
     (if c \<in> set f then Some (length f - 1 - length (takeWhile (\<lambda>b. b \<noteq> c) (rev f))) else None)"

definition SyncDirIfManifest :: "PosixWritableFile \<Rightarrow> World \<Rightarrow> (status_value \<times> World) res" where
  "SyncDirIfManifest file w =
     (let f = c_str (pw_filename file);
          sep = strrchr f (of_char (CHR ''/''));
          dir = (case sep of None \<Rightarrow> lit ''.'' | Some i \<Rightarrow> take i f)
      in rbind (Slice_cstr (case sep of None \<Rightarrow> (f @ [0], 0) | Some i \<Rightarrow> (f @ [0], i + 1))) (\<lambda>basename.
         rbind (Slice_cstr (lit ''MANIFEST'' @ [0], 0)) (\<lambda>manifest.
         rbind (Slice_StartsWith basename manifest) (\<lambda>is_manifest.
         if is_manifest
         then (case c_open_read (c_str dir) w of
                 (None, w1) \<Rightarrow> Inr (IOError dir (err_no w1) w1, w1)
               | (Some fd, w1) \<Rightarrow>
                   rbind (c_fsync fd w1) (\<lambda>(r, w2).
                   let s = (if r < 0 then IOError dir (err_no w2) w2 else None)
                   in rbind (c_close fd w2) (\<lambda>w3. Inr (s, w3))))
         else Inr (None, w)))))"

definition Writable_Sync :: "PosixWritableFile \<Rightarrow> World \<Rightarrow> (status_value \<times> World) res" where
  "Writable_Sync f w =
     rbind (SyncDirIfManifest f w) (\<lambda>(s, w1).
     if s \<noteq> None then Inr (s, w1)
     else rbind (c_fflush (pw_file f) w1) (\<lambda>(r, w2).
          if r \<noteq> 0 then Inr (IOError (pw_filename f) (err_no w2) w2, w2)
          else rbind (c_fsync_stream (pw_file f) w2) (\<lambda>(r, w3).
               Inr (if r \<noteq> 0 then IOError (pw_filename f) (err_no w3) w3 else None, w3))))"

subsection \<open>Specification\<close>

text \<open>A writer of a file: its stream is open and the file exists.\<close>

definition writer_open :: "World \<Rightarrow> PosixWritableFile \<Rightarrow> bytes \<Rightarrow> bool" where
  "writer_open w f name \<longleftrightarrow>
     pw_filename f = name \<and>
     (\<exists>h st. pw_file f = Some h \<and> streams w h = Some st \<and> st_name st = c_str name) \<and>
     disk w (c_str name) \<noteq> None"

definition written :: "World \<Rightarrow> PosixWritableFile \<Rightarrow> bytes \<Rightarrow> bytes \<Rightarrow> bool" where
  "written w f name c \<longleftrightarrow>
     writer_open w f name \<and>
     (\<forall>h st. pw_file f = Some h \<and> streams w h = Some st \<longrightarrow> file_bytes w (c_str name) @ st_pending st = c)"

definition to_read :: "World \<Rightarrow> PosixSequentialFile \<Rightarrow> bytes \<Rightarrow> bool" where
  "to_read w f rest \<longleftrightarrow>
     (\<exists>h st c. sq_file f = Some h \<and> streams w h = Some st \<and> disk w (st_name st) = Some c \<and>
        st_pending st = [] \<and> rest = drop (st_pos st) c \<and> (st_eof st \<longrightarrow> rest = []))"

text \<open>Whether the name of a file is that of a manifest, and the directory it is in.\<close>

definition base_name :: "bytes \<Rightarrow> bytes" where
  "base_name f = rev (takeWhile (\<lambda>b. b \<noteq> of_char (CHR ''/'')) (rev f))"

definition dir_name :: "bytes \<Rightarrow> bytes" where
  "dir_name f =
     (if of_char (CHR ''/'') \<in> set f then take (length f - 1 - length (base_name f)) f else lit ''.'')"

definition is_manifest :: "bytes \<Rightarrow> bool" where
  "is_manifest f \<longleftrightarrow> take 8 (base_name f) = lit ''MANIFEST''"

text \<open>The resources in use: streams, descriptors and mappings.\<close>

definition handles :: "World \<Rightarrow> (nat \<times> nat) set" where
  "handles w = {0} \<times> dom (streams w) \<union> {1} \<times> dom (fds w) \<union> {2} \<times> dom (maps w)"

definition stream_handle :: "nat option \<Rightarrow> (nat \<times> nat) set" where
  "stream_handle f = (case f of None \<Rightarrow> {} | Some h \<Rightarrow> {(0, h)})"

section \<open>Lemmas\<close>

subsection \<open>Streams\<close>

lemma handles_fresh: "world_ok w \<Longrightarrow> next_handle w \<le> h \<Longrightarrow> (i, h) \<notin> handles w"
  by (auto simp: world_ok_def handles_def)

lemma handles_close_stream:
  "handles (put_stream (Some h) None w) = handles w - {(0, h)}"
  by (auto simp: handles_def dom_def put_stream_def)

lemma IOError_not_None [simp]: "IOError c e w \<noteq> None"
  by (simp add: IOError_def)

lemma world_ok_put:
  "world_ok w \<Longrightarrow> streams w h = Some st \<Longrightarrow> world_ok (put_stream (Some h) x w)"
  unfolding world_ok_def by auto

lemma same_world_ok: "same_world w1 w \<Longrightarrow> world_ok w1 = world_ok w"
  by (simp add: same_world_def world_ok_def)

lemma world_ok_fail [simp]: "world_ok (fail_with e w) = world_ok w"
  by (simp add: world_ok_def)

lemma handles_fail [simp]: "handles (fail_with e w) = handles w"
  by (simp add: handles_def)

text \<open>The part of the world that the files and their contents are in.\<close>

definition same_files :: "World \<Rightarrow> World \<Rightarrow> bool" where
  "same_files w' w \<longleftrightarrow>
     disk w' = disk w \<and> streams w' = streams w \<and> fds w' = fds w \<and> maps w' = maps w \<and>
     durable w' = durable w"

lemma same_files_refl [simp]: "same_files w w"
  by (simp add: same_files_def)

lemma same_world_files: "same_world w1 w \<Longrightarrow> same_files w1 w"
  by (simp add: same_world_def same_files_def)

lemma same_files_fail [simp]: "same_files (fail_with e w1) w = same_files w1 w"
  by (simp add: same_files_def)

lemma same_filesD:
  assumes "same_files w' w"
  shows "disk w' = disk w" "streams w' = streams w" "handles w' = handles w" "durable w' = durable w"
    "writer_open w' = writer_open w" "written w' = written w" "to_read w' = to_read w"
  using assms
  by (auto simp: same_files_def handles_def writer_open_def written_def to_read_def file_bytes_def fun_eq_iff)

subsection \<open>The directory of a manifest\<close>

lemma drop_suffix_while: "drop (length f - length (takeWhile P (rev f))) f = rev (takeWhile P (rev f))"
proof -
  have "take (length (takeWhile P (rev f))) (rev f) = takeWhile P (rev f)"
    by (metis append_eq_conv_conj takeWhile_dropWhile_id)
  then show ?thesis by (simp add: take_rev rev_swap)
qed

lemma takeWhile_all_of_length: "length (takeWhile P xs) = length xs \<Longrightarrow> \<forall>x \<in> set xs. P x"
  by (induction xs) (auto split: if_splits)

lemma length_base_name: "x \<in> set f \<Longrightarrow> x = of_char (CHR ''/'') \<Longrightarrow> length (base_name f) < length f"
  using length_takeWhile_le [of "\<lambda>b. b \<noteq> of_char (CHR ''/'')" "rev f"]
    takeWhile_all_of_length [of "\<lambda>b. b \<noteq> of_char (CHR ''/'')" "rev f"]
  by (auto simp: base_name_def le_less)

lemma base_name_no_slash: "of_char (CHR ''/'') \<notin> set f \<Longrightarrow> base_name f = f"
  unfolding base_name_def by (subst takeWhile_eq_all_conv [THEN iffD2]) auto

lemma base_name_drop:
  assumes "of_char (CHR ''/'') \<in> set f"
  shows "drop (Suc (length f - 1 - length (base_name f))) f = base_name f"
proof -
  have "length (base_name f) < length f" using length_base_name [OF assms] by simp
  then have "Suc (length f - 1 - length (base_name f)) = length f - length (base_name f)" by simp
  then show ?thesis using drop_suffix_while [of f] by (simp add: base_name_def)
qed

lemma c_str_no_nul: "0 \<notin> set (c_str name)"
  by (auto simp: c_str_def dest: set_takeWhileD)

lemma strlen_cstr:
  assumes "0 \<notin> set f" and "n \<le> length f"
  shows "strlen (f @ [0], n) = Inr (length f - n)"
proof -
  have "0 \<notin> set (drop n f)" using assms(1) by (meson in_set_dropD)
  then have "takeWhile (\<lambda>b. b \<noteq> 0) (drop n f @ [0]) = drop n f"
    by (subst takeWhile_append2) auto
  then show ?thesis using assms(2) by (simp add: strlen_def)
qed

lemma starts_with_manifest:
  assumes "0 \<notin> set f" and "n \<le> length f"
  shows "rbind (Slice_cstr (f @ [0], n)) (\<lambda>b. rbind (Slice_cstr (lit ''MANIFEST'' @ [0], 0)) (\<lambda>m.
           rbind (Slice_StartsWith b m) g)) = g (take 8 (drop n f) = lit ''MANIFEST'')"
proof -
  let ?b = "\<lparr>s_data = (f @ [0], n), s_size = length f - n\<rparr>"
  let ?m = "\<lparr>s_data = (lit ''MANIFEST'' @ [0], 0), s_size = 8\<rparr>"
  have b: "Slice_cstr (f @ [0], n) = Inr ?b" "slice_ok ?b" "view ?b = drop n f"
    using assms by (simp_all add: Slice_cstr_def strlen_cstr slice_ok_def view_def)
  have m: "Slice_cstr (lit ''MANIFEST'' @ [0], 0) = Inr ?m" "slice_ok ?m" "view ?m = lit ''MANIFEST''"
    by (simp_all add: Slice_cstr_def strlen_def slice_ok_def view_def)
  have l: "length (lit ''MANIFEST'') = 8" by simp
  show ?thesis by (simp only: b m rbind_Inr l Slice_StartsWith_view [OF b(2) m(2)])
qed

lemma SyncDirIfManifest_eq:
  "SyncDirIfManifest file w =
     (let f = c_str (pw_filename file)
      in if is_manifest f
         then (case c_open_read (dir_name f) w of
                 (None, w1) \<Rightarrow> Inr (IOError (dir_name f) (err_no w1) w1, w1)
               | (Some fd, w1) \<Rightarrow>
                   rbind (c_fsync fd w1) (\<lambda>(r, w2).
                   rbind (c_close fd w2) (\<lambda>w3.
                   Inr (if r < 0 then IOError (dir_name f) (err_no w2) w2 else None, w3))))
         else Inr (None, w))"
proof -
  let ?f = "c_str (pw_filename file)" and ?c = "of_char (CHR ''/'') :: byte"
  have nul: "0 \<notin> set ?f" by (rule c_str_no_nul)
  show ?thesis
  proof (cases "?c \<in> set ?f")
    case True
    have r: "strrchr ?f ?c = Some (length ?f - 1 - length (base_name ?f))"
      using True by (simp add: strrchr_def base_name_def)
    have le: "length ?f - 1 - length (base_name ?f) + 1 \<le> length ?f"
      using length_base_name [OF True] by simp
    have d: "c_str (dir_name ?f) = dir_name ?f"
      using True nul by (intro c_str_id) (auto simp: dir_name_def dest: in_set_takeD)
    have dn: "take (length ?f - 1 - length (base_name ?f)) ?f = dir_name ?f"
      using True by (simp add: dir_name_def)
    have bn: "drop (length ?f - 1 - length (base_name ?f) + 1) ?f = base_name ?f"
      using base_name_drop [OF True] by simp
    show ?thesis
      unfolding SyncDirIfManifest_def Let_def r option.case starts_with_manifest [OF nul le] dn d bn
        is_manifest_def by (simp only: drop_0)
  next
    case False
    have r: "strrchr ?f ?c = None" using False by (simp add: strrchr_def)
    have d: "c_str (lit ''.'') = lit ''.''" by (simp add: c_str_def)
    have dn: "lit ''.'' = dir_name ?f" using False by (simp add: dir_name_def)
    show ?thesis
      unfolding SyncDirIfManifest_def Let_def r option.case starts_with_manifest [OF nul le0] d drop_0
        is_manifest_def base_name_no_slash [OF False] dn [symmetric] by (simp only: drop_0)
  qed
qed

lemma SyncDirIfManifest_result:
  assumes "world_ok w"
  shows "\<exists>v w'. SyncDirIfManifest file w = Inr (v, w') \<and> world_ok w' \<and> same_files w' w \<and>
    (v = None \<and> is_manifest (c_str (pw_filename file)) \<longrightarrow>
       fd_syncs w' = dir_name (c_str (pw_filename file)) # fd_syncs w)"
proof -
  let ?d = "dir_name (c_str (pw_filename file))"
  obtain k e w1 where t: "take_outcome w = ((k, e), w1)" "same_world w1 w" by (rule take_outcomeE)
  define w2 where "w2 = w1\<lparr>next_handle := next_handle w1 + 1, fds := (fds w1)(next_handle w1 \<mapsto> ?d)\<rparr>"
  obtain k2 e2 w3 where t2: "take_outcome w2 = ((k2, e2), w3)" "same_world w3 w2" by (rule take_outcomeE)
  have fr: "fds w (next_handle w) = None" using assms by (simp add: world_ok_def)
  have sw: "world_ok w1" "same_files w1 w" using t(2) assms by (simp_all add: same_world_ok same_world_files)
  show ?thesis
    unfolding SyncDirIfManifest_eq
    using t t2 fr sw assms
    by (auto simp: c_open_read_def new_fd_def c_fsync_def c_close_def w2_def same_world_def same_files_def
        world_ok_def Let_def fun_upd_idem IOError_def)
qed

subsection \<open>Opening\<close>

lemma c_fopen_result:
  assumes "world_ok w"
  obtains (failed) w' where "c_fopen name mode w = (None, w')" "world_ok w'" "same_files w' w"
  | (opened) h w' where "c_fopen name mode w = (Some h, w')" "world_ok w'" "(0, h) \<notin> handles w"
      "streams w' = (streams w)(h \<mapsto> \<lparr>st_name = name, st_pos = 0, st_pending = [], st_eof = False\<rparr>)"
      "fds w' = fds w" "maps w' = maps w" "durable w' = durable w"
      "disk w' = (case mode of Fread \<Rightarrow> disk w | Fwrite \<Rightarrow> (disk w)(name \<mapsto> [])
                  | Fappend \<Rightarrow> (disk w)(name \<mapsto> file_bytes w name))"
      "mode = Fread \<longrightarrow> disk w name \<noteq> None"
proof -
  obtain k e w1 where t: "take_outcome w = ((k, e), w1)" "same_world w1 w" by (rule take_outcomeE)
  have w1: "world_ok w1" using t(2) assms by (simp add: same_world_ok)
  have fr: "(0, next_handle w) \<notin> handles w" using handles_fresh [OF assms] by simp
  show ?thesis
  proof (cases "e \<noteq> 0 \<or> (mode = Fread \<and> disk w1 name = None)")
    case True
    then have "c_fopen name mode w = (None, fail_with (if e \<noteq> 0 then e else ENOENT) w1)"
      using t(1) by (auto simp: c_fopen_def)
    then show ?thesis using failed w1 same_world_files [OF t(2)] by simp
  next
    case False
    then show ?thesis
      using t w1 fr
      by (intro opened [of "next_handle w" "snd (c_fopen name mode w)"])
        (auto simp: c_fopen_def Let_def same_world_def world_ok_def file_bytes_def split: fmode.splits)
  qed
qed

lemma handles_open_stream:
  assumes "streams w' = (streams w)(h \<mapsto> st)" and "fds w' = fds w" and "maps w' = maps w"
  shows "handles w' = handles w \<union> {(0, h)}"
  using assms by (auto simp: handles_def)

subsection \<open>Writing\<close>

lemma flush_stream_result:
  assumes "flush_stream st w = (r, st', w')"
  shows "streams w' = streams w" "fds w' = fds w" "maps w' = maps w" "durable w' = durable w"
    "next_handle w' = next_handle w" "st_name st' = st_name st"
    "k \<noteq> st_name st \<Longrightarrow> disk w' k = disk w k"
    "disk w (st_name st) \<noteq> None \<Longrightarrow> disk w' (st_name st) \<noteq> None"
    "r = 0 \<Longrightarrow> disk w (st_name st) \<noteq> None \<Longrightarrow>
       file_bytes w' (st_name st) = file_bytes w (st_name st) @ st_pending st \<and> st_pending st' = []"
    "fd_syncs w' = fd_syncs w"
proof -
  obtain k e w1 where t: "take_outcome w = ((k, e), w1)" "same_world w1 w" by (rule take_outcomeE)
  show "streams w' = streams w" "fds w' = fds w" "maps w' = maps w" "durable w' = durable w"
    "next_handle w' = next_handle w" "st_name st' = st_name st"
    "k \<noteq> st_name st \<Longrightarrow> disk w' k = disk w k" "fd_syncs w' = fd_syncs w" for k
    using assms t
    by (auto simp: flush_stream_def Let_def same_world_def file_bytes_def split: if_splits)
  show "disk w (st_name st) \<noteq> None \<Longrightarrow> disk w' (st_name st) \<noteq> None"
    using assms t
    by (auto simp: flush_stream_def Let_def same_world_def split: if_splits)
  show "r = 0 \<Longrightarrow> disk w (st_name st) \<noteq> None \<Longrightarrow>
       file_bytes w' (st_name st) = file_bytes w (st_name st) @ st_pending st \<and> st_pending st' = []"
    using assms t
    by (auto simp: flush_stream_def Let_def same_world_def file_bytes_def split: if_splits)
qed

lemma writer_openE:
  assumes "writer_open w f name"
  obtains h st where "pw_file f = Some h" "streams w h = Some st" "st_name st = c_str name"
    "pw_filename f = name" "disk w (c_str name) \<noteq> None"
    "\<forall>c. written w f name c = (file_bytes w (c_str name) @ st_pending st = c)"
  using assms by (auto simp: writer_open_def written_def)

lemma Writable_Append_result:
  assumes ok: "world_ok w" and f: "writer_open w f name" and d: "slice_ok d"
  shows "\<exists>v w'. Writable_Append f d w = Inr (v, w') \<and> world_ok w' \<and> writer_open w' f name \<and>
    handles w' = handles w \<and> disk w' = disk w \<and> durable w' = durable w \<and>
    (\<forall>c. written w f name c \<and> v = None \<longrightarrow> written w' f name (c @ view d))"
proof -
  obtain h st where h: "pw_file f = Some h" "streams w h = Some st" "st_name st = c_str name"
    "pw_filename f = name" "disk w (c_str name) \<noteq> None"
    "\<forall>c. written w f name c = (file_bytes w (c_str name) @ st_pending st = c)"
    using f by (rule writer_openE)
  have rd: "ptr_read (Slice_Data d) (Slice_Size d) = Inr (view d)" "Slice_Size d = length (view d)"
    using d by (simp_all add: Slice_Data_def Slice_Size_def)
  obtain k e w1 where t: "take_outcome w = ((k, e), w1)" "same_world w1 w" by (rule take_outcomeE)
  show ?thesis
  proof (cases "view d = []")
    case True
    then show ?thesis using rd h ok f by (simp add: Writable_Append_def c_fwrite_def)
  next
    case False
    define got where "got = (if e = 0 then view d else take (min k (length (view d) - 1)) (view d))"
    define w2 where "w2 = put_stream (Some h) (Some (st\<lparr>st_pending := st_pending st @ got\<rparr>))
        (if e = 0 then w1 else fail_with e w1)"
    have eq: "c_fwrite (view d) (pw_file f) w = Inr (length got, w2)"
      using False h(1,2) t(1) by (simp add: c_fwrite_def got_def w2_def Let_def)
    have got: "(length got = length (view d)) = (e = 0)" "e = 0 \<Longrightarrow> got = view d"
      using False by (cases "view d"; auto simp: got_def min_def)+
    have st2: "streams w2 = (streams w)(h \<mapsto> st\<lparr>st_pending := st_pending st @ got\<rparr>)"
      using t(2) by (simp add: w2_def same_world_def)
    have rest: "disk w2 = disk w" "fds w2 = fds w" "maps w2 = maps w" "durable w2 = durable w"
      "next_handle w2 = next_handle w"
      using t(2) by (simp_all add: w2_def same_world_def)
    have "world_ok w2" using ok h(2) st2 rest by (auto simp: world_ok_def)
    moreover have "handles w2 = handles w" using st2 rest h(2) by (auto simp: handles_def)
    moreover have "writer_open w2 f name" using h st2 rest by (simp add: writer_open_def)
    moreover have "written w f name c \<and> e = 0 \<longrightarrow> written w2 f name (c @ view d)" for c
      using h st2 rest got(2) by (auto simp: written_def writer_open_def file_bytes_def)
    ultimately show ?thesis
      using rd eq got(1) rest by (auto simp: Writable_Append_def IOError_def)
  qed
qed

text \<open>Flushing and closing a stream, from the writer's side.\<close>

lemma c_fflush_result:
  assumes ok: "world_ok w" and f: "writer_open w f name"
  obtains r w' where "c_fflush (pw_file f) w = Inr (r, w')" "world_ok w'" "writer_open w' f name"
    "handles w' = handles w" "\<forall>k. k \<noteq> c_str name \<longrightarrow> disk w' k = disk w k" "durable w' = durable w"
    "\<forall>c. written w f name c \<and> r = 0 \<longrightarrow> written w' f name c \<and> disk w' (c_str name) = Some c"
    "fd_syncs w' = fd_syncs w"
proof -
  obtain h st where h: "pw_file f = Some h" "streams w h = Some st" "st_name st = c_str name"
    "pw_filename f = name" "disk w (c_str name) \<noteq> None"
    "\<forall>c. written w f name c = (file_bytes w (c_str name) @ st_pending st = c)"
    using f by (rule writer_openE)
  obtain r st' w1 where fl: "flush_stream st w = (r, st', w1)" by (metis prod_cases3)
  note fr = flush_stream_result [OF fl]
  let ?w = "put_stream (Some h) (Some st') w1"
  have "c_fflush (pw_file f) w = Inr (r, ?w)" using h fl by (simp add: c_fflush_def)
  moreover have "world_ok ?w" using ok h(2) fr(1-5) by (auto simp: world_ok_def)
  moreover have "writer_open ?w f name" using h fr by (simp add: writer_open_def)
  moreover have "handles ?w = handles w" using fr(1-5) h(2) by (auto simp: handles_def)
  moreover have "\<forall>c. written w f name c \<and> r = 0 \<longrightarrow> written ?w f name c \<and> disk ?w (c_str name) = Some c"
    using h fr(1-6) fr(8,9) by (auto simp: written_def writer_open_def file_bytes_def)
  ultimately show ?thesis using that fr(4,7,10) h(3) by simp
qed

lemma c_fclose_result:
  assumes ok: "world_ok w" and f: "writer_open w f name"
  obtains r w' where "c_fclose (pw_file f) w = Inr (r, w')" "world_ok w'"
    "handles w' = handles w - stream_handle (pw_file f)" "\<forall>k. k \<noteq> c_str name \<longrightarrow> disk w' k = disk w k"
    "durable w' = durable w"
    "\<forall>c. written w f name c \<and> r = 0 \<longrightarrow> disk w' (c_str name) = Some c"
proof -
  obtain h st where h: "pw_file f = Some h" "streams w h = Some st" "st_name st = c_str name"
    "pw_filename f = name" "disk w (c_str name) \<noteq> None"
    "\<forall>c. written w f name c = (file_bytes w (c_str name) @ st_pending st = c)"
    using f by (rule writer_openE)
  obtain r st' w1 where fl: "flush_stream st w = (r, st', w1)" by (metis prod_cases3)
  note fr = flush_stream_result [OF fl]
  let ?w = "(put_stream (Some h) None w1)\<lparr>held := held w1 - {st_name st}\<rparr>"
  have "c_fclose (pw_file f) w = Inr (r, ?w)" using h fl by (simp add: c_fclose_def)
  moreover have "world_ok ?w" using ok fr(1-5) by (auto simp: world_ok_def)
  moreover have "handles ?w = handles w - stream_handle (pw_file f)"
    using fr(1-5) h(1) by (auto simp: handles_def stream_handle_def)
  moreover have "\<forall>c. written w f name c \<and> r = 0 \<longrightarrow> disk ?w (c_str name) = Some c"
    using h fr(8,9) by (auto simp: file_bytes_def)
  ultimately show ?thesis using that fr(4,7) h(3) by simp
qed

subsection \<open>The operations of a writer\<close>

lemma Writable_Sync_result:
  assumes ok: "world_ok w" and f: "writer_open w f name"
  shows "\<exists>v w'. Writable_Sync f w = Inr (v, w') \<and> world_ok w' \<and> writer_open w' f name \<and>
    handles w' = handles w \<and> (\<forall>k. k \<noteq> c_str name \<longrightarrow> disk w' k = disk w k) \<and>
    (v = None \<and> is_manifest (c_str name) \<longrightarrow> dir_name (c_str name) \<in> set (fd_syncs w')) \<and>
    (\<forall>c. written w f name c \<and> v = None \<longrightarrow>
       written w' f name c \<and> durable w' (c_str name) = Some c)"
proof -
  obtain v1 w1 where s: "SyncDirIfManifest f w = Inr (v1, w1)" "world_ok w1" "same_files w1 w"
    "v1 = None \<and> is_manifest (c_str name) \<longrightarrow> fd_syncs w1 = dir_name (c_str name) # fd_syncs w"
    using SyncDirIfManifest_result [OF ok, of f] f by (auto simp: writer_open_def)
  note sf = same_filesD [OF s(3)]
  show ?thesis
  proof (cases "v1 = None")
    case False
    then show ?thesis using s f sf by (simp add: Writable_Sync_def del: not_None_eq)
  next
    case True
    have f1: "writer_open w1 f name" using f sf by simp
    obtain r w2 where fl: "c_fflush (pw_file f) w1 = Inr (r, w2)" "world_ok w2" "writer_open w2 f name"
      "handles w2 = handles w1" "\<forall>k. k \<noteq> c_str name \<longrightarrow> disk w2 k = disk w1 k" "durable w2 = durable w1"
      "\<forall>c. written w1 f name c \<and> r = 0 \<longrightarrow> written w2 f name c \<and> disk w2 (c_str name) = Some c"
      "fd_syncs w2 = fd_syncs w1"
      using s(2) f1 by (rule c_fflush_result)
    show ?thesis
    proof (cases "r = 0")
      case False
      then show ?thesis using s fl sf True f by (simp add: Writable_Sync_def IOError_def f1 writer_open_def)
    next
      case r: True
      obtain h st where h: "pw_file f = Some h" "streams w2 h = Some st" "st_name st = c_str name"
        "pw_filename f = name" "disk w2 (c_str name) \<noteq> None"
        "\<forall>c. written w2 f name c = (file_bytes w2 (c_str name) @ st_pending st = c)"
        using fl(3) by (rule writer_openE)
      obtain k e w3 where t: "take_outcome w2 = ((k, e), w3)" "same_world w3 w2" by (rule take_outcomeE)
      have sf3: "same_files w3 w2" "world_ok w3" using t(2) fl(2) by (simp_all add: same_world_files same_world_ok)
      show ?thesis
      proof (cases "e = 0")
        case False
        have "Writable_Sync f w = Inr (IOError name e (fail_with e w3), fail_with e w3)"
          using s(1) True fl(1) r h t(1) False by (simp add: Writable_Sync_def c_fsync_stream_def fail_with_def)
        then show ?thesis
          using sf3 fl sf same_filesD [of "fail_with e w3" w2] by (auto simp: IOError_def)
      next
        case e: True
        define w4 where "w4 = w3\<lparr>durable := (durable w3)(c_str name := disk w3 (c_str name))\<rparr>"
        have "Writable_Sync f w = Inr (None, w4)"
          using s(1) True fl(1) r h t(1) e by (simp add: Writable_Sync_def c_fsync_stream_def w4_def)
        moreover have "world_ok w4" "handles w4 = handles w2" "disk w4 = disk w2" "fd_syncs w4 = fd_syncs w2"
          "writer_open w4 f name = writer_open w2 f name" "written w4 f name = written w2 f name"
          "durable w4 (c_str name) = disk w2 (c_str name)"
          using sf3 t(2)
          by (auto simp: w4_def world_ok_def handles_def same_files_def same_world_def writer_open_def
              written_def file_bytes_def fun_eq_iff)
        ultimately show ?thesis using fl sf s(4) True r by auto
      qed
    qed
  qed
qed

lemma Writable_Flush_result:
  assumes ok: "world_ok w" and f: "writer_open w f name"
  shows "\<exists>v w'. Writable_Flush f w = Inr (v, w') \<and> world_ok w' \<and> writer_open w' f name \<and>
    handles w' = handles w \<and> (\<forall>k. k \<noteq> c_str name \<longrightarrow> disk w' k = disk w k) \<and>
    (\<forall>c. written w f name c \<and> v = None \<longrightarrow> written w' f name c \<and> disk w' (c_str name) = Some c)"
proof -
  obtain r w' where "c_fflush (pw_file f) w = Inr (r, w')" "world_ok w'" "writer_open w' f name"
    "handles w' = handles w" "\<forall>k. k \<noteq> c_str name \<longrightarrow> disk w' k = disk w k" "durable w' = durable w"
    "\<forall>c. written w f name c \<and> r = 0 \<longrightarrow> written w' f name c \<and> disk w' (c_str name) = Some c"
    using ok f by (rule c_fflush_result)
  then show ?thesis by (auto simp: Writable_Flush_def IOError_def)
qed

lemma Writable_Close_result:
  assumes ok: "world_ok w" and f: "writer_open w f name"
  shows "\<exists>v w'. Writable_Close f w = Inr ((v, f\<lparr>pw_file := None\<rparr>), w') \<and> world_ok w' \<and>
    handles w' = handles w - stream_handle (pw_file f) \<and> durable w' = durable w \<and>
    (\<forall>k. k \<noteq> c_str name \<longrightarrow> disk w' k = disk w k) \<and>
    (\<forall>c. written w f name c \<and> v = None \<longrightarrow> disk w' (c_str name) = Some c)"
proof -
  obtain r w' where "c_fclose (pw_file f) w = Inr (r, w')" "world_ok w'"
    "handles w' = handles w - stream_handle (pw_file f)" "\<forall>k. k \<noteq> c_str name \<longrightarrow> disk w' k = disk w k"
    "durable w' = durable w"
    "\<forall>c. written w f name c \<and> r = 0 \<longrightarrow> disk w' (c_str name) = Some c"
    using ok f by (rule c_fclose_result)
  then show ?thesis by (auto simp: Writable_Close_def IOError_def)
qed

lemma Writable_destroy_result:
  assumes ok: "world_ok w" and f: "writer_open w f name \<or> pw_file f = None"
  shows "\<exists>w'. Writable_destroy f w = Inr w' \<and> world_ok w' \<and>
    handles w' = handles w - stream_handle (pw_file f) \<and>
    (\<forall>k. k \<noteq> c_str name \<longrightarrow> disk w' k = disk w k) \<and> durable w' = durable w \<and>
    (pw_file f = None \<longrightarrow> w' = w)"
proof (cases "pw_file f = None")
  case True
  then show ?thesis using ok by (simp add: Writable_destroy_def stream_handle_def)
next
  case False
  with f have f': "writer_open w f name" by argo
  obtain r w' where "c_fclose (pw_file f) w = Inr (r, w')" "world_ok w'"
    "handles w' = handles w - stream_handle (pw_file f)" "\<forall>k. k \<noteq> c_str name \<longrightarrow> disk w' k = disk w k"
    "durable w' = durable w"
    "\<forall>c. written w f name c \<and> r = 0 \<longrightarrow> disk w' (c_str name) = Some c"
    using ok f' by (rule c_fclose_result)
  then show ?thesis using False by (auto simp: Writable_destroy_def)
qed

subsection \<open>The operations of a reader\<close>

lemma to_readE:
  assumes "to_read w f rest"
  obtains h st c where "sq_file f = Some h" "streams w h = Some st" "disk w (st_name st) = Some c"
    "st_pending st = []" "rest = drop (st_pos st) c" "st_eof st \<longrightarrow> rest = []"
  using assms by (auto simp: to_read_def)

lemma Sequential_Read_result:
  assumes ok: "world_ok w" and f: "to_read w f rest" and n: "n \<le> length scratch"
  shows "\<exists>v sl sc w' rest'. Sequential_Read f n scratch w = Inr ((v, sl, sc), w') \<and> world_ok w' \<and>
    disk w' = disk w \<and> handles w' = handles w \<and> length sc = length scratch \<and> slice_ok sl \<and>
    rest = view sl @ rest' \<and> to_read w' f rest' \<and> (v = None \<longrightarrow> view sl = take n rest)"
proof -
  obtain h st c where h: "sq_file f = Some h" "streams w h = Some st" "disk w (st_name st) = Some c"
    "st_pending st = []" "rest = drop (st_pos st) c" "st_eof st \<longrightarrow> rest = []"
    using f by (rule to_readE)
  obtain k e w1 where t: "take_outcome w = ((k, e), w1)" "same_world w1 w" by (rule take_outcomeE)
  define got where "got = (if e = 0 then take n rest else take (min k (n - 1)) (take n rest))"
  define st' where "st' = st\<lparr>st_pos := st_pos st + length got, st_eof := st_eof st \<or> (e = 0 \<and> length got < n)\<rparr>"
  define w2 where "w2 = put_stream (Some h) (Some st') (if e = 0 then w1 else fail_with e w1)"
  have rd: "c_fread n (sq_file f) w = Inr (got, w2)"
    using h t by (simp add: c_fread_def got_def w2_def st'_def Let_def file_bytes_def same_world_def)
  have st2: "streams w2 = (streams w)(h \<mapsto> st')" using t(2) by (simp add: w2_def same_world_def)
  have rest: "disk w2 = disk w" "fds w2 = fds w" "maps w2 = maps w" "next_handle w2 = next_handle w"
    using t(2) by (simp_all add: w2_def same_world_def)
  have eof: "c_feof (sq_file f) w2 = Inr (st_eof st')" using h(1) st2 by (simp add: c_feof_def)
  have len: "length got \<le> n" by (auto simp: got_def min_def)
  define rest' where "rest' = drop (length got) rest"
  define m where "m = (if e = 0 then n else min (min k (n - 1)) n)"
  have "got = take m rest" by (simp add: got_def m_def)
  then have tk: "take (length got) rest = got" by (cases "m \<le> length rest") simp_all
  have app: "rest = got @ rest'" "rest' = drop (length got) rest"
    unfolding rest'_def by (metis append_take_drop_id tk) (rule refl)
  have got_n: "e = 0 \<or> st_eof st \<or> length got = n \<Longrightarrow> got = take n rest"
    using h(6) by (auto simp: got_def split: if_splits)
  have wr: "mem_write scratch 0 got = Inr (got @ drop (length got) scratch)" using len n by simp
  let ?sc = "got @ drop (length got) scratch"
  let ?sl = "Slice_ptr (?sc, 0) (length got)"
  have sl: "slice_ok ?sl" "view ?sl = got" by (simp_all add: slice_ok_def view_def Slice_ptr_def)
  have "rest' = drop (st_pos st') c" unfolding rest'_def h(5) by (simp add: st'_def add.commute)
  moreover have "st_eof st' \<longrightarrow> rest' = []"
    using h(6) by (auto simp: st'_def rest'_def got_def)
  moreover have "st_pending st' = []" "st_name st' = st_name st" using h(4) by (simp_all add: st'_def)
  ultimately have tr: "to_read w2 f rest'"
    unfolding to_read_def using h(1,3) st2 rest by (intro exI [of _ h] exI [of _ st'] exI [of _ c]) simp
  have w2: "world_ok w2" "handles w2 = handles w" using ok st2 rest h(2) by (auto simp: world_ok_def handles_def)
  have "\<exists>v. Sequential_Read f n scratch w = Inr ((v, ?sl, ?sc), w2) \<and> (v = None \<longrightarrow> got = take n rest)"
  proof (cases "length got < n")
    case True
    then show ?thesis
      using got_n by (auto simp: Sequential_Read_def rd wr eof Let_def IOError_def st'_def)
  next
    case False
    then have "Sequential_Read f n scratch w = Inr ((None, ?sl, ?sc), w2)"
      unfolding Sequential_Read_def Let_def rd rbind_Inr prod.case wr by (simp only: if_False)
    moreover have "got = take n rest" using False got_n len by simp
    ultimately show ?thesis by blast
  qed
  then show ?thesis using w2 rest sl app(1) tr len n by fastforce
qed

lemma Sequential_Skip_result:
  assumes ok: "world_ok w" and f: "to_read w f rest" and n: "unat n < 2 ^ 63"
  shows "\<exists>v w'. Sequential_Skip f n w = Inr (v, w') \<and> world_ok w' \<and> disk w' = disk w \<and>
    handles w' = handles w \<and> (v = None \<longrightarrow> to_read w' f (drop (unat n) rest))"
proof -
  obtain h st c where h: "sq_file f = Some h" "streams w h = Some st" "disk w (st_name st) = Some c"
    "st_pending st = []" "rest = drop (st_pos st) c" "st_eof st \<longrightarrow> rest = []"
    using f by (rule to_readE)
  obtain k e w1 where t: "take_outcome w = ((k, e), w1)" "same_world w1 w" by (rule take_outcomeE)
  have "int (unat n) < int (2 ^ 63)" using n by (simp only: of_nat_less_iff)
  then have "uint n < 2 ^ 63" unfolding uint_nat by simp
  then have "signed_take_bit (LENGTH(64) - Suc 0) (uint n) = uint n"
    by (intro signed_take_bit_int_eq_self) (auto intro: order_trans [OF _ uint_ge_0])
  then have sn: "sint n = int (unat n)" unfolding sint_uint by (simp only: uint_nat)
  show ?thesis
  proof (cases "e = 0")
    case False
    then have "Sequential_Skip f n w = Inr (IOError (sq_filename f) e (fail_with e w1), fail_with e w1)"
      using h t by (simp add: Sequential_Skip_def c_fseek_def fail_with_def)
    moreover have "world_ok w1" "same_files w1 w" using t(2) ok by (simp_all add: same_world_ok same_world_files)
    ultimately show ?thesis using same_filesD [of w1 w] by (auto simp: IOError_def)
  next
    case True
    define st' where "st' = st\<lparr>st_pos := st_pos st + unat n, st_eof := False\<rparr>"
    define w2 where "w2 = put_stream (Some h) (Some st') w1"
    have "\<not> int (st_pos st) + uint n < 0" by (simp add: not_less)
    then have "Sequential_Skip f n w = Inr (None, w2)"
      using h t True by (simp add: Sequential_Skip_def c_fseek_def sn w2_def st'_def nat_add_distrib)
    moreover have "streams w2 = (streams w)(h \<mapsto> st')" "disk w2 = disk w" "fds w2 = fds w" "maps w2 = maps w"
      "next_handle w2 = next_handle w"
      using t(2) by (simp_all add: w2_def same_world_def)
    ultimately show ?thesis
      using h ok by (auto simp: world_ok_def handles_def to_read_def st'_def add.commute)
  qed
qed

text \<open>A count of \<open>2\<^sup>6\<^sup>3\<close> or more becomes a negative offset: \<open>Skip\<close> rewinds instead of reaching the end.\<close>

lemma Sequential_Skip_rewinds:
  assumes "sq_file f = Some h" and "streams w h = Some st" and "script w = []" and "10 \<le> st_pos st"
  shows "Sequential_Skip f (- 10) w =
    Inr (None, put_stream (Some h) (Some (st\<lparr>st_pos := st_pos st - 10, st_eof := False\<rparr>)) w)"
proof -
  have "sint (- 10 :: u64) = - 10" by simp
  then show ?thesis
    using assms by (simp add: Sequential_Skip_def c_fseek_def take_outcome_def nat_diff_distrib)
qed

lemma Sequential_destroy_result:
  assumes ok: "world_ok w" and f: "to_read w f rest"
  shows "\<exists>w'. Sequential_destroy f w = Inr w' \<and> world_ok w' \<and> disk w' = disk w \<and>
    handles w' = handles w - stream_handle (sq_file f)"
proof -
  obtain h st c where h: "sq_file f = Some h" "streams w h = Some st" "disk w (st_name st) = Some c"
    "st_pending st = []" "rest = drop (st_pos st) c" "st_eof st \<longrightarrow> rest = []"
    using f by (rule to_readE)
  obtain r st' w1 where fl: "flush_stream st w = (r, st', w1)" by (metis prod_cases3)
  note fr = flush_stream_result [OF fl]
  have d: "disk w1 = disk w"
    using fl h(4) by (auto simp: flush_stream_def Let_def split: if_splits prod.splits)
      (metis fail_with_simps(1) snd_conv take_outcome_simps(1))+
  let ?w = "(put_stream (Some h) None w1)\<lparr>held := held w1 - {st_name st}\<rparr>"
  have "Sequential_destroy f w = Inr ?w" using h fl by (simp add: Sequential_destroy_def c_fclose_def)
  moreover have "world_ok ?w" using ok fr(1-5) by (auto simp: world_ok_def)
  moreover have "handles ?w = handles w - stream_handle (sq_file f)"
    using fr(1-5) h(1) by (auto simp: handles_def stream_handle_def)
  ultimately show ?thesis using d by simp
qed


subsection \<open>When no system call fails\<close>

text \<open>
  \<open>calm\<close>: every outcome to come is a success, and the directory of a manifest exists. Then every
  operation of a writer or reader of the file succeeds.
\<close>

definition calm :: "World \<Rightarrow> bytes \<Rightarrow> bool" where
  "calm w name \<longleftrightarrow>
     script w = [] \<and> (is_manifest (c_str name) \<longrightarrow> dirs w (dir_name (c_str name)) \<noteq> None)"

lemma calm_take: "calm w name \<Longrightarrow> take_outcome w = ((0, 0), w)"
  by (simp add: calm_def take_outcome_def)

lemma calm_update [simp]:
  "calm (put_stream f st w) name = calm w name"
  "calm (w\<lparr>disk := d\<rparr>) name = calm w name"
  "calm (w\<lparr>durable := d\<rparr>) name = calm w name"
  "calm (w\<lparr>fds := g, held := hs\<rparr>) name = calm w name"
  "calm (w\<lparr>fds := g\<rparr>) name = calm w name"
  "calm (w\<lparr>fd_syncs := ss\<rparr>) name = calm w name"
  "calm (w\<lparr>next_handle := n, streams := sts\<rparr>) name = calm w name"
  "calm (w\<lparr>next_handle := n, fds := g\<rparr>) name = calm w name"
  by (simp_all add: calm_def put_stream_def)

lemma calm_fopen:
  assumes "calm w name" and "mode \<noteq> Fread \<or> disk w fname \<noteq> None"
  shows "\<exists>h w'. c_fopen fname mode w = (Some h, w') \<and> calm w' name"
  using assms by (auto simp: c_fopen_def calm_take Let_def split: fmode.splits)

lemma calm_flush_stream:
  assumes "calm w name" and "flush_stream st w = (r, st', w')"
  shows "r = 0 \<and> calm w' name"
  using assms by (auto simp: flush_stream_def calm_take Let_def split: if_splits)

lemma calm_fflush:
  assumes "calm w name" and "c_fflush f w = Inr (r, w')"
  shows "r = 0 \<and> calm w' name"
proof -
  obtain st where st: "get_stream f w = Inr st" using assms(2) by (auto simp: c_fflush_def rbind_eq_Inr)
  obtain r1 st' w1 where fl: "flush_stream st w = (r1, st', w1)" by (metis prod_cases3)
  show ?thesis using assms st fl calm_flush_stream [OF assms(1) fl] by (simp add: c_fflush_def) auto
qed

lemma calm_fclose:
  assumes "calm w name" and "c_fclose f w = Inr (r, w')"
  shows "r = 0 \<and> calm w' name"
proof -
  obtain st where st: "get_stream f w = Inr st" using assms(2) by (auto simp: c_fclose_def rbind_eq_Inr)
  obtain r1 st' w1 where fl: "flush_stream st w = (r1, st', w1)" by (metis prod_cases3)
  have "calm (v\<lparr>held := hs\<rparr>) name = calm v name" for v hs by (simp add: calm_def)
  then show ?thesis using assms st fl calm_flush_stream [OF assms(1) fl] by (simp add: c_fclose_def) auto
qed

lemma calm_Append:
  assumes "calm w name" and "slice_ok d" and "Writable_Append f d w = Inr (v, w')"
  shows "v = None \<and> calm w' name"
  using assms
  by (auto simp: Writable_Append_def c_fwrite_def rbind_eq_Inr calm_take Let_def Slice_Data_def Slice_Size_def
      length_view [symmetric] simp del: length_view split: if_splits)

lemma calm_SyncDir:
  assumes "calm w name" and "pw_filename f = name" and "SyncDirIfManifest f w = Inr (v, w')"
  shows "v = None \<and> calm w' name"
proof (cases "is_manifest (c_str name)")
  case True
  then have "dirs w (dir_name (c_str name)) \<noteq> None" using assms(1) by (simp add: calm_def)
  then show ?thesis
    using assms True
    by (auto simp: SyncDirIfManifest_eq Let_def c_open_read_def new_fd_def c_fsync_def c_close_def calm_def
        take_outcome_def rbind_eq_Inr split: option.splits if_splits)
next
  case False
  then show ?thesis using assms by (auto simp: SyncDirIfManifest_eq Let_def)
qed

lemma calm_Sync:
  assumes "calm w name" and "pw_filename f = name" and "Writable_Sync f w = Inr (v, w')"
  shows "v = None \<and> calm w' name"
proof -
  obtain v1 w1 where s: "SyncDirIfManifest f w = Inr (v1, w1)"
    using assms(3) by (auto simp: Writable_Sync_def rbind_eq_Inr)
  have c1: "v1 = None" "calm w1 name" using calm_SyncDir [OF assms(1,2) s] by simp_all
  obtain r w2 where fl: "c_fflush (pw_file f) w1 = Inr (r, w2)"
    using assms(3) s c1 by (auto simp: Writable_Sync_def rbind_eq_Inr)
  have c2: "r = 0" "calm w2 name" using calm_fflush [OF c1(2) fl] by simp_all
  show ?thesis
    using assms(3) s c1 fl c2
    by (auto simp: Writable_Sync_def c_fsync_stream_def rbind_eq_Inr calm_take)
qed

lemma calm_Close: "calm w name \<Longrightarrow> Writable_Close f w = Inr ((v, f'), w') \<Longrightarrow> v = None \<and> calm w' name"
  by (auto simp: Writable_Close_def rbind_eq_Inr dest: calm_fclose)

lemma calm_destroy: "calm w name \<Longrightarrow> Writable_destroy f w = Inr w' \<Longrightarrow> calm w' name"
  by (auto simp: Writable_destroy_def rbind_eq_Inr dest: calm_fclose split: if_splits)

lemma calm_Read:
  assumes "calm w name" and "n \<le> length scratch" and "Sequential_Read f n scratch w = Inr ((v, sl, sc), w')"
  shows "v = None \<and> calm w' name"
proof -
  obtain h st where h: "sq_file f = Some h" "streams w h = Some st"
    using assms(3)
    by (auto simp: Sequential_Read_def c_fread_def get_stream_def rbind_eq_Inr split: option.splits)
  show ?thesis
    using assms h
    by (auto simp: Sequential_Read_def c_fread_def c_feof_def calm_take Let_def rbind_eq_Inr split: if_splits)
qed

lemma calm_Sequential_destroy: "calm w name \<Longrightarrow> Sequential_destroy f w = Inr w' \<Longrightarrow> calm w' name"
  by (auto simp: Sequential_destroy_def rbind_eq_Inr dest: calm_fclose)

end
