(* ===== verification/Posix_Random.thy ===== *)
theory Posix_Random
  imports Posix_Files
begin

text \<open>
  The random access files of src/db/Env_posix.cpp: \<open>PosixRandomAccessFile\<close> on \<open>pread\<close>,
  \<open>PosixMmapReadableFile\<close> on a mapping, and the \<open>MmapLimiter\<close> that bounds the number of mappings.
  The limiter is modelled twice: as the functions \<open>Acquire\<close> and \<open>Release\<close>, and as the steps that
  threads take in them, with the unsynchronised first check of \<open>Acquire\<close> and the mutex.
\<close>

section \<open>Definitions\<close>

subsection \<open>MmapLimiter\<close>

definition MmapLimiter_new :: "nat \<Rightarrow> int" where
  "MmapLimiter_new pointer_bytes = (if 8 \<le> pointer_bytes then 1000 else 0)"

definition Limiter_Acquire :: "int \<Rightarrow> bool \<times> int" where
  "Limiter_Acquire allowed =
     (if allowed \<le> 0 then (False, allowed)
      else let x = allowed in if x \<le> 0 then (False, allowed) else (True, x - 1))"

definition Limiter_Release :: "int \<Rightarrow> int" where
  "Limiter_Release allowed = allowed + 1"

text \<open>Where a thread is in \<open>Acquire\<close> or \<open>Release\<close>.\<close>

datatype limiter_pc =
    Outside
  | Acquire_wants_mutex
  | Acquire_has_mutex
  | Acquire_loaded int
  | Release_wants_mutex
  | Release_has_mutex
  | Release_loaded int
  | Unlocking

record Limiter =
  allowed :: int
  limiter_mu :: "nat option"
  limiter_pcs :: "nat \<Rightarrow> limiter_pc"
  taken :: nat

text \<open>
  One step of a thread. \<open>taken\<close> counts the successful \<open>Acquire\<close>s whose \<open>Release\<close> has not been
  called; a client calls \<open>Release\<close> for one of these only.
\<close>

inductive limiter_step :: "Limiter \<Rightarrow> Limiter \<Rightarrow> bool" where
  acquire_refused: "limiter_pcs l t = Outside \<Longrightarrow> allowed l \<le> 0 \<Longrightarrow> limiter_step l l"
| acquire_checked: "limiter_pcs l t = Outside \<Longrightarrow> 0 < allowed l \<Longrightarrow>
    limiter_step l (l\<lparr>limiter_pcs := (limiter_pcs l)(t := Acquire_wants_mutex)\<rparr>)"
| acquire_lock: "limiter_pcs l t = Acquire_wants_mutex \<Longrightarrow> limiter_mu l = None \<Longrightarrow>
    limiter_step l (l\<lparr>limiter_pcs := (limiter_pcs l)(t := Acquire_has_mutex), limiter_mu := Some t\<rparr>)"
| acquire_load: "limiter_pcs l t = Acquire_has_mutex \<Longrightarrow>
    limiter_step l (l\<lparr>limiter_pcs := (limiter_pcs l)(t := Acquire_loaded (allowed l))\<rparr>)"
| acquire_none: "limiter_pcs l t = Acquire_loaded x \<Longrightarrow> x \<le> 0 \<Longrightarrow>
    limiter_step l (l\<lparr>limiter_pcs := (limiter_pcs l)(t := Unlocking)\<rparr>)"
| acquire_store: "limiter_pcs l t = Acquire_loaded x \<Longrightarrow> 0 < x \<Longrightarrow>
    limiter_step l (l\<lparr>limiter_pcs := (limiter_pcs l)(t := Unlocking), allowed := x - 1, taken := taken l + 1\<rparr>)"
| release_call: "limiter_pcs l t = Outside \<Longrightarrow> 0 < taken l \<Longrightarrow>
    limiter_step l (l\<lparr>limiter_pcs := (limiter_pcs l)(t := Release_wants_mutex), taken := taken l - 1\<rparr>)"
| release_lock: "limiter_pcs l t = Release_wants_mutex \<Longrightarrow> limiter_mu l = None \<Longrightarrow>
    limiter_step l (l\<lparr>limiter_pcs := (limiter_pcs l)(t := Release_has_mutex), limiter_mu := Some t\<rparr>)"
| release_load: "limiter_pcs l t = Release_has_mutex \<Longrightarrow>
    limiter_step l (l\<lparr>limiter_pcs := (limiter_pcs l)(t := Release_loaded (allowed l))\<rparr>)"
| release_store: "limiter_pcs l t = Release_loaded x \<Longrightarrow>
    limiter_step l (l\<lparr>limiter_pcs := (limiter_pcs l)(t := Unlocking), allowed := x + 1\<rparr>)"
| unlock: "limiter_pcs l t = Unlocking \<Longrightarrow>
    limiter_step l (l\<lparr>limiter_pcs := (limiter_pcs l)(t := Outside), limiter_mu := None\<rparr>)"

subsection \<open>PosixRandomAccessFile\<close>

record PosixRandomAccessFile =
  ra_filename :: bytes
  ra_fd :: nat

definition RandomAccess_Read ::
  "PosixRandomAccessFile \<Rightarrow> u64 \<Rightarrow> nat \<Rightarrow> bytes \<Rightarrow> World \<Rightarrow> ((status_value \<times> slice \<times> bytes) \<times> World) res" where
  "RandomAccess_Read f offset n scratch w =
     rbind (c_pread (ra_fd f) n (sint offset) w) (\<lambda>(got, w1).
     case got of
       None \<Rightarrow> Inr ((IOError (ra_filename f) (err_no w1) w1, Slice_ptr (scratch, 0) 0, scratch), w1)
     | Some bs \<Rightarrow>
         rbind (mem_write scratch 0 bs) (\<lambda>scratch'.
         Inr ((None, Slice_ptr (scratch', 0) (length bs), scratch'), w1)))"

definition RandomAccess_destroy :: "PosixRandomAccessFile \<Rightarrow> World \<Rightarrow> World res" where
  "RandomAccess_destroy f w = c_close (ra_fd f) w"

subsection \<open>PosixMmapReadableFile\<close>

record PosixMmapReadableFile =
  mm_filename :: bytes
  mmapped_region :: nat
  mm_length :: nat

text \<open>The bytes of a mapping: those of the file, up to the length that was mapped.\<close>

definition region_bytes :: "PosixMmapReadableFile \<Rightarrow> World \<Rightarrow> bytes res" where
  "region_bytes f w =
     (case maps w (mmapped_region f) of
        None \<Rightarrow> Inl Dangling
      | Some name \<Rightarrow> Inr (take (mm_length f) (file_bytes w name)))"

definition Mmap_Read ::
  "PosixMmapReadableFile \<Rightarrow> u64 \<Rightarrow> u64 \<Rightarrow> World \<Rightarrow> (status_value \<times> slice) res" where
  "Mmap_Read f offset n w =
     (if mm_length f < unat (offset + n)
      then Inr (IOError (mm_filename f) EINVAL w, Slice_default)
      else rbind (region_bytes f w) (\<lambda>base. Inr (None, Slice_ptr (base, unat offset) (unat n))))"

definition Mmap_destroy :: "PosixMmapReadableFile \<Rightarrow> int \<Rightarrow> World \<Rightarrow> (int \<times> World) res" where
  "Mmap_destroy f limiter w =
     rbind (c_munmap (mmapped_region f) w) (\<lambda>w1. Inr (Limiter_Release limiter, w1))"

subsection \<open>Specification\<close>

definition releasing :: "limiter_pc \<Rightarrow> bool" where
  "releasing pc \<longleftrightarrow> pc = Release_wants_mutex \<or> pc = Release_has_mutex \<or> (\<exists>x. pc = Release_loaded x)"

definition in_mutex :: "limiter_pc \<Rightarrow> bool" where
  "in_mutex pc \<longleftrightarrow> \<not> (pc = Outside \<or> pc = Acquire_wants_mutex \<or> pc = Release_wants_mutex)"

definition returning :: "(nat \<Rightarrow> limiter_pc) \<Rightarrow> nat set" where
  "returning p = {t. releasing (p t)}"

text \<open>
  The mutex belongs to the one thread inside it, what that thread loaded is current, and the
  slots are conserved.
\<close>

definition limiter_inv :: "int \<Rightarrow> Limiter \<Rightarrow> bool" where
  "limiter_inv N l \<longleftrightarrow>
     (\<forall>t. in_mutex (limiter_pcs l t) = (limiter_mu l = Some t)) \<and>
     (\<forall>t x. limiter_pcs l t = Acquire_loaded x \<or> limiter_pcs l t = Release_loaded x \<longrightarrow> x = allowed l) \<and>
     finite (returning (limiter_pcs l)) \<and>
     0 \<le> allowed l \<and>
     allowed l + int (taken l) + int (card (returning (limiter_pcs l))) = N"

definition fresh_limiter :: "int \<Rightarrow> Limiter" where
  "fresh_limiter N = \<lparr>allowed = N, limiter_mu = None, limiter_pcs = \<lambda>_. Outside, taken = 0\<rparr>"

section \<open>Lemmas\<close>

subsection \<open>The limiter\<close>

lemma Acquire_Release [simp]:
  "Limiter_Acquire a = (0 < a, if 0 < a then a - 1 else a)"
  "Limiter_Release a = a + 1"
  by (simp_all add: Limiter_Acquire_def Limiter_Release_def)

lemma releasing_simps [simp]:
  "\<not> releasing Outside" "\<not> releasing Acquire_wants_mutex" "\<not> releasing Acquire_has_mutex"
  "\<not> releasing (Acquire_loaded x)" "releasing Release_wants_mutex" "releasing Release_has_mutex"
  "releasing (Release_loaded x)" "\<not> releasing Unlocking"
  by (simp_all add: releasing_def)

lemma in_mutex_simps [simp]:
  "\<not> in_mutex Outside" "\<not> in_mutex Acquire_wants_mutex" "in_mutex Acquire_has_mutex"
  "in_mutex (Acquire_loaded x)" "\<not> in_mutex Release_wants_mutex" "in_mutex Release_has_mutex"
  "in_mutex (Release_loaded x)" "in_mutex Unlocking"
  by (simp_all add: in_mutex_def)

lemma mem_returning [simp]: "t \<in> returning p \<longleftrightarrow> releasing (p t)"
  by (simp add: returning_def)

lemma returning_update:
  "returning (p(t := pc)) = (if releasing pc then insert t (returning p) else returning p - {t})"
  by (auto simp: returning_def)

lemma returning_fresh [simp]: "returning (\<lambda>_. Outside) = {}"
  by (simp add: returning_def)

lemma card_remove_int: "finite A \<Longrightarrow> t \<in> A \<Longrightarrow> int (card (A - {t})) = int (card A) - 1"
  using card_Suc_Diff1 [of A t] by linarith

lemma limiter_invD:
  assumes "limiter_inv N l"
  shows "in_mutex (limiter_pcs l t) = (limiter_mu l = Some t)"
    and "limiter_pcs l t = Acquire_loaded x \<or> limiter_pcs l t = Release_loaded x \<Longrightarrow> x = allowed l"
    and "finite (returning (limiter_pcs l))" and "0 \<le> allowed l"
    and "allowed l + int (taken l) + int (card (returning (limiter_pcs l))) = N"
  using assms by (auto simp: limiter_inv_def)

lemma others_loaded_nothing:
  assumes "limiter_inv N l" and "in_mutex (limiter_pcs l t)" and "s \<noteq> t"
  shows "limiter_pcs l s \<noteq> Acquire_loaded y" "limiter_pcs l s \<noteq> Release_loaded y"
proof -
  have "\<not> in_mutex (limiter_pcs l s)"
    using limiter_invD(1) [OF assms(1), of s] limiter_invD(1) [OF assms(1), of t] assms(2,3) by simp
  then show "limiter_pcs l s \<noteq> Acquire_loaded y" "limiter_pcs l s \<noteq> Release_loaded y" by auto
qed

lemma limiter_inv_fresh: "0 \<le> N \<Longrightarrow> limiter_inv N (fresh_limiter N)"
  by (simp add: limiter_inv_def fresh_limiter_def)

text \<open>A step that only moves a thread, in or out of the mutex or inside it.\<close>

lemma limiter_inv_pc:
  assumes I: "limiter_inv N l" and r: "releasing pc = releasing (limiter_pcs l t)"
    and mu: "mu' = (if in_mutex pc then Some t else if in_mutex (limiter_pcs l t) then None else limiter_mu l)"
    and free: "in_mutex pc \<Longrightarrow> \<not> in_mutex (limiter_pcs l t) \<Longrightarrow> limiter_mu l = None"
    and ld: "\<And>x. pc = Acquire_loaded x \<or> pc = Release_loaded x \<Longrightarrow> x = allowed l"
  shows "limiter_inv N (l\<lparr>limiter_pcs := (limiter_pcs l)(t := pc), limiter_mu := mu'\<rparr>)"
proof -
  note D = limiter_invD [OF I]
  have "returning ((limiter_pcs l)(t := pc)) = returning (limiter_pcs l)"
    using r by (auto simp: returning_def)
  moreover have "in_mutex (((limiter_pcs l)(t := pc)) s) = (mu' = Some s)" for s
    using mu free D(1) [of s] D(1) [of t] by (cases "s = t") auto
  ultimately show ?thesis
    using D(2-5) ld unfolding limiter_inv_def by auto
qed

text \<open>A store to the counter by the thread that is about to unlock.\<close>

lemma limiter_inv_counts:
  assumes I: "limiter_inv N l" and t: "limiter_pcs l t = Unlocking" and a: "0 \<le> a"
    and s: "a + int k = allowed l + int (taken l)"
  shows "limiter_inv N (l\<lparr>allowed := a, taken := k\<rparr>)"
proof -
  have "limiter_pcs l s \<noteq> Acquire_loaded y \<and> limiter_pcs l s \<noteq> Release_loaded y" for s y
    using others_loaded_nothing [OF I, of t s y] t by (cases "s = t") auto
  then show ?thesis
    using limiter_invD(1,3-5) [OF I] a s by (simp add: limiter_inv_def)
qed

lemma limiter_inv_mu: "limiter_inv N l \<Longrightarrow> in_mutex (limiter_pcs l t) \<Longrightarrow> limiter_mu l = Some t"
  by (simp add: limiter_invD(1))

lemma limiter_inv_step:
  assumes "limiter_step l l'" and "limiter_inv N l"
  shows "limiter_inv N l'"
  using assms
proof (induction rule: limiter_step.induct)
  case (release_call l t)
  note I = limiter_invD [OF release_call(3)]
  have "limiter_mu l \<noteq> Some t" using I(1) [of t] release_call(1) by simp
  moreover have "t \<notin> returning (limiter_pcs l)" using release_call(1) by simp
  ultimately show ?case
    using release_call I(3-5)
    by (auto simp: limiter_inv_def returning_update of_nat_diff split: if_splits)
next
  case (release_store l t x)
  note I = limiter_invD [OF release_store(2)]
  have c: "int (card (returning (limiter_pcs l) - {t})) = int (card (returning (limiter_pcs l))) - 1"
    using release_store(1) I(3) by (intro card_remove_int) auto
  have x: "x = allowed l" using I(2) release_store(1) by blast
  have m: "limiter_mu l = Some t" using I(1) [of t] release_store(1) by simp
  show ?case
    using release_store(1) others_loaded_nothing [OF release_store(2), of t] I c x m
    unfolding limiter_inv_def by (auto simp: returning_update)
next
  case (acquire_store l t x)
  let ?l = "l\<lparr>limiter_pcs := (limiter_pcs l)(t := Unlocking), limiter_mu := Some t\<rparr>"
  have m: "limiter_mu l = Some t" using limiter_inv_mu [OF acquire_store(3), of t] acquire_store(1) by simp
  have x: "x = allowed l" using limiter_invD(2) [OF acquire_store(3)] acquire_store(1) by blast
  have I: "limiter_inv N ?l" using limiter_inv_pc [OF acquire_store(3), of Unlocking t] acquire_store(1) by simp
  have "limiter_inv N (?l\<lparr>allowed := x - 1, taken := taken l + 1\<rparr>)"
    using limiter_inv_counts [OF I, of t "x - 1" "taken l + 1"] acquire_store(2) x by simp
  then show ?case using m by (cases l) simp
next
  case (acquire_checked l t)
  then show ?case using limiter_inv_pc [of N l Acquire_wants_mutex t "limiter_mu l"] by simp
next
  case (acquire_lock l t)
  then show ?case using limiter_inv_pc [of N l Acquire_has_mutex t "Some t"] by simp
next
  case (acquire_load l t)
  then show ?case
    using limiter_inv_pc [of N l "Acquire_loaded (allowed l)" t "Some t"] limiter_inv_mu [of N l t] by (cases l) simp
next
  case (acquire_none l t x)
  then show ?case using limiter_inv_pc [of N l Unlocking t "Some t"] limiter_inv_mu [of N l t] by (cases l) simp
next
  case (release_lock l t)
  then show ?case using limiter_inv_pc [of N l Release_has_mutex t "Some t"] by simp
next
  case (release_load l t)
  then show ?case
    using limiter_inv_pc [of N l "Release_loaded (allowed l)" t "Some t"] limiter_inv_mu [of N l t] by (cases l) simp
next
  case (unlock l t)
  then show ?case using limiter_inv_pc [of N l Outside t None] by simp
qed

text \<open>
  C36: Whatever threads call \<open>Acquire\<close> and \<open>Release\<close> and however their steps interleave, the limiter
  never goes negative and never hands out more than its initial number of slots: the slots left,
  the slots in the hands of clients and the slots being given back add up to it. The
  unsynchronised first check in \<open>Acquire\<close> is harmless because the check is repeated under the mutex.
\<close>

theorem limiter_conserves:
  assumes "0 \<le> N" and "limiter_step\<^sup>*\<^sup>* (fresh_limiter N) l"
  shows "0 \<le> allowed l \<and> allowed l + int (taken l) + int (card (returning (limiter_pcs l))) = N"
proof -
  from assms(2) have "limiter_inv N l"
    by (induction rule: rtranclp_induct) (auto intro: limiter_inv_fresh limiter_inv_step assms(1))
  then show ?thesis by (simp add: limiter_inv_def)
qed

lemma limiter_example:
  "limiter_step\<^sup>*\<^sup>* (fresh_limiter 1000)
     ((fresh_limiter 1000)\<lparr>limiter_pcs := (\<lambda>_. Outside)(7 := Acquire_wants_mutex)\<rparr>)"
proof (rule r_into_rtranclp)
  show "limiter_step (fresh_limiter 1000)
     ((fresh_limiter 1000)\<lparr>limiter_pcs := (\<lambda>_. Outside)(7 := Acquire_wants_mutex)\<rparr>)"
    using acquire_checked [of "fresh_limiter 1000" 7] by (simp add: fresh_limiter_def)
qed

theorem limiter_conserves_witness:
  "\<exists>l. limiter_step\<^sup>*\<^sup>* (fresh_limiter 1000) l \<and> limiter_pcs l 7 = Acquire_wants_mutex \<and>
     allowed l + int (taken l) + int (card (returning (limiter_pcs l))) = 1000"
  using limiter_conserves [OF _ limiter_example] limiter_example by (intro exI conjI) auto

subsection \<open>Reading at an offset\<close>

lemma view_prefix: "slice_ok (Slice_ptr (xs @ ys, 0) (length xs))" "view (Slice_ptr (xs @ ys, 0) (length xs)) = xs"
  by (simp_all add: slice_ok_def view_def Slice_ptr_def)

lemma RandomAccess_Read_result:
  assumes fd: "fds w (ra_fd f) = Some name" and n: "n \<le> length scratch"
  shows "\<exists>v sl sc w'. RandomAccess_Read f off n scratch w = Inr ((v, sl, sc), w') \<and> same_files w' w \<and>
    slice_ok sl \<and>
    (v = None \<longrightarrow> 0 \<le> sint off \<and> view sl = take n (drop (nat (sint off)) (file_bytes w name)))"
proof -
  obtain k e w1 where t: "take_outcome w = ((k, e), w1)" "same_world w1 w" by (rule take_outcomeE)
  have sw: "same_files w1 w" using t(2) by (rule same_world_files)
  let ?dir = "disk w1 name = None \<and> dirs w1 name \<noteq> None"
  consider "e \<noteq> 0" | "e = 0" "sint off < 0" | "e = 0" "0 \<le> sint off" ?dir | "e = 0" "0 \<le> sint off" "\<not> ?dir"
    by linarith
  then show ?thesis
  proof cases
    case 4
    define bs where "bs = take n (drop (nat (sint off)) (file_bytes w1 name))"
    have "length bs \<le> length scratch" using n by (simp add: bs_def)
    then have "RandomAccess_Read f off n scratch w =
        Inr ((None, Slice_ptr (bs @ drop (length bs) scratch, 0) (length bs), bs @ drop (length bs) scratch), w1)"
      using fd t(1) 4 by (auto simp add: RandomAccess_Read_def c_pread_def bs_def [symmetric])
    moreover have "file_bytes w1 name = file_bytes w name"
      using t(2) by (simp add: file_bytes_def same_world_def)
    ultimately show ?thesis
      using sw 4 by (simp add: view_prefix bs_def [symmetric]) (simp add: bs_def)
  qed (use fd t sw in \<open>auto simp: RandomAccess_Read_def c_pread_def IOError_def slice_ok_def Slice_ptr_def\<close>)
qed

text \<open>
  On a mapped file whose contents still have the mapped length, a \<open>Read\<close> that the sum
  \<open>offset + n\<close> does not overflow either returns the \<open>n\<close> bytes at the offset, as a slice inside the
  mapping, or fails with an I/O error exactly when these bytes reach past the mapping.
\<close>

theorem Mmap_Read_correct:
  assumes "maps w (mmapped_region f) = Some name" and "mm_length f = length (file_bytes w name)"
    and "unat offset + unat n < 2 ^ 64"
  shows "\<exists>v sl. Mmap_Read f offset n w = Inr (v, sl) \<and> slice_ok sl \<and>
    (v = None \<longleftrightarrow> unat offset + unat n \<le> length (file_bytes w name)) \<and>
    view sl = (if v = None then take (unat n) (drop (unat offset) (file_bytes w name)) else [])"
proof -
  have "unat (offset + n) = unat offset + unat n"
    using assms(3) by (simp add: unat_word_ariths)
  then show ?thesis
    using assms(1,2)
    by (auto simp: Mmap_Read_def region_bytes_def IOError_def slice_ok_def Slice_ptr_def view_def
        Slice_default_def empty_cstr_def)
qed

definition example_mapping :: World where
  "example_mapping = \<lparr>disk = [[1] \<mapsto> [10, 20, 30, 40]], streams = Map.empty, fds = Map.empty,
     maps = [0 \<mapsto> [1]], next_handle = 1, durable = Map.empty, fd_syncs = [], held = {}, foreign = {},
     dirs = Map.empty, environ = Map.empty, script = [], err_no = 0, strerror = \<lambda>_. []\<rparr>"

theorem Mmap_Read_correct_witness:
  "\<exists>v sl. Mmap_Read \<lparr>mm_filename = [1], mmapped_region = 0, mm_length = 4\<rparr> 1 2 example_mapping = Inr (v, sl) \<and>
     view sl = [20, 30]"
proof -
  have "maps example_mapping 0 = Some [1]" "file_bytes example_mapping [1] = [10, 20, 30, 40]"
    by (simp_all add: example_mapping_def file_bytes_def)
  then show ?thesis
    using Mmap_Read_correct [of example_mapping "\<lparr>mm_filename = [1], mmapped_region = 0, mm_length = 4\<rparr>" "[1]" 1 2]
    by auto
qed

text \<open>
  When the sum wraps around, the check passes and the slice starts far outside the mapping.
\<close>

lemma Mmap_Read_wraps:
  assumes "maps w (mmapped_region f) = Some name" and "mm_length f = length (file_bytes w name)"
    and "length (file_bytes w name) < 2 ^ 63"
  shows "\<exists>sl. Mmap_Read f (- 1) 1 w = Inr (None, sl) \<and> \<not> slice_ok sl"
proof -
  have "unat (- 1 :: u64) = 2 ^ 64 - 1" by (simp add: unsigned_minus_1_eq_mask mask_eq_exp_minus_1)
  then show ?thesis
    using assms by (auto simp: Mmap_Read_def region_bytes_def slice_ok_def Slice_ptr_def)
qed

end
