(* ===== verification/Posix_Logger.thy ===== *)
theory Posix_Logger
  imports Posix_Files
begin

text \<open>
  \<open>PosixLogger\<close> (src/db/posix_logger.h). \<open>Logv\<close> formats a line, time stamp and thread id first, into a
  buffer of 500 bytes and, when it does not fit, again into one of 30000, where it is cut. The
  buffers are arrays with bounds that every write is checked against. The time, which may
  differ between the two attempts, and the message that \<open>vsnprintf\<close> expands are arguments.
\<close>

section \<open>Definitions\<close>

text \<open>\<open>%0wd\<close>: decimal, padded with zeros to a width; \<open>%llx\<close>: hexadecimal.\<close>

definition zero_padded :: "nat \<Rightarrow> int \<Rightarrow> bytes" where
  "zero_padded w i =
     (if i < 0 then lit ''-'' @ replicate (w - 1 - length (decimal (nat (- i)))) (of_char (CHR ''0'')) @ decimal (nat (- i))
      else replicate (w - length (decimal (nat i))) (of_char (CHR ''0'')) @ decimal (nat i))"

fun hexadecimal :: "nat \<Rightarrow> bytes" where
  "hexadecimal n = (if n < 16 then [hex_digit n] else hexadecimal (n div 16) @ [hex_digit (n mod 16)])"

declare hexadecimal.simps [simp del]

text \<open>\<open>snprintf\<close> into an array: what fits, and a NUL; the result is the length of the whole text.\<close>

definition snprintf_at :: "bytes \<Rightarrow> nat \<Rightarrow> nat \<Rightarrow> bytes \<Rightarrow> (nat \<times> bytes) res" where
  "snprintf_at buf p n text =
     rbind (mem_write buf p (take (n - 1) text @ [0])) (\<lambda>buf'. Inr (length text, buf'))"

record tm =
  tm_year :: int
  tm_mon :: int
  tm_mday :: int
  tm_hour :: int
  tm_min :: int
  tm_sec :: int
  tv_usec :: int

definition log_header :: "tm \<Rightarrow> u64 \<Rightarrow> bytes" where
  "log_header t thread_id =
     zero_padded 4 (tm_year t + 1900) @ lit ''/'' @ zero_padded 2 (tm_mon t + 1) @ lit ''/'' @
     zero_padded 2 (tm_mday t) @ lit ''-'' @ zero_padded 2 (tm_hour t) @ lit '':'' @
     zero_padded 2 (tm_min t) @ lit '':'' @ zero_padded 2 (tm_sec t) @ lit ''.'' @
     zero_padded 6 (tv_usec t) @ lit '' '' @ hexadecimal (unat thread_id) @ lit '' ''"

text \<open>
  One turn of the loop: \<open>None\<close> is the \<open>continue\<close> of the first turn, otherwise what is passed to
  \<open>fwrite\<close>. \<open>junk\<close> is the uninitialised buffer.
\<close>

definition Logv_turn :: "bool \<Rightarrow> bytes \<Rightarrow> bytes \<Rightarrow> bytes \<Rightarrow> bytes option res" where
  "Logv_turn first_turn junk header message =
     (let limit = length junk
      in rbind (snprintf_at junk 0 limit header) (\<lambda>(n, base).
         let p = n
         in rbind (if p < limit
                   then rbind (snprintf_at base p (limit - p) message) (\<lambda>(m, base). Inr (p + m, base))
                   else Inr (p, base)) (\<lambda>(p, base).
         if p \<ge> limit \<and> first_turn then Inr None
         else
           let p = (if p \<ge> limit then limit - 1 else p)
           in rbind (if p = 0 then Inr True else rbind (mem_read base (p - 1) 1) (\<lambda>c. Inr (c \<noteq> [10]))) (\<lambda>add_newline.
              rbind (if add_newline
                     then rbind (mem_write base p [10]) (\<lambda>base. Inr (p + 1, base))
                     else Inr (p, base)) (\<lambda>(p, base).
              rbind (rassert (p \<le> limit)) (\<lambda>_.
              rbind (mem_read base 0 p) (\<lambda>out. Inr (Some out)))))))) "

definition PosixLogger_Logv ::
  "nat option \<Rightarrow> u64 \<Rightarrow> (nat \<Rightarrow> tm) \<Rightarrow> (nat \<Rightarrow> bytes) \<Rightarrow> bytes \<Rightarrow> World \<Rightarrow> World res" where
  "PosixLogger_Logv file thread_id now junk message w =
     rbind (Logv_turn True (take 500 (junk 0)) (log_header (now 0) thread_id) message) (\<lambda>out1.
     rbind (case out1 of
              Some out \<Rightarrow> Inr (Some out)
            | None \<Rightarrow> Logv_turn False (take 30000 (junk 1)) (log_header (now 1) thread_id) message) (\<lambda>out2.
     case out2 of
       None \<Rightarrow> Inr w
     | Some out \<Rightarrow>
         rbind (c_fwrite out file w) (\<lambda>(_, w1).
         rbind (c_fflush file w1) (\<lambda>(_, w2). Inr w2))))"

definition PosixLogger_destroy :: "nat option \<Rightarrow> World \<Rightarrow> World res" where
  "PosixLogger_destroy file w = rbind (c_fclose file w) (\<lambda>(_, w1). Inr w1)"

subsection \<open>Specification\<close>

text \<open>A text as one line.\<close>

definition as_line :: "bytes \<Rightarrow> bytes" where
  "as_line t = (if t \<noteq> [] \<and> last t = 10 then t else t @ [10])"

section \<open>Lemmas\<close>

lemma snprintf_at_result:
  assumes "p < length buf"
  shows "\<exists>buf'. snprintf_at buf p (length buf - p) text = Inr (length text, buf') \<and> length buf' = length buf \<and>
    take (min (length buf - 1) (p + length text)) buf' = take (length buf - 1) (take p buf @ text)"
proof -
  let ?t = "take (length buf - p - 1) text"
  let ?b = "take p buf @ (?t @ [0]) @ drop (p + length (?t @ [0])) buf"
  have fits: "p + length (?t @ [0]) \<le> length buf" using assms by auto
  then have "snprintf_at buf p (length buf - p) text = Inr (length text, ?b)"
    by (simp only: snprintf_at_def mem_write_Inr rbind_Inr)
  moreover have "length ?b = length buf" using fits by auto
  moreover have "take (min (length buf - 1) (p + length text)) ?b = take (length buf - 1) (take p buf @ text)"
    using assms by (auto simp: min_def take_Cons' split: if_splits)
  ultimately show ?thesis by blast
qed

text \<open>After both calls of \<open>snprintf\<close>: the position, and what the buffer holds up to it.\<close>

lemma print_text:
  assumes "0 < length junk"
  obtains p base where
    "rbind (snprintf_at junk 0 (length junk) h) (\<lambda>(n, base).
       if n < length junk then rbind (snprintf_at base n (length junk - n) m) (\<lambda>(k, base). Inr (n + k, base))
       else Inr (n, base)) = Inr (p, base)"
    "length base = length junk" "(length junk \<le> p) = (length junk \<le> length (h @ m))"
    "p < length junk \<longrightarrow> p = length (h @ m)"
    "take (min (length junk - 1) (length (h @ m))) base = take (length junk - 1) (h @ m)"
proof -
  obtain b1 where b1: "snprintf_at junk 0 (length junk) h = Inr (length h, b1)" "length b1 = length junk"
    "take (min (length junk - 1) (length h)) b1 = take (length junk - 1) h"
    using snprintf_at_result [of 0 junk h] assms by auto
  show ?thesis
  proof (cases "length h < length junk")
    case False
    then have "min (length junk - 1) (length (h @ m)) = min (length junk - 1) (length h)" by simp
    then show ?thesis using that [of "length h" b1] b1 False by simp
  next
    case True
    obtain b2 where b2: "snprintf_at b1 (length h) (length junk - length h) m = Inr (length m, b2)"
      "length b2 = length junk"
      "take (min (length junk - 1) (length h + length m)) b2 = take (length junk - 1) (take (length h) b1 @ m)"
      using snprintf_at_result [of "length h" b1 m] True b1(2) by auto
    have "length h \<le> length junk - 1" using True by simp
    then have "take (length h) b1 = h" using b1(3) by (simp add: min_absorb2)
    then show ?thesis using that [of "length h + length m" b2] b1 b2 True by simp
  qed
qed

lemma rbind_pair: "rbind M (\<lambda>(a, b). rbind (N a b) K) = rbind (rbind M (\<lambda>(a, b). N a b)) K"
  by (cases M) auto

lemma q_facts:
  assumes "(L \<le> p) = (L \<le> length t)" and "p < L \<longrightarrow> p = length t"
    and "take (min (L - 1) (length t)) base = take (L - 1) t"
  shows "(if L \<le> p then L - 1 else p) = length (take (L - 1) t)" "(if L \<le> p then L - 1 else p) \<le> L - 1"
    "take (if L \<le> p then L - 1 else p) base = take (L - 1) t"
  using assms by (cases "L \<le> p"; simp add: min_absorb1 min_absorb2)+

lemma last_read:
  assumes "q = length t" and "take q base = t" and "q \<noteq> 0"
  shows "take 1 (drop (q - 1) base) = [last t]"
proof -
  obtain ys y where t: "t = ys @ [y]" using assms by (cases t rule: rev_cases) auto
  have "base = t @ drop q base" using assms(2) by (metis append_take_drop_id)
  then have "drop (q - 1) base = y # drop q base" using assms(1) t by (metis append_eq_conv_conj append_Cons
    append_Nil append_assoc diff_Suc_1 length_append_singleton)
  then show ?thesis using t by simp
qed

lemma finish_line:
  assumes "q = length t" and "take q base = t" and "q + 1 \<le> L" and "length base = L"
  shows "rbind (if nl then rbind (mem_write base q [10]) (\<lambda>base. Inr (q + 1, base)) else Inr (q, base)) (\<lambda>(p, base).
      rbind (rassert (p \<le> L)) (\<lambda>_. rbind (mem_read base 0 p) (\<lambda>out. Inr (Some out)))) =
    Inr (Some (if nl then t @ [10] else t))"
proof (cases nl)
  case True
  have "mem_write base q [10] = Inr (t @ [10] @ drop (q + 1) base)" using assms by simp
  moreover have "mem_read (t @ [10] @ drop (q + 1) base) 0 (q + 1) = Inr (t @ [10])"
    using assms by (simp add: mem_read_def)
  ultimately show ?thesis using True assms(3) by simp
next
  case False
  have "mem_read base 0 q = Inr t" using assms by (simp add: mem_read_def)
  then show ?thesis using False assms(3) by simp
qed

lemma turn_eq:
  "Logv_turn first_turn junk h m =
     rbind (rbind (snprintf_at junk 0 (length junk) h) (\<lambda>(n, base).
       if n < length junk then rbind (snprintf_at base n (length junk - n) m) (\<lambda>(k, base). Inr (n + k, base))
       else Inr (n, base)))
     (\<lambda>(p, base).
       let q = if length junk \<le> p then length junk - 1 else p
       in if length junk \<le> p \<and> first_turn then Inr None
          else rbind (if q = 0 then Inr True else rbind (mem_read base (q - 1) 1) (\<lambda>c. Inr (c \<noteq> [10]))) (\<lambda>nl.
            rbind (if nl then rbind (mem_write base q [10]) (\<lambda>base. Inr (q + 1, base)) else Inr (q, base)) (\<lambda>(p, base).
            rbind (rassert (p \<le> length junk)) (\<lambda>_. rbind (mem_read base 0 p) (\<lambda>out. Inr (Some out))))))"
  unfolding Logv_turn_def Let_def rbind_pair ..

lemma Logv_turn_result:
  assumes L: "1 < length junk"
  shows "Logv_turn first_turn junk h m =
    (if first_turn \<and> length junk \<le> length (h @ m) then Inr None
     else Inr (Some (as_line (take (length junk - 1) (h @ m)))))"
proof -
  let ?L = "length junk" and ?t = "h @ m"
  have pos: "0 < length junk" using L by linarith
  obtain p base where b:
    "rbind (snprintf_at junk 0 ?L h) (\<lambda>(n, base).
       if n < ?L then rbind (snprintf_at base n (?L - n) m) (\<lambda>(k, base). Inr (n + k, base))
       else Inr (n, base)) = Inr (p, base)"
    "length base = ?L" "(?L \<le> p) = (?L \<le> length ?t)" "p < ?L \<longrightarrow> p = length ?t"
    "take (min (?L - 1) (length ?t)) base = take (?L - 1) ?t"
    using pos by (rule print_text)
  let ?q = "if ?L \<le> p then ?L - 1 else p"
  define t where "t = take (?L - 1) ?t"
  have q: "?q = length t" "?q \<le> ?L - 1" "take ?q base = t"
    using q_facts [OF b(3,4,5)] by (simp_all only: t_def)
  have start: "Logv_turn first_turn junk h m =
      (if ?L \<le> p \<and> first_turn then Inr None
       else rbind (if ?q = 0 then Inr True else rbind (mem_read base (?q - 1) 1) (\<lambda>c. Inr (c \<noteq> [10]))) (\<lambda>nl.
            rbind (if nl then rbind (mem_write base ?q [10]) (\<lambda>base. Inr (?q + 1, base)) else Inr (?q, base)) (\<lambda>(p, base).
            rbind (rassert (p \<le> ?L)) (\<lambda>_. rbind (mem_read base 0 p) (\<lambda>out. Inr (Some out))))))"
    unfolding turn_eq b(1) rbind_Inr prod.case Let_def ..
  show ?thesis
  proof (cases "?L \<le> p \<and> first_turn")
    case True
    then show ?thesis using start b(3) by simp
  next
    case False
    have nl: "(if ?q = 0 then Inr True else rbind (mem_read base (?q - 1) 1) (\<lambda>c. Inr (c \<noteq> [10]))) =
        Inr (\<not> (t \<noteq> [] \<and> last t = 10))"
    proof (cases "?q = 0")
      case True
      then show ?thesis using q(1) by simp
    next
      case False
      have "take 1 (drop (?q - 1) base) = [last t]" using q(1,3) False by (rule last_read)
      moreover have "?q - 1 + 1 \<le> length base" using False q(2) b(2) by simp
      moreover have "t \<noteq> []" using False q(1) by auto
      ultimately show ?thesis using False by (simp add: mem_read_def)
    qed
    have le: "?q + 1 \<le> ?L" using q(2) L by simp
    have "Logv_turn first_turn junk h m = Inr (Some (if \<not> (t \<noteq> [] \<and> last t = 10) then t @ [10] else t))"
      unfolding start nl rbind_Inr finish_line [OF q(1,3) le b(2)] using False by (simp only: if_False)
    moreover have "\<not> (first_turn \<and> ?L \<le> length ?t)" using False b(3) by blast
    ultimately show ?thesis by (simp add: as_line_def t_def)
  qed
qed

text \<open>
  \<open>Logv\<close> never writes outside its buffers, its assertion holds, and it passes exactly one line to
  \<open>fwrite\<close>: header and message, with a newline added unless there is one. Below 500 bytes this is
  the text formatted at the first attempt; otherwise it is the text of the second attempt, cut at
  29999 bytes. Then the stream is flushed.
\<close>

theorem Logv_writes_one_line:
  assumes "500 \<le> length (junk 0)" and "30000 \<le> length (junk 1)"
  shows "PosixLogger_Logv file thread_id now junk message w =
    (let text1 = log_header (now 0) thread_id @ message;
         text2 = log_header (now 1) thread_id @ message;
         out = (if length text1 < 500 then as_line text1 else as_line (take 29999 text2))
     in rbind (c_fwrite out file w) (\<lambda>(_, w1). rbind (c_fflush file w1) (\<lambda>(_, w2). Inr w2)))"
proof -
  let ?h0 = "log_header (now 0) thread_id" and ?h1 = "log_header (now 1) thread_id"
  have L: "length (take 500 (junk 0)) = 500" "length (take 30000 (junk 1)) = 30000" using assms by simp_all
  have 1: "Logv_turn True (take 500 (junk 0)) ?h0 message =
      (if 500 \<le> length (?h0 @ message) then Inr None else Inr (Some (as_line (take 499 (?h0 @ message)))))"
    using Logv_turn_result [of "take 500 (junk 0)" True ?h0 message] L by simp
  have 2: "Logv_turn False (take 30000 (junk 1)) ?h1 message = Inr (Some (as_line (take 29999 (?h1 @ message))))"
    using Logv_turn_result [of "take 30000 (junk 1)" False ?h1 message] L by simp
  show ?thesis
    unfolding PosixLogger_Logv_def 1 2 Let_def by (cases "length (?h0 @ message) < 500") simp_all
qed

theorem Logv_writes_one_line_witness:
  "\<forall>w. PosixLogger_Logv (Some 1) 0 (\<lambda>_. \<lparr>tm_year = 117, tm_mon = 0, tm_mday = 1, tm_hour = 2, tm_min = 3,
       tm_sec = 4, tv_usec = 5\<rparr>) (\<lambda>_. replicate 30000 0) (lit ''hi'') w =
     rbind (c_fwrite (lit ''2017/01/01-02:03:04.000005 0 hi'' @ [10]) (Some 1) w)
       (\<lambda>(_, w1). rbind (c_fflush (Some 1) w1) (\<lambda>(_, w2). Inr w2))"
proof -
  let ?t = "\<lparr>tm_year = 117, tm_mon = 0, tm_mday = 1, tm_hour = 2, tm_min = 3, tm_sec = 4, tv_usec = 5\<rparr>"
  have h: "log_header ?t 0 = lit ''2017/01/01-02:03:04.000005 0 ''"
    by code_simp
  show ?thesis
  proof
    fix w
    show "PosixLogger_Logv (Some 1) 0 (\<lambda>_. ?t) (\<lambda>_. replicate 30000 0) (lit ''hi'') w =
        rbind (c_fwrite (lit ''2017/01/01-02:03:04.000005 0 hi'' @ [10]) (Some 1) w)
          (\<lambda>(_, w1). rbind (c_fflush (Some 1) w1) (\<lambda>(_, w2). Inr w2))"
      using Logv_writes_one_line [of "\<lambda>_. replicate 30000 0" "Some 1" 0 "\<lambda>_. ?t" "lit ''hi''" w]
      by (simp add: h as_line_def Let_def)
  qed
qed

end
