(* ===== verification/Posix_Env.thy ===== *)
theory Posix_Env
  imports Posix_Random Env_Files
begin

text \<open>
  The class \<open>PosixEnv\<close> of src/db/Env_posix.cpp: opening files, operations on names, file locks
  and the rest of its interface, over the world of system calls. Its state beside that world is
  the table of locked names and the counter of the mmap limiter. The class provides the \<open>Env\<close>
  interface, so the contracts of \<open>WriteStringToFile\<close> and \<open>ReadFileToString\<close> are instantiated here.
  The background thread has a theory of its own.
\<close>

section \<open>Definitions\<close>

record PosixEnv =
  pe_world :: World
  locked_files :: "bytes set"
  mmap_allowed :: int

text \<open>A function on the world as a function on the environment.\<close>

definition on_world :: "(World \<Rightarrow> ('a \<times> World) res) \<Rightarrow> PosixEnv \<Rightarrow> ('a \<times> PosixEnv) res" where
  "on_world f p = rbind (f (pe_world p)) (\<lambda>(x, w). Inr (x, p\<lparr>pe_world := w\<rparr>))"

subsection \<open>Opening files\<close>

definition Posix_NewSequentialFile ::
  "bytes \<Rightarrow> World \<Rightarrow> ((status_value \<times> PosixSequentialFile option) \<times> World) res" where
  "Posix_NewSequentialFile name w =
     (case c_fopen (c_str name) Fread w of
        (None, w1) \<Rightarrow> Inr ((IOError name (err_no w1) w1, None), w1)
      | (Some h, w1) \<Rightarrow> Inr ((None, Some \<lparr>sq_filename = name, sq_file = Some h\<rparr>), w1))"

definition Posix_NewWritableFile ::
  "bytes \<Rightarrow> World \<Rightarrow> ((status_value \<times> PosixWritableFile option) \<times> World) res" where
  "Posix_NewWritableFile fname w =
     (case c_fopen (c_str fname) Fwrite w of
        (None, w1) \<Rightarrow> Inr ((IOError fname (err_no w1) w1, None), w1)
      | (Some h, w1) \<Rightarrow> Inr ((None, Some \<lparr>pw_filename = fname, pw_file = Some h\<rparr>), w1))"

definition Posix_NewAppendableFile ::
  "bytes \<Rightarrow> World \<Rightarrow> ((status_value \<times> PosixWritableFile option) \<times> World) res" where
  "Posix_NewAppendableFile fname w =
     (case c_fopen (c_str fname) Fappend w of
        (None, w1) \<Rightarrow> Inr ((IOError fname (err_no w1) w1, None), w1)
      | (Some h, w1) \<Rightarrow> Inr ((None, Some \<lparr>pw_filename = fname, pw_file = Some h\<rparr>), w1))"

text \<open>\<open>NewLogger\<close>: the object is a \<open>PosixLogger\<close> on the stream.\<close>

definition Posix_NewLogger :: "bytes \<Rightarrow> World \<Rightarrow> ((status_value \<times> nat option) \<times> World) res" where
  "Posix_NewLogger fname w =
     (case c_fopen (c_str fname) Fwrite w of
        (None, w1) \<Rightarrow> Inr ((IOError fname (err_no w1) w1, None), w1)
      | (Some h, w1) \<Rightarrow> Inr ((None, Some h), w1))"

subsection \<open>Names\<close>

definition Posix_FileExists :: "bytes \<Rightarrow> World \<Rightarrow> (bool \<times> World) res" where
  "Posix_FileExists fname w = (case c_access (c_str fname) w of (r, w1) \<Rightarrow> Inr (r = 0, w1))"

fun push_entries :: "bytes list \<Rightarrow> bytes list \<Rightarrow> bytes list" where
  "push_entries [] result = result"
| "push_entries (entry # d) result = push_entries d (result @ [entry])"

definition Posix_GetChildren :: "bytes \<Rightarrow> World \<Rightarrow> ((status_value \<times> bytes list) \<times> World) res" where
  "Posix_GetChildren dir w =
     (case c_opendir (c_str dir) w of
        (None, w1) \<Rightarrow> Inr ((IOError dir (err_no w1) w1, []), w1)
      | (Some d, w1) \<Rightarrow> Inr ((None, push_entries d []), w1))"

definition Posix_DeleteFile :: "bytes \<Rightarrow> World \<Rightarrow> (status_value \<times> World) res" where
  "Posix_DeleteFile fname w =
     (case c_unlink (c_str fname) w of
        (r, w1) \<Rightarrow> Inr (if r \<noteq> 0 then IOError fname (err_no w1) w1 else None, w1))"

definition Posix_CreateDir :: "bytes \<Rightarrow> World \<Rightarrow> (status_value \<times> World) res" where
  "Posix_CreateDir name w =
     (case c_mkdir (c_str name) w of
        (r, w1) \<Rightarrow> Inr (if r \<noteq> 0 then IOError name (err_no w1) w1 else None, w1))"

definition Posix_DeleteDir :: "bytes \<Rightarrow> World \<Rightarrow> (status_value \<times> World) res" where
  "Posix_DeleteDir name w =
     (case c_rmdir (c_str name) w of
        (r, w1) \<Rightarrow> Inr (if r \<noteq> 0 then IOError name (err_no w1) w1 else None, w1))"

definition Posix_GetFileSize :: "bytes \<Rightarrow> World \<Rightarrow> ((status_value \<times> u64) \<times> World) res" where
  "Posix_GetFileSize name w =
     (case c_stat (c_str name) w of
        (None, w1) \<Rightarrow> Inr ((IOError name (err_no w1) w1, 0), w1)
      | (Some n, w1) \<Rightarrow> Inr ((None, of_nat n), w1))"

definition Posix_RenameFile :: "bytes \<Rightarrow> bytes \<Rightarrow> World \<Rightarrow> (status_value \<times> World) res" where
  "Posix_RenameFile src target w =
     (case c_rename (c_str src) (c_str target) w of
        (r, w1) \<Rightarrow> Inr (if r \<noteq> 0 then IOError src (err_no w1) w1 else None, w1))"

subsection \<open>Random access files\<close>

datatype PosixRandom = Pread PosixRandomAccessFile | Mmapped PosixMmapReadableFile

definition Posix_NewRandomAccessFile ::
  "bytes \<Rightarrow> PosixEnv \<Rightarrow> ((status_value \<times> PosixRandom option) \<times> PosixEnv) res" where
  "Posix_NewRandomAccessFile name p =
     (case c_open_read (c_str name) (pe_world p) of
        (None, w1) \<Rightarrow> Inr ((IOError name (err_no w1) w1, None), p\<lparr>pe_world := w1\<rparr>)
      | (Some fd, w1) \<Rightarrow>
          (case Limiter_Acquire (mmap_allowed p) of
             (False, a1) \<Rightarrow>
               Inr ((None, Some (Pread \<lparr>ra_filename = name, ra_fd = fd\<rparr>)),
                    p\<lparr>pe_world := w1, mmap_allowed := a1\<rparr>)
           | (True, a1) \<Rightarrow>
               rbind (Posix_GetFileSize name w1) (\<lambda>((s, fsize), w2).
               rbind (if s = None
                      then rbind (c_mmap fd (unat fsize) w2) (\<lambda>(base, w3).
                           case base of
                             Some b \<Rightarrow> Inr ((None, Some (Mmapped \<lparr>mm_filename = name,
                                         mmapped_region = b, mm_length = unat fsize\<rparr>)), w3)
                           | None \<Rightarrow> Inr ((IOError name (err_no w3) w3, None), w3))
                      else Inr ((s, None), w2)) (\<lambda>((s, ret), w3).
               rbind (c_close fd w3) (\<lambda>w4.
               Inr ((s, ret), p\<lparr>pe_world := w4,
                      mmap_allowed := (if s \<noteq> None then Limiter_Release a1 else a1)\<rparr>))))))"

definition Random_Read ::
  "PosixRandom \<Rightarrow> u64 \<Rightarrow> nat \<Rightarrow> bytes \<Rightarrow> PosixEnv \<Rightarrow> ((status_value \<times> slice \<times> bytes) \<times> PosixEnv) res" where
  "Random_Read f offset n scratch p =
     (case f of
        Pread g \<Rightarrow> on_world (RandomAccess_Read g offset n scratch) p
      | Mmapped g \<Rightarrow>
          rbind (Mmap_Read g offset (of_nat n) (pe_world p)) (\<lambda>(s, result). Inr ((s, result, scratch), p)))"

definition Random_delete :: "PosixRandom \<Rightarrow> PosixEnv \<Rightarrow> PosixEnv res" where
  "Random_delete f p =
     (case f of
        Pread g \<Rightarrow> rbind (RandomAccess_destroy g (pe_world p)) (\<lambda>w1. Inr (p\<lparr>pe_world := w1\<rparr>))
      | Mmapped g \<Rightarrow>
          rbind (Mmap_destroy g (mmap_allowed p) (pe_world p)) (\<lambda>(a1, w1).
          Inr (p\<lparr>pe_world := w1, mmap_allowed := a1\<rparr>)))"

subsection \<open>Locks\<close>

record PosixFileLock =
  lock_fd :: nat
  lock_name :: bytes

definition LockTable_Insert :: "bytes \<Rightarrow> bytes set \<Rightarrow> bool \<times> bytes set" where
  "LockTable_Insert name locked = (name \<notin> locked, insert name locked)"

definition LockTable_Remove :: "bytes \<Rightarrow> bytes set \<Rightarrow> bytes set" where
  "LockTable_Remove name locked = locked - {name}"

definition LockOrUnlock :: "nat \<Rightarrow> bool \<Rightarrow> World \<Rightarrow> (int \<times> World) res" where
  "LockOrUnlock fd lock w = c_setlk fd lock (w\<lparr>err_no := 0\<rparr>)"

definition Posix_LockFile ::
  "bytes \<Rightarrow> PosixEnv \<Rightarrow> ((status_value \<times> PosixFileLock option) \<times> PosixEnv) res" where
  "Posix_LockFile fname p =
     (case c_open_create (c_str fname) (pe_world p) of
        (None, w1) \<Rightarrow> Inr ((IOError fname (err_no w1) w1, None), p\<lparr>pe_world := w1\<rparr>)
      | (Some fd, w1) \<Rightarrow>
          (case LockTable_Insert fname (locked_files p) of
             (False, locked) \<Rightarrow>
               rbind (c_close fd w1) (\<lambda>w2.
               Inr ((Some (KIOError, status_message (lit ''lock '' @ fname) (lit ''already held by process'')), None),
                    p\<lparr>pe_world := w2, locked_files := locked\<rparr>))
           | (True, locked) \<Rightarrow>
               rbind (LockOrUnlock fd True w1) (\<lambda>(r, w2).
               if r = - 1
               then rbind (c_close fd w2) (\<lambda>w3.
                    Inr ((IOError (lit ''lock '' @ fname) (err_no w2) w2, None),
                         p\<lparr>pe_world := w3, locked_files := LockTable_Remove fname locked\<rparr>))
               else Inr ((None, Some \<lparr>lock_fd = fd, lock_name = fname\<rparr>),
                         p\<lparr>pe_world := w2, locked_files := locked\<rparr>))))"

definition Posix_UnlockFile :: "PosixFileLock \<Rightarrow> PosixEnv \<Rightarrow> (status_value \<times> PosixEnv) res" where
  "Posix_UnlockFile my_lock p =
     rbind (LockOrUnlock (lock_fd my_lock) False (pe_world p)) (\<lambda>(r, w1).
     let result = (if r = - 1 then IOError (lit ''unlock'') (err_no w1) w1 else None);
         locked = LockTable_Remove (lock_name my_lock) (locked_files p)
     in rbind (c_close (lock_fd my_lock) w1) (\<lambda>w2.
        Inr (result, p\<lparr>pe_world := w2, locked_files := locked\<rparr>)))"

subsection \<open>The rest of the interface\<close>

text \<open>\<open>euid\<close> is the result of \<open>geteuid()\<close>.\<close>

definition Posix_GetTestDirectory :: "int \<Rightarrow> World \<Rightarrow> ((status_value \<times> bytes) \<times> World) res" where
  "Posix_GetTestDirectory euid w =
     (let result =
        (case environ w (lit ''TEST_TMPDIR'') of
           Some env \<Rightarrow> if env \<noteq> [] then env
                       else snprintf_cstr 100 (lit ''/tmp/leveldbtest-'' @ decimal_int euid)
         | None \<Rightarrow> snprintf_cstr 100 (lit ''/tmp/leveldbtest-'' @ decimal_int euid))
      in rbind (Posix_CreateDir result w) (\<lambda>(_, w1). Inr ((None, result), w1)))"

text \<open>The bytes of the thread identifier, as many as fit, over a zero.\<close>

definition Posix_gettid :: "bool \<Rightarrow> bytes \<Rightarrow> u64" where
  "Posix_gettid little tid =
     (let n = min 8 (length tid) in mem_value little (take n tid @ drop n (mem_image little 8 (0 :: u64))))"

definition Posix_NowMicros :: "int \<Rightarrow> int \<Rightarrow> u64" where
  "Posix_NowMicros tv_sec tv_usec = of_int tv_sec * 1000000 + of_int tv_usec"

text \<open>
  The object of class \<open>Env\<close>. The user id and the clock, and the operations on threads, are
  arguments.
\<close>

definition posix_env ::
  "int \<Rightarrow> (PosixEnv \<Rightarrow> int \<times> int) \<Rightarrow> (nat \<Rightarrow> nat \<Rightarrow> PosixEnv \<Rightarrow> PosixEnv res) \<Rightarrow>
   (nat \<Rightarrow> nat \<Rightarrow> PosixEnv \<Rightarrow> PosixEnv res) \<Rightarrow> (int \<Rightarrow> PosixEnv \<Rightarrow> PosixEnv res) \<Rightarrow>
   (PosixEnv, PosixSequentialFile, PosixRandom, PosixWritableFile, PosixFileLock, nat) Env" where
  "posix_env euid timeofday schedule start_thread usleep =
     \<lparr>env_NewSequentialFile = \<lambda>f. on_world (Posix_NewSequentialFile f),
      env_NewRandomAccessFile = Posix_NewRandomAccessFile,
      env_NewWritableFile = \<lambda>f. on_world (Posix_NewWritableFile f),
      env_NewAppendableFile = \<lambda>f. on_world (Posix_NewAppendableFile f),
      env_FileExists = \<lambda>f. on_world (Posix_FileExists f),
      env_GetChildren = \<lambda>f. on_world (Posix_GetChildren f),
      env_DeleteFile = \<lambda>f. on_world (Posix_DeleteFile f),
      env_CreateDir = \<lambda>f. on_world (Posix_CreateDir f),
      env_DeleteDir = \<lambda>f. on_world (Posix_DeleteDir f),
      env_GetFileSize = \<lambda>f. on_world (Posix_GetFileSize f),
      env_RenameFile = \<lambda>src target. on_world (Posix_RenameFile src target),
      env_LockFile = Posix_LockFile,
      env_UnlockFile = Posix_UnlockFile,
      env_Schedule = schedule,
      env_StartThread = start_thread,
      env_GetTestDirectory = on_world (Posix_GetTestDirectory euid),
      env_NewLogger = \<lambda>f. on_world (Posix_NewLogger f),
      env_NowMicros = \<lambda>p. case timeofday p of (sec, usec) \<Rightarrow> Inr (Posix_NowMicros sec usec, p),
      env_SleepForMicroseconds = usleep\<rparr>"

definition posix_sequential :: "(PosixEnv, PosixSequentialFile) SequentialFile" where
  "posix_sequential =
     \<lparr>sf_Read = \<lambda>f n scratch. on_world (\<lambda>w.
        rbind (Sequential_Read f n scratch w) (\<lambda>((v, sl, sc), w1). Inr ((v, sl, sc, f), w1))),
      sf_Skip = \<lambda>f n. on_world (\<lambda>w. rbind (Sequential_Skip f n w) (\<lambda>(v, w1). Inr ((v, f), w1))),
      sf_delete = \<lambda>f p. rbind (Sequential_destroy f (pe_world p)) (\<lambda>w1. Inr (p\<lparr>pe_world := w1\<rparr>))\<rparr>"

definition posix_writable :: "(PosixEnv, PosixWritableFile) WritableFile" where
  "posix_writable =
     \<lparr>wf_Append = \<lambda>f d. on_world (\<lambda>w. rbind (Writable_Append f d w) (\<lambda>(v, w1). Inr ((v, f), w1))),
      wf_Close = \<lambda>f. on_world (Writable_Close f),
      wf_Flush = \<lambda>f. on_world (\<lambda>w. rbind (Writable_Flush f w) (\<lambda>(v, w1). Inr ((v, f), w1))),
      wf_Sync = \<lambda>f. on_world (\<lambda>w. rbind (Writable_Sync f w) (\<lambda>(v, w1). Inr ((v, f), w1))),
      wf_delete = \<lambda>f p. rbind (Writable_destroy f (pe_world p)) (\<lambda>w1. Inr (p\<lparr>pe_world := w1\<rparr>))\<rparr>"

definition posix_random :: "(PosixEnv, PosixRandom) RandomAccessFile" where
  "posix_random = \<lparr>rf_Read = Random_Read, rf_delete = Random_delete\<rparr>"

section \<open>Lemmas\<close>

lemma on_world_Inr [simp]: "f (pe_world p) = Inr (x, w) \<Longrightarrow> on_world f p = Inr (x, p\<lparr>pe_world := w\<rparr>)"
  by (simp add: on_world_def)

lemma push_entries_append [simp]: "push_entries d result = result @ d"
  by (induction d result rule: push_entries.induct) simp_all


definition env_ok :: "PosixEnv \<Rightarrow> bool" where "env_ok p \<longleftrightarrow> world_ok (pe_world p)"
definition env_handles :: "PosixEnv \<Rightarrow> (nat \<times> nat) set" where "env_handles p = handles (pe_world p)"
definition env_disk :: "PosixEnv \<Rightarrow> bytes \<Rightarrow> bytes option" where "env_disk p = disk (pe_world p)"
definition env_durable :: "PosixEnv \<Rightarrow> bytes \<Rightarrow> bytes option" where "env_durable p = durable (pe_world p)"

lemma env_simps [simp]:
  "env_ok (p\<lparr>pe_world := w\<rparr>) = world_ok w" "env_handles (p\<lparr>pe_world := w\<rparr>) = handles w"
  "env_disk (p\<lparr>pe_world := w\<rparr>) = disk w" "env_durable (p\<lparr>pe_world := w\<rparr>) = durable w"
  by (simp_all add: env_ok_def env_handles_def env_disk_def env_durable_def)

subsection \<open>Opening and deleting\<close>

lemma NewWritableFile_result:
  assumes "world_ok w"
  shows "\<exists>v fo w'. Posix_NewWritableFile name w = Inr ((v, fo), w') \<and> world_ok w' \<and>
    (\<forall>k. k \<noteq> c_str name \<longrightarrow> disk w' k = disk w k) \<and>
    (v = None \<longrightarrow> (\<exists>f. fo = Some f \<and> writer_open w' f name \<and> written w' f name [] \<and>
       stream_handle (pw_file f) \<inter> handles w = {} \<and> handles w' = handles w \<union> stream_handle (pw_file f))) \<and>
    (v \<noteq> None \<longrightarrow> handles w' = handles w \<and> disk w' = disk w)"
  using assms
proof (cases rule: c_fopen_result [where name = "c_str name" and mode = Fwrite])
  case (failed w')
  then show ?thesis
    using same_filesD [OF failed(3)] by (auto simp: Posix_NewWritableFile_def IOError_def)
next
  case (opened h w')
  let ?f = "\<lparr>pw_filename = name, pw_file = Some h\<rparr>"
  have "Posix_NewWritableFile name w = Inr ((None, Some ?f), w')"
    using opened(1) by (simp add: Posix_NewWritableFile_def)
  moreover have "writer_open w' ?f name" "written w' ?f name []"
    using opened(4,8) by (auto simp: writer_open_def written_def file_bytes_def)
  moreover have "handles w' = handles w \<union> {(0, h)}" using opened(4-6) by (rule handles_open_stream)
  ultimately show ?thesis using opened(2,3,8) by (auto simp: stream_handle_def)
qed

lemma NewSequentialFile_result:
  assumes "world_ok w"
  shows "\<exists>v fo w'. Posix_NewSequentialFile name w = Inr ((v, fo), w') \<and> world_ok w' \<and> disk w' = disk w \<and>
    (v = None \<longrightarrow> (\<exists>f c. fo = Some f \<and> disk w (c_str name) = Some c \<and> to_read w' f c \<and>
       stream_handle (sq_file f) \<inter> handles w = {} \<and> handles w' = handles w \<union> stream_handle (sq_file f))) \<and>
    (v \<noteq> None \<longrightarrow> handles w' = handles w)"
  using assms
proof (cases rule: c_fopen_result [where name = "c_str name" and mode = Fread])
  case (failed w')
  then show ?thesis
    using same_filesD [OF failed(3)] by (auto simp: Posix_NewSequentialFile_def IOError_def)
next
  case (opened h w')
  let ?f = "\<lparr>sq_filename = name, sq_file = Some h\<rparr>"
  obtain c where c: "disk w (c_str name) = Some c" using opened(9) by blast
  have "Posix_NewSequentialFile name w = Inr ((None, Some ?f), w')"
    using opened(1) by (simp add: Posix_NewSequentialFile_def)
  moreover have "to_read w' ?f c" using opened(4,8) c by (simp add: to_read_def)
  moreover have "handles w' = handles w \<union> {(0, h)}" using opened(4-6) by (rule handles_open_stream)
  ultimately show ?thesis using opened(2,3,8) c by (auto simp: stream_handle_def)
qed

lemma DeleteFile_result:
  assumes "world_ok w"
  shows "\<exists>v w'. Posix_DeleteFile name w = Inr (v, w') \<and> world_ok w' \<and> handles w' = handles w \<and>
    (\<forall>k. k \<noteq> c_str name \<longrightarrow> disk w' k = disk w k) \<and>
    (v = None \<longrightarrow> disk w' (c_str name) = None) \<and> (v \<noteq> None \<longrightarrow> disk w' = disk w)"
proof -
  obtain k e w1 where t: "take_outcome w = ((k, e), w1)" "same_world w1 w" by (rule take_outcomeE)
  then show ?thesis
    using assms
    by (auto simp: Posix_DeleteFile_def c_unlink_def IOError_def same_world_def world_ok_def handles_def)
qed

lemma calm_NewWritable:
  "calm w name \<Longrightarrow> Posix_NewWritableFile f w = Inr ((v, fo), w') \<Longrightarrow> v = None \<and> calm w' name"
  using calm_fopen [of w name Fwrite "c_str f"] by (auto simp: Posix_NewWritableFile_def)

lemma calm_NewSequential:
  "calm w name \<Longrightarrow> disk w (c_str f) \<noteq> None \<Longrightarrow> Posix_NewSequentialFile f w = Inr ((v, fo), w') \<Longrightarrow>
     v = None \<and> calm w' name"
  using calm_fopen [of w name Fread "c_str f"] by (auto simp: Posix_NewSequentialFile_def)

lemma writer_open_name: "writer_open w f name \<Longrightarrow> pw_filename f = name"
  by (simp add: writer_open_def)

subsection \<open>The environment keeps the contract of a file store\<close>

lemma posix_writable_simps [simp]:
  "wf_Append posix_writable f d = on_world (\<lambda>w. rbind (Writable_Append f d w) (\<lambda>(v, w1). Inr ((v, f), w1)))"
  "wf_Close posix_writable f = on_world (Writable_Close f)"
  "wf_Flush posix_writable f = on_world (\<lambda>w. rbind (Writable_Flush f w) (\<lambda>(v, w1). Inr ((v, f), w1)))"
  "wf_Sync posix_writable f = on_world (\<lambda>w. rbind (Writable_Sync f w) (\<lambda>(v, w1). Inr ((v, f), w1)))"
  "wf_delete posix_writable f p = rbind (Writable_destroy f (pe_world p)) (\<lambda>w1. Inr (p\<lparr>pe_world := w1\<rparr>))"
  by (simp_all add: posix_writable_def)

lemma posix_sequential_simps [simp]:
  "sf_Read posix_sequential f n scratch = on_world (\<lambda>w.
     rbind (Sequential_Read f n scratch w) (\<lambda>((v, sl, sc), w1). Inr ((v, sl, sc, f), w1)))"
  "sf_delete posix_sequential f p =
     rbind (Sequential_destroy f (pe_world p)) (\<lambda>w1. Inr (p\<lparr>pe_world := w1\<rparr>))"
  by (simp_all add: posix_sequential_def)

lemma posix_env_simps [simp]:
  "env_NewSequentialFile (posix_env u c s t z) f = on_world (Posix_NewSequentialFile f)"
  "env_NewWritableFile (posix_env u c s t z) f = on_world (Posix_NewWritableFile f)"
  "env_DeleteFile (posix_env u c s t z) f = on_world (Posix_DeleteFile f)"
  by (simp_all add: posix_env_def)

interpretation posix_writer: writable_files "posix_env u c s t z" posix_writable env_ok env_handles c_str
  env_disk env_durable "\<lambda>f. stream_handle (pw_file f)" "\<lambda>p. writer_open (pe_world p)"
  "\<lambda>f. pw_file f = None" "\<lambda>p. written (pe_world p)" "\<lambda>p. calm (pe_world p)"
proof (unfold_locales, goal_cases)
  case (1 p name)
  then show ?case
    using NewWritableFile_result [of "pe_world p" name]
      calm_NewWritable [of "pe_world p" name name]
    by (fastforce simp: env_ok_def env_handles_def env_disk_def)
next
  case (2 p f name d)
  then show ?case
    using Writable_Append_result [of "pe_world p" f name d]
      calm_Append [of "pe_world p" name d f]
    by (fastforce simp: on_world_def env_ok_def env_handles_def env_disk_def)
next
  case (3 p f name)
  then show ?case
    using Writable_Sync_result [of "pe_world p" f name]
      calm_Sync [of "pe_world p" name f] writer_open_name [of "pe_world p" f name]
    by (fastforce simp: on_world_def env_ok_def env_handles_def env_disk_def env_durable_def)
next
  case (4 p f name)
  then show ?case
    using Writable_Close_result [of "pe_world p" f name]
      calm_Close [of "pe_world p" name f]
    by (fastforce simp: env_ok_def env_handles_def env_disk_def env_durable_def stream_handle_def)
next
  case (5 p f name)
  then show ?case
    using Writable_destroy_result [of "pe_world p" f name]
      calm_destroy [of "pe_world p" name f]
    by (fastforce simp: env_ok_def env_handles_def env_disk_def env_durable_def)
next
  case (6 p name)
  then show ?case
    using DeleteFile_result [of "pe_world p" name]
    by (fastforce simp: env_ok_def env_handles_def env_disk_def)
qed

interpretation posix_reader: readable_files "posix_env u c s t z" posix_sequential env_ok env_handles c_str
  env_disk "\<lambda>f. stream_handle (sq_file f)" "\<lambda>p. to_read (pe_world p)" "\<lambda>p. calm (pe_world p)"
proof (unfold_locales, goal_cases)
  case (1 p name)
  then show ?case
    using NewSequentialFile_result [of "pe_world p" name]
      calm_NewSequential [of "pe_world p" name name]
    by (fastforce simp: env_ok_def env_handles_def env_disk_def)
next
  case (2 p f rest n scratch)
  then show ?case
    using Sequential_Read_result [of "pe_world p" f rest n scratch]
      calm_Read [of "pe_world p" _ n scratch f]
    by (fastforce simp: on_world_def env_ok_def env_handles_def env_disk_def)
next
  case (3 p f rest)
  then show ?case
    using Sequential_destroy_result [of "pe_world p" f rest]
      calm_Sequential_destroy [of "pe_world p" _ f]
    by (fastforce simp: env_ok_def env_handles_def env_disk_def)
qed

interpretation posix_store: file_store "posix_env u c s t z" posix_writable env_ok env_handles c_str
  env_disk env_durable "\<lambda>f. stream_handle (pw_file f)" "\<lambda>p. writer_open (pe_world p)"
  "\<lambda>f. pw_file f = None" "\<lambda>p. written (pe_world p)" "\<lambda>p. calm (pe_world p)" posix_sequential "\<lambda>f. stream_handle (sq_file f)"
  "\<lambda>p. to_read (pe_world p)"
  by unfold_locales

subsection \<open>Whole files\<close>

text \<open>
  C8: \<open>WriteStringToFile\<close> and \<open>WriteStringToFileSync\<close> (the argument \<open>should_sync\<close>) on the POSIX
  environment return without a fault whatever system calls fail. No stream, descriptor or mapping
  leaks and no other file changes. If the status is OK the file holds exactly the data, and with
  \<open>should_sync\<close> that data is durable; if it is an error, either no file was touched or the code has
  called \<open>DeleteFile\<close> on the name. When no system call fails the status is OK.
\<close>

theorem WriteStringToFile_correct:
  assumes "env_ok p" and "slice_ok d"
  shows "\<exists>v p'. DoWriteStringToFile (posix_env u c s t z) posix_writable d fname should_sync p = Inr (v, p') \<and>
    env_ok p' \<and> env_handles p' = env_handles p \<and>
    (\<forall>k. k \<noteq> c_str fname \<longrightarrow> env_disk p' k = env_disk p k) \<and>
    (v = None \<longrightarrow> env_disk p' (c_str fname) = Some (view d)) \<and>
    (v = None \<and> should_sync \<longrightarrow> env_durable p' (c_str fname) = Some (view d)) \<and>
    (calm (pe_world p) fname \<longrightarrow> v = None \<and> calm (pe_world p') fname) \<and>
    (v \<noteq> None \<longrightarrow> env_disk p' = env_disk p \<or>
       (\<exists>v1 p1. on_world (Posix_DeleteFile fname) p1 = Inr (v1, p') \<and>
          (v1 = None \<longrightarrow> env_disk p' (c_str fname) = None)))"
  using posix_writer.DoWriteStringToFile_contract [OF assms, of u c s t z fname should_sync] by simp

text \<open>An environment with one file and a system in which \<open>fflush\<close> is the first call to fail.\<close>

definition example_env :: "(nat \<times> int) list \<Rightarrow> PosixEnv" where
  "example_env outcomes =
     \<lparr>pe_world = \<lparr>disk = [lit ''x'' \<mapsto> lit ''old''], streams = Map.empty, fds = Map.empty, maps = Map.empty,
        next_handle = 3, durable = Map.empty, fd_syncs = [], held = {}, foreign = {}, dirs = Map.empty,
        environ = Map.empty, script = outcomes, err_no = 0, strerror = \<lambda>_. lit ''failed''\<rparr>,
      locked_files = {}, mmap_allowed = 1\<rparr>"

lemma example_env_ok: "env_ok (example_env os)"
  by (simp add: env_ok_def example_env_def world_ok_def)

theorem WriteStringToFile_correct_witness:
  "\<exists>v p'. DoWriteStringToFile (posix_env 0 (\<lambda>_. (0, 0)) (\<lambda>_ _. Inr) (\<lambda>_ _. Inr) (\<lambda>_. Inr)) posix_writable
       (Slice_string (lit ''new'')) (lit ''x'') True (example_env [(0, 0), (0, 0), (2, 28)]) = Inr (v, p') \<and>
     env_handles p' = env_handles (example_env [(0, 0), (0, 0), (2, 28)])"
  using WriteStringToFile_correct [OF example_env_ok [of "[(0, 0), (0, 0), (2, 28)]"], of "Slice_string (lit ''new'')"]
  by (meson view_Slice_string(2))

text \<open>
  C22: \<open>ReadFileToString\<close> on the POSIX environment returns: its \<open>while (true)\<close> loop ends for every
  file and every pattern of failures. It leaks nothing and changes no file. If the status is OK the
  string is the whole file; after an error it is a part of the file from its start. When
  the file exists and no system call fails the status is OK.
\<close>

theorem ReadFileToString_correct:
  assumes "env_ok p" and "length space = kBufferSize"
  shows "\<exists>v data p'. ReadFileToString (posix_env u c s t z) posix_sequential space fname p =
      Some (Inr ((v, data), p')) \<and>
    env_ok p' \<and> env_disk p' = env_disk p \<and> env_handles p' = env_handles p \<and>
    (v = None \<longrightarrow> env_disk p (c_str fname) = Some data) \<and>
    (data \<noteq> [] \<longrightarrow> (\<exists>tail. env_disk p (c_str fname) = Some (data @ tail))) \<and>
    (calm (pe_world p) fname \<and> env_disk p (c_str fname) \<noteq> None \<longrightarrow> v = None \<and> calm (pe_world p') fname)"
  using posix_reader.ReadFileToString_contract [OF assms, of u c s t z fname] by simp

theorem ReadFileToString_correct_witness:
  "\<exists>v data p'. ReadFileToString (posix_env 0 (\<lambda>_. (0, 0)) (\<lambda>_ _. Inr) (\<lambda>_ _. Inr) (\<lambda>_. Inr)) posix_sequential
       (replicate kBufferSize 0) (lit ''x'') (example_env []) = Some (Inr ((v, data), p')) \<and>
     env_disk p' = env_disk (example_env [])"
  using ReadFileToString_correct [OF example_env_ok [of "[]"], of "replicate kBufferSize 0"]
  by (meson length_replicate)

abbreviation example_posix ::
  "(PosixEnv, PosixSequentialFile, PosixRandom, PosixWritableFile, PosixFileLock, nat) Env" where
  "example_posix \<equiv> posix_env 0 (\<lambda>_. (0, 0)) (\<lambda>_ _. Inr) (\<lambda>_ _. Inr) (\<lambda>_. Inr)"

text \<open>
  C40: What \<open>WriteStringToFile\<close> has written with status OK, \<open>ReadFileToString\<close> returns, when its
  status is OK, on the POSIX environment.
\<close>

theorem write_read_roundtrip:
  assumes "env_ok p" and "slice_ok d" and "length space = kBufferSize"
    and "WriteStringToFile (posix_env u c s t z) posix_writable d fname p = Inr (None, p1)"
    and "ReadFileToString (posix_env u c s t z) posix_sequential space fname p1 = Some (Inr ((None, data), p2))"
  shows "data = view d"
  using posix_store.write_then_read [OF assms(1-3) assms(4) [unfolded WriteStringToFile_def] assms(5)] .

theorem write_read_roundtrip_witness:
  "\<exists>p1 p2 data. WriteStringToFile example_posix posix_writable (Slice_string (lit ''new'')) (lit ''x'')
       (example_env []) = Inr (None, p1) \<and>
     ReadFileToString example_posix posix_sequential (replicate kBufferSize 0) (lit ''x'') p1 =
       Some (Inr ((None, data), p2)) \<and> data = lit ''new''"
proof -
  have sl: "slice_ok (Slice_string (lit ''new''))" by simp
  have calm: "calm (pe_world (example_env [])) (lit ''x'')"
    by (simp add: calm_def example_env_def is_manifest_def c_str_def base_name_def)
  obtain v1 p1 where w0: "DoWriteStringToFile example_posix posix_writable (Slice_string (lit ''new'')) (lit ''x'')
      False (example_env []) = Inr (v1, p1)" and p1: "env_ok p1"
      "v1 = None \<longrightarrow> env_disk p1 (c_str (lit ''x'')) = Some (view (Slice_string (lit ''new'')))"
      "calm (pe_world (example_env [])) (lit ''x'') \<longrightarrow> v1 = None \<and> calm (pe_world p1) (lit ''x'')"
    using posix_writer.DoWriteStringToFile_contract [OF example_env_ok [of "[]"] sl, of 0 "\<lambda>_. (0, 0)" "\<lambda>_ _. Inr"
        "\<lambda>_ _. Inr" "\<lambda>_. Inr" "lit ''x''" False]
    by (elim exE conjE) (rule that)
  have v1: "v1 = None" "calm (pe_world p1) (lit ''x'')" using p1(3) calm by simp_all
  have d1: "env_disk p1 (c_str (lit ''x'')) \<noteq> None" using p1(2) v1 by simp
  have w: "WriteStringToFile example_posix posix_writable (Slice_string (lit ''new'')) (lit ''x'')
      (example_env []) = Inr (None, p1)" using w0 v1(1) by (simp only: WriteStringToFile_def)
  let ?space = "replicate kBufferSize 0 :: bytes"
  obtain v data p2 where r0: "ReadFileToString example_posix posix_sequential ?space (lit ''x'') p1 =
      Some (Inr ((v, data), p2))"
    and v: "calm (pe_world p1) (lit ''x'') \<and> env_disk p1 (c_str (lit ''x'')) \<noteq> None \<longrightarrow>
      v = None \<and> calm (pe_world p2) (lit ''x'')"
    using posix_reader.ReadFileToString_contract [OF p1(1) length_replicate [where x = 0], of 0 "\<lambda>_. (0, 0)" "\<lambda>_ _. Inr"
        "\<lambda>_ _. Inr" "\<lambda>_. Inr" "lit ''x''"]
    by (elim exE conjE) (rule that)
  have "v = None" using v v1(2) d1 by blast
  then have r: "ReadFileToString example_posix posix_sequential ?space (lit ''x'') p1 =
      Some (Inr ((None, data), p2))" using r0 by simp
  have "data = view (Slice_string (lit ''new''))"
    by (rule write_read_roundtrip [OF example_env_ok sl length_replicate w r])
  then show ?thesis using w r by auto
qed

text \<open>
  \<open>Sync\<close> of a writable file never faults. When it returns OK, everything appended so far is
  durable, and for a manifest (a file whose name after the last slash starts with \<open>MANIFEST\<close>) the
  directory it is in has been synced by that call, before the file itself.
\<close>

theorem Writable_Sync_correct:
  assumes "world_ok w" and "writer_open w f name" and "written w f name c"
  shows "\<exists>v w'. Writable_Sync f w = Inr (v, w') \<and> writer_open w' f name \<and> handles w' = handles w \<and>
    (v = None \<longrightarrow> written w' f name c \<and> durable w' (c_str name) = Some c \<and>
       (is_manifest (c_str name) \<longrightarrow> dir_name (c_str name) \<in> set (fd_syncs w')))"
  using Writable_Sync_result [OF assms(1,2)] assms(3) by blast

definition manifest_world :: World where
  "manifest_world =
     \<lparr>disk = [lit ''d/MANIFEST-1'' \<mapsto> []], streams = [3 \<mapsto> \<lparr>st_name = lit ''d/MANIFEST-1'', st_pos = 0,
        st_pending = [1, 2], st_eof = False\<rparr>], fds = Map.empty, maps = Map.empty, next_handle = 4,
      durable = Map.empty, fd_syncs = [], held = {}, foreign = {}, dirs = [lit ''d'' \<mapsto> []],
      environ = Map.empty, script = [], err_no = 0, strerror = \<lambda>_. []\<rparr>"

theorem Writable_Sync_correct_witness:
  "\<exists>v w'. Writable_Sync \<lparr>pw_filename = lit ''d/MANIFEST-1'', pw_file = Some 3\<rparr> manifest_world = Inr (v, w') \<and>
     handles w' = handles manifest_world"
proof -
  let ?n = "lit ''d/MANIFEST-1''" and ?f = "\<lparr>pw_filename = lit ''d/MANIFEST-1'', pw_file = Some 3\<rparr>"
  have c: "c_str ?n = ?n" by (simp add: c_str_def)
  have "world_ok manifest_world" by (simp add: world_ok_def manifest_world_def)
  moreover have "writer_open manifest_world ?f ?n"
    unfolding writer_open_def c by (simp add: manifest_world_def)
  moreover have "written manifest_world ?f ?n [1, 2]"
    unfolding written_def writer_open_def c by (simp add: manifest_world_def file_bytes_def)
  ultimately show ?thesis using Writable_Sync_correct by blast
qed

text \<open>
  A manifest in the root directory cannot be synced: its directory is the empty string, and
  there is no such directory.
\<close>

lemma root_manifest_fails:
  assumes "pw_filename f = lit ''/MANIFEST-1''" and "script w = []" and "disk w [] = None" and "dirs w [] = None"
  shows "\<exists>v w'. Writable_Sync f w = Inr (v, w') \<and> v \<noteq> None"
proof -
  have "c_str (lit ''/MANIFEST-1'') = lit ''/MANIFEST-1''" by (simp add: c_str_def)
  moreover have "is_manifest (lit ''/MANIFEST-1'')" "dir_name (lit ''/MANIFEST-1'') = []"
    by (simp_all add: is_manifest_def base_name_def dir_name_def)
  ultimately have "SyncDirIfManifest f w = Inr (IOError [] ENOENT (fail_with ENOENT w), fail_with ENOENT w)"
    using assms by (simp add: SyncDirIfManifest_eq Let_def c_open_read_def take_outcome_def fail_with_def)
  then show ?thesis by (simp add: Writable_Sync_def IOError_def)
qed

subsection \<open>Random access files\<close>

lemma GetFileSize_result:
  "\<exists>v n w'. Posix_GetFileSize name w = Inr ((v, n), w') \<and> same_world w' w \<and>
    (v = None \<and> disk w (c_str name) \<noteq> None \<longrightarrow> n = of_nat (length (file_bytes w (c_str name))))"
proof -
  obtain k e w1 where t: "take_outcome w = ((k, e), w1)" "same_world w1 w" by (rule take_outcomeE)
  have d: "disk w1 = disk w" "dirs w1 = dirs w" using t(2) by (simp_all add: same_world_def)
  have f: "same_world (fail_with x w1) w" for x using t(2) by (simp add: same_world_def)
  show ?thesis
    using t d f
    by (cases "e = 0"; cases "disk w (c_str name)"; cases "dirs w (c_str name)")
      (simp_all add: Posix_GetFileSize_def c_stat_def IOError_def file_bytes_def)
qed

text \<open>The resources a random access file holds, and the slots of the limiter it uses.\<close>

definition random_handles :: "PosixRandom \<Rightarrow> (nat \<times> nat) set" where
  "random_handles f = (case f of Pread g \<Rightarrow> {(1, ra_fd g)} | Mmapped g \<Rightarrow> {(2, mmapped_region g)})"

definition slots_used :: "PosixRandom option \<Rightarrow> int" where
  "slots_used f = (case f of Some (Mmapped g) \<Rightarrow> 1 | _ \<Rightarrow> 0)"

lemma c_open_read_result:
  assumes "world_ok w"
  obtains (failed) w' where "c_open_read name w = (None, w')" "world_ok w'" "same_files w' w"
  | (opened) fd w' where "c_open_read name w = (Some fd, w')" "world_ok w'" "fd = next_handle w"
      "fds w' = (fds w)(fd \<mapsto> name)" "disk w' = disk w" "streams w' = streams w" "maps w' = maps w"
      "next_handle w' = next_handle w + 1"
proof -
  obtain k e w1 where t: "take_outcome w = ((k, e), w1)" "same_world w1 w" by (rule take_outcomeE)
  have w1: "world_ok w1" using t(2) assms by (simp add: same_world_ok)
  show ?thesis
  proof (cases "e \<noteq> 0 \<or> (disk w1 name = None \<and> dirs w1 name = None)")
    case True
    then have "c_open_read name w = (None, fail_with (if e \<noteq> 0 then e else ENOENT) w1)"
      using t(1) by (auto simp: c_open_read_def)
    then show ?thesis using failed w1 same_world_files [OF t(2)] by simp
  next
    case False
    then show ?thesis
      using t w1 by (intro opened [of "next_handle w" "snd (c_open_read name w)"])
        (auto simp: c_open_read_def new_fd_def same_world_def world_ok_def)
  qed
qed

lemma handles_fd: "fds w' = (fds w)(fd \<mapsto> name) \<Longrightarrow> streams w' = streams w \<Longrightarrow> maps w' = maps w \<Longrightarrow>
    handles w' = handles w \<union> {(1, fd)}"
  by (auto simp: handles_def)

text \<open>The mapping, which is made while the descriptor is open and outlives it.\<close>

lemma c_mmap_result:
  assumes "world_ok w" and "fds w fd = Some name"
  shows "\<exists>b w'. c_mmap fd n w = Inr (b, w') \<and> world_ok w' \<and> disk w' = disk w \<and> streams w' = streams w \<and>
    fds w' = fds w \<and> (b = None \<longrightarrow> maps w' = maps w) \<and>
    (\<forall>m. b = Some m \<longrightarrow> m = next_handle w \<and> maps w' = (maps w)(m \<mapsto> name) \<and> disk w name \<noteq> None)"
proof -
  obtain k e w1 where t: "take_outcome w = ((k, e), w1)" "same_world w1 w" by (rule take_outcomeE)
  then show ?thesis
    using assms by (auto simp: c_mmap_def same_world_def world_ok_def)
qed

text \<open>
  C17: \<open>NewRandomAccessFile\<close> returns without a fault and balances its books on every path. After
  an error there is no file, and no descriptor, mapping or limiter slot is lost. Otherwise exactly
  one new resource is in use, the one the file holds: a mapping of the whole file, for which one
  slot of the limiter was taken, or, when the limiter has no slot, the descriptor.
\<close>

theorem NewRandomAccessFile_accounts:
  assumes "env_ok p"
  shows "\<exists>v fo p'. Posix_NewRandomAccessFile name p = Inr ((v, fo), p') \<and> env_ok p' \<and> env_disk p' = env_disk p \<and>
    mmap_allowed p' = mmap_allowed p - slots_used fo \<and>
    (v \<noteq> None \<longrightarrow> fo = None \<and> env_handles p' = env_handles p) \<and>
    (v = None \<longrightarrow> (\<exists>f. fo = Some f \<and> random_handles f \<inter> env_handles p = {} \<and>
       env_handles p' = env_handles p \<union> random_handles f)) \<and>
    (\<forall>g. fo = Some (Mmapped g) \<longrightarrow> 0 < mmap_allowed p \<and>
       maps (pe_world p') (mmapped_region g) = Some (c_str name) \<and>
       mm_length g = unat (of_nat (length (file_bytes (pe_world p) (c_str name))) :: u64)) \<and>
    (\<forall>g. fo = Some (Pread g) \<longrightarrow> mmap_allowed p \<le> 0 \<and> fds (pe_world p') (ra_fd g) = Some (c_str name))"
proof -
  let ?w = "pe_world p"
  have ok: "world_ok ?w" using assms by (simp add: env_ok_def)
  show ?thesis
    using ok
  proof (cases rule: c_open_read_result [where name = "c_str name"])
    case (failed w')
    then show ?thesis
      using same_filesD [OF failed(3)]
      by (auto simp: Posix_NewRandomAccessFile_def IOError_def slots_used_def env_handles_def env_disk_def env_ok_def)
  next
    case (opened fd w1)
    have fresh: "(i, fd) \<notin> handles ?w" for i using handles_fresh [OF ok] opened(3) by simp
    have h1: "handles w1 = handles ?w \<union> {(1, fd)}" using handles_fd opened(4,6,7) by blast
    show ?thesis
    proof (cases "0 < mmap_allowed p")
      case False
      then show ?thesis
        using opened fresh h1
        by (auto simp: Posix_NewRandomAccessFile_def slots_used_def random_handles_def env_handles_def env_disk_def
            env_ok_def)
    next
      case True
      obtain v2 n w2 where g: "Posix_GetFileSize name w1 = Inr ((v2, n), w2)" "same_world w2 w1"
        "v2 = None \<and> disk w1 (c_str name) \<noteq> None \<longrightarrow> n = of_nat (length (file_bytes w1 (c_str name)))"
        using GetFileSize_result [of name w1] by blast
      have w2: "world_ok w2" "fds w2 fd = Some (c_str name)" "disk w2 = disk ?w" "streams w2 = streams ?w"
        "fds w2 = (fds ?w)(fd \<mapsto> c_str name)" "maps w2 = maps ?w" "next_handle w2 = next_handle ?w + 1"
        using g(2) opened by (simp_all add: same_world_def world_ok_def)
      have fb: "file_bytes w1 (c_str name) = file_bytes ?w (c_str name)" using opened(5) by (simp add: file_bytes_def)
      obtain b w3 where m: "c_mmap fd (unat n) w2 = Inr (b, w3)" "world_ok w3" "disk w3 = disk w2"
        "streams w3 = streams w2" "fds w3 = fds w2" "b = None \<longrightarrow> maps w3 = maps w2"
        "\<forall>m. b = Some m \<longrightarrow> m = next_handle w2 \<and> maps w3 = (maps w2)(m \<mapsto> c_str name) \<and> disk w2 (c_str name) \<noteq> None"
        using c_mmap_result [OF w2(1,2), of "unat n"] by blast
      have unfd: "(fds ?w)(fd := None) = fds ?w" using ok opened(3) by (simp add: world_ok_def fun_upd_idem)
      let ?close = "\<lambda>w. w\<lparr>fds := (fds w)(fd := None), held := held w - {c_str name}\<rparr>"
      have cl: "c_close fd w2 = Inr (?close w2)" "c_close fd w3 = Inr (?close w3)"
        using w2(2) m(5) by (simp_all add: c_close_def)
      have ok2: "world_ok (?close w2)" "world_ok (?close w3)" using w2(1) m(2) by (simp_all add: world_ok_def)
      have hc2: "handles (?close w2) = handles ?w"
        using w2(4-6) unfd by (simp add: handles_def)
      consider (stat) "v2 \<noteq> None" | (nomap) "v2 = None" "b = None" | (map) m1 where "v2 = None" "b = Some m1"
        by (cases v2; cases b) auto
      then show ?thesis
      proof cases
        case stat
        then have "Posix_NewRandomAccessFile name p = Inr ((v2, None), p\<lparr>pe_world := ?close w2\<rparr>)"
          using True opened(1) g(1) cl(1)
          by (cases p) (simp add: Posix_NewRandomAccessFile_def del: not_None_eq)
        then show ?thesis
          using stat ok2(1) hc2 w2(3)
          by (simp add: slots_used_def env_handles_def env_disk_def env_ok_def del: not_None_eq)
      next
        case nomap
        then have "Posix_NewRandomAccessFile name p =
            Inr ((IOError name (err_no w3) w3, None), p\<lparr>pe_world := ?close w3\<rparr>)"
          using True opened(1) g(1) cl(2) m(1)
          by (cases p) (simp add: Posix_NewRandomAccessFile_def IOError_def)
        moreover have "handles (?close w3) = handles ?w"
          using nomap m(4-6) w2(4-6) unfd by (simp add: handles_def)
        ultimately show ?thesis
          using ok2(2) w2(3) m(3)
          by (simp add: slots_used_def env_handles_def env_disk_def env_ok_def IOError_def)
      next
        case (map m1)
        let ?g = "\<lparr>mm_filename = name, mmapped_region = m1, mm_length = unat n\<rparr>"
        have "Posix_NewRandomAccessFile name p = Inr ((None, Some (Mmapped ?g)),
            p\<lparr>pe_world := ?close w3, mmap_allowed := mmap_allowed p - 1\<rparr>)"
          using map True opened(1) g(1) cl(2) m(1) by (simp add: Posix_NewRandomAccessFile_def)
        moreover have "maps w3 = (maps ?w)(m1 \<mapsto> c_str name)" using map(2) m(7) w2(6) by simp
        then have "handles (?close w3) = handles ?w \<union> {(2, m1)}"
          using m(4,5) w2(4,5) unfd by (auto simp: handles_def)
        moreover have "(2, m1) \<notin> handles ?w" using handles_fresh [OF ok, of m1] map(2) m(7) w2(7) by simp
        moreover have "maps w3 m1 = Some (c_str name)" using map(2) m(7) by simp
        moreover have "n = of_nat (length (file_bytes ?w (c_str name)))"
          using g(3) map m(7) w2(3) fb opened(5) by simp
        ultimately show ?thesis
          using ok2(2) w2(3) m(3) True
          by (simp add: slots_used_def random_handles_def env_handles_def env_disk_def env_ok_def)
      qed
    qed
  qed
qed

theorem NewRandomAccessFile_accounts_witness:
  "\<exists>v fo p'. Posix_NewRandomAccessFile (lit ''x'') (example_env []) = Inr ((v, fo), p') \<and>
     mmap_allowed p' = 1 - slots_used fo"
  using NewRandomAccessFile_accounts [OF example_env_ok [of "[]"], of "lit ''x''"]
  by (auto simp: example_env_def)

subsection \<open>Locks\<close>

lemma c_open_create_result:
  assumes "world_ok w"
  obtains (failed) w' where "c_open_create name w = (None, w')" "world_ok w'" "same_files w' w"
      "held w' = held w" "foreign w' = foreign w"
  | (opened) fd w' where "c_open_create name w = (Some fd, w')" "world_ok w'" "fd = next_handle w"
      "fds w' = (fds w)(fd \<mapsto> name)" "streams w' = streams w" "maps w' = maps w"
      "held w' = held w" "foreign w' = foreign w"
proof -
  obtain k e w1 where t: "take_outcome w = ((k, e), w1)" "same_world w1 w" by (rule take_outcomeE)
  have w1: "world_ok w1" using t(2) assms by (simp add: same_world_ok)
  show ?thesis
  proof (cases "e \<noteq> 0")
    case True
    then have "c_open_create name w = (None, fail_with e w1)" using t(1) by (simp add: c_open_create_def)
    then show ?thesis using failed w1 same_world_files [OF t(2)] t(2) by (simp add: same_world_def)
  next
    case False
    then show ?thesis
      using t w1 by (intro opened [of "next_handle w" "snd (c_open_create name w)"])
        (auto simp: c_open_create_def new_fd_def same_world_def world_ok_def)
  qed
qed

lemma LockOrUnlock_result:
  assumes "fds w fd = Some name" and "world_ok w"
  shows "\<exists>r w'. LockOrUnlock fd lock w = Inr (r, w') \<and> world_ok w' \<and> same_files w' w \<and> foreign w' = foreign w \<and>
    (r = - 1 \<or> r = 0) \<and> (r = - 1 \<longrightarrow> held w' = held w) \<and>
    (r = 0 \<longrightarrow> held w' = (if lock then insert name (held w) else held w - {name}) \<and>
       (lock \<longrightarrow> name \<notin> foreign w))"
proof -
  obtain k e w1 where t: "take_outcome (w\<lparr>err_no := 0\<rparr>) = ((k, e), w1)" "same_world w1 (w\<lparr>err_no := 0\<rparr>)"
    by (rule take_outcomeE)
  then show ?thesis
    using assms by (auto simp: LockOrUnlock_def c_setlk_def same_world_def same_files_def world_ok_def)
qed

lemma handles_close_fd:
  assumes "world_ok w" and "fd = next_handle w" and "fds w1 = (fds w)(fd \<mapsto> name)"
    and "streams w1 = streams w" and "maps w1 = maps w"
  shows "handles (w1\<lparr>fds := (fds w1)(fd := None), held := hs\<rparr>) = handles w"
proof -
  have "(fds w)(fd := None) = fds w" using assms(1,2) by (simp add: world_ok_def fun_upd_idem)
  then show ?thesis using assms(3-5) by (simp add: handles_def)
qed

text \<open>
  C29: \<open>LockFile\<close> returns without a fault. If the status is OK, the name was not in the table and is
  now, the process holds the system's lock on the file, which no other process had, and the lock
  object owns the one new descriptor. If it is an error there is no lock object and the table and
  the open descriptors are as before.
\<close>

theorem LockFile_correct:
  assumes "env_ok p"
  shows "\<exists>v lo p'. Posix_LockFile fname p = Inr ((v, lo), p') \<and> env_ok p' \<and>
    (v = None \<longrightarrow> fname \<notin> locked_files p \<and> locked_files p' = insert fname (locked_files p) \<and>
       c_str fname \<in> held (pe_world p') \<and> c_str fname \<notin> foreign (pe_world p) \<and>
       (\<exists>l. lo = Some l \<and> lock_name l = fname \<and> fds (pe_world p') (lock_fd l) = Some (c_str fname) \<and>
          env_handles p' = env_handles p \<union> {(1, lock_fd l)})) \<and>
    (v \<noteq> None \<longrightarrow> lo = None \<and> locked_files p' = locked_files p \<and> env_handles p' = env_handles p)"
proof -
  let ?w = "pe_world p"
  have ok: "world_ok ?w" using assms by (simp add: env_ok_def)
  show ?thesis
    using ok
  proof (cases rule: c_open_create_result [where name = "c_str fname"])
    case (failed w')
    then show ?thesis
      using same_filesD [OF failed(3)] by (auto simp: Posix_LockFile_def IOError_def env_handles_def env_ok_def)
  next
    case (opened fd w1)
    let ?close = "\<lambda>w. w\<lparr>fds := (fds w)(fd := None), held := held w - {c_str fname}\<rparr>"
    have fd1: "fds w1 fd = Some (c_str fname)" using opened(4) by simp
    show ?thesis
    proof (cases "fname \<in> locked_files p")
      case True
      have "Posix_LockFile fname p =
          Inr ((Some (KIOError, status_message (lit ''lock '' @ fname) (lit ''already held by process'')), None),
            p\<lparr>pe_world := ?close w1, locked_files := insert fname (locked_files p)\<rparr>)"
        using True opened(1) fd1 by (simp add: Posix_LockFile_def LockTable_Insert_def c_close_def)
      moreover have "world_ok (?close w1)" using opened(2) by (simp add: world_ok_def)
      moreover have "handles (?close w1) = handles ?w"
        using handles_close_fd [OF ok opened(3-6)] by simp
      ultimately show ?thesis using True by (simp add: env_handles_def env_ok_def insert_absorb)
    next
      case False
      obtain r w2 where l: "LockOrUnlock fd True w1 = Inr (r, w2)" "world_ok w2" "same_files w2 w1"
        "foreign w2 = foreign w1" "r = - 1 \<or> r = 0" "r = 0 \<longrightarrow> held w2 = insert (c_str fname) (held w1)"
        "r = 0 \<longrightarrow> c_str fname \<notin> foreign w1"
        using LockOrUnlock_result [OF fd1 opened(2), of True] by auto
      have w2: "fds w2 = (fds ?w)(fd \<mapsto> c_str fname)" "streams w2 = streams ?w" "maps w2 = maps ?w"
        using l(3) opened(4-6) by (simp_all add: same_files_def)
      show ?thesis
      proof (cases "r = 0")
        case True
        have "Posix_LockFile fname p = Inr ((None, Some \<lparr>lock_fd = fd, lock_name = fname\<rparr>),
            p\<lparr>pe_world := w2, locked_files := insert fname (locked_files p)\<rparr>)"
          using True False opened(1) l(1) by (simp add: Posix_LockFile_def LockTable_Insert_def)
        moreover have "handles w2 = handles ?w \<union> {(1, fd)}" using handles_fd w2 by blast
        ultimately show ?thesis
          using l True False w2(1) opened(8) by (simp add: env_handles_def env_ok_def)
      next
        case err: False
        then have "Posix_LockFile fname p = Inr ((IOError (lit ''lock '' @ fname) (err_no w2) w2, None),
            p\<lparr>pe_world := ?close w2, locked_files := locked_files p\<rparr>)"
          using False opened(1) l(1,5) w2(1)
          by (simp add: Posix_LockFile_def LockTable_Insert_def LockTable_Remove_def c_close_def)
        moreover have "world_ok (?close w2)" using l(2) by (simp add: world_ok_def)
        moreover have "handles (?close w2) = handles ?w" using handles_close_fd [OF ok opened(3) w2] by simp
        ultimately show ?thesis by (simp add: env_handles_def env_ok_def IOError_def)
      qed
    qed
  qed
qed

theorem LockFile_correct_witness:
  "\<exists>v lo p'. Posix_LockFile (lit ''LOCK'') (example_env []) = Inr ((v, lo), p') \<and> env_ok p'"
  using LockFile_correct [OF example_env_ok [of "[]"], of "lit ''LOCK''"] by blast



text \<open>Unlocking gives up the name, the descriptor and, whatever \<open>fcntl\<close> said, the lock.\<close>

lemma UnlockFile_result:
  assumes "env_ok p" and "fds (pe_world p) (lock_fd l) = Some (c_str (lock_name l))"
  shows "\<exists>v p'. Posix_UnlockFile l p = Inr (v, p') \<and> env_ok p' \<and>
    locked_files p' = locked_files p - {lock_name l} \<and> c_str (lock_name l) \<notin> held (pe_world p') \<and>
    env_handles p' = env_handles p - {(1, lock_fd l)}"
proof -
  let ?w = "pe_world p" and ?n = "c_str (lock_name l)"
  have ok: "world_ok ?w" using assms(1) by (simp add: env_ok_def)
  obtain r w2 where u: "LockOrUnlock (lock_fd l) False ?w = Inr (r, w2)" "world_ok w2" "same_files w2 ?w"
    using LockOrUnlock_result [OF assms(2) ok, of False] by auto
  let ?w3 = "w2\<lparr>fds := (fds w2)(lock_fd l := None), held := held w2 - {?n}\<rparr>"
  have "fds w2 (lock_fd l) = Some ?n" using u(3) assms(2) by (simp add: same_files_def)
  then have cl: "c_close (lock_fd l) w2 = Inr ?w3" by (simp add: c_close_def)
  have "world_ok ?w3" using u(2) by (simp add: world_ok_def)
  moreover have "handles ?w3 = handles ?w - {(1, lock_fd l)}"
    using u(3) by (auto simp: handles_def same_files_def)
  ultimately show ?thesis
    using u(1) cl by (simp add: Posix_UnlockFile_def LockTable_Remove_def env_ok_def env_handles_def)
qed

end
