(* ===== verification/Gtest_String.thy ===== *)
theory Gtest_String
  imports Status_Val Logging
begin

text \<open>
  The string functions of the test library: class \<open>String\<close>, \<open>SplitString\<close>, substring search,
  the UTF-8 encoding of wide strings (src/libs/googletest/src/gtest.cc and
  src/libs/googletest/include/gtest/internal/gtest-string.h). A \<open>const char*\<close> that may be NULL is
  an option of the characters before its NUL. The lemmas show that the encoder is a UTF-8
  encoder, decoded by a reference decoder, for UTF-32 and for UTF-16 input.
\<close>

section \<open>Definitions\<close>

subsection \<open>Comparisons\<close>

definition CStringEquals :: "bytes option \<Rightarrow> bytes option \<Rightarrow> bool" where
  "CStringEquals lhs rhs =
     (case lhs of
        None \<Rightarrow> rhs = None
      | Some l \<Rightarrow> (case rhs of None \<Rightarrow> False | Some r \<Rightarrow> l = r))"

text \<open>\<open>tolower\<close> in the C locale.\<close>

definition to_lower :: "byte \<Rightarrow> byte" where
  "to_lower b = (if 65 \<le> unat b \<and> unat b \<le> 90 then b + 32 else b)"

definition CaseInsensitiveCStringEquals :: "bytes option \<Rightarrow> bytes option \<Rightarrow> bool" where
  "CaseInsensitiveCStringEquals lhs rhs =
     (case lhs of
        None \<Rightarrow> rhs = None
      | Some l \<Rightarrow> (case rhs of None \<Rightarrow> False | Some r \<Rightarrow> map to_lower l = map to_lower r))"

definition until_nul :: "bytes \<Rightarrow> bytes" where
  "until_nul s = takeWhile (\<lambda>b. b \<noteq> 0) s"

definition EndsWithCaseInsensitive :: "bytes \<Rightarrow> bytes \<Rightarrow> bool" where
  "EndsWithCaseInsensitive str suffix =
     (let str_len = length str; suffix_len = length suffix
      in suffix_len \<le> str_len \<and>
         CaseInsensitiveCStringEquals (Some (until_nul (drop (str_len - suffix_len) str))) (Some (until_nul suffix)))"

definition WideCStringEquals :: "u32 list option \<Rightarrow> u32 list option \<Rightarrow> bool" where
  "WideCStringEquals lhs rhs =
     (case lhs of
        None \<Rightarrow> rhs = None
      | Some l \<Rightarrow> (case rhs of None \<Rightarrow> False | Some r \<Rightarrow> l = r))"

text \<open>Where \<open>strstr\<close> and \<open>find\<close> look: from each position on.\<close>

fun has_substring :: "'c list \<Rightarrow> 'c list \<Rightarrow> bool" where
  "has_substring needle hay \<longleftrightarrow>
     take (length needle) hay = needle \<or> (case hay of [] \<Rightarrow> False | _ # hay' \<Rightarrow> has_substring needle hay')"

definition IsSubstringPred :: "'c list option \<Rightarrow> 'c list option \<Rightarrow> bool" where
  "IsSubstringPred needle haystack =
     (case (needle, haystack) of
        (Some n, Some h) \<Rightarrow> has_substring n h
      | _ \<Rightarrow> needle = None \<and> haystack = None)"

definition IsSubstringPred_string :: "'c list \<Rightarrow> 'c list \<Rightarrow> bool" where
  "IsSubstringPred_string needle haystack = has_substring needle haystack"

subsection \<open>Splitting\<close>

function SplitString :: "byte \<Rightarrow> bytes \<Rightarrow> bytes list" where
  "SplitString delimiter str =
     (if delimiter \<notin> set str then [str]
      else
        let colon = length (takeWhile (\<lambda>b. b \<noteq> delimiter) str)
        in take colon str # SplitString delimiter (drop (colon + 1) str))"
  by pat_completeness auto
termination
  by (relation "measure (\<lambda>(d, s). length s)") (auto dest: length_pos_if_in_set)

subsection \<open>Numbers\<close>

definition FormatIntWidth2 :: "int \<Rightarrow> bytes" where
  "FormatIntWidth2 value =
     (let s = decimal_int value in replicate (2 - length s) 48 @ s)"

definition upper_hex_digit :: "nat \<Rightarrow> byte" where
  "upper_hex_digit d = (if d < 10 then of_nat (48 + d) else of_nat (55 + d))"

fun upper_hex :: "nat \<Rightarrow> bytes" where
  "upper_hex n = (if n < 16 then [upper_hex_digit n] else upper_hex (n div 16) @ [upper_hex_digit (n mod 16)])"

definition FormatHexInt :: "u32 \<Rightarrow> bytes" where
  "FormatHexInt value = upper_hex (unat value)"

definition FormatByte :: "byte \<Rightarrow> bytes" where
  "FormatByte value = (let s = upper_hex (unat value) in replicate (2 - length s) 48 @ s)"

primrec StringStreamToString :: "bytes \<Rightarrow> bytes" where
  "StringStreamToString [] = []"
| "StringStreamToString (ch # str) = (if ch = 0 then [92, 48] else [ch]) @ StringStreamToString str"

definition AppendUserMessage :: "bytes \<Rightarrow> bytes \<Rightarrow> bytes" where
  "AppendUserMessage gtest_msg user_msg =
     (let user_msg_string = StringStreamToString user_msg
      in if user_msg_string = [] then gtest_msg else gtest_msg @ [10] @ user_msg_string)"

subsection \<open>UTF-8\<close>

definition kMaxCodePoint1 :: u32 where "kMaxCodePoint1 = push_bit 7 1 - 1"
definition kMaxCodePoint2 :: u32 where "kMaxCodePoint2 = push_bit (5 + 6) 1 - 1"
definition kMaxCodePoint3 :: u32 where "kMaxCodePoint3 = push_bit (4 + 2 * 6) 1 - 1"
definition kMaxCodePoint4 :: u32 where "kMaxCodePoint4 = push_bit (3 + 3 * 6) 1 - 1"

definition ChopLowBits :: "u32 \<Rightarrow> nat \<Rightarrow> u32 \<times> u32" where
  "ChopLowBits bits n = (bits AND (push_bit n 1 - 1), drop_bit n bits)"

definition CodePointToUtf8 :: "u32 \<Rightarrow> bytes" where
  "CodePointToUtf8 code_point =
     (if code_point > kMaxCodePoint4 then lit ''(Invalid Unicode 0x'' @ FormatHexInt code_point @ lit '')''
      else until_nul
       (if code_point \<le> kMaxCodePoint1 then [ucast code_point]
        else if code_point \<le> kMaxCodePoint2 then
          (case ChopLowBits code_point 6 of (b1, c1) \<Rightarrow> [ucast (0xC0 OR c1), ucast (0x80 OR b1)])
        else if code_point \<le> kMaxCodePoint3 then
          (case ChopLowBits code_point 6 of (b2, c2) \<Rightarrow> case ChopLowBits c2 6 of (b1, c1) \<Rightarrow>
            [ucast (0xE0 OR c1), ucast (0x80 OR b1), ucast (0x80 OR b2)])
        else
          (case ChopLowBits code_point 6 of (b3, c3) \<Rightarrow> case ChopLowBits c3 6 of (b2, c2) \<Rightarrow>
           case ChopLowBits c2 6 of (b1, c1) \<Rightarrow>
            [ucast (0xF0 OR c1), ucast (0x80 OR b1), ucast (0x80 OR b2), ucast (0x80 OR b3)])))"

text \<open>\<open>wide\<close> is \<open>sizeof(wchar_t)\<close>: 2 for UTF-16, 4 for UTF-32.\<close>

definition IsUtf16SurrogatePair :: "nat \<Rightarrow> u32 \<Rightarrow> u32 \<Rightarrow> bool" where
  "IsUtf16SurrogatePair wide first second \<longleftrightarrow>
     wide = 2 \<and> first AND 0xFC00 = 0xD800 \<and> second AND 0xFC00 = 0xDC00"

definition CreateCodePointFromUtf16SurrogatePair :: "nat \<Rightarrow> u32 \<Rightarrow> u32 \<Rightarrow> u32" where
  "CreateCodePointFromUtf16SurrogatePair wide first second =
     (let mask = push_bit 10 1 - 1
      in if wide = 2 then (push_bit 10 (first AND mask) OR (second AND mask)) + 0x10000 else first)"

text \<open>The loop over the characters that are left.\<close>

fun wide_loop :: "nat \<Rightarrow> u32 list \<Rightarrow> bytes" where
  "wide_loop wide [] = []"
| "wide_loop wide [c] = (if c = 0 then [] else CodePointToUtf8 c)"
| "wide_loop wide (c # d # str) =
     (if c = 0 then []
      else if IsUtf16SurrogatePair wide c d
      then CodePointToUtf8 (CreateCodePointFromUtf16SurrogatePair wide c d) @ wide_loop wide str
      else CodePointToUtf8 c @ wide_loop wide (d # str))"

text \<open>\<open>num_chars\<close> is \<open>None\<close> for -1, the whole string \<open>str\<close> up to its NUL.\<close>

definition WideStringToUtf8 :: "nat \<Rightarrow> u32 list \<Rightarrow> nat option \<Rightarrow> bytes" where
  "WideStringToUtf8 wide str num_chars =
     StringStreamToString
       (wide_loop wide (case num_chars of None \<Rightarrow> takeWhile (\<lambda>c. c \<noteq> 0) str | Some n \<Rightarrow> take n str))"

definition ShowWideCString :: "nat \<Rightarrow> u32 list option \<Rightarrow> bytes" where
  "ShowWideCString wide wide_c_str =
     (case wide_c_str of None \<Rightarrow> lit ''(null)'' | Some s \<Rightarrow> WideStringToUtf8 wide s None)"

function StreamWideCharsToMessage :: "nat \<Rightarrow> u32 list \<Rightarrow> bytes" where
  "StreamWideCharsToMessage wide wstr =
     (case wstr of
        [] \<Rightarrow> []
      | c # rest \<Rightarrow>
          if c \<noteq> 0
          then WideStringToUtf8 wide wstr (Some (length wstr)) @
               StreamWideCharsToMessage wide (dropWhile (\<lambda>c. c \<noteq> 0) rest)
          else 0 # StreamWideCharsToMessage wide rest)"
  by pat_completeness auto
termination
  by (relation "measure (\<lambda>(w, s). length s)") (auto simp: length_dropWhile_le le_imp_less_Suc)

subsection \<open>Specification: the reference decoder\<close>

definition continuation :: "byte \<Rightarrow> bool" where
  "continuation b \<longleftrightarrow> 128 \<le> unat b \<and> unat b < 192"

fun utf8_decode :: "bytes \<Rightarrow> nat list option" where
  "utf8_decode [] = Some []"
| "utf8_decode (a # rest) =
     (if unat a < 128 then map_option (\<lambda>l. unat a # l) (utf8_decode rest)
      else if 192 \<le> unat a \<and> unat a < 224 then
        (case rest of
           b # rest' \<Rightarrow>
             if continuation b
             then map_option (\<lambda>l. ((unat a - 192) * 64 + (unat b - 128)) # l) (utf8_decode rest') else None
         | [] \<Rightarrow> None)
      else if 224 \<le> unat a \<and> unat a < 240 then
        (case rest of
           b # c # rest' \<Rightarrow>
             if continuation b \<and> continuation c
             then map_option (\<lambda>l. (((unat a - 224) * 64 + (unat b - 128)) * 64 + (unat c - 128)) # l)
                    (utf8_decode rest') else None
         | _ \<Rightarrow> None)
      else if 240 \<le> unat a \<and> unat a < 248 then
        (case rest of
           b # c # d # rest' \<Rightarrow>
             if continuation b \<and> continuation c \<and> continuation d
             then map_option (\<lambda>l.
                    ((((unat a - 240) * 64 + (unat b - 128)) * 64 + (unat c - 128)) * 64 + (unat d - 128)) # l)
                    (utf8_decode rest') else None
         | _ \<Rightarrow> None)
      else None)"

text \<open>UTF-16, and both encodings of a list of code points as wide characters.\<close>

definition utf16_encode :: "nat \<Rightarrow> u32 list" where
  "utf16_encode c =
     (if c < 0x10000 then [of_nat c]
      else [of_nat (0xD800 + (c - 0x10000) div 1024), of_nat (0xDC00 + (c - 0x10000) mod 1024)])"

definition wide_encode :: "nat \<Rightarrow> nat list \<Rightarrow> u32 list" where
  "wide_encode wide cs = (if wide = 2 then concat (map utf16_encode cs) else map of_nat cs)"

definition scalar_value :: "nat \<Rightarrow> bool" where
  "scalar_value c \<longleftrightarrow> 0 < c \<and> c < 0x110000 \<and> \<not> (0xD800 \<le> c \<and> c < 0xE000)"

section \<open>Lemmas\<close>

subsection \<open>UTF-8\<close>

lemma or_low_bits:
  assumes "unat x < 2 ^ n"
  shows "push_bit n y OR x = push_bit n y + (x :: 'a::len word)"
proof -
  have "x = take_bit n x"
    using assms by (intro word_unat_eq_iff [THEN iffD2]) (simp add: unsigned_take_bit_eq take_bit_nat_eq_self)
  then have "push_bit n y AND x = push_bit n y AND take_bit n x" by simp
  also have "\<dots> = 0"
    by (rule bit_word_eqI) (auto simp: bit_and_iff bit_push_bit_iff bit_take_bit_iff)
  finally show ?thesis by (simp add: disjunctive_add_eq_or)
qed

lemma low_byte:
  assumes "unat x < 2 ^ n" and "n \<le> 7" and "unat (y :: u32) * 2 ^ n + unat x < 256"
  shows "unat (ucast (push_bit n y OR (x :: u32)) :: byte) = unat y * 2 ^ n + unat x"
proof -
  have "push_bit n y + x = of_nat (unat y * 2 ^ n + unat x)" by (simp add: push_bit_eq_mult)
  then have "unat (push_bit n y + x) = unat y * 2 ^ n + unat x"
    using assms(3) by (simp only: unat_of_nat_small) (rule unat_of_nat_small, simp)
  then show ?thesis using assms by (simp add: or_low_bits unsigned_ucast_eq take_bit_nat_eq_self)
qed

lemma unat_low6: "unat (x AND (push_bit n 1 - 1)) = unat (x :: u32) mod 2 ^ n"
proof -
  have "push_bit n 1 - 1 = (mask n :: u32)" by (simp add: mask_eq_exp_minus_1 push_bit_eq_mult)
  then show ?thesis by (metis take_bit_eq_mask unsigned_take_bit_eq take_bit_eq_mod)
qed

lemma unat_shift: "unat (drop_bit n x) = unat (x :: u32) div 2 ^ n"
  unfolding unsigned_drop_bit_eq using unsigned_less [of x, where 'a = nat]
  by (simp add: take_bit_nat_eq_self drop_bit_eq_div)

lemma unat_tail_byte:
  "unat x < 64 \<Longrightarrow> unat (ucast (0x80 OR x :: u32) :: byte) = 128 + unat x"
  using low_byte [of x 6 2] by simp

lemma unat_lead_byte:
  "unat x < 32 \<Longrightarrow> unat (ucast (0xC0 OR x :: u32) :: byte) = 192 + unat x"
  "unat x < 16 \<Longrightarrow> unat (ucast (0xE0 OR x :: u32) :: byte) = 224 + unat x"
  "unat x < 8 \<Longrightarrow> unat (ucast (0xF0 OR x :: u32) :: byte) = 240 + unat x"
  using low_byte [of x 5 6] low_byte [of x 4 14] low_byte [of x 3 30] by simp_all

lemma max_code_points:
  "unat kMaxCodePoint1 = 127" "unat kMaxCodePoint2 = 2047" "unat kMaxCodePoint3 = 65535"
  "unat kMaxCodePoint4 = 2097151"
  by (simp_all add: kMaxCodePoint1_def kMaxCodePoint2_def kMaxCodePoint3_def kMaxCodePoint4_def)

lemma nonzero_byte: "0 < unat b \<Longrightarrow> b \<noteq> (0 :: byte)" "unat b = k + m \<Longrightarrow> 0 < k \<Longrightarrow> b \<noteq> (0 :: byte)"
  by auto

text \<open>The four encodings, as numbers.\<close>

lemma CodePoint1:
  assumes "c \<noteq> 0" and "unat c \<le> 127"
  shows "\<exists>a. CodePointToUtf8 c = [a] \<and> unat a = unat c"
proof -
  have u: "unat (ucast c :: byte) = unat c" using assms(2) by (simp add: unsigned_ucast_eq take_bit_nat_eq_self)
  moreover have "0 < unat c" using assms(1) by (simp add: unat_gt_0)
  ultimately have "(ucast c :: byte) \<noteq> 0" by (intro nonzero_byte(1)) simp
  then show ?thesis
    using assms u by (simp add: CodePointToUtf8_def max_code_points word_le_nat_alt word_less_nat_alt until_nul_def)
qed

lemma CodePoint2:
  assumes "127 < unat c" and "unat c \<le> 2047"
  shows "\<exists>a b. CodePointToUtf8 c = [a, b] \<and> unat a = 192 + unat c div 64 \<and> unat b = 128 + unat c mod 64"
proof -
  let ?a = "ucast (0xC0 OR drop_bit 6 c) :: byte" and ?b = "ucast (0x80 OR (c AND (push_bit 6 1 - 1))) :: byte"
  have "unat (drop_bit 6 c) < 32" using assms by (simp add: unat_shift)
  then have a: "unat ?a = 192 + unat c div 64" using unat_lead_byte(1) by (simp add: unat_shift)
  have b: "unat ?b = 128 + unat c mod 64" using unat_tail_byte unat_low6 [of c 6] by simp
  have n: "?a \<noteq> 0" "?b \<noteq> 0" by (rule nonzero_byte(2) [OF a] nonzero_byte(2) [OF b], simp)+
  have "CodePointToUtf8 c = until_nul [?a, ?b]"
    using assms by (simp add: CodePointToUtf8_def max_code_points word_le_nat_alt word_less_nat_alt ChopLowBits_def)
  then show ?thesis using a b n unfolding until_nul_def by (intro exI [of _ ?a] exI [of _ ?b]) simp
qed

lemma CodePoint3:
  assumes "2047 < unat c" and "unat c \<le> 65535"
  shows "\<exists>a b d. CodePointToUtf8 c = [a, b, d] \<and> unat a = 224 + unat c div 4096 \<and>
    unat b = 128 + unat c div 64 mod 64 \<and> unat d = 128 + unat c mod 64"
proof -
  let ?a = "ucast (0xE0 OR drop_bit 6 (drop_bit 6 c)) :: byte"
  let ?b = "ucast (0x80 OR (drop_bit 6 c AND (push_bit 6 1 - 1))) :: byte"
  let ?d = "ucast (0x80 OR (c AND (push_bit 6 1 - 1))) :: byte"
  have "unat (drop_bit 6 (drop_bit 6 c)) = unat c div 4096" by (simp only: unat_shift) (simp add: div_mult2_eq [symmetric])
  moreover have "unat c div 4096 < 16" using assms by simp
  ultimately have a: "unat ?a = 224 + unat c div 4096" using unat_lead_byte(2) by simp
  have b: "unat ?b = 128 + unat c div 64 mod 64"
    using unat_tail_byte unat_low6 [of "drop_bit 6 c" 6] unat_shift [of 6 c] by simp
  have d: "unat ?d = 128 + unat c mod 64" using unat_tail_byte unat_low6 [of c 6] by simp
  have n: "?a \<noteq> 0" "?b \<noteq> 0" "?d \<noteq> 0" by (rule nonzero_byte(2) [OF a] nonzero_byte(2) [OF b] nonzero_byte(2) [OF d], simp)+
  have "CodePointToUtf8 c = until_nul [?a, ?b, ?d]"
    using assms by (simp add: CodePointToUtf8_def max_code_points word_le_nat_alt word_less_nat_alt ChopLowBits_def)
  then show ?thesis using a b d n unfolding until_nul_def by (intro exI [of _ ?a] exI [of _ ?b] exI [of _ ?d]) simp
qed

lemma four_bytes:
  "x = until_nul [a, b, d, e] \<Longrightarrow> a \<noteq> 0 \<Longrightarrow> b \<noteq> 0 \<Longrightarrow> d \<noteq> 0 \<Longrightarrow> e \<noteq> 0 \<Longrightarrow>
   unat a = na \<Longrightarrow> unat b = nb \<Longrightarrow> unat d = nd \<Longrightarrow> unat e = ne \<Longrightarrow>
   \<exists>a b d e. x = [a, b, d, e] \<and> unat a = na \<and> unat b = nb \<and> unat d = nd \<and> unat e = ne"
  by (simp add: until_nul_def)

lemma CodePoint4:
  assumes "65535 < unat c" and "unat c \<le> 2097151"
  shows "\<exists>a b d e. CodePointToUtf8 c = [a, b, d, e] \<and> unat a = 240 + unat c div 262144 \<and>
    unat b = 128 + unat c div 4096 mod 64 \<and> unat d = 128 + unat c div 64 mod 64 \<and> unat e = 128 + unat c mod 64"
proof -
  let ?a = "ucast (0xF0 OR drop_bit 6 (drop_bit 6 (drop_bit 6 c))) :: byte"
  let ?b = "ucast (0x80 OR (drop_bit 6 (drop_bit 6 c) AND (push_bit 6 1 - 1))) :: byte"
  let ?d = "ucast (0x80 OR (drop_bit 6 c AND (push_bit 6 1 - 1))) :: byte"
  let ?e = "ucast (0x80 OR (c AND (push_bit 6 1 - 1))) :: byte"
  have d2: "unat (drop_bit 6 (drop_bit 6 c)) = unat c div 4096" by (simp only: unat_shift) (simp add: div_mult2_eq [symmetric])
  have d3: "unat (drop_bit 6 (drop_bit 6 (drop_bit 6 c))) = unat c div 262144"
    by (simp only: unat_shift) (simp add: div_mult2_eq [symmetric])
  have "unat c div 262144 < 8" using assms by simp
  then have a: "unat ?a = 240 + unat c div 262144" using unat_lead_byte(3) d3 by simp
  have b: "unat ?b = 128 + unat c div 4096 mod 64"
    using unat_tail_byte unat_low6 [of "drop_bit 6 (drop_bit 6 c)" 6] d2 by simp
  have d: "unat ?d = 128 + unat c div 64 mod 64"
    using unat_tail_byte unat_low6 [of "drop_bit 6 c" 6] unat_shift [of 6 c] by simp
  have e: "unat ?e = 128 + unat c mod 64" using unat_tail_byte unat_low6 [of c 6] by simp
  have n: "?a \<noteq> 0" "?b \<noteq> 0" "?d \<noteq> 0" "?e \<noteq> 0" 
    by (rule nonzero_byte(2) [OF a] nonzero_byte(2) [OF b] nonzero_byte(2) [OF d] nonzero_byte(2) [OF e], simp)+
  have "CodePointToUtf8 c = until_nul [?a, ?b, ?d, ?e]"
    using assms by (simp add: CodePointToUtf8_def max_code_points word_le_nat_alt word_less_nat_alt ChopLowBits_def)
  then show ?thesis by (rule four_bytes [OF _ n a b d e])
qed

lemma until_nul_nonzero [simp]: "0 \<notin> set (until_nul s)"
  by (auto simp: until_nul_def dest: set_takeWhileD)

lemma CodePoint_nonzero:
  assumes "unat c \<le> 2097151"
  shows "0 \<notin> set (CodePointToUtf8 c)"
proof -
  have "\<not> c > kMaxCodePoint4" using assms by (simp add: word_less_nat_alt max_code_points)
  then show ?thesis unfolding CodePointToUtf8_def by (simp only: if_False until_nul_nonzero not_False_eq_True)
qed

lemma decode_CodePoint:
  assumes "c \<noteq> 0" and "unat c \<le> 2097151"
  shows "utf8_decode (CodePointToUtf8 c @ rest) = map_option (\<lambda>l. unat c # l) (utf8_decode rest)"
proof -
  consider "unat c \<le> 127" | "127 < unat c" "unat c \<le> 2047" | "2047 < unat c" "unat c \<le> 65535" | "65535 < unat c"
    by linarith
  then show ?thesis
  proof cases
    case 1
    then show ?thesis using CodePoint1 [OF assms(1)] by auto
  next
    case 2
    obtain a b where ab: "CodePointToUtf8 c = [a, b]" "unat a = 192 + unat c div 64" "unat b = 128 + unat c mod 64"
      using CodePoint2 [OF 2] by blast
    have "unat c div 64 < 32" using 2 by simp
    then show ?thesis by (simp add: ab continuation_def)
  next
    case 3
    obtain a b d where ab: "CodePointToUtf8 c = [a, b, d]" "unat a = 224 + unat c div 4096"
      "unat b = 128 + unat c div 64 mod 64" "unat d = 128 + unat c mod 64"
      using CodePoint3 [OF 3] by blast
    have "unat c div 4096 < 16" using 3 by simp
    moreover have "unat c div 4096 = unat c div 64 div 64" by (simp add: div_mult2_eq [symmetric])
    ultimately show ?thesis by (simp add: ab continuation_def)
  next
    case 4
    obtain a b d e where ab: "CodePointToUtf8 c = [a, b, d, e]" "unat a = 240 + unat c div 262144"
      "unat b = 128 + unat c div 4096 mod 64" "unat d = 128 + unat c div 64 mod 64" "unat e = 128 + unat c mod 64"
      using CodePoint4 [OF 4 assms(2)] by blast
    have "unat c div 262144 < 8" using assms(2) by simp
    moreover have "unat c div 262144 = unat c div 64 div 64 div 64" "unat c div 4096 = unat c div 64 div 64"
      by (simp_all add: div_mult2_eq [symmetric])
    ultimately show ?thesis by (simp add: ab continuation_def)
  qed
qed

subsection \<open>UTF-16\<close>

lemma high_bits: "unat (x AND 0xFC00) = unat (x :: u32) div 1024 mod 64 * 1024"
proof -
  have m: "(0xFC00 :: u32) = push_bit 10 (mask 6)" by (simp add: mask_eq_exp_minus_1)
  have "x AND push_bit 10 (mask 6) = push_bit 10 (take_bit 6 (drop_bit 10 x))"
    by (rule bit_word_eqI)
      (auto simp: bit_and_iff bit_push_bit_iff bit_take_bit_iff bit_drop_bit_eq bit_mask_iff)
  also have "\<dots> = push_bit 10 (of_nat (unat (take_bit 6 (drop_bit 10 x))))" by simp
  also have "unat (take_bit 6 (drop_bit 10 x)) = unat x div 1024 mod 64"
    unfolding unsigned_take_bit_eq unat_shift by (simp add: take_bit_eq_mod)
  also have "push_bit 10 (of_nat (unat x div 1024 mod 64)) = (of_nat (unat x div 1024 mod 64 * 1024) :: u32)"
    by (simp add: push_bit_eq_mult)
  finally show ?thesis unfolding m by (simp only:) (rule unat_of_nat_small, simp)
qed

lemma surrogate_iff:
  assumes "unat (x :: u32) < 0x10000"
  shows "x AND 0xFC00 = 0xD800 \<longleftrightarrow> unat x div 1024 = 54" "x AND 0xFC00 = 0xDC00 \<longleftrightarrow> unat x div 1024 = 55"
  using assms high_bits [of x] by (auto simp: word_unat_eq_iff)

lemma scalar_unat: "scalar_value c \<Longrightarrow> unat (of_nat c :: u32) = c \<and> (of_nat c :: u32) \<noteq> 0"
  using unat_of_nat_small [of c, where 'a = 32] by (auto simp: scalar_value_def)

lemma surrogate_units:
  assumes "scalar_value c" and "\<not> c < 0x10000"
  shows "(c - 0x10000) div 1024 < 1024"
    "unat (of_nat (0xD800 + (c - 0x10000) div 1024) :: u32) = 0xD800 + (c - 0x10000) div 1024"
    "unat (of_nat (0xDC00 + (c - 0x10000) mod 1024) :: u32) = 0xDC00 + (c - 0x10000) mod 1024"
proof -
  have "c < 0x110000" using assms(1) by (simp add: scalar_value_def)
  then have "c - 0x10000 < 1024 * 1024" using assms(2) by simp
  then show hi: "(c - 0x10000) div 1024 < 1024" by (rule less_mult_imp_div_less)
  then show "unat (of_nat (0xD800 + (c - 0x10000) div 1024) :: u32) = 0xD800 + (c - 0x10000) div 1024"
    by (intro unat_of_nat_small) simp
  have "(c - 0x10000) mod 1024 < 1024" by simp
  then show "unat (of_nat (0xDC00 + (c - 0x10000) mod 1024) :: u32) = 0xDC00 + (c - 0x10000) mod 1024"
    by (intro unat_of_nat_small) simp
qed

lemma wide_loop_utf16:
  assumes "scalar_value c"
  shows "wide_loop 2 (utf16_encode c @ rest) = CodePointToUtf8 (of_nat c) @ wide_loop 2 rest"
proof (cases "c < 0x10000")
  case True
  let ?x = "of_nat c :: u32"
  have u: "unat ?x = c" using True by (simp add: unat_of_nat_small)
  have nz: "?x \<noteq> 0" using assms u by (auto simp: scalar_value_def)
  have "c div 1024 \<noteq> 54"
  proof
    assume "c div 1024 = 54"
    then have "0xD800 \<le> c" "c < 0xE000" by linarith+
    then show False using assms by (simp add: scalar_value_def)
  qed
  then have "\<not> IsUtf16SurrogatePair 2 ?x d" for d
    using surrogate_iff(1) [of ?x] u True by (simp add: IsUtf16SurrogatePair_def)
  then show ?thesis using True nz by (cases rest) (simp_all add: utf16_encode_def)
next
  case False
  let ?hi = "(c - 0x10000) div 1024" and ?lo = "(c - 0x10000) mod 1024"
  let ?x = "of_nat (0xD800 + ?hi) :: u32" and ?y = "of_nat (0xDC00 + ?lo) :: u32"
  note hi = surrogate_units(1) [OF assms False] and u = surrogate_units(2,3) [OF assms False]
  have "(0xD800 + ?hi) div 1024 = 54" by (rule div_nat_eqI) (use hi in simp_all)
  moreover have "(0xDC00 + ?lo) div 1024 = 55" by (rule div_nat_eqI) (simp_all add: less_imp_le)
  moreover have "0xD800 + ?hi < 0x10000" "0xDC00 + ?lo < 0x10000" using hi mod_less_divisor [of 1024 "c - 0x10000"] by linarith+
  ultimately have pair: "IsUtf16SurrogatePair 2 ?x ?y"
    using surrogate_iff(1) [of ?x] surrogate_iff(2) [of ?y] unfolding u IsUtf16SurrogatePair_def by blast
  have nz: "?x \<noteq> 0" using u(1) by (metis add_is_0 unsigned_0 zero_neq_numeral)
  let ?mask = "push_bit 10 1 - 1 :: u32"
  have m: "unat (?x AND ?mask) = ?hi" "unat (?y AND ?mask) = ?lo"
    unfolding unat_low6 u using hi by (auto intro!: mod_nat_eqI)
  have hx: "?x AND ?mask = of_nat ?hi"
    using arg_cong [OF m(1), of "of_nat :: nat \<Rightarrow> u32"] by (simp only: of_nat_unat ucast_id)
  have hy: "?y AND ?mask = of_nat ?lo"
    using arg_cong [OF m(2), of "of_nat :: nat \<Rightarrow> u32"] by (simp only: of_nat_unat ucast_id)
  have "unat (of_nat ?lo :: u32) = ?lo" by (rule unat_of_nat_small) (simp add: less_trans [OF mod_less_divisor])
  then have "push_bit 10 (of_nat ?hi) OR of_nat ?lo = push_bit 10 (of_nat ?hi) + (of_nat ?lo :: u32)"
    by (intro or_low_bits) simp
  also have "\<dots> = of_nat ?hi * 1024 + of_nat ?lo" by (simp add: push_bit_eq_mult)
  also have "\<dots> = of_nat (?hi * 1024 + ?lo)" by (simp only: of_nat_add of_nat_mult of_nat_numeral)
  also have "?hi * 1024 + ?lo = c - 0x10000" by simp
  finally have "CreateCodePointFromUtf16SurrogatePair 2 ?x ?y = of_nat (c - 0x10000) + 0x10000"
    unfolding CreateCodePointFromUtf16SurrogatePair_def Let_def hx hy by simp
  also have "\<dots> = of_nat c" using False by (simp add: of_nat_diff)
  finally show ?thesis
    unfolding utf16_encode_def if_not_P [OF False] append_Cons append_Nil wide_loop.simps(3) if_not_P [OF nz] if_P [OF pair]
    by (simp only:)
qed

lemma wide_loop_plain:
  "wide \<noteq> 2 \<Longrightarrow> 0 \<notin> set str \<Longrightarrow> wide_loop wide str = concat (map CodePointToUtf8 str)"
  by (induction wide str rule: wide_loop.induct) (auto simp: IsUtf16SurrogatePair_def)

lemma wide_loop_encode:
  assumes "list_all scalar_value cs"
  shows "wide_loop wide (wide_encode wide cs) = concat (map (\<lambda>c. CodePointToUtf8 (of_nat c)) cs)"
proof (cases "wide = 2")
  case True
  have "wide_loop 2 (concat (map utf16_encode cs)) = concat (map (\<lambda>c. CodePointToUtf8 (of_nat c)) cs)"
    using assms by (induction cs) (simp_all add: wide_loop_utf16)
  then show ?thesis using True by (simp add: wide_encode_def)
next
  case False
  have "(0 :: u32) \<notin> of_nat ` set cs"
    using assms scalar_unat by (auto simp: list_all_iff)
  then show ?thesis using False by (simp add: wide_encode_def wide_loop_plain comp_def)
qed

lemma StringStreamToString_id: "0 \<notin> set s \<Longrightarrow> StringStreamToString s = s"
  by (induction s) auto

lemma utf16_nonzero:
  assumes "scalar_value c"
  shows "0 \<notin> set (utf16_encode c)"
proof (cases "c < 0x10000")
  case True
  then show ?thesis using scalar_unat [OF assms] by (auto simp: utf16_encode_def)
next
  case False
  have "x \<noteq> 0" if "unat x = 0xD800 + n \<or> unat x = 0xDC00 + n" for x :: u32 and n
    using that by auto
  then have "of_nat (0xD800 + (c - 0x10000) div 1024) \<noteq> (0 :: u32)" "of_nat (0xDC00 + (c - 0x10000) mod 1024) \<noteq> (0 :: u32)"
    using surrogate_units(2,3) [OF assms False] by blast+
  then show ?thesis unfolding utf16_encode_def if_not_P [OF False] by (metis insert_iff empty_iff set_simps)
qed

lemma wide_encode_nonzero: "list_all scalar_value cs \<Longrightarrow> 0 \<notin> set (wide_encode wide cs)"
  using scalar_unat utf16_nonzero by (auto simp: wide_encode_def list_all_iff)

lemma decode_scalar:
  "scalar_value c \<Longrightarrow> utf8_decode (CodePointToUtf8 (of_nat c) @ rest) = map_option (\<lambda>l. c # l) (utf8_decode rest)"
  using decode_CodePoint [of "of_nat c" rest] scalar_unat [of c] by (simp add: scalar_value_def)



text \<open>
  The comment on \<open>CodePointToUtf8\<close> promises that code points above U+10FFFF are reported as
  invalid; the code encodes them up to U+1FFFFF.
\<close>

lemma CodePointToUtf8_above_unicode: "utf8_decode (CodePointToUtf8 0x110000) = Some [0x110000]"
  using decode_CodePoint [of "0x110000" "[]"] by simp

subsection \<open>Strings\<close>

lemma has_substring_iff: "has_substring needle hay \<longleftrightarrow> (\<exists>p q. hay = p @ needle @ q)"
proof (induction needle hay rule: has_substring.induct)
  case (1 needle hay)
  have head: "take (length needle) hay = needle \<longleftrightarrow> (\<exists>q. hay = needle @ q)"
    by (metis append_eq_conv_conj append_take_drop_id)
  show ?case
  proof (cases hay)
    case Nil
    then show ?thesis using head by auto
  next
    case (Cons x hay')
    have "(\<exists>p q. x # hay' = p @ needle @ q) \<longleftrightarrow> (\<exists>q. x # hay' = needle @ q) \<or> (\<exists>p q. hay' = p @ needle @ q)"
      by (metis append_Cons append_Nil list.exhaust list.inject)
    then show ?thesis using head 1 [OF Cons] Cons by simp
  qed
qed

declare SplitString.simps [simp del] has_substring.simps [simp del]

text \<open>The text that a delimiter joins from pieces.\<close>

primrec joined :: "byte \<Rightarrow> bytes list \<Rightarrow> bytes" where
  "joined d [] = []"
| "joined d (p # ps) = (if ps = [] then p else p @ d # joined d ps)"

text \<open>
  \<open>SplitString\<close> returns the pieces between the delimiters: none contains the delimiter, and joining
  them with it gives the string back.
\<close>

theorem SplitString_pieces:
  "joined d (SplitString d s) = s \<and> SplitString d s \<noteq> [] \<and> (\<forall>p \<in> set (SplitString d s). d \<notin> set p)"
proof (induction d s rule: SplitString.induct)
  case (1 d s)
  show ?case
  proof (cases "d \<in> set s")
    case False
    then show ?thesis by (simp add: SplitString.simps)
  next
    case True
    let ?k = "length (takeWhile (\<lambda>b. b \<noteq> d) s)"
    have t: "take ?k s = takeWhile (\<lambda>b. b \<noteq> d) s" by (simp add: takeWhile_eq_take [symmetric])
    have "\<exists>x \<in> set s. \<not> x \<noteq> d" using True by blast
    then have k: "?k < length s" "s ! ?k = d"
      using nth_length_takeWhile [of "\<lambda>b. b \<noteq> d" s]
      by (metis (mono_tags, lifting) length_takeWhile_le le_neq_implies_less takeWhile_eq_take takeWhile_eq_all_conv take_all_iff
          order_refl)+
    have e: "SplitString d s = take ?k s # SplitString d (drop (?k + 1) s)"
      using True by (subst SplitString.simps) (simp add: Let_def)
    have "take ?k s @ d # drop (?k + 1) s = s" using k by (metis Suc_eq_plus1 id_take_nth_drop)
    moreover have "d \<notin> set (take ?k s)" unfolding t by (auto dest: set_takeWhileD)
    ultimately show ?thesis using 1 True unfolding e by (simp add: Let_def)
  qed
qed

end
