(* ===== verification/Gtest_Regex.thy ===== *)
theory Gtest_Regex
  imports Status_Val
begin

text \<open>
  The regular expressions that the test library of the repository matches messages with on systems
  without POSIX ones (src/libs/googletest/src/gtest-port.cc, the part under
  \<open>GTEST_USES_SIMPLE_RE\<close>). A C string is the list of its characters before the NUL; reading past
  the NUL is a fault. The lemmas give the set of strings that a valid expression denotes and show
  that the backtracking matcher decides it.
\<close>

section \<open>Definitions\<close>

subsection \<open>Characters\<close>

definition IsInSet :: "byte \<Rightarrow> bytes \<Rightarrow> bool" where
  "IsInSet ch str \<longleftrightarrow> ch \<noteq> 0 \<and> ch \<in> set str"

definition IsAsciiDigit :: "byte \<Rightarrow> bool" where
  "IsAsciiDigit ch \<longleftrightarrow> 48 \<le> unat ch \<and> unat ch \<le> 57"

text \<open>34, 39, 92 and 96 are the two quotes, the backslash and the backquote.\<close>

definition IsAsciiPunct :: "byte \<Rightarrow> bool" where
  "IsAsciiPunct ch =
     IsInSet ch (lit ''^-!'' @ [34] @ lit ''#$%&'' @ [39] @ lit ''()*+,./:;<=>?@['' @ [92] @ lit '']_'' @ [96] @
                 lit ''{|}~'')"

definition IsRepeat :: "byte \<Rightarrow> bool" where
  "IsRepeat ch = IsInSet ch (lit ''?*+'')"

definition IsAsciiWhiteSpace :: "byte \<Rightarrow> bool" where
  "IsAsciiWhiteSpace ch = IsInSet ch [32, 12, 10, 13, 9, 11]"

definition IsAsciiWordChar :: "byte \<Rightarrow> bool" where
  "IsAsciiWordChar ch \<longleftrightarrow>
     (97 \<le> unat ch \<and> unat ch \<le> 122) \<or> (65 \<le> unat ch \<and> unat ch \<le> 90) \<or>
     (48 \<le> unat ch \<and> unat ch \<le> 57) \<or> ch = 95"

definition IsValidEscape :: "byte \<Rightarrow> bool" where
  "IsValidEscape c \<longleftrightarrow> IsAsciiPunct c \<or> IsInSet c (lit ''dDfnrsStvwW'')"

definition AtomMatchesChar :: "bool \<Rightarrow> byte \<Rightarrow> byte \<Rightarrow> bool" where
  "AtomMatchesChar escaped pattern_char ch =
     (if escaped then
        (if pattern_char = of_char (CHR ''d'') then IsAsciiDigit ch
         else if pattern_char = of_char (CHR ''D'') then \<not> IsAsciiDigit ch
         else if pattern_char = of_char (CHR ''f'') then ch = 12
         else if pattern_char = of_char (CHR ''n'') then ch = 10
         else if pattern_char = of_char (CHR ''r'') then ch = 13
         else if pattern_char = of_char (CHR ''s'') then IsAsciiWhiteSpace ch
         else if pattern_char = of_char (CHR ''S'') then \<not> IsAsciiWhiteSpace ch
         else if pattern_char = of_char (CHR ''t'') then ch = 9
         else if pattern_char = of_char (CHR ''v'') then ch = 11
         else if pattern_char = of_char (CHR ''w'') then IsAsciiWordChar ch
         else if pattern_char = of_char (CHR ''W'') then \<not> IsAsciiWordChar ch
         else IsAsciiPunct pattern_char \<and> pattern_char = ch)
      else (pattern_char = of_char (CHR ''.'') \<and> ch \<noteq> 10) \<or> pattern_char = ch)"

subsection \<open>Validation\<close>

abbreviation backslash :: byte where "backslash \<equiv> 92"
abbreviation dollar :: byte where "dollar \<equiv> 36"
abbreviation caret :: byte where "caret \<equiv> 94"

definition FormatRegexSyntaxError :: "bytes \<Rightarrow> int \<Rightarrow> bytes" where
  "FormatRegexSyntaxError regex index =
     lit ''Syntax error at index '' @ decimal_int index @ lit '' in simple regular expression '' @ [34] @
     regex @ [34] @ lit '': ''"

text \<open>
  The loop of \<open>ValidateRegex\<close> from index \<open>i\<close>, on the rest of the expression: whether it is valid, and
  the failures it adds.
\<close>

fun validate_loop :: "bytes \<Rightarrow> int \<Rightarrow> bool \<Rightarrow> bytes \<Rightarrow> bool \<times> bytes list" where
  "validate_loop regex i prev_repeatable [] = (True, [])"
| "validate_loop regex i prev_repeatable (ch # rest) =
     (if ch = backslash then
        (case rest of
           [] \<Rightarrow> (False, [FormatRegexSyntaxError regex i @ [39, 92, 39] @ lit '' cannot appear at the end.''])
         | c # rest' \<Rightarrow>
             (case validate_loop regex (i + 2) True rest' of
                (ok, fs) \<Rightarrow>
                  if \<not> IsValidEscape c
                  then (False, (FormatRegexSyntaxError regex i @ lit ''invalid escape sequence '' @ [34, 92, c, 34] @
                                lit ''.'') # fs)
                  else (ok, fs)))
      else
        (case validate_loop regex (i + 1) (\<not> IsInSet ch (lit ''^$?*+'')) rest of
           (ok, fs) \<Rightarrow>
             if ch = caret \<and> i > 0
             then (False, (FormatRegexSyntaxError regex i @ [39, 94, 39] @ lit '' can only appear at the beginning.'') # fs)
             else if ch = dollar \<and> rest \<noteq> []
             then (False, (FormatRegexSyntaxError regex i @ [39, 36, 39] @ lit '' can only appear at the end.'') # fs)
             else if IsInSet ch (lit ''()[]{}|'')
             then (False, (FormatRegexSyntaxError regex i @ [39, ch, 39] @ lit '' is unsupported.'') # fs)
             else if IsRepeat ch \<and> \<not> prev_repeatable
             then (False, (FormatRegexSyntaxError regex i @ [39, ch, 39] @
                           lit '' can only follow a repeatable token.'') # fs)
             else (ok, fs)))"

definition ValidateRegex :: "bytes option \<Rightarrow> bool \<times> bytes list" where
  "ValidateRegex regex =
     (case regex of
        None \<Rightarrow> (False, [lit ''NULL is not a valid simple regular expression.''])
      | Some r \<Rightarrow> validate_loop r 0 False r)"

subsection \<open>Matching\<close>

definition min_count :: "byte \<Rightarrow> nat" where
  "min_count repeat = (if repeat = of_char (CHR ''+'') then 1 else 0)"

definition max_count :: "byte \<Rightarrow> nat" where
  "max_count repeat = (if repeat = of_char (CHR ''?'') then 1 else 2 ^ 64 - 1 - 1)"

text \<open>
  \<open>MatchRepetitionAndRegexAtHead\<close> is the body of its loop at count \<open>i\<close>, with \<open>str\<close> advanced by \<open>i\<close>.
\<close>

function MatchRegexAtHead :: "bytes \<Rightarrow> bytes \<Rightarrow> bool res"
  and MatchRepetitionAndRegexAtHead :: "nat \<Rightarrow> bool \<Rightarrow> byte \<Rightarrow> byte \<Rightarrow> bytes \<Rightarrow> bytes \<Rightarrow> bool res" where
  "MatchRegexAtHead regex str =
     (case regex of
        [] \<Rightarrow> Inr True
      | c0 # r0 \<Rightarrow>
          if c0 = dollar then Inr (str = [])
          else
            let escaped = (c0 = backslash)
            in case (if escaped then r0 else regex) of
                 [] \<Rightarrow> Inl Out_of_bounds
               | c # r \<Rightarrow>
                   (case r of
                      q # r' \<Rightarrow>
                        if IsRepeat q then MatchRepetitionAndRegexAtHead 0 escaped c q r' str
                        else (case str of
                                [] \<Rightarrow> Inr False
                              | x # s \<Rightarrow> if AtomMatchesChar escaped c x then MatchRegexAtHead r s else Inr False)
                    | [] \<Rightarrow>
                        (case str of
                           [] \<Rightarrow> Inr False
                         | x # s \<Rightarrow> if AtomMatchesChar escaped c x then MatchRegexAtHead r s else Inr False)))"
| "MatchRepetitionAndRegexAtHead i escaped c repeat regex str =
     (if i \<le> max_count repeat then
        rbind (if min_count repeat \<le> i then MatchRegexAtHead regex str else Inr False) (\<lambda>matched.
        if matched then Inr True
        else case str of
               [] \<Rightarrow> Inr False
             | x # s \<Rightarrow>
                 if \<not> AtomMatchesChar escaped c x then Inr False
                 else MatchRepetitionAndRegexAtHead (i + 1) escaped c repeat regex s)
      else Inr False)"
  by pat_completeness auto
termination
  by (relation "measures [\<lambda>x. case x of Inl (r, s) \<Rightarrow> length r | Inr (i, e, c, q, r, s) \<Rightarrow> length r,
      \<lambda>x. case x of Inl _ \<Rightarrow> 0 | Inr _ \<Rightarrow> 1,
      \<lambda>x. case x of Inl (r, s) \<Rightarrow> length s | Inr (i, e, c, q, r, s) \<Rightarrow> length s]")
    (auto split: if_splits)

fun match_from :: "bytes \<Rightarrow> bytes \<Rightarrow> bool res" where
  "match_from regex str =
     rbind (MatchRegexAtHead regex str) (\<lambda>matched.
     if matched then Inr True
     else case str of [] \<Rightarrow> Inr False | x # s \<Rightarrow> match_from regex s)"

definition MatchRegexAnywhere :: "bytes option \<Rightarrow> bytes option \<Rightarrow> bool res" where
  "MatchRegexAnywhere regex str =
     (case (regex, str) of
        (Some r, Some s) \<Rightarrow> (if r \<noteq> [] \<and> hd r = caret then MatchRegexAtHead (tl r) s else match_from r s)
      | _ \<Rightarrow> Inr False)"

subsection \<open>The class RE\<close>

record RE =
  re_pattern :: "bytes option"
  re_is_valid :: bool
  re_full_pattern :: "bytes option"

definition RE_Init :: "bytes option \<Rightarrow> RE" where
  "RE_Init regex =
     (let is_valid = fst (ValidateRegex regex)
      in if \<not> is_valid then \<lparr>re_pattern = regex, re_is_valid = False, re_full_pattern = None\<rparr>
         else
           let r = the regex;
               full = (if r = [] \<or> hd r \<noteq> caret then [caret] else []) @ r @
                      (if r = [] \<or> last r \<noteq> dollar then [dollar] else [])
           in \<lparr>re_pattern = regex, re_is_valid = True, re_full_pattern = Some full\<rparr>)"

definition RE_FullMatch :: "bytes option \<Rightarrow> RE \<Rightarrow> bool res" where
  "RE_FullMatch str re =
     (if re_is_valid re then MatchRegexAnywhere (re_full_pattern re) str else Inr False)"

definition RE_PartialMatch :: "bytes option \<Rightarrow> RE \<Rightarrow> bool res" where
  "RE_PartialMatch str re =
     (if re_is_valid re then MatchRegexAnywhere (re_pattern re) str else Inr False)"

subsection \<open>Specification: the strings an expression denotes\<close>

datatype token = Once bool byte | Repeated bool byte byte

text \<open>The tokens of an expression without a leading caret, and whether it ends in an anchor.\<close>

function tokens :: "bytes \<Rightarrow> token list \<times> bool" where
  "tokens [] = ([], False)"
| "tokens (c0 # r0) =
     (if c0 = dollar then ([], True)
      else
        let escaped = (c0 = backslash)
        in case (if escaped then r0 else c0 # r0) of
             [] \<Rightarrow> ([], False)
           | c # r \<Rightarrow>
               (case r of
                  q # r' \<Rightarrow>
                    if IsRepeat q then (case tokens r' of (ts, a) \<Rightarrow> (Repeated escaped c q # ts, a))
                    else (case tokens r of (ts, a) \<Rightarrow> (Once escaped c # ts, a))
                | [] \<Rightarrow> (case tokens r of (ts, a) \<Rightarrow> (Once escaped c # ts, a))))"
  by pat_completeness auto
termination by (relation "measure length") (auto split: if_splits)

primrec token_lang :: "token \<Rightarrow> bytes set" where
  "token_lang (Once e c) = {[x] | x. AtomMatchesChar e c x}"
| "token_lang (Repeated e c q) =
     {u. (\<forall>x \<in> set u. AtomMatchesChar e c x) \<and> min_count q \<le> length u \<and> length u \<le> max_count q}"

primrec lang :: "token list \<Rightarrow> bytes set" where
  "lang [] = {[]}"
| "lang (t # ts) = {u @ v | u v. u \<in> token_lang t \<and> v \<in> lang ts}"

definition head_match :: "token list \<times> bool \<Rightarrow> bytes \<Rightarrow> bool" where
  "head_match re s \<longleftrightarrow> (\<exists>u v. s = u @ v \<and> u \<in> lang (fst re) \<and> (snd re \<longrightarrow> v = []))"

text \<open>The expression after a leading caret, which a valid expression may have.\<close>

definition regex_body :: "bytes \<Rightarrow> bytes" where
  "regex_body r = (if r \<noteq> [] \<and> hd r = caret then tl r else r)"

section \<open>Lemmas\<close>

declare MatchRegexAtHead.simps [simp del] MatchRepetitionAndRegexAtHead.simps [simp del] tokens.simps [simp del]
  match_from.simps [simp del]

subsection \<open>One token\<close>

text \<open>The first token of an expression that does not start with an anchor.\<close>

definition next_token :: "bytes \<Rightarrow> (token \<times> bytes) option" where
  "next_token r =
     (let e = (r \<noteq> [] \<and> hd r = backslash)
      in case (if e then tl r else r) of
           [] \<Rightarrow> None
         | c # r' \<Rightarrow> Some (if r' \<noteq> [] \<and> IsRepeat (hd r') then (Repeated e c (hd r'), tl r') else (Once e c, r')))"

lemma next_token_shorter: "next_token r = Some (t, r') \<Longrightarrow> length r' < length r"
  by (cases r) (auto simp: next_token_def Let_def split: if_splits list.splits)

lemma tokens_next:
  assumes "r \<noteq> []" and "hd r \<noteq> dollar" and "next_token r = Some (t, r')"
  shows "tokens r = (t # fst (tokens r'), snd (tokens r'))"
  using assms
  by (subst tokens.simps(2) [of "hd r" "tl r", simplified list.collapse [OF assms(1)]])
    (auto simp: next_token_def Let_def split: if_splits list.splits prod.splits)

lemma Match_next:
  assumes "r \<noteq> []" and "hd r \<noteq> dollar" and "next_token r = Some (t, r')"
  shows "MatchRegexAtHead r s =
    (case t of
       Once e c \<Rightarrow> (case s of [] \<Rightarrow> Inr False | x # s' \<Rightarrow>
         if AtomMatchesChar e c x then MatchRegexAtHead r' s' else Inr False)
     | Repeated e c q \<Rightarrow> MatchRepetitionAndRegexAtHead 0 e c q r' s)"
  using assms
  by (subst MatchRegexAtHead.simps) (auto simp: next_token_def Let_def split: if_splits list.splits)

text \<open>Well-formed: anchors only at the end, no backslash without a character.\<close>

function well_formed :: "bytes \<Rightarrow> bool" where
  "well_formed r =
     (if r = [] then True
      else if hd r = dollar then tl r = []
      else case next_token r of None \<Rightarrow> False | Some (t, r') \<Rightarrow> well_formed r')"
  by pat_completeness auto
termination by (relation "measure length") (auto dest: next_token_shorter)

declare well_formed.simps [simp del]

subsection \<open>Matching at the head\<close>

lemma head_match_Cons:
  "head_match (t # ts, a) s \<longleftrightarrow> (\<exists>u v. s = u @ v \<and> u \<in> token_lang t \<and> head_match (ts, a) v)"
proof
  assume "head_match (t # ts, a) s"
  then obtain u1 u2 v where "s = (u1 @ u2) @ v" "u1 \<in> token_lang t" "u2 \<in> lang ts" "a \<longrightarrow> v = []"
    by (force simp: head_match_def)
  then show "\<exists>u v. s = u @ v \<and> u \<in> token_lang t \<and> head_match (ts, a) v"
    unfolding head_match_def by (intro exI [of _ u1] exI [of _ "u2 @ v"]) auto
next
  assume "\<exists>u v. s = u @ v \<and> u \<in> token_lang t \<and> head_match (ts, a) v"
  then obtain u u2 v where "s = u @ (u2 @ v)" "u \<in> token_lang t" "u2 \<in> lang ts" "a \<longrightarrow> v = []"
    by (auto simp: head_match_def)
  then show "head_match (t # ts, a) s"
    unfolding head_match_def by (intro exI [of _ "u @ u2"] exI [of _ v]) auto
qed

lemma head_match_once:
  "head_match (Once e c # ts, a) s = (case s of [] \<Rightarrow> False | x # s' \<Rightarrow> AtomMatchesChar e c x \<and> head_match (ts, a) s')"
proof (cases s)
  case Nil
  then show ?thesis by (auto simp: head_match_Cons)
next
  case (Cons x s')
  have "(\<exists>u v. x # s' = u @ v \<and> u \<in> token_lang (Once e c) \<and> head_match (ts, a) v) \<longleftrightarrow>
      AtomMatchesChar e c x \<and> head_match (ts, a) s'" (is "?l \<longleftrightarrow> ?r")
  proof
    assume ?r
    then show ?l by (intro exI [of _ "[x]"] exI [of _ s']) simp
  qed auto
  then show ?thesis using Cons by (simp only: head_match_Cons list.case)
qed

text \<open>Some number of further characters, after \<open>i\<close> of them.\<close>

definition repeat_match :: "nat \<Rightarrow> bool \<Rightarrow> byte \<Rightarrow> byte \<Rightarrow> token list \<times> bool \<Rightarrow> bytes \<Rightarrow> bool" where
  "repeat_match i e c q re s \<longleftrightarrow>
     (\<exists>u v. s = u @ v \<and> (\<forall>x \<in> set u. AtomMatchesChar e c x) \<and> min_count q \<le> i + length u \<and>
        i + length u \<le> max_count q \<and> head_match re v)"

lemma head_match_repeated: "head_match (Repeated e c q # ts, a) s = repeat_match 0 e c q (ts, a) s"
  by (auto simp: head_match_Cons repeat_match_def)

lemma repeat_match_step:
  "repeat_match i e c q re s \<longleftrightarrow>
     i \<le> max_count q \<and>
     ((min_count q \<le> i \<and> head_match re s) \<or>
      (\<exists>x s'. s = x # s' \<and> AtomMatchesChar e c x \<and> repeat_match (i + 1) e c q re s'))"
proof
  assume "repeat_match i e c q re s"
  then obtain u v where u: "s = u @ v" "\<forall>x \<in> set u. AtomMatchesChar e c x" "min_count q \<le> i + length u"
    "i + length u \<le> max_count q" "head_match re v" by (auto simp: repeat_match_def)
  show "i \<le> max_count q \<and> ((min_count q \<le> i \<and> head_match re s) \<or>
      (\<exists>x s'. s = x # s' \<and> AtomMatchesChar e c x \<and> repeat_match (i + 1) e c q re s'))"
  proof (cases u)
    case Nil
    then show ?thesis using u by simp
  next
    case (Cons x u')
    then have "repeat_match (i + 1) e c q re (u' @ v)" using u unfolding repeat_match_def by fastforce
    then show ?thesis using u Cons by auto
  qed
next
  assume r: "i \<le> max_count q \<and> ((min_count q \<le> i \<and> head_match re s) \<or>
      (\<exists>x s'. s = x # s' \<and> AtomMatchesChar e c x \<and> repeat_match (i + 1) e c q re s'))"
  show "repeat_match i e c q re s"
  proof (cases "min_count q \<le> i \<and> head_match re s")
    case True
    then show ?thesis using r unfolding repeat_match_def by (intro exI [of _ "[]"] exI [of _ s]) simp
  next
    case False
    then obtain x s' u v where "s = x # s'" "AtomMatchesChar e c x" "s' = u @ v" "\<forall>x \<in> set u. AtomMatchesChar e c x"
      "min_count q \<le> i + 1 + length u" "i + 1 + length u \<le> max_count q" "head_match re v"
      using r by (auto simp: repeat_match_def)
    then show ?thesis unfolding repeat_match_def by (intro exI [of _ "x # u"] exI [of _ v]) simp
  qed
qed

lemma MatchRepetition_correct:
  assumes "\<And>s. MatchRegexAtHead r s = Inr (head_match re s)"
  shows "MatchRepetitionAndRegexAtHead i e c q r s = Inr (repeat_match i e c q re s)"
proof (induction s arbitrary: i)
  case Nil
  show ?case
    by (subst MatchRepetitionAndRegexAtHead.simps, subst repeat_match_step) (simp add: assms)
next
  case (Cons x s)
  show ?case
    by (subst MatchRepetitionAndRegexAtHead.simps, subst repeat_match_step) (simp add: assms Cons)
qed

lemma MatchRegexAtHead_correct:
  "well_formed r \<Longrightarrow> MatchRegexAtHead r s = Inr (head_match (tokens r) s)"
proof (induction r arbitrary: s rule: well_formed.induct)
  case (1 r)
  consider "r = []" | "r \<noteq> []" "hd r = dollar" | "r \<noteq> []" "hd r \<noteq> dollar" by blast
  then show ?case
  proof cases
    case 1
    then show ?thesis by (simp add: MatchRegexAtHead.simps tokens.simps head_match_def)
  next
    case 2
    then obtain r0 where "r = dollar # r0" by (cases r) auto
    then show ?thesis by (auto simp: MatchRegexAtHead.simps tokens.simps head_match_def)
  next
    case 3
    then obtain t r' where n: "next_token r = Some (t, r')" and w: "well_formed r'"
      using "1.prems" by (subst (asm) well_formed.simps) (auto split: option.splits)
    have IH: "MatchRegexAtHead r' s = Inr (head_match (tokens r') s)" for s
      using "1.IH" [OF 3(1,2) n] w by blast
    show ?thesis
    proof (cases t)
      case (Once e c)
      then show ?thesis
        using Match_next [OF 3 n, of s] tokens_next [OF 3 n] IH
        by (auto simp: head_match_once split: list.splits)
    next
      case (Repeated e c q)
      then show ?thesis
        using Match_next [OF 3 n, of s] tokens_next [OF 3 n] MatchRepetition_correct [OF IH, of 0 e c q s]
        by (simp add: head_match_repeated)
    qed
  qed
qed

subsection \<open>Valid expressions\<close>

lemma repeat_chars [simp]:
  "\<not> IsRepeat dollar" "\<not> IsRepeat backslash" "\<not> IsRepeat caret" "\<not> IsRepeat 0"
  "IsRepeat q \<Longrightarrow> IsInSet q (lit ''^$?*+'')"
  by (auto simp: IsRepeat_def IsInSet_def)

lemma repeat_not_escape: "IsRepeat q \<Longrightarrow> q \<noteq> backslash" "IsRepeat q \<Longrightarrow> q \<noteq> dollar"
  by (metis repeat_chars(2)) (metis repeat_chars(1))

abbreviation valid_from :: "bytes \<Rightarrow> int \<Rightarrow> bool \<Rightarrow> bytes \<Rightarrow> bool" where
  "valid_from regex i p r \<equiv> fst (validate_loop regex i p r)"

declare validate_loop.simps(2) [simp del]

lemma valid_escape:
  "valid_from regex i p (backslash # rest) \<Longrightarrow> \<exists>c r'. rest = c # r' \<and> valid_from regex (i + 2) True r'"
  by (simp add: validate_loop.simps(2) split: list.splits prod.splits if_splits)

lemma valid_plain:
  assumes "valid_from regex i p (ch # rest)" and "ch \<noteq> backslash"
  shows "valid_from regex (i + 1) (\<not> IsInSet ch (lit ''^$?*+'')) rest" "ch = dollar \<longrightarrow> rest = []"
    "IsRepeat ch \<longrightarrow> p"
  using assms by (auto simp: validate_loop.simps(2) split: prod.splits if_splits)

lemma valid_repeat:
  assumes "valid_from regex i p (q # rest)" and "IsRepeat q"
  shows "p" "valid_from regex (i + 1) False rest"
  using valid_plain(3) [OF assms(1) repeat_not_escape(1) [OF assms(2)]]
    valid_plain(1) [OF assms(1) repeat_not_escape(1) [OF assms(2)]] repeat_chars(5) [OF assms(2)] assms(2)
  by (simp_all del: lit_Cons)

lemma valid_well_formed:
  assumes "valid_from regex i p r" and "p \<longrightarrow> \<not> (r \<noteq> [] \<and> IsRepeat (hd r))"
  shows "well_formed r"
  using assms
proof (induction "length r" arbitrary: i p r rule: less_induct)
  case less
  text \<open>What follows the first character of the first token.\<close>
  have tail: "well_formed (if r1 \<noteq> [] \<and> IsRepeat (hd r1) then tl r1 else r1)"
    if "valid_from regex j p1 r1" "length r1 < length r" for j p1 r1
  proof (cases "r1 \<noteq> [] \<and> IsRepeat (hd r1)")
    case True
    then obtain q r2 where r2: "r1 = q # r2" "IsRepeat q" by (cases r1) auto
    then have "valid_from regex (j + 1) False r2" using that(1) valid_repeat(2) by blast
    then show ?thesis using less.hyps [of r2 "j + 1" False] that(2) r2 by simp
  next
    case False
    then show ?thesis using less.hyps [OF that(2) that(1)] by auto
  qed
  show ?case
  proof (cases r)
    case Nil
    then show ?thesis by (simp add: well_formed.simps)
  next
    case (Cons c0 r0)
    consider (esc) "c0 = backslash" | (dol) "c0 = dollar" | (plain) "c0 \<noteq> backslash" "c0 \<noteq> dollar" by blast
    then show ?thesis
    proof cases
      case esc
      then obtain c r' where r': "r0 = c # r'" "valid_from regex (i + 2) True r'"
        using valid_escape less.prems(1) Cons by blast
      have "well_formed (if r' \<noteq> [] \<and> IsRepeat (hd r') then tl r' else r')"
        using tail [OF r'(2)] Cons r'(1) by simp
      then show ?thesis
        using esc Cons r'(1) by (subst well_formed.simps) (auto simp: next_token_def)
    next
      case dol
      then show ?thesis
        using valid_plain(2) [of regex i p c0 r0] less.prems(1) Cons by (simp add: well_formed.simps)
    next
      case plain
      note v = valid_plain [OF less.prems(1) [unfolded Cons] plain(1)]
      have "well_formed (if r0 \<noteq> [] \<and> IsRepeat (hd r0) then tl r0 else r0)"
        using tail [OF v(1)] Cons by simp
      then show ?thesis
        using plain Cons by (subst well_formed.simps) (auto simp: next_token_def)
    qed
  qed
qed

lemma valid_body:
  assumes "fst (ValidateRegex (Some r))"
  shows "well_formed (regex_body r)"
proof (cases "r \<noteq> [] \<and> hd r = caret")
  case True
  then obtain b where b: "r = caret # b" by (cases r) auto
  then have "valid_from r 1 (\<not> IsInSet caret (lit ''^$?*+'')) b"
    using valid_plain(1) [of r 0 False caret b] assms by (simp add: ValidateRegex_def)
  moreover have "IsInSet caret (lit ''^$?*+'')" by (simp add: IsInSet_def)
  ultimately show ?thesis using valid_well_formed [of r 1 False b] b by (simp add: regex_body_def)
next
  case False
  then have "regex_body r = r" by (auto simp: regex_body_def)
  then show ?thesis
    using valid_well_formed [of r 0 False r] assms by (simp add: ValidateRegex_def)
qed

subsection \<open>Matching anywhere and in full\<close>

lemma match_from_correct:
  assumes "\<And>s. MatchRegexAtHead r s = Inr (P s)"
  shows "match_from r s = Inr (\<exists>p v. s = p @ v \<and> P v)"
proof (induction s)
  case Nil
  show ?case by (subst match_from.simps) (simp add: assms)
next
  case (Cons x s)
  have "(\<exists>p v. x # s = p @ v \<and> P v) \<longleftrightarrow> P (x # s) \<or> (\<exists>p v. s = p @ v \<and> P v)"
    by (metis append_Cons append_Nil list.exhaust list.inject)
  then show ?case by (subst match_from.simps) (simp add: assms Cons)
qed

lemma anchored_match: "head_match (ts, True) s \<longleftrightarrow> s \<in> lang ts"
  by (auto simp: head_match_def)

lemma append_anchor:
  assumes "well_formed r" and "\<not> (r \<noteq> [] \<and> last r = dollar)"
  shows "well_formed (r @ [dollar]) \<and> tokens (r @ [dollar]) = (fst (tokens r), True)"
  using assms
proof (induction r rule: well_formed.induct)
  case (1 r)
  show ?case
  proof (cases "r = []")
    case True
    then show ?thesis by (simp add: well_formed.simps tokens.simps)
  next
    case False
    have hd: "hd r \<noteq> dollar"
    proof
      assume "hd r = dollar"
      moreover have "tl r = []" using 1(2) False calculation by (subst (asm) well_formed.simps) simp
      ultimately show False using 1(3) False by (cases r) auto
    qed
    obtain t r' where n: "next_token r = Some (t, r')" and w: "well_formed r'"
      using 1(2) False hd by (subst (asm) well_formed.simps) (auto split: option.splits)
    have l: "r' \<noteq> [] \<Longrightarrow> last r' = last r"
      using n False by (cases r) (auto simp: next_token_def Let_def last_tl split: if_splits list.splits)
    have n': "next_token (r @ [dollar]) = Some (t, r' @ [dollar])"
      using n False by (cases r) (auto simp: next_token_def Let_def hd_append tl_append split: if_splits list.splits)
    have IH: "well_formed (r' @ [dollar])" "tokens (r' @ [dollar]) = (fst (tokens r'), True)"
      using 1(1) [OF False hd n refl w] l 1(3) False by (metis, metis)
    have hd': "hd (r @ [dollar]) \<noteq> dollar" using hd False by simp
    show ?thesis
      using IH hd' n' tokens_next [OF _ hd' n'] tokens_next [OF False hd n]
      by (subst well_formed.simps) simp
  qed
qed

text \<open>
  For an expression that \<open>ValidateRegex\<close> accepts, \<open>RE::PartialMatch\<close> returns, without reading
  outside the pattern or the string, whether some substring of the string is denoted by the
  expression: at the start if it begins with a caret, up to the end if it ends in a dollar sign.
\<close>

theorem PartialMatch_correct:
  assumes "fst (ValidateRegex (Some r))"
  shows "RE_PartialMatch (Some s) (RE_Init (Some r)) =
    Inr (\<exists>p u v. s = p @ u @ v \<and> u \<in> lang (fst (tokens (regex_body r))) \<and>
      (r \<noteq> [] \<and> hd r = caret \<longrightarrow> p = []) \<and> (snd (tokens (regex_body r)) \<longrightarrow> v = []))"
proof -
  have M: "MatchRegexAtHead (regex_body r) s = Inr (head_match (tokens (regex_body r)) s)" for s
    by (rule MatchRegexAtHead_correct [OF valid_body [OF assms]])
  have I: "RE_PartialMatch (Some s) (RE_Init (Some r)) = MatchRegexAnywhere (Some r) (Some s)"
    using assms by (simp add: RE_PartialMatch_def RE_Init_def Let_def)
  show ?thesis
  proof (cases "r \<noteq> [] \<and> hd r = caret")
    case True
    then have "MatchRegexAnywhere (Some r) (Some s) = MatchRegexAtHead (regex_body r) s"
      by (simp add: MatchRegexAnywhere_def regex_body_def)
    then show ?thesis using I True M [of s] by (auto simp: head_match_def)
  next
    case False
    then have "MatchRegexAnywhere (Some r) (Some s) = match_from (regex_body r) s"
      by (auto simp: MatchRegexAnywhere_def regex_body_def)
    then show ?thesis using I False match_from_correct [OF M, of s] by (auto simp: head_match_def)
  qed
qed

theorem PartialMatch_correct_witness:
  "RE_PartialMatch (Some (lit ''xaab'')) (RE_Init (Some (lit ''a+b$''))) = Inr True"
proof -
  have v: "fst (ValidateRegex (Some (lit ''a+b$'')))" by code_simp
  have t: "tokens (regex_body (lit ''a+b$'')) = ([Repeated False 97 43, Once False 98], True)" by code_simp
  have l: "lit ''aab'' \<in> lang [Repeated False 97 43, Once False 98]"
    by (simp add: AtomMatchesChar_def min_count_def max_count_def)
  have s: "lit ''xaab'' = lit ''x'' @ lit ''aab'' @ []" by simp
  have c: "hd (lit ''a+b$'') \<noteq> caret" by simp
  show ?thesis
    using l s c unfolding PartialMatch_correct [OF v] t fst_conv snd_conv by blast
qed

text \<open>
  C32: For a valid expression, unless it ends in an escaped dollar sign, \<open>RE::FullMatch\<close> decides whether
  the expression denotes the whole string.
\<close>

theorem FullMatch_correct:
  assumes v: "fst (ValidateRegex (Some r))"
    and e: "r \<noteq> [] \<and> last r = dollar \<longrightarrow> snd (tokens (regex_body r))"
  shows "RE_FullMatch (Some s) (RE_Init (Some r)) = Inr (s \<in> lang (fst (tokens (regex_body r))))"
proof -
  let ?b = "regex_body r"
  let ?closing = "if r = [] \<or> last r \<noteq> dollar then [dollar] else []"
  have full: "RE_FullMatch (Some s) (RE_Init (Some r)) = MatchRegexAtHead (?b @ ?closing) s"
    using v by (cases r) (auto simp: RE_FullMatch_def RE_Init_def Let_def MatchRegexAnywhere_def regex_body_def)
  have w: "well_formed ?b" by (rule valid_body [OF v])
  have last: "?b \<noteq> [] \<Longrightarrow> last ?b = last r" by (cases r) (auto simp: regex_body_def)
  have "well_formed (?b @ ?closing) \<and> tokens (?b @ ?closing) = (fst (tokens ?b), True)"
  proof (cases "r = [] \<or> last r \<noteq> dollar")
    case True
    then have "\<not> (?b \<noteq> [] \<and> last ?b = dollar)" using last by (auto simp: regex_body_def)
    then show ?thesis using append_anchor [OF w] True by simp
  next
    case False
    then have "snd (tokens ?b)" using e by simp
    then show ?thesis using False w by (simp add: prod_eq_iff)
  qed
  then show ?thesis
    using full MatchRegexAtHead_correct [of "?b @ ?closing" s] by (simp add: anchored_match)
qed

theorem FullMatch_correct_witness:
  "RE_FullMatch (Some (lit ''aab'')) (RE_Init (Some (lit ''a*b''))) = Inr True"
proof -
  have v: "fst (ValidateRegex (Some (lit ''a*b'')))" by code_simp
  have t: "tokens (regex_body (lit ''a*b'')) = ([Repeated False 97 42, Once False 98], False)" by code_simp
  have l: "lit ''aab'' \<in> lang [Repeated False 97 42, Once False 98]"
    by (simp add: AtomMatchesChar_def min_count_def max_count_def)
  have "RE_FullMatch (Some (lit ''aab'')) (RE_Init (Some (lit ''a*b''))) =
      Inr (lit ''aab'' \<in> lang (fst (tokens (regex_body (lit ''a*b'')))))"
    by (rule FullMatch_correct [OF v]) simp
  then show ?thesis using l by (simp only: t fst_conv)
qed

text \<open>
  An expression that ends in an escaped dollar sign gets no anchor of its own, because \<open>Init\<close> looks
  at the last character only: \<open>FullMatch\<close> then accepts strings with more at the end.
\<close>

lemma FullMatch_escaped_dollar:
  "fst (ValidateRegex (Some [backslash, dollar]))"
  "RE_FullMatch (Some (lit ''$x'')) (RE_Init (Some [backslash, dollar])) = Inr True"
  "lit ''$x'' \<notin> lang (fst (tokens (regex_body [backslash, dollar])))"
proof -
  show "fst (ValidateRegex (Some [backslash, dollar]))" by code_simp
  show "RE_FullMatch (Some (lit ''$x'')) (RE_Init (Some [backslash, dollar])) = Inr True" by code_simp
  have "tokens (regex_body [backslash, dollar]) = ([Once True dollar], False)" by code_simp
  then show "lit ''$x'' \<notin> lang (fst (tokens (regex_body [backslash, dollar])))" by simp
qed

end
