(* ===== verification/Gtest_FilePath.thy ===== *)
theory Gtest_FilePath
  imports Gtest_String Posix_World
begin

text \<open>
  Class \<open>FilePath\<close> of the test library (src/libs/googletest/src/gtest-filepath.cc and
  src/libs/googletest/include/gtest/internal/gtest-filepath.h) on systems whose path separator is
  a slash. What the operations ask of the file system, \<open>stat\<close> and \<open>mkdir\<close>, is a parameter over a
  state of the world; the locale \<open>directory_calls\<close> holds what the callers rely on, and the world
  of \<open>Posix_World\<close>, whose calls may fail at any time, provides it. \<open>GenerateUniqueFileName\<close> and
  \<open>CreateDirectoriesRecursively\<close> may run forever: \<open>None\<close> is a run that does not return.
\<close>

section \<open>Definitions\<close>

definition kPathSeparator :: byte where "kPathSeparator = 47"
definition kCurrentDirectoryString :: bytes where "kCurrentDirectoryString = lit ''./''"

definition IsPathSeparator :: "byte \<Rightarrow> bool" where
  "IsPathSeparator c \<longleftrightarrow> c = kPathSeparator"

record FilePath =
  pathname :: bytes

text \<open>The loop of \<open>Normalize\<close> over the characters of the C string.\<close>

function Normalize_loop :: "bytes \<Rightarrow> bytes" where
  "Normalize_loop [] = []"
| "Normalize_loop (c # src) =
     (if \<not> IsPathSeparator c then c # Normalize_loop src
      else c # Normalize_loop (dropWhile IsPathSeparator src))"
  by pat_completeness auto
termination by (relation "measure length") (auto simp: length_dropWhile_le le_imp_less_Suc)

definition Normalize :: "FilePath \<Rightarrow> FilePath" where
  "Normalize p = \<lparr>pathname = Normalize_loop (until_nul (pathname p))\<rparr>"

definition FilePath_default :: FilePath where "FilePath_default = \<lparr>pathname = []\<rparr>"
definition FilePath_new :: "bytes \<Rightarrow> FilePath" where "FilePath_new s = Normalize \<lparr>pathname = s\<rparr>"
definition FilePath_copy :: "FilePath \<Rightarrow> FilePath" where "FilePath_copy rhs = \<lparr>pathname = pathname rhs\<rparr>"
definition FilePath_Set :: "FilePath \<Rightarrow> FilePath \<Rightarrow> FilePath" where
  "FilePath_Set p rhs = p\<lparr>pathname := pathname rhs\<rparr>"
definition IsEmpty :: "FilePath \<Rightarrow> bool" where "IsEmpty p \<longleftrightarrow> pathname p = []"

definition IsDirectory :: "FilePath \<Rightarrow> bool" where
  "IsDirectory p \<longleftrightarrow> pathname p \<noteq> [] \<and> IsPathSeparator (pathname p ! (length (pathname p) - 1))"

definition IsRootDirectory :: "FilePath \<Rightarrow> bool" where
  "IsRootDirectory p \<longleftrightarrow> length (pathname p) = 1 \<and> IsPathSeparator (pathname p ! 0)"

text \<open>The first character of the C string may be its NUL.\<close>

definition IsAbsolutePath :: "FilePath \<Rightarrow> bool" where
  "IsAbsolutePath p \<longleftrightarrow> IsPathSeparator ((pathname p @ [0]) ! 0)"

definition RemoveTrailingPathSeparator :: "FilePath \<Rightarrow> FilePath" where
  "RemoveTrailingPathSeparator p =
     (if IsDirectory p then FilePath_new (take (length (pathname p) - 1) (pathname p)) else p)"

text \<open>The offset of the last separator; \<open>path_strrchr\<close> scans the C string.\<close>

primrec path_strrchr :: "bytes \<Rightarrow> byte \<Rightarrow> nat option" where
  "path_strrchr [] c = None"
| "path_strrchr (x # s) c =
     (case path_strrchr s c of
        Some i \<Rightarrow> Some (i + 1)
      | None \<Rightarrow> if x = c then Some 0 else None)"

definition FindLastPathSeparator :: "FilePath \<Rightarrow> nat option" where
  "FindLastPathSeparator p = path_strrchr (until_nul (pathname p)) kPathSeparator"

definition RemoveDirectoryName :: "FilePath \<Rightarrow> FilePath" where
  "RemoveDirectoryName p =
     (case FindLastPathSeparator p of
        Some last_sep \<Rightarrow> FilePath_new (drop (last_sep + 1) (until_nul (pathname p)))
      | None \<Rightarrow> p)"

definition RemoveFileName :: "FilePath \<Rightarrow> FilePath" where
  "RemoveFileName p =
     (case FindLastPathSeparator p of
        Some last_sep \<Rightarrow> FilePath_new (take (last_sep + 1) (pathname p))
      | None \<Rightarrow> FilePath_new kCurrentDirectoryString)"

definition RemoveExtension :: "FilePath \<Rightarrow> bytes \<Rightarrow> FilePath" where
  "RemoveExtension p extension =
     (let dot_extension = lit ''.'' @ extension
      in if EndsWithCaseInsensitive (pathname p) dot_extension
         then FilePath_new (take (length (pathname p) - length dot_extension) (pathname p))
         else p)"

definition ConcatPaths :: "FilePath \<Rightarrow> FilePath \<Rightarrow> FilePath" where
  "ConcatPaths directory relative_path =
     (if IsEmpty directory then relative_path
      else
        let dir = RemoveTrailingPathSeparator directory
        in FilePath_new (pathname dir @ [kPathSeparator] @ pathname relative_path))"

definition MakeFileName :: "FilePath \<Rightarrow> FilePath \<Rightarrow> int \<Rightarrow> bytes \<Rightarrow> FilePath" where
  "MakeFileName directory base_name number extension =
     (let file = (if number = 0 then pathname base_name @ lit ''.'' @ extension
                  else pathname base_name @ lit ''_'' @ decimal_int number @ lit ''.'' @ extension)
      in ConcatPaths directory (FilePath_new file))"

subsection \<open>The file system\<close>

text \<open>
  \<open>stat\<close> returns whether the name is that of a directory, or nothing when it fails; \<open>mkdir\<close> returns
  whether it succeeds. Both may change the state.
\<close>

type_synonym 'w stat_call = "bytes \<Rightarrow> 'w \<Rightarrow> bool option \<times> 'w"
type_synonym 'w mkdir_call = "bytes \<Rightarrow> 'w \<Rightarrow> bool \<times> 'w"

definition FileOrDirectoryExists :: "'w stat_call \<Rightarrow> FilePath \<Rightarrow> 'w \<Rightarrow> bool \<times> 'w" where
  "FileOrDirectoryExists stat p w = (case stat (pathname p) w of (r, w1) \<Rightarrow> (r \<noteq> None, w1))"

definition DirectoryExists :: "'w stat_call \<Rightarrow> FilePath \<Rightarrow> 'w \<Rightarrow> bool \<times> 'w" where
  "DirectoryExists stat p w = (case stat (pathname p) w of (r, w1) \<Rightarrow> (r = Some True, w1))"

definition CreateFolder :: "'w stat_call \<Rightarrow> 'w mkdir_call \<Rightarrow> FilePath \<Rightarrow> 'w \<Rightarrow> bool \<times> 'w" where
  "CreateFolder stat mkdir p w =
     (case mkdir (pathname p) w of
        (True, w1) \<Rightarrow> (True, w1)
      | (False, w1) \<Rightarrow> DirectoryExists stat p w1)"

partial_function (option) GenerateUniqueFileName ::
  "'w stat_call \<Rightarrow> FilePath \<Rightarrow> FilePath \<Rightarrow> bytes \<Rightarrow> int \<Rightarrow> 'w \<Rightarrow> (FilePath \<times> 'w) option" where
  "GenerateUniqueFileName stat directory base_name extension number w =
     (let full_pathname = MakeFileName directory base_name number extension
      in case FileOrDirectoryExists stat full_pathname w of (exists, w1) \<Rightarrow>
           if exists then GenerateUniqueFileName stat directory base_name extension (number + 1) w1
           else Some (full_pathname, w1))"

partial_function (option) CreateDirectoriesRecursively ::
  "'w stat_call \<Rightarrow> 'w mkdir_call \<Rightarrow> FilePath \<Rightarrow> 'w \<Rightarrow> (bool \<times> 'w) option" where
  "CreateDirectoriesRecursively stat mkdir p w =
     (if \<not> IsDirectory p then Some (False, w)
      else if pathname p = [] then Some (True, w)
      else case DirectoryExists stat p w of (exists, w1) \<Rightarrow>
        if exists then Some (True, w1)
        else
          let parent = RemoveFileName (RemoveTrailingPathSeparator p)
          in Option.bind (CreateDirectoriesRecursively stat mkdir parent w1) (\<lambda>(made, w2).
             if made then Some (CreateFolder stat mkdir p w2) else Some (False, w2)))"

text \<open>\<open>getcwd\<close> is an argument: its result.\<close>

definition GetCurrentDir :: "bytes option \<Rightarrow> FilePath" where
  "GetCurrentDir cwd = FilePath_new (case cwd of None \<Rightarrow> [] | Some s \<Rightarrow> s)"

subsection \<open>Specification\<close>

text \<open>A normal path is a C string without two adjacent separators.\<close>

fun no_double :: "bytes \<Rightarrow> bool" where
  "no_double (a # b # s) \<longleftrightarrow> \<not> (IsPathSeparator a \<and> IsPathSeparator b) \<and> no_double (b # s)"
| "no_double _ \<longleftrightarrow> True"

definition normal_path :: "FilePath \<Rightarrow> bool" where
  "normal_path p \<longleftrightarrow> no_double (pathname p) \<and> 0 \<notin> set (pathname p)"

text \<open>The names between the separators.\<close>

definition components :: "bytes \<Rightarrow> bytes list" where
  "components s = filter (\<lambda>c. c \<noteq> []) (SplitString kPathSeparator s)"

text \<open>What the callers of \<open>stat\<close> and \<open>mkdir\<close> rely on.\<close>

locale directory_calls =
  fixes stat :: "bytes \<Rightarrow> 'w \<Rightarrow> bool option \<times> 'w"
    and mkdir :: "bytes \<Rightarrow> 'w \<Rightarrow> bool \<times> 'w"
    and is_dir :: "bytes \<Rightarrow> 'w \<Rightarrow> bool"
  assumes stat_dir: "stat p w = (Some True, w') \<Longrightarrow> is_dir p w'"
    and mkdir_dir: "mkdir p w = (True, w') \<Longrightarrow> is_dir p w'"
    and stat_keeps: "stat p w = (r, w') \<Longrightarrow> is_dir q w \<Longrightarrow> is_dir q w'"
    and mkdir_keeps: "mkdir p w = (b, w') \<Longrightarrow> is_dir q w \<Longrightarrow> is_dir q w'"

section \<open>Lemmas\<close>

subsection \<open>Normal paths\<close>

lemma no_double_Cons:
  "no_double (a # s) \<longleftrightarrow> (s \<noteq> [] \<longrightarrow> \<not> (IsPathSeparator a \<and> IsPathSeparator (hd s))) \<and> no_double s"
  by (cases s) auto

lemma no_double_append:
  "no_double (s @ t) \<longleftrightarrow>
     no_double s \<and> no_double t \<and> (s \<noteq> [] \<and> t \<noteq> [] \<longrightarrow> \<not> (IsPathSeparator (last s) \<and> IsPathSeparator (hd t)))"
  by (induction s) (auto simp: no_double_Cons)

declare no_double.simps(1) [simp del]

lemma set_Normalize_loop: "set (Normalize_loop s) \<subseteq> set s"
  by (induction s rule: Normalize_loop.induct) (auto dest: set_dropWhileD)

lemma Normalize_loop_no_double: "no_double (Normalize_loop s)"
proof (induction s rule: Normalize_loop.induct)
  case 1
  show ?case by simp
next
  case (2 c src)
  have h: "Normalize_loop t \<noteq> [] \<and> hd (Normalize_loop t) = hd t" if "t \<noteq> []" for t
    using that by (cases t) auto
  show ?case
  proof (cases "IsPathSeparator c")
    case False
    then show ?thesis using 2 by (simp add: no_double_Cons)
  next
    case True
    let ?t = "dropWhile IsPathSeparator src"
    have "?t \<noteq> [] \<Longrightarrow> \<not> IsPathSeparator (hd ?t)" by (simp add: hd_dropWhile)
    then have "Normalize_loop ?t \<noteq> [] \<Longrightarrow> \<not> IsPathSeparator (hd (Normalize_loop ?t))"
      using h [of ?t] by (cases "?t = []") auto
    then show ?thesis using 2 True by (simp add: no_double_Cons)
  qed
qed

lemma Normalize_loop_id: "no_double s \<Longrightarrow> Normalize_loop s = s"
proof (induction s rule: Normalize_loop.induct)
  case (2 c src)
  then show ?case by (cases src) (auto simp: no_double_Cons)
qed simp

lemma until_nul_id [simp]: "0 \<notin> set s \<Longrightarrow> until_nul s = s"
  by (auto simp: until_nul_def takeWhile_eq_all_conv)

lemma FilePath_new_normal [simp]: "normal_path (FilePath_new s)"
  using set_Normalize_loop [of "until_nul s"]
  by (auto simp: normal_path_def FilePath_new_def Normalize_def Normalize_loop_no_double)

lemma FilePath_new_id: "no_double s \<Longrightarrow> 0 \<notin> set s \<Longrightarrow> FilePath_new s = \<lparr>pathname = s\<rparr>"
  by (simp add: FilePath_new_def Normalize_def Normalize_loop_id)

text \<open>
  The operations of \<open>FilePath\<close> that make paths from paths and strings keep them normal: no two adjacent separators.
\<close>

theorem FilePath_stays_normal:
  assumes "normal_path p" and "normal_path q"
  shows "normal_path FilePath_default \<and> normal_path (FilePath_new s) \<and> normal_path (FilePath_Set q p) \<and>
    normal_path (RemoveTrailingPathSeparator p) \<and> normal_path (RemoveDirectoryName p) \<and>
    normal_path (RemoveFileName p) \<and> normal_path (RemoveExtension p s) \<and> normal_path (ConcatPaths p q) \<and>
    normal_path (MakeFileName p q n s)"
proof -
  have "normal_path (FilePath_Set q p)" using assms(1) by (simp add: FilePath_Set_def normal_path_def)
  moreover have "normal_path FilePath_default" by (simp add: FilePath_default_def normal_path_def)
  moreover have concat: "normal_path (ConcatPaths p r)" if "normal_path r" for r
    using that by (simp add: ConcatPaths_def Let_def)
  ultimately show ?thesis
    using assms
    by (simp add: RemoveTrailingPathSeparator_def RemoveDirectoryName_def RemoveFileName_def RemoveExtension_def
        MakeFileName_def Let_def split: option.split)
qed

theorem FilePath_stays_normal_witness:
  "normal_path (ConcatPaths (FilePath_new (lit ''a//b/'')) (FilePath_new (lit ''/c'')))"
  using FilePath_stays_normal [OF FilePath_new_normal [of "lit ''a//b/''"] FilePath_new_normal [of "lit ''/c''"]]
  by blast

subsection \<open>What normalising keeps\<close>

lemma SplitString_Cons:
  "SplitString d (c # s) =
     (if c = d then [] # SplitString d s else (c # hd (SplitString d s)) # tl (SplitString d s))"
proof (cases "c = d")
  case True
  then show ?thesis by (subst SplitString.simps) simp
next
  case False
  show ?thesis
  proof (cases "d \<in> set s")
    case True
    then show ?thesis using False by (subst (1 2 3) SplitString.simps) (simp add: Let_def)
  next
    case notin: False
    then show ?thesis using False by (simp add: SplitString.simps)
  qed
qed

lemma SplitString_Nil [simp]: "SplitString d [] = [[]]"
  by (simp add: SplitString.simps)

lemma SplitString_nonempty [simp]: "SplitString d s \<noteq> []"
  by (cases s) (simp_all add: SplitString_Cons)

lemma hd_SplitString: "hd (SplitString d s) = [] \<longleftrightarrow> s = [] \<or> hd s = d"
  by (cases s) (simp_all add: SplitString_Cons)

lemma components_sep [simp]: "IsPathSeparator c \<Longrightarrow> components (c # s) = components s"
  by (simp add: components_def SplitString_Cons IsPathSeparator_def)

lemma components_other:
  assumes "\<not> IsPathSeparator c"
  shows "components (c # s) =
    (if s = [] \<or> IsPathSeparator (hd s) then [c] # components s
     else (c # hd (components s)) # tl (components s))"
proof (cases "SplitString kPathSeparator s")
  case Nil
  then show ?thesis by simp
next
  case (Cons h r)
  then show ?thesis
    using assms hd_SplitString [of kPathSeparator s]
    by (auto simp: components_def SplitString_Cons IsPathSeparator_def)
qed

lemma components_nonempty: "s \<noteq> [] \<Longrightarrow> \<not> IsPathSeparator (hd s) \<Longrightarrow> components s \<noteq> []"
  by (cases s) (simp_all add: components_other)

lemma components_dropWhile [simp]: "components (dropWhile IsPathSeparator s) = components s"
  by (induction s) simp_all

lemma components_Nil [simp]: "components [] = []"
  by (simp add: components_def)

text \<open>The reference: the names joined by single separators, with those at the ends if there were any.\<close>

definition squeezed :: "bytes \<Rightarrow> bytes" where
  "squeezed s =
     (if s \<noteq> [] \<and> IsPathSeparator (hd s) then [kPathSeparator] else []) @
     joined kPathSeparator (components s) @
     (if components s \<noteq> [] \<and> IsPathSeparator (last s) then [kPathSeparator] else [])"

lemma all_separators: "components s = [] \<longleftrightarrow> (\<forall>c \<in> set s. IsPathSeparator c)"
proof (induction s)
  case (Cons a s)
  then show ?case by (cases "IsPathSeparator a") (auto simp: components_other)
qed simp

lemma joined_Cons_hd: "cs \<noteq> [] \<Longrightarrow> joined d ((c # hd cs) # tl cs) = c # joined d cs"
  by (cases cs) auto

text \<open>
  \<open>Normalize\<close> only removes redundant separators: its result is the names between the separators,
  joined by one separator each, with one at the start and one at the end if the path had any there.
\<close>

theorem Normalize_squeezes:
  "pathname (Normalize p) = squeezed (until_nul (pathname p))"
proof -
  have "Normalize_loop s = squeezed s" for s
  proof (induction s rule: Normalize_loop.induct)
    case 1
    show ?case by (simp add: squeezed_def)
  next
    case (2 c src)
    show ?case
    proof (cases "IsPathSeparator c")
      case True
      let ?t = "dropWhile IsPathSeparator src"
      have IH: "Normalize_loop ?t = squeezed ?t" using 2 True by simp
      show ?thesis
      proof (cases "?t = []")
        case t: True
        then have "components src = []" by (metis components_dropWhile components_Nil)
        then have "squeezed (c # src) = [c]" using True by (simp add: squeezed_def IsPathSeparator_def)
        moreover have "Normalize_loop (c # src) = [c]"
          using True by (simp add: t del: dropWhile_eq_Nil_conv)
        ultimately show ?thesis by simp
      next
        case False
        have "src \<noteq> []" using False by auto
        moreover have "last src = last ?t"
          using False by (metis last_appendR takeWhile_dropWhile_id)
        ultimately show ?thesis
          using True False hd_dropWhile [OF False] IH by (simp add: squeezed_def) (simp add: IsPathSeparator_def)
      qed
    next
      case False
      have IH: "Normalize_loop src = squeezed src" using 2 False by simp
      consider "src = []" | "src \<noteq> []" "IsPathSeparator (hd src)" | "src \<noteq> []" "\<not> IsPathSeparator (hd src)" by blast
      then show ?thesis
      proof cases
        case 1
        then show ?thesis using False by (simp add: squeezed_def components_other)
      next
        case 2
        have "components src = [] \<Longrightarrow> IsPathSeparator (last src)"
          using 2(1) by (simp add: all_separators)
        then show ?thesis using False 2 IH by (simp add: squeezed_def components_other IsPathSeparator_def)
      next
        case 3
        have "components src \<noteq> []" using components_nonempty 3 by blast
        then show ?thesis using False 3 IH joined_Cons_hd by (simp add: squeezed_def components_other del: joined.simps)
      qed
    qed
  qed
  then show ?thesis by (simp add: Normalize_def)
qed

subsection \<open>Directory and file name\<close>

lemma IsDirectory_snoc [simp]: "IsDirectory \<lparr>pathname = s @ [c]\<rparr> \<longleftrightarrow> IsPathSeparator c"
  by (simp add: IsDirectory_def)

lemma separator [simp]: "IsPathSeparator kPathSeparator" "kPathSeparator \<noteq> 0"
  by (simp_all add: IsPathSeparator_def kPathSeparator_def)

lemma RemoveTrailing_snoc:
  "no_double s \<Longrightarrow> 0 \<notin> set s \<Longrightarrow>
    RemoveTrailingPathSeparator \<lparr>pathname = s @ [kPathSeparator]\<rparr> = \<lparr>pathname = s\<rparr>"
  by (simp add: RemoveTrailingPathSeparator_def FilePath_new_id)

lemma strrchr_None: "path_strrchr s c = None \<longleftrightarrow> c \<notin> set s"
  by (induction s) (auto split: option.splits)

lemma strrchr_Some:
  "path_strrchr s c = Some i \<Longrightarrow> i < length s \<and> s ! i = c \<and> c \<notin> set (drop (i + 1) s)"
proof (induction s arbitrary: i)
  case (Cons x s)
  then show ?case by (cases "path_strrchr s c") (auto simp: strrchr_None split: if_splits)
qed simp

lemma RemoveFileName_normal: "normal_path p \<Longrightarrow> normal_path (RemoveFileName p)"
  by (simp add: RemoveFileName_def split: option.split)

lemma split_path:
  assumes "normal_path p" and "kPathSeparator \<in> set (pathname p)"
  shows "pathname (RemoveFileName p) @ pathname (RemoveDirectoryName p) = pathname p \<and>
    IsDirectory (RemoveFileName p) \<and> kPathSeparator \<notin> set (pathname (RemoveDirectoryName p)) \<and>
    ConcatPaths (RemoveFileName p) (RemoveDirectoryName p) = p"
proof -
  let ?s = "pathname p"
  have nul: "until_nul ?s = ?s" using assms(1) by (simp add: normal_path_def)
  obtain i where i: "path_strrchr ?s kPathSeparator = Some i"
    using assms(2) strrchr_None by (metis option.exhaust)
  note si = strrchr_Some [OF i]
  have split: "no_double (take i ?s @ [kPathSeparator])" "no_double (drop (i + 1) ?s)" "no_double (take i ?s)"
    "?s = (take i ?s @ [kPathSeparator]) @ drop (i + 1) ?s"
  proof -
    show e: "?s = (take i ?s @ [kPathSeparator]) @ drop (i + 1) ?s"
      using si by (metis Suc_eq_plus1 append.assoc append_Cons append_Nil id_take_nth_drop)
    have n: "no_double ((take i ?s @ [kPathSeparator]) @ drop (i + 1) ?s)"
      using assms(1) e by (simp add: normal_path_def)
    then show "no_double (take i ?s @ [kPathSeparator])" "no_double (drop (i + 1) ?s)" "no_double (take i ?s)"
      unfolding no_double_append [of "take i ?s @ [kPathSeparator]"] no_double_append [of "take i ?s"] by blast+
  qed
  have nn: "0 \<notin> set (take n ?s)" "0 \<notin> set (drop n ?s)" for n
    using assms(1) by (auto simp: normal_path_def dest: in_set_takeD in_set_dropD)
  have t: "take (Suc i) ?s = take i ?s @ [kPathSeparator]" using si by (simp add: take_Suc_conv_app_nth)
  have f: "RemoveFileName p = \<lparr>pathname = take i ?s @ [kPathSeparator]\<rparr>"
    using i split(1) nn(1) [of "Suc i"] unfolding RemoveFileName_def FindLastPathSeparator_def nul
    by (simp add: FilePath_new_id t)
  have d: "RemoveDirectoryName p = \<lparr>pathname = drop (i + 1) ?s\<rparr>"
    using i split(2) nn(2) [of "i + 1"] unfolding RemoveDirectoryName_def FindLastPathSeparator_def nul
    by (simp add: FilePath_new_id)
  have r: "RemoveTrailingPathSeparator (RemoveFileName p) = \<lparr>pathname = take i ?s\<rparr>"
    using split(3) nn(1) [of i] unfolding f by (rule RemoveTrailing_snoc)
  have "ConcatPaths (RemoveFileName p) (RemoveDirectoryName p) = FilePath_new ?s"
    unfolding ConcatPaths_def Let_def r using split(4) by (simp add: f d IsEmpty_def)
  also have "\<dots> = p" using assms(1) by (cases p) (simp add: FilePath_new_id normal_path_def)
  finally show ?thesis
    using si split(4) by (simp add: f d)
qed

text \<open>
  A normal path with a separator is split in two by \<open>RemoveFileName\<close>, which returns a directory, and
  \<open>RemoveDirectoryName\<close>, which returns a name without separators; \<open>ConcatPaths\<close> puts them together again.
\<close>

theorem directory_and_file:
  assumes "normal_path p" and "kPathSeparator \<in> set (pathname p)"
  shows "pathname (RemoveFileName p) @ pathname (RemoveDirectoryName p) = pathname p \<and>
    IsDirectory (RemoveFileName p) \<and> kPathSeparator \<notin> set (pathname (RemoveDirectoryName p)) \<and>
    ConcatPaths (RemoveFileName p) (RemoveDirectoryName p) = p"
  by (rule split_path [OF assms])

theorem directory_and_file_witness:
  "ConcatPaths (RemoveFileName (FilePath_new (lit ''path/to/file''))) (RemoveDirectoryName (FilePath_new (lit ''path/to/file''))) =
    FilePath_new (lit ''path/to/file'')"
proof -
  have "kPathSeparator \<in> set (pathname (FilePath_new (lit ''path/to/file'')))" by code_simp
  from directory_and_file [OF FilePath_new_normal this] show ?thesis by blast
qed

text \<open>
  The comment on \<open>RemoveFileName\<close> says that \<open>/a_file\<close> becomes \<open>./\<close>; the code returns the root.
\<close>

lemma RemoveFileName_root: "RemoveFileName (FilePath_new (lit ''/a_file'')) = \<lparr>pathname = lit ''/''\<rparr>"
  by code_simp

subsection \<open>Creating directories\<close>

context directory_calls
begin

lemma DirectoryExists_dir: "DirectoryExists stat p w = (True, w') \<Longrightarrow> is_dir (pathname p) w'"
  using stat_dir by (auto simp: DirectoryExists_def split: prod.splits)

lemma DirectoryExists_keeps: "DirectoryExists stat p w = (b, w') \<Longrightarrow> is_dir q w \<Longrightarrow> is_dir q w'"
  using stat_keeps by (auto simp: DirectoryExists_def split: prod.splits)

lemma CreateFolder_dir: "CreateFolder stat mkdir p w = (True, w') \<Longrightarrow> is_dir (pathname p) w'"
  using mkdir_dir DirectoryExists_dir by (auto simp: CreateFolder_def split: prod.splits bool.splits)

lemma CreateFolder_keeps: "CreateFolder stat mkdir p w = (b, w') \<Longrightarrow> is_dir q w \<Longrightarrow> is_dir q w'"
  using mkdir_keeps DirectoryExists_keeps by (auto simp: CreateFolder_def split: prod.splits bool.splits)

lemma made_directory:
  assumes "CreateDirectoriesRecursively stat mkdir p w = Some r"
  shows "(fst r \<and> pathname p \<noteq> [] \<longrightarrow> is_dir (pathname p) (snd r)) \<and> (\<forall>q. is_dir q w \<longrightarrow> is_dir q (snd r))"
proof -
  let ?P = "\<lambda>st mk p w r. st = stat \<and> mk = mkdir \<longrightarrow>
    (fst r \<and> pathname p \<noteq> [] \<longrightarrow> is_dir (pathname p) (snd r)) \<and> (\<forall>q. is_dir q w \<longrightarrow> is_dir q (snd r))"
  have "?P stat mkdir p w r"
    using _ assms
  proof (rule CreateDirectoriesRecursively.raw_induct [where P = ?P])
    fix f :: "'w stat_call \<Rightarrow> 'w mkdir_call \<Rightarrow> FilePath \<Rightarrow> 'w \<Rightarrow> (bool \<times> 'w) option"
      and st mk p w r
    assume IH: "\<And>st mk p w r. f st mk p w = Some r \<Longrightarrow> ?P st mk p w r"
      and e: "(if \<not> IsDirectory p then Some (False, w)
        else if pathname p = [] then Some (True, w)
        else case DirectoryExists st p w of (exists, w1) \<Rightarrow>
          if exists then Some (True, w1)
          else let parent = RemoveFileName (RemoveTrailingPathSeparator p)
            in Option.bind (f st mk parent w1) (\<lambda>(made, w2).
              if made then Some (CreateFolder st mk p w2) else Some (False, w2))) = Some r"
    show "?P st mk p w r"
    proof
      assume same: "st = stat \<and> mk = mkdir"
      obtain ex w1 where d: "DirectoryExists stat p w = (ex, w1)" by (cases "DirectoryExists stat p w")
      show "(fst r \<and> pathname p \<noteq> [] \<longrightarrow> is_dir (pathname p) (snd r)) \<and> (\<forall>q. is_dir q w \<longrightarrow> is_dir q (snd r))"
      proof (cases "IsDirectory p \<and> pathname p \<noteq> [] \<and> \<not> ex")
        case False
        then have "r = (False, w) \<or> r = (True, w) \<and> pathname p = [] \<or> r = (True, w1) \<and> ex"
          using e by (auto simp: same d split: if_splits)
        then show ?thesis using d DirectoryExists_dir [of p w w1] DirectoryExists_keeps [OF d] by fastforce
      next
        case True
        then obtain made w2 where f: "f stat mkdir (RemoveFileName (RemoveTrailingPathSeparator p)) w1 = Some (made, w2)"
          and r: "r = (if made then CreateFolder stat mkdir p w2 else (False, w2))"
          using e same d by (auto simp: bind_eq_Some_conv split: if_splits)
        have k: "is_dir q w \<Longrightarrow> is_dir q w2" for q
          using IH [OF f] DirectoryExists_keeps [OF d] by auto
        show ?thesis
        proof (cases made)
          case True
          then obtain b3 w3 where c: "CreateFolder stat mkdir p w2 = (b3, w3)" "r = (b3, w3)"
            using r by (cases "CreateFolder stat mkdir p w2") simp
          then show ?thesis
            using k CreateFolder_dir [of p w2 w3] CreateFolder_keeps [OF c(1)] by auto
        next
          case False
          then show ?thesis using r k by auto
        qed
      qed
    qed
  qed
  then show ?thesis by blast
qed

end

text \<open>The calls of the modelled world: each may fail, as its script says.\<close>

definition world_stat :: "World stat_call" where
  "world_stat name w =
     (case c_stat name w of
        (None, w1) \<Rightarrow> (None, w1)
      | (Some n, w1) \<Rightarrow> (Some (disk w1 name = None), w1))"

definition world_mkdir :: "World mkdir_call" where
  "world_mkdir name w = (case c_mkdir name w of (r, w1) \<Rightarrow> (r \<noteq> - 1, w1))"

lemma c_stat_keeps: "c_stat p w = (r, w1) \<Longrightarrow> dirs w1 = dirs w \<and> disk w1 = disk w"
  by (rule take_outcomeE [of w]) (auto simp: c_stat_def same_world_def split: if_splits option.splits)

lemma c_mkdir_keeps:
  "c_mkdir p w = (r, w1) \<Longrightarrow> (r \<noteq> - 1 \<longrightarrow> dirs w1 p \<noteq> None) \<and> (dirs w q \<noteq> None \<longrightarrow> dirs w1 q \<noteq> None)"
  by (rule take_outcomeE [of w]) (auto simp: c_mkdir_def same_world_def split: if_splits)

interpretation world_dirs: directory_calls world_stat world_mkdir "\<lambda>p w. dirs w p \<noteq> None"
proof unfold_locales
  fix p w w' r b q
  show "world_stat p w = (Some True, w') \<Longrightarrow> dirs w' p \<noteq> None"
    by (rule take_outcomeE [of w])
      (auto simp: world_stat_def c_stat_def same_world_def simp del: not_None_eq split: if_splits option.splits prod.splits)
  show "world_stat p w = (r, w') \<Longrightarrow> dirs w q \<noteq> None \<Longrightarrow> dirs w' q \<noteq> None"
    using c_stat_keeps [of p w] by (auto simp: world_stat_def split: option.splits prod.splits)
  show "world_mkdir p w = (True, w') \<Longrightarrow> dirs w' p \<noteq> None"
    and "world_mkdir p w = (b, w') \<Longrightarrow> dirs w q \<noteq> None \<Longrightarrow> dirs w' q \<noteq> None"
    using c_mkdir_keeps [of p w] by (auto simp: world_mkdir_def simp del: not_None_eq split: prod.splits)
qed

text \<open>
  When \<open>CreateDirectoriesRecursively\<close> returns true for a path, the directory exists, and no directory that
  existed before is gone, whatever calls of the system failed on the way.
\<close>

theorem CreateDirectoriesRecursively_creates:
  assumes "CreateDirectoriesRecursively world_stat world_mkdir p w = Some (made, w')"
  shows "(made \<and> pathname p \<noteq> [] \<longrightarrow> dirs w' (pathname p) \<noteq> None) \<and> (\<forall>q. dirs w q \<noteq> None \<longrightarrow> dirs w' q \<noteq> None)"
  using world_dirs.made_directory [OF assms] by simp

subsection \<open>Whether it returns\<close>

definition dot :: FilePath where "dot = FilePath_new kCurrentDirectoryString"

lemma dot_name: "kCurrentDirectoryString \<noteq> []"
  by (simp add: kCurrentDirectoryString_def)

lemma dot_parent:
  "RemoveFileName (RemoveTrailingPathSeparator dot) = dot" "IsDirectory dot" "pathname dot = kCurrentDirectoryString"
  by code_simp+

lemma separators_less:
  assumes "IsDirectory p" and "normal_path p" and "pathname p \<noteq> kCurrentDirectoryString"
  shows "let q = RemoveFileName (RemoveTrailingPathSeparator p) in
    q = dot \<or>
    (normal_path q \<and> IsDirectory q \<and>
      count_list (pathname q) kPathSeparator < count_list (pathname p) kPathSeparator)"
proof -
  obtain s where s: "pathname p = s @ [kPathSeparator]"
    using assms(1) by (cases "pathname p" rule: rev_cases) (auto simp: IsDirectory_def IsPathSeparator_def)
  have n: "no_double s" "0 \<notin> set s" using assms(2) s by (simp_all add: normal_path_def no_double_append)
  have p: "p = \<lparr>pathname = s @ [kPathSeparator]\<rparr>" using s by (cases p) simp
  have r: "RemoveTrailingPathSeparator p = \<lparr>pathname = s\<rparr>" unfolding p by (rule RemoveTrailing_snoc [OF n])
  let ?q = "RemoveFileName \<lparr>pathname = s\<rparr>"
  show ?thesis
  proof (cases "kPathSeparator \<in> set s")
    case False
    then have "path_strrchr s kPathSeparator = None" by (simp add: strrchr_None)
    then have "?q = dot"
      using n by (simp add: RemoveFileName_def FindLastPathSeparator_def dot_def)
    then show ?thesis by (simp add: r)
  next
    case True
    have norm: "normal_path \<lparr>pathname = s\<rparr>" using n by (simp add: normal_path_def)
    note q = split_path [OF norm, simplified, OF True]
    have "count_list (pathname ?q @ pathname (RemoveDirectoryName \<lparr>pathname = s\<rparr>)) kPathSeparator = count_list s kPathSeparator"
      using q by simp
    then have "count_list (pathname ?q) kPathSeparator \<le> count_list s kPathSeparator" by simp
    moreover have "normal_path ?q" by (rule RemoveFileName_normal [OF norm])
    ultimately show ?thesis using q s by (simp add: r Let_def)
  qed
qed

lemma world_stat_dir:
  assumes "dirs w n \<noteq> None" and "disk w n = None" and "world_stat n w = (r, w1)"
  shows "(r = Some True \<or> length (script w1) < length (script w)) \<and> dirs w1 = dirs w \<and> disk w1 = disk w"
  using assms
  by (auto simp: world_stat_def c_stat_def take_outcome_def fail_with_def split: list.splits if_splits prod.splits)

lemma CreateDirectories_step:
  assumes "IsDirectory p"
  shows "CreateDirectoriesRecursively stat mkdir p w =
    (case DirectoryExists stat p w of (exists, w1) \<Rightarrow>
       if exists then Some (True, w1)
       else Option.bind (CreateDirectoriesRecursively stat mkdir (RemoveFileName (RemoveTrailingPathSeparator p)) w1)
         (\<lambda>(made, w2). if made then Some (CreateFolder stat mkdir p w2) else Some (False, w2)))"
proof -
  have "pathname p \<noteq> []" using assms by (auto simp: IsDirectory_def)
  then show ?thesis
    unfolding CreateDirectoriesRecursively.simps [of stat mkdir p w] Let_def using assms by simp
qed

lemma bind_returns: "\<exists>r. Option.bind (Some x) (\<lambda>(made, w2). if made then Some (f w2) else Some (False, w2)) = Some r"
  by (cases x) auto

lemma dot_returns:
  assumes "dirs w kCurrentDirectoryString \<noteq> None" and "disk w kCurrentDirectoryString = None"
  shows "\<exists>r. CreateDirectoriesRecursively world_stat world_mkdir dot w = Some r"
  using assms
proof (induction "length (script w)" arbitrary: w rule: less_induct)
  case less
  obtain r w1 where s: "world_stat kCurrentDirectoryString w = (r, w1)" by (cases "world_stat kCurrentDirectoryString w")
  note w1 = world_stat_dir [OF less.prems s]
  have d: "DirectoryExists world_stat dot w = (r = Some True, w1)"
    using s by (simp add: DirectoryExists_def dot_parent(3))
  show ?case
  proof (cases "r = Some True")
    case True
    then show ?thesis using CreateDirectories_step [OF dot_parent(2), of world_stat world_mkdir w] d by auto
  next
    case False
    then obtain x where "CreateDirectoriesRecursively world_stat world_mkdir dot w1 = Some x"
      using less.hyps [of w1] w1 less.prems by auto
    then show ?thesis
      using CreateDirectories_step [OF dot_parent(2), of world_stat world_mkdir w] d False by (simp only: dot_parent(1) prod.case if_False bind_returns)
  qed
qed

lemma DirectoryExists_world:
  "DirectoryExists world_stat p w = (b, w1) \<Longrightarrow> dirs w1 = dirs w \<and> disk w1 = disk w"
  using c_stat_keeps by (auto simp: DirectoryExists_def world_stat_def split: prod.splits option.splits)

text \<open>
  If the current directory exists, \<open>CreateDirectoriesRecursively\<close> returns for every path, whatever finite
  pattern of errors the system calls show.
\<close>

theorem CreateDirectoriesRecursively_returns:
  assumes "normal_path p" and "dirs w kCurrentDirectoryString \<noteq> None" and "disk w kCurrentDirectoryString = None"
  shows "\<exists>made w'. CreateDirectoriesRecursively world_stat world_mkdir p w = Some (made, w')"
  using assms
proof (induction "count_list (pathname p) kPathSeparator" arbitrary: p w rule: less_induct)
  case less
  obtain ex w1 where d: "DirectoryExists world_stat p w = (ex, w1)" by (cases "DirectoryExists world_stat p w")
  have w1: "dirs w1 kCurrentDirectoryString \<noteq> None" "disk w1 kCurrentDirectoryString = None"
    using DirectoryExists_world [OF d] less.prems by simp_all
  let ?q = "RemoveFileName (RemoveTrailingPathSeparator p)"
  consider "\<not> IsDirectory p" | "IsDirectory p" "ex" | "p = dot" | "IsDirectory p" "\<not> ex" "pathname p \<noteq> kCurrentDirectoryString"
    using dot_parent(3) by (metis FilePath.equality old.unit.exhaust)
  then show ?case
  proof cases
    case 1
    then show ?thesis by (subst CreateDirectoriesRecursively.simps) auto
  next
    case 2
    then show ?thesis using CreateDirectories_step [OF 2(1), of world_stat world_mkdir w] d 2(2) by auto
  next
    case 3
    then show ?thesis using dot_returns [OF less.prems(2,3)] by auto
  next
    case 4
    have "\<exists>x. CreateDirectoriesRecursively world_stat world_mkdir ?q w1 = Some x"
      using separators_less [OF 4(1) less.prems(1) 4(3)] less.hyps [of ?q w1] dot_returns w1 by (auto simp: Let_def)
    then show ?thesis
      using CreateDirectories_step [OF 4(1), of world_stat world_mkdir w] d 4(2) bind_returns by fastforce
  qed
qed

theorem CreateDirectoriesRecursively_returns_witness:
  "\<forall>e1 e2. \<exists>made w'. CreateDirectoriesRecursively world_stat world_mkdir (FilePath_new (lit ''a/b/''))
    \<lparr>disk = (\<lambda>_. None), streams = (\<lambda>_. None), fds = (\<lambda>_. None), maps = (\<lambda>_. None), next_handle = 0,
     durable = (\<lambda>_. None), fd_syncs = [], held = {}, foreign = {}, dirs = [kCurrentDirectoryString \<mapsto> []],
     environ = (\<lambda>_. None), script = [(0, e1), (0, e2)], err_no = 0, strerror = (\<lambda>_. [])\<rparr> = Some (made, w')"
  by (intro allI CreateDirectoriesRecursively_returns) simp_all

text \<open>If \<open>stat\<close> never finds the current directory, the recursion does not end.\<close>

lemma CreateDirectoriesRecursively_diverges:
  assumes "\<And>w. fst (stat kCurrentDirectoryString w) \<noteq> Some True"
  shows "CreateDirectoriesRecursively stat mkdir dot w = None"
proof (rule ccontr)
  let ?P = "\<lambda>st mk p w r. st = stat \<and> p = dot \<longrightarrow> False"
  assume "CreateDirectoriesRecursively stat mkdir dot w \<noteq> None"
  then obtain r where r: "CreateDirectoriesRecursively stat mkdir dot w = Some r" by auto
  have "?P stat mkdir dot w r"
    using _ r
  proof (rule CreateDirectoriesRecursively.raw_induct [where P = ?P])
    fix f st mk p w r
    assume IH: "\<And>st mk p w r. f st mk p w = Some r \<Longrightarrow> ?P st mk p w r"
      and e: "(if \<not> IsDirectory p then Some (False, w)
        else if pathname p = [] then Some (True, w)
        else case DirectoryExists st p w of (exists, w1) \<Rightarrow>
          if exists then Some (True, w1)
          else let parent = RemoveFileName (RemoveTrailingPathSeparator p)
            in Option.bind (f st mk parent w1) (\<lambda>(made, w2).
              if made then Some (CreateFolder st mk p w2) else Some (False, w2))) = Some r"
    show "?P st mk p w r"
    proof
      assume p: "st = stat \<and> p = dot"
      obtain w1 where "DirectoryExists stat dot w = (False, w1)"
        using assms [of w] by (cases "stat kCurrentDirectoryString w") (auto simp: DirectoryExists_def dot_parent(3))
      then obtain x where "f stat mk dot w1 = Some x"
        using e p by (auto simp: dot_parent bind_eq_Some_conv Let_def dot_name)
      then show False using IH by blast
    qed
  qed
  then show False by blast
qed

subsection \<open>Unique names\<close>

lemma decimal_digits: "set (decimal n) \<subseteq> {48..57}"
proof (induction n rule: decimal.induct)
  case (1 n)
  have d: "(of_nat (48 + k) :: byte) \<in> {48..57}" if "k < 10" for k
    using that unat_of_nat_small [of "48 + k", where 'a = 8] by (simp add: word_le_nat_alt del: of_nat_add)
  show ?case using 1 d [of n] d [of "n mod 10"] by (subst decimal.simps) auto
qed

primrec from_digits :: "bytes \<Rightarrow> nat \<Rightarrow> nat" where
  "from_digits [] acc = acc"
| "from_digits (c # s) acc = from_digits s (acc * 10 + (unat c - 48))"

lemma from_digits_append: "from_digits (s @ t) acc = from_digits t (from_digits s acc)"
  by (induction s arbitrary: acc) auto

lemma from_digits_decimal: "from_digits (decimal n) 0 = n"
proof (induction n rule: decimal.induct)
  case (1 n)
  have "unat (of_nat (48 + k) :: byte) - 48 = k" if "k < 10" for k
    using that by (simp add: unat_of_nat_small del: of_nat_add)
  then show ?case using 1 by (subst decimal.simps) (auto simp: from_digits_append simp del: of_nat_add)
qed

lemma decimal_inject: "decimal m = decimal n \<longleftrightarrow> m = n"
  by (metis from_digits_decimal)

lemma Normalize_loop_append:
  assumes "v \<noteq> []" and "\<not> IsPathSeparator (hd v)"
  shows "Normalize_loop (u @ v) = Normalize_loop u @ Normalize_loop v"
proof (induction u rule: Normalize_loop.induct)
  case (2 c src)
  have "dropWhile IsPathSeparator (src @ v) = dropWhile IsPathSeparator src @ v"
    using assms by (induction src) (auto simp: neq_Nil_conv)
  then show ?case using 2 by auto
qed simp

lemma Normalize_loop_names: "\<forall>c \<in> set u. \<not> IsPathSeparator c \<Longrightarrow> Normalize_loop (u @ v) = u @ Normalize_loop v"
  by (induction u) auto

lemma until_nul_append: "0 \<notin> set u \<Longrightarrow> until_nul (u @ v) = u @ until_nul v"
  by (induction u) (auto simp: until_nul_def)

lemma decimal_plain: "0 \<notin> set (decimal n)" "\<forall>c \<in> set (decimal n). \<not> IsPathSeparator c"
  using decimal_digits [of n] by (auto simp: IsPathSeparator_def kPathSeparator_def)

text \<open>The name contains the number, between parts that do not depend on it.\<close>

lemma MakeFileName_form:
  assumes "normal_path directory" and "normal_path base_name"
  shows "\<exists>x y. \<forall>n. n \<noteq> 0 \<longrightarrow> pathname (MakeFileName directory base_name (int n) extension) = x @ decimal n @ y"
proof -
  let ?b = "pathname base_name" and ?e = "until_nul extension"
  have names: "Normalize_loop (u @ [95] @ decimal n @ [46] @ v) = Normalize_loop u @ [95] @ decimal n @ [46] @ Normalize_loop v" for u v n
  proof -
    have "Normalize_loop ([95] @ decimal n @ [46] @ v) = ([95] @ decimal n @ [46]) @ Normalize_loop v"
      using Normalize_loop_names [of "[95] @ decimal n @ [46]" v] decimal_plain(2) [of n]
      by (auto simp: IsPathSeparator_def kPathSeparator_def)
    then show ?thesis by (subst Normalize_loop_append) (simp_all add: IsPathSeparator_def kPathSeparator_def)
  qed
  have b: "Normalize_loop ?b = ?b" "0 \<notin> set ?b" using assms(2) by (simp_all add: normal_path_def Normalize_loop_id)
  have fl: "pathname (FilePath_new (?b @ [95] @ decimal n @ [46] @ extension)) =
      ?b @ [95] @ decimal n @ [46] @ Normalize_loop ?e" for n
  proof -
    have "until_nul (?b @ [95] @ decimal n @ [46] @ extension) = ?b @ [95] @ decimal n @ [46] @ ?e"
      using until_nul_append [of "?b @ [95] @ decimal n @ [46]" extension] b(2) decimal_plain(1) by simp
    then show ?thesis using names by (simp only: FilePath_new_def Normalize_def FilePath.simps b(1))
  qed
  have e: "0 \<notin> set (Normalize_loop ?e)" using set_Normalize_loop [of ?e] until_nul_nonzero by blast
  show ?thesis
  proof (cases "IsEmpty directory")
    case True
    then have "pathname (MakeFileName directory base_name (int n) extension) =
        (?b @ [95]) @ decimal n @ ([46] @ Normalize_loop ?e)" if "n \<noteq> 0" for n
      using that fl [of n] by (simp add: MakeFileName_def ConcatPaths_def decimal_int_def)
    then show ?thesis by blast
  next
    case False
    let ?d = "pathname (RemoveTrailingPathSeparator directory) @ [kPathSeparator]"
    have d: "0 \<notin> set ?d"
      using assms(1) FilePath_new_normal by (simp add: RemoveTrailingPathSeparator_def normal_path_def)
    have "pathname (MakeFileName directory base_name (int n) extension) =
        (Normalize_loop (?d @ ?b) @ [95]) @ decimal n @ ([46] @ Normalize_loop (Normalize_loop ?e))" if "n \<noteq> 0" for n
    proof -
      have "pathname (MakeFileName directory base_name (int n) extension) =
          pathname (FilePath_new (?d @ ?b @ [95] @ decimal n @ [46] @ Normalize_loop ?e))"
        using that False fl [of n] by (simp add: MakeFileName_def ConcatPaths_def decimal_int_def Let_def)
      also have "\<dots> = Normalize_loop (until_nul (?d @ ?b @ [95] @ decimal n @ [46] @ Normalize_loop ?e))"
        by (simp add: FilePath_new_def Normalize_def)
      also have "until_nul (?d @ ?b @ [95] @ decimal n @ [46] @ Normalize_loop ?e) =
          (?d @ ?b) @ [95] @ decimal n @ [46] @ Normalize_loop ?e"
        using d b(2) decimal_plain(1) e by simp
      finally show ?thesis using names [of "?d @ ?b" n "Normalize_loop ?e"] by simp
    qed
    then show ?thesis by blast
  qed
qed

text \<open>
  In a file system with finitely many names, \<open>GenerateUniqueFileName\<close> returns, and what it returns is the
  first of the numbered names that does not exist.
\<close>

theorem GenerateUniqueFileName_fresh:
  assumes "normal_path directory" and "normal_path base_name" and "finite {n. ex n \<noteq> None}"
  shows "\<exists>k. GenerateUniqueFileName (\<lambda>n w. (ex n, w)) directory base_name extension 0 w =
      Some (MakeFileName directory base_name (int k) extension, w) \<and>
    ex (pathname (MakeFileName directory base_name (int k) extension)) = None \<and>
    (\<forall>j < k. ex (pathname (MakeFileName directory base_name (int j) extension)) \<noteq> None)"
proof -
  let ?name = "\<lambda>n. pathname (MakeFileName directory base_name (int n) extension)"
  obtain x y where xy: "\<And>n. n \<noteq> 0 \<Longrightarrow> ?name n = x @ decimal n @ y"
    using MakeFileName_form [OF assms(1,2)] by blast
  have "inj_on ?name {0<..}" by (auto simp: inj_on_def xy decimal_inject)
  then have "infinite (?name ` {0<..})" by (simp add: finite_image_iff infinite_Ioi)
  then obtain n where "ex (?name n) = None" using assms(3) by (metis (mono_tags, lifting) finite_subset image_subsetI mem_Collect_eq)
  then obtain k where k: "ex (?name k) = None" "\<forall>j < k. ex (?name j) \<noteq> None"
    using exists_least_iff [of "\<lambda>n. ex (?name n) = None"] by blast
  have "GenerateUniqueFileName (\<lambda>n w. (ex n, w)) directory base_name extension (int j) w =
      Some (MakeFileName directory base_name (int k) extension, w)" if "j \<le> k" for j
    using that
  proof (induction j rule: inc_induct)
    case base
    then show ?case using k(1)
      by (subst GenerateUniqueFileName.simps) (simp add: FileOrDirectoryExists_def Let_def)
  next
    case (step j)
    have "ex (?name j) \<noteq> None" using k(2) step by blast
    then show ?case using step(3)
      by (subst GenerateUniqueFileName.simps) (simp add: FileOrDirectoryExists_def Let_def add.commute)
  qed
  then have "GenerateUniqueFileName (\<lambda>n w. (ex n, w)) directory base_name extension (int 0) w =
      Some (MakeFileName directory base_name (int k) extension, w)" by blast
  then show ?thesis using k by auto
qed

theorem GenerateUniqueFileName_fresh_witness:
  "\<exists>k. GenerateUniqueFileName (\<lambda>n w. ((if n = lit ''d/t.xml'' then Some False else None), w))
    (FilePath_new (lit ''d/'')) (FilePath_new (lit ''t'')) (lit ''xml'') 0 () =
      Some (MakeFileName (FilePath_new (lit ''d/'')) (FilePath_new (lit ''t'')) (int k) (lit ''xml''), ())"
proof -
  let ?ex = "\<lambda>n. if n = lit ''d/t.xml'' then Some False else None :: bool option"
  have "finite {n. ?ex n \<noteq> None}" by (rule finite_subset [of _ "{lit ''d/t.xml''}"]) auto
  from GenerateUniqueFileName_fresh [OF FilePath_new_normal [of "lit ''d/''"] FilePath_new_normal [of "lit ''t''"] this,
      of "lit ''xml''" "()"]
  show ?thesis by blast
qed

end
