(* ===== verification/Gtest_Edit.thy ===== *)
theory Gtest_Edit
  imports Gtest_String
begin

text \<open>
  The differences that failure messages of the test library show (namespace \<open>edit_distance\<close> and
  \<open>EqFailure\<close> in src/libs/googletest/src/gtest.cc): the table of edits between two
  lists, and its rendering as a unified diff. The costs are floating-point numbers in the code;
  here they are of any linearly ordered type, with the three operations the code does on them
  as a parameter. The lemmas show that the edits transform one list into the other, and that
  the hunks of the diff patch the first list into the second.
\<close>

section \<open>Definitions\<close>

subsection \<open>The table of edits\<close>

datatype EditType = kMatch | kAdd | kRemove | kReplace

record 'c costs =
  cost_of_index :: "nat \<Rightarrow> 'c"
  cost_plus_1 :: "'c \<Rightarrow> 'c"
  cost_plus_replace :: "'c \<Rightarrow> 'c"

type_synonym 'x table = "'x list list"

definition table_get :: "'x table \<Rightarrow> nat \<Rightarrow> nat \<Rightarrow> 'x res" where
  "table_get t i j = (if i < length t \<and> j < length (t ! i) then Inr (t ! i ! j) else Inl Out_of_bounds)"

definition table_put :: "'x table \<Rightarrow> nat \<Rightarrow> nat \<Rightarrow> 'x \<Rightarrow> 'x table res" where
  "table_put t i j x =
     (if i < length t \<and> j < length (t ! i) then Inr (t[i := (t ! i)[j := x]]) else Inl Out_of_bounds)"

text \<open>The two tables, of costs and of best moves.\<close>

type_synonym 'c tables = "'c table \<times> EditType table"

definition put_both :: "'c tables \<Rightarrow> nat \<Rightarrow> nat \<Rightarrow> 'c \<Rightarrow> EditType \<Rightarrow> 'c tables res" where
  "put_both st i j c m =
     rbind (table_put (fst st) i j c) (\<lambda>costs. rbind (table_put (snd st) i j m) (\<lambda>best_move. Inr (costs, best_move)))"

primrec fill_left :: "'c costs \<Rightarrow> nat list \<Rightarrow> 'c tables \<Rightarrow> 'c tables res" where
  "fill_left ops [] st = Inr st"
| "fill_left ops (l_i # is) st =
     rbind (put_both st l_i 0 (cost_of_index ops l_i) kRemove) (fill_left ops is)"

primrec fill_top :: "'c costs \<Rightarrow> nat list \<Rightarrow> 'c tables \<Rightarrow> 'c tables res" where
  "fill_top ops [] st = Inr st"
| "fill_top ops (r_i # is) st =
     rbind (put_both st 0 r_i (cost_of_index ops r_i) kAdd) (fill_top ops is)"

text \<open>The body of the two nested loops.\<close>

definition fill_cell :: "'c :: linorder costs \<Rightarrow> 'a list \<Rightarrow> 'a list \<Rightarrow> nat \<Rightarrow> nat \<Rightarrow> 'c tables \<Rightarrow> 'c tables res" where
  "fill_cell ops left right l_i r_i st =
     (if left ! l_i = right ! r_i then
        rbind (table_get (fst st) l_i r_i) (\<lambda>c. put_both st (l_i + 1) (r_i + 1) c kMatch)
      else
        rbind (table_get (fst st) (l_i + 1) r_i) (\<lambda>add.
        rbind (table_get (fst st) l_i (r_i + 1)) (\<lambda>remove.
        rbind (table_get (fst st) l_i r_i) (\<lambda>replace.
        if add < remove \<and> add < replace then put_both st (l_i + 1) (r_i + 1) (cost_plus_1 ops add) kAdd
        else if remove < add \<and> remove < replace
        then put_both st (l_i + 1) (r_i + 1) (cost_plus_1 ops remove) kRemove
        else put_both st (l_i + 1) (r_i + 1) (cost_plus_replace ops replace) kReplace))))"

primrec fill_row :: "'c :: linorder costs \<Rightarrow> 'a list \<Rightarrow> 'a list \<Rightarrow> nat \<Rightarrow> nat list \<Rightarrow> 'c tables \<Rightarrow> 'c tables res" where
  "fill_row ops left right l_i [] st = Inr st"
| "fill_row ops left right l_i (r_i # is) st =
     rbind (fill_cell ops left right l_i r_i st) (fill_row ops left right l_i is)"

primrec fill_rows :: "'c :: linorder costs \<Rightarrow> 'a list \<Rightarrow> 'a list \<Rightarrow> nat list \<Rightarrow> 'c tables \<Rightarrow> 'c tables res" where
  "fill_rows ops left right [] st = Inr st"
| "fill_rows ops left right (l_i # is) st =
     rbind (fill_row ops left right l_i [0..<length right] st) (fill_rows ops left right is)"

text \<open>The path back from the last cell; an index below zero wraps and is outside the table.\<close>

function best_path :: "EditType table \<Rightarrow> nat \<Rightarrow> nat \<Rightarrow> EditType list res" where
  "best_path best_move l_i r_i =
     (if l_i > 0 \<or> r_i > 0 then
        rbind (table_get best_move l_i r_i) (\<lambda>move.
        if move \<noteq> kAdd \<and> l_i = 0 \<or> move \<noteq> kRemove \<and> r_i = 0 then Inl Out_of_bounds
        else rbind (best_path best_move (if move \<noteq> kAdd then l_i - 1 else l_i)
                      (if move \<noteq> kRemove then r_i - 1 else r_i)) (\<lambda>path. Inr (move # path)))
      else Inr [])"
  by pat_completeness auto
termination
  by (relation "measure (\<lambda>(b, l, r). l + r)") (auto split: if_splits)

definition CalculateOptimalEdits :: "'c :: linorder costs \<Rightarrow> 'a list \<Rightarrow> 'a list \<Rightarrow> EditType list res" where
  "CalculateOptimalEdits ops left right =
     (let costs = replicate (length left + 1) (replicate (length right + 1) (cost_of_index ops 0));
          best_move = replicate (length left + 1) (replicate (length right + 1) kMatch)
      in rbind (fill_left ops [0..<length left + 1] (costs, best_move)) (\<lambda>st1.
         rbind (fill_top ops [1..<length right + 1] st1) (\<lambda>st2.
         rbind (fill_rows ops left right [0..<length left] st2) (\<lambda>(_, moves).
         rbind (best_path moves (length left) (length right)) (\<lambda>path. Inr (rev path))))))"

subsection \<open>Strings as numbers\<close>

record InternalStrings =
  ids :: "(bytes \<times> nat) list"

definition GetId :: "InternalStrings \<Rightarrow> bytes \<Rightarrow> nat \<times> InternalStrings" where
  "GetId t str =
     (case map_of (ids t) str of
        Some i \<Rightarrow> (i, t)
      | None \<Rightarrow> (length (ids t), t\<lparr>ids := ids t @ [(str, length (ids t))]\<rparr>))"

primrec intern_all :: "InternalStrings \<Rightarrow> bytes list \<Rightarrow> nat list \<times> InternalStrings" where
  "intern_all t [] = ([], t)"
| "intern_all t (s # ss) =
     (case GetId t s of (i, t1) \<Rightarrow> case intern_all t1 ss of (is, t2) \<Rightarrow> (i # is, t2))"

definition CalculateOptimalEdits_strings ::
  "'c :: linorder costs \<Rightarrow> bytes list \<Rightarrow> bytes list \<Rightarrow> EditType list res" where
  "CalculateOptimalEdits_strings ops left right =
     (case intern_all \<lparr>ids = []\<rparr> left of (left_ids, t1) \<Rightarrow>
      case intern_all t1 right of (right_ids, t2) \<Rightarrow>
        CalculateOptimalEdits ops left_ids right_ids)"

subsection \<open>Hunks\<close>

record Hunk =
  left_start :: nat
  right_start :: nat
  adds :: nat
  removes :: nat
  common :: nat
  hunk_lines :: "(byte \<times> bytes) list"
  hunk_adds :: "(byte \<times> bytes) list"
  hunk_removes :: "(byte \<times> bytes) list"

definition Hunk_new :: "nat \<Rightarrow> nat \<Rightarrow> Hunk" where
  "Hunk_new l r = \<lparr>left_start = l, right_start = r, adds = 0, removes = 0, common = 0,
     hunk_lines = [], hunk_adds = [], hunk_removes = []\<rparr>"

definition FlushEdits :: "Hunk \<Rightarrow> Hunk" where
  "FlushEdits h =
     h\<lparr>hunk_lines := hunk_lines h @ hunk_removes h @ hunk_adds h, hunk_removes := [], hunk_adds := []\<rparr>"

abbreviation space :: byte where "space \<equiv> 32"
abbreviation minus_sign :: byte where "minus_sign \<equiv> 45"
abbreviation plus_sign :: byte where "plus_sign \<equiv> 43"

definition PushLine :: "byte \<Rightarrow> bytes \<Rightarrow> Hunk \<Rightarrow> Hunk" where
  "PushLine edit line h =
     (if edit = space then
        (let h1 = FlushEdits (h\<lparr>common := common h + 1\<rparr>) in h1\<lparr>hunk_lines := hunk_lines h1 @ [(space, line)]\<rparr>)
      else if edit = minus_sign then
        h\<lparr>removes := removes h + 1, hunk_removes := hunk_removes h @ [(minus_sign, line)]\<rparr>
      else if edit = plus_sign then
        h\<lparr>adds := adds h + 1, hunk_adds := hunk_adds h @ [(plus_sign, line)]\<rparr>
      else h)"

definition has_edits :: "Hunk \<Rightarrow> bool" where
  "has_edits h \<longleftrightarrow> adds h \<noteq> 0 \<or> removes h \<noteq> 0"

definition PrintHeader :: "Hunk \<Rightarrow> bytes" where
  "PrintHeader h =
     lit ''@@ '' @
     (if removes h \<noteq> 0 then lit ''-'' @ decimal (left_start h) @ lit '','' @ decimal (removes h + common h) else []) @
     (if removes h \<noteq> 0 \<and> adds h \<noteq> 0 then lit '' '' else []) @
     (if adds h \<noteq> 0 then lit ''+'' @ decimal (right_start h) @ lit '','' @ decimal (adds h + common h) else []) @
     lit '' @@'' @ [10]"

definition PrintTo :: "Hunk \<Rightarrow> bytes" where
  "PrintTo h = PrintHeader h @ concat (map (\<lambda>(c, line). c # line @ [10]) (hunk_lines (FlushEdits h)))"

subsection \<open>The unified diff\<close>

definition vec_at :: "'x list \<Rightarrow> nat \<Rightarrow> 'x res" where
  "vec_at xs i = (if i < length xs then Inr (xs ! i) else Inl Out_of_bounds)"

text \<open>Subtraction of two \<open>size_t\<close>.\<close>

definition size_sub :: "nat \<Rightarrow> nat \<Rightarrow> nat" where
  "size_sub a b = (if b \<le> a then a - b else a + 2 ^ 64 - b)"

text \<open>The loops take the edits from \<open>edit_i\<close> on.\<close>

fun skip_matches :: "nat \<Rightarrow> nat \<Rightarrow> EditType list \<Rightarrow> nat \<times> nat \<times> EditType list" where
  "skip_matches l_i r_i (kMatch # edits) = skip_matches (l_i + 1) (r_i + 1) edits"
| "skip_matches l_i r_i edits = (l_i, r_i, edits)"

primrec push_prefix :: "bytes list \<Rightarrow> nat \<Rightarrow> nat \<Rightarrow> Hunk \<Rightarrow> Hunk res" where
  "push_prefix left l_i 0 h = Inr h"
| "push_prefix left l_i (Suc i) h =
     rbind (vec_at left (size_sub l_i (Suc i))) (\<lambda>line. push_prefix left l_i i (PushLine space (until_nul line) h))"

definition next_edit_far :: "nat \<Rightarrow> EditType list \<Rightarrow> bool" where
  "next_edit_far context_lines edits =
     (let it = length (takeWhile (\<lambda>e. e = kMatch) edits) in it = length edits \<or> context_lines \<le> it)"

fun hunk_loop ::
  "bytes list \<Rightarrow> bytes list \<Rightarrow> nat \<Rightarrow> nat \<Rightarrow> nat \<Rightarrow> nat \<Rightarrow> EditType list \<Rightarrow> Hunk \<Rightarrow> (nat \<times> nat \<times> EditType list \<times> Hunk) res" where
  "hunk_loop left right context_lines n_suffix l_i r_i [] h = Inr (l_i, r_i, [], h)"
| "hunk_loop left right context_lines n_suffix l_i r_i (edit # edits) h =
     (if context_lines \<le> n_suffix \<and> next_edit_far context_lines (edit # edits)
      then Inr (l_i, r_i, edit # edits, h)
      else
        let n = (if edit = kMatch then n_suffix + 1 else 0)
        in rbind (if edit = kMatch \<or> edit = kRemove \<or> edit = kReplace
                  then rbind (vec_at left l_i) (\<lambda>line.
                         Inr (PushLine (if edit = kMatch then space else minus_sign) (until_nul line) h))
                  else Inr h) (\<lambda>h1.
           rbind (if edit = kAdd \<or> edit = kReplace
                  then rbind (vec_at right r_i) (\<lambda>line. Inr (PushLine plus_sign (until_nul line) h1))
                  else Inr h1) (\<lambda>h2.
           hunk_loop left right context_lines n (if edit \<noteq> kAdd then l_i + 1 else l_i)
             (if edit \<noteq> kRemove then r_i + 1 else r_i) edits h2)))"

lemma hunk_loop_progress:
  "hunk_loop left right context_lines n l r edits h = Inr (l', r', edits', h') \<Longrightarrow>
     length edits' < length edits \<or> (edits' = edits \<and> h' = h)"
proof (induction edits arbitrary: n l r h)
  case (Cons e es)
  then show ?case
    by (auto simp: Let_def rbind_eq_Inr split: if_splits) (metis less_SucI less_Suc_eq lessI)+
qed simp

lemma PushLine_space_has_edits [simp]: "has_edits (PushLine space line h) = has_edits h"
  by (simp add: PushLine_def FlushEdits_def has_edits_def Let_def)

lemma push_prefix_has_edits: "push_prefix left l_i n h = Inr h' \<Longrightarrow> has_edits h' = has_edits h"
  by (induction n arbitrary: h) (fastforce simp: rbind_eq_Inr)+

lemma skip_matches_length: "skip_matches l r edits = (l', r', edits') \<Longrightarrow> length edits' \<le> length edits"
  by (induction l r edits rule: skip_matches.induct) auto

lemma diff_terminates:
  assumes "skip_matches l r edits = (l1, r1, edits1)" and "push_prefix left l1 p (Hunk_new a b) = Inr h1"
    and "hunk_loop left right c 0 l1 r1 edits1 h1 = Inr (l2, r2, edits2, h2)" and "has_edits h2"
  shows "length edits2 < length edits"
proof -
  have "\<not> has_edits h1" using push_prefix_has_edits [OF assms(2)] by (simp add: Hunk_new_def has_edits_def)
  then have "length edits2 < length edits1" using hunk_loop_progress [OF assms(3)] assms(4) by auto
  then show ?thesis using skip_matches_length [OF assms(1)] by simp
qed

text \<open>The hunks of the diff, in the order in which they are printed.\<close>

function diff_hunks :: "bytes list \<Rightarrow> bytes list \<Rightarrow> nat \<Rightarrow> nat \<Rightarrow> nat \<Rightarrow> EditType list \<Rightarrow> Hunk list res" where
  "diff_hunks left right context_lines l_i r_i edits =
     (if edits = [] then Inr []
      else
        case skip_matches l_i r_i edits of (l1, r1, edits1) \<Rightarrow>
          let prefix_context = min l1 context_lines;
              hunk = Hunk_new (size_sub l1 prefix_context + 1) (size_sub r1 prefix_context + 1)
          in rbind (push_prefix left l1 prefix_context hunk) (\<lambda>hunk1.
             rbind (hunk_loop left right context_lines 0 l1 r1 edits1 hunk1) (\<lambda>(l2, r2, edits2, hunk2).
             if \<not> has_edits hunk2 then Inr []
             else rbind (diff_hunks left right context_lines l2 r2 edits2) (\<lambda>hunks. Inr (hunk2 # hunks)))))"
  by pat_completeness auto
termination
  by (relation "measure (\<lambda>(left, right, c, l, r, edits). length edits)") (auto intro: diff_terminates [OF sym])

definition CreateUnifiedDiff :: "'c :: linorder costs \<Rightarrow> bytes list \<Rightarrow> bytes list \<Rightarrow> nat \<Rightarrow> bytes res" where
  "CreateUnifiedDiff ops left right context_lines =
     rbind (CalculateOptimalEdits_strings ops left right) (\<lambda>edits.
     rbind (diff_hunks left right context_lines 0 0 edits) (\<lambda>hunks. Inr (concat (map PrintTo hunks))))"

subsection \<open>Specification\<close>

text \<open>Edits that turn the first list into the second.\<close>

fun follows :: "EditType list \<Rightarrow> 'a list \<Rightarrow> 'a list \<Rightarrow> bool" where
  "follows [] xs ys \<longleftrightarrow> xs = [] \<and> ys = []"
| "follows (kMatch # es) (x # xs) (y # ys) \<longleftrightarrow> x = y \<and> follows es xs ys"
| "follows (kReplace # es) (x # xs) (y # ys) \<longleftrightarrow> x \<noteq> y \<and> follows es xs ys"
| "follows (kRemove # es) (x # xs) ys \<longleftrightarrow> follows es xs ys"
| "follows (kAdd # es) xs (y # ys) \<longleftrightarrow> follows es xs ys"
| "follows _ _ _ \<longleftrightarrow> False"

definition table_ok :: "'x table \<Rightarrow> nat \<Rightarrow> nat \<Rightarrow> bool" where
  "table_ok t n m \<longleftrightarrow> length t = n \<and> (\<forall>i < n. length (t ! i) = m)"

abbreviation tables_ok :: "'c tables \<Rightarrow> nat \<Rightarrow> nat \<Rightarrow> bool" where
  "tables_ok st n m \<equiv> table_ok (fst st) n m \<and> table_ok (snd st) n m"

definition moves_ok :: "EditType table \<Rightarrow> 'a list \<Rightarrow> 'a list \<Rightarrow> bool" where
  "moves_ok b left right \<longleftrightarrow>
     table_ok b (length left + 1) (length right + 1) \<and>
     (\<forall>i. 0 < i \<and> i \<le> length left \<longrightarrow> b ! i ! 0 = kRemove) \<and>
     (\<forall>j. 0 < j \<and> j \<le> length right \<longrightarrow> b ! 0 ! j = kAdd) \<and>
     (\<forall>i < length left. \<forall>j < length right. b ! Suc i ! Suc j = kMatch \<longleftrightarrow> left ! i = right ! j)"

section \<open>Lemmas\<close>

subsection \<open>The table\<close>

lemma follows_append: "follows es xs ys \<Longrightarrow> follows fs us vs \<Longrightarrow> follows (es @ fs) (xs @ us) (ys @ vs)"
  by (induction es xs ys rule: follows.induct) auto

lemma table_ok_replicate: "table_ok (replicate n (replicate m x)) n m"
  by (simp add: table_ok_def)

lemma Suc_image [simp]: "Suc x \<in> Suc ` A \<longleftrightarrow> x \<in> A"
  by auto

lemma table_get_ok: "table_ok t n m \<Longrightarrow> i < n \<Longrightarrow> j < m \<Longrightarrow> table_get t i j = Inr (t ! i ! j)"
  by (simp add: table_ok_def table_get_def)

text \<open>Writing one cell of both tables.\<close>

lemma put_both_ok:
  assumes "tables_ok st n m" and "i < n" and "j < m"
  shows "\<exists>st'. put_both st i j c e = Inr st' \<and> tables_ok st' n m \<and>
    (\<forall>a < n. \<forall>b < m. snd st' ! a ! b = (if a = i \<and> b = j then e else snd st ! a ! b))"
proof -
  have "table_ok (t[i := (t ! i)[j := x]]) n m" if "table_ok t n m" for t and x :: 'x
    using that assms(2) by (auto simp: table_ok_def nth_list_update)
  then show ?thesis
    using assms by (auto simp: put_both_def table_put_def table_ok_def nth_list_update)
qed

lemma fill_left_ok:
  assumes "tables_ok st n m" and "\<forall>i \<in> set is. i < n" and "0 < m"
  shows "\<exists>st'. fill_left ops is st = Inr st' \<and> tables_ok st' n m \<and>
    (\<forall>a < n. \<forall>b < m. snd st' ! a ! b = (if b = 0 \<and> a \<in> set is then kRemove else snd st ! a ! b))"
  using assms
proof (induction "is" arbitrary: st)
  case (Cons i "is")
  obtain st1 where st1: "put_both st i 0 (cost_of_index ops i) kRemove = Inr st1" "tables_ok st1 n m"
    "\<forall>a < n. \<forall>b < m. snd st1 ! a ! b = (if a = i \<and> b = 0 then kRemove else snd st ! a ! b)"
    using put_both_ok [OF Cons.prems(1) _ Cons.prems(3)] Cons.prems(2) by (metis list.set_intros(1))
  then show ?case using Cons.IH [OF st1(2)] Cons.prems by auto
qed simp

lemma fill_top_ok:
  assumes "tables_ok st n m" and "\<forall>i \<in> set is. i < m" and "0 < n"
  shows "\<exists>st'. fill_top ops is st = Inr st' \<and> tables_ok st' n m \<and>
    (\<forall>a < n. \<forall>b < m. snd st' ! a ! b = (if a = 0 \<and> b \<in> set is then kAdd else snd st ! a ! b))"
  using assms
proof (induction "is" arbitrary: st)
  case (Cons i "is")
  obtain st1 where st1: "put_both st 0 i (cost_of_index ops i) kAdd = Inr st1" "tables_ok st1 n m"
    "\<forall>a < n. \<forall>b < m. snd st1 ! a ! b = (if a = 0 \<and> b = i then kAdd else snd st ! a ! b)"
    using put_both_ok [OF Cons.prems(1) Cons.prems(3)] Cons.prems(2) by (metis list.set_intros(1))
  then show ?case using Cons.IH [OF st1(2)] Cons.prems by auto
qed simp

lemma fill_cell_ok:
  assumes "tables_ok st (length left + 1) (length right + 1)" and "l < length left" and "r < length right"
  shows "\<exists>st'. fill_cell ops left right l r st = Inr st' \<and> tables_ok st' (length left + 1) (length right + 1) \<and>
    (snd st' ! Suc l ! Suc r = kMatch \<longleftrightarrow> left ! l = right ! r) \<and>
    (\<forall>a < length left + 1. \<forall>b < length right + 1. a \<noteq> Suc l \<or> b \<noteq> Suc r \<longrightarrow> snd st' ! a ! b = snd st ! a ! b)"
proof -
  have g: "table_get (fst st) i j = Inr (fst st ! i ! j)" if "i \<le> Suc l" "j \<le> Suc r" for i j
    using that assms by (intro table_get_ok) auto
  have p: "\<exists>st'. put_both st (Suc l) (Suc r) c e = Inr st' \<and> tables_ok st' (length left + 1) (length right + 1) \<and>
      snd st' ! Suc l ! Suc r = e \<and>
      (\<forall>a < length left + 1. \<forall>b < length right + 1. a \<noteq> Suc l \<or> b \<noteq> Suc r \<longrightarrow> snd st' ! a ! b = snd st ! a ! b)" for c e
    using put_both_ok [OF assms(1), of "Suc l" "Suc r" c e] assms(2,3) by auto
  have "\<exists>c e. fill_cell ops left right l r st = put_both st (Suc l) (Suc r) c e \<and> (e = kMatch \<longleftrightarrow> left ! l = right ! r)"
    by (auto simp: fill_cell_def g)
  then show ?thesis using p by metis
qed

lemma fill_row_ok:
  assumes "tables_ok st (length left + 1) (length right + 1)" and "l < length left" and "\<forall>r \<in> set is. r < length right"
  shows "\<exists>st'. fill_row ops left right l is st = Inr st' \<and> tables_ok st' (length left + 1) (length right + 1) \<and>
    (\<forall>r \<in> set is. snd st' ! Suc l ! Suc r = kMatch \<longleftrightarrow> left ! l = right ! r) \<and>
    (\<forall>a < length left + 1. \<forall>b < length right + 1. a \<noteq> Suc l \<or> b \<notin> Suc ` set is \<longrightarrow> snd st' ! a ! b = snd st ! a ! b)"
  using assms
proof (induction "is" arbitrary: st)
  case (Cons r "is")
  have rl: "r < length right" using Cons.prems(3) by simp
  obtain st1 where st1: "fill_cell ops left right l r st = Inr st1" "tables_ok st1 (length left + 1) (length right + 1)"
    "snd st1 ! Suc l ! Suc r = kMatch \<longleftrightarrow> left ! l = right ! r"
    "\<forall>a < length left + 1. \<forall>b < length right + 1. a \<noteq> Suc l \<or> b \<noteq> Suc r \<longrightarrow> snd st1 ! a ! b = snd st ! a ! b"
    using fill_cell_ok [OF Cons.prems(1,2) rl] by blast
  obtain st2 where st2: "fill_row ops left right l is st1 = Inr st2" "tables_ok st2 (length left + 1) (length right + 1)"
    "\<forall>r \<in> set is. snd st2 ! Suc l ! Suc r = kMatch \<longleftrightarrow> left ! l = right ! r"
    "\<forall>a < length left + 1. \<forall>b < length right + 1. a \<noteq> Suc l \<or> b \<notin> Suc ` set is \<longrightarrow> snd st2 ! a ! b = snd st1 ! a ! b"
    using Cons.IH [OF st1(2)] Cons.prems by auto
  have "snd st2 ! Suc l ! Suc r = kMatch \<longleftrightarrow> left ! l = right ! r"
    using st2(3) st2(4) [rule_format, of "Suc l" "Suc r"] st1(3) Cons.prems(2) rl by (cases "r \<in> set is") auto
  then show ?case using st1 st2 by (intro exI [of _ st2]) auto
qed simp

lemma fill_rows_ok:
  assumes "tables_ok st (length left + 1) (length right + 1)" and "\<forall>l \<in> set is. l < length left"
  shows "\<exists>st'. fill_rows ops left right is st = Inr st' \<and> tables_ok st' (length left + 1) (length right + 1) \<and>
    (\<forall>l \<in> set is. \<forall>r < length right. snd st' ! Suc l ! Suc r = kMatch \<longleftrightarrow> left ! l = right ! r) \<and>
    (\<forall>a < length left + 1. \<forall>b < length right + 1. a \<notin> Suc ` set is \<or> b = 0 \<longrightarrow> snd st' ! a ! b = snd st ! a ! b)"
  using assms
proof (induction "is" arbitrary: st)
  case (Cons l "is")
  have ll: "l < length left" using Cons.prems(2) by simp
  obtain st1 where st1: "fill_row ops left right l [0..<length right] st = Inr st1"
    "tables_ok st1 (length left + 1) (length right + 1)"
    "\<forall>r \<in> {0..<length right}. snd st1 ! Suc l ! Suc r = kMatch \<longleftrightarrow> left ! l = right ! r"
    "\<forall>a < length left + 1. \<forall>b < length right + 1. a \<noteq> Suc l \<or> b \<notin> Suc ` {0..<length right} \<longrightarrow> snd st1 ! a ! b = snd st ! a ! b"
    using fill_row_ok [OF Cons.prems(1) ll, of "[0..<length right]" ops] by auto
  obtain st2 where st2: "fill_rows ops left right is st1 = Inr st2" "tables_ok st2 (length left + 1) (length right + 1)"
    "\<forall>l \<in> set is. \<forall>r < length right. snd st2 ! Suc l ! Suc r = kMatch \<longleftrightarrow> left ! l = right ! r"
    "\<forall>a < length left + 1. \<forall>b < length right + 1. a \<notin> Suc ` set is \<or> b = 0 \<longrightarrow> snd st2 ! a ! b = snd st1 ! a ! b"
    using Cons.IH [OF st1(2)] Cons.prems by auto
  have "snd st2 ! Suc l ! Suc r = kMatch \<longleftrightarrow> left ! l = right ! r" if "r < length right" for r
    using st2(3) st2(4) [rule_format, of "Suc l" "Suc r"] st1(3) ll that by (cases "l \<in> set is") auto
  then show ?case using st1 st2 by (intro exI [of _ st2]) auto
qed simp

declare best_path.simps [simp del] diff_hunks.simps [simp del] hunk_loop.simps(2) [simp del]

lemma best_path_ok:
  assumes "moves_ok b left right" and "l \<le> length left" and "r \<le> length right"
  shows "\<exists>p. best_path b l r = Inr p \<and> follows (rev p) (take l left) (take r right)"
  using assms(2,3)
proof (induction "l + r" arbitrary: l r rule: less_induct)
  case less
  show ?case
  proof (cases "l = 0 \<and> r = 0")
    case True
    then show ?thesis by (simp add: best_path.simps)
  next
    case False
    have get: "table_get b l r = Inr (b ! l ! r)"
      using assms(1) less.prems by (intro table_get_ok) (auto simp: moves_ok_def)
    define e where "e = b ! l ! r"
    have edge: "l = 0 \<Longrightarrow> e = kAdd" "r = 0 \<Longrightarrow> e = kRemove"
      using assms(1) less.prems False by (auto simp: moves_ok_def e_def)
    let ?l = "if e \<noteq> kAdd then l - 1 else l" and ?r = "if e \<noteq> kRemove then r - 1 else r"
    have "?l + ?r < l + r" using edge False by (cases e; cases l; cases r) auto
    moreover have "?l \<le> length left" "?r \<le> length right" using less.prems by auto
    ultimately obtain p where p: "best_path b ?l ?r = Inr p" "follows (rev p) (take ?l left) (take ?r right)"
      using less.hyps [of ?l ?r] by blast
    have "e \<noteq> kAdd \<Longrightarrow> take l left = take (l - 1) left @ [left ! (l - 1)]"
      using edge(1) less.prems(1) by (cases l) (auto simp: take_Suc_conv_app_nth)
    moreover have "e \<noteq> kRemove \<Longrightarrow> take r right = take (r - 1) right @ [right ! (r - 1)]"
      using edge(2) less.prems(2) by (cases r) (auto simp: take_Suc_conv_app_nth)
    moreover have "e = kMatch \<longleftrightarrow> left ! (l - 1) = right ! (r - 1)" if nz: "l \<noteq> 0" "r \<noteq> 0"
    proof -
      obtain l0 where "l = Suc l0" using nz(1) by (cases l) auto
      moreover obtain r0 where "r = Suc r0" using nz(2) by (cases r) auto
      ultimately show ?thesis using assms(1) less.prems by (simp add: moves_ok_def e_def)
    qed
    ultimately have "follows (rev p @ [e]) (take l left) (take r right)"
      using edge follows_append [OF p(2), of "[e]" "if e \<noteq> kAdd then [left ! (l - 1)] else []"
          "if e \<noteq> kRemove then [right ! (r - 1)] else []"]
      by (cases e; cases "l = 0"; cases "r = 0") auto
    moreover have "best_path b l r = Inr (e # p)"
      using get p(1) edge False by (subst best_path.simps) (auto simp: e_def)
    ultimately show ?thesis by auto
  qed
qed

lemma follows_CalculateOptimalEdits:
  "\<exists>es. CalculateOptimalEdits ops left right = Inr es \<and> follows es left right"
proof -
  let ?n = "length left + 1" and ?m = "length right + 1"
  let ?st = "(replicate ?n (replicate ?m (cost_of_index ops 0)), replicate ?n (replicate ?m kMatch))"
  have ok0: "tables_ok ?st ?n ?m" by (simp only: fst_conv snd_conv table_ok_replicate)
  obtain st1 where st1: "fill_left ops [0..<?n] ?st = Inr st1" "tables_ok st1 ?n ?m"
    "\<forall>a < ?n. \<forall>b < ?m. snd st1 ! a ! b = (if b = 0 \<and> a \<in> set [0..<?n] then kRemove else snd ?st ! a ! b)"
    using fill_left_ok [OF ok0, of "[0..<?n]" ops, OF ballI] by (metis atLeastLessThan_iff atLeastLessThan_upt zero_less_Suc Suc_eq_plus1)
  obtain st2 where st2: "fill_top ops [1..<?m] st1 = Inr st2" "tables_ok st2 ?n ?m"
    "\<forall>a < ?n. \<forall>b < ?m. snd st2 ! a ! b = (if a = 0 \<and> b \<in> set [1..<?m] then kAdd else snd st1 ! a ! b)"
    using fill_top_ok [OF st1(2), of "[1..<?m]" ops, OF ballI] by (metis atLeastLessThan_iff atLeastLessThan_upt zero_less_Suc Suc_eq_plus1)
  obtain st3 where st3: "fill_rows ops left right [0..<length left] st2 = Inr st3" "tables_ok st3 ?n ?m"
    "\<forall>l \<in> set [0..<length left]. \<forall>r < length right. snd st3 ! Suc l ! Suc r = kMatch \<longleftrightarrow> left ! l = right ! r"
    "\<forall>a < ?n. \<forall>b < ?m. a \<notin> Suc ` set [0..<length left] \<or> b = 0 \<longrightarrow> snd st3 ! a ! b = snd st2 ! a ! b"
    using fill_rows_ok [OF st2(2), of "[0..<length left]" ops] by auto
  have "snd st3 ! i ! 0 = kRemove" if "0 < i" "i \<le> length left" for i
    using st3(4) [rule_format, of i 0] st2(3) [rule_format, of i 0] st1(3) [rule_format, of i 0] that by auto
  moreover have "snd st3 ! 0 ! j = kAdd" if "0 < j" "j \<le> length right" for j
    using st3(4) [rule_format, of 0 j] st2(3) [rule_format, of 0 j] that by auto
  ultimately have "moves_ok (snd st3) left right"
    using st3(2,3) by (auto simp: moves_ok_def)
  then obtain p where "best_path (snd st3) (length left) (length right) = Inr p" "follows (rev p) left right"
    using best_path_ok [of "snd st3" left right "length left" "length right"] by auto
  then have "CalculateOptimalEdits ops left right = Inr (rev p)"
    using st1(1) st2(1) st3(1) unfolding CalculateOptimalEdits_def Let_def
    by (simp only: rbind_Inr) (simp add: case_prod_beta)
  then show ?thesis using \<open>follows (rev p) left right\<close> by blast
qed

subsection \<open>Strings as numbers\<close>

definition ids_ok :: "InternalStrings \<Rightarrow> bool" where
  "ids_ok t \<longleftrightarrow> distinct (map fst (ids t)) \<and> map snd (ids t) = [0..<length (ids t)]"

definition name_of :: "InternalStrings \<Rightarrow> nat \<Rightarrow> bytes" where
  "name_of t i = fst (ids t ! i)"

lemma GetId_ok:
  assumes "ids_ok t" and "GetId t s = (i, t')"
  shows "ids_ok t' \<and> i < length (ids t') \<and> name_of t' i = s \<and>
    length (ids t) \<le> length (ids t') \<and> (\<forall>j < length (ids t). name_of t' j = name_of t j)"
proof (cases "map_of (ids t) s")
  case None
  then have "s \<notin> fst ` set (ids t)" by (simp add: map_of_eq_None_iff)
  then show ?thesis
    using assms None by (auto simp: GetId_def ids_ok_def name_of_def nth_append)
next
  case (Some k)
  then have k: "k = i" "t' = t" using assms(2) by (auto simp: GetId_def)
  have "(s, i) \<in> set (ids t)" using Some k map_of_SomeD by fastforce
  then obtain j where j: "j < length (ids t)" "ids t ! j = (s, i)" by (auto simp: in_set_conv_nth)
  then have "i = j" using assms(1) unfolding ids_ok_def by (metis add_0 nth_map nth_upt snd_conv)
  then show ?thesis using j k assms(1) by (simp add: name_of_def)
qed

lemma intern_all_ok:
  "ids_ok t \<Longrightarrow> intern_all t ss = (is, t') \<Longrightarrow>
     ids_ok t' \<and> map (name_of t') is = ss \<and> (\<forall>i \<in> set is. i < length (ids t')) \<and>
     length (ids t) \<le> length (ids t') \<and> (\<forall>j < length (ids t). name_of t' j = name_of t j)"
proof (induction ss arbitrary: t "is")
  case (Cons s ss)
  obtain i t1 where g: "GetId t s = (i, t1)" by (cases "GetId t s")
  obtain js where js: "intern_all t1 ss = (js, t')" "is = i # js"
    using Cons.prems(2) g by (auto split: prod.splits)
  note a = GetId_ok [OF Cons.prems(1) g]
  have "ids_ok t1" using a by blast
  from Cons.IH [OF this js(1)] a js(2) show ?case by (auto intro: less_le_trans)
qed auto

lemma follows_map:
  "follows es xs ys \<Longrightarrow> inj_on f (set xs \<union> set ys) \<Longrightarrow> follows es (map f xs) (map f ys)"
proof (induction es xs ys rule: follows.induct)
  case (2 es x xs y ys)
  then show ?case by (auto simp: inj_on_def)
next
  case (3 es x xs y ys)
  then show ?case by (auto simp: inj_on_def)
next
  case (4 es x xs ys)
  then show ?case by (auto simp: inj_on_def)
next
  case (5 es xs y ys)
  then show ?case by (auto simp: inj_on_def)
qed simp_all

lemma CalculateOptimalEdits_strings_ok:
  "\<exists>es. CalculateOptimalEdits_strings ops left right = Inr es \<and> follows es left right"
proof -
  obtain ls t1 where ls: "intern_all \<lparr>ids = []\<rparr> left = (ls, t1)" by (cases "intern_all \<lparr>ids = []\<rparr> left")
  obtain rs t2 where rs: "intern_all t1 right = (rs, t2)" by (cases "intern_all t1 right")
  have a: "ids_ok t1 \<and> map (name_of t1) ls = left \<and> (\<forall>i \<in> set ls. i < length (ids t1))"
    using intern_all_ok [OF _ ls] by (simp add: ids_ok_def)
  then have b: "ids_ok t2" "map (name_of t2) rs = right" "\<forall>i \<in> set rs. i < length (ids t2)"
    "length (ids t1) \<le> length (ids t2)" "\<forall>j < length (ids t1). name_of t2 j = name_of t1 j"
    using intern_all_ok [OF _ rs] by blast+
  have l: "map (name_of t2) ls = left" using a b(5) by (auto intro: map_cong)
  have "inj_on (name_of t2) {..<length (ids t2)}"
    using b(1) by (auto simp: ids_ok_def inj_on_def name_of_def distinct_conv_nth)
  then have "inj_on (name_of t2) (set ls \<union> set rs)"
    using a b(3,4) by (auto elim!: inj_on_subset)
  moreover obtain es where "CalculateOptimalEdits ops ls rs = Inr es" "follows es ls rs"
    using follows_CalculateOptimalEdits by blast
  ultimately have "CalculateOptimalEdits_strings ops left right = Inr es" "follows es (map (name_of t2) ls) (map (name_of t2) rs)"
    using ls rs follows_map by (simp_all add: CalculateOptimalEdits_strings_def)
  then show ?thesis using l b(2) by auto
qed

text \<open>
  C34: Whatever the costs are, \<open>CalculateOptimalEdits\<close> stays inside its tables and returns edits that turn
  the left list into the right one: matches where the elements are equal, replacements where they differ.
\<close>

theorem CalculateOptimalEdits_transforms:
  "\<exists>es. CalculateOptimalEdits_strings ops left right = Inr es \<and> follows es left right"
  by (rule CalculateOptimalEdits_strings_ok)

text \<open>With the costs as exact multiples of 0.00001, as close to the doubles as integers come.\<close>

definition exact_costs :: "int costs" where
  "exact_costs = \<lparr>cost_of_index = \<lambda>i. 100000 * int i, cost_plus_1 = \<lambda>c. c + 100000,
     cost_plus_replace = \<lambda>c. c + 100001\<rparr>"

text \<open>
  The edits are not always optimal: when adding and removing cost the same, and less than replacing, the
  code replaces. Two edits turn \<open>aba\<close> into \<open>bab\<close>; the code returns three replacements.
\<close>

lemma CalculateOptimalEdits_not_optimal:
  "CalculateOptimalEdits exact_costs ''aba'' ''bab'' = Inr [kReplace, kReplace, kReplace]"
  "follows [kRemove, kMatch, kMatch, kAdd] ''aba'' ''bab''"
  by code_simp+

subsection \<open>Hunks\<close>

text \<open>The lines of a hunk that belong to the left and to the right text.\<close>

definition all_lines :: "Hunk \<Rightarrow> (byte \<times> bytes) list" where
  "all_lines h = hunk_lines h @ hunk_removes h @ hunk_adds h"

definition left_side :: "(byte \<times> bytes) list \<Rightarrow> bytes list" where
  "left_side lines = map snd (filter (\<lambda>x. fst x \<noteq> plus_sign) lines)"

definition right_side :: "(byte \<times> bytes) list \<Rightarrow> bytes list" where
  "right_side lines = map snd (filter (\<lambda>x. fst x \<noteq> minus_sign) lines)"

definition old_lines :: "Hunk \<Rightarrow> bytes list" where
  "old_lines h = left_side (all_lines h)"

definition new_lines :: "Hunk \<Rightarrow> bytes list" where
  "new_lines h = right_side (all_lines h)"

definition hunk_ok :: "Hunk \<Rightarrow> bool" where
  "hunk_ok h \<longleftrightarrow>
     (\<forall>x \<in> set (hunk_removes h). fst x = minus_sign) \<and> (\<forall>x \<in> set (hunk_adds h). fst x = plus_sign) \<and>
     removes h + common h = length (old_lines h) \<and> adds h + common h = length (new_lines h) \<and>
     (\<forall>x \<in> set (hunk_lines h). fst x \<in> {space, minus_sign, plus_sign}) \<and>
     (removes h \<noteq> 0 \<longleftrightarrow> (\<exists>x \<in> set (all_lines h). fst x = minus_sign)) \<and>
     (adds h \<noteq> 0 \<longleftrightarrow> (\<exists>x \<in> set (all_lines h). fst x = plus_sign))"

lemma filter_all: "\<forall>x \<in> set xs. fst x = c \<Longrightarrow> c \<noteq> d \<Longrightarrow> filter (\<lambda>x. fst x \<noteq> d) xs = xs"
  "\<forall>x \<in> set xs. fst x = c \<Longrightarrow> filter (\<lambda>x. fst x \<noteq> c) xs = []"
  by (induction xs) auto

lemma Hunk_new_ok: "hunk_ok (Hunk_new l r)" "old_lines (Hunk_new l r) = []" "new_lines (Hunk_new l r) = []"
  "\<not> has_edits (Hunk_new l r)" "left_start (Hunk_new l r) = l" "right_start (Hunk_new l r) = r"
  by (simp_all add: Hunk_new_def hunk_ok_def old_lines_def new_lines_def left_side_def right_side_def all_lines_def has_edits_def)

lemma FlushEdits_lines: "hunk_lines (FlushEdits h) = all_lines h"
  by (simp add: FlushEdits_def all_lines_def)

lemma PushLine_common:
  assumes "hunk_ok h"
  shows "hunk_ok (PushLine space line h)" "old_lines (PushLine space line h) = old_lines h @ [line]"
    "new_lines (PushLine space line h) = new_lines h @ [line]"
    "left_start (PushLine space line h) = left_start h" "right_start (PushLine space line h) = right_start h"
  using assms
  by (auto simp: PushLine_def FlushEdits_def hunk_ok_def old_lines_def new_lines_def left_side_def right_side_def all_lines_def Let_def filter_all)

lemma PushLine_remove:
  assumes "hunk_ok h"
  shows "hunk_ok (PushLine minus_sign line h)" "old_lines (PushLine minus_sign line h) = old_lines h @ [line]"
    "new_lines (PushLine minus_sign line h) = new_lines h" "has_edits (PushLine minus_sign line h)"
    "left_start (PushLine minus_sign line h) = left_start h" "right_start (PushLine minus_sign line h) = right_start h"
  using assms
  by (auto simp: PushLine_def hunk_ok_def old_lines_def new_lines_def left_side_def right_side_def all_lines_def has_edits_def filter_all)

lemma PushLine_add:
  assumes "hunk_ok h"
  shows "hunk_ok (PushLine plus_sign line h)" "old_lines (PushLine plus_sign line h) = old_lines h"
    "new_lines (PushLine plus_sign line h) = new_lines h @ [line]" "has_edits (PushLine plus_sign line h)"
    "left_start (PushLine plus_sign line h) = left_start h" "right_start (PushLine plus_sign line h) = right_start h"
  using assms
  by (auto simp: PushLine_def hunk_ok_def old_lines_def new_lines_def left_side_def right_side_def all_lines_def has_edits_def filter_all)

lemma PushLine_has_edits: "has_edits h \<Longrightarrow> has_edits (PushLine c line h)"
  by (simp add: PushLine_def FlushEdits_def has_edits_def Let_def)

subsection \<open>The loops of the diff\<close>

definition part :: "bytes list \<Rightarrow> nat \<Rightarrow> nat \<Rightarrow> bytes list" where
  "part xs a b = map until_nul (take (b - a) (drop a xs))"

lemma part_append:
  assumes "a \<le> b" and "b \<le> c"
  shows "part xs a b @ part xs b c = part xs a c"
proof -
  have "take (c - a) (drop a xs) = take ((b - a) + (c - b)) (drop a xs)" using assms by simp
  also have "\<dots> = take (b - a) (drop a xs) @ take (c - b) (drop b xs)"
    using assms(1) by (simp only: take_add drop_drop le_add_diff_inverse2)
  finally show ?thesis by (simp add: part_def)
qed

lemma part_one: "a < length xs \<Longrightarrow> part xs a (Suc a) = [until_nul (xs ! a)]"
  by (simp add: part_def take_Suc hd_drop_conv_nth)

lemma part_none [simp]: "part xs a a = []"
  by (simp add: part_def)

text \<open>A hunk that has taken in the lines from one position of both texts to another.\<close>

definition hunk_moved :: "bytes list \<Rightarrow> bytes list \<Rightarrow> nat \<Rightarrow> nat \<Rightarrow> Hunk \<Rightarrow> nat \<Rightarrow> nat \<Rightarrow> Hunk \<Rightarrow> bool" where
  "hunk_moved left right l r h l' r' h' \<longleftrightarrow>
     l \<le> l' \<and> l' \<le> length left \<and> r \<le> r' \<and> r' \<le> length right \<and> hunk_ok h' \<and>
     old_lines h' = old_lines h @ part left l l' \<and> new_lines h' = new_lines h @ part right r r' \<and>
     left_start h' = left_start h \<and> right_start h' = right_start h \<and> (has_edits h \<longrightarrow> has_edits h')"

lemma hunk_moved_refl: "hunk_ok h \<Longrightarrow> l \<le> length left \<Longrightarrow> r \<le> length right \<Longrightarrow> hunk_moved left right l r h l r h"
  by (simp add: hunk_moved_def)

lemma hunk_moved_trans:
  "hunk_moved left right l r h l1 r1 h1 \<Longrightarrow> hunk_moved left right l1 r1 h1 l2 r2 h2 \<Longrightarrow>
     hunk_moved left right l r h l2 r2 h2"
  by (auto simp: hunk_moved_def part_append)

lemma follows_step:
  assumes "follows (e # es) (drop l left) (drop r right)" and "l \<le> length left" and "r \<le> length right"
  shows "follows es (drop (if e \<noteq> kAdd then l + 1 else l) left) (drop (if e \<noteq> kRemove then r + 1 else r) right) \<and>
    (e \<noteq> kAdd \<longrightarrow> l < length left) \<and> (e \<noteq> kRemove \<longrightarrow> r < length right) \<and>
    (e = kMatch \<longrightarrow> left ! l = right ! r)"
proof -
  have "l < length left \<Longrightarrow> drop l left = left ! l # drop (Suc l) left" by (simp add: Cons_nth_drop_Suc)
  moreover have "r < length right \<Longrightarrow> drop r right = right ! r # drop (Suc r) right" by (simp add: Cons_nth_drop_Suc)
  ultimately show ?thesis
    using assms by (cases e; cases "l = length left"; cases "r = length right") auto
qed

text \<open>One edit.\<close>

definition push_edit :: "bytes list \<Rightarrow> bytes list \<Rightarrow> EditType \<Rightarrow> nat \<Rightarrow> nat \<Rightarrow> Hunk \<Rightarrow> Hunk" where
  "push_edit left right e l r h =
     (let h1 = (if e = kMatch then PushLine space (until_nul (left ! l)) h
                else if e = kRemove \<or> e = kReplace then PushLine minus_sign (until_nul (left ! l)) h else h)
      in if e = kAdd \<or> e = kReplace then PushLine plus_sign (until_nul (right ! r)) h1 else h1)"

lemma push_edit_moved:
  assumes "follows (e # es) (drop l left) (drop r right)" and "l \<le> length left" and "r \<le> length right" and "hunk_ok h"
  shows "hunk_moved left right l r h (if e \<noteq> kAdd then l + 1 else l) (if e \<noteq> kRemove then r + 1 else r)
      (push_edit left right e l r h) \<and>
    (e \<noteq> kMatch \<longrightarrow> has_edits (push_edit left right e l r h))"
proof -
  note f = follows_step [OF assms(1-3)]
  have l: "part left l (l + 1) = [until_nul (left ! l)]" if "l < length left"
    using part_one [OF that] by simp
  have r: "part right r (r + 1) = [until_nul (right ! r)]" if "r < length right"
    using part_one [OF that] by simp
  show ?thesis
  proof (cases e)
    case kMatch
    then show ?thesis
      using f l r assms(4) PushLine_common [OF assms(4)] unfolding hunk_moved_def push_edit_def by simp
  next
    case kAdd
    then show ?thesis
      using f r assms(2,4) PushLine_add [OF assms(4)] unfolding hunk_moved_def push_edit_def by simp
  next
    case kRemove
    then show ?thesis
      using f l assms(3,4) PushLine_remove [OF assms(4)] unfolding hunk_moved_def push_edit_def by simp
  next
    case kReplace
    let ?h = "PushLine minus_sign (until_nul (left ! l)) h"
    show ?thesis
      using kReplace f l r PushLine_remove [OF assms(4), of "until_nul (left ! l)"] PushLine_add [of ?h "until_nul (right ! r)"]
      unfolding hunk_moved_def push_edit_def by simp
  qed
qed

lemma hunk_loop_step:
  assumes "follows (e # es) (drop l left) (drop r right)" and "l \<le> length left" and "r \<le> length right"
    and "\<not> (c \<le> n \<and> next_edit_far c (e # es))"
  shows "hunk_loop left right c n l r (e # es) h =
    hunk_loop left right c (if e = kMatch then n + 1 else 0) (if e \<noteq> kAdd then l + 1 else l)
      (if e \<noteq> kRemove then r + 1 else r) es (push_edit left right e l r h)"
proof -
  note f = follows_step [OF assms(1-3)]
  show ?thesis
    unfolding hunk_loop.simps(2) Let_def if_not_P [OF assms(4)]
    using f by (cases e) (simp_all add: vec_at_def push_edit_def)
qed

lemma hunk_loop_ok:
  assumes "follows edits (drop l left) (drop r right)" and "l \<le> length left" and "r \<le> length right" and "hunk_ok h"
  shows "\<exists>l' r' edits' h'. hunk_loop left right c n l r edits h = Inr (l', r', edits', h') \<and>
    hunk_moved left right l r h l' r' h' \<and> follows edits' (drop l' left) (drop r' right) \<and>
    (edits' = [] \<or> next_edit_far c edits')"
  using assms
proof (induction edits arbitrary: n l r h)
  case Nil
  then show ?case using hunk_moved_refl by auto
next
  case (Cons e es)
  show ?case
  proof (cases "c \<le> n \<and> next_edit_far c (e # es)")
    case True
    then show ?thesis
      unfolding hunk_loop.simps(2) if_P [OF True] using Cons.prems(1) hunk_moved_refl [OF Cons.prems(4,2,3)] by blast
  next
    case False
    let ?l = "if e \<noteq> kAdd then l + 1 else l" and ?r = "if e \<noteq> kRemove then r + 1 else r"
    let ?h = "push_edit left right e l r h"
    have m: "hunk_moved left right l r h ?l ?r ?h" using push_edit_moved [OF Cons.prems] by blast
    then have b: "?l \<le> length left" "?r \<le> length right" "hunk_ok ?h" unfolding hunk_moved_def by blast+
    have "follows es (drop ?l left) (drop ?r right)" using follows_step [OF Cons.prems(1-3)] by blast
    from Cons.IH [OF this b] show ?thesis
      unfolding hunk_loop_step [OF Cons.prems(1-3) False] using hunk_moved_trans [OF m] by blast
  qed
qed

text \<open>The first edit, which is not a match, is always taken in.\<close>

lemma hunk_loop_edits:
  assumes "follows (e # es) (drop l left) (drop r right)" and "l \<le> length left" and "r \<le> length right" and "hunk_ok h"
    and "e \<noteq> kMatch" and "0 < c" and "hunk_loop left right c 0 l r (e # es) h = Inr (l', r', edits', h')"
  shows "has_edits h'"
proof -
  let ?l = "if e \<noteq> kAdd then l + 1 else l" and ?r = "if e \<noteq> kRemove then r + 1 else r"
  let ?h = "push_edit left right e l r h"
  have m: "hunk_moved left right l r h ?l ?r ?h" "has_edits ?h"
    using push_edit_moved [OF assms(1-4)] assms(5) by blast+
  then have b: "?l \<le> length left" "?r \<le> length right" "hunk_ok ?h" unfolding hunk_moved_def by blast+
  have "follows es (drop ?l left) (drop ?r right)" using follows_step [OF assms(1-3)] by blast
  from hunk_loop_ok [OF this b] obtain l2 r2 e2 h2 where
    "hunk_loop left right c (if e = kMatch then 0 + 1 else 0) ?l ?r es ?h = Inr (l2, r2, e2, h2)"
    "hunk_moved left right ?l ?r ?h l2 r2 h2" by blast
  moreover have "\<not> (c \<le> 0 \<and> next_edit_far c (e # es))" using assms(6) by simp
  ultimately have "hunk_moved left right ?l ?r ?h l' r' h'"
    using assms(7) hunk_loop_step [OF assms(1-3)] by auto
  then show ?thesis using m(2) unfolding hunk_moved_def by blast
qed

lemma push_prefix_ok:
  assumes "p \<le> l" and "l \<le> length left" and "hunk_ok h"
  shows "\<exists>h'. push_prefix left l p h = Inr h' \<and> hunk_ok h' \<and>
    old_lines h' = old_lines h @ part left (l - p) l \<and> new_lines h' = new_lines h @ part left (l - p) l \<and>
    left_start h' = left_start h \<and> right_start h' = right_start h"
  using assms
proof (induction p arbitrary: h)
  case 0
  then show ?case by simp
next
  case (Suc p)
  let ?h = "PushLine space (until_nul (left ! (l - Suc p))) h"
  have "part left (l - Suc p) l = part left (l - Suc p) (Suc (l - Suc p)) @ part left (Suc (l - Suc p)) l"
    using Suc.prems by (intro part_append [symmetric]) auto
  moreover have "Suc (l - Suc p) = l - p" using Suc.prems by simp
  moreover have "part left (l - Suc p) (Suc (l - Suc p)) = [until_nul (left ! (l - Suc p))]"
    using Suc.prems by (intro part_one) simp
  ultimately have "part left (l - Suc p) l = until_nul (left ! (l - Suc p)) # part left (l - p) l" by simp
  moreover have "vec_at left (size_sub l (Suc p)) = Inr (left ! (l - Suc p))"
    using Suc.prems unfolding vec_at_def size_sub_def by auto
  then have "push_prefix left l (Suc p) h = push_prefix left l p ?h" by simp
  ultimately show ?case
    using Suc.IH [of ?h] Suc.prems PushLine_common [OF Suc.prems(3)] by (auto simp del: push_prefix.simps)
qed

lemma skip_matches_ok:
  "skip_matches l r edits = (l + length (takeWhile (\<lambda>e. e = kMatch) edits), r + length (takeWhile (\<lambda>e. e = kMatch) edits),
     dropWhile (\<lambda>e. e = kMatch) edits)"
proof (induction edits arbitrary: l r)
  case (Cons e es)
  then show ?case by (cases e) auto
qed simp

lemma follows_matches:
  assumes "follows edits xs ys" and "k = length (takeWhile (\<lambda>e. e = kMatch) edits)"
  shows "k \<le> length xs \<and> k \<le> length ys \<and> take k xs = take k ys \<and>
    follows (dropWhile (\<lambda>e. e = kMatch) edits) (drop k xs) (drop k ys)"
  using assms
proof (induction edits xs ys arbitrary: k rule: follows.induct)
  case (2 es x xs y ys)
  then show ?case by auto
qed simp_all

subsection \<open>The diff is a patch\<close>

text \<open>
  What a printed hunk says: the number of its first line in the left and in the right text, and its lines, each with the
  sign of a common line, of a line that goes and of a line that comes.
\<close>

type_synonym printed_hunk = "nat \<times> nat \<times> (byte \<times> bytes) list"

text \<open>
  Its text in the unified format: a header with the start and the number of the lines it has of the left text, if
  lines go, and of the right text, if lines come, and below it the lines, each after its sign.
\<close>

fun hunk_text :: "printed_hunk \<Rightarrow> bytes" where
  "hunk_text (l, r, lines) =
     (let goes = (\<exists>x \<in> set lines. fst x = minus_sign); comes = (\<exists>x \<in> set lines. fst x = plus_sign)
      in lit ''@@ '' @
         (if goes then lit ''-'' @ decimal l @ lit '','' @ decimal (length (left_side lines)) else []) @
         (if goes \<and> comes then lit '' '' else []) @
         (if comes then lit ''+'' @ decimal r @ lit '','' @ decimal (length (right_side lines)) else []) @
         lit '' @@'' @ [10]) @
     concat (map (\<lambda>x. [fst x] @ snd x @ [10]) lines)"

text \<open>
  The hunks, in order, patch the left text into the right one, starting from the given line numbers: each
  begins at the line it says, after a gap in which the texts agree, and changes at least one line.
\<close>

fun patches :: "nat \<Rightarrow> nat \<Rightarrow> printed_hunk list \<Rightarrow> bytes list \<Rightarrow> bytes list \<Rightarrow> bool" where
  "patches s t [] xs ys \<longleftrightarrow> xs = ys"
| "patches s t ((l, r, lines) # hs) xs ys \<longleftrightarrow>
     (\<exists>gap xs' ys'. xs = gap @ left_side lines @ xs' \<and> ys = gap @ right_side lines @ ys' \<and>
        l = s + length gap \<and> r = t + length gap \<and>
        (\<forall>x \<in> set lines. fst x \<in> {space, minus_sign, plus_sign}) \<and> (\<exists>x \<in> set lines. fst x \<noteq> space) \<and>
        patches (l + length (left_side lines)) (r + length (right_side lines)) hs xs' ys')"

definition hunk_view :: "Hunk \<Rightarrow> printed_hunk" where
  "hunk_view h = (left_start h, right_start h, all_lines h)"

lemma PrintTo_text:
  assumes "hunk_ok h"
  shows "PrintTo h = hunk_text (hunk_view h)"
proof -
  have counts: "removes h + common h = length (left_side (all_lines h))" "adds h + common h = length (right_side (all_lines h))"
    using assms unfolding hunk_ok_def old_lines_def new_lines_def by blast+
  have some: "(removes h \<noteq> 0) = (\<exists>x \<in> set (all_lines h). fst x = minus_sign)"
    "(adds h \<noteq> 0) = (\<exists>x \<in> set (all_lines h). fst x = plus_sign)"
    using assms unfolding hunk_ok_def by blast+
  have lines: "map (\<lambda>(c, line). c # line @ [10]) xs = map (\<lambda>x. [fst x] @ snd x @ [10]) xs"
    for xs :: "(byte \<times> bytes) list"
    by (simp add: case_prod_unfold)
  show ?thesis
    unfolding PrintTo_def PrintHeader_def hunk_view_def hunk_text.simps Let_def FlushEdits_lines counts some lines ..
qed

lemma hunk_ok_signs:
  assumes "hunk_ok h" and "has_edits h"
  shows "\<forall>x \<in> set (all_lines h). fst x \<in> {space, minus_sign, plus_sign}" "\<exists>x \<in> set (all_lines h). fst x \<noteq> space"
proof -
  have k: "\<forall>x \<in> set (hunk_lines h). fst x \<in> {space, minus_sign, plus_sign}"
    "\<forall>x \<in> set (hunk_removes h). fst x = minus_sign" "\<forall>x \<in> set (hunk_adds h). fst x = plus_sign"
    using assms(1) unfolding hunk_ok_def by blast+
  show "\<forall>x \<in> set (all_lines h). fst x \<in> {space, minus_sign, plus_sign}"
    unfolding all_lines_def set_append using k by blast
  have "(\<exists>x \<in> set (all_lines h). fst x = minus_sign) \<or> (\<exists>x \<in> set (all_lines h). fst x = plus_sign)"
    using assms unfolding hunk_ok_def has_edits_def by blast
  moreover have "minus_sign \<noteq> space" "plus_sign \<noteq> space" by simp_all
  ultimately show "\<exists>x \<in> set (all_lines h). fst x \<noteq> space" by metis
qed

abbreviation rest :: "bytes list \<Rightarrow> nat \<Rightarrow> bytes list" where
  "rest xs a \<equiv> map until_nul (drop a xs)"

lemma part_rest: "a \<le> b \<Longrightarrow> part xs a b @ rest xs b = rest xs a"
  unfolding part_def map_append [symmetric]
  by (metis append_take_drop_id drop_drop le_add_diff_inverse2)

lemma length_part: "a \<le> b \<Longrightarrow> b \<le> length xs \<Longrightarrow> length (part xs a b) = b - a"
  by (simp add: part_def)

lemma follows_same: "follows edits xs ys \<Longrightarrow> \<forall>e \<in> set edits. e = kMatch \<Longrightarrow> xs = ys"
  by (induction edits xs ys rule: follows.induct) auto

lemma diff_hunks_ok:
  assumes "follows edits (drop l left) (drop r right)" and "l \<le> length left" and "r \<le> length right" and "0 < c"
    and "l = 0 \<and> r = 0 \<or> edits = [] \<or> next_edit_far c edits"
  shows "\<exists>hs. diff_hunks left right c l r edits = Inr hs \<and> (\<forall>h \<in> set hs. hunk_ok h) \<and>
    patches (l + 1) (r + 1) (map hunk_view hs) (rest left l) (rest right r)"
  using assms
proof (induction "length edits" arbitrary: l r edits rule: less_induct)
  case less
  show ?case
  proof (cases "edits = []")
    case True
    then show ?thesis using less.prems(1) by (simp add: diff_hunks.simps)
  next
    case False
    define k where "k = length (takeWhile (\<lambda>e. e = kMatch) edits)"
    define edits1 where "edits1 = dropWhile (\<lambda>e. e = kMatch) edits"
    define p where "p = min (l + k) c"
    have skip: "skip_matches l r edits = (l + k, r + k, edits1)"
      by (simp add: skip_matches_ok k_def edits1_def)
    have "k \<le> length (drop l left) \<and> k \<le> length (drop r right) \<and> take k (drop l left) = take k (drop r right) \<and>
        follows edits1 (drop k (drop l left)) (drop k (drop r right))"
      unfolding edits1_def by (rule follows_matches [OF less.prems(1) k_def])
    then have k: "l + k \<le> length left" "r + k \<le> length right" "take k (drop l left) = take k (drop r right)"
      "follows edits1 (drop (l + k) left) (drop (r + k) right)"
      using less.prems(2,3) by (auto simp: add.commute)
    let ?h0 = "Hunk_new (size_sub (l + k) p + 1) (size_sub (r + k) p + 1)"
    obtain h1 where h1: "push_prefix left (l + k) p ?h0 = Inr h1" "hunk_ok h1"
      "old_lines h1 = old_lines ?h0 @ part left (l + k - p) (l + k)" "new_lines h1 = new_lines ?h0 @ part left (l + k - p) (l + k)"
      "left_start h1 = left_start ?h0" "right_start h1 = right_start ?h0"
      using push_prefix_ok [of p "l + k" left ?h0] k(1) Hunk_new_ok(1) unfolding p_def by (metis min.cobounded1)
    obtain l2 r2 edits2 h2 where h2: "hunk_loop left right c 0 (l + k) (r + k) edits1 h1 = Inr (l2, r2, edits2, h2)"
      "hunk_moved left right (l + k) (r + k) h1 l2 r2 h2" "follows edits2 (drop l2 left) (drop r2 right)"
      "edits2 = [] \<or> next_edit_far c edits2"
      using hunk_loop_ok [OF k(4,1,2) h1(2)] by blast
    have run: "diff_hunks left right c l r edits =
        (if \<not> has_edits h2 then Inr []
         else rbind (diff_hunks left right c l2 r2 edits2) (\<lambda>hunks. Inr (h2 # hunks)))"
      by (subst diff_hunks.simps) (simp add: False skip Let_def p_def [symmetric] h1(1) [simplified] h2(1))
    show ?thesis
    proof (cases edits1)
      case Nil
      then have "h2 = h1" using h2(1) by simp
      then have "\<not> has_edits h2" using push_prefix_has_edits [OF h1(1)] Hunk_new_ok(4) by blast
      moreover have "drop l left = drop r right"
        using follows_same [OF less.prems(1)] Nil unfolding edits1_def by (simp add: dropWhile_eq_Nil_conv)
      ultimately show ?thesis using run by simp
    next
      case (Cons e es)
      have e: "e \<noteq> kMatch" using Cons hd_dropWhile [of "\<lambda>e. e = kMatch" edits] unfolding edits1_def by auto
      have he: "has_edits h2"
        by (rule hunk_loop_edits [OF k(4) [unfolded Cons] k(1,2) h1(2) e less.prems(4) h2(1) [unfolded Cons]])
      have pk: "p \<le> k"
      proof -
        have "k \<noteq> length edits"
          using Cons unfolding k_def edits1_def by (metis append_Nil2 append_eq_append_conv list.discI takeWhile_dropWhile_id)
        then have "l = 0 \<or> c \<le> k" using less.prems(5) False unfolding next_edit_far_def k_def Let_def by auto
        then show ?thesis unfolding p_def by auto
      qed
      have starts: "left_start h1 = l + 1 + (k - p)" "right_start h1 = r + 1 + (k - p)"
        using pk by (simp_all add: h1(5,6) Hunk_new_ok size_sub_def)
      let ?gap = "part left l (l + (k - p))"
      have same: "part left a (l + k) = part right (r + (a - l)) (r + k)" if "l \<le> a" "a \<le> l + k" for a
      proof -
        have "take (l + k - a) (drop a left) = drop (a - l) (take k (drop l left))"
          using that by (simp add: drop_take add.commute)
        also have "\<dots> = take (k - (a - l)) (drop (r + (a - l)) right)"
          unfolding k(3) by (simp add: drop_take add.commute)
        finally show ?thesis using that by (simp add: part_def)
      qed
      have gap: "?gap = part right r (r + (k - p))"
        using k(3) unfolding part_def by (metis add_diff_cancel_left' diff_le_self min.absorb1 take_take)
      have pre: "part left (l + k - p) (l + k) = part right (r + (k - p)) (r + k)"
        using same [of "l + k - p"] pk by simp
      have len: "length ?gap = k - p" using k(1) by (simp add: length_part)
      have m: "l + k \<le> l2" "l2 \<le> length left" "r + k \<le> r2" "r2 \<le> length right" "hunk_ok h2"
        "old_lines h2 = old_lines h1 @ part left (l + k) l2" "new_lines h2 = new_lines h1 @ part right (r + k) r2"
        "left_start h2 = left_start h1" "right_start h2 = right_start h1"
        using h2(2) unfolding hunk_moved_def by blast+
      have a: "l + k - p = l + (k - p)" using pk by simp
      have old: "old_lines h2 = part left (l + (k - p)) l2"
        unfolding m(6) h1(3) Hunk_new_ok a using m(1) part_append [of "l + (k - p)" "l + k" l2 left] by simp
      have new: "new_lines h2 = part right (r + (k - p)) r2"
        unfolding m(7) h1(4) Hunk_new_ok pre using m(3) part_append [of "r + (k - p)" "r + k" r2 right] by simp
      have split: "rest left l = ?gap @ old_lines h2 @ rest left l2" "rest right r = ?gap @ new_lines h2 @ rest right r2"
        unfolding old new gap using m(1,3) by (simp_all add: part_rest) (simp_all add: gap [symmetric] part_rest)
      have ends: "left_start h2 + length (old_lines h2) = l2 + 1" "right_start h2 + length (new_lines h2) = r2 + 1"
        unfolding m(8,9) starts old new using m(1-4) by (simp_all add: length_part)
      have "length edits2 < length edits" by (rule diff_terminates [OF skip h1(1) h2(1) he])
      then obtain hs where hs: "diff_hunks left right c l2 r2 edits2 = Inr hs"
        "\<forall>h \<in> set hs. hunk_ok h" "patches (l2 + 1) (r2 + 1) (map hunk_view hs) (rest left l2) (rest right r2)"
        using less.hyps [OF _ h2(3) m(2,4) less.prems(4)] h2(4) by blast
      have "patches (l + 1) (r + 1) (map hunk_view (h2 # hs)) (rest left l) (rest right r)"
        unfolding list.map hunk_view_def [of h2] patches.simps old_lines_def [symmetric] new_lines_def [symmetric]
        using split starts len m(8,9) hunk_ok_signs [OF m(5) he] hs(3) ends
        by (intro exI [of _ ?gap] exI [of _ "rest left l2"] exI [of _ "rest right r2"]) simp
      moreover have "diff_hunks left right c l r edits = Inr (h2 # hs)" using run he hs(1) by simp
      ultimately show ?thesis using m(5) hs(2) by (metis set_ConsD)
    qed
  qed
qed

text \<open>
  C9: With at least one line of context, \<open>CreateUnifiedDiff\<close> prints, byte for byte, the text of hunks in the unified format
  (a header with the starts and the numbers of lines, then the common, removed and added lines in order, each after
  its sign) that patch the left text into the right one: in order, without overlap, at the line numbers they say.
\<close>

theorem CreateUnifiedDiff_patches:
  assumes "0 < c"
  shows "\<exists>hs. CreateUnifiedDiff ops left right c = Inr (concat (map hunk_text hs)) \<and>
    patches 1 1 hs (map until_nul left) (map until_nul right)"
proof -
  obtain edits where e: "CalculateOptimalEdits_strings ops left right = Inr edits" "follows edits left right"
    using CalculateOptimalEdits_strings_ok by blast
  then obtain hs where hs: "diff_hunks left right c 0 0 edits = Inr hs" "\<forall>h \<in> set hs. hunk_ok h"
    "patches 1 1 (map hunk_view hs) (map until_nul left) (map until_nul right)"
    using diff_hunks_ok [of edits 0 left 0 right c] assms by auto
  have "map PrintTo hs = map hunk_text (map hunk_view hs)" using hs(2) PrintTo_text by simp
  then have "CreateUnifiedDiff ops left right c = Inr (concat (map hunk_text (map hunk_view hs)))"
    unfolding CreateUnifiedDiff_def e(1) rbind_Inr hs(1) by (rule arg_cong)
  then show ?thesis using hs(3) by blast
qed

theorem CreateUnifiedDiff_patches_witness:
  "\<exists>hs. CreateUnifiedDiff exact_costs [lit ''a'', lit ''b''] [lit ''a'', lit ''c''] 2 = Inr (concat (map hunk_text hs)) \<and>
    patches 1 1 hs (map until_nul [lit ''a'', lit ''b'']) (map until_nul [lit ''a'', lit ''c''])"
  by (rule CreateUnifiedDiff_patches) simp

text \<open>Without context nothing is printed, whatever the texts are.\<close>

lemma CreateUnifiedDiff_no_context:
  "CreateUnifiedDiff exact_costs [lit ''a''] [lit ''b''] 0 = Inr []"
  by code_simp

lemma example_diff:
  "CreateUnifiedDiff exact_costs [lit ''a'', lit ''b''] [lit ''a'', lit ''c''] 2 =
    Inr (lit ''@@ -1,2 +1,2 @@'' @ [10] @ lit '' a'' @ [10] @ lit ''-b'' @ [10] @ lit ''+c'' @ [10])"
  by code_simp

section \<open>Failure messages\<close>

text \<open>
  \<open>SplitEscapedString\<close>: the loop at index \<open>i\<close>, with the start of the current line. The positions are those
  of a \<open>std::string\<close>.
\<close>

function split_escaped_loop :: "bytes \<Rightarrow> nat \<Rightarrow> nat \<Rightarrow> nat \<Rightarrow> bool \<Rightarrow> bytes list" where
  "split_escaped_loop str i start end' escaped =
     (if i + 1 < end' then
        if escaped then
          (if str ! i = of_char (CHR ''n'')
           then take (i - start - 1) (drop start str) # split_escaped_loop str (i + 1) (i + 1) end' False
           else split_escaped_loop str (i + 1) start end' False)
        else split_escaped_loop str (i + 1) start end' (str ! i = 92)
      else [take (end' - start) (drop start str)])"
  by pat_completeness auto
termination by (relation "measure (\<lambda>(s, i, a, e, x). e - i)") auto

definition SplitEscapedString :: "bytes \<Rightarrow> bytes list" where
  "SplitEscapedString str =
     (let n = length str;
          quoted = (n > 2 \<and> str ! 0 = 34 \<and> str ! (n - 1) = 34);
          start = (if quoted then 1 else 0);
          end' = (if quoted then n - 1 else n)
      in split_escaped_loop str start start end' False)"

text \<open>The message of a failed equality assertion; an \<open>AssertionResult\<close> is its verdict and its message.\<close>

definition EqFailure :: "'c :: linorder costs \<Rightarrow> bytes \<Rightarrow> bytes \<Rightarrow> bytes \<Rightarrow> bytes \<Rightarrow> bool \<Rightarrow> (bool \<times> bytes) res" where
  "EqFailure ops lhs_expression rhs_expression lhs_value rhs_value ignoring_case =
     (let msg = lit ''      Expected: '' @ lhs_expression @
            (if lhs_value \<noteq> lhs_expression then [10] @ lit ''      Which is: '' @ lhs_value else []) @
            [10] @ lit ''To be equal to: '' @ rhs_expression @
            (if rhs_value \<noteq> rhs_expression then [10] @ lit ''      Which is: '' @ rhs_value else []) @
            (if ignoring_case then [10] @ lit ''Ignoring case'' else [])
      in if lhs_value \<noteq> [] \<and> rhs_value \<noteq> [] then
           (let lhs_lines = SplitEscapedString lhs_value; rhs_lines = SplitEscapedString rhs_value
            in if length lhs_lines > 1 \<or> length rhs_lines > 1
               then rbind (CreateUnifiedDiff ops lhs_lines rhs_lines 2) (\<lambda>diff.
                      Inr (False, StringStreamToString (msg @ [10] @ lit ''With diff:'' @ [10] @ diff)))
               else Inr (False, StringStreamToString msg))
         else Inr (False, StringStreamToString msg))"

text \<open>Lines joined by a separator.\<close>

primrec joined_by :: "bytes \<Rightarrow> bytes list \<Rightarrow> bytes" where
  "joined_by sep [] = []"
| "joined_by sep (l # ls) = (if ls = [] then l else l @ sep @ joined_by sep ls)"

declare split_escaped_loop.simps [simp del]

lemma split_escaped_nonempty [simp]: "split_escaped_loop str i start e x \<noteq> []"
  by (induction str i start e x rule: split_escaped_loop.induct) (subst split_escaped_loop.simps, auto)

lemma take_past: "length t = a \<Longrightarrow> take (a + (2 + m)) (t @ [x, y] @ d) = t @ [x, y] @ take m d"
  by simp

lemma split_escaped_ok:
  assumes "start \<le> i" and "i \<le> e" and "e \<le> length str" and "escaped \<longrightarrow> start < i \<and> str ! (i - 1) = 92"
  shows "joined_by [92, 110] (split_escaped_loop str i start e escaped) = take (e - start) (drop start str)"
  using assms
proof (induction str i start e escaped rule: split_escaped_loop.induct)
  case (1 str i start e escaped)
  show ?case
  proof (cases "i + 1 < e \<and> escaped \<and> str ! i = of_char (CHR ''n'')")
    case True
    let ?a = "i - start - 1"
    have x: "drop start str = take ?a (drop start str) @ [92, 110] @ drop (i + 1) str"
    proof -
      have ia: "i - 1 = ?a + start" using "1.prems" True by simp
      have "drop start str = take ?a (drop start str) @ drop (i - 1) str"
        using append_take_drop_id [of ?a "drop start str"] unfolding ia drop_drop by simp
      moreover have "drop (i - 1) str = str ! (i - 1) # str ! i # drop (i + 1) str"
      proof -
        have j: "i - 1 < length str" "i < length str" "Suc (i - 1) = i" using "1.prems" True by linarith+
        show ?thesis using Cons_nth_drop_Suc [OF j(1)] Cons_nth_drop_Suc [OF j(2)] unfolding j(3) by simp
      qed
      ultimately show ?thesis using "1.prems" True by simp
    qed
    have "split_escaped_loop str i start e escaped = take ?a (drop start str) # split_escaped_loop str (i + 1) (i + 1) e False"
      using True by (subst split_escaped_loop.simps) simp
    moreover have "joined_by [92, 110] (split_escaped_loop str (i + 1) (i + 1) e False) = take (e - (i + 1)) (drop (i + 1) str)"
      using 1(1) True "1.prems" by simp
    moreover have "take (e - start) (drop start str) = take ?a (drop start str) @ [92, 110] @ take (e - (i + 1)) (drop (i + 1) str)"
    proof -
      have "e - start = ?a + (2 + (e - (i + 1)))" using "1.prems" True by linarith
      moreover have "length (take ?a (drop start str)) = ?a"
        using "1.prems" True unfolding length_take length_drop by linarith
      ultimately show ?thesis using take_past [of "take ?a (drop start str)"] x by metis
    qed
    ultimately show ?thesis by simp
  next
    case False
    show ?thesis
    proof (cases "i + 1 < e")
      case True
      then show ?thesis
        using False 1(2,3) "1.prems" by (subst split_escaped_loop.simps) auto
    next
      case end': False
      then show ?thesis by (subst split_escaped_loop.simps) simp
    qed
  qed
qed

text \<open>
  \<open>SplitEscapedString\<close> loses nothing: joined by the escaped newline, the lines are the value without the
  quotes around it.
\<close>

lemma SplitEscapedString_joined:
  "joined_by [92, 110] (SplitEscapedString str) =
    (if length str > 2 \<and> str ! 0 = 34 \<and> str ! (length str - 1) = 34 then butlast (tl str) else str)"
proof (cases "length str > 2 \<and> str ! 0 = 34 \<and> str ! (length str - 1) = 34")
  case True
  then have "SplitEscapedString str = split_escaped_loop str 1 1 (length str - 1) False"
    by (simp add: SplitEscapedString_def)
  moreover have "1 \<le> length str - 1" using True by linarith
  ultimately show ?thesis
    using True split_escaped_ok [of 1 1 "length str - 1" str False]
    by (simp add: butlast_conv_take drop_Suc)
next
  case False
  then have "SplitEscapedString str = split_escaped_loop str 0 0 (length str) False"
    unfolding SplitEscapedString_def Let_def by (simp only: if_False)
  then show ?thesis using False split_escaped_ok [of 0 0 "length str" str False] by auto
qed

text \<open>An equality failure is always a failure, and building its message never faults.\<close>

lemma EqFailure_returns:
  "\<exists>msg. EqFailure ops lhs_expression rhs_expression lhs_value rhs_value ignoring_case = Inr (False, msg)"
proof -
  have "\<exists>d. CreateUnifiedDiff ops ls rs 2 = Inr d" for ls rs
  proof -
    obtain edits where e: "CalculateOptimalEdits_strings ops ls rs = Inr edits" "follows edits ls rs"
      using CalculateOptimalEdits_strings_ok by blast
    then obtain hs where "diff_hunks ls rs 2 0 0 edits = Inr hs"
      using diff_hunks_ok [of edits 0 ls 0 rs 2] by auto
    then show ?thesis using e(1) by (simp add: CreateUnifiedDiff_def)
  qed
  then obtain d where "CreateUnifiedDiff ops (SplitEscapedString lhs_value) (SplitEscapedString rhs_value) 2 = Inr d" by blast
  then show ?thesis unfolding EqFailure_def Let_def by simp
qed

end
