(* ===== verification/Gmock_Matching.thy ===== *)
theory Gmock_Matching
  imports Status_Val
begin

text \<open>
  How the mocking library decides whether the elements of a container match a list of matchers in
  some order (src/libs/googlemock/src/gmock-matchers.cc and
  src/libs/googlemock/include/gmock/gmock-matchers.h): the matrix of matches, the search for a
  maximum bipartite matching by augmenting paths, and \<open>UnorderedElementsAre\<close>. The unused
  index \<open>static_cast<size_t>(-1)\<close> is \<open>None\<close>. The search, whose recursion is bounded only by the marks
  it sets, is a partial function; the lemmas show that it always returns, inside its vectors, and
  that the matching is as large as any.
\<close>

section \<open>Definitions\<close>

subsection \<open>The matrix\<close>

record MatchMatrix =
  num_elements :: nat
  num_matchers :: nat
  matched :: "bool list"

definition MatchMatrix_new :: "nat \<Rightarrow> nat \<Rightarrow> MatchMatrix" where
  "MatchMatrix_new n m = \<lparr>num_elements = n, num_matchers = m, matched = replicate (n * m) False\<rparr>"

definition LhsSize :: "MatchMatrix \<Rightarrow> nat" where "LhsSize g = num_elements g"
definition RhsSize :: "MatchMatrix \<Rightarrow> nat" where "RhsSize g = num_matchers g"

definition SpaceIndex :: "MatchMatrix \<Rightarrow> nat \<Rightarrow> nat \<Rightarrow> nat" where
  "SpaceIndex g ilhs irhs = ilhs * num_matchers g + irhs"

definition HasEdge :: "MatchMatrix \<Rightarrow> nat \<Rightarrow> nat \<Rightarrow> bool" where
  "HasEdge g ilhs irhs = matched g ! SpaceIndex g ilhs irhs"

definition SetEdge :: "nat \<Rightarrow> nat \<Rightarrow> bool \<Rightarrow> MatchMatrix \<Rightarrow> MatchMatrix" where
  "SetEdge ilhs irhs b g = g\<lparr>matched := (matched g)[SpaceIndex g ilhs irhs := b]\<rparr>"

text \<open>The two loops of \<open>NextGraph\<close> visit the cells in the order in which they are stored.\<close>

primrec next_graph_loop :: "nat list \<Rightarrow> MatchMatrix \<Rightarrow> bool \<times> MatchMatrix" where
  "next_graph_loop [] g = (False, g)"
| "next_graph_loop (k # ks) g =
     (if \<not> matched g ! k then (True, g\<lparr>matched := (matched g)[k := True]\<rparr>)
      else next_graph_loop ks (g\<lparr>matched := (matched g)[k := False]\<rparr>))"

definition cells :: "MatchMatrix \<Rightarrow> (nat \<times> nat) list" where
  "cells g = concat (map (\<lambda>i. map (\<lambda>j. (i, j)) [0..<RhsSize g]) [0..<LhsSize g])"

definition NextGraph :: "MatchMatrix \<Rightarrow> bool \<times> MatchMatrix" where
  "NextGraph g = next_graph_loop (map (\<lambda>(i, j). SpaceIndex g i j) (cells g)) g"

definition MatchMatrix_DebugString :: "MatchMatrix \<Rightarrow> bytes" where
  "MatchMatrix_DebugString g =
     concat (map (\<lambda>i. (if i = 0 then [] else lit '';'') @
       concat (map (\<lambda>j. if HasEdge g i j then lit ''1'' else lit ''0'') [0..<RhsSize g])) [0..<LhsSize g])"

subsection \<open>Maximum bipartite matching\<close>

record MaxBipartiteMatchState =
  left_match :: "nat option list"
  right_match :: "nat option list"

definition MatchState_new :: "MatchMatrix \<Rightarrow> MaxBipartiteMatchState" where
  "MatchState_new g =
     \<lparr>left_match = replicate (LhsSize g) None, right_match = replicate (RhsSize g) None\<rparr>"

definition add_flow :: "nat \<Rightarrow> nat \<Rightarrow> MaxBipartiteMatchState \<Rightarrow> MaxBipartiteMatchState" where
  "add_flow ilhs irhs st =
     st\<lparr>left_match := (left_match st)[ilhs := Some irhs], right_match := (right_match st)[irhs := Some ilhs]\<rparr>"

text \<open>The loop of \<open>TryAugment\<close> from \<open>irhs\<close> on; the result has the state and the marks.\<close>

partial_function (option) augment_loop ::
  "MatchMatrix \<Rightarrow> nat \<Rightarrow> nat \<Rightarrow> MaxBipartiteMatchState \<Rightarrow> bool list \<Rightarrow> (bool \<times> MaxBipartiteMatchState \<times> bool list) option" where
  "augment_loop g ilhs irhs st seen =
     (if irhs < RhsSize g then
        (if seen ! irhs then augment_loop g ilhs (irhs + 1) st seen
         else if \<not> HasEdge g ilhs irhs then augment_loop g ilhs (irhs + 1) st seen
         else
           let seen1 = seen[irhs := True]
           in case right_match st ! irhs of
                None \<Rightarrow> Some (True, add_flow ilhs irhs st, seen1)
              | Some l \<Rightarrow>
                  Option.bind (augment_loop g l 0 st seen1) (\<lambda>(found, st2, seen2).
                  if found then Some (True, add_flow ilhs irhs st2, seen2)
                  else augment_loop g ilhs (irhs + 1) st2 seen2))
      else Some (False, st, seen))"

definition TryAugment ::
  "MatchMatrix \<Rightarrow> nat \<Rightarrow> MaxBipartiteMatchState \<Rightarrow> bool list \<Rightarrow> (bool \<times> MaxBipartiteMatchState \<times> bool list) option" where
  "TryAugment g ilhs st seen = augment_loop g ilhs 0 st seen"

text \<open>The loop of \<open>Compute\<close> over the left nodes: \<open>GTEST_CHECK_\<close> aborts.\<close>

primrec compute_loop :: "MatchMatrix \<Rightarrow> nat list \<Rightarrow> MaxBipartiteMatchState \<Rightarrow> MaxBipartiteMatchState res option" where
  "compute_loop g [] st = Some (Inr st)"
| "compute_loop g (ilhs # is) st =
     (if left_match st ! ilhs \<noteq> None then Some (Inl Aborted)
      else Option.bind (TryAugment g ilhs st (replicate (RhsSize g) False)) (\<lambda>(found, st1, seen).
        compute_loop g is st1))"

definition matched_pairs :: "nat option list \<Rightarrow> (nat \<times> nat) list" where
  "matched_pairs l =
     concat (map (\<lambda>ilhs. case l ! ilhs of None \<Rightarrow> [] | Some irhs \<Rightarrow> [(ilhs, irhs)]) [0..<length l])"

definition Compute :: "MatchMatrix \<Rightarrow> MaxBipartiteMatchState \<Rightarrow> (nat \<times> nat) list res option" where
  "Compute g st =
     Option.bind (compute_loop g [0..<LhsSize g] st) (\<lambda>r.
       Some (rbind r (\<lambda>st1. Inr (matched_pairs (left_match st1)))))"

definition FindMaxBipartiteMatching :: "MatchMatrix \<Rightarrow> (nat \<times> nat) list res option" where
  "FindMaxBipartiteMatching g = Compute g (MatchState_new g)"

section \<open>Lemmas\<close>

subsection \<open>The state of the search\<close>

text \<open>Both vectors describe the same matching, along edges.\<close>

definition state_ok :: "MatchMatrix \<Rightarrow> MaxBipartiteMatchState \<Rightarrow> bool" where
  "state_ok g st \<longleftrightarrow>
     length (left_match st) = LhsSize g \<and> length (right_match st) = RhsSize g \<and>
     (\<forall>i < LhsSize g. \<forall>j. left_match st ! i = Some j \<longrightarrow> j < RhsSize g \<and> HasEdge g i j \<and> right_match st ! j = Some i) \<and>
     (\<forall>j < RhsSize g. \<forall>i. right_match st ! j = Some i \<longrightarrow> i < LhsSize g \<and> left_match st ! i = Some j)"

text \<open>
  A set of left nodes whose neighbours are all matched, with nodes of the set: no augmenting path leaves it.
\<close>

definition closed :: "MatchMatrix \<Rightarrow> MaxBipartiteMatchState \<Rightarrow> nat set \<Rightarrow> nat set \<Rightarrow> bool" where
  "closed g st S T \<longleftrightarrow>
     S \<subseteq> {..<LhsSize g} \<and> T \<subseteq> {..<RhsSize g} \<and>
     (\<forall>i \<in> S. \<forall>j < RhsSize g. HasEdge g i j \<longrightarrow> j \<in> T) \<and> (\<forall>j \<in> T. \<exists>i \<in> S. right_match st ! j = Some i)"

definition grown :: "nat \<Rightarrow> bool list \<Rightarrow> bool list \<Rightarrow> bool" where
  "grown m seen seen' \<longleftrightarrow> length seen' = m \<and> (\<forall>j < m. seen ! j \<longrightarrow> seen' ! j)"

text \<open>The search from \<open>u\<close> has failed: everything it can reach is marked and matched.\<close>

definition dead_end :: "MatchMatrix \<Rightarrow> nat \<Rightarrow> nat \<Rightarrow> MaxBipartiteMatchState \<Rightarrow> bool list \<Rightarrow> bool list \<Rightarrow> bool" where
  "dead_end g u irhs st seen seen' \<longleftrightarrow>
     (\<forall>j. irhs \<le> j \<and> j < RhsSize g \<and> HasEdge g u j \<longrightarrow> seen' ! j) \<and>
     (\<forall>j < RhsSize g. seen' ! j \<and> \<not> seen ! j \<longrightarrow>
        (\<exists>i < LhsSize g. right_match st ! j = Some i \<and> (\<forall>k < RhsSize g. HasEdge g i k \<longrightarrow> seen' ! k)))"

text \<open>
  The search from \<open>u\<close> has succeeded: \<open>u\<close> is matched anew, and only its old partner, which the caller takes
  over, still points to it.
\<close>

definition augmented :: "MatchMatrix \<Rightarrow> nat \<Rightarrow> MaxBipartiteMatchState \<Rightarrow> bool list \<Rightarrow> MaxBipartiteMatchState \<Rightarrow> bool" where
  "augmented g u st seen st' \<longleftrightarrow>
     length (left_match st') = LhsSize g \<and> length (right_match st') = RhsSize g \<and>
     (\<forall>i < LhsSize g. \<forall>j. left_match st' ! i = Some j \<longrightarrow> j < RhsSize g \<and> HasEdge g i j \<and> right_match st' ! j = Some i) \<and>
     (\<forall>j < RhsSize g. \<forall>i. right_match st' ! j = Some i \<longrightarrow>
        i < LhsSize g \<and> (left_match st' ! i = Some j \<or> (i = u \<and> left_match st ! u = Some j))) \<and>
     (\<forall>i < LhsSize g. left_match st' ! i = None \<longleftrightarrow> left_match st ! i = None \<and> i \<noteq> u) \<and>
     (\<exists>j < RhsSize g. left_match st' ! u = Some j \<and> \<not> seen ! j) \<and>
     (\<forall>j < RhsSize g. seen ! j \<longrightarrow> right_match st' ! j = right_match st ! j) \<and>
     (\<forall>i < LhsSize g. i \<noteq> u \<and> (\<forall>j. left_match st ! i = Some j \<longrightarrow> seen ! j) \<longrightarrow>
        left_match st' ! i = left_match st ! i)"

definition avoids :: "MatchMatrix \<Rightarrow> nat \<Rightarrow> MaxBipartiteMatchState \<Rightarrow> MaxBipartiteMatchState \<Rightarrow> bool" where
  "avoids g u st st' \<longleftrightarrow>
     (\<forall>S T. closed g st S T \<longrightarrow> u \<notin> S \<and> (\<forall>j \<in> T. right_match st' ! j = right_match st ! j))"

lemma dead_endD:
  assumes "dead_end g u irhs st seen seen'"
  shows "\<And>j. irhs \<le> j \<Longrightarrow> j < RhsSize g \<Longrightarrow> HasEdge g u j \<Longrightarrow> seen' ! j"
    "\<And>j. j < RhsSize g \<Longrightarrow> seen' ! j \<and> \<not> seen ! j \<Longrightarrow>
      \<exists>i < LhsSize g. right_match st ! j = Some i \<and> (\<forall>k < RhsSize g. HasEdge g i k \<longrightarrow> seen' ! k)"
  using assms by (simp_all add: dead_end_def)

lemma augmentedD:
  assumes "augmented g u st seen st'"
  shows "length (left_match st') = LhsSize g" "length (right_match st') = RhsSize g"
    "\<forall>i < LhsSize g. \<forall>j. left_match st' ! i = Some j \<longrightarrow> j < RhsSize g \<and> HasEdge g i j \<and> right_match st' ! j = Some i"
    "\<forall>j < RhsSize g. \<forall>i. right_match st' ! j = Some i \<longrightarrow>
        i < LhsSize g \<and> (left_match st' ! i = Some j \<or> (i = u \<and> left_match st ! u = Some j))"
    "\<forall>i < LhsSize g. left_match st' ! i = None \<longleftrightarrow> left_match st ! i = None \<and> i \<noteq> u"
    "\<exists>j < RhsSize g. left_match st' ! u = Some j \<and> \<not> seen ! j"
    "\<forall>j < RhsSize g. seen ! j \<longrightarrow> right_match st' ! j = right_match st ! j"
    "\<forall>i < LhsSize g. i \<noteq> u \<and> (\<forall>j. left_match st ! i = Some j \<longrightarrow> seen ! j) \<longrightarrow>
        left_match st' ! i = left_match st ! i"
  using assms unfolding augmented_def by - (elim conjE, assumption)+

lemma grown_refl: "length seen = m \<Longrightarrow> grown m seen seen"
  by (simp add: grown_def)

lemma grown_trans: "grown m a b \<Longrightarrow> grown m b c \<Longrightarrow> grown m a c"
  by (simp add: grown_def)

lemma grown_mark: "length seen = m \<Longrightarrow> grown m seen (seen[j := True])"
  unfolding grown_def by (metis length_list_update nth_list_update_eq nth_list_update_neq)

definition unseen :: "nat \<Rightarrow> bool list \<Rightarrow> nat" where
  "unseen m seen = card {j. j < m \<and> \<not> seen ! j}"

lemma unseen_grown: "grown m seen seen' \<Longrightarrow> unseen m seen' \<le> unseen m seen"
  unfolding unseen_def grown_def by (intro card_mono) auto

lemma unseen_mark: "length seen = m \<Longrightarrow> j < m \<Longrightarrow> \<not> seen ! j \<Longrightarrow> unseen m (seen[j := True]) < unseen m seen"
  unfolding unseen_def by (intro psubset_card_mono) (auto simp: nth_list_update)

lemma closed_edge:
  assumes "closed g st S T" and "u \<in> S" and "j < RhsSize g" and "HasEdge g u j"
  shows "\<exists>i \<in> S. right_match st ! j = Some i"
  using assms unfolding closed_def by blast

subsection \<open>One step of an augmenting path\<close>

lemma augment_free:
  assumes ok: "state_ok g st" and u: "u < LhsSize g" and j: "j < RhsSize g" "\<not> seen ! j" "HasEdge g u j"
    and free: "right_match st ! j = None"
  shows "augmented g u st seen (add_flow u j st) \<and> avoids g u st (add_flow u j st)"
proof
  have l: "length (left_match st) = LhsSize g" "length (right_match st) = RhsSize g"
    and fw: "\<And>i k. i < LhsSize g \<Longrightarrow> left_match st ! i = Some k \<Longrightarrow> k < RhsSize g \<and> HasEdge g i k \<and> right_match st ! k = Some i"
    and bw: "\<And>k i. k < RhsSize g \<Longrightarrow> right_match st ! k = Some i \<Longrightarrow> i < LhsSize g \<and> left_match st ! i = Some k"
    using ok unfolding state_ok_def by blast+
  have neq: "left_match st ! i = Some k \<Longrightarrow> i < LhsSize g \<Longrightarrow> k \<noteq> j" for i k using fw free by force
  let ?st' = "add_flow u j st"
  have L: "left_match ?st' ! i = (if i = u then Some j else left_match st ! i)" if "i < LhsSize g" for i
    using that l by (simp add: add_flow_def nth_list_update)
  have R: "right_match ?st' ! k = (if k = j then Some u else right_match st ! k)" if "k < RhsSize g" for k
    using that l by (simp add: add_flow_def nth_list_update)
  show "augmented g u st seen ?st'"
    unfolding augmented_def
  proof (intro conjI allI impI)
    show "length (left_match ?st') = LhsSize g" "length (right_match ?st') = RhsSize g"
      using l by (simp_all add: add_flow_def)
  next
    fix i k assume i: "i < LhsSize g" and e: "left_match ?st' ! i = Some k"
    have "i = u \<and> k = j \<or> i \<noteq> u \<and> k \<noteq> j \<and> left_match st ! i = Some k"
      using i e neq by (auto simp: L split: if_splits)
    then show "k < RhsSize g" "HasEdge g i k" "right_match ?st' ! k = Some i"
      using i j fw by (auto simp: R)
  next
    fix k i assume k: "k < RhsSize g" and e: "right_match ?st' ! k = Some i"
    show "i < LhsSize g" using k e u bw by (auto simp: R split: if_splits)
    show "left_match ?st' ! i = Some k \<or> i = u \<and> left_match st ! u = Some k"
      using k e u bw by (cases "k = j"; cases "i = u") (auto simp: L R)
  next
    fix i assume i: "i < LhsSize g"
    show "left_match ?st' ! i = None \<longleftrightarrow> left_match st ! i = None \<and> i \<noteq> u" using i by (auto simp: L)
  next
    show "\<exists>k < RhsSize g. left_match ?st' ! u = Some k \<and> \<not> seen ! k" using u j by (auto simp: L)
  next
    fix k assume k: "k < RhsSize g" "seen ! k"
    then show "right_match ?st' ! k = right_match st ! k" using j(2) by (auto simp: R)
  next
    fix i assume i: "i < LhsSize g" and f: "i \<noteq> u \<and> (\<forall>k. left_match st ! i = Some k \<longrightarrow> seen ! k)"
    then show "left_match ?st' ! i = left_match st ! i" by (simp add: L)
  qed
  show "avoids g u st (add_flow u j st)"
    unfolding avoids_def
  proof (intro allI impI conjI ballI)
    fix S T assume c: "closed g st S T"
    show "u \<notin> S" using closed_edge [OF c _ j(1,3)] free by auto
    fix k assume "k \<in> T"
    then have "k \<noteq> j" using c free unfolding closed_def by auto
    then show "right_match (add_flow u j st) ! k = right_match st ! k" by (simp add: add_flow_def)
  qed
qed

lemma augment_through:
  assumes ok: "state_ok g st" and u: "u < LhsSize g" and j: "j < RhsSize g" "\<not> seen ! j" "HasEdge g u j"
    and len: "length seen = RhsSize g" and own: "\<forall>k. left_match st ! u = Some k \<longrightarrow> seen ! k"
    and r: "right_match st ! j = Some l"
    and aug: "augmented g l st (seen[j := True]) st2" and av: "avoids g l st st2"
  shows "augmented g u st seen (add_flow u j st2) \<and> avoids g u st (add_flow u j st2)"
proof
  have fw: "\<And>i k. i < LhsSize g \<Longrightarrow> left_match st ! i = Some k \<Longrightarrow> k < RhsSize g \<and> HasEdge g i k \<and> right_match st ! k = Some i"
    and bw: "\<And>k i. k < RhsSize g \<Longrightarrow> right_match st ! k = Some i \<Longrightarrow> i < LhsSize g \<and> left_match st ! i = Some k"
    using ok unfolding state_ok_def by blast+
  have l: "l < LhsSize g" "left_match st ! l = Some j" using bw [OF j(1) r] by blast+
  have lu: "l \<noteq> u" using own l(2) j(2) by auto
  have s1: "(seen[j := True]) ! j" "\<And>k. k < RhsSize g \<Longrightarrow> seen ! k \<Longrightarrow> (seen[j := True]) ! k"
    using j(1) len by (auto simp: nth_list_update)
  have len2: "length (left_match st2) = LhsSize g" "length (right_match st2) = RhsSize g"
    and fw2: "\<And>i k. i < LhsSize g \<Longrightarrow> left_match st2 ! i = Some k \<Longrightarrow> k < RhsSize g \<and> HasEdge g i k \<and> right_match st2 ! k = Some i"
    and bw2: "\<And>k i. k < RhsSize g \<Longrightarrow> right_match st2 ! k = Some i \<Longrightarrow>
        i < LhsSize g \<and> (left_match st2 ! i = Some k \<or> (i = l \<and> left_match st ! l = Some k))"
    and dom2: "\<And>i. i < LhsSize g \<Longrightarrow> left_match st2 ! i = None \<longleftrightarrow> left_match st ! i = None \<and> i \<noteq> l"
    and new2: "\<exists>k < RhsSize g. left_match st2 ! l = Some k \<and> \<not> (seen[j := True]) ! k"
    and rf2: "\<And>k. k < RhsSize g \<Longrightarrow> (seen[j := True]) ! k \<Longrightarrow> right_match st2 ! k = right_match st ! k"
    and lf2: "\<And>i. i < LhsSize g \<Longrightarrow> i \<noteq> l \<Longrightarrow> \<forall>k. left_match st ! i = Some k \<longrightarrow> (seen[j := True]) ! k \<Longrightarrow>
        left_match st2 ! i = left_match st ! i"
    using aug unfolding augmented_def by blast+
  have u2: "left_match st2 ! u = left_match st ! u"
    using lf2 [OF u lu [symmetric]] own s1(2) fw [OF u] by blast
  have rj: "right_match st2 ! j = Some l" using rf2 [OF j(1) s1(1)] r by simp
  have lj: "left_match st2 ! l \<noteq> Some j" using new2 s1(1) by auto
  have kj: "k \<noteq> j" if "i < LhsSize g" "left_match st2 ! i = Some k" for i k
    using fw2 [OF that] rj lj that(2) by auto
  have bk: "left_match st2 ! i = Some k" if "k < RhsSize g" "right_match st2 ! k = Some i" "k \<noteq> j" for k i
    using bw2 [OF that(1,2)] l(2) that(3) by auto
  let ?st' = "add_flow u j st2"
  have L: "left_match ?st' ! i = (if i = u then Some j else left_match st2 ! i)" if "i < LhsSize g" for i
    using that len2 by (simp add: add_flow_def nth_list_update)
  have R: "right_match ?st' ! k = (if k = j then Some u else right_match st2 ! k)" if "k < RhsSize g" for k
    using that len2 by (simp add: add_flow_def nth_list_update)
  show "augmented g u st seen ?st'"
    unfolding augmented_def
  proof (intro conjI allI impI)
    show "length (left_match ?st') = LhsSize g" "length (right_match ?st') = RhsSize g"
      using len2 by (simp_all add: add_flow_def)
  next
    fix i k assume i: "i < LhsSize g" and e: "left_match ?st' ! i = Some k"
    have "i = u \<and> k = j \<or> i \<noteq> u \<and> k \<noteq> j \<and> left_match st2 ! i = Some k"
      using i e kj by (auto simp: L split: if_splits)
    then show "k < RhsSize g" "HasEdge g i k" "right_match ?st' ! k = Some i"
      using i j fw2 by (auto simp: R)
  next
    fix k i assume k: "k < RhsSize g" and e: "right_match ?st' ! k = Some i"
    show "i < LhsSize g" using k e u bw2 by (auto simp: R split: if_splits)
    show "left_match ?st' ! i = Some k \<or> i = u \<and> left_match st ! u = Some k"
      using k e u bk bw2 u2 by (cases "k = j"; cases "i = u") (auto simp: L R)
  next
    fix i assume i: "i < LhsSize g"
    show "left_match ?st' ! i = None \<longleftrightarrow> left_match st ! i = None \<and> i \<noteq> u"
      using i dom2 [OF i] l by (auto simp: L)
  next
    show "\<exists>k < RhsSize g. left_match ?st' ! u = Some k \<and> \<not> seen ! k" using u j by (auto simp: L)
  next
    fix k assume k: "k < RhsSize g" "seen ! k"
    then show "right_match ?st' ! k = right_match st ! k" using j(2) rf2 s1(2) by (auto simp: R)
  next
    fix i assume i: "i < LhsSize g" and f: "i \<noteq> u \<and> (\<forall>k. left_match st ! i = Some k \<longrightarrow> seen ! k)"
    then have "i \<noteq> l" using l(2) j(2) by auto
    moreover have "\<forall>k. left_match st ! i = Some k \<longrightarrow> (seen[j := True]) ! k" using f fw [OF i] s1(2) by blast
    ultimately show "left_match ?st' ! i = left_match st ! i" using i f lf2 by (simp add: L)
  qed
  show "avoids g u st ?st'"
    unfolding avoids_def
  proof (intro allI impI conjI ballI)
    fix S T assume c: "closed g st S T"
    then have a: "l \<notin> S" "\<And>k. k \<in> T \<Longrightarrow> right_match st2 ! k = right_match st ! k"
      using av unfolding avoids_def by blast+
    show "u \<notin> S" using closed_edge [OF c _ j(1,3)] r a(1) by auto
    fix k assume k: "k \<in> T"
    then have "k \<noteq> j" "k < RhsSize g" using c r a(1) unfolding closed_def by auto
    then show "right_match ?st' ! k = right_match st ! k" using a(2) [OF k] by (simp add: R)
  qed
qed

lemma augmented_weaken:
  assumes a: "augmented g u st seen2 st'" and g: "grown (RhsSize g) seen seen2" and ok: "state_ok g st"
  shows "augmented g u st seen st'"
proof -
  have mono: "seen ! j \<Longrightarrow> seen2 ! j" if "j < RhsSize g" for j using g that unfolding grown_def by blast
  have "\<exists>j < RhsSize g. left_match st' ! u = Some j \<and> \<not> seen ! j"
    using augmentedD(6) [OF a] mono by blast
  moreover have "\<forall>j < RhsSize g. seen ! j \<longrightarrow> right_match st' ! j = right_match st ! j"
    using augmentedD(7) [OF a] mono by blast
  moreover have "left_match st' ! i = left_match st ! i"
    if "i < LhsSize g" "i \<noteq> u \<and> (\<forall>j. left_match st ! i = Some j \<longrightarrow> seen ! j)" for i
  proof -
    have "\<forall>j. left_match st ! i = Some j \<longrightarrow> seen2 ! j" using that mono ok unfolding state_ok_def by meson
    then show ?thesis using augmentedD(8) [OF a] that by blast
  qed
  ultimately show ?thesis unfolding augmented_def using augmentedD(1-5) [OF a] by blast
qed

subsection \<open>The search\<close>

lemma augment_loop_ok:
  assumes "state_ok g st" and "u < LhsSize g" and "irhs \<le> RhsSize g" and "length seen = RhsSize g"
    and "\<forall>k. left_match st ! u = Some k \<longrightarrow> seen ! k"
  shows "\<exists>b st' seen'. augment_loop g u irhs st seen = Some (b, st', seen') \<and> grown (RhsSize g) seen seen' \<and>
    (if b then augmented g u st seen st' \<and> avoids g u st st' else st' = st \<and> dead_end g u irhs st seen seen')"
  using assms
proof (induction "unseen (RhsSize g) seen * (RhsSize g + 1) + (RhsSize g - irhs)" arbitrary: u irhs seen rule: less_induct)
  case less
  let ?m = "RhsSize g"
  show ?case
  proof (cases "irhs < ?m")
    case False
    then have "augment_loop g u irhs st seen = Some (False, st, seen)"
      by (subst augment_loop.simps) simp
    moreover have "dead_end g u irhs st seen seen" using False unfolding dead_end_def by auto
    ultimately show ?thesis using grown_refl [OF less.prems(4)] by auto
  next
    case True
    have bw: "\<And>i. right_match st ! irhs = Some i \<Longrightarrow> i < LhsSize g \<and> left_match st ! i = Some irhs"
      using less.prems(1) True unfolding state_ok_def by blast
    show ?thesis
    proof (cases "seen ! irhs \<or> \<not> HasEdge g u irhs")
      case skip: True
      have step: "augment_loop g u irhs st seen = augment_loop g u (irhs + 1) st seen"
        using True skip by (subst augment_loop.simps) auto
      have "unseen ?m seen * (?m + 1) + (?m - (irhs + 1)) < unseen ?m seen * (?m + 1) + (?m - irhs)"
        using True by simp
      from less.hyps [OF this less.prems(1,2) _ less.prems(4,5)] True
      obtain b st' seen' where r: "augment_loop g u (irhs + 1) st seen = Some (b, st', seen')" "grown ?m seen seen'"
        "if b then augmented g u st seen st' \<and> avoids g u st st' else st' = st \<and> dead_end g u (irhs + 1) st seen seen'"
        by auto
      moreover have "dead_end g u irhs st seen seen'" if "dead_end g u (irhs + 1) st seen seen'"
        using that skip r(2) True unfolding dead_end_def grown_def by (metis Suc_eq_plus1 le_SucE le_antisym not_less_eq_eq)
      ultimately show ?thesis unfolding step by (cases b) auto
    next
      case False
      let ?seen1 = "seen[irhs := True]"
      have g1: "grown ?m seen ?seen1" using less.prems(4) by (rule grown_mark)
      have u1: "unseen ?m ?seen1 < unseen ?m seen" using unseen_mark [OF less.prems(4) True] False by blast
      show ?thesis
      proof (cases "right_match st ! irhs")
        case None
        then have "augment_loop g u irhs st seen = Some (True, add_flow u irhs st, ?seen1)"
          using True False by (subst augment_loop.simps) (simp add: Let_def)
        then show ?thesis using augment_free [OF less.prems(1,2) True _ _ None, of seen] False g1 by auto
      next
        case (Some l)
        note l = bw [OF Some]
        have d: "unseen ?m s * (?m + 1) + (?m - k) < unseen ?m seen * (?m + 1) + (?m - irhs)"
          if "unseen ?m s \<le> unseen ?m ?seen1" for s k
        proof -
          have "Suc (unseen ?m s) * (?m + 1) \<le> unseen ?m seen * (?m + 1)"
            using that u1 by (intro mult_le_mono1) simp
          then show ?thesis by simp
        qed
        have own: "\<forall>k. left_match st ! l = Some k \<longrightarrow> ?seen1 ! k" using l True less.prems(4) by simp
        from less.hyps [OF d [OF order_refl] less.prems(1) _ _ _ own, of 0] l less.prems(4)
        obtain b st2 seen2 where r: "augment_loop g l 0 st ?seen1 = Some (b, st2, seen2)" "grown ?m ?seen1 seen2"
          "if b then augmented g l st ?seen1 st2 \<and> avoids g l st st2 else st2 = st \<and> dead_end g l 0 st ?seen1 seen2"
          by auto
        have g2: "grown ?m seen seen2" by (rule grown_trans [OF g1 r(2)])
        show ?thesis
        proof (cases b)
          case found: True
          have "augment_loop g u irhs st seen = Some (True, add_flow u irhs st2, seen2)"
            using True False Some r(1) found by (subst augment_loop.simps) (simp add: Let_def)
          then show ?thesis
            using augment_through [OF less.prems(1,2) True _ _ less.prems(4,5) Some] False r(3) found g2 by auto
        next
          case lost: False
          have step: "augment_loop g u irhs st seen = augment_loop g u (irhs + 1) st seen2"
            using True False Some r(1,3) lost by (subst augment_loop.simps) (simp add: Let_def)
          have own2: "\<forall>k. left_match st ! u = Some k \<longrightarrow> seen2 ! k"
            using less.prems(1,2,5) g2 unfolding state_ok_def grown_def by blast
          have "length seen2 = ?m" using g2 by (simp add: grown_def)
          from less.hyps [OF d [OF unseen_grown [OF r(2)]] less.prems(1,2) _ this own2, of "irhs + 1"] True
          obtain b3 st3 seen3 where r3: "augment_loop g u (irhs + 1) st seen2 = Some (b3, st3, seen3)" "grown ?m seen2 seen3"
            "if b3 then augmented g u st seen2 st3 \<and> avoids g u st st3 else st3 = st \<and> dead_end g u (irhs + 1) st seen2 seen3"
            by auto
          have g3: "grown ?m seen seen3" by (rule grown_trans [OF g2 r3(2)])
          have de: "dead_end g l 0 st ?seen1 seen2" using r(3) lost by simp
          have "augmented g u st seen st3" if "augmented g u st seen2 st3"
            by (rule augmented_weaken [OF that g2 less.prems(1)])
          moreover have "dead_end g u irhs st seen seen3" if f: "dead_end g u (irhs + 1) st seen2 seen3"
            unfolding dead_end_def
          proof (intro conjI allI impI)
            fix j assume j: "irhs \<le> j \<and> j < ?m \<and> HasEdge g u j"
            have "?seen1 ! irhs" using True less.prems(4) by simp
            then have "seen3 ! irhs" using r(2) r3(2) True unfolding grown_def by blast
            then show "seen3 ! j" using f j unfolding dead_end_def by (metis Suc_eq_plus1 le_antisym not_less_eq_eq)
          next
            fix j assume j: "j < ?m" "seen3 ! j \<and> \<not> seen ! j"
            consider "j = irhs" | "j \<noteq> irhs" "seen2 ! j" | "\<not> seen2 ! j" by blast
            then show "\<exists>i < LhsSize g. right_match st ! j = Some i \<and> (\<forall>k < ?m. HasEdge g i k \<longrightarrow> seen3 ! k)"
            proof cases
              case 1
              have "\<forall>k < ?m. HasEdge g l k \<longrightarrow> seen3 ! k" using de r3(2) unfolding dead_end_def grown_def by blast
              then show ?thesis using 1 l Some by blast
            next
              case 2
              then have "seen2 ! j \<and> \<not> ?seen1 ! j" using j(2) by simp
              then obtain i where "i < LhsSize g" "right_match st ! j = Some i" "\<forall>k < ?m. HasEdge g i k \<longrightarrow> seen2 ! k"
                using dead_endD(2) [OF de j(1)] by blast
              then show ?thesis using r3(2) unfolding grown_def by blast
            next
              case 3
              then show ?thesis using dead_endD(2) [OF f j(1)] j(2) by blast
            qed
          qed
          ultimately show ?thesis unfolding step using r3(1,3) g3 by (cases b3) auto
        qed
      qed
    qed
  qed
qed

subsection \<open>A maximum matching\<close>

text \<open>Edges, no two of which share a node.\<close>

definition is_matching :: "MatchMatrix \<Rightarrow> (nat \<times> nat) set \<Rightarrow> bool" where
  "is_matching g P \<longleftrightarrow>
     (\<forall>(i, j) \<in> P. i < LhsSize g \<and> j < RhsSize g \<and> HasEdge g i j) \<and> inj_on fst P \<and> inj_on snd P"

lemma MatchState_new_ok: "state_ok g (MatchState_new g)" "\<forall>i < LhsSize g. left_match (MatchState_new g) ! i = None"
  by (simp_all add: state_ok_def MatchState_new_def)

lemma augmented_state_ok:
  assumes "augmented g u st seen st'" and "left_match st ! u = None"
  shows "state_ok g st'"
proof -
  have "i < LhsSize g \<and> left_match st' ! i = Some j" if "j < RhsSize g" "right_match st' ! j = Some i" for i j
    using augmentedD(4) [OF assms(1)] that assms(2) by auto
  then show ?thesis using augmentedD(1-3) [OF assms(1)] unfolding state_ok_def by blast
qed

lemma dead_end_closed:
  assumes ok: "state_ok g st" and u: "u < LhsSize g" and d: "dead_end g u 0 st (replicate (RhsSize g) False) seen"
    and c: "closed g st S T"
  shows "\<exists>S' T'. closed g st S' T' \<and> insert u S \<subseteq> S'"
proof -
  define T1 where "T1 = {j. j < RhsSize g \<and> seen ! j}"
  define S1 where "S1 = {i. \<exists>j \<in> T1. right_match st ! j = Some i}"
  have bw: "\<And>k i. k < RhsSize g \<Longrightarrow> right_match st ! k = Some i \<Longrightarrow> i < LhsSize g"
    using ok unfolding state_ok_def by blast
  have m: "\<exists>i < LhsSize g. right_match st ! j = Some i \<and> (\<forall>k < RhsSize g. HasEdge g i k \<longrightarrow> seen ! k)" if "j \<in> T1" for j
    using d that unfolding dead_end_def T1_def by simp
  have "S1 \<subseteq> {..<LhsSize g}" using bw unfolding S1_def T1_def by blast
  moreover have "\<forall>i \<in> S1. \<forall>k < RhsSize g. HasEdge g i k \<longrightarrow> k \<in> T1"
    using m unfolding S1_def T1_def by fastforce
  moreover have "\<forall>k < RhsSize g. HasEdge g u k \<longrightarrow> k \<in> T1"
    using d unfolding dead_end_def T1_def by blast
  moreover have "\<forall>j \<in> T1. \<exists>i \<in> S1. right_match st ! j = Some i" using m unfolding S1_def by blast
  moreover have "T1 \<subseteq> {..<RhsSize g}" unfolding T1_def by blast
  ultimately have "closed g st (insert u (S \<union> S1)) (T \<union> T1)"
    using c u unfolding closed_def by (intro conjI) blast+
  then show ?thesis by blast
qed

lemma closed_mono:
  assumes "closed g st S T" and "\<forall>j \<in> T. right_match st' ! j = right_match st ! j"
  shows "closed g st' S T"
  using assms unfolding closed_def by simp

lemma compute_loop_ok:
  assumes "state_ok g st" and "distinct is" and "\<forall>i \<in> set is. i < LhsSize g \<and> left_match st ! i = None"
    and "closed g st S T" and "\<forall>i < LhsSize g. i \<in> set is \<or> left_match st ! i \<noteq> None \<or> i \<in> S"
  shows "\<exists>st' S' T'. compute_loop g is st = Some (Inr st') \<and> state_ok g st' \<and> closed g st' S' T' \<and>
    (\<forall>i < LhsSize g. left_match st' ! i \<noteq> None \<or> i \<in> S')"
  using assms
proof (induction "is" arbitrary: st S T)
  case Nil
  then show ?case by auto
next
  case (Cons u us)
  let ?seen = "replicate (RhsSize g) False"
  have u: "u < LhsSize g" "left_match st ! u = None" "u \<notin> set us" using Cons.prems(2,3) by auto
  have "\<exists>b st1 seen1. augment_loop g u 0 st ?seen = Some (b, st1, seen1) \<and> grown (RhsSize g) ?seen seen1 \<and>
      (if b then augmented g u st ?seen st1 \<and> avoids g u st st1 else st1 = st \<and> dead_end g u 0 st ?seen seen1)"
    by (rule augment_loop_ok [OF Cons.prems(1) u(1)]) (simp_all add: u(2))
  then obtain b st1 seen1 where r: "augment_loop g u 0 st ?seen = Some (b, st1, seen1)"
    "if b then augmented g u st ?seen st1 \<and> avoids g u st st1 else st1 = st \<and> dead_end g u 0 st ?seen seen1" by blast
  have step: "compute_loop g (u # us) st = compute_loop g us st1" using u(2) r(1) by (simp add: TryAugment_def)
  show ?case
  proof (cases b)
    case True
    then have a: "augmented g u st ?seen st1" "avoids g u st st1" using r(2) by auto
    have dom: "\<forall>i < LhsSize g. left_match st1 ! i = None \<longleftrightarrow> left_match st ! i = None \<and> i \<noteq> u"
      using a(1) unfolding augmented_def by blast
    have "closed g st1 S T" using closed_mono [OF Cons.prems(4)] a(2) Cons.prems(4) unfolding avoids_def by blast
    moreover have "\<forall>i < LhsSize g. i \<in> set us \<or> left_match st1 ! i \<noteq> None \<or> i \<in> S"
      using Cons.prems(5) dom by auto
    moreover have "\<forall>i \<in> set us. i < LhsSize g \<and> left_match st1 ! i = None" using Cons.prems(3) u(3) dom by auto
    ultimately show ?thesis
      unfolding step using Cons.IH [OF augmented_state_ok [OF a(1) u(2)]] Cons.prems(2) by simp
  next
    case False
    then have f: "st1 = st" "dead_end g u 0 st ?seen seen1" using r(2) by auto
    obtain S' T' where c: "closed g st S' T'" "insert u S \<subseteq> S'"
      using dead_end_closed [OF Cons.prems(1) u(1) f(2) Cons.prems(4)] by blast
    have "\<forall>i < LhsSize g. i \<in> set us \<or> left_match st ! i \<noteq> None \<or> i \<in> S'" using Cons.prems(5) c(2) by auto
    then show ?thesis
      unfolding step f(1) using Cons.IH [OF Cons.prems(1) _ _ c(1)] Cons.prems(2,3) by simp
  qed
qed

text \<open>K\"onig's argument: the closed set bounds every matching.\<close>

lemma matching_bound:
  assumes ok: "state_ok g st" and c: "closed g st S T" and all: "\<forall>i < LhsSize g. left_match st ! i \<noteq> None \<or> i \<in> S"
    and P: "is_matching g P"
  shows "card P \<le> card {i. i < LhsSize g \<and> left_match st ! i \<noteq> None}"
proof -
  let ?f = "\<lambda>(i, j). if i \<in> S then the (right_match st ! j) else i"
  let ?D = "{i. i < LhsSize g \<and> left_match st ! i \<noteq> None}"
  have bw: "\<And>k i. k < RhsSize g \<Longrightarrow> right_match st ! k = Some i \<Longrightarrow> i < LhsSize g \<and> left_match st ! i = Some k"
    using ok unfolding state_ok_def by blast
  have e: "i < LhsSize g" "j < RhsSize g" "HasEdge g i j" if "(i, j) \<in> P" for i j
    using P that unfolding is_matching_def by auto
  have inS: "\<exists>s \<in> S. right_match st ! j = Some s \<and> s < LhsSize g \<and> left_match st ! s = Some j" if "(i, j) \<in> P" "i \<in> S" for i j
    using closed_edge [OF c that(2) e(2,3) [OF that(1)]] bw [OF e(2) [OF that(1)]] by blast
  have "?f ` P \<subseteq> ?D"
  proof
    fix x assume "x \<in> ?f ` P"
    then obtain i j where ij: "(i, j) \<in> P" "x = ?f (i, j)" by auto
    show "x \<in> ?D" using inS [OF ij(1)] e(1) [OF ij(1)] all ij(2) by (cases "i \<in> S") auto
  qed
  moreover have "inj_on ?f P"
  proof (rule inj_onI)
    fix x y assume xy: "x \<in> P" "y \<in> P" "?f x = ?f y"
    obtain i j where x: "x = (i, j)" by (cases x)
    obtain k l where y: "y = (k, l)" by (cases y)
    have ij: "(i, j) \<in> P" "(k, l) \<in> P" using xy(1,2) x y by simp_all
    have uniq: "i = k \<longrightarrow> x = y" "j = l \<longrightarrow> x = y"
      using P xy(1,2) unfolding is_matching_def inj_on_def x y by force+
    show "x = y"
    proof (cases "i \<in> S"; cases "k \<in> S")
      assume "i \<in> S" "k \<in> S"
      then show "x = y" using inS [OF ij(1)] inS [OF ij(2)] xy(3) uniq(2) unfolding x y by auto
    next
      assume "i \<in> S" "k \<notin> S"
      then show "x = y" using inS [OF ij(1)] xy(3) unfolding x y by auto
    next
      assume "i \<notin> S" "k \<in> S"
      then show "x = y" using inS [OF ij(2)] xy(3) unfolding x y by auto
    next
      assume "i \<notin> S" "k \<notin> S"
      then show "x = y" using xy(3) uniq(1) unfolding x y by simp
    qed
  qed
  ultimately show ?thesis by (intro card_inj_on_le) auto
qed

lemma matched_pairs_set: "set (matched_pairs l) = {(i, j). i < length l \<and> l ! i = Some j}"
  by (auto simp: matched_pairs_def split: option.splits)

lemma matched_pairs_fst: "map fst (matched_pairs l) = filter (\<lambda>i. l ! i \<noteq> None) [0..<length l]"
proof -
  have "map fst (concat (map (\<lambda>i. case l ! i of None \<Rightarrow> [] | Some j \<Rightarrow> [(i, j)]) xs)) = filter (\<lambda>i. l ! i \<noteq> None) xs" for xs
    by (induction xs) (auto split: option.split)
  then show ?thesis by (simp add: matched_pairs_def)
qed

lemma FindMax_ok:
  "\<exists>pairs. FindMaxBipartiteMatching g = Some (Inr pairs) \<and> distinct pairs \<and> is_matching g (set pairs) \<and>
    (\<forall>P. is_matching g P \<longrightarrow> card P \<le> length pairs)"
proof -
  let ?st = "MatchState_new g"
  have "closed g ?st {} {}" by (simp add: closed_def)
  then obtain st S T where r: "compute_loop g [0..<LhsSize g] ?st = Some (Inr st)" "state_ok g st" "closed g st S T"
    "\<forall>i < LhsSize g. left_match st ! i \<noteq> None \<or> i \<in> S"
    using compute_loop_ok [OF MatchState_new_ok(1), of "[0..<LhsSize g]" g "{}" "{}"] MatchState_new_ok(2) by auto
  let ?pairs = "matched_pairs (left_match st)"
  have len: "length (left_match st) = LhsSize g"
    and fw: "\<And>i k. i < LhsSize g \<Longrightarrow> left_match st ! i = Some k \<Longrightarrow> k < RhsSize g \<and> HasEdge g i k \<and> right_match st ! k = Some i"
    using r(2) unfolding state_ok_def by blast+
  have run: "FindMaxBipartiteMatching g = Some (Inr ?pairs)"
    using r(1) by (simp add: FindMaxBipartiteMatching_def Compute_def)
  have d: "distinct (map fst ?pairs)" unfolding matched_pairs_fst by simp
  have "inj_on snd (set ?pairs)"
    unfolding matched_pairs_set len using fw by (auto simp: inj_on_def) (metis option.inject)
  then have m: "is_matching g (set ?pairs)"
    using d fw unfolding is_matching_def by (auto simp: matched_pairs_set len distinct_map)
  have "length ?pairs = length (map fst ?pairs)" by simp
  also have "\<dots> = card {i. i < LhsSize g \<and> left_match st ! i \<noteq> None}"
    unfolding matched_pairs_fst len by (subst distinct_card [symmetric]) (auto intro: arg_cong [where f = card])
  finally have "card P \<le> length ?pairs" if "is_matching g P" for P
    using matching_bound [OF r(2-4) that] by simp
  then show ?thesis using run m d distinct_map by blast
qed

text \<open>
  C3: \<open>FindMaxBipartiteMatching\<close> returns for every matrix, its consistency check never fails, and its result
  is a matching that no matching of the matrix exceeds in size.
\<close>

theorem FindMaxBipartiteMatching_maximum:
  "\<exists>pairs. FindMaxBipartiteMatching g = Some (Inr pairs) \<and> distinct pairs \<and> is_matching g (set pairs) \<and>
    (\<forall>P. is_matching g P \<longrightarrow> card P \<le> length pairs)"
  by (rule FindMax_ok)

theorem FindMaxBipartiteMatching_maximum_witness:
  "\<exists>pairs. FindMaxBipartiteMatching (SetEdge 0 0 True (SetEdge 0 1 True (SetEdge 1 0 True (MatchMatrix_new 2 2)))) =
    Some (Inr pairs) \<and> 2 \<le> length pairs"
proof -
  let ?g = "SetEdge 0 0 True (SetEdge 0 1 True (SetEdge 1 0 True (MatchMatrix_new 2 2)))"
  have "is_matching ?g {(0, 1), (1, 0)}"
    by (simp add: is_matching_def HasEdge_def SetEdge_def MatchMatrix_new_def SpaceIndex_def LhsSize_def RhsSize_def
        numeral_2_eq_2 numeral_nat)
  moreover have "card {(0 :: nat, 1 :: nat), (1, 0)} = 2" by simp
  ultimately show ?thesis using FindMaxBipartiteMatching_maximum [of ?g] by metis
qed

end
