(* ===== verification/Gmock_Unordered.thy ===== *)
theory Gmock_Unordered
  imports Gmock_Matching
begin

text \<open>
  \<open>UnorderedElementsAre\<close> of the mocking library, on top of the maximum matching: building the matrix of
  matches, the quick check for unmatched rows and columns, the pairing, and the texts that
  explain the result (src/libs/googlemock/src/gmock-matchers.cc and
  src/libs/googlemock/include/gmock/gmock-matchers.h). A matcher is its predicate with its two
  descriptions; a listener is whether it is interested and what it was told. The lemmas show
  that the matcher accepts exactly the containers that some permutation makes match.
\<close>

section \<open>Definitions\<close>

record MatchResultListener =
  interested :: bool
  explanation :: bytes

definition tell :: "bytes \<Rightarrow> MatchResultListener \<Rightarrow> MatchResultListener" where
  "tell text l = (if interested l then l\<lparr>explanation := explanation l @ text\<rparr> else l)"

record 'e Matcher =
  matches_element :: "'e \<Rightarrow> bool"
  describe :: bytes
  describe_negation :: bytes

primrec log_pairs :: "bytes \<Rightarrow> (nat \<times> nat) list \<Rightarrow> bytes" where
  "log_pairs sep [] = []"
| "log_pairs sep (p # ps) =
     sep @ newline @ lit ''  ('' @ lit ''element #'' @ decimal (fst p) @ lit '', '' @
     lit ''matcher #'' @ decimal (snd p) @ lit '')'' @ log_pairs (lit '','') ps"

definition LogElementMatcherPairVec :: "(nat \<times> nat) list \<Rightarrow> bytes" where
  "LogElementMatcherPairVec pairs = lit ''{'' @ log_pairs [] pairs @ newline @ lit ''}''"

primrec explain_pairs :: "bytes \<Rightarrow> (nat \<times> nat) list \<Rightarrow> bytes" where
  "explain_pairs sep [] = []"
| "explain_pairs sep (p # ps) =
     sep @ lit '' - element #'' @ decimal (fst p) @ lit '' is matched by matcher #'' @ decimal (snd p) @
     explain_pairs (lit '','' @ newline) ps"

definition FindPairing :: "MatchMatrix \<Rightarrow> MatchResultListener \<Rightarrow> (bool \<times> MatchResultListener) res option" where
  "FindPairing matrix listener =
     map_option (\<lambda>r. rbind r (\<lambda>matches.
       let max_flow = length matches; result = (max_flow = RhsSize matrix)
       in if \<not> result then
            Inr (False, tell (lit ''where no permutation of the elements can '' @
              lit ''satisfy all matchers, and the closest match is '' @ decimal max_flow @ lit '' of '' @
              decimal (RhsSize matrix) @ lit '' matchers with the pairings:'' @ newline @
              LogElementMatcherPairVec matches) listener)
          else if length matches > 1 then
            Inr (True, tell (explain_pairs (lit ''where:'' @ newline) matches) listener)
          else Inr (True, listener)))
     (FindMaxBipartiteMatching matrix)"

definition Elements :: "nat \<Rightarrow> bytes" where
  "Elements n = decimal n @ lit '' element'' @ (if n = 1 then [] else lit ''s'')"

primrec describe_each :: "nat \<Rightarrow> bytes \<Rightarrow> bytes list \<Rightarrow> bytes" where
  "describe_each i sep [] = []"
| "describe_each i sep (d # ds) =
     sep @ lit '' - element #'' @ decimal i @ lit '' '' @ d @ describe_each (i + 1) (lit '', and'' @ newline) ds"

definition DescribeToImpl :: "'e Matcher list \<Rightarrow> bytes" where
  "DescribeToImpl ms =
     (if ms = [] then lit ''is empty''
      else if length ms = 1 then lit ''has '' @ Elements 1 @ lit '' and that element '' @ describe (ms ! 0)
      else lit ''has '' @ Elements (length ms) @
        lit '' and there exists some permutation of elements such that:'' @ newline @
        describe_each 0 [] (map describe ms))"

definition DescribeNegationToImpl :: "'e Matcher list \<Rightarrow> bytes" where
  "DescribeNegationToImpl ms =
     (if ms = [] then lit ''isn'' @ [39] @ lit ''t empty''
      else if length ms = 1 then
        lit ''doesn'' @ [39] @ lit ''t have '' @ Elements 1 @ lit '', or has '' @ Elements 1 @ lit '' that '' @
        describe_negation (ms ! 0)
      else lit ''doesn'' @ [39] @ lit ''t have '' @ Elements (length ms) @
        lit '', or there exists no permutation of elements such that:'' @ newline @
        describe_each 0 [] (map describe ms))"

text \<open>The marks of the rows and columns that have an edge.\<close>

primrec mark_cells :: "MatchMatrix \<Rightarrow> (nat \<times> nat) list \<Rightarrow> bool list \<times> bool list \<Rightarrow> bool list \<times> bool list" where
  "mark_cells matrix [] st = st"
| "mark_cells matrix (c # cs) st =
     (let matched = HasEdge matrix (fst c) (snd c)
      in mark_cells matrix cs
           ((fst st)[fst c := fst st ! fst c \<or> matched], (snd st)[snd c := snd st ! snd c \<or> matched]))"

primrec report_matchers ::
  "'e Matcher list \<Rightarrow> bool list \<Rightarrow> nat list \<Rightarrow> bytes \<Rightarrow> bool \<Rightarrow> MatchResultListener \<Rightarrow> bool \<times> MatchResultListener" where
  "report_matchers ms marks [] sep result l = (result, l)"
| "report_matchers ms marks (mi # is) sep result l =
     (if marks ! mi then report_matchers ms marks is sep result l
      else report_matchers ms marks is (lit '','' @ newline) False
             (tell (sep @ lit ''matcher #'' @ decimal mi @ lit '': '' @ describe (ms ! mi)) l))"

primrec report_elements ::
  "bytes list \<Rightarrow> bool list \<Rightarrow> nat list \<Rightarrow> bytes \<Rightarrow> bytes \<Rightarrow> bool \<Rightarrow> MatchResultListener \<Rightarrow> bool \<times> MatchResultListener" where
  "report_elements printouts marks [] outer_sep sep result l = (result, l)"
| "report_elements printouts marks (ei # is) outer_sep sep result l =
     (if marks ! ei then report_elements printouts marks is outer_sep sep result l
      else report_elements printouts marks is [] (lit '','' @ newline) False
             (if interested l
              then tell (outer_sep @ sep @ lit ''element #'' @ decimal ei @ lit '': '' @ printouts ! ei) l
              else l))"

definition VerifyAllElementsAndMatchersAreMatched ::
  "'e Matcher list \<Rightarrow> bytes list \<Rightarrow> MatchMatrix \<Rightarrow> MatchResultListener \<Rightarrow> bool \<times> MatchResultListener" where
  "VerifyAllElementsAndMatchersAreMatched ms element_printouts matrix listener =
     (case mark_cells matrix (cells matrix)
             (replicate (LhsSize matrix) False, replicate (RhsSize matrix) False) of
        (element_matched, matcher_matched) \<Rightarrow>
          case report_matchers ms matcher_matched [0..<length matcher_matched]
                 (lit ''where the following matchers don'' @ [39] @ lit ''t match any elements:'' @ newline) True listener of
            (result, l1) \<Rightarrow>
              report_elements element_printouts element_matched [0..<length element_matched]
                (if \<not> result then newline @ lit ''and '' else [])
                (lit ''where the following elements don'' @ [39] @ lit ''t match any matchers:'' @ newline) result l1)"

text \<open>
  \<open>AnalyzeElements\<close>: the printouts, made only for a listener that is interested, and the matrix. \<open>show_elem\<close>
  stands for \<open>PrintToString\<close>.
\<close>

primrec set_edges :: "bool list \<Rightarrow> (nat \<times> nat) list \<Rightarrow> MatchMatrix \<Rightarrow> MatchMatrix" where
  "set_edges did_match [] matrix = matrix"
| "set_edges did_match (c # cs) matrix = set_edges (tl did_match) cs (SetEdge (fst c) (snd c) (hd did_match) matrix)"

definition AnalyzeElements ::
  "('e \<Rightarrow> bytes) \<Rightarrow> 'e Matcher list \<Rightarrow> 'e list \<Rightarrow> MatchResultListener \<Rightarrow> MatchMatrix \<times> bytes list" where
  "AnalyzeElements show_elem ms elems listener =
     (let element_printouts = (if interested listener then map show_elem elems else []);
          did_match = concat (map (\<lambda>e. map (\<lambda>m. matches_element m e) ms) elems);
          matrix = MatchMatrix_new (length elems) (length ms)
      in (set_edges did_match (cells matrix) matrix, element_printouts))"

definition UnorderedElementsAre_MatchAndExplain ::
  "('e \<Rightarrow> bytes) \<Rightarrow> 'e Matcher list \<Rightarrow> 'e list \<Rightarrow> MatchResultListener \<Rightarrow> (bool \<times> MatchResultListener) res option" where
  "UnorderedElementsAre_MatchAndExplain show_elem ms elems listener =
     (case AnalyzeElements show_elem ms elems listener of (matrix, element_printouts) \<Rightarrow>
        let actual_count = LhsSize matrix
        in if actual_count = 0 \<and> ms = [] then Some (Inr (True, listener))
           else if actual_count \<noteq> length ms then
             Some (Inr (False, if actual_count \<noteq> 0 then tell (lit ''which has '' @ Elements actual_count) listener
                               else listener))
           else
             case VerifyAllElementsAndMatchersAreMatched ms element_printouts matrix listener of
               (False, l) \<Rightarrow> Some (Inr (False, l))
             | (True, l) \<Rightarrow> FindPairing matrix l)"

section \<open>Lemmas\<close>

subsection \<open>The matrix\<close>

definition matrix_ok :: "MatchMatrix \<Rightarrow> bool" where
  "matrix_ok g \<longleftrightarrow> length (matched g) = num_elements g * num_matchers g"

lemma MatchMatrix_new_ok [simp]: "matrix_ok (MatchMatrix_new n m)" "LhsSize (MatchMatrix_new n m) = n"
  "RhsSize (MatchMatrix_new n m) = m"
  by (simp_all add: matrix_ok_def MatchMatrix_new_def LhsSize_def RhsSize_def)

lemma SpaceIndex_less:
  assumes "i < LhsSize g" and "j < RhsSize g"
  shows "SpaceIndex g i j < num_elements g * num_matchers g"
proof -
  have "SpaceIndex g i j < i * num_matchers g + num_matchers g"
    using assms(2) by (simp add: SpaceIndex_def RhsSize_def)
  also have "\<dots> = Suc i * num_matchers g" by simp
  also have "\<dots> \<le> num_elements g * num_matchers g" using assms(1) by (intro mult_le_mono1) (simp add: LhsSize_def)
  finally show ?thesis .
qed

lemma SpaceIndex_inject:
  assumes "j < RhsSize g" and "l < RhsSize g"
  shows "SpaceIndex g i j = SpaceIndex g k l \<longleftrightarrow> i = k \<and> j = l"
proof
  assume e: "SpaceIndex g i j = SpaceIndex g k l"
  have m: "j < num_matchers g" "l < num_matchers g" using assms by (simp_all add: RhsSize_def)
  have "(i * num_matchers g + j) div num_matchers g = i" "(k * num_matchers g + l) div num_matchers g = k"
    using m by simp_all
  then have "i = k" using e unfolding SpaceIndex_def by metis
  then show "i = k \<and> j = l" using e by (simp add: SpaceIndex_def)
qed simp

lemma SetEdge_sizes [simp]: "LhsSize (SetEdge i j b g) = LhsSize g" "RhsSize (SetEdge i j b g) = RhsSize g"
  "matrix_ok (SetEdge i j b g) = matrix_ok g" "num_matchers (SetEdge i j b g) = num_matchers g"
  by (simp_all add: SetEdge_def LhsSize_def RhsSize_def matrix_ok_def)

lemma HasEdge_SetEdge:
  assumes "matrix_ok g" and "i < LhsSize g" and "j < RhsSize g" and "l < RhsSize g"
  shows "HasEdge (SetEdge i j b g) k l = (if k = i \<and> l = j then b else HasEdge g k l)"
proof -
  have "SpaceIndex (SetEdge i j b g) k l = SpaceIndex g k l" by (simp add: SpaceIndex_def)
  then show ?thesis
    using assms SpaceIndex_less [OF assms(2,3)] SpaceIndex_inject [OF assms(3,4), of i k]
    by (auto simp: HasEdge_def SetEdge_def matrix_ok_def nth_list_update)
qed


lemma cells_set [simp]: "set (cells g) = {..<LhsSize g} \<times> {..<RhsSize g}"
  by (auto simp: cells_def)

lemma cells_distinct [simp]: "distinct (cells g)"
  by (simp add: cells_def distinct_product flip: product_concat_map)

lemma cells_cong: "LhsSize g = LhsSize h \<Longrightarrow> RhsSize g = RhsSize h \<Longrightarrow> cells g = cells h"
  by (simp add: cells_def)

text \<open>Each cell of a list is set once, to the value at its place.\<close>

lemma set_edges_sizes [simp]: "LhsSize (set_edges ds cs g) = LhsSize g" "RhsSize (set_edges ds cs g) = RhsSize g"
  by (induction cs arbitrary: ds g) simp_all

lemma HasEdge_set_edges:
  assumes "matrix_ok g" and "set cs \<subseteq> {..<LhsSize g} \<times> {..<RhsSize g}" and "distinct cs" and "l < RhsSize g"
  shows "HasEdge (set_edges (map F cs) cs g) k l = (if (k, l) \<in> set cs then F (k, l) else HasEdge g k l)"
  using assms
proof (induction cs arbitrary: g)
  case (Cons c cs)
  obtain i j where c: "c = (i, j)" by fastforce
  have "HasEdge (set_edges (map F cs) cs (SetEdge i j (F c) g)) k l =
      (if (k, l) \<in> set cs then F (k, l) else HasEdge (SetEdge i j (F c) g) k l)"
    using Cons.prems by (intro Cons.IH) auto
  moreover have "HasEdge (SetEdge i j (F c) g) k l = (if k = i \<and> l = j then F c else HasEdge g k l)"
    using Cons.prems by (intro HasEdge_SetEdge) (auto simp: c)
  ultimately show ?case using Cons.prems(3) by (auto simp: c)
qed simp

lemma did_match_cells:
  assumes "LhsSize g = length elems" and "RhsSize g = length ms"
  shows "concat (map (\<lambda>e. map (\<lambda>m. matches_element m e) ms) elems) =
    map (\<lambda>(i, j). matches_element (ms ! j) (elems ! i)) (cells g)"
proof -
  have "map (\<lambda>e. map (\<lambda>m. matches_element m e) ms) elems =
      map (\<lambda>i. map (\<lambda>j. matches_element (ms ! j) (elems ! i)) [0..<length ms]) [0..<length elems]"
    by (rule nth_equalityI) (auto intro!: nth_equalityI)
  then show ?thesis by (simp add: cells_def assms map_concat comp_def)
qed

lemma AnalyzeElements_edges:
  assumes "AnalyzeElements show_elem ms elems listener = (g, ps)"
  shows "LhsSize g = length elems" and "RhsSize g = length ms"
    and "i < length elems \<Longrightarrow> j < length ms \<Longrightarrow> HasEdge g i j = matches_element (ms ! j) (elems ! i)"
proof -
  let ?m = "MatchMatrix_new (length elems) (length ms)"
  have g: "g = set_edges (map (\<lambda>(i, j). matches_element (ms ! j) (elems ! i)) (cells ?m)) (cells ?m) ?m"
    using assms did_match_cells [of ?m elems ms] by (simp add: AnalyzeElements_def Let_def)
  show "LhsSize g = length elems" "RhsSize g = length ms" by (simp_all add: g)
  show "HasEdge g i j = matches_element (ms ! j) (elems ! i)" if "i < length elems" "j < length ms"
    unfolding g using that by (subst HasEdge_set_edges) auto
qed

subsection \<open>The quick check\<close>

lemma mark_cells_marks:
  assumes "set cs \<subseteq> {..<length rows} \<times> {..<length cols}" and "mark_cells g cs (rows, cols) = (rows', cols')"
  shows "length rows' = length rows" and "length cols' = length cols"
    and "i < length rows \<Longrightarrow> rows' ! i \<longleftrightarrow> rows ! i \<or> (\<exists>j. (i, j) \<in> set cs \<and> HasEdge g i j)"
    and "j < length cols \<Longrightarrow> cols' ! j \<longleftrightarrow> cols ! j \<or> (\<exists>i. (i, j) \<in> set cs \<and> HasEdge g i j)"
proof -
  have "length rows' = length rows \<and> length cols' = length cols \<and>
      (\<forall>i < length rows. rows' ! i \<longleftrightarrow> rows ! i \<or> (\<exists>j. (i, j) \<in> set cs \<and> HasEdge g i j)) \<and>
      (\<forall>j < length cols. cols' ! j \<longleftrightarrow> cols ! j \<or> (\<exists>i. (i, j) \<in> set cs \<and> HasEdge g i j))"
    using assms
  proof (induction cs arbitrary: rows cols)
    case (Cons c cs)
    obtain a b where c: "c = (a, b)" by fastforce
    let ?rows = "rows[a := rows ! a \<or> HasEdge g a b]" and ?cols = "cols[b := cols ! b \<or> HasEdge g a b]"
    have "mark_cells g cs (?rows, ?cols) = (rows', cols')" using Cons.prems(2) by (simp add: c Let_def)
    moreover have "set cs \<subseteq> {..<length ?rows} \<times> {..<length ?cols}" using Cons.prems(1) by simp
    ultimately have ih: "length rows' = length ?rows" "length cols' = length ?cols"
      "\<And>i. i < length ?rows \<Longrightarrow> rows' ! i \<longleftrightarrow> ?rows ! i \<or> (\<exists>j. (i, j) \<in> set cs \<and> HasEdge g i j)"
      "\<And>j. j < length ?cols \<Longrightarrow> cols' ! j \<longleftrightarrow> ?cols ! j \<or> (\<exists>i. (i, j) \<in> set cs \<and> HasEdge g i j)"
      using Cons.IH by blast+
    show ?case using ih Cons.prems(1) by (auto simp: c nth_list_update split: if_splits)
  qed simp
  then show "length rows' = length rows" "length cols' = length cols"
    "i < length rows \<Longrightarrow> rows' ! i \<longleftrightarrow> rows ! i \<or> (\<exists>j. (i, j) \<in> set cs \<and> HasEdge g i j)"
    "j < length cols \<Longrightarrow> cols' ! j \<longleftrightarrow> cols ! j \<or> (\<exists>i. (i, j) \<in> set cs \<and> HasEdge g i j)"
    by blast+
qed

lemma report_matchers_result:
  "fst (report_matchers ms marks is sep result l) \<longleftrightarrow> result \<and> (\<forall>i \<in> set is. marks ! i)"
  by (induction "is" arbitrary: sep result l) auto

lemma report_elements_result:
  "fst (report_elements ps marks is outer_sep sep result l) \<longleftrightarrow> result \<and> (\<forall>i \<in> set is. marks ! i)"
  by (induction "is" arbitrary: outer_sep sep result l) auto

lemma Verify_result:
  "fst (VerifyAllElementsAndMatchersAreMatched ms ps g l) \<longleftrightarrow>
    (\<forall>i < LhsSize g. \<exists>j < RhsSize g. HasEdge g i j) \<and> (\<forall>j < RhsSize g. \<exists>i < LhsSize g. HasEdge g i j)"
proof -
  obtain rows cols where m: "mark_cells g (cells g) (replicate (LhsSize g) False, replicate (RhsSize g) False) = (rows, cols)"
    by fastforce
  have sub: "set (cells g) \<subseteq> {..<length (replicate (LhsSize g) False)} \<times> {..<length (replicate (RhsSize g) False)}"
    by simp
  note marks = mark_cells_marks [OF sub m]
  have rows: "(\<forall>i < length rows. rows ! i) \<longleftrightarrow> (\<forall>i < LhsSize g. \<exists>j < RhsSize g. HasEdge g i j)"
    using marks(1) marks(3) by auto
  have cols: "(\<forall>j < length cols. cols ! j) \<longleftrightarrow> (\<forall>j < RhsSize g. \<exists>i < LhsSize g. HasEdge g i j)"
    using marks(2) marks(4) by auto
  define report where "report = report_matchers ms cols [0..<length cols]
    (lit ''where the following matchers don'' @ [39] @ lit ''t match any elements:'' @ newline) True l"
  have "fst (VerifyAllElementsAndMatchersAreMatched ms ps g l) \<longleftrightarrow> fst report \<and> (\<forall>i < length rows. rows ! i)"
    unfolding VerifyAllElementsAndMatchersAreMatched_def m prod.case report_def [symmetric]
    by (simp add: case_prod_beta report_elements_result atLeast0LessThan lessThan_def)
  moreover have "fst report \<longleftrightarrow> (\<forall>j < length cols. cols ! j)"
    unfolding report_def by (simp add: report_matchers_result atLeast0LessThan lessThan_def)
  ultimately show ?thesis unfolding rows cols by blast
qed

subsection \<open>Permutations\<close>

text \<open>A square matrix has a matching that covers every column exactly when it has one given by a permutation.\<close>

definition permutation_fits :: "MatchMatrix \<Rightarrow> bool" where
  "permutation_fits g \<longleftrightarrow> (\<exists>f. bij_betw f {..<LhsSize g} {..<RhsSize g} \<and> (\<forall>i < LhsSize g. HasEdge g i (f i)))"

lemma permutation_is_matching:
  assumes "bij_betw f {..<LhsSize g} {..<RhsSize g}" and "\<forall>i < LhsSize g. HasEdge g i (f i)"
  shows "is_matching g ((\<lambda>i. (i, f i)) ` {..<LhsSize g})"
    and "card ((\<lambda>i. (i, f i)) ` {..<LhsSize g}) = RhsSize g"
proof -
  have inj: "inj_on f {..<LhsSize g}" and im: "\<And>i. i < LhsSize g \<Longrightarrow> f i < RhsSize g"
    using assms(1) by (auto simp: bij_betw_def)
  show "is_matching g ((\<lambda>i. (i, f i)) ` {..<LhsSize g})"
    using assms(2) inj im by (auto simp: is_matching_def inj_on_def)
  have "card ((\<lambda>i. (i, f i)) ` {..<LhsSize g}) = LhsSize g"
    by (subst card_image) (auto simp: inj_on_def)
  then show "card ((\<lambda>i. (i, f i)) ` {..<LhsSize g}) = RhsSize g"
    using bij_betw_same_card [OF assms(1)] by simp
qed

lemma matching_le_columns:
  assumes "is_matching g (set pairs)" and "distinct pairs"
  shows "length pairs \<le> RhsSize g"
proof -
  have "length pairs = card (snd ` set pairs)"
    using assms by (simp add: is_matching_def card_image distinct_card)
  also have "\<dots> \<le> card {..<RhsSize g}"
    using assms(1) by (intro card_mono) (auto simp: is_matching_def)
  finally show ?thesis by simp
qed

lemma full_matching_permutation:
  assumes m: "is_matching g (set pairs)" and d: "distinct pairs" and n: "length pairs = RhsSize g"
    and square: "LhsSize g = RhsSize g"
  shows "permutation_fits g"
proof -
  have sub: "\<And>i j. (i, j) \<in> set pairs \<Longrightarrow> i < LhsSize g \<and> j < RhsSize g \<and> HasEdge g i j"
    and inj: "inj_on fst (set pairs)" "inj_on snd (set pairs)"
    using m by (auto simp: is_matching_def)
  have "card (fst ` set pairs) = LhsSize g" using inj(1) d n square by (simp add: card_image distinct_card)
  then have fsts: "fst ` set pairs = {..<LhsSize g}"
    using sub by (intro card_subset_eq) auto
  define f where "f i = snd (inv_into (set pairs) fst i)" for i
  have f: "(i, f i) \<in> set pairs" if "i < LhsSize g" for i
  proof -
    have "i \<in> fst ` set pairs" using that fsts by simp
    then have "inv_into (set pairs) fst i \<in> set pairs" "fst (inv_into (set pairs) fst i) = i"
      by (simp_all add: inv_into_into f_inv_into_f)
    then show ?thesis unfolding f_def by (metis prod.collapse)
  qed
  have "inj_on f {..<LhsSize g}"
  proof (rule inj_onI)
    fix a b assume "a \<in> {..<LhsSize g}" "b \<in> {..<LhsSize g}" and e: "f a = f b"
    then have "(a, f a) \<in> set pairs" "(b, f b) \<in> set pairs" using f by blast+
    then have "(a, f a) = (b, f b)" using inj_onD [OF inj(2), of "(a, f a)" "(b, f b)"] e by simp
    then show "a = b" by simp
  qed
  moreover have "f ` {..<LhsSize g} \<subseteq> {..<RhsSize g}" using f sub by auto
  ultimately have "bij_betw f {..<LhsSize g} {..<RhsSize g}"
    unfolding bij_betw_def using square by (metis card_image card_lessThan card_subset_eq finite_lessThan)
  then show ?thesis using f sub unfolding permutation_fits_def by blast
qed

lemma FindPairing_result:
  assumes "LhsSize g = RhsSize g"
  shows "\<exists>l'. FindPairing g l = Some (Inr (permutation_fits g, l'))"
proof -
  obtain pairs where p: "FindMaxBipartiteMatching g = Some (Inr pairs)" "distinct pairs" "is_matching g (set pairs)"
    "\<forall>P. is_matching g P \<longrightarrow> card P \<le> length pairs"
    using FindMax_ok by blast
  have "length pairs = RhsSize g" if "permutation_fits g"
    using that p(4) permutation_is_matching matching_le_columns [OF p(3,2)] unfolding permutation_fits_def
    by (metis le_antisym)
  then have "permutation_fits g \<longleftrightarrow> length pairs = RhsSize g"
    using full_matching_permutation [OF p(3,2) _ assms] by blast
  then show ?thesis by (auto simp: FindPairing_def p(1) Let_def)
qed

lemma Verify_of_permutation:
  assumes "permutation_fits g"
  shows "fst (VerifyAllElementsAndMatchersAreMatched ms ps g l)"
proof -
  obtain f where f: "bij_betw f {..<LhsSize g} {..<RhsSize g}" "\<forall>i < LhsSize g. HasEdge g i (f i)"
    using assms unfolding permutation_fits_def by blast
  have "\<exists>j < RhsSize g. HasEdge g i j" if "i < LhsSize g" for i
    using f that bij_betwE by fastforce
  moreover have "\<exists>i < LhsSize g. HasEdge g i j" if "j < RhsSize g" for j
  proof -
    have "j \<in> f ` {..<LhsSize g}" using f(1) that by (simp add: bij_betw_def)
    then show ?thesis using f(2) by auto
  qed
  ultimately show ?thesis unfolding Verify_result by blast
qed

text \<open>
  C19: \<open>UnorderedElementsAre\<close> returns for every container and every list of matchers, and it accepts exactly the
  containers that have as many elements as there are matchers and whose elements some bijection assigns to
  matchers that match them.
\<close>

theorem UnorderedElementsAre_permutation:
  "\<exists>l'. UnorderedElementsAre_MatchAndExplain show_elem ms elems l =
     Some (Inr (length elems = length ms \<and>
       (\<exists>f. bij_betw f {..<length elems} {..<length ms} \<and>
         (\<forall>i < length elems. matches_element (ms ! f i) (elems ! i))), l'))"
proof -
  obtain g ps where a: "AnalyzeElements show_elem ms elems l = (g, ps)" by fastforce
  note e = AnalyzeElements_edges [OF a]
  have fits: "permutation_fits g \<longleftrightarrow> (\<exists>f. bij_betw f {..<length elems} {..<length ms} \<and>
      (\<forall>i < length elems. matches_element (ms ! f i) (elems ! i)))"
    unfolding permutation_fits_def e(1,2) using e(3) by (metis bij_betwE lessThan_iff)
  consider "elems = []" "ms = []" | "length elems \<noteq> length ms" | "length elems = length ms" "ms \<noteq> []"
    by (cases "ms = []") auto
  then show ?thesis
  proof cases
    case 1
    moreover have "bij_betw f {..<0 :: nat} {..<0 :: nat}" for f by (simp add: bij_betw_def)
    ultimately show ?thesis using a e(1) by (simp add: UnorderedElementsAre_MatchAndExplain_def)
  next
    case 2
    then show ?thesis by (auto simp: UnorderedElementsAre_MatchAndExplain_def a e Let_def)
  next
    case 3
    obtain b l1 where v: "VerifyAllElementsAndMatchersAreMatched ms ps g l = (b, l1)" by fastforce
    have step: "UnorderedElementsAre_MatchAndExplain show_elem ms elems l =
        (if b then FindPairing g l1 else Some (Inr (False, l1)))"
      using 3 by (simp add: UnorderedElementsAre_MatchAndExplain_def a e v Let_def split: bool.split)
    have "permutation_fits g \<Longrightarrow> b" using Verify_of_permutation [of g ms ps l] v by simp
    moreover obtain l2 where "FindPairing g l1 = Some (Inr (permutation_fits g, l2))"
      using FindPairing_result [of g l1] e 3 by auto
    ultimately show ?thesis unfolding step fits [symmetric] using 3 by (cases b) auto
  qed
qed

theorem UnorderedElementsAre_permutation_witness:
  "\<exists>l. UnorderedElementsAre_MatchAndExplain (\<lambda>_. [])
      [\<lparr>matches_element = \<lambda>x. x < 5, describe = lit ''is < 5'', describe_negation = lit ''is not < 5''\<rparr>,
       \<lparr>matches_element = \<lambda>x. x < (2 :: nat), describe = lit ''is < 2'', describe_negation = lit ''is not < 2''\<rparr>]
      [1, 4] \<lparr>interested = False, explanation = []\<rparr> = Some (Inr (True, l))"
proof -
  let ?f = "\<lambda>i. if i = 0 then 1 else 0 :: nat"
  let ?ms = "[\<lparr>matches_element = \<lambda>x. x < 5, describe = lit ''is < 5'', describe_negation = lit ''is not < 5''\<rparr>,
    \<lparr>matches_element = \<lambda>x. x < (2 :: nat), describe = lit ''is < 2'', describe_negation = lit ''is not < 2''\<rparr>]"
  have two: "{..<2} = {0, 1 :: nat}" by auto
  have "bij_betw ?f {..<length [1, 4 :: nat]} {..<length ?ms}"
    by (auto simp: bij_betw_def inj_on_def two)
  moreover have "\<forall>i < length [1, 4]. matches_element (?ms ! ?f i) ([1, 4] ! i)"
    by (simp add: less_Suc_eq)
  ultimately have "(\<exists>f. bij_betw f {..<length [1, 4 :: nat]} {..<length ?ms} \<and>
      (\<forall>i < length [1, 4]. matches_element (?ms ! f i) ([1, 4] ! i))) = True" by blast
  then show ?thesis
    using UnorderedElementsAre_permutation [of "\<lambda>_. []" ?ms "[1, 4]" "\<lparr>interested = False, explanation = []\<rparr>"]
    by simp
qed

end
