(* ===== verification/Gmock_Utils.thy ===== *)
theory Gmock_Utils
  imports Gtest_String Gmock_Unordered
begin

text \<open>
  Small parts of the mocking library that the rest of it shares: identifier names as words, tuples and
  matcher descriptions as text, file locations, the log with its verbosity
  (src/libs/googlemock/src/gmock-internal-utils.cc, src/libs/googlemock/src/gmock-matchers.cc,
  src/libs/googletest/src/gtest-port.cc), and cardinalities, that is how often a call is expected
  (src/libs/googlemock/src/gmock-cardinalities.cc, src/libs/googlemock/include/gmock/gmock-cardinalities.h).
  An \<open>int\<close> is an integer; \<open>Expect\<close> with a false condition yields the message it reports. The lemmas show
  that identifiers are split into exactly the words of their description, and that every cardinality the
  library makes is an interval of call counts, whatever bounds it is given.
\<close>

section \<open>Definitions\<close>

subsection \<open>Characters and words\<close>

definition IsUpper :: "byte \<Rightarrow> bool" where "IsUpper ch \<longleftrightarrow> 65 \<le> ch \<and> ch \<le> 90"
definition IsLower :: "byte \<Rightarrow> bool" where "IsLower ch \<longleftrightarrow> 97 \<le> ch \<and> ch \<le> 122"
definition IsAlpha :: "byte \<Rightarrow> bool" where "IsAlpha ch \<longleftrightarrow> IsUpper ch \<or> IsLower ch"
definition IsDigit :: "byte \<Rightarrow> bool" where "IsDigit ch \<longleftrightarrow> 48 \<le> ch \<and> ch \<le> 57"
definition IsAlNum :: "byte \<Rightarrow> bool" where "IsAlNum ch \<longleftrightarrow> IsAlpha ch \<or> IsDigit ch"

primrec words_loop :: "byte \<Rightarrow> bytes \<Rightarrow> bytes \<Rightarrow> bytes" where
  "words_loop prev_char result [] = result"
| "words_loop prev_char result (p # ps) =
     (let starts_new_word = IsUpper p \<or> (\<not> IsAlpha prev_char \<and> IsLower p) \<or> (\<not> IsDigit prev_char \<and> IsDigit p)
      in words_loop p
           (if IsAlNum p then (if starts_new_word \<and> result \<noteq> [] then result @ [32] else result) @ [to_lower p]
            else result) ps)"

definition ConvertIdentifierNameToWords :: "bytes \<Rightarrow> bytes" where
  "ConvertIdentifierNameToWords id_name = words_loop 0 [] (until_nul id_name)"

definition JoinAsTuple :: "bytes list \<Rightarrow> bytes" where
  "JoinAsTuple field_texts =
     (case field_texts of
        [] \<Rightarrow> []
      | [f] \<Rightarrow> f
      | f # fs \<Rightarrow> lit ''('' @ f @ concat (map (\<lambda>g. lit '', '' @ g) fs) @ lit '')'')"

definition FormatMatcherDescription :: "bool \<Rightarrow> bytes \<Rightarrow> bytes list \<Rightarrow> bytes" where
  "FormatMatcherDescription negation matcher_name param_values =
     (let result = ConvertIdentifierNameToWords matcher_name @
        (if length param_values \<ge> 1 then lit '' '' @ JoinAsTuple param_values else [])
      in if negation then lit ''not ('' @ result @ lit '')'' else result)"

subsection \<open>Locations and the log\<close>

definition kUnknownFile :: bytes where "kUnknownFile = lit ''unknown file''"

definition FormatFileLocation :: "bytes option \<Rightarrow> int \<Rightarrow> bytes" where
  "FormatFileLocation file_ptr line =
     (let file_name = (case file_ptr of None \<Rightarrow> kUnknownFile | Some f \<Rightarrow> f)
      in if line < 0 then file_name @ lit '':''
         else file_name @ lit '':'' @ decimal_int line @ lit '':'')"

definition FormatCompilerIndependentFileLocation :: "bytes option \<Rightarrow> int \<Rightarrow> bytes" where
  "FormatCompilerIndependentFileLocation file_ptr line =
     (let file_name = (case file_ptr of None \<Rightarrow> kUnknownFile | Some f \<Rightarrow> f)
      in if line < 0 then file_name else file_name @ lit '':'' @ decimal_int line)"

datatype LogSeverity = kInfo | kWarning

definition kInfoVerbosity :: bytes where "kInfoVerbosity = lit ''info''"
definition kWarningVerbosity :: bytes where "kWarningVerbosity = lit ''warning''"
definition kErrorVerbosity :: bytes where "kErrorVerbosity = lit ''error''"

definition LogIsVisible :: "bytes \<Rightarrow> LogSeverity \<Rightarrow> bool" where
  "LogIsVisible verbose severity =
     (if verbose = kInfoVerbosity then True
      else if verbose = kErrorVerbosity then False
      else severity = kWarning)"

definition CurrentStackTrace :: bytes where "CurrentStackTrace = []"

text \<open>What \<open>Log\<close> writes to the standard output.\<close>

definition Gmock_Log :: "bytes \<Rightarrow> LogSeverity \<Rightarrow> bytes \<Rightarrow> int \<Rightarrow> bytes" where
  "Gmock_Log verbose severity message stack_frames_to_skip =
     (if \<not> LogIsVisible verbose severity then []
      else (if severity = kWarning then newline @ lit ''GMOCK WARNING:'' else []) @
        (if message = [] \<or> hd message \<noteq> 10 then newline else []) @ message @
        (if stack_frames_to_skip \<ge> 0
         then (if message \<noteq> [] \<and> last message \<noteq> 10 then newline else []) @
           lit ''Stack trace:'' @ newline @ CurrentStackTrace
         else []))"

definition LogWithLocation :: "bytes \<Rightarrow> LogSeverity \<Rightarrow> bytes \<Rightarrow> int \<Rightarrow> bytes \<Rightarrow> bytes" where
  "LogWithLocation verbose severity file_name line message =
     Gmock_Log verbose severity (file_name @ lit '':'' @ decimal_int line @ lit '': '' @ message @ newline) 0"

subsection \<open>Cardinalities\<close>

definition INT_MAX :: int where "INT_MAX = 2147483647"

record CardinalityInterface =
  ConservativeLowerBound :: int
  ConservativeUpperBound :: int
  IsSatisfiedByCallCount :: "int \<Rightarrow> bool"
  IsSaturatedByCallCount :: "int \<Rightarrow> bool"
  DescribeCardinality :: bytes

definition IsOverSaturatedByCallCount :: "CardinalityInterface \<Rightarrow> int \<Rightarrow> bool" where
  "IsOverSaturatedByCallCount impl call_count \<longleftrightarrow>
     IsSaturatedByCallCount impl call_count \<and> \<not> IsSatisfiedByCallCount impl call_count"

definition FormatTimes :: "int \<Rightarrow> bytes" where
  "FormatTimes n =
     (if n = 1 then lit ''once'' else if n = 2 then lit ''twice'' else decimal_int n @ lit '' times'')"

definition BetweenCardinality_DescribeTo :: "int \<Rightarrow> int \<Rightarrow> bytes" where
  "BetweenCardinality_DescribeTo min_count max_count =
     (if min_count = 0 then
        (if max_count = 0 then lit ''never called''
         else if max_count = INT_MAX then lit ''called any number of times''
         else lit ''called at most '' @ FormatTimes max_count)
      else if min_count = max_count then lit ''called '' @ FormatTimes min_count
      else if max_count = INT_MAX then lit ''called at least '' @ FormatTimes min_count
      else lit ''called between '' @ decimal_int min_count @ lit '' and '' @ decimal_int max_count @ lit '' times'')"

definition BetweenCardinalityImpl :: "int \<Rightarrow> int \<Rightarrow> CardinalityInterface" where
  "BetweenCardinalityImpl min_arg max_arg =
     (let min_count = (if min_arg \<ge> 0 then min_arg else 0);
          max_count = (if max_arg \<ge> min_count then max_arg else min_count)
      in \<lparr>ConservativeLowerBound = min_count, ConservativeUpperBound = max_count,
          IsSatisfiedByCallCount = (\<lambda>call_count. min_count \<le> call_count \<and> call_count \<le> max_count),
          IsSaturatedByCallCount = (\<lambda>call_count. call_count \<ge> max_count),
          DescribeCardinality = BetweenCardinality_DescribeTo min_count max_count\<rparr>)"

text \<open>The failure that the constructor reports, if any.\<close>

definition BetweenCardinality_check :: "int \<Rightarrow> int \<Rightarrow> bytes option" where
  "BetweenCardinality_check min_arg max_arg =
     (if min_arg < 0 then
        Some (lit ''The invocation lower bound must be >= 0, '' @ lit ''but is actually '' @ decimal_int min_arg @ lit ''.'')
      else if max_arg < 0 then
        Some (lit ''The invocation upper bound must be >= 0, '' @ lit ''but is actually '' @ decimal_int max_arg @ lit ''.'')
      else if min_arg > max_arg then
        Some (lit ''The invocation upper bound ('' @ decimal_int max_arg @
          lit '') must be >= the invocation lower bound ('' @ decimal_int min_arg @ lit '').'')
      else None)"

definition Between :: "int \<Rightarrow> int \<Rightarrow> CardinalityInterface \<times> bytes option" where
  "Between min_arg max_arg = (BetweenCardinalityImpl min_arg max_arg, BetweenCardinality_check min_arg max_arg)"

definition AtLeast :: "int \<Rightarrow> CardinalityInterface \<times> bytes option" where "AtLeast n = Between n INT_MAX"
definition AtMost :: "int \<Rightarrow> CardinalityInterface \<times> bytes option" where "AtMost n = Between 0 n"
definition AnyNumber :: "CardinalityInterface \<times> bytes option" where "AnyNumber = AtLeast 0"
definition Exactly :: "int \<Rightarrow> CardinalityInterface \<times> bytes option" where "Exactly n = Between n n"

definition DescribeActualCallCountTo :: "int \<Rightarrow> bytes" where
  "DescribeActualCallCountTo actual_call_count =
     (if actual_call_count > 0 then lit ''called '' @ FormatTimes actual_call_count else lit ''never called'')"

section \<open>Lemmas\<close>

subsection \<open>Words of an identifier\<close>

text \<open>A capital or small letter with the small letters after it, or digits, make a word.\<close>

function identifier_words :: "bytes \<Rightarrow> bytes list" where
  "identifier_words [] = []"
| "identifier_words (c # cs) =
     (if IsAlpha c then (to_lower c # takeWhile IsLower cs) # identifier_words (dropWhile IsLower cs)
      else if IsDigit c then (c # takeWhile IsDigit cs) # identifier_words (dropWhile IsDigit cs)
      else identifier_words cs)"
  by pat_completeness auto
termination
  by (relation "measure length") (auto simp: le_imp_less_Suc length_dropWhile_le)

definition spaced :: "bytes list \<Rightarrow> bytes" where
  "spaced ws = (case ws of [] \<Rightarrow> [] | w # vs \<Rightarrow> w @ concat (map (\<lambda>v. 32 # v) vs))"

lemma spaced_Nil [simp]: "spaced [] = []"
  by (simp add: spaced_def)

lemma spaced_snoc: "spaced (ws @ [w]) = (if ws = [] then w else spaced ws @ 32 # w)"
  by (cases ws) (simp_all add: spaced_def)

lemma char_classes:
  "IsUpper c \<Longrightarrow> IsAlpha c \<and> IsAlNum c \<and> \<not> IsDigit c \<and> \<not> IsLower c"
  "IsLower c \<Longrightarrow> IsAlpha c \<and> IsAlNum c \<and> \<not> IsDigit c \<and> \<not> IsUpper c \<and> to_lower c = c"
  "IsDigit c \<Longrightarrow> \<not> IsAlpha c \<and> IsAlNum c \<and> \<not> IsUpper c \<and> \<not> IsLower c \<and> to_lower c = c"
  by (auto simp: IsUpper_def IsLower_def IsAlpha_def IsAlNum_def IsDigit_def to_lower_def word_le_nat_alt)

lemma words_loop_word:
  "IsAlpha p \<Longrightarrow> words_loop p result cs = words_loop (last (p # takeWhile IsLower cs)) (result @ takeWhile IsLower cs) (dropWhile IsLower cs)"
  "IsDigit p \<Longrightarrow> words_loop p result cs = words_loop (last (p # takeWhile IsDigit cs)) (result @ takeWhile IsDigit cs) (dropWhile IsDigit cs)"
  by (induction cs arbitrary: p result) (auto simp: Let_def dest!: char_classes)

lemma last_takeWhile_class: "P p \<Longrightarrow> P (last (p # takeWhile P cs))"
  by (cases "takeWhile P cs = []") (auto dest: last_in_set set_takeWhileD)

lemma words_loop_words:
  assumes "IsAlpha prev \<Longrightarrow> cs \<noteq> [] \<Longrightarrow> \<not> IsLower (hd cs)" and "IsDigit prev \<Longrightarrow> cs \<noteq> [] \<Longrightarrow> \<not> IsDigit (hd cs)"
    and "[] \<notin> set ws"
  shows "words_loop prev (spaced ws) cs = spaced (ws @ identifier_words cs)"
  using assms
proof (induction cs arbitrary: prev ws rule: identifier_words.induct)
  case (2 c cs)
  have spaced_nil: "spaced ws = [] \<longleftrightarrow> ws = []" using 2(6) by (auto simp: spaced_def split: list.splits)
  have hd_drop: "dropWhile P cs \<noteq> [] \<Longrightarrow> \<not> P (hd (dropWhile P cs))" for P using hd_dropWhile by blast
  consider (alpha) "IsAlpha c" | (digit) "IsDigit c" | (other) "\<not> IsAlpha c" "\<not> IsDigit c" by blast
  then show ?case
  proof cases
    case alpha
    let ?w = "to_lower c # takeWhile IsLower cs" and ?last = "last (c # takeWhile IsLower cs)"
    have start: "IsUpper c \<or> \<not> IsAlpha prev \<and> IsLower c" using alpha 2(4) by (auto simp: IsAlpha_def)
    have "words_loop prev (spaced ws) (c # cs) = words_loop c (spaced (ws @ [[to_lower c]])) cs"
      using start alpha by (auto simp: Let_def spaced_snoc spaced_nil IsAlNum_def)
    also have "\<dots> = words_loop ?last (spaced (ws @ [?w])) (dropWhile IsLower cs)"
      by (subst words_loop_word(1) [OF alpha]) (simp add: spaced_snoc)
    also have "\<dots> = spaced ((ws @ [?w]) @ identifier_words (dropWhile IsLower cs))"
    proof (rule 2(1) [OF alpha])
      have "IsAlpha ?last"
      proof (cases "takeWhile IsLower cs = []")
        case False
        have "IsLower (last (takeWhile IsLower cs))" using set_takeWhileD [OF last_in_set [OF False]] by blast
        then have "IsLower ?last" using False by simp
        then show ?thesis using char_classes(2) by blast
      qed (use alpha in simp)
      then show "IsDigit ?last \<Longrightarrow> dropWhile IsLower cs \<noteq> [] \<Longrightarrow> \<not> IsDigit (hd (dropWhile IsLower cs))"
        using char_classes(3) by blast
    qed (use hd_drop 2(6) in auto)
    finally show ?thesis using alpha by simp
  next
    case digit
    then have na: "\<not> IsAlpha c" using char_classes(3) by blast
    let ?w = "c # takeWhile IsDigit cs" and ?last = "last (c # takeWhile IsDigit cs)"
    have "\<not> IsDigit prev" using digit 2(5) by auto
    then have "words_loop prev (spaced ws) (c # cs) = words_loop c (spaced (ws @ [[c]])) cs"
      using digit char_classes(3) [OF digit] by (auto simp: Let_def spaced_snoc spaced_nil)
    also have "\<dots> = words_loop ?last (spaced (ws @ [?w])) (dropWhile IsDigit cs)"
      by (subst words_loop_word(2) [OF digit]) (simp add: spaced_snoc)
    also have "\<dots> = spaced ((ws @ [?w]) @ identifier_words (dropWhile IsDigit cs))"
    proof (rule 2(2) [OF na digit])
      show "IsAlpha ?last \<Longrightarrow> dropWhile IsDigit cs \<noteq> [] \<Longrightarrow> \<not> IsLower (hd (dropWhile IsDigit cs))"
        using last_takeWhile_class [of IsDigit c cs, OF digit] char_classes(3) by blast
    qed (use hd_drop 2(6) in auto)
    finally show ?thesis using digit na by simp
  next
    case other
    then have "\<not> IsAlNum c" "\<not> IsUpper c" "\<not> IsLower c" by (auto simp: IsAlNum_def IsAlpha_def)
    then show ?thesis using 2(3) [OF other(1,2), of c ws] other 2(6) by (simp add: Let_def)
  qed
qed simp

text \<open>
  \<open>ConvertIdentifierNameToWords\<close> is its description: the maximal words of the identifier, each a letter with
  the small letters after it or a run of digits, in lower case and with single spaces between them.
\<close>

theorem ConvertIdentifierNameToWords_words:
  "ConvertIdentifierNameToWords id_name = spaced (identifier_words (until_nul id_name))"
  using words_loop_words [of 0 "until_nul id_name" "[]"]
  by (simp add: ConvertIdentifierNameToWords_def spaced_def IsAlpha_def IsUpper_def IsLower_def IsDigit_def)

lemma example_words:
  "ConvertIdentifierNameToWords (lit ''FooBar123'') = lit ''foo bar 123''"
  "ConvertIdentifierNameToWords (lit ''foo_bar_123'') = lit ''foo bar 123''"
  by code_simp+

subsection \<open>Cardinalities as intervals\<close>

text \<open>What an expectation relies on: the satisfying counts are an interval, and saturation starts at its end.\<close>

locale call_limits =
  fixes satisfied saturated :: "int \<Rightarrow> bool" and lower upper :: int
  assumes ordered: "0 \<le> lower" "lower \<le> upper"
    and satisfied_iff: "satisfied n \<longleftrightarrow> lower \<le> n \<and> n \<le> upper"
    and saturated_iff: "saturated n \<longleftrightarrow> upper \<le> n"
begin

lemma over_saturated_iff: "saturated n \<and> \<not> satisfied n \<longleftrightarrow> upper < n"
  using ordered by (auto simp: satisfied_iff saturated_iff)

lemma satisfied_until_saturated: "satisfied n \<Longrightarrow> \<not> saturated n \<Longrightarrow> satisfied (n + 1)"
  by (simp add: satisfied_iff saturated_iff)

lemma saturated_stays: "saturated n \<Longrightarrow> saturated (n + 1)"
  by (simp add: saturated_iff)

lemma not_satisfied_cases: "\<not> satisfied n \<longleftrightarrow> n < lower \<or> saturated n \<and> \<not> satisfied n"
  using ordered by (auto simp: satisfied_iff saturated_iff)

end

definition limits_of :: "CardinalityInterface \<Rightarrow> bool" where
  "limits_of c \<longleftrightarrow> call_limits (IsSatisfiedByCallCount c) (IsSaturatedByCallCount c)
     (ConservativeLowerBound c) (ConservativeUpperBound c)"

lemma limits_ofD:
  assumes "limits_of c"
  shows "0 \<le> ConservativeLowerBound c" "ConservativeLowerBound c \<le> ConservativeUpperBound c"
    "IsSatisfiedByCallCount c n \<longleftrightarrow> ConservativeLowerBound c \<le> n \<and> n \<le> ConservativeUpperBound c"
    "IsSaturatedByCallCount c n \<longleftrightarrow> ConservativeUpperBound c \<le> n"
    "IsOverSaturatedByCallCount c n \<longleftrightarrow> ConservativeUpperBound c < n"
    "\<not> IsSatisfiedByCallCount c n \<longleftrightarrow> n < ConservativeLowerBound c \<or> IsOverSaturatedByCallCount c n"
proof -
  note limits = assms [unfolded limits_of_def]
  show "0 \<le> ConservativeLowerBound c" "ConservativeLowerBound c \<le> ConservativeUpperBound c"
    using call_limits.ordered [OF limits] by simp_all
  show "IsSatisfiedByCallCount c n \<longleftrightarrow> ConservativeLowerBound c \<le> n \<and> n \<le> ConservativeUpperBound c"
    by (rule call_limits.satisfied_iff [OF limits])
  show "IsSaturatedByCallCount c n \<longleftrightarrow> ConservativeUpperBound c \<le> n"
    by (rule call_limits.saturated_iff [OF limits])
  show "IsOverSaturatedByCallCount c n \<longleftrightarrow> ConservativeUpperBound c < n"
    unfolding IsOverSaturatedByCallCount_def by (rule call_limits.over_saturated_iff [OF limits])
  show "\<not> IsSatisfiedByCallCount c n \<longleftrightarrow> n < ConservativeLowerBound c \<or> IsOverSaturatedByCallCount c n"
    unfolding IsOverSaturatedByCallCount_def by (rule call_limits.not_satisfied_cases [OF limits])
qed

interpretation between: call_limits "IsSatisfiedByCallCount (BetweenCardinalityImpl a b)"
  "IsSaturatedByCallCount (BetweenCardinalityImpl a b)"
  "ConservativeLowerBound (BetweenCardinalityImpl a b)" "ConservativeUpperBound (BetweenCardinalityImpl a b)"
  for a b
  by unfold_locales (auto simp: BetweenCardinalityImpl_def Let_def)

lemma limits_of_made [simp]:
  "limits_of (fst (Between a b))" "limits_of (fst (AtLeast a))" "limits_of (fst (AtMost a))"
  "limits_of (fst AnyNumber)" "limits_of (fst (Exactly a))"
  using between.call_limits_axioms
  by (simp_all add: limits_of_def Between_def AtLeast_def AtMost_def AnyNumber_def Exactly_def)

text \<open>
  Without a reported failure, \<open>Between\<close> accepts exactly the call counts between its arguments, is saturated
  from the upper one on and over-saturated beyond it; with one, it still is an interval of counts.
\<close>

theorem Between_interval:
  "(snd (Between a b) = None \<longleftrightarrow> 0 \<le> a \<and> a \<le> b) \<and>
   (0 \<le> a \<and> a \<le> b \<longrightarrow>
      (IsSatisfiedByCallCount (fst (Between a b)) n \<longleftrightarrow> a \<le> n \<and> n \<le> b) \<and>
      (IsSaturatedByCallCount (fst (Between a b)) n \<longleftrightarrow> b \<le> n) \<and>
      (IsOverSaturatedByCallCount (fst (Between a b)) n \<longleftrightarrow> b < n)) \<and>
   limits_of (fst (Between a b))"
  using limits_of_made(1) [of a b]
  by (auto simp: Between_def BetweenCardinality_check_def BetweenCardinalityImpl_def IsOverSaturatedByCallCount_def)

theorem Between_interval_witness:
  "IsOverSaturatedByCallCount (fst (Between 1 3)) 4 \<and> \<not> IsSatisfiedByCallCount (fst (Between 1 3)) 0"
  using Between_interval [of 1 3 4] Between_interval [of 1 3 0] by simp

end
