(* ===== verification/Gmock_Expectation.thy ===== *)
theory Gmock_Expectation
  imports Gmock_Utils
begin

text \<open>
  The expectations of the mocking library: class \<open>ExpectationBase\<close> with \<open>TypedExpectation\<close>, sequences and the
  clauses of \<open>EXPECT_CALL\<close> (src/libs/googlemock/src/gmock-spec-builders.cc,
  src/libs/googlemock/include/gmock/gmock-spec-builders.h). Expectation objects live in a store, because sequences,
  pre-requisites and mock functions share them; an address that is not in the store is dangling. The type of the
  argument tuples and of what actions do are parameters; a matcher for the arguments is its predicate with
  the texts that explain it. Failures reported to the test library and text printed are events. Recursion over
  pre-requisites may not end on a cyclic graph, so it is a partial function.
  The lemmas show that on the graphs that clauses build it ends, which pre-requisites it visits, and how a
  call changes an expectation.
\<close>

section \<open>Definitions\<close>

subsection \<open>Partial functions that may fault\<close>

definition obind :: "'a res option \<Rightarrow> ('a \<Rightarrow> 'b res option) \<Rightarrow> 'b res option" where
  "obind m f = Option.bind m (\<lambda>r. case r of Inl e \<Rightarrow> Some (Inl e) | Inr x \<Rightarrow> f x)"

lemma obind_simps [simp]: "obind (Some (Inr x)) f = f x" "obind (Some (Inl e)) f = Some (Inl e)" "obind None f = None"
  by (simp_all add: obind_def)

lemma obind_mono [partial_function_mono]:
  assumes "mono_option B" and "\<And>y. mono_option (\<lambda>f. C y f)"
  shows "mono_option (\<lambda>f. obind (B f) (\<lambda>y. C y f))"
  unfolding obind_def
proof (rule bind_mono [OF assms(1)])
  show "mono_option (\<lambda>f. case y of Inl e \<Rightarrow> Some (Inl e) | Inr x \<Rightarrow> C x f)" for y
    by (cases y) (simp_all add: assms(2) option.const_mono)
qed

subsection \<open>State\<close>

datatype 'x Action = DoDefault | Act 'x

datatype Clause =
  kNone | kWith | kTimes | kInSequence | kAfter | kWillOnce | kWillRepeatedly | kRetiresOnSaturation

primrec clause_number :: "Clause \<Rightarrow> nat" where
  "clause_number kNone = 0"
| "clause_number kWith = 1"
| "clause_number kTimes = 2"
| "clause_number kInSequence = 3"
| "clause_number kAfter = 4"
| "clause_number kWillOnce = 5"
| "clause_number kWillRepeatedly = 6"
| "clause_number kRetiresOnSaturation = 7"

instantiation Clause :: linorder
begin

definition less_eq_Clause :: "Clause \<Rightarrow> Clause \<Rightarrow> bool" where
  "less_eq_Clause a b \<longleftrightarrow> clause_number a \<le> clause_number b"

definition less_Clause :: "Clause \<Rightarrow> Clause \<Rightarrow> bool" where
  "less_Clause a b \<longleftrightarrow> clause_number a < clause_number b"

instance
proof
  fix a b :: Clause
  show "a \<le> b \<Longrightarrow> b \<le> a \<Longrightarrow> a = b"
    by (cases a; cases b; simp add: less_eq_Clause_def)
qed (auto simp: less_eq_Clause_def less_Clause_def)

end

record ('a, 'x) Expectation =
  exp_file :: "bytes option"
  exp_line :: int
  source_text :: bytes
  cardinality_specified :: bool
  cardinality :: CardinalityInterface
  immediate_prerequisites :: "nat list"
  call_count :: int
  retired :: bool
  untyped_actions :: "'x Action list"
  extra_matcher_specified :: bool
  repeated_action_specified :: bool
  retires_on_saturation :: bool
  last_clause :: Clause
  action_count_checked :: bool
  owner :: nat
  tuple_matches :: "'a \<Rightarrow> bool"
  tuple_failure :: "'a \<Rightarrow> bytes"
  extra_matcher :: "'a Matcher"
  extra_explanation :: "'a \<Rightarrow> bytes"
  repeated_action :: "'x Action"

datatype Event = Failure "bytes option" int bytes | Printed bytes

record ('a, 'x) Gmock =
  exps :: "nat \<Rightarrow> ('a, 'x) Expectation option"
  sequences :: "nat \<Rightarrow> nat option option"
  implicit_sequence :: "nat option"
  events :: "Event list"
  verbose :: bytes

definition get_exp :: "nat \<Rightarrow> ('a, 'x, 'z) Gmock_scheme \<Rightarrow> ('a, 'x) Expectation res" where
  "get_exp a s = (case exps s a of None \<Rightarrow> Inl Dangling | Some e \<Rightarrow> Inr e)"

definition put_exp :: "nat \<Rightarrow> ('a, 'x) Expectation \<Rightarrow> ('a, 'x, 'z) Gmock_scheme \<Rightarrow> ('a, 'x, 'z) Gmock_scheme" where
  "put_exp a e s = s\<lparr>exps := (exps s)(a \<mapsto> e)\<rparr>"

definition emit :: "Event \<Rightarrow> ('a, 'x, 'z) Gmock_scheme \<Rightarrow> ('a, 'x, 'z) Gmock_scheme" where
  "emit ev s = s\<lparr>events := events s @ [ev]\<rparr>"

definition Expect :: "bool \<Rightarrow> bytes option \<Rightarrow> int \<Rightarrow> bytes \<Rightarrow> ('a, 'x, 'z) Gmock_scheme \<Rightarrow> ('a, 'x, 'z) Gmock_scheme" where
  "Expect condition file_name line msg s = (if condition then s else emit (Failure file_name line msg) s)"

definition log_to :: "LogSeverity \<Rightarrow> bytes \<Rightarrow> int \<Rightarrow> ('a, 'x, 'z) Gmock_scheme \<Rightarrow> ('a, 'x, 'z) Gmock_scheme" where
  "log_to severity message frames s =
     (if LogIsVisible (verbose s) severity then emit (Printed (Gmock_Log (verbose s) severity message frames)) s else s)"

subsection \<open>Expectations\<close>

definition Expectation_new ::
  "nat \<Rightarrow> bytes option \<Rightarrow> int \<Rightarrow> bytes \<Rightarrow> ('a \<Rightarrow> bool) \<Rightarrow> ('a \<Rightarrow> bytes) \<Rightarrow> ('a, 'x) Expectation" where
  "Expectation_new own a_file a_line a_source_text m explain =
     \<lparr>exp_file = a_file, exp_line = a_line, source_text = a_source_text, cardinality_specified = False,
      cardinality = fst (Exactly 1), immediate_prerequisites = [], call_count = 0, retired = False,
      untyped_actions = [], extra_matcher_specified = False, repeated_action_specified = False,
      retires_on_saturation = False, last_clause = kNone, action_count_checked = False, owner = own,
      tuple_matches = m, tuple_failure = explain,
      extra_matcher = \<lparr>matches_element = \<lambda>_. True, describe = lit ''is anything'',
        describe_negation = lit ''never matches''\<rparr>,
      extra_explanation = \<lambda>_. [], repeated_action = DoDefault\<rparr>"

definition DescribeLocationTo :: "('a, 'x) Expectation \<Rightarrow> bytes" where
  "DescribeLocationTo e = FormatFileLocation (exp_file e) (exp_line e) @ lit '' ''"

definition IsSatisfied :: "('a, 'x) Expectation \<Rightarrow> bool" where
  "IsSatisfied e \<longleftrightarrow> IsSatisfiedByCallCount (cardinality e) (call_count e)"

definition IsSaturated :: "('a, 'x) Expectation \<Rightarrow> bool" where
  "IsSaturated e \<longleftrightarrow> IsSaturatedByCallCount (cardinality e) (call_count e)"

definition IsOverSaturated :: "('a, 'x) Expectation \<Rightarrow> bool" where
  "IsOverSaturated e \<longleftrightarrow> IsOverSaturatedByCallCount (cardinality e) (call_count e)"

definition IncrementCallCount :: "('a, 'x) Expectation \<Rightarrow> ('a, 'x) Expectation res" where
  "IncrementCallCount e =
     (if call_count e = INT_MAX then Inl Undefined_arith else Inr (e\<lparr>call_count := call_count e + 1\<rparr>))"

definition Retire :: "('a, 'x) Expectation \<Rightarrow> ('a, 'x) Expectation" where
  "Retire e = e\<lparr>retired := True\<rparr>"

definition SpecifyCardinality :: "CardinalityInterface \<Rightarrow> ('a, 'x) Expectation \<Rightarrow> ('a, 'x) Expectation" where
  "SpecifyCardinality c e = e\<lparr>cardinality_specified := True, cardinality := c\<rparr>"

definition DescribeCallCountTo :: "('a, 'x) Expectation \<Rightarrow> bytes" where
  "DescribeCallCountTo e =
     lit ''         Expected: to be '' @ DescribeCardinality (cardinality e) @ newline @
     lit ''           Actual: '' @ DescribeActualCallCountTo (call_count e) @ lit '' - '' @
     (if IsOverSaturated e then lit ''over-saturated''
      else if IsSaturated e then lit ''saturated''
      else if IsSatisfied e then lit ''satisfied'' else lit ''unsatisfied'') @
     lit '' and '' @ (if retired e then lit ''retired'' else lit ''active'')"

definition MaybeDescribeExtraMatcherTo :: "('a, 'x) Expectation \<Rightarrow> bytes" where
  "MaybeDescribeExtraMatcherTo e =
     (if extra_matcher_specified e
      then lit ''    Expected args: '' @ describe (extra_matcher e) @ newline else [])"

definition Matches :: "('a, 'x) Expectation \<Rightarrow> 'a \<Rightarrow> bool" where
  "Matches e args \<longleftrightarrow> tuple_matches e args \<and> matches_element (extra_matcher e) args"

text \<open>An \<open>ExpectationSet\<close> is ordered by address.\<close>

definition ExpectationSet_add :: "nat list \<Rightarrow> nat \<Rightarrow> nat list" where
  "ExpectationSet_add xs a = (if a \<in> set xs then xs else insort a xs)"

subsection \<open>Pre-requisites\<close>

partial_function (option) retire_loop ::
  "nat list \<Rightarrow> ('a, 'x, 'z) Gmock_scheme \<Rightarrow> ('a, 'x, 'z) Gmock_scheme res option" where
  "retire_loop ps s =
     (case ps of
        [] \<Rightarrow> Some (Inr s)
      | p # ps' \<Rightarrow>
          obind (Some (get_exp p s)) (\<lambda>e.
          if retired e then retire_loop ps' s
          else obind (retire_loop (immediate_prerequisites e) s) (\<lambda>s1.
               obind (Some (get_exp p s1)) (\<lambda>e1. retire_loop ps' (put_exp p (Retire e1) s1)))))"

definition RetireAllPreRequisites ::
  "nat \<Rightarrow> ('a, 'x, 'z) Gmock_scheme \<Rightarrow> ('a, 'x, 'z) Gmock_scheme res option" where
  "RetireAllPreRequisites a s =
     obind (Some (get_exp a s)) (\<lambda>e.
     if retired e then Some (Inr s) else retire_loop (immediate_prerequisites e) s)"

partial_function (option) satisfied_loop :: "nat list \<Rightarrow> ('a, 'x, 'z) Gmock_scheme \<Rightarrow> bool res option" where
  "satisfied_loop ps s =
     (case ps of
        [] \<Rightarrow> Some (Inr True)
      | p # ps' \<Rightarrow>
          obind (Some (get_exp p s)) (\<lambda>e.
          if \<not> IsSatisfied e then Some (Inr False)
          else obind (satisfied_loop (immediate_prerequisites e) s) (\<lambda>b.
               if \<not> b then Some (Inr False) else satisfied_loop ps' s)))"

definition AllPrerequisitesAreSatisfied :: "nat \<Rightarrow> ('a, 'x, 'z) Gmock_scheme \<Rightarrow> bool res option" where
  "AllPrerequisitesAreSatisfied a s =
     obind (Some (get_exp a s)) (\<lambda>e. satisfied_loop (immediate_prerequisites e) s)"

partial_function (option) unsatisfied_loop ::
  "nat list \<Rightarrow> nat list \<Rightarrow> ('a, 'x, 'z) Gmock_scheme \<Rightarrow> nat list res option" where
  "unsatisfied_loop ps result s =
     (case ps of
        [] \<Rightarrow> Some (Inr result)
      | p # ps' \<Rightarrow>
          obind (Some (get_exp p s)) (\<lambda>e.
          if IsSatisfied e then
            (if call_count e = 0
             then obind (unsatisfied_loop (immediate_prerequisites e) result s) (\<lambda>r. unsatisfied_loop ps' r s)
             else unsatisfied_loop ps' result s)
          else unsatisfied_loop ps' (ExpectationSet_add result p) s))"

definition FindUnsatisfiedPrerequisites ::
  "nat \<Rightarrow> nat list \<Rightarrow> ('a, 'x, 'z) Gmock_scheme \<Rightarrow> nat list res option" where
  "FindUnsatisfiedPrerequisites a result s =
     obind (Some (get_exp a s)) (\<lambda>e. unsatisfied_loop (immediate_prerequisites e) result s)"

subsection \<open>Actions and clauses\<close>

definition CheckActionCountIfNotDone :: "nat \<Rightarrow> ('a, 'x, 'z) Gmock_scheme \<Rightarrow> ('a, 'x, 'z) Gmock_scheme res" where
  "CheckActionCountIfNotDone a s =
     rbind (get_exp a s) (\<lambda>e.
     if action_count_checked e then Inr s
     else
       let s1 = put_exp a (e\<lparr>action_count_checked := True\<rparr>) s;
           action_count = int (length (untyped_actions e));
           upper_bound = ConservativeUpperBound (cardinality e);
           lower_bound = ConservativeLowerBound (cardinality e);
           many = (action_count > upper_bound \<or> (action_count = upper_bound \<and> repeated_action_specified e));
           few = (0 < action_count \<and> action_count < lower_bound \<and> \<not> repeated_action_specified e)
       in if \<not> cardinality_specified e then Inr s1
          else if many \<or> few then
            Inr (log_to kWarning
              (DescribeLocationTo e @ lit ''Too '' @ (if many then lit ''many'' else lit ''few'') @
               lit '' actions specified in '' @ source_text e @ lit ''...'' @ newline @
               lit ''Expected to be '' @ DescribeCardinality (cardinality e) @
               lit '', but has '' @ (if many then [] else lit ''only '') @ decimal_int action_count @
               lit '' WillOnce()'' @ (if action_count = 1 then [] else lit ''s'') @
               (if repeated_action_specified e then lit '' and a WillRepeatedly()'' else []) @ lit ''.'') (- 1) s1)
          else Inr s1)"

definition ExpectSpecProperty ::
  "bool \<Rightarrow> bytes \<Rightarrow> ('a, 'x) Expectation \<Rightarrow> ('a, 'x, 'z) Gmock_scheme \<Rightarrow> ('a, 'x, 'z) Gmock_scheme" where
  "ExpectSpecProperty property failure_message e s = Expect property (exp_file e) (exp_line e) failure_message s"

definition With ::
  "'a Matcher \<Rightarrow> ('a \<Rightarrow> bytes) \<Rightarrow> nat \<Rightarrow> ('a, 'x, 'z) Gmock_scheme \<Rightarrow> ('a, 'x, 'z) Gmock_scheme res" where
  "With m explain a s =
     rbind (get_exp a s) (\<lambda>e.
     let s1 = (if last_clause e = kWith
               then ExpectSpecProperty False (lit ''.With() cannot appear '' @ lit ''more than once in an EXPECT_CALL().'') e s
               else ExpectSpecProperty (last_clause e < kWith)
                 (lit ''.With() must be the first '' @ lit ''clause in an EXPECT_CALL().'') e s)
     in Inr (put_exp a (e\<lparr>last_clause := kWith, extra_matcher := m, extra_explanation := explain,
          extra_matcher_specified := True\<rparr>) s1))"

definition UntypedTimes ::
  "CardinalityInterface \<Rightarrow> nat \<Rightarrow> ('a, 'x, 'z) Gmock_scheme \<Rightarrow> ('a, 'x, 'z) Gmock_scheme res" where
  "UntypedTimes a_cardinality a s =
     rbind (get_exp a s) (\<lambda>e.
     let s1 = (if last_clause e = kTimes
               then ExpectSpecProperty False (lit ''.Times() cannot appear '' @ lit ''more than once in an EXPECT_CALL().'') e s
               else ExpectSpecProperty (last_clause e < kTimes)
                 (lit ''.Times() cannot appear after '' @
                  lit ''.InSequence(), .WillOnce(), .WillRepeatedly(), '' @ lit ''or .RetiresOnSaturation().'') e s)
     in Inr (put_exp a (SpecifyCardinality a_cardinality (e\<lparr>last_clause := kTimes\<rparr>)) s1))"

definition AddExpectation :: "nat \<Rightarrow> nat \<Rightarrow> ('a, 'x, 'z) Gmock_scheme \<Rightarrow> ('a, 'x, 'z) Gmock_scheme res" where
  "AddExpectation q a s =
     (case sequences s q of
        None \<Rightarrow> Inl Dangling
      | Some last_expectation \<Rightarrow>
          if last_expectation \<noteq> Some a then
            rbind (case last_expectation of
                     None \<Rightarrow> Inr s
                   | Some p \<Rightarrow>
                       rbind (get_exp a s) (\<lambda>e.
                       Inr (put_exp a (e\<lparr>immediate_prerequisites :=
                         ExpectationSet_add (immediate_prerequisites e) p\<rparr>) s)))
              (\<lambda>s1. Inr (s1\<lparr>sequences := (sequences s1)(q \<mapsto> Some a)\<rparr>))
          else Inr s)"

definition After :: "nat list \<Rightarrow> nat \<Rightarrow> ('a, 'x, 'z) Gmock_scheme \<Rightarrow> ('a, 'x, 'z) Gmock_scheme res" where
  "After es a s =
     rbind (get_exp a s) (\<lambda>e.
     let s1 = ExpectSpecProperty (last_clause e \<le> kAfter)
                (lit ''.After() cannot appear after .WillOnce(),'' @ lit '' .WillRepeatedly(), or '' @
                 lit ''.RetiresOnSaturation().'') e s
     in Inr (put_exp a (e\<lparr>last_clause := kAfter, immediate_prerequisites :=
          foldl ExpectationSet_add (immediate_prerequisites e) es\<rparr>) s1))"

definition WillOnce :: "'x Action \<Rightarrow> nat \<Rightarrow> ('a, 'x, 'z) Gmock_scheme \<Rightarrow> ('a, 'x, 'z) Gmock_scheme res" where
  "WillOnce action a s =
     rbind (get_exp a s) (\<lambda>e.
     let s1 = ExpectSpecProperty (last_clause e \<le> kWillOnce)
                (lit ''.WillOnce() cannot appear after '' @ lit ''.WillRepeatedly() or .RetiresOnSaturation().'') e s;
         e1 = e\<lparr>last_clause := kWillOnce, untyped_actions := untyped_actions e @ [action]\<rparr>
     in Inr (put_exp a
          (if \<not> cardinality_specified e1
           then e1\<lparr>cardinality := fst (Exactly (int (length (untyped_actions e1))))\<rparr> else e1) s1))"

definition WillRepeatedly :: "'x Action \<Rightarrow> nat \<Rightarrow> ('a, 'x, 'z) Gmock_scheme \<Rightarrow> ('a, 'x, 'z) Gmock_scheme res" where
  "WillRepeatedly action a s =
     rbind (get_exp a s) (\<lambda>e.
     let s1 = (if last_clause e = kWillRepeatedly
               then ExpectSpecProperty False
                 (lit ''.WillRepeatedly() cannot appear '' @ lit ''more than once in an EXPECT_CALL().'') e s
               else ExpectSpecProperty (last_clause e < kWillRepeatedly)
                 (lit ''.WillRepeatedly() cannot appear '' @ lit ''after .RetiresOnSaturation().'') e s);
         e1 = e\<lparr>last_clause := kWillRepeatedly, repeated_action_specified := True, repeated_action := action\<rparr>
     in CheckActionCountIfNotDone a
          (put_exp a
            (if \<not> cardinality_specified e1
             then e1\<lparr>cardinality := fst (AtLeast (int (length (untyped_actions e1))))\<rparr> else e1) s1))"

definition RetiresOnSaturation :: "nat \<Rightarrow> ('a, 'x, 'z) Gmock_scheme \<Rightarrow> ('a, 'x, 'z) Gmock_scheme res" where
  "RetiresOnSaturation a s =
     rbind (get_exp a s) (\<lambda>e.
     let s1 = ExpectSpecProperty (last_clause e < kRetiresOnSaturation)
                (lit ''.RetiresOnSaturation() cannot appear '' @ lit ''more than once.'') e s
     in CheckActionCountIfNotDone a
          (put_exp a (e\<lparr>last_clause := kRetiresOnSaturation, retires_on_saturation := True\<rparr>) s1))"

subsection \<open>Handling a call\<close>

definition ShouldHandleArguments ::
  "nat \<Rightarrow> 'a \<Rightarrow> ('a, 'x, 'z) Gmock_scheme \<Rightarrow> (bool \<times> ('a, 'x, 'z) Gmock_scheme) res option" where
  "ShouldHandleArguments a args s =
     obind (Some (CheckActionCountIfNotDone a s)) (\<lambda>s1.
     obind (Some (get_exp a s1)) (\<lambda>e.
     if retired e then Some (Inr (False, s1))
     else obind (AllPrerequisitesAreSatisfied a s1) (\<lambda>b.
          if \<not> b then Some (Inr (False, s1)) else Some (Inr (Matches e args, s1)))))"

primrec describe_locations :: "nat \<Rightarrow> nat list \<Rightarrow> ('a, 'x, 'z) Gmock_scheme \<Rightarrow> bytes res" where
  "describe_locations i [] s = Inr []"
| "describe_locations i (p # ps) s =
     rbind (get_exp p s) (\<lambda>e.
     rbind (describe_locations (i + 1) ps s) (\<lambda>rest.
     Inr (DescribeLocationTo e @ lit ''pre-requisite #'' @ decimal i @ newline @ rest)))"

definition PrintIfNotEmpty :: "bytes \<Rightarrow> bytes" where
  "PrintIfNotEmpty text = (if text \<noteq> [] then lit '', '' @ text else [])"

definition ExplainMatchResultTo :: "nat \<Rightarrow> 'a \<Rightarrow> ('a, 'x, 'z) Gmock_scheme \<Rightarrow> bytes res option" where
  "ExplainMatchResultTo a args s =
     obind (Some (get_exp a s)) (\<lambda>e.
     if retired e then
       Some (Inr (lit ''         Expected: the expectation is active'' @ newline @
         lit ''           Actual: it is retired'' @ newline))
     else if \<not> Matches e args then
       Some (Inr ((if \<not> tuple_matches e args then tuple_failure e args else []) @
         (if \<not> matches_element (extra_matcher e) args then
            lit ''    Expected args: '' @ describe (extra_matcher e) @ newline @
            lit ''           Actual: don'' @ [39] @ lit ''t match'' @
            PrintIfNotEmpty (extra_explanation e args) @ newline
          else [])))
     else obind (AllPrerequisitesAreSatisfied a s) (\<lambda>b.
       if \<not> b then
         obind (FindUnsatisfiedPrerequisites a [] s) (\<lambda>unsatisfied_prereqs.
         obind (Some (describe_locations 0 unsatisfied_prereqs s)) (\<lambda>text.
         Some (Inr (lit ''         Expected: all pre-requisites are satisfied'' @ newline @
           lit ''           Actual: the following immediate pre-requisites '' @ lit ''are not satisfied:'' @ newline @
           text @ lit ''                   (end of pre-requisites)'' @ newline))))
       else Some (Inr (lit ''The call matches the expectation.'' @ newline))))"

definition GetCurrentAction ::
  "bytes \<Rightarrow> nat \<Rightarrow> ('a, 'x, 'z) Gmock_scheme \<Rightarrow> ('x Action \<times> ('a, 'x, 'z) Gmock_scheme) res" where
  "GetCurrentAction default_action_text a s =
     rbind (get_exp a s) (\<lambda>e.
     let count = call_count e; action_count = int (length (untyped_actions e))
     in if \<not> count \<ge> 1 then Inl Aborted
        else
          let s1 = (if action_count > 0 \<and> \<not> repeated_action_specified e \<and> count > action_count
                    then log_to kWarning
                      (DescribeLocationTo e @ lit ''Actions ran out in '' @ source_text e @ lit ''...'' @ newline @
                       lit ''Called '' @ decimal_int count @ lit '' times, but only '' @ decimal_int action_count @
                       lit '' WillOnce()'' @ (if action_count = 1 then lit '' is'' else lit ''s are'') @
                       lit '' specified - '' @ default_action_text) 1 s
                    else s)
          in if count \<le> action_count
             then (if nat (count - 1) < length (untyped_actions e)
                   then Inr (untyped_actions e ! nat (count - 1), s1) else Inl Out_of_bounds)
             else Inr (repeated_action e, s1))"

text \<open>
  \<open>GetActionForArguments\<close> returns the action, if there is one, with what it writes to \<open>what\<close> and \<open>why\<close>.
\<close>

definition GetActionForArguments ::
  "bytes \<Rightarrow> nat \<Rightarrow> ('a, 'x, 'z) Gmock_scheme \<Rightarrow>
   ('x Action option \<times> bytes \<times> bytes \<times> ('a, 'x, 'z) Gmock_scheme) res option" where
  "GetActionForArguments default_action_text a s =
     obind (Some (get_exp a s)) (\<lambda>e.
     if IsSaturated e then
       obind (Some (IncrementCallCount e)) (\<lambda>e1.
       Some (Inr (None, lit ''Mock function called more times than expected - '' @ default_action_text,
         DescribeCallCountTo e1, put_exp a e1 s)))
     else
       obind (Some (IncrementCallCount e)) (\<lambda>e1.
       obind (RetireAllPreRequisites a (put_exp a e1 s)) (\<lambda>s2.
       obind (Some (get_exp a s2)) (\<lambda>e2.
       let s3 = (if retires_on_saturation e2 \<and> IsSaturated e2 then put_exp a (Retire e2) s2 else s2)
       in obind (Some (GetCurrentAction default_action_text a s3)) (\<lambda>(action, s4).
          Some (Inr (Some action, lit ''Mock function call matches '' @ source_text e @ lit ''...'' @ newline, [], s4)))))))"

section \<open>Lemmas\<close>

subsection \<open>The graph of pre-requisites\<close>

text \<open>\<open>requires s a p\<close>: the expectation \<open>p\<close> is a pre-requisite of \<open>a\<close>, directly or through others.\<close>

inductive requires :: "('a, 'x, 'z) Gmock_scheme \<Rightarrow> nat \<Rightarrow> nat \<Rightarrow> bool" for s where
  direct: "exps s a = Some e \<Longrightarrow> p \<in> set (immediate_prerequisites e) \<Longrightarrow> requires s a p"
| through: "exps s a = Some e \<Longrightarrow> p \<in> set (immediate_prerequisites e) \<Longrightarrow> requires s p q \<Longrightarrow> requires s a q"

definition ranked :: "('a, 'x, 'z) Gmock_scheme \<Rightarrow> (nat \<Rightarrow> nat) \<Rightarrow> bool" where
  "ranked s r \<longleftrightarrow> (\<forall>a e p. exps s a = Some e \<longrightarrow> p \<in> set (immediate_prerequisites e) \<longrightarrow> p \<in> dom (exps s) \<and> r p < r a)"

definition graph_ok :: "('a, 'x, 'z) Gmock_scheme \<Rightarrow> bool" where
  "graph_ok s \<longleftrightarrow> (\<exists>r. ranked s r)"

definition sat :: "('a, 'x, 'z) Gmock_scheme \<Rightarrow> nat \<Rightarrow> bool" where
  "sat s p \<longleftrightarrow> (\<exists>e. exps s p = Some e \<and> IsSatisfied e)"

definition is_retired :: "('a, 'x, 'z) Gmock_scheme \<Rightarrow> nat \<Rightarrow> bool" where
  "is_retired s p \<longleftrightarrow> (\<exists>e. exps s p = Some e \<and> retired e)"

text \<open>``We never retire an expectation until we have retired all its pre-requisites.''\<close>

definition retired_closed :: "('a, 'x, 'z) Gmock_scheme \<Rightarrow> bool" where
  "retired_closed s \<longleftrightarrow>
     (\<forall>a e p. exps s a = Some e \<longrightarrow> retired e \<longrightarrow> p \<in> set (immediate_prerequisites e) \<longrightarrow> is_retired s p)"

lemma rankedD: "ranked s r \<Longrightarrow> exps s a = Some e \<Longrightarrow> p \<in> set (immediate_prerequisites e) \<Longrightarrow> p \<in> dom (exps s) \<and> r p < r a"
  unfolding ranked_def by blast

lemma requires_rank:
  assumes "requires s a p" and "ranked s r"
  shows "p \<in> dom (exps s) \<and> r p < r a"
  using assms by (induction rule: requires.induct) (use rankedD order_less_trans in blast)+

lemma requires_trans: "requires s a p \<Longrightarrow> requires s p q \<Longrightarrow> requires s a q"
  by (induction rule: requires.induct) (blast intro: requires.through)+

lemma requires_retired:
  assumes "requires s a p" and "retired_closed s" and "is_retired s a"
  shows "is_retired s p"
  using assms by (induction rule: requires.induct) (fastforce simp: retired_closed_def is_retired_def)+

lemma requires_iff:
  assumes "exps s a = Some e"
  shows "requires s a q \<longleftrightarrow> (\<exists>p \<in> set (immediate_prerequisites e). q = p \<or> requires s p q)"
  using assms by (subst requires.simps) auto

lemma get_exp_Some [simp]: "exps s a = Some e \<Longrightarrow> get_exp a s = Inr e"
  by (simp add: get_exp_def)

lemma exps_put_exp [simp]: "exps (put_exp a e s) = (exps s)(a \<mapsto> e)"
  by (simp add: put_exp_def)

subsection \<open>What the recursions over pre-requisites compute\<close>

lemma satisfied_loop_ok:
  assumes "ranked s r" and "\<forall>p \<in> set ps. p \<in> dom (exps s) \<and> r p < n"
  shows "satisfied_loop ps s = Some (Inr (\<forall>p \<in> set ps. sat s p \<and> (\<forall>q. requires s p q \<longrightarrow> sat s q)))"
  using assms(2)
proof (induction n arbitrary: ps rule: less_induct)
  case (less n)
  show ?case
    using less.prems
  proof (induction ps)
    case Nil
    then show ?case by (simp add: satisfied_loop.simps)
  next
    case (Cons p ps)
    obtain e where e: "exps s p = Some e" using Cons.prems by auto
    have below: "\<forall>q \<in> set (immediate_prerequisites e). q \<in> dom (exps s) \<and> r q < r p"
      using rankedD [OF assms(1) e] by blast
    have deep: "satisfied_loop (immediate_prerequisites e) s = Some (Inr (\<forall>q. requires s p q \<longrightarrow> sat s q))"
      using less.IH [OF _ below] Cons.prems by (auto simp: requires_iff [OF e])
    have rest: "satisfied_loop ps s = Some (Inr (\<forall>p \<in> set ps. sat s p \<and> (\<forall>q. requires s p q \<longrightarrow> sat s q)))"
      using Cons by simp
    have "sat s p = IsSatisfied e" by (simp add: sat_def e)
    then show ?case by (subst satisfied_loop.simps) (simp add: e deep rest)
  qed
qed

lemma AllPrerequisitesAreSatisfied_ok:
  assumes "graph_ok s" and "exps s a = Some e"
  shows "AllPrerequisitesAreSatisfied a s = Some (Inr (\<forall>q. requires s a q \<longrightarrow> sat s q))"
proof -
  obtain r where r: "ranked s r" using assms(1) unfolding graph_ok_def by blast
  have "\<forall>p \<in> set (immediate_prerequisites e). p \<in> dom (exps s) \<and> r p < r a" using rankedD [OF r assms(2)] by blast
  from satisfied_loop_ok [OF r this]
  show ?thesis by (auto simp: AllPrerequisitesAreSatisfied_def assms(2) requires_iff [OF assms(2)])
qed

definition retire_set :: "nat set \<Rightarrow> ('a, 'x, 'z) Gmock_scheme \<Rightarrow> ('a, 'x, 'z) Gmock_scheme" where
  "retire_set A s = s\<lparr>exps := (\<lambda>q. if q \<in> A then map_option Retire (exps s q) else exps s q)\<rparr>"

lemma Retire_simps [simp]: "immediate_prerequisites (Retire e) = immediate_prerequisites e" "retired (Retire e)"
  "Retire (Retire e) = Retire e" "IsSatisfied (Retire e) = IsSatisfied e" "IsSaturated (Retire e) = IsSaturated e"
  "call_count (Retire e) = call_count e" "cardinality (Retire e) = cardinality e"
  by (simp_all add: Retire_def IsSatisfied_def IsSaturated_def)

lemma Retire_id: "retired e \<Longrightarrow> Retire e = e"
  by (cases e) (simp add: Retire_def)

lemma exps_retire_set: "exps (retire_set A s) q = (if q \<in> A then map_option Retire (exps s q) else exps s q)"
  by (simp add: retire_set_def)

lemma retire_set_retire_set: "retire_set B (retire_set A s) = retire_set (A \<union> B) s"
  by (auto simp: retire_set_def fun_eq_iff option.map_comp comp_def)

lemma retire_set_empty [simp]: "retire_set {} s = s"
  by (simp add: retire_set_def)

lemma put_Retire: "exps s p = Some e \<Longrightarrow> put_exp p (Retire e) s = retire_set {p} s"
  by (auto simp: put_exp_def retire_set_def fun_eq_iff)

lemma retire_set_id:
  assumes "\<forall>q \<in> A. is_retired s q"
  shows "retire_set A s = s"
proof -
  have "(if q \<in> A then map_option Retire (exps s q) else exps s q) = exps s q" for q
    using assms Retire_id by (fastforce simp: is_retired_def)
  then show ?thesis by (simp add: retire_set_def)
qed

lemma dom_retire_set [simp]: "dom (exps (retire_set A s)) = dom (exps s)"
  by (auto simp: exps_retire_set split: if_splits)

lemma prerequisites_retire_set:
  "exps (retire_set A s) a = Some e \<Longrightarrow> \<exists>e'. exps s a = Some e' \<and> immediate_prerequisites e' = immediate_prerequisites e"
  by (auto simp: exps_retire_set split: if_splits)

lemma prerequisites_retire_set':
  "exps s a = Some e \<Longrightarrow> \<exists>e'. exps (retire_set A s) a = Some e' \<and> immediate_prerequisites e' = immediate_prerequisites e"
  by (auto simp: exps_retire_set)

lemma ranked_retire_set [simp]: "ranked (retire_set A s) r \<longleftrightarrow> ranked s r"
  unfolding ranked_def dom_retire_set
  by (metis prerequisites_retire_set prerequisites_retire_set')

lemma requires_same_edges:
  assumes "requires s a p"
    and "\<And>a e. exps s a = Some e \<Longrightarrow> \<exists>e'. exps s' a = Some e' \<and> immediate_prerequisites e' = immediate_prerequisites e"
  shows "requires s' a p"
  using assms(1)
proof (induction rule: requires.induct)
  case (direct a e p)
  then show ?case using assms(2) requires.direct by metis
next
  case (through a e p q)
  then show ?case using assms(2) requires.through by metis
qed

lemma requires_retire_set [simp]: "requires (retire_set A s) a p \<longleftrightarrow> requires s a p"
  by (meson requires_same_edges prerequisites_retire_set prerequisites_retire_set')

lemma is_retired_retire_set: "is_retired (retire_set A s) q \<longleftrightarrow> is_retired s q \<or> q \<in> A \<and> q \<in> dom (exps s)"
  by (auto simp: is_retired_def exps_retire_set)

lemma retired_closed_retire_set:
  assumes "retired_closed s" and "\<And>a p. a \<in> A \<Longrightarrow> requires s a p \<Longrightarrow> p \<in> A" and "ranked s r"
  shows "retired_closed (retire_set A s)"
  unfolding retired_closed_def
proof (intro allI impI)
  fix a e p
  assume e: "exps (retire_set A s) a = Some e" and r: "retired e" and p: "p \<in> set (immediate_prerequisites e)"
  obtain e' where e': "exps s a = Some e'" "immediate_prerequisites e' = immediate_prerequisites e"
    using prerequisites_retire_set [OF e] by blast
  have "is_retired (retire_set A s) a" using e r by (auto simp: is_retired_def)
  then consider "is_retired s a" | "a \<in> A" unfolding is_retired_retire_set by blast
  then show "is_retired (retire_set A s) p"
  proof cases
    case 1
    then have "retired e'" by (simp add: is_retired_def e')
    then have "is_retired s p" using assms(1) e' p unfolding retired_closed_def by metis
    then show ?thesis by (simp add: is_retired_retire_set)
  next
    case 2
    then have "p \<in> A" using assms(2) requires.direct e' p by metis
    then show ?thesis using rankedD [OF assms(3)] e' p unfolding is_retired_retire_set by metis
  qed
qed

lemma retire_loop_ok:
  assumes "ranked s r" and "retired_closed s" and "\<forall>p \<in> set ps. p \<in> dom (exps s) \<and> r p < n"
  shows "retire_loop ps s = Some (Inr (retire_set {q. \<exists>p \<in> set ps. q = p \<or> requires s p q} s))"
  using assms
proof (induction n arbitrary: ps s rule: less_induct)
  case (less n)
  show ?case
    using less.prems
  proof (induction ps arbitrary: s)
    case Nil
    then show ?case by (simp add: retire_loop.simps)
  next
    case (Cons p ps)
    obtain e where e: "exps s p = Some e" using Cons.prems by auto
    let ?A = "{q. q = p \<or> requires s p q}" and ?B = "{q. \<exists>p \<in> set ps. q = p \<or> requires s p q}"
    have AB: "{q. \<exists>p' \<in> set (p # ps). q = p' \<or> requires s p' q} = ?A \<union> ?B" by auto
    show ?case
    proof (cases "retired e")
      case True
      then have "is_retired s p" by (simp add: is_retired_def e)
      then have "\<forall>q \<in> ?A. is_retired s q" using requires_retired [OF _ Cons.prems(2)] by blast
      then have "retire_set (?A \<union> ?B) s = retire_set ?B s"
        using retire_set_id [of ?A s] retire_set_retire_set [of ?B ?A s] by simp
      moreover have "retire_loop (p # ps) s = retire_loop ps s" by (subst retire_loop.simps) (simp add: e True)
      ultimately show ?thesis using Cons.IH [OF Cons.prems(1,2)] Cons.prems(3) unfolding AB by simp
    next
      case False
      let ?R = "{q. requires s p q}"
      have below: "\<forall>q \<in> set (immediate_prerequisites e). q \<in> dom (exps s) \<and> r q < r p"
        using rankedD [OF Cons.prems(1) e] by blast
      have deep: "retire_loop (immediate_prerequisites e) s = Some (Inr (retire_set ?R s))"
        using less.IH [OF _ Cons.prems(1,2) below] Cons.prems(3) by (simp add: requires_iff [OF e])
      have "\<not> requires s p p" using requires_rank [OF _ Cons.prems(1)] by blast
      then have p: "exps (retire_set ?R s) p = Some e" by (simp add: exps_retire_set e)
      have A: "insert p (Collect (requires s p)) = ?A" by auto
      have step: "retire_loop (p # ps) s = retire_loop ps (retire_set ?A s)"
        by (subst retire_loop.simps) (simp add: e False deep p put_Retire [OF p] retire_set_retire_set A)
      have "retired_closed (retire_set ?A s)"
        using Cons.prems(1,2) by (intro retired_closed_retire_set) (auto intro: requires_trans)
      then have "retire_loop ps (retire_set ?A s) = Some (Inr (retire_set ?B (retire_set ?A s)))"
        using Cons.IH [of "retire_set ?A s"] Cons.prems(1,3) by simp
      then show ?thesis unfolding step AB retire_set_retire_set .
    qed
  qed
qed

lemma RetireAllPreRequisites_ok:
  assumes "graph_ok s" and "retired_closed s" and "exps s a = Some e" and "\<not> retired e"
  shows "RetireAllPreRequisites a s = Some (Inr (retire_set {q. requires s a q} s))"
proof -
  obtain r where r: "ranked s r" using assms(1) unfolding graph_ok_def by blast
  have "\<forall>p \<in> set (immediate_prerequisites e). p \<in> dom (exps s) \<and> r p < r a" using rankedD [OF r assms(3)] by blast
  from retire_loop_ok [OF r assms(2) this]
  show ?thesis using assms(4) by (simp add: RetireAllPreRequisites_def assms(3) requires_iff [OF assms(3)])
qed

lemma set_ExpectationSet_add [simp]: "set (ExpectationSet_add xs a) = insert a (set xs)"
  by (auto simp: ExpectationSet_add_def set_insort_key)

lemma set_ExpectationSet_fold [simp]: "set (foldl ExpectationSet_add xs es) = set xs \<union> set es"
  by (induction es arbitrary: xs) auto

lemma unsatisfied_loop_ok:
  assumes "ranked s r" and "\<forall>p \<in> set ps. p \<in> dom (exps s) \<and> r p < n"
  shows "\<exists>res. unsatisfied_loop ps result s = Some (Inr res) \<and>
    set result \<subseteq> set res \<and> (\<forall>q \<in> set res - set result. \<not> sat s q \<and> q \<in> dom (exps s))"
  using assms(2)
proof (induction n arbitrary: ps result rule: less_induct)
  case (less n)
  show ?case
    using less.prems
  proof (induction ps arbitrary: result)
    case Nil
    then show ?case by (simp add: unsatisfied_loop.simps)
  next
    case (Cons p ps)
    obtain e where e: "exps s p = Some e" using Cons.prems by auto
    have below: "\<forall>q \<in> set (immediate_prerequisites e). q \<in> dom (exps s) \<and> r q < r p"
      using rankedD [OF assms(1) e] by blast
    have rest: "\<exists>res. unsatisfied_loop ps xs s = Some (Inr res) \<and>
        set xs \<subseteq> set res \<and> (\<forall>q \<in> set res - set xs. \<not> sat s q \<and> q \<in> dom (exps s))" for xs
      using Cons by simp
    consider "\<not> IsSatisfied e" | "IsSatisfied e" "call_count e \<noteq> 0" | "IsSatisfied e" "call_count e = 0" by blast
    then show ?case
    proof cases
      case 1
      then have "\<not> sat s p" by (simp add: sat_def e)
      then show ?thesis using rest [of "ExpectationSet_add result p"] 1 e
        by (subst unsatisfied_loop.simps) fastforce
    next
      case 2
      then show ?thesis using rest [of result] by (subst unsatisfied_loop.simps) (simp add: e)
    next
      case 3
      obtain res1 where d: "unsatisfied_loop (immediate_prerequisites e) result s = Some (Inr res1)"
        "set result \<subseteq> set res1" "\<forall>q \<in> set res1 - set result. \<not> sat s q \<and> q \<in> dom (exps s)"
        using less.IH [OF _ below, of result] Cons.prems by auto
      then show ?thesis using rest [of res1] 3
        by (subst unsatisfied_loop.simps) (simp add: e, blast)
    qed
  qed
qed

lemma describe_locations_ok: "\<forall>p \<in> set ps. p \<in> dom (exps s) \<Longrightarrow> \<exists>t. describe_locations i ps s = Inr t"
proof (induction ps arbitrary: i)
  case (Cons p ps)
  obtain t where "describe_locations (i + 1) ps s = Inr t" using Cons by auto
  moreover obtain e where "exps s p = Some e" using Cons.prems by auto
  ultimately show ?case by simp
qed simp

lemma ExplainMatchResultTo_returns:
  assumes "graph_ok s" and "exps s a = Some e"
  shows "\<exists>text. ExplainMatchResultTo a args s = Some (Inr text)"
proof -
  obtain r where r: "ranked s r" using assms(1) unfolding graph_ok_def by blast
  have "\<forall>p \<in> set (immediate_prerequisites e). p \<in> dom (exps s) \<and> r p < r a" using rankedD [OF r assms(2)] by blast
  from unsatisfied_loop_ok [OF r this, of "[]"]
  obtain res where res: "FindUnsatisfiedPrerequisites a [] s = Some (Inr res)" "\<forall>q \<in> set res. q \<in> dom (exps s)"
    by (auto simp: FindUnsatisfiedPrerequisites_def assms(2))
  then obtain t where "describe_locations 0 res s = Inr t" using describe_locations_ok by blast
  then show ?thesis
    by (simp add: ExplainMatchResultTo_def assms(2) AllPrerequisitesAreSatisfied_ok [OF assms] res(1))
qed

subsection \<open>What a call does to its expectation\<close>

text \<open>The action that the code means for the \<open>n\<close>-th call: those of \<open>WillOnce\<close> in order, then that of \<open>WillRepeatedly\<close>.\<close>

definition action_for :: "('a, 'x) Expectation \<Rightarrow> int \<Rightarrow> 'x Action" where
  "action_for e n = (if nat n \<le> length (untyped_actions e) then untyped_actions e ! (nat n - 1) else repeated_action e)"

definition called :: "('a, 'x) Expectation \<Rightarrow> ('a, 'x) Expectation" where
  "called e = e\<lparr>call_count := call_count e + 1\<rparr>"

definition same_core :: "('a, 'x, 'z) Gmock_scheme \<Rightarrow> ('a, 'x, 'z) Gmock_scheme \<Rightarrow> bool" where
  "same_core s s' \<longleftrightarrow> (\<exists>evs. s' = s\<lparr>events := events s @ evs\<rparr>)"

lemma same_core_refl [simp]: "same_core s s"
  unfolding same_core_def by (rule exI [of _ "[]"]) simp

lemma same_core_trans: "same_core s t \<Longrightarrow> same_core t u \<Longrightarrow> same_core s u"
  unfolding same_core_def by auto

lemma same_core_emit [simp]: "same_core s (emit ev s)"
  by (auto simp: same_core_def emit_def)

lemma same_core_reports [simp]: "same_core s (Expect c f l m s)" "same_core s (log_to sev msg fr s)"
  "same_core s (ExpectSpecProperty c m e s)"
  by (simp_all add: Expect_def log_to_def ExpectSpecProperty_def)

lemma same_coreD: "same_core s s' \<Longrightarrow> exps s' = exps s \<and> sequences s' = sequences s \<and> implicit_sequence s' = implicit_sequence s"
  by (auto simp: same_core_def)

lemma GetCurrentAction_ok:
  assumes "exps s a = Some e" and "1 \<le> call_count e"
  shows "\<exists>s'. GetCurrentAction d a s = Inr (action_for e (call_count e), s') \<and> same_core s s'"
proof -
  have n: "nat (call_count e - 1) = nat (call_count e) - 1" by simp
  have le: "call_count e \<le> int (length (untyped_actions e)) \<longleftrightarrow> nat (call_count e) \<le> length (untyped_actions e)"
    using assms(2) by linarith
  have "nat (call_count e) - 1 < length (untyped_actions e)" if "nat (call_count e) \<le> length (untyped_actions e)"
    using that assms(2) by linarith
  then show ?thesis
    using assms by (auto simp: GetCurrentAction_def action_for_def Let_def rbind_def n le)
qed

lemma requires_put_called [simp]:
  assumes "exps s a = Some e"
  shows "requires (put_exp a (called e) s) b p \<longleftrightarrow> requires s b p"
proof -
  have 1: "exps s x = Some f \<Longrightarrow> \<exists>f'. exps (put_exp a (called e) s) x = Some f' \<and>
      immediate_prerequisites f' = immediate_prerequisites f" for x f
    using assms by (auto simp: called_def)
  have 2: "exps (put_exp a (called e) s) x = Some f \<Longrightarrow> \<exists>f'. exps s x = Some f' \<and>
      immediate_prerequisites f' = immediate_prerequisites f" for x f
    using assms by (auto simp: called_def split: if_splits)
  show ?thesis using requires_same_edges [OF _ 1] requires_same_edges [OF _ 2] by blast
qed

lemma graph_put_same:
  assumes "graph_ok s" and "exps s a = Some e" and "immediate_prerequisites e' = immediate_prerequisites e"
  shows "graph_ok (put_exp a e' s)"
proof -
  obtain r where "ranked s r" using assms(1) unfolding graph_ok_def by blast
  then have "ranked (put_exp a e' s) r" using assms(2,3) by (auto simp: ranked_def)
  then show ?thesis unfolding graph_ok_def by blast
qed

lemma retired_closed_put_same:
  assumes "retired_closed s" and "exps s a = Some e" and "immediate_prerequisites e' = immediate_prerequisites e"
    and "retired e' = retired e"
  shows "retired_closed (put_exp a e' s)"
proof -
  have r: "is_retired (put_exp a e' s) p = is_retired s p" for p
    using assms(2,4) by (auto simp: is_retired_def)
  show ?thesis unfolding retired_closed_def r
  proof (intro allI impI)
    fix b f p
    assume f: "exps (put_exp a e' s) b = Some f" "retired f" "p \<in> set (immediate_prerequisites f)"
    then obtain f' where "exps s b = Some f'" "retired f'" "p \<in> set (immediate_prerequisites f')"
      using assms(2-4) by (cases "b = a") auto
    then show "is_retired s p" using assms(1) unfolding retired_closed_def by blast
  qed
qed

lemma GetAction_saturated:
  assumes "exps s a = Some e" and "IsSaturated e" and "call_count e < INT_MAX"
  shows "GetActionForArguments d a s =
    Some (Inr (None, lit ''Mock function called more times than expected - '' @ d, DescribeCallCountTo (called e),
      put_exp a (called e) s))"
  using assms by (simp add: GetActionForArguments_def IncrementCallCount_def called_def)

lemma GetAction_unsaturated:
  assumes "graph_ok s" and "retired_closed s" and e: "exps s a = Some e"
    and "\<not> retired e" and "\<not> IsSaturated e" and "0 \<le> call_count e" and "call_count e < INT_MAX"
  defines "e' \<equiv> if retires_on_saturation e \<and> IsSaturated (called e) then Retire (called e) else called e"
  shows "\<exists>s'. GetActionForArguments d a s =
      Some (Inr (Some (action_for e (call_count e + 1)), lit ''Mock function call matches '' @ source_text e @ lit ''...'' @ newline, [], s')) \<and>
    same_core (put_exp a e' (retire_set {q. requires s a q} s)) s'"
proof -
  let ?s1 = "put_exp a (called e) s" and ?A = "{q. requires s a q}"
  obtain r where r: "ranked s r" using assms(1) unfolding graph_ok_def by blast
  have na: "a \<notin> ?A" using requires_rank [OF _ r] by blast
  have inc: "IncrementCallCount e = Inr (called e)"
    using assms(7) by (simp add: IncrementCallCount_def called_def)
  have "retired (called e) = retired e" "immediate_prerequisites (called e) = immediate_prerequisites e"
    by (simp_all add: called_def)
  then have ret: "RetireAllPreRequisites a ?s1 = Some (Inr (retire_set ?A ?s1))"
    using RetireAllPreRequisites_ok [of ?s1 a "called e"] graph_put_same [OF assms(1) e] retired_closed_put_same [OF assms(2) e]
      assms(4) e by simp
  let ?s2 = "retire_set ?A ?s1"
  have e2: "exps ?s2 a = Some (called e)" using na by (simp add: exps_retire_set)
  have swap: "?s2 = put_exp a (called e) (retire_set ?A s)"
    using na by (auto simp: retire_set_def put_exp_def fun_eq_iff)
  define s3 where "s3 = put_exp a e' (retire_set ?A s)"
  have s3: "(if retires_on_saturation (called e) \<and> IsSaturated (called e) then put_exp a (Retire (called e)) ?s2 else ?s2) = s3"
    unfolding s3_def e'_def swap by (simp add: put_exp_def called_def)
  have c: "exps s3 a = Some e'" "call_count e' = call_count e + 1" "untyped_actions e' = untyped_actions e"
    "repeated_action e' = repeated_action e"
    by (simp_all add: s3_def e'_def called_def Retire_def)
  obtain s4 where s4: "GetCurrentAction d a s3 = Inr (action_for e' (call_count e'), s4)" "same_core s3 s4"
    using GetCurrentAction_ok [OF c(1)] c(2) assms(6) by auto
  have "action_for e' (call_count e') = action_for e (call_count e + 1)" using c by (simp add: action_for_def)
  moreover have "source_text (called e) = source_text e" by (simp add: called_def)
  ultimately have "GetActionForArguments d a s =
      Some (Inr (Some (action_for e (call_count e + 1)), lit ''Mock function call matches '' @ source_text e @ lit ''...'' @ newline, [], s4))"
    unfolding GetActionForArguments_def
    using assms(5) by (simp add: e inc ret e2 s3 s4(1) del: lit_Cons)
  then show ?thesis using s4(2) unfolding s3_def by blast
qed

end
