(* ===== verification/Gmock_Mocker.thy ===== *)
theory Gmock_Mocker
  imports Gmock_Expectation
begin

text \<open>
  Mock functions and mock objects: \<open>UntypedFunctionMockerBase\<close> with \<open>FunctionMockerBase\<close>, \<open>OnCallSpec\<close>, class
  \<open>Mock\<close> with its registry, \<open>InSequence\<close>, and the clauses of \<open>EXPECT_CALL\<close> that need the mock function
  (src/libs/googlemock/src/gmock-spec-builders.cc, src/libs/googlemock/include/gmock/gmock-spec-builders.h).
  Everything runs under the global mutex, so operations are sequential. An action is a function of the arguments;
  a call returns its result or throws. The registry is an association list sorted by address, as the map
  of the code is. The test that runs is a field of the state. Expectations stay in the store when
  their mock function drops them, because other owners may be left; which of them lost their last owner, so that their
  destructor runs, is an argument of the operations that drop them.
  The lemmas show that every state the library reaches keeps its expectations in order: once an expectation has handled
  a call, its pre-requisites are satisfied and retired, and never handle another.
\<close>

section \<open>Definitions\<close>

datatype CallReaction = kAllow | kWarn | kFail

definition kDefault :: CallReaction where "kDefault = kWarn"

datatype OnCallClause = no_clause | with_clause | will_by_default_clause

primrec on_call_number :: "OnCallClause \<Rightarrow> nat" where
  "on_call_number no_clause = 0"
| "on_call_number with_clause = 1"
| "on_call_number will_by_default_clause = 2"

record ('a, 'r) OnCallSpec =
  on_call_file :: "bytes option"
  on_call_line :: int
  on_call_last :: OnCallClause
  on_call_tuple :: "'a \<Rightarrow> bool"
  on_call_extra :: "'a Matcher"
  on_call_action :: "('a \<Rightarrow> 'r) Action"

record ('a, 'r) FunctionMocker =
  mock_obj :: "nat option"
  mocker_name :: "bytes option"
  on_call_specs :: "('a, 'r) OnCallSpec list"
  untyped_expectations :: "nat list"
  print_args :: "'a \<Rightarrow> bytes"
  print_result :: "'r \<Rightarrow> bytes"
  returns_void :: bool
  default_result :: "'r option"

record MockObjectState =
  first_used_file :: "bytes option"
  first_used_line :: int
  first_used_test_case :: bytes
  first_used_test :: bytes
  leakable :: bool
  function_mockers :: "nat list"

record ('a, 'r) Mocks = "('a, 'a \<Rightarrow> 'r) Gmock" +
  mockers :: "nat \<Rightarrow> ('a, 'r) FunctionMocker option"
  registry :: "(nat \<times> MockObjectState) list"
  reactions :: "nat \<Rightarrow> CallReaction option"
  current_test :: "(bytes \<times> bytes) option"

datatype 'r outcome = Returned 'r | Threw bytes

definition get_mocker :: "nat \<Rightarrow> ('a, 'r, 'z) Mocks_scheme \<Rightarrow> ('a, 'r) FunctionMocker res" where
  "get_mocker m s = (case mockers s m of None \<Rightarrow> Inl Dangling | Some f \<Rightarrow> Inr f)"

definition put_mocker :: "nat \<Rightarrow> ('a, 'r) FunctionMocker \<Rightarrow> ('a, 'r, 'z) Mocks_scheme \<Rightarrow> ('a, 'r, 'z) Mocks_scheme" where
  "put_mocker m f s = s\<lparr>mockers := (mockers s)(m \<mapsto> f)\<rparr>"

subsection \<open>The registry of mock objects\<close>

definition MockObjectState_new :: MockObjectState where
  "MockObjectState_new = \<lparr>first_used_file = None, first_used_line = - 1, first_used_test_case = [],
     first_used_test = [], leakable = False, function_mockers = []\<rparr>"

text \<open>\<open>states()[mock_obj]\<close>, which inserts a fresh entry when there is none.\<close>

definition state_at :: "nat \<Rightarrow> ('a, 'r, 'z) Mocks_scheme \<Rightarrow> MockObjectState" where
  "state_at obj s = (case map_of (registry s) obj of None \<Rightarrow> MockObjectState_new | Some m \<Rightarrow> m)"

definition put_state :: "nat \<Rightarrow> MockObjectState \<Rightarrow> ('a, 'r, 'z) Mocks_scheme \<Rightarrow> ('a, 'r, 'z) Mocks_scheme" where
  "put_state obj m s = s\<lparr>registry :=
     (if map_of (registry s) obj = None then insort_key fst (obj, m) (registry s)
      else map (\<lambda>(o', m'). if o' = obj then (o', m) else (o', m')) (registry s))\<rparr>"

definition Register :: "nat \<Rightarrow> nat \<Rightarrow> ('a, 'r, 'z) Mocks_scheme \<Rightarrow> ('a, 'r, 'z) Mocks_scheme" where
  "Register obj mocker s =
     put_state obj ((state_at obj s)\<lparr>function_mockers :=
       ExpectationSet_add (function_mockers (state_at obj s)) mocker\<rparr>) s"

definition RegisterUseByOnCallOrExpectCall ::
  "nat \<Rightarrow> bytes option \<Rightarrow> int \<Rightarrow> ('a, 'r, 'z) Mocks_scheme \<Rightarrow> ('a, 'r, 'z) Mocks_scheme" where
  "RegisterUseByOnCallOrExpectCall obj file_name line s =
     (let state = state_at obj s
      in put_state obj
           (if first_used_file state = None then
              (case current_test s of
                 None \<Rightarrow> state\<lparr>first_used_file := file_name, first_used_line := line\<rparr>
               | Some (test_case, test) \<Rightarrow>
                   state\<lparr>first_used_file := file_name, first_used_line := line,
                         first_used_test_case := test_case, first_used_test := test\<rparr>)
            else state) s)"

text \<open>The first entry that has the mocker loses it, and goes when it was the last.\<close>

primrec unregister_loop :: "nat \<Rightarrow> (nat \<times> MockObjectState) list \<Rightarrow> (nat \<times> MockObjectState) list" where
  "unregister_loop mocker [] = []"
| "unregister_loop mocker (it # its) =
     (if mocker \<in> set (function_mockers (snd it)) then
        (let rest = remove1 mocker (function_mockers (snd it))
         in if rest = [] then its else (fst it, (snd it)\<lparr>function_mockers := rest\<rparr>) # its)
      else it # unregister_loop mocker its)"

definition UnregisterLocked :: "nat \<Rightarrow> ('a, 'r, 'z) Mocks_scheme \<Rightarrow> ('a, 'r, 'z) Mocks_scheme" where
  "UnregisterLocked mocker s = s\<lparr>registry := unregister_loop mocker (registry s)\<rparr>"

definition AllowLeak :: "nat \<Rightarrow> ('a, 'r, 'z) Mocks_scheme \<Rightarrow> ('a, 'r, 'z) Mocks_scheme" where
  "AllowLeak obj s = put_state obj ((state_at obj s)\<lparr>leakable := True\<rparr>) s"

definition SetReactionOnUninterestingCalls ::
  "nat \<Rightarrow> CallReaction \<Rightarrow> ('a, 'r, 'z) Mocks_scheme \<Rightarrow> ('a, 'r, 'z) Mocks_scheme" where
  "SetReactionOnUninterestingCalls obj reaction s = s\<lparr>reactions := (reactions s)(obj \<mapsto> reaction)\<rparr>"

definition AllowUninterestingCalls :: "nat \<Rightarrow> ('a, 'r, 'z) Mocks_scheme \<Rightarrow> ('a, 'r, 'z) Mocks_scheme" where
  "AllowUninterestingCalls obj = SetReactionOnUninterestingCalls obj kAllow"

definition WarnUninterestingCalls :: "nat \<Rightarrow> ('a, 'r, 'z) Mocks_scheme \<Rightarrow> ('a, 'r, 'z) Mocks_scheme" where
  "WarnUninterestingCalls obj = SetReactionOnUninterestingCalls obj kWarn"

definition FailUninterestingCalls :: "nat \<Rightarrow> ('a, 'r, 'z) Mocks_scheme \<Rightarrow> ('a, 'r, 'z) Mocks_scheme" where
  "FailUninterestingCalls obj = SetReactionOnUninterestingCalls obj kFail"

definition UnregisterCallReaction :: "nat \<Rightarrow> ('a, 'r, 'z) Mocks_scheme \<Rightarrow> ('a, 'r, 'z) Mocks_scheme" where
  "UnregisterCallReaction obj s = s\<lparr>reactions := (reactions s)(obj := None)\<rparr>"

definition GetReactionOnUninterestingCalls :: "nat \<Rightarrow> ('a, 'r, 'z) Mocks_scheme \<Rightarrow> CallReaction" where
  "GetReactionOnUninterestingCalls obj s = (case reactions s obj of None \<Rightarrow> kDefault | Some r \<Rightarrow> r)"

text \<open>What the registry prints when the program exits; it exits with status 1 if it counts a leak.\<close>

primrec leak_report :: "(nat \<Rightarrow> bytes) \<Rightarrow> (nat \<times> MockObjectState) list \<Rightarrow> nat \<Rightarrow> bytes \<times> nat" where
  "leak_report address [] leaked_count = ([], leaked_count)"
| "leak_report address (it # its) leaked_count =
     (if leakable (snd it) then leak_report address its leaked_count
      else case leak_report address its (leaked_count + 1) of (text, n) \<Rightarrow>
        (newline @ FormatFileLocation (first_used_file (snd it)) (first_used_line (snd it)) @
         lit '' ERROR: this mock object'' @
         (if first_used_test (snd it) \<noteq> []
          then lit '' (used in test '' @ first_used_test_case (snd it) @ lit ''.'' @ first_used_test (snd it) @ lit '')''
          else []) @
         lit '' should be deleted but never is. Its address is @'' @ address (fst it) @ lit ''.'' @ text, n))"

definition MockObjectRegistry_destroy ::
  "bool \<Rightarrow> (nat \<Rightarrow> bytes) \<Rightarrow> ('a, 'r, 'z) Mocks_scheme \<Rightarrow> bytes \<times> bool" where
  "MockObjectRegistry_destroy catch_leaked_mocks address s =
     (if \<not> catch_leaked_mocks then ([], False)
      else case leak_report address (registry s) 0 of (text, leaked_count) \<Rightarrow>
        if leaked_count > 0
        then (text @ newline @ lit ''ERROR: '' @ decimal leaked_count @ lit '' leaked mock '' @
                (if leaked_count = 1 then lit ''object'' else lit ''objects'') @
                lit '' found at program exit.'' @ newline, True)
        else (text, False))"

subsection \<open>Default actions\<close>

definition OnCallSpec_Matches :: "('a, 'r) OnCallSpec \<Rightarrow> 'a \<Rightarrow> bool" where
  "OnCallSpec_Matches spec args \<longleftrightarrow> on_call_tuple spec args \<and> matches_element (on_call_extra spec) args"

definition GetAction :: "('a, 'r) OnCallSpec \<Rightarrow> ('a \<Rightarrow> 'r) Action res" where
  "GetAction spec = (if on_call_last spec = will_by_default_clause then Inr (on_call_action spec) else Inl Aborted)"

text \<open>Performing \<open>DoDefault()\<close> is a fatal error.\<close>

definition Perform :: "('a \<Rightarrow> 'r) Action \<Rightarrow> 'a \<Rightarrow> 'r res" where
  "Perform action args = (case action of DoDefault \<Rightarrow> Inl Aborted | Act x \<Rightarrow> Inr (x args))"

definition FindOnCallSpec :: "('a, 'r) FunctionMocker \<Rightarrow> 'a \<Rightarrow> ('a, 'r) OnCallSpec option" where
  "FindOnCallSpec f args = List.find (\<lambda>spec. OnCallSpec_Matches spec args) (rev (on_call_specs f))"

definition PerformDefaultAction :: "('a, 'r) FunctionMocker \<Rightarrow> 'a \<Rightarrow> bytes \<Rightarrow> 'r outcome res" where
  "PerformDefaultAction f args call_description =
     (case FindOnCallSpec f args of
        Some spec \<Rightarrow> rbind (GetAction spec) (\<lambda>action. rbind (Perform action args) (\<lambda>r. Inr (Returned r)))
      | None \<Rightarrow>
          (case default_result f of
             None \<Rightarrow> Inr (Threw (call_description @ newline @
               lit ''    The mock function has no default action '' @ lit ''set, and its return type has no default value set.''))
           | Some r \<Rightarrow> Inr (Returned r)))"

definition DescribeDefaultActionTo :: "('a, 'r) FunctionMocker \<Rightarrow> 'a \<Rightarrow> bytes" where
  "DescribeDefaultActionTo f args =
     (case FindOnCallSpec f args of
        None \<Rightarrow> (if returns_void f then lit ''returning directly.'' @ newline else lit ''returning default value.'' @ newline)
      | Some spec \<Rightarrow> lit ''taking default action specified at:'' @ newline @
          FormatFileLocation (on_call_file spec) (on_call_line spec) @ newline)"

text \<open>A mocker has no name before its first \<open>SetOwnerAndName\<close>; asking for it then fails an assertion.\<close>

definition Mocker_Name :: "('a, 'r) FunctionMocker \<Rightarrow> bytes res" where
  "Mocker_Name f = (case mocker_name f of None \<Rightarrow> Inl Aborted | Some name \<Rightarrow> Inr name)"

definition UntypedDescribeUninterestingCall :: "('a, 'r) FunctionMocker \<Rightarrow> 'a \<Rightarrow> bytes res" where
  "UntypedDescribeUninterestingCall f args =
     rbind (Mocker_Name f) (\<lambda>name.
     Inr (lit ''Uninteresting mock function call - '' @ DescribeDefaultActionTo f args @
          lit ''    Function call: '' @ name @ print_args f args))"

subsection \<open>Mock functions\<close>

definition FunctionMocker_new :: "('a \<Rightarrow> bytes) \<Rightarrow> ('r \<Rightarrow> bytes) \<Rightarrow> bool \<Rightarrow> 'r option \<Rightarrow> ('a, 'r) FunctionMocker" where
  "FunctionMocker_new pargs presult void dflt =
     \<lparr>mock_obj = None, mocker_name = None, on_call_specs = [], untyped_expectations = [], print_args = pargs,
      print_result = presult, returns_void = void, default_result = dflt\<rparr>"

definition RegisterOwner :: "nat \<Rightarrow> nat \<Rightarrow> ('a, 'r, 'z) Mocks_scheme \<Rightarrow> ('a, 'r, 'z) Mocks_scheme res" where
  "RegisterOwner obj m s =
     rbind (get_mocker m s) (\<lambda>f. Inr (Register obj m (put_mocker m (f\<lparr>mock_obj := Some obj\<rparr>) s)))"

definition SetOwnerAndName :: "nat \<Rightarrow> bytes \<Rightarrow> nat \<Rightarrow> ('a, 'r, 'z) Mocks_scheme \<Rightarrow> ('a, 'r, 'z) Mocks_scheme res" where
  "SetOwnerAndName obj nm m s =
     rbind (get_mocker m s) (\<lambda>f. Inr (put_mocker m (f\<lparr>mock_obj := Some obj, mocker_name := Some nm\<rparr>) s))"

definition MockObject :: "('a, 'r) FunctionMocker \<Rightarrow> nat res" where
  "MockObject f = (case mock_obj f of None \<Rightarrow> Inl Aborted | Some obj \<Rightarrow> Inr obj)"

definition AddNewOnCallSpec ::
  "bytes option \<Rightarrow> int \<Rightarrow> ('a \<Rightarrow> bool) \<Rightarrow> nat \<Rightarrow> ('a, 'r, 'z) Mocks_scheme \<Rightarrow> ('a, 'r, 'z) Mocks_scheme res" where
  "AddNewOnCallSpec file_name line ms m s =
     rbind (get_mocker m s) (\<lambda>f.
     rbind (MockObject f) (\<lambda>obj.
     let spec = \<lparr>on_call_file = file_name, on_call_line = line, on_call_last = no_clause, on_call_tuple = ms,
                 on_call_extra = \<lparr>matches_element = \<lambda>_. True, describe = lit ''is anything'',
                   describe_negation = lit ''never matches''\<rparr>, on_call_action = DoDefault\<rparr>
     in Inr (put_mocker m (f\<lparr>on_call_specs := on_call_specs f @ [spec]\<rparr>)
               (RegisterUseByOnCallOrExpectCall obj file_name line s))))"

text \<open>The clauses of \<open>ON_CALL\<close> return the changed specification and the failure they report.\<close>

definition OnCall_With :: "'a Matcher \<Rightarrow> ('a, 'r) OnCallSpec \<Rightarrow> ('a, 'r) OnCallSpec \<times> bytes list" where
  "OnCall_With mt spec =
     (spec\<lparr>on_call_last := with_clause, on_call_extra := mt\<rparr>,
      if on_call_number (on_call_last spec) < on_call_number with_clause then []
      else [lit ''.With() cannot appear '' @ lit ''more than once in an ON_CALL().''])"

definition WillByDefault :: "('a \<Rightarrow> 'r) Action \<Rightarrow> ('a, 'r) OnCallSpec \<Rightarrow> ('a, 'r) OnCallSpec \<times> bytes list" where
  "WillByDefault action spec =
     (spec\<lparr>on_call_last := will_by_default_clause, on_call_action := action\<rparr>,
      (if on_call_number (on_call_last spec) < on_call_number will_by_default_clause then []
       else [lit ''.WillByDefault() must appear '' @ lit ''exactly once in an ON_CALL().'']) @
      (if action \<noteq> DoDefault then [] else [lit ''DoDefault() cannot be used in ON_CALL().'']))"

text \<open>\<open>a\<close> is the address of the new expectation.\<close>

definition AddNewExpectation ::
  "nat \<Rightarrow> bytes option \<Rightarrow> int \<Rightarrow> bytes \<Rightarrow> ('a \<Rightarrow> bool) \<Rightarrow> ('a \<Rightarrow> bytes) \<Rightarrow> nat \<Rightarrow>
   ('a, 'r, 'z) Mocks_scheme \<Rightarrow> ('a, 'r, 'z) Mocks_scheme res" where
  "AddNewExpectation a file_name line text ms explain m s =
     rbind (get_mocker m s) (\<lambda>f.
     rbind (MockObject f) (\<lambda>obj.
     let s1 = put_exp a (Expectation_new m file_name line text ms explain)
                (RegisterUseByOnCallOrExpectCall obj file_name line s);
         s2 = put_mocker m (f\<lparr>untyped_expectations := untyped_expectations f @ [a]\<rparr>) s1
     in case implicit_sequence s2 of None \<Rightarrow> Inr s2 | Some q \<Rightarrow> AddExpectation q a s2))"

definition InternalExpectedAt ::
  "nat \<Rightarrow> bytes \<Rightarrow> int \<Rightarrow> bytes \<Rightarrow> bytes \<Rightarrow> ('a \<Rightarrow> bool) \<Rightarrow> ('a \<Rightarrow> bytes) \<Rightarrow> nat \<Rightarrow>
   ('a, 'r, 'z) Mocks_scheme \<Rightarrow> ('a, 'r, 'z) Mocks_scheme res" where
  "InternalExpectedAt a file_name line obj_text call_text ms explain m s =
     (let text = lit ''EXPECT_CALL('' @ obj_text @ lit '', '' @ call_text @ lit '')'';
          s1 = log_to kInfo (file_name @ lit '':'' @ decimal_int line @ lit '': '' @ (text @ lit '' invoked'') @ newline) 0 s
      in AddNewExpectation a (Some file_name) line text ms explain m s1)"

definition GetHandleOf :: "nat \<Rightarrow> ('a, 'r) FunctionMocker \<Rightarrow> nat res" where
  "GetHandleOf a f = (if a \<in> set (untyped_expectations f) then Inr a else Inl Aborted)"

definition InSequence :: "nat \<Rightarrow> nat \<Rightarrow> ('a, 'r, 'z) Mocks_scheme \<Rightarrow> ('a, 'r, 'z) Mocks_scheme res" where
  "InSequence q a s =
     rbind (get_exp a s) (\<lambda>e.
     let s1 = ExpectSpecProperty (last_clause e \<le> kInSequence)
                (lit ''.InSequence() cannot appear after .After(),'' @ lit '' .WillOnce(), .WillRepeatedly(), or '' @
                 lit ''.RetiresOnSaturation().'') e s;
         s2 = put_exp a (e\<lparr>last_clause := kInSequence\<rparr>) s1
     in rbind (get_mocker (owner e) s2) (\<lambda>f. rbind (GetHandleOf a f) (\<lambda>h. AddExpectation q h s2)))"

definition Sequence_new :: "nat \<Rightarrow> ('a, 'r, 'z) Mocks_scheme \<Rightarrow> ('a, 'r, 'z) Mocks_scheme" where
  "Sequence_new q s = s\<lparr>sequences := (sequences s)(q \<mapsto> None)\<rparr>"

text \<open>An \<open>InSequence\<close> object: whether it created the implicit sequence. \<open>q\<close> is the address of a new \<open>Sequence\<close>.\<close>

definition InSequence_new :: "nat \<Rightarrow> ('a, 'r, 'z) Mocks_scheme \<Rightarrow> bool \<times> ('a, 'r, 'z) Mocks_scheme" where
  "InSequence_new q s =
     (if implicit_sequence s = None then (True, (Sequence_new q s)\<lparr>implicit_sequence := Some q\<rparr>) else (False, s))"

definition InSequence_destroy :: "bool \<Rightarrow> ('a, 'r, 'z) Mocks_scheme \<Rightarrow> ('a, 'r, 'z) Mocks_scheme" where
  "InSequence_destroy sequence_created s =
     (if sequence_created then
        (case implicit_sequence s of
           None \<Rightarrow> s\<lparr>implicit_sequence := None\<rparr>
         | Some q \<Rightarrow> s\<lparr>sequences := (sequences s)(q := None), implicit_sequence := None\<rparr>)
      else s)"

subsection \<open>Calls\<close>

primrec find_loop ::
  "'a \<Rightarrow> nat list \<Rightarrow> ('a, 'r, 'z) Mocks_scheme \<Rightarrow> (nat option \<times> ('a, 'r, 'z) Mocks_scheme) res option" where
  "find_loop args [] s = Some (Inr (None, s))"
| "find_loop args (a # as) s =
     obind (ShouldHandleArguments a args s) (\<lambda>(yes, s1).
     if yes then Some (Inr (Some a, s1)) else find_loop args as s1)"

definition FindMatchingExpectationLocked ::
  "nat \<Rightarrow> 'a \<Rightarrow> ('a, 'r, 'z) Mocks_scheme \<Rightarrow> (nat option \<times> ('a, 'r, 'z) Mocks_scheme) res option" where
  "FindMatchingExpectationLocked m args s =
     obind (Some (get_mocker m s)) (\<lambda>f. find_loop args (rev (untyped_expectations f)) s)"

primrec tried_loop :: "nat \<Rightarrow> nat \<Rightarrow> nat list \<Rightarrow> 'a \<Rightarrow> ('a, 'r, 'z) Mocks_scheme \<Rightarrow> bytes res option" where
  "tried_loop n i [] args s = Some (Inr [])"
| "tried_loop n i (a # as) args s =
     obind (Some (get_exp a s)) (\<lambda>e.
     obind (ExplainMatchResultTo a args s) (\<lambda>why.
     obind (tried_loop n (i + 1) as args s) (\<lambda>rest.
     Some (Inr (newline @ DescribeLocationTo e @
       (if n > 1 then lit ''tried expectation #'' @ decimal i @ lit '': '' else []) @
       source_text e @ lit ''...'' @ newline @ why @ DescribeCallCountTo e @ rest)))))"

definition PrintTriedExpectationsLocked :: "nat \<Rightarrow> 'a \<Rightarrow> ('a, 'r, 'z) Mocks_scheme \<Rightarrow> bytes res option" where
  "PrintTriedExpectationsLocked m args s =
     obind (Some (get_mocker m s)) (\<lambda>f.
     let n = length (untyped_expectations f)
     in obind (tried_loop n 0 (untyped_expectations f) args s) (\<lambda>text.
        Some (Inr (lit ''Google Mock tried the following '' @ decimal n @ lit '' '' @
          (if n = 1 then lit ''expectation, but it didn'' @ [39] @ lit ''t match''
           else lit ''expectations, but none matched'') @ lit '':'' @ newline @ text))))"

definition FormatUnexpectedCallMessageLocked ::
  "nat \<Rightarrow> 'a \<Rightarrow> ('a, 'r, 'z) Mocks_scheme \<Rightarrow> (bytes \<times> bytes) res option" where
  "FormatUnexpectedCallMessageLocked m args s =
     obind (Some (get_mocker m s)) (\<lambda>f.
     obind (PrintTriedExpectationsLocked m args s) (\<lambda>why.
     Some (Inr (newline @ lit ''Unexpected mock function call - '' @ DescribeDefaultActionTo f args, why))))"

text \<open>The expectation found, its action if it has one, whether the call is excessive, and the texts \<open>what\<close> and \<open>why\<close>.\<close>

definition UntypedFindMatchingExpectation ::
  "nat \<Rightarrow> 'a \<Rightarrow> ('a, 'r, 'z) Mocks_scheme \<Rightarrow>
   (nat option \<times> ('a \<Rightarrow> 'r) option \<times> bool \<times> bytes \<times> bytes \<times> ('a, 'r, 'z) Mocks_scheme) res option" where
  "UntypedFindMatchingExpectation m args s =
     obind (FindMatchingExpectationLocked m args s) (\<lambda>(found, s1).
     case found of
       None \<Rightarrow>
         obind (FormatUnexpectedCallMessageLocked m args s1) (\<lambda>(what, why).
         Some (Inr (None, None, False, what, why, s1)))
     | Some a \<Rightarrow>
         obind (Some (get_mocker m s1)) (\<lambda>f.
         obind (Some (get_exp a s1)) (\<lambda>e.
         let is_excessive = IsSaturated e
         in obind (GetActionForArguments (DescribeDefaultActionTo f args) a s1) (\<lambda>(action, what, why, s2).
            let untyped_action = (case action of Some (Act x) \<Rightarrow> Some x | _ \<Rightarrow> None)
            in Some (Inr (Some a, untyped_action, is_excessive, what, why, s2))))))"

definition ReportUninterestingCall ::
  "CallReaction \<Rightarrow> bytes \<Rightarrow> ('a, 'r, 'z) Mocks_scheme \<Rightarrow> ('a, 'r, 'z) Mocks_scheme" where
  "ReportUninterestingCall reaction msg s =
     (let stack_frames_to_skip = (if verbose s = kInfoVerbosity then 3 else - 1)
      in case reaction of
           kAllow \<Rightarrow> log_to kInfo msg stack_frames_to_skip s
         | kWarn \<Rightarrow> log_to kWarning (msg @ newline @
             lit ''NOTE: You can safely ignore the above warning unless this '' @
             lit ''call should not happen.  Do not suppress it by blindly adding '' @
             lit ''an EXPECT_CALL() if you don'' @ [39] @ lit ''t mean to enforce the call.  '' @
             lit ''See https://github.com/google/googletest/blob/master/googlemock/docs/CookBook.md#'' @
             lit ''knowing-when-to-expect for details.'' @ newline) stack_frames_to_skip s
         | kFail \<Rightarrow> Expect False None (- 1) msg s)"

definition PrintAsActionResult :: "('a, 'r) FunctionMocker \<Rightarrow> 'r \<Rightarrow> bytes" where
  "PrintAsActionResult f r = (if returns_void f then [] else newline @ lit ''          Returns: '' @ print_result f r)"

definition perform_call :: "('a, 'r) FunctionMocker \<Rightarrow> ('a \<Rightarrow> 'r) option \<Rightarrow> 'a \<Rightarrow> bytes \<Rightarrow> 'r outcome res" where
  "perform_call f untyped_action args text =
     (case untyped_action of None \<Rightarrow> PerformDefaultAction f args text | Some x \<Rightarrow> Inr (Returned (x args)))"

definition UntypedInvokeWith ::
  "nat \<Rightarrow> 'a \<Rightarrow> ('a, 'r, 'z) Mocks_scheme \<Rightarrow> ('r outcome \<times> ('a, 'r, 'z) Mocks_scheme) res option" where
  "UntypedInvokeWith m args s =
     obind (Some (get_mocker m s)) (\<lambda>f.
     if untyped_expectations f = [] then
       obind (Some (MockObject f)) (\<lambda>obj.
       let reaction = GetReactionOnUninterestingCalls obj s;
           need_to_report_uninteresting_call =
             (if reaction = kAllow then LogIsVisible (verbose s) kInfo
              else if reaction = kWarn then LogIsVisible (verbose s) kWarning else True)
       in if \<not> need_to_report_uninteresting_call then
            obind (Some (PerformDefaultAction f args [])) (\<lambda>result. Some (Inr (result, s)))
          else
            obind (Some (UntypedDescribeUninterestingCall f args)) (\<lambda>ss.
            obind (Some (PerformDefaultAction f args ss)) (\<lambda>result.
               case result of
                 Threw msg \<Rightarrow> Some (Inr (Threw msg, s))
               | Returned r \<Rightarrow> Some (Inr (Returned r, ReportUninterestingCall reaction (ss @ PrintAsActionResult f r) s)))))
     else
       obind (UntypedFindMatchingExpectation m args s) (\<lambda>(found, untyped_action, is_excessive, what, why, s1).
       obind (Some (get_mocker m s1)) (\<lambda>f1.
       let need_to_report_call = (found = None \<or> is_excessive \<or> LogIsVisible (verbose s1) kInfo)
       in if \<not> need_to_report_call then
            obind (Some (perform_call f1 untyped_action args [])) (\<lambda>result. Some (Inr (result, s1)))
          else
            obind (Some (Mocker_Name f1)) (\<lambda>name.
            let ss = what @ lit ''    Function call: '' @ name @ print_args f1 args
            in obind (Some (perform_call f1 untyped_action args ss)) (\<lambda>result.
               case result of
                 Threw msg \<Rightarrow> Some (Inr (Threw msg, s1))
               | Returned r \<Rightarrow>
                   let ss1 = ss @ PrintAsActionResult f1 r @ newline @ why
                   in (case found of
                         None \<Rightarrow> Some (Inr (Returned r, Expect False None (- 1) ss1 s1))
                       | Some a \<Rightarrow>
                           obind (Some (get_exp a s1)) (\<lambda>e.
                           if is_excessive
                           then Some (Inr (Returned r, Expect False (exp_file e) (exp_line e) ss1 s1))
                           else Some (Inr (Returned r, log_to kInfo (DescribeLocationTo e @ ss1) 2 s1)))))))))"

subsection \<open>Verifying and clearing\<close>

primrec verify_loop ::
  "nat list \<Rightarrow> bool \<Rightarrow> ('a, 'r, 'z) Mocks_scheme \<Rightarrow> (bool \<times> ('a, 'r, 'z) Mocks_scheme) res" where
  "verify_loop [] expectations_met s = Inr (expectations_met, s)"
| "verify_loop (a # as) expectations_met s =
     rbind (get_exp a s) (\<lambda>e.
     if IsOverSaturated e then verify_loop as False s
     else if \<not> IsSatisfied e then
       verify_loop as False
         (Expect False (exp_file e) (exp_line e)
           (lit ''Actual function call count doesn'' @ [39] @ lit ''t match '' @ source_text e @ lit ''...'' @ newline @
            MaybeDescribeExtraMatcherTo e @ DescribeCallCountTo e) s)
     else verify_loop as expectations_met s)"

text \<open>\<open>gone\<close> are the expectations that lose their last owner, so that they are destroyed.\<close>

primrec destroy_loop :: "nat set \<Rightarrow> nat list \<Rightarrow> ('a, 'r, 'z) Mocks_scheme \<Rightarrow> ('a, 'r, 'z) Mocks_scheme res" where
  "destroy_loop gone [] s = Inr s"
| "destroy_loop gone (a # as) s =
     rbind (if a \<in> gone then CheckActionCountIfNotDone a s else Inr s) (\<lambda>s1. destroy_loop gone as s1)"

definition Mocker_VerifyAndClearExpectationsLocked ::
  "nat set \<Rightarrow> nat \<Rightarrow> ('a, 'r, 'z) Mocks_scheme \<Rightarrow> (bool \<times> ('a, 'r, 'z) Mocks_scheme) res" where
  "Mocker_VerifyAndClearExpectationsLocked gone m s =
     rbind (get_mocker m s) (\<lambda>f.
     rbind (verify_loop (untyped_expectations f) True s) (\<lambda>(expectations_met, s1).
     rbind (destroy_loop gone (untyped_expectations f) (put_mocker m (f\<lparr>untyped_expectations := []\<rparr>) s1)) (\<lambda>s2.
     Inr (expectations_met, s2))))"

definition Mocker_ClearDefaultActionsLocked :: "nat \<Rightarrow> ('a, 'r, 'z) Mocks_scheme \<Rightarrow> ('a, 'r, 'z) Mocks_scheme res" where
  "Mocker_ClearDefaultActionsLocked m s =
     rbind (get_mocker m s) (\<lambda>f. Inr (put_mocker m (f\<lparr>on_call_specs := []\<rparr>) s))"

primrec verify_mockers ::
  "nat set \<Rightarrow> nat list \<Rightarrow> bool \<Rightarrow> ('a, 'r, 'z) Mocks_scheme \<Rightarrow> (bool \<times> ('a, 'r, 'z) Mocks_scheme) res" where
  "verify_mockers gone [] expectations_met s = Inr (expectations_met, s)"
| "verify_mockers gone (m # ms) expectations_met s =
     rbind (Mocker_VerifyAndClearExpectationsLocked gone m s) (\<lambda>(met, s1).
     verify_mockers gone ms (if \<not> met then False else expectations_met) s1)"

definition VerifyAndClearExpectationsLocked ::
  "nat set \<Rightarrow> nat \<Rightarrow> ('a, 'r, 'z) Mocks_scheme \<Rightarrow> (bool \<times> ('a, 'r, 'z) Mocks_scheme) res" where
  "VerifyAndClearExpectationsLocked gone obj s =
     (if map_of (registry s) obj = None then Inr (True, s)
      else verify_mockers gone (function_mockers (state_at obj s)) True s)"

definition VerifyAndClearExpectations ::
  "nat set \<Rightarrow> nat \<Rightarrow> ('a, 'r, 'z) Mocks_scheme \<Rightarrow> (bool \<times> ('a, 'r, 'z) Mocks_scheme) res" where
  "VerifyAndClearExpectations gone obj s = VerifyAndClearExpectationsLocked gone obj s"

primrec clear_mockers :: "nat list \<Rightarrow> ('a, 'r, 'z) Mocks_scheme \<Rightarrow> ('a, 'r, 'z) Mocks_scheme res" where
  "clear_mockers [] s = Inr s"
| "clear_mockers (m # ms) s = rbind (Mocker_ClearDefaultActionsLocked m s) (\<lambda>s1. clear_mockers ms s1)"

definition ClearDefaultActionsLocked :: "nat \<Rightarrow> ('a, 'r, 'z) Mocks_scheme \<Rightarrow> ('a, 'r, 'z) Mocks_scheme res" where
  "ClearDefaultActionsLocked obj s =
     (if map_of (registry s) obj = None then Inr s else clear_mockers (function_mockers (state_at obj s)) s)"

definition VerifyAndClear ::
  "nat set \<Rightarrow> nat \<Rightarrow> ('a, 'r, 'z) Mocks_scheme \<Rightarrow> (bool \<times> ('a, 'r, 'z) Mocks_scheme) res" where
  "VerifyAndClear gone obj s =
     rbind (ClearDefaultActionsLocked obj s) (\<lambda>s1. VerifyAndClearExpectationsLocked gone obj s1)"

definition FunctionMocker_destroy ::
  "nat set \<Rightarrow> nat \<Rightarrow> ('a, 'r, 'z) Mocks_scheme \<Rightarrow> ('a, 'r, 'z) Mocks_scheme res" where
  "FunctionMocker_destroy gone m s =
     rbind (Mocker_VerifyAndClearExpectationsLocked gone m s) (\<lambda>(_, s1).
     rbind (Mocker_ClearDefaultActionsLocked m (UnregisterLocked m s1)) (\<lambda>s2.
     Inr (s2\<lparr>mockers := (mockers s2)(m := None)\<rparr>)))"

end
