(* ===== verification/Gmock_Calls.thy ===== *)
theory Gmock_Calls
  imports Gmock_Mocker
begin

text \<open>
  What mock functions promise: the runs of a program that declares mock functions, sequences and expectations, calls
  and verifies, as a step relation over the operations of \<open>Gmock_Mocker\<close>, and the invariant of its reachable
  states. The lemmas show which expectation handles a call and what the call changes, that the order given by
  sequences and \<open>After\<close> is kept, that no operation recurses forever or meets a dangling expectation, and
  when verification succeeds.
\<close>

section \<open>Runs\<close>

text \<open>The clauses of an \<open>EXPECT_CALL\<close> statement, which follow the creation of the expectation.\<close>

datatype ('a, 'r) clause =
    with_matcher "'a Matcher" "'a \<Rightarrow> bytes"
  | times CardinalityInterface
  | in_sequence nat
  | after "nat list"
  | will_once "('a \<Rightarrow> 'r) Action"
  | will_repeatedly "('a \<Rightarrow> 'r) Action"
  | retires_when_saturated

primrec apply_clause :: "('a, 'r) clause \<Rightarrow> nat \<Rightarrow> ('a, 'r, 'z) Mocks_scheme \<Rightarrow> ('a, 'r, 'z) Mocks_scheme res" where
  "apply_clause (with_matcher m x) a s = With m x a s"
| "apply_clause (times c) a s = UntypedTimes c a s"
| "apply_clause (in_sequence q) a s = InSequence q a s"
| "apply_clause (after es) a s = After es a s"
| "apply_clause (will_once x) a s = WillOnce x a s"
| "apply_clause (will_repeatedly x) a s = WillRepeatedly x a s"
| "apply_clause retires_when_saturated a s = RetiresOnSaturation a s"

primrec apply_clauses :: "('a, 'r) clause list \<Rightarrow> nat \<Rightarrow> ('a, 'r, 'z) Mocks_scheme \<Rightarrow> ('a, 'r, 'z) Mocks_scheme res" where
  "apply_clauses [] a s = Inr s"
| "apply_clauses (c # cs) a s = rbind (apply_clause c a s) (\<lambda>s1. apply_clauses cs a s1)"

text \<open>\<open>After\<close> names older expectations, and a cardinality is an interval of call counts.\<close>

fun clause_ok :: "('a, 'r, 'z) Mocks_scheme \<Rightarrow> ('a, 'r) clause \<Rightarrow> bool" where
  "clause_ok s (times c) = limits_of c"
| "clause_ok s (after es) \<longleftrightarrow> set es \<subseteq> dom (exps s)"
| "clause_ok s _ = True"

inductive mock_step :: "('a, 'r) Mocks \<Rightarrow> ('a, 'r) Mocks \<Rightarrow> bool" where
  new_mocker: "mockers s m = None \<Longrightarrow> mock_step s (put_mocker m (FunctionMocker_new pa pr v d) s)"
| owner: "RegisterOwner obj m s = Inr s' \<Longrightarrow> mock_step s s'"
| owner_and_name: "SetOwnerAndName obj nm m s = Inr s' \<Longrightarrow> mock_step s s'"
| new_sequence: "sequences s q = None \<Longrightarrow> mock_step s (Sequence_new q s)"
| enter: "sequences s q = None \<Longrightarrow> InSequence_new q s = (b, s') \<Longrightarrow> mock_step s s'"
| leave: "mock_step s (InSequence_destroy b s)"
| expect: "exps s a = None \<Longrightarrow> InternalExpectedAt a fl ln ob ct ms ex m s = Inr s1 \<Longrightarrow>
    \<forall>c \<in> set cs. clause_ok s c \<Longrightarrow> apply_clauses cs a s1 = Inr s' \<Longrightarrow> mock_step s s'"
| on_call: "AddNewOnCallSpec f ln ms m s = Inr s' \<Longrightarrow> mock_step s s'"
| on_call_clauses: "mockers s m = Some f \<Longrightarrow> mock_step s (put_mocker m (f\<lparr>on_call_specs := specs\<rparr>) s)"
| reaction: "mock_step s (SetReactionOnUninterestingCalls obj r s)"
| allow_leak: "mock_step s (AllowLeak obj s)"
| call: "UntypedInvokeWith m args s = Some (Inr (r, s')) \<Longrightarrow> mock_step s s'"
| verify: "VerifyAndClearExpectations gone obj s = Inr (b, s') \<Longrightarrow> mock_step s s'"
| verify_and_clear: "VerifyAndClear gone obj s = Inr (b, s') \<Longrightarrow> mock_step s s'"
| destroy: "FunctionMocker_destroy gone m s = Inr s' \<Longrightarrow> mock_step s s'"

inductive mock_reach :: "('a, 'r) Mocks \<Rightarrow> bool" where
  start: "exps s = (\<lambda>_. None) \<Longrightarrow> sequences s = (\<lambda>_. None) \<Longrightarrow> implicit_sequence s = None \<Longrightarrow>
    mockers s = (\<lambda>_. None) \<Longrightarrow> mock_reach s"
| step: "mock_reach s \<Longrightarrow> mock_step s s' \<Longrightarrow> mock_reach s'"

section \<open>The invariant\<close>

definition upper_of :: "('a, 'x) Expectation \<Rightarrow> int" where
  "upper_of e = ConservativeUpperBound (cardinality e)"

definition exp_ok :: "('a, 'x) Expectation \<Rightarrow> bool" where
  "exp_ok e \<longleftrightarrow> 0 \<le> call_count e \<and> call_count e \<le> INT_MAX \<and> limits_of (cardinality e)"

text \<open>An expectation that handled a call: one that never expects a call is saturated from the start.\<close>

definition handled :: "('a, 'x) Expectation \<Rightarrow> bool" where
  "handled e \<longleftrightarrow> 0 < call_count e \<and> 0 < upper_of e"

definition order_ok :: "('a, 'x, 'z) Gmock_scheme \<Rightarrow> bool" where
  "order_ok s \<longleftrightarrow> (\<forall>a e p. exps s a = Some e \<longrightarrow> handled e \<longrightarrow> requires s a p \<longrightarrow> is_retired s p \<and> sat s p)"

definition mock_inv :: "('a, 'r, 'z) Mocks_scheme \<Rightarrow> bool" where
  "mock_inv s \<longleftrightarrow> graph_ok s \<and> retired_closed s \<and> order_ok s \<and> (\<forall>e \<in> ran (exps s). exp_ok e) \<and>
     (\<forall>q p. sequences s q = Some (Some p) \<longrightarrow> p \<in> dom (exps s)) \<and>
     (\<forall>m f. mockers s m = Some f \<longrightarrow> set (untyped_expectations f) \<subseteq> dom (exps s) \<and> distinct (untyped_expectations f))"

lemma mock_invD:
  assumes "mock_inv s"
  shows "graph_ok s" "retired_closed s" "order_ok s" "exps s a = Some e \<Longrightarrow> exp_ok e"
    "sequences s q = Some (Some p) \<Longrightarrow> p \<in> dom (exps s)"
    "mockers s m = Some f \<Longrightarrow> set (untyped_expectations f) \<subseteq> dom (exps s)"
    "mockers s m = Some f \<Longrightarrow> distinct (untyped_expectations f)"
  using assms unfolding mock_inv_def ran_def by blast+

text \<open>The part of the state that the graph predicates see.\<close>

lemma graph_cong:
  assumes "exps s = exps s'"
  shows "graph_ok s = graph_ok s'" "retired_closed s = retired_closed s'" "requires s = requires s'"
    "sat s = sat s'" "is_retired s = is_retired s'" "order_ok s = order_ok s'"
proof -
  show r: "requires s = requires s'"
    using requires_same_edges [of s _ _ s'] requires_same_edges [of s' _ _ s] assms by (intro ext iffI) simp_all
  show i: "is_retired s = is_retired s'" and t: "sat s = sat s'"
    using assms by (auto simp: is_retired_def sat_def fun_eq_iff)
  show "graph_ok s = graph_ok s'" "retired_closed s = retired_closed s'" "order_ok s = order_ok s'"
    using assms unfolding graph_ok_def ranked_def retired_closed_def order_ok_def r i t by simp_all
qed

lemma mock_inv_cong:
  assumes "mock_inv s" and "exps s' = exps s" and "sequences s' = sequences s" and "mockers s' = mockers s"
  shows "mock_inv s'"
  using assms graph_cong [OF assms(2)] unfolding mock_inv_def by simp

subsection \<open>Expectations that differ in the checked flag only\<close>

definition agree :: "('a, 'x, 'z) Gmock_scheme \<Rightarrow> ('a, 'x, 'z) Gmock_scheme \<Rightarrow> bool" where
  "agree s s' \<longleftrightarrow> (\<exists>ck evs. s' = s\<lparr>exps := (\<lambda>a. map_option (\<lambda>e. e\<lparr>action_count_checked := ck a\<rparr>) (exps s a)),
     events := events s @ evs\<rparr>)"


lemma agreeD:
  assumes "agree s s'"
  shows "sequences s' = sequences s" "implicit_sequence s' = implicit_sequence s" "dom (exps s') = dom (exps s)"
    "exps s a = Some e \<Longrightarrow> \<exists>b. exps s' a = Some (e\<lparr>action_count_checked := b\<rparr>)"
    "exps s' a = Some e' \<Longrightarrow> \<exists>e b. exps s a = Some e \<and> e' = e\<lparr>action_count_checked := b\<rparr>"
    "verbose s' = verbose s"
proof -
  obtain ck evs where s': "s' = s\<lparr>exps := (\<lambda>a. map_option (\<lambda>e. e\<lparr>action_count_checked := ck a\<rparr>) (exps s a)),
      events := events s @ evs\<rparr>"
    using assms unfolding agree_def by blast
  show "sequences s' = sequences s" "implicit_sequence s' = implicit_sequence s" "dom (exps s') = dom (exps s)"
    "verbose s' = verbose s"
    by (auto simp: s')
  show "exps s a = Some e \<Longrightarrow> \<exists>b. exps s' a = Some (e\<lparr>action_count_checked := b\<rparr>)"
    by (auto simp: s')
  show "exps s' a = Some e' \<Longrightarrow> \<exists>e b. exps s a = Some e \<and> e' = e\<lparr>action_count_checked := b\<rparr>"
    by (auto simp: s' intro: exI [of _ "ck a"])
qed

lemma agree_mockers:
  fixes s :: "('a, 'r, 'z) Mocks_scheme"
  assumes "agree s s'"
  shows "mockers s' = mockers s" "registry s' = registry s" "reactions s' = reactions s"
  using assms by (auto simp: agree_def)

lemma same_core_agree: "same_core s s' \<Longrightarrow> agree s s'"
proof -
  assume "same_core s s'"
  then obtain evs where s': "s' = s\<lparr>events := events s @ evs\<rparr>" unfolding same_core_def by blast
  have e: "map_option (\<lambda>e. e\<lparr>action_count_checked := action_count_checked (the (exps s a))\<rparr>) (exps s a) = exps s a" for a
    by (cases "exps s a") simp_all
  show "agree s s'" unfolding agree_def s'
    by (rule exI [of _ "\<lambda>a. action_count_checked (the (exps s a))"], rule exI [of _ evs]) (simp add: e)
qed

lemma agree_refl [simp]: "agree s s"
  by (simp add: same_core_agree)

lemma agree_trans: "agree s t \<Longrightarrow> agree t u \<Longrightarrow> agree s u"
proof -
  assume "agree s t" "agree t u"
  then obtain ck evs ck' evs' where
    t: "t = s\<lparr>exps := (\<lambda>a. map_option (\<lambda>e. e\<lparr>action_count_checked := ck a\<rparr>) (exps s a)), events := events s @ evs\<rparr>" and
    u: "u = t\<lparr>exps := (\<lambda>a. map_option (\<lambda>e. e\<lparr>action_count_checked := ck' a\<rparr>) (exps t a)), events := events t @ evs'\<rparr>"
    unfolding agree_def by blast
  show "agree s u"
    unfolding agree_def u t by (rule exI [of _ ck'], rule exI [of _ "evs @ evs'"]) (simp add: option.map_comp comp_def)
qed

lemma agree_put_checked:
  assumes "exps s a = Some e"
  shows "agree s (put_exp a (e\<lparr>action_count_checked := b\<rparr>) s)"
proof -
  define ck where "ck x = (if x = a then b else action_count_checked (the (exps s x)))" for x
  have "((exps s)(a \<mapsto> e\<lparr>action_count_checked := b\<rparr>)) x = map_option (\<lambda>e. e\<lparr>action_count_checked := ck x\<rparr>) (exps s x)" for x
    using assms by (cases "exps s x") (auto simp: ck_def)
  then have "put_exp a (e\<lparr>action_count_checked := b\<rparr>) s =
      s\<lparr>exps := (\<lambda>x. map_option (\<lambda>e. e\<lparr>action_count_checked := ck x\<rparr>) (exps s x)), events := events s @ []\<rparr>"
    unfolding put_exp_def by (simp add: fun_eq_iff)
  then show ?thesis unfolding agree_def by blast
qed

lemma CheckActionCountIfNotDone_ok:
  assumes "exps s a = Some e"
  shows "\<exists>s'. CheckActionCountIfNotDone a s = Inr s' \<and> agree s s'"
proof -
  let ?s1 = "put_exp a (e\<lparr>action_count_checked := True\<rparr>) s"
  have 1: "agree s ?s1" by (rule agree_put_checked [OF assms])
  then have "agree s (log_to sev msg fr ?s1)" for sev msg fr
    by (rule agree_trans) (simp add: same_core_agree)
  then show ?thesis using assms 1 by (simp add: CheckActionCountIfNotDone_def Let_def)
qed

lemma unchecked_simps [simp]:
  "IsSatisfied (e\<lparr>action_count_checked := b\<rparr>) = IsSatisfied e" "IsSaturated (e\<lparr>action_count_checked := b\<rparr>) = IsSaturated e"
  "IsOverSaturated (e\<lparr>action_count_checked := b\<rparr>) = IsOverSaturated e"
  "Matches (e\<lparr>action_count_checked := b\<rparr>) args = Matches e args" "handled (e\<lparr>action_count_checked := b\<rparr>) = handled e"
  "exp_ok (e\<lparr>action_count_checked := b\<rparr>) = exp_ok e" "upper_of (e\<lparr>action_count_checked := b\<rparr>) = upper_of e"
  "action_for (e\<lparr>action_count_checked := b\<rparr>) n = action_for e n"
  "call_count (e\<lparr>action_count_checked := b\<rparr>) = call_count e" "retired (e\<lparr>action_count_checked := b\<rparr>) = retired e"
  by (simp_all add: IsSatisfied_def IsSaturated_def IsOverSaturated_def Matches_def handled_def exp_ok_def upper_of_def action_for_def)

lemma agree_graph:
  assumes "agree s s'"
  shows "requires s' = requires s" "is_retired s' = is_retired s" "sat s' = sat s"
    "ranked s' r = ranked s r" "graph_ok s' = graph_ok s" "retired_closed s' = retired_closed s" "order_ok s' = order_ok s"
proof -
  note D = agreeD(4,5) [OF assms]
  have f: "\<exists>e'. exps s' a = Some e' \<and> immediate_prerequisites e' = immediate_prerequisites e" if "exps s a = Some e" for a e
    using D(1) [OF that] by auto
  have g: "\<exists>e'. exps s a = Some e' \<and> immediate_prerequisites e' = immediate_prerequisites e" if "exps s' a = Some e" for a e
    using D(2) [OF that] by auto
  show req: "requires s' = requires s"
    by (intro ext iffI) (use requires_same_edges f g in metis)+
  have ret: "is_retired s' a = is_retired s a" for a using D(1) D(2) unfolding is_retired_def by fastforce
  have st: "sat s' a = sat s a" for a using D(1) D(2) unfolding sat_def by fastforce
  show "is_retired s' = is_retired s" "sat s' = sat s" using ret st by blast+
  show rank: "ranked s' r = ranked s r" for r
    unfolding ranked_def agreeD(3) [OF assms] using f g by metis
  then show "graph_ok s' = graph_ok s" by (simp add: graph_ok_def)
  have "(\<forall>a e p. exps s' a = Some e \<longrightarrow> retired e \<longrightarrow> p \<in> set (immediate_prerequisites e) \<longrightarrow> is_retired s p) =
      (\<forall>a e p. exps s a = Some e \<longrightarrow> retired e \<longrightarrow> p \<in> set (immediate_prerequisites e) \<longrightarrow> is_retired s p)"
    using D(1) D(2) by fastforce
  then show "retired_closed s' = retired_closed s" by (simp add: retired_closed_def ret)
  have "(\<forall>a e p. exps s' a = Some e \<longrightarrow> handled e \<longrightarrow> requires s a p \<longrightarrow> is_retired s p \<and> sat s p) =
      (\<forall>a e p. exps s a = Some e \<longrightarrow> handled e \<longrightarrow> requires s a p \<longrightarrow> is_retired s p \<and> sat s p)"
    using D(1) D(2) by fastforce
  then show "order_ok s' = order_ok s" by (simp add: order_ok_def ret st req)
qed

lemma agree_inv:
  assumes "agree s s'" and "mock_inv s"
  shows "mock_inv s'"
proof -
  have "\<forall>e \<in> ran (exps s'). exp_ok e"
    using mock_invD(4) [OF assms(2)] agreeD(5) [OF assms(1)] unfolding ran_def by fastforce
  then show ?thesis
    using assms(2) agreeD(1,3) [OF assms(1)] agree_mockers [OF assms(1)] agree_graph [OF assms(1)]
    unfolding mock_inv_def by simp
qed

section \<open>A call\<close>

text \<open>The expectation \<open>a\<close> would handle a call with these arguments: active, with all pre-requisites satisfied, and matching.\<close>

definition would_handle :: "('a, 'x, 'z) Gmock_scheme \<Rightarrow> 'a \<Rightarrow> nat \<Rightarrow> bool" where
  "would_handle s args a \<longleftrightarrow>
     (\<exists>e. exps s a = Some e \<and> \<not> retired e \<and> (\<forall>q. requires s a q \<longrightarrow> sat s q) \<and> Matches e args)"

lemma agree_handles: "agree s s' \<Longrightarrow> would_handle s' args = would_handle s args"
  using agreeD(4,5) [of s s'] agree_graph(1,3) [of s s'] by (fastforce simp: would_handle_def fun_eq_iff)

lemma ShouldHandleArguments_ok:
  assumes "graph_ok s" and "exps s a = Some e"
  shows "\<exists>s'. ShouldHandleArguments a args s = Some (Inr (would_handle s args a, s')) \<and> agree s s'"
proof -
  obtain s1 where s1: "CheckActionCountIfNotDone a s = Inr s1" "agree s s1"
    using CheckActionCountIfNotDone_ok [OF assms(2)] by blast
  obtain b where e: "exps s1 a = Some (e\<lparr>action_count_checked := b\<rparr>)" using agreeD(4) [OF s1(2) assms(2)] by blast
  have "AllPrerequisitesAreSatisfied a s1 = Some (Inr (\<forall>q. requires s a q \<longrightarrow> sat s q))"
    using AllPrerequisitesAreSatisfied_ok [OF _ e] assms(1) agree_graph [OF s1(2)] by simp
  then show ?thesis
    using s1 by (auto simp: ShouldHandleArguments_def e would_handle_def assms(2))
qed

lemma find_loop_ok:
  assumes "graph_ok s" and "set as \<subseteq> dom (exps s)"
  shows "\<exists>s'. find_loop args as s = Some (Inr (List.find (would_handle s args) as, s')) \<and> agree s s'"
  using assms
proof (induction as arbitrary: s)
  case (Cons a as)
  obtain e where "exps s a = Some e" using Cons.prems(2) by auto
  then obtain s1 where s1: "ShouldHandleArguments a args s = Some (Inr (would_handle s args a, s1))" "agree s s1"
    using ShouldHandleArguments_ok [OF Cons.prems(1)] by blast
  obtain s' where "find_loop args as s1 = Some (Inr (List.find (would_handle s args) as, s'))" "agree s1 s'"
    using Cons.IH [of s1] Cons.prems agree_graph(5) [OF s1(2)] agreeD(3) [OF s1(2)] agree_handles [OF s1(2)] by auto
  then show ?case using s1 agree_trans by auto
qed auto

lemma tried_loop_ok:
  assumes "graph_ok s" and "set as \<subseteq> dom (exps s)"
  shows "\<exists>t. tried_loop n i as args s = Some (Inr t)"
  using assms(2)
proof (induction as arbitrary: i)
  case (Cons a as)
  obtain e where e: "exps s a = Some e" using Cons.prems by auto
  obtain t where "tried_loop n (i + 1) as args s = Some (Inr t)" using Cons by auto
  moreover obtain why where "ExplainMatchResultTo a args s = Some (Inr why)"
    using ExplainMatchResultTo_returns [OF assms(1) e] by blast
  ultimately show ?case using e by simp
qed simp

text \<open>The expectation that a call of mock function \<open>m\<close> goes to: the one declared last that handles it.\<close>

definition handler :: "('a, 'r, 'z) Mocks_scheme \<Rightarrow> nat \<Rightarrow> 'a \<Rightarrow> nat option" where
  "handler s m args =
     (case mockers s m of None \<Rightarrow> None | Some f \<Rightarrow> List.find (would_handle s args) (rev (untyped_expectations f)))"

text \<open>What a call that is not excessive makes of its expectation.\<close>

definition handled_by :: "('a, 'x) Expectation \<Rightarrow> ('a, 'x) Expectation" where
  "handled_by e = (if retires_on_saturation e \<and> IsSaturated (called e) then Retire (called e) else called e)"

definition after_call :: "nat \<Rightarrow> ('a, 'x) Expectation \<Rightarrow> ('a, 'x, 'z) Gmock_scheme \<Rightarrow> ('a, 'x, 'z) Gmock_scheme" where
  "after_call a e s =
     (if IsSaturated e then put_exp a (called e) s
      else put_exp a (handled_by e) (retire_set {q. requires s a q} s))"

lemma find_in: "List.find P xs = Some x \<Longrightarrow> x \<in> set xs \<and> P x"
  by (metis find_Some_iff nth_mem)

lemma handlerD:
  assumes "handler s m args = Some a"
  shows "would_handle s args a" and "\<exists>f. mockers s m = Some f \<and> a \<in> set (untyped_expectations f)"
proof -
  obtain f where f: "mockers s m = Some f" "List.find (would_handle s args) (rev (untyped_expectations f)) = Some a"
    using assms by (auto simp: handler_def split: option.splits)
  then show "would_handle s args a" "\<exists>f. mockers s m = Some f \<and> a \<in> set (untyped_expectations f)"
    using find_in [OF f(2)] by auto
qed

lemma called_unchecked:
  "called (x\<lparr>action_count_checked := b\<rparr>) = (called x)\<lparr>action_count_checked := b\<rparr>"
  "Retire (x\<lparr>action_count_checked := b\<rparr>) = (Retire x)\<lparr>action_count_checked := b\<rparr>"
  by (simp_all add: called_def Retire_def)

text \<open>After the checks of action counts, the state is the one before but for the flags.\<close>

lemma agree_after_call:
  assumes "agree s s1" and e: "exps s a = Some e" and e1: "exps s1 a = Some e1"
  shows "agree (after_call a e s) (after_call a e1 s1)"
proof -
  obtain ck evs where s1: "s1 = s\<lparr>exps := (\<lambda>a. map_option (\<lambda>e. e\<lparr>action_count_checked := ck a\<rparr>) (exps s a)),
      events := events s @ evs\<rparr>"
    using assms(1) unfolding agree_def by blast
  have e1': "e1 = e\<lparr>action_count_checked := ck a\<rparr>" using e e1 by (simp add: s1)
  have req: "requires s1 = requires s" by (rule agree_graph(1) [OF assms(1)])
  note c = called_unchecked
  have h: "handled_by (e\<lparr>action_count_checked := ck a\<rparr>) = (handled_by e)\<lparr>action_count_checked := ck a\<rparr>"
    by (simp add: handled_by_def c)
  have x: "after_call a e1 s1 =
    (after_call a e s)\<lparr>exps := (\<lambda>x. map_option (\<lambda>e. e\<lparr>action_count_checked := ck x\<rparr>) (exps (after_call a e s) x)),
      events := events (after_call a e s) @ evs\<rparr>"
  proof (cases "IsSaturated e")
    case True
    then show ?thesis
      by (simp add: after_call_def e1' c) (auto simp: s1 put_exp_def fun_eq_iff)
  next
    case False
    then show ?thesis
      by (simp add: after_call_def e1' h req)
        (auto simp: s1 put_exp_def retire_set_def fun_eq_iff option.map_comp comp_def c cong: if_cong)
  qed
  show ?thesis unfolding agree_def using x by blast
qed

lemma GetAction_ok:
  assumes "graph_ok s" and "retired_closed s" and e: "exps s a = Some e"
    and "\<not> retired e" and "exp_ok e" and "call_count e < INT_MAX"
  shows "\<exists>what why s'. GetActionForArguments d a s =
      Some (Inr (if IsSaturated e then None else Some (action_for e (call_count e + 1)), what, why, s')) \<and>
    same_core (after_call a e s) s'"
proof (cases "IsSaturated e")
  case True
  then show ?thesis using GetAction_saturated [OF e True assms(6)] by (simp add: after_call_def)
next
  case False
  then show ?thesis
    using GetAction_unsaturated [OF assms(1-4) False _ assms(6), of d] assms(5)
    by (auto simp: after_call_def handled_by_def exp_ok_def)
qed

text \<open>The state may differ from the one given only in the checked flags and the events.\<close>

lemma UntypedFind_ok:
  assumes inv: "mock_inv s" and f: "mockers s m = Some f"
    and bound: "\<And>a. handler s m args = Some a \<Longrightarrow> call_count (the (exps s a)) < INT_MAX"
  shows "\<exists>what why s'. agree (case handler s m args of None \<Rightarrow> s | Some a \<Rightarrow> after_call a (the (exps s a)) s) s' \<and>
    UntypedFindMatchingExpectation m args s =
      Some (Inr (handler s m args,
        (case handler s m args of
           None \<Rightarrow> None
         | Some a \<Rightarrow>
             (let e = the (exps s a)
              in if IsSaturated e then None
                 else (case action_for e (call_count e + 1) of DoDefault \<Rightarrow> None | Act x \<Rightarrow> Some x))),
        (case handler s m args of None \<Rightarrow> False | Some a \<Rightarrow> IsSaturated (the (exps s a))), what, why, s'))"
proof -
  let ?es = "untyped_expectations f"
  have es: "set ?es \<subseteq> dom (exps s)" using mock_invD(6) [OF inv f] .
  have found: "handler s m args = List.find (would_handle s args) (rev ?es)" by (simp add: handler_def f)
  obtain s1 where s1: "find_loop args (rev ?es) s = Some (Inr (handler s m args, s1))" "agree s s1"
    using find_loop_ok [OF mock_invD(1) [OF inv], of "rev ?es" args] es unfolding found by auto
  have f1: "mockers s1 m = Some f" using agree_mockers(1) [OF s1(2)] f by simp
  have find: "FindMatchingExpectationLocked m args s = Some (Inr (handler s m args, s1))"
    by (simp add: FindMatchingExpectationLocked_def get_mocker_def f s1(1))
  have inv1: "mock_inv s1" by (rule agree_inv [OF s1(2) inv])
  show ?thesis
  proof (cases "handler s m args")
    case None
    obtain t where "tried_loop (length ?es) 0 ?es args s1 = Some (Inr t)"
      using tried_loop_ok [OF mock_invD(1) [OF inv1]] mock_invD(6) [OF inv1 f1] by blast
    then show ?thesis
      using find None s1(2)
      by (simp add: UntypedFindMatchingExpectation_def FormatUnexpectedCallMessageLocked_def
          PrintTriedExpectationsLocked_def get_mocker_def f1 Let_def)
  next
    case (Some a)
    obtain e where e: "exps s a = Some e" "\<not> retired e"
      using handlerD(1) [OF Some] unfolding would_handle_def by blast
    obtain b where e1: "exps s1 a = Some (e\<lparr>action_count_checked := b\<rparr>)" using agreeD(4) [OF s1(2) e(1)] by blast
    have "exp_ok e" "call_count e < INT_MAX" using mock_invD(4) [OF inv e(1)] bound [OF Some] e(1) by simp_all
    then obtain what why s2 where s2: "GetActionForArguments (DescribeDefaultActionTo f args) a s1 =
        Some (Inr (if IsSaturated e then None else Some (action_for e (call_count e + 1)), what, why, s2))"
      "same_core (after_call a (e\<lparr>action_count_checked := b\<rparr>) s1) s2"
      using GetAction_ok [OF mock_invD(1,2) [OF inv1] e1, unfolded unchecked_simps, OF e(2)] by blast
    have "agree (after_call a e s) s2"
      using agree_trans [OF agree_after_call [OF s1(2) e(1) e1] same_core_agree [OF s2(2)]] .
    then show ?thesis
      using find Some
      by (auto simp: UntypedFindMatchingExpectation_def get_mocker_def f1 e1 e(1) s2(1) Let_def split: Action.split)
  qed
qed

subsection \<open>A call keeps the invariant\<close>

lemma requires_put_same:
  assumes "exps s a = Some e" and "immediate_prerequisites e' = immediate_prerequisites e"
  shows "requires (put_exp a e' s) = requires s"
proof -
  have 1: "exps s x = Some f \<Longrightarrow> \<exists>f'. exps (put_exp a e' s) x = Some f' \<and>
      immediate_prerequisites f' = immediate_prerequisites f" for x f
    using assms by auto
  have 2: "exps (put_exp a e' s) x = Some f \<Longrightarrow> \<exists>f'. exps s x = Some f' \<and>
      immediate_prerequisites f' = immediate_prerequisites f" for x f
    using assms by (auto split: if_splits)
  show ?thesis using requires_same_edges [OF _ 1] requires_same_edges [OF _ 2] by blast
qed

lemma called_simps [simp]: "call_count (called e) = call_count e + 1" "cardinality (called e) = cardinality e"
  "immediate_prerequisites (called e) = immediate_prerequisites e" "retired (called e) = retired e"
  by (simp_all add: called_def)

lemma handled_by_simps [simp]: "call_count (handled_by e) = call_count e + 1" "cardinality (handled_by e) = cardinality e"
  "immediate_prerequisites (handled_by e) = immediate_prerequisites e"
  by (simp_all add: handled_by_def)

lemma handled_Retire [simp]: "handled (Retire e) = handled e" "exp_ok (Retire e) = exp_ok e"
  by (simp_all add: handled_def exp_ok_def upper_of_def)

lemma exps_after_call:
  assumes "graph_ok s" and "exps s a = Some e"
  shows "exps (after_call a e s) b =
    (if b = a then Some (if IsSaturated e then called e else handled_by e)
     else if \<not> IsSaturated e \<and> requires s a b then map_option Retire (exps s b) else exps s b)"
  using assms by (auto simp: after_call_def exps_retire_set)

lemma graph_after_call:
  assumes "graph_ok s" and "exps s a = Some e"
  shows "graph_ok (after_call a e s)" and "requires (after_call a e s) = requires s"
proof -
  let ?t = "retire_set {q. requires s a q} s"
  have nr: "\<not> requires s a a" using assms(1) requires_rank unfolding graph_ok_def by blast
  have t: "exps ?t a = Some e" "graph_ok ?t" "requires ?t = requires s"
    using assms nr by (auto simp: exps_retire_set graph_ok_def fun_eq_iff)
  show "graph_ok (after_call a e s)" "requires (after_call a e s) = requires s"
    using graph_put_same [OF assms, of "called e"] graph_put_same [OF t(2,1), of "handled_by e"]
      requires_put_same [OF assms(2), of "called e"] requires_put_same [OF t(1), of "handled_by e"] t(3)
    by (auto simp: after_call_def)
qed

lemma dom_after_call: "exps s a = Some e \<Longrightarrow> dom (exps (after_call a e s)) = dom (exps s)"
  by (auto simp: after_call_def exps_retire_set split: if_splits)

lemma after_call_kept [simp]:
  "sequences (after_call a e s) = sequences s" "implicit_sequence (after_call a e s) = implicit_sequence s"
  by (simp_all add: after_call_def put_exp_def retire_set_def)

lemma after_call_mockers [simp]:
  fixes s :: "('a, 'r, 'z) Mocks_scheme"
  shows "mockers (after_call a e s) = mockers s"
  by (simp add: after_call_def put_exp_def retire_set_def)

lemma not_required_by_handled:
  assumes "order_ok s" and "would_handle s args a" and "exps s b = Some f" and "handled f"
  shows "\<not> requires s b a"
  using assms unfolding order_ok_def would_handle_def is_retired_def by fastforce

lemma after_call_inv:
  assumes inv: "mock_inv s" and h: "would_handle s args a" and e: "exps s a = Some e" and bound: "call_count e < INT_MAX"
  shows "mock_inv (after_call a e s)"
proof -
  let ?s = "after_call a e s"
  note E = exps_after_call [OF mock_invD(1) [OF inv] e]
  note G = graph_after_call [OF mock_invD(1) [OF inv] e]
  have nr: "\<not> requires s a a" using mock_invD(1) [OF inv] requires_rank unfolding graph_ok_def by blast
  have ne: "\<not> retired e" and pre: "\<And>q. requires s a q \<Longrightarrow> sat s q" using h e unfolding would_handle_def by auto
  have lim: "limits_of (cardinality e)" "0 \<le> call_count e" using mock_invD(4) [OF inv e] by (auto simp: exp_ok_def)
  have ret: "is_retired ?s b" if "is_retired s b" for b
    using that ne e unfolding is_retired_def by (auto simp: E)
  have req_ret: "is_retired ?s b" if "requires s a b" "\<not> IsSaturated e" for b
  proof -
    have "b \<noteq> a" "b \<in> dom (exps s)" using that nr mock_invD(1) [OF inv] requires_rank unfolding graph_ok_def by blast+
    then show ?thesis using that by (auto simp: is_retired_def E)
  qed
  have st: "sat ?s b" if "sat s b" "b \<noteq> a" for b
    using that by (auto simp: sat_def E)
  have "retired_closed ?s"
    unfolding retired_closed_def
  proof (intro allI impI)
    fix b f p
    assume f: "exps ?s b = Some f" "retired f" "p \<in> set (immediate_prerequisites f)"
    show "is_retired ?s p"
    proof (cases "b = a")
      case True
      then have "\<not> IsSaturated e" "requires s a p"
        using f ne e by (auto simp: E split: if_splits intro: requires.direct)
      then show ?thesis using req_ret by blast
    next
      case False
      then obtain f0 where f0: "exps s b = Some f0" "immediate_prerequisites f0 = immediate_prerequisites f"
        using f(1) by (auto simp: E split: if_splits)
      consider "retired f0" | "\<not> IsSaturated e" "requires s a b"
        using False f f0 by (auto simp: E split: if_splits)
      then show ?thesis
      proof cases
        case 1
        then show ?thesis using mock_invD(2) [OF inv] f0 f(3) ret unfolding retired_closed_def by metis
      next
        case 2
        then show ?thesis using req_ret requires_trans requires.direct [OF f0(1)] f0(2) f(3) by metis
      qed
    qed
  qed
  moreover have "order_ok ?s"
    unfolding order_ok_def G(2)
  proof (intro allI impI)
    fix b f p
    assume f: "exps ?s b = Some f" "handled f" and p: "requires s b p"
    show "is_retired ?s p \<and> sat ?s p"
    proof (cases "b = a")
      case True
      then have pa: "p \<noteq> a" using p nr by blast
      show ?thesis
      proof (cases "IsSaturated e")
        case False
        then show ?thesis using req_ret st pre p True pa by blast
      next
        case sat: True
        have "handled e" using f sat True limits_ofD(4) [OF lim(1)] by (auto simp: E handled_def upper_of_def IsSaturated_def)
        then show ?thesis using mock_invD(3) [OF inv] e p True ret st pa unfolding order_ok_def by blast
      qed
    next
      case False
      then obtain f0 where f0: "exps s b = Some f0" "handled f0" using f by (auto simp: E split: if_splits)
      have "p \<noteq> a" using not_required_by_handled [OF mock_invD(3) [OF inv] h f0] p by blast
      then show ?thesis using mock_invD(3) [OF inv] f0 p ret st unfolding order_ok_def by blast
    qed
  qed
  moreover have "\<forall>f \<in> ran (exps ?s). exp_ok f"
    using mock_invD(4) [OF inv] lim bound by (auto simp: ran_def E exp_ok_def split: if_splits)
  ultimately show ?thesis
    using G(1) inv dom_after_call [OF e] unfolding mock_inv_def by simp
qed

section \<open>Building expectations\<close>

definition unrequired :: "nat \<Rightarrow> ('a, 'x, 'z) Gmock_scheme \<Rightarrow> bool" where
  "unrequired a s \<longleftrightarrow> (\<forall>b e. exps s b = Some e \<longrightarrow> a \<notin> set (immediate_prerequisites e))"

definition unused :: "('a, 'x) Expectation \<Rightarrow> bool" where
  "unused e \<longleftrightarrow> call_count e = 0 \<and> \<not> retired e \<and> limits_of (cardinality e)"

lemma requires_put_unrequired:
  assumes "requires (put_exp a e' s) b p" and "unrequired a s" and "b \<noteq> a" and "a \<notin> set (immediate_prerequisites e')"
  shows "requires s b p \<and> p \<noteq> a"
  using assms(1,3)
proof (induction rule: requires.induct)
  case (direct b f p)
  then show ?case using assms(2) requires.direct [of s b] unfolding unrequired_def by auto
next
  case (through b f c p)
  then have f: "exps s b = Some f" by simp
  then have "c \<noteq> a" using through assms(2) unfolding unrequired_def by blast
  then show ?case using through requires.through [OF f] by blast
qed

lemma put_unrequired_inv:
  assumes inv: "mock_inv s" and u: "unrequired a s" and e': "unused e'"
    and pre: "set (immediate_prerequisites e') \<subseteq> dom (exps s) - {a}"
  shows "mock_inv (put_exp a e' s)" and "unrequired a (put_exp a e' s)"
proof -
  let ?s = "put_exp a e' s"
  show "unrequired a ?s" using u pre by (auto simp: unrequired_def)
  obtain r where r: "ranked s r" using mock_invD(1) [OF inv] unfolding graph_ok_def by blast
  define r' where "r' = r(a := Suc (Max (insert 0 (r ` set (immediate_prerequisites e')))))"
  have "ranked ?s r'"
    unfolding ranked_def
  proof (intro allI impI)
    fix b f p
    assume f: "exps ?s b = Some f" "p \<in> set (immediate_prerequisites f)"
    show "p \<in> dom (exps ?s) \<and> r' p < r' b"
    proof (cases "b = a")
      case True
      then have "f = e'" "p \<noteq> a" "p \<in> dom (exps s)" using f pre by auto
      then have "r p \<le> Max (insert 0 (r ` set (immediate_prerequisites e')))" using f(2) by simp
      then show ?thesis using \<open>p \<noteq> a\<close> \<open>p \<in> dom (exps s)\<close> True by (simp add: r'_def)
    next
      case False
      then have "exps s b = Some f" using f(1) by simp
      then show ?thesis using rankedD [OF r _ f(2)] u f(2) False by (auto simp: r'_def unrequired_def)
    qed
  qed
  then have "graph_ok ?s" unfolding graph_ok_def by blast
  moreover have "retired_closed ?s"
    unfolding retired_closed_def
  proof (intro allI impI)
    fix b f p
    assume f: "exps ?s b = Some f" "retired f" "p \<in> set (immediate_prerequisites f)"
    then have "b \<noteq> a" using e' by (auto simp: unused_def)
    then have b: "exps s b = Some f" using f(1) by simp
    then have "p \<noteq> a" using u f(3) unfolding unrequired_def by blast
    then show "is_retired ?s p" using mock_invD(2) [OF inv] b f unfolding retired_closed_def is_retired_def by auto
  qed
  moreover have "order_ok ?s"
    unfolding order_ok_def
  proof (intro allI impI)
    fix b f p
    assume f: "exps ?s b = Some f" "handled f" and p: "requires ?s b p"
    have b: "b \<noteq> a" using f e' by (auto simp: unused_def handled_def)
    then have "requires s b p \<and> p \<noteq> a" using requires_put_unrequired [OF p u b] pre by blast
    then show "is_retired ?s p \<and> sat ?s p"
      using mock_invD(3) [OF inv] b f unfolding order_ok_def is_retired_def sat_def by auto
  qed
  moreover have "\<forall>f \<in> ran (exps ?s). exp_ok f"
    using mock_invD(4) [OF inv] e' by (auto simp: ran_def exp_ok_def unused_def INT_MAX_def split: if_splits)
  moreover have "sequences ?s = sequences s" "mockers ?s = mockers s" by (simp_all add: put_exp_def)
  ultimately show "mock_inv ?s"
    using mock_invD(5,6,7) [OF inv] unfolding mock_inv_def by fastforce
qed

text \<open>During an \<open>EXPECT_CALL\<close> statement: its expectation \<open>a\<close> is nobody's pre-requisite yet.\<close>

definition building :: "nat \<Rightarrow> ('a, 'r, 'z) Mocks_scheme \<Rightarrow> bool" where
  "building a s \<longleftrightarrow> mock_inv s \<and> unrequired a s \<and>
     (\<exists>e. exps s a = Some e \<and> unused e \<and> set (immediate_prerequisites e) \<subseteq> dom (exps s) - {a})"

lemma buildingE:
  assumes "building a s"
  obtains e where "mock_inv s" "unrequired a s" "exps s a = Some e" "unused e"
    "set (immediate_prerequisites e) \<subseteq> dom (exps s) - {a}"
  using assms unfolding building_def by blast

lemma building_put:
  assumes "building a s" and "unused e'" and "set (immediate_prerequisites e') \<subseteq> dom (exps s) - {a}"
  shows "building a (put_exp a e' s)" and "dom (exps (put_exp a e' s)) = dom (exps s)"
  using put_unrequired_inv [OF _ _ assms(2,3)] assms unfolding building_def by auto

lemma agree_building:
  assumes "agree s s'" and "building a s"
  shows "building a s'" and "dom (exps s') = dom (exps s)"
proof -
  obtain e where e: "mock_inv s" "unrequired a s" "exps s a = Some e" "unused e"
    "set (immediate_prerequisites e) \<subseteq> dom (exps s) - {a}"
    using assms(2) by (rule buildingE)
  have "unrequired a s'" using e(2) agreeD(5) [OF assms(1)] unfolding unrequired_def by fastforce
  moreover obtain b where "exps s' a = Some (e\<lparr>action_count_checked := b\<rparr>)" using agreeD(4) [OF assms(1) e(3)] by blast
  ultimately show "building a s'"
    using agree_inv [OF assms(1) e(1)] e(4,5) agreeD(3) [OF assms(1)] unfolding building_def by (auto simp: unused_def)
qed (rule agreeD(3) [OF assms(1)])

lemma AddExpectation_building:
  assumes "building a s" and "AddExpectation q a s = Inr s'"
  shows "building a s'" and "dom (exps s') = dom (exps s)"
proof -
  obtain e where e: "mock_inv s" "unrequired a s" "exps s a = Some e" "unused e"
    "set (immediate_prerequisites e) \<subseteq> dom (exps s) - {a}"
    using assms(1) by (rule buildingE)
  obtain lst where l: "sequences s q = Some lst" using assms(2) by (auto simp: AddExpectation_def split: option.splits)
  have seq: "building a (t\<lparr>sequences := (sequences t)(q \<mapsto> Some a)\<rparr>)" if b: "building a t" for t :: "('a, 'b, 'c) Mocks_scheme"
  proof -
    let ?t = "t\<lparr>sequences := (sequences t)(q \<mapsto> Some a)\<rparr>"
    have g: "exps ?t = exps t" by simp
    have "mock_inv ?t" using b graph_cong [OF g] unfolding building_def mock_inv_def by auto
    then show ?thesis using b unfolding building_def unrequired_def by simp
  qed
  consider "lst = Some a" | "lst = None" | p where "lst = Some p" "p \<noteq> a" by (cases lst) auto
  then show "building a s'" "dom (exps s') = dom (exps s)"
  proof (atomize (full), cases)
    case 1
    then show "building a s' \<and> dom (exps s') = dom (exps s)" using assms l by (simp add: AddExpectation_def)
  next
    case 2
    then show "building a s' \<and> dom (exps s') = dom (exps s)" using assms l seq by (auto simp: AddExpectation_def)
  next
    case 3
    let ?e = "e\<lparr>immediate_prerequisites := ExpectationSet_add (immediate_prerequisites e) p\<rparr>"
    have "p \<in> dom (exps s)" using mock_invD(5) [OF e(1)] l 3 by blast
    then have b: "building a (put_exp a ?e s)" "dom (exps (put_exp a ?e s)) = dom (exps s)"
      using building_put [OF assms(1), of ?e] e(4,5) 3(2) by (auto simp: unused_def)
    have "s' = (put_exp a ?e s)\<lparr>sequences := (sequences (put_exp a ?e s))(q \<mapsto> Some a)\<rparr>"
      using assms(2) l 3 e(3) by (simp add: AddExpectation_def)
    then show "building a s' \<and> dom (exps s') = dom (exps s)" using seq [OF b(1)] b(2) by simp
  qed
qed

subsection \<open>Clauses\<close>

lemma ExpectSpecProperty_building:
  "building a s \<Longrightarrow> building a (ExpectSpecProperty c m e s)"
  "exps (ExpectSpecProperty c m e s) = exps s"
  using agree_building(1) [OF same_core_agree [OF same_core_reports(3)]] same_coreD [OF same_core_reports(3)] by blast+

lemma CheckActionCount_building:
  assumes "building a s" and "CheckActionCountIfNotDone a s = Inr s'"
  shows "building a s'" and "dom (exps s') = dom (exps s)"
proof -
  obtain e where "exps s a = Some e" using assms(1) by (rule buildingE)
  from CheckActionCountIfNotDone_ok [OF this] have "agree s s'" using assms(2) by auto
  then show "building a s'" "dom (exps s') = dom (exps s)" using agree_building assms(1) by blast+
qed

text \<open>A clause reports at most a failure and changes its expectation only.\<close>

lemma building_change:
  assumes "building a s" and "building a t" and "exps t = exps s" and "unused e'"
    and "set (immediate_prerequisites e') \<subseteq> dom (exps s) - {a}"
  shows "building a (put_exp a e' t)" and "dom (exps (put_exp a e' t)) = dom (exps s)"
  using building_put [OF assms(2,4)] assms(3,5) by auto

lemma spec_if:
  "(if c then ExpectSpecProperty p m e s else ExpectSpecProperty p' m' e s) =
    ExpectSpecProperty (if c then p else p') (if c then m else m') e s"
  by simp

lemma apply_clause_building:
  assumes b: "building a s" and c: "clause_ok s0 c" "dom (exps s0) \<subseteq> dom (exps s) - {a}"
    and r: "apply_clause c a s = Inr s'"
  shows "building a s' \<and> dom (exps s') = dom (exps s)"
proof -
  obtain e where e: "mock_inv s" "unrequired a s" "exps s a = Some e" "unused e"
    "set (immediate_prerequisites e) \<subseteq> dom (exps s) - {a}"
    using b by (rule buildingE)
  note P = ExpectSpecProperty_building(1) [OF b] ExpectSpecProperty_building(2)
  note C = building_change [OF b P(1) P(2)]
  have plain: "building a s' \<and> dom (exps s') = dom (exps s)"
    if "Inr (put_exp a e2 (ExpectSpecProperty p m e s)) = (Inr s' :: ('a, 'b, 'c) Mocks_scheme res)" "unused e2"
      "set (immediate_prerequisites e2) \<subseteq> dom (exps s) - {a}" for e2 p m
  proof -
    have "s' = put_exp a e2 (ExpectSpecProperty p m e s)" using that(1) by simp
    then show ?thesis using C [OF that(2,3)] by blast
  qed
  have checked: "building a s' \<and> dom (exps s') = dom (exps s)"
    if k: "CheckActionCountIfNotDone a (put_exp a e2 (ExpectSpecProperty p m e s)) = Inr s'" "unused e2"
      "set (immediate_prerequisites e2) \<subseteq> dom (exps s) - {a}" for e2 p m
    using CheckActionCount_building [OF C(1) [OF that(2,3)] k(1)] C(2) [OF that(2,3)] by simp
  show ?thesis
  proof (cases c)
    case (with_matcher m x)
    show ?thesis
      by (rule plain [OF r [unfolded with_matcher apply_clause.simps With_def get_exp_Some [OF e(3)] rbind_Inr Let_def spec_if]])
        (use e(4,5) in \<open>simp_all add: unused_def\<close>)
  next
    case (times d)
    show ?thesis
      by (rule plain [OF r [unfolded times apply_clause.simps UntypedTimes_def get_exp_Some [OF e(3)] rbind_Inr Let_def spec_if]])
        (use c(1) e(4,5) times in \<open>simp_all add: unused_def SpecifyCardinality_def\<close>)
  next
    case (in_sequence q)
    define t where "t = put_exp a (e\<lparr>last_clause := kInSequence\<rparr>) (ExpectSpecProperty (last_clause e \<le> kInSequence)
      (lit ''.InSequence() cannot appear after .After(),'' @ lit '' .WillOnce(), .WillRepeatedly(), or '' @
       lit ''.RetiresOnSaturation().'') e s)"
    have t: "building a t" "dom (exps t) = dom (exps s)"
      unfolding t_def using C [of "e\<lparr>last_clause := kInSequence\<rparr>"] e(4,5) by (simp_all add: unused_def)
    obtain f :: "('a, 'b) FunctionMocker" and h where "GetHandleOf a f = Inr h" "AddExpectation q h t = Inr s'"
      using r [unfolded in_sequence apply_clause.simps InSequence_def get_exp_Some [OF e(3)] rbind_Inr Let_def, folded t_def]
      unfolding rbind_eq_Inr by blast
    then have "AddExpectation q a t = Inr s'" by (simp add: GetHandleOf_def split: if_splits)
    from AddExpectation_building [OF t(1) this] show ?thesis using t(2) by simp
  next
    case (after es)
    show ?thesis
      by (rule plain [OF r [unfolded after apply_clause.simps After_def get_exp_Some [OF e(3)] rbind_Inr Let_def]])
        (use c e(4,5) after in \<open>auto simp: unused_def\<close>)
  next
    case (will_once x)
    show ?thesis
      by (rule plain [OF r [unfolded will_once apply_clause.simps WillOnce_def get_exp_Some [OF e(3)] rbind_Inr Let_def]])
        (use e(4,5) in \<open>simp_all add: unused_def\<close>)
  next
    case (will_repeatedly x)
    show ?thesis
      by (rule checked [OF r [unfolded will_repeatedly apply_clause.simps WillRepeatedly_def get_exp_Some [OF e(3)] rbind_Inr Let_def spec_if]])
        (use e(4,5) in \<open>simp_all add: unused_def\<close>)
  next
    case retires_when_saturated
    show ?thesis
      by (rule checked [OF r [unfolded retires_when_saturated apply_clause.simps RetiresOnSaturation_def get_exp_Some [OF e(3)] rbind_Inr Let_def]])
        (use e(4,5) in \<open>simp_all add: unused_def\<close>)
  qed
qed

lemma apply_clauses_building:
  assumes "building a s" and "\<forall>c \<in> set cs. clause_ok s0 c" and "dom (exps s0) \<subseteq> dom (exps s) - {a}"
    and "apply_clauses cs a s = Inr s'"
  shows "building a s'"
  using assms
proof (induction cs arbitrary: s)
  case (Cons c cs)
  obtain s1 where s1: "apply_clause c a s = Inr s1" "apply_clauses cs a s1 = Inr s'"
    using Cons.prems(4) by (auto simp: rbind_eq_Inr)
  have "building a s1 \<and> dom (exps s1) = dom (exps s)"
    using apply_clause_building [OF Cons.prems(1) _ Cons.prems(3) s1(1)] Cons.prems(2) by simp
  then show ?case using Cons.IH [of s1] Cons.prems s1(2) by simp
qed simp

lemma put_state_kept [simp]:
  "exps (put_state obj st s) = exps s" "sequences (put_state obj st s) = sequences s" "mockers (put_state obj st s) = mockers s"
  "implicit_sequence (put_state obj st s) = implicit_sequence s"
  by (simp_all add: put_state_def)

lemma RegisterUse_kept [simp]:
  "exps (RegisterUseByOnCallOrExpectCall obj f l s) = exps s" "sequences (RegisterUseByOnCallOrExpectCall obj f l s) = sequences s"
  "mockers (RegisterUseByOnCallOrExpectCall obj f l s) = mockers s"
  "implicit_sequence (RegisterUseByOnCallOrExpectCall obj f l s) = implicit_sequence s"
  by (simp_all add: RegisterUseByOnCallOrExpectCall_def Let_def)

lemma Expectation_new_unused: "unused (Expectation_new m f l t ms ex)"
  "immediate_prerequisites (Expectation_new m f l t ms ex) = []"
  by (simp_all add: unused_def Expectation_new_def)

text \<open>A mock function whose list has existing expectations only, each once.\<close>

lemma put_mocker_inv:
  assumes "mock_inv s" and "set (untyped_expectations f) \<subseteq> dom (exps s)" and "distinct (untyped_expectations f)"
  shows "mock_inv (put_mocker m f s)"
proof -
  have g: "exps (put_mocker m f s) = exps s" by (simp add: put_mocker_def)
  show ?thesis
    using assms graph_cong [OF g] unfolding mock_inv_def by (auto simp: put_mocker_def)
qed

lemma AddNewExpectation_building:
  assumes inv: "mock_inv s" and new: "exps s a = None" and r: "AddNewExpectation a fl ln t ms ex m s = Inr s'"
  shows "building a s'" and "dom (exps s) \<subseteq> dom (exps s') - {a}"
proof -
  obtain f obj where f: "mockers s m = Some f" "MockObject f = Inr obj"
    using r by (auto simp: AddNewExpectation_def rbind_eq_Inr get_mocker_def split: option.splits)
  define s1 where "s1 = put_exp a (Expectation_new m fl ln t ms ex) (RegisterUseByOnCallOrExpectCall obj fl ln s)"
  define s2 where "s2 = put_mocker m (f\<lparr>untyped_expectations := untyped_expectations f @ [a]\<rparr>) s1"
  let ?r = "RegisterUseByOnCallOrExpectCall obj fl ln s"
  have "mock_inv ?r" by (rule mock_inv_cong [OF inv]) simp_all
  moreover have "unrequired a ?r"
    using mock_invD(1) [OF inv] new unfolding unrequired_def graph_ok_def ranked_def by fastforce
  ultimately have s1: "mock_inv s1" "unrequired a s1"
    using put_unrequired_inv [of ?r a "Expectation_new m fl ln t ms ex"] unfolding s1_def
    by (simp_all add: Expectation_new_unused)
  have d: "dom (exps s1) = insert a (dom (exps s))" by (auto simp: s1_def)
  have "set (untyped_expectations f) \<subseteq> dom (exps s)" "distinct (untyped_expectations f)"
    using mock_invD(6,7) [OF inv f(1)] by blast+
  then have "mock_inv s2" unfolding s2_def using d new by (intro put_mocker_inv [OF s1(1)]) auto
  moreover have e2: "exps s2 = exps s1" by (simp add: s2_def put_mocker_def)
  moreover have "exps s1 a = Some (Expectation_new m fl ln t ms ex)" by (simp add: s1_def)
  ultimately have s2: "building a s2"
    using s1(2) unfolding building_def unrequired_def by (simp add: Expectation_new_unused)
  have d2: "dom (exps s) \<subseteq> dom (exps s2) - {a}" using d e2 new by auto
  have "(case implicit_sequence s2 of None \<Rightarrow> Inr s2 | Some q \<Rightarrow> AddExpectation q a s2) = Inr s'"
    using r [unfolded AddNewExpectation_def get_mocker_def f(1) option.case rbind_Inr f(2) Let_def, folded s1_def, folded s2_def] .
  then have "building a s' \<and> dom (exps s') = dom (exps s2)"
    using s2 AddExpectation_building [OF s2] by (auto split: option.splits)
  then show "building a s'" "dom (exps s) \<subseteq> dom (exps s') - {a}" using d2 by simp_all
qed

lemma expect_inv:
  assumes inv: "mock_inv s" and new: "exps s a = None" and i: "InternalExpectedAt a fl ln ob ct ms ex m s = Inr s1"
    and c: "\<forall>c \<in> set cs. clause_ok s c" and r: "apply_clauses cs a s1 = Inr s'"
  shows "mock_inv s'"
proof -
  obtain ln0 t0 where "AddNewExpectation a (Some fl) ln t0 ms ex m (log_to kInfo ln0 0 s) = Inr s1"
    using i unfolding InternalExpectedAt_def Let_def by blast
  moreover have ag: "agree s (log_to kInfo ln0 0 s)" by (simp add: same_core_agree)
  moreover have "exps (log_to kInfo ln0 0 s) a = None" using new agreeD(3) [OF ag] by auto
  ultimately have "building a s1" "dom (exps s) \<subseteq> dom (exps s1) - {a}"
    using AddNewExpectation_building [OF agree_inv [OF ag inv]] agreeD(3) [OF ag] by auto
  from apply_clauses_building [OF this(1) c this(2) r] show ?thesis by (rule buildingE)
qed

section \<open>Every operation keeps the invariant\<close>

lemma UntypedFind_overflow:
  assumes inv: "mock_inv s" and f: "mockers s m = Some f" and h: "handler s m args = Some a"
    and e: "exps s a = Some e" "call_count e = INT_MAX"
  shows "UntypedFindMatchingExpectation m args s = Some (Inl Undefined_arith)"
proof -
  have es: "set (untyped_expectations f) \<subseteq> dom (exps s)" using mock_invD(6) [OF inv f] .
  have found: "handler s m args = List.find (would_handle s args) (rev (untyped_expectations f))" by (simp add: handler_def f)
  obtain s1 where s1: "find_loop args (rev (untyped_expectations f)) s = Some (Inr (handler s m args, s1))" "agree s s1"
    using find_loop_ok [OF mock_invD(1) [OF inv], of "rev (untyped_expectations f)" args] es unfolding found by auto
  obtain b where e1: "exps s1 a = Some (e\<lparr>action_count_checked := b\<rparr>)" using agreeD(4) [OF s1(2) e(1)] by blast
  have "GetActionForArguments d a s1 = Some (Inl Undefined_arith)" for d
    using e(2) by (simp add: GetActionForArguments_def e1 IncrementCallCount_def)
  moreover have "mockers s1 m = Some f" using agree_mockers(1) [OF s1(2)] f by simp
  ultimately show ?thesis
    using s1(1) h by (simp add: UntypedFindMatchingExpectation_def FindMatchingExpectationLocked_def get_mocker_def f e1 Let_def)
qed

text \<open>The next call that the expectation expects is to perform the action \<open>x\<close>.\<close>

definition performs :: "('a, 'x) Expectation \<Rightarrow> 'x \<Rightarrow> bool" where
  "performs e x \<longleftrightarrow> \<not> IsSaturated e \<and> action_for e (call_count e + 1) = Act x"

text \<open>What the state is after a call, but for the checked flags and the events.\<close>

definition expected_state :: "nat \<Rightarrow> 'a \<Rightarrow> ('a, 'r, 'z) Mocks_scheme \<Rightarrow> ('a, 'r, 'z) Mocks_scheme" where
  "expected_state m args s = (case handler s m args of None \<Rightarrow> s | Some a \<Rightarrow> after_call a (the (exps s a)) s)"

text \<open>Every \<open>ON_CALL\<close> of the mock function has its \<open>WillByDefault\<close>, and not with \<open>DoDefault()\<close>.\<close>

definition on_calls_ok :: "('a, 'r) FunctionMocker \<Rightarrow> bool" where
  "on_calls_ok f \<longleftrightarrow> (\<forall>spec \<in> set (on_call_specs f). on_call_last spec = will_by_default_clause \<and> on_call_action spec \<noteq> DoDefault)"

lemma PerformDefaultAction_result:
  "PerformDefaultAction f args t = Inl Aborted \<and> \<not> on_calls_ok f \<or> (\<exists>r. PerformDefaultAction f args t = Inr r)"
proof (cases "FindOnCallSpec f args")
  case (Some spec)
  have "spec \<in> set (on_call_specs f)"
    using find_in [OF Some [unfolded FindOnCallSpec_def]] by simp
  then show ?thesis
    by (auto simp: PerformDefaultAction_def Some GetAction_def Perform_def on_calls_ok_def split: Action.split)
qed (auto simp: PerformDefaultAction_def split: option.split)

lemma perform_call_result:
  "perform_call f x args t = Inl Aborted \<and> \<not> on_calls_ok f \<or>
   (\<exists>r. perform_call f x args t = Inr r \<and> (\<forall>y. x = Some y \<longrightarrow> r = Returned (y args)))"
  using PerformDefaultAction_result [of f args t] by (auto simp: perform_call_def split: option.splits)

lemma report_agree: "agree s (ReportUninterestingCall reaction msg s)" "agree s (Expect c fl l msg s)" "agree s (log_to sev msg n s)"
  by (simp_all add: ReportUninterestingCall_def Let_def same_core_agree split: CallReaction.split)

lemma UntypedInvokeWith_ok:
  assumes inv: "mock_inv s" and f: "mockers s m = Some f" and owned: "mock_obj f \<noteq> None \<or> untyped_expectations f \<noteq> []"
    and bound: "\<And>a. handler s m args = Some a \<Longrightarrow> call_count (the (exps s a)) < INT_MAX"
  shows "UntypedInvokeWith m args s = Some (Inl Aborted) \<and> \<not> (on_calls_ok f \<and> mocker_name f \<noteq> None) \<or>
    (\<exists>r s'. UntypedInvokeWith m args s = Some (Inr (r, s')) \<and> agree (expected_state m args s) s' \<and>
      (\<forall>a x. handler s m args = Some a \<longrightarrow> performs (the (exps s a)) x \<longrightarrow> r = Returned (x args)))"
proof (cases "untyped_expectations f = []")
  case True
  then have "expected_state m args s = s" "handler s m args = None" by (simp_all add: expected_state_def handler_def f)
  moreover obtain obj where "MockObject f = Inr obj" using owned True by (auto simp: MockObject_def)
  moreover have "UntypedDescribeUninterestingCall f args = Inl Aborted \<and> mocker_name f = None \<or>
      (\<exists>t. UntypedDescribeUninterestingCall f args = Inr t)"
    by (simp add: UntypedDescribeUninterestingCall_def Mocker_Name_def split: option.split)
  ultimately show ?thesis
    using PerformDefaultAction_result [of f args "[]"]
      PerformDefaultAction_result [of f args "case_sum (\<lambda>_. []) id (UntypedDescribeUninterestingCall f args)"]
    by (auto simp: UntypedInvokeWith_def get_mocker_def f True Let_def report_agree simp del: not_None_eq split: outcome.splits)
next
  case False
  obtain untyped excessive what why s1 where
    find: "UntypedFindMatchingExpectation m args s = Some (Inr (handler s m args, untyped, excessive, what, why, s1))"
    and ag: "agree (expected_state m args s) s1"
    and act: "untyped = (case handler s m args of None \<Rightarrow> None | Some a \<Rightarrow>
      (let e = the (exps s a) in if IsSaturated e then None
       else (case action_for e (call_count e + 1) of DoDefault \<Rightarrow> None | Act x \<Rightarrow> Some x)))"
    using UntypedFind_ok [OF inv f bound] unfolding expected_state_def by blast
  have act: "untyped = Some x" if "handler s m args = Some a" "performs (the (exps s a)) x" for a x
    using that by (simp add: act performs_def Let_def)
  have "mockers (expected_state m args s) = mockers s" by (simp add: expected_state_def split: option.split)
  then have f1: "mockers s1 m = Some f" using agree_mockers(1) [OF ag] f by simp
  let ?text = "what @ lit ''    Function call: '' @ the (mocker_name f) @ print_args f args"
  have e: "\<exists>e. exps s1 a = Some e" if a: "handler s m args = Some a" for a
  proof -
    obtain e0 where "exps s a = Some e0" using handlerD(1) [OF a] unfolding would_handle_def by blast
    then have "exps (expected_state m args s) a \<noteq> None" by (simp add: expected_state_def a after_call_def)
    then show ?thesis using agreeD(3) [OF ag] by blast
  qed
  note more = agree_trans [OF ag report_agree(2)] agree_trans [OF ag report_agree(3)]
  consider (quiet) "\<not> (handler s m args = None \<or> excessive \<or> LogIsVisible (verbose s1) kInfo)"
    | (nameless) "handler s m args = None \<or> excessive \<or> LogIsVisible (verbose s1) kInfo" "mocker_name f = None"
    | (loud) nm where "handler s m args = None \<or> excessive \<or> LogIsVisible (verbose s1) kInfo" "mocker_name f = Some nm" by blast
  then show ?thesis
  proof cases
    case quiet
    then have u: "UntypedInvokeWith m args s =
        obind (Some (perform_call f untyped args [])) (\<lambda>result. Some (Inr (result, s1)))"
      unfolding UntypedInvokeWith_def get_mocker_def f option.case obind_simps find if_not_P [OF False] f1 prod.case Let_def
      by simp
    show ?thesis unfolding u using perform_call_result [of f untyped args "[]"] ag act by auto
  next
    case nameless
    then show ?thesis
      unfolding UntypedInvokeWith_def get_mocker_def f option.case obind_simps find if_not_P [OF False] f1 prod.case Let_def
      by (simp add: Mocker_Name_def)
  next
    case loud
    have name: "Mocker_Name f = Inr (the (mocker_name f))" using loud(2) by (simp add: Mocker_Name_def)
    define finish where "finish r =
       (case handler s m args of
          None \<Rightarrow> Some (Inr (Returned r, Expect False None (- 1) (?text @ PrintAsActionResult f r @ newline @ why) s1))
        | Some a \<Rightarrow>
            obind (Some (get_exp a s1)) (\<lambda>e.
            if excessive
            then Some (Inr (Returned r, Expect False (exp_file e) (exp_line e) (?text @ PrintAsActionResult f r @ newline @ why) s1))
            else Some (Inr (Returned r, log_to kInfo (DescribeLocationTo e @ ?text @ PrintAsActionResult f r @ newline @ why) 2 s1))))"
      for r
    have u: "UntypedInvokeWith m args s = obind (Some (perform_call f untyped args ?text)) (\<lambda>result.
        case result of Threw msg \<Rightarrow> Some (Inr (Threw msg, s1)) | Returned r \<Rightarrow> finish r)"
      unfolding UntypedInvokeWith_def get_mocker_def f option.case obind_simps find if_not_P [OF False] f1 prod.case Let_def finish_def name
      using loud(1) by simp
    have fin: "\<exists>s'. finish r = Some (Inr (Returned r, s')) \<and> agree (expected_state m args s) s'" for r
      using e more by (cases "handler s m args") (auto simp: finish_def)
    consider "perform_call f untyped args ?text = Inl Aborted" "\<not> on_calls_ok f"
      | msg where "perform_call f untyped args ?text = Inr (Threw msg)" "untyped = None"
      | r where "perform_call f untyped args ?text = Inr (Returned r)" "\<forall>y. untyped = Some y \<longrightarrow> r = y args"
    proof -
      assume cases: "perform_call f untyped args ?text = Inl Aborted \<Longrightarrow> \<not> on_calls_ok f \<Longrightarrow> thesis"
        "\<And>msg. perform_call f untyped args ?text = Inr (Threw msg) \<Longrightarrow> untyped = None \<Longrightarrow> thesis"
        "\<And>r. perform_call f untyped args ?text = Inr (Returned r) \<Longrightarrow> \<forall>y. untyped = Some y \<longrightarrow> r = y args \<Longrightarrow> thesis"
      consider "perform_call f untyped args ?text = Inl Aborted" "\<not> on_calls_ok f"
        | o' where "perform_call f untyped args ?text = Inr o'" "\<forall>y. untyped = Some y \<longrightarrow> o' = Returned (y args)"
        using perform_call_result [of f untyped args ?text] by blast
      then show thesis
      proof cases
        case 2
        then show thesis using cases(2,3) by (cases o'; cases untyped) auto
      qed (use cases(1) in blast)
    qed
    then show ?thesis
    proof cases
      case 1
      then show ?thesis unfolding u by (simp del: lit_Cons)
    next
      case 2
      then have "UntypedInvokeWith m args s = Some (Inr (Threw msg, s1))" unfolding u by (simp del: lit_Cons)
      moreover have "handler s m args = Some a \<Longrightarrow> \<not> performs (the (exps s a)) x" for a x using act 2(2) by auto
      ultimately show ?thesis using ag by blast
    next
      case 3
      obtain s' where s': "finish r = Some (Inr (Returned r, s'))" "agree (expected_state m args s) s'" using fin by blast
      then have "UntypedInvokeWith m args s = Some (Inr (Returned r, s'))" unfolding u using 3(1) by (simp del: lit_Cons)
      then show ?thesis using s'(2) act 3(2) by blast
    qed
  qed
qed

lemma UntypedInvokeWith_inv:
  assumes inv: "mock_inv s" and r: "UntypedInvokeWith m args s = Some (Inr (r, s'))"
  shows "mock_inv s' \<and> agree (expected_state m args s) s'"
proof -
  obtain f where f: "mockers s m = Some f" using r by (auto simp: UntypedInvokeWith_def get_mocker_def split: option.splits)
  have owned: "mock_obj f \<noteq> None \<or> untyped_expectations f \<noteq> []"
    using r by (auto simp: UntypedInvokeWith_def get_mocker_def f MockObject_def)
  have bound: "call_count (the (exps s a)) < INT_MAX" if h: "handler s m args = Some a" for a
  proof (rule ccontr)
    assume n: "\<not> call_count (the (exps s a)) < INT_MAX"
    obtain e where e: "exps s a = Some e" using handlerD(1) [OF h] unfolding would_handle_def by blast
    then have "call_count e = INT_MAX" using n mock_invD(4) [OF inv e] by (simp add: exp_ok_def)
    from UntypedFind_overflow [OF inv f h e this] have "UntypedInvokeWith m args s = Some (Inl Undefined_arith)"
      using h by (auto simp: UntypedInvokeWith_def get_mocker_def f handler_def)
    then show False using r by simp
  qed
  have "agree (expected_state m args s) s'"
    using UntypedInvokeWith_ok [of s m f args, OF inv f owned bound] r by auto
  moreover have "mock_inv (expected_state m args s)"
  proof (cases "handler s m args")
    case (Some a)
    obtain e where "exps s a = Some e" using handlerD(1) [OF Some] unfolding would_handle_def by blast
    then show ?thesis using after_call_inv [OF inv handlerD(1) [OF Some]] bound [OF Some] Some by (simp add: expected_state_def)
  qed (simp add: expected_state_def inv)
  ultimately show ?thesis using agree_inv by blast
qed


subsection \<open>Verification\<close>

definition verify_report :: "('a, 'x, 'z) Gmock_scheme \<Rightarrow> nat \<Rightarrow> Event list" where
  "verify_report s a =
     (case exps s a of
        None \<Rightarrow> []
      | Some e \<Rightarrow>
          if IsOverSaturated e \<or> IsSatisfied e then []
          else [Failure (exp_file e) (exp_line e)
                  (lit ''Actual function call count doesn'' @ [39] @ lit ''t match '' @ source_text e @ lit ''...'' @ newline @
                   MaybeDescribeExtraMatcherTo e @ DescribeCallCountTo e)])"

lemma verify_loop_ok:
  assumes "set as \<subseteq> dom (exps s)"
  shows "verify_loop as met s =
    Inr (met \<and> (\<forall>a \<in> set as. sat s a), s\<lparr>events := events s @ concat (map (verify_report s) as)\<rparr>)"
  using assms
proof (induction as arbitrary: met s)
  case (Cons a as)
  obtain e where e: "exps s a = Some e" using Cons.prems by auto
  have over: "IsOverSaturated e \<Longrightarrow> \<not> IsSatisfied e"
    by (simp add: IsOverSaturated_def IsSatisfied_def IsOverSaturatedByCallCount_def)
  have sat: "sat s a = IsSatisfied e" by (simp add: sat_def e)
  show ?case
  proof (cases "\<not> IsOverSaturated e \<and> \<not> IsSatisfied e")
    case False
    then have "verify_report s a = []" by (auto simp: verify_report_def e)
    then show ?thesis using Cons.IH [of s] Cons.prems False over e sat by auto
  next
    case True
    let ?ev = "hd (verify_report s a)"
    have one: "verify_report s a = [?ev]" using True by (simp add: verify_report_def e)
    have same: "verify_report (emit ?ev s) = verify_report s" "sat (emit ?ev s) = sat s" "dom (exps (emit ?ev s)) = dom (exps s)"
      by (auto simp: verify_report_def sat_def emit_def fun_eq_iff)
    have "verify_loop (a # as) met s = verify_loop as False (emit ?ev s)"
      using True by (simp add: e Expect_def verify_report_def)
    also have "\<dots> = Inr (False, (emit ?ev s)\<lparr>events := events (emit ?ev s) @ concat (map (verify_report s) as)\<rparr>)"
      using Cons.IH [of "emit ?ev s"] Cons.prems same by simp
    also have "\<dots> = Inr (met \<and> (\<forall>b \<in> set (a # as). sat s b), s\<lparr>events := events s @ concat (map (verify_report s) (a # as))\<rparr>)"
      using True sat one by (simp add: emit_def)
    finally show ?thesis .
  qed
qed simp

text \<open>The failure that verification reports for an expectation called too seldom.\<close>

definition unmet_failure :: "('a, 'x) Expectation \<Rightarrow> Event" where
  "unmet_failure e = Failure (exp_file e) (exp_line e)
     (lit ''Actual function call count doesn'' @ [39] @ lit ''t match '' @ source_text e @ lit ''...'' @ newline @
      MaybeDescribeExtraMatcherTo e @ DescribeCallCountTo e)"

definition called_too_seldom :: "('a, 'x, 'z) Gmock_scheme \<Rightarrow> nat \<Rightarrow> bool" where
  "called_too_seldom s a \<longleftrightarrow> (\<exists>e. exps s a = Some e \<and> \<not> IsSatisfied e \<and> \<not> IsOverSaturated e)"

lemma verify_reports:
  "concat (map (verify_report s) as) = map (\<lambda>a. unmet_failure (the (exps s a))) (filter (called_too_seldom s) as)"
  by (induction as) (auto simp: verify_report_def called_too_seldom_def unmet_failure_def simp del: lit_Cons split: option.split)

text \<open>The destruction of an expectation prints at most a warning about its actions.\<close>

lemma CheckActionCount_prints:
  assumes "CheckActionCountIfNotDone a s = Inr s'"
  shows "\<exists>ws. events s' = events s @ map Printed ws \<and> length ws \<le> 1"
proof -
  have log: "\<exists>ws. events (log_to sev msg fr t) = events t @ map Printed ws \<and> length ws \<le> 1"
    for sev msg fr and t :: "('a, 'b, 'c) Gmock_scheme"
    by (auto simp: log_to_def emit_def intro: exI [of _ "[]"] exI [of _ "[x]" for x])
  have put: "events (put_exp a e t) = events t" for e and t :: "('a, 'b, 'c) Gmock_scheme"
    by (simp add: put_exp_def)
  have none: "\<exists>ws. events s = events s @ map Printed ws \<and> length ws \<le> 1" by (rule exI [of _ "[]"]) simp
  show ?thesis
    using assms none log unfolding CheckActionCountIfNotDone_def rbind_eq_Inr Let_def
    by (auto simp: put simp del: lit_Cons split: if_splits) (metis put)+
qed

lemma destroy_loop_ok:
  "set as \<subseteq> dom (exps s) \<Longrightarrow> \<exists>s' ws. destroy_loop gone as s = Inr s' \<and> agree s s' \<and>
    events s' = events s @ map Printed ws \<and> length ws \<le> length (filter (\<lambda>a. a \<in> gone) as)"
proof (induction as arbitrary: s)
  case (Cons a as)
  obtain e where e: "exps s a = Some e" using Cons.prems by auto
  have "\<exists>s1 ws. (if a \<in> gone then CheckActionCountIfNotDone a s else Inr s) = Inr s1 \<and> agree s s1 \<and>
      events s1 = events s @ map Printed ws \<and> length ws \<le> length (filter (\<lambda>a. a \<in> gone) [a])"
    using CheckActionCountIfNotDone_ok [OF e] CheckActionCount_prints [of a s] by (cases "a \<in> gone") auto
  then obtain s1 ws where s1: "(if a \<in> gone then CheckActionCountIfNotDone a s else Inr s) = Inr s1" "agree s s1"
    "events s1 = events s @ map Printed ws" "length ws \<le> length (filter (\<lambda>a. a \<in> gone) [a])" by blast
  have "set as \<subseteq> dom (exps s1)" using Cons.prems agreeD(3) [OF s1(2)] by simp
  then obtain s' vs where s': "destroy_loop gone as s1 = Inr s'" "agree s1 s'"
    "events s' = events s1 @ map Printed vs" "length vs \<le> length (filter (\<lambda>a. a \<in> gone) as)"
    using Cons.IH by blast
  have "destroy_loop gone (a # as) s = Inr s'" using s1(1) s'(1) by simp
  moreover have "events s' = events s @ map Printed (ws @ vs)" using s1(3) s'(3) by simp
  moreover have "length (ws @ vs) \<le> length (filter (\<lambda>a. a \<in> gone) (a # as))" using s1(4) s'(4) by (simp split: if_splits)
  ultimately show ?case using agree_trans [OF s1(2) s'(2)] by blast
qed simp

lemma Mocker_Verify_ok:
  assumes inv: "mock_inv s" and f: "mockers s m = Some f"
  shows "\<exists>s'. Mocker_VerifyAndClearExpectationsLocked gone m s = Inr (\<forall>a \<in> set (untyped_expectations f). sat s a, s') \<and>
    mock_inv s' \<and> sequences s' = sequences s \<and> mockers s' = (mockers s)(m \<mapsto> f\<lparr>untyped_expectations := []\<rparr>) \<and>
    registry s' = registry s \<and> (\<exists>ws. length ws \<le> length (filter (\<lambda>a. a \<in> gone) (untyped_expectations f)) \<and>
      events s' = events s @ concat (map (verify_report s) (untyped_expectations f)) @ map Printed ws)"
proof -
  let ?as = "untyped_expectations f"
  have as: "set ?as \<subseteq> dom (exps s)" by (rule mock_invD(6) [OF inv f])
  let ?s1 = "s\<lparr>events := events s @ concat (map (verify_report s) ?as)\<rparr>"
  let ?s2 = "put_mocker m (f\<lparr>untyped_expectations := []\<rparr>) ?s1"
  have "mock_inv ?s1" by (rule mock_inv_cong [OF inv]) simp_all
  then have i2: "mock_inv ?s2" by (rule put_mocker_inv) simp_all
  have "set ?as \<subseteq> dom (exps ?s2)" using as by (simp add: put_mocker_def)
  then obtain s' ws where s': "destroy_loop gone ?as ?s2 = Inr s'" "agree ?s2 s'"
    and ws: "events s' = events ?s2 @ map Printed ws" "length ws \<le> length (filter (\<lambda>a. a \<in> gone) ?as)"
    using destroy_loop_ok by blast
  have "events s' = events s @ concat (map (verify_report s) ?as) @ map Printed ws"
    using ws(1) by (simp add: put_mocker_def)
  then show ?thesis
    using s' ws(2) verify_loop_ok [OF as, of True] agree_inv [OF s'(2) i2] agreeD(1) [OF s'(2)] agree_mockers [OF s'(2)]
    by (auto simp: Mocker_VerifyAndClearExpectationsLocked_def get_mocker_def f put_mocker_def)
qed

lemma Mocker_Verify_inv:
  assumes "mock_inv s" and "Mocker_VerifyAndClearExpectationsLocked gone m s = Inr (b, s')"
  shows "mock_inv s'"
proof -
  obtain f where f: "mockers s m = Some f"
    using assms(2) by (auto simp: Mocker_VerifyAndClearExpectationsLocked_def get_mocker_def split: option.splits)
  from Mocker_Verify_ok [OF assms(1) this, of gone] show ?thesis using assms(2) by auto
qed

lemma verify_mockers_inv: "mock_inv s \<Longrightarrow> verify_mockers gone ms met s = Inr (b, s') \<Longrightarrow> mock_inv s'"
proof (induction ms arbitrary: met s)
  case (Cons m ms)
  then obtain b1 s1 where "Mocker_VerifyAndClearExpectationsLocked gone m s = Inr (b1, s1)"
    "verify_mockers gone ms (if \<not> b1 then False else met) s1 = Inr (b, s')"
    by (auto simp: rbind_eq_Inr)
  then show ?case using Cons.IH Mocker_Verify_inv [OF Cons.prems(1)] by blast
qed simp

lemma Mocker_Clear_inv:
  assumes "mock_inv s" and "Mocker_ClearDefaultActionsLocked m s = Inr s'"
  shows "mock_inv s'"
proof -
  obtain f where f: "mockers s m = Some f" "s' = put_mocker m (f\<lparr>on_call_specs := []\<rparr>) s"
    using assms(2) by (auto simp: Mocker_ClearDefaultActionsLocked_def get_mocker_def split: option.splits)
  then show ?thesis using put_mocker_inv [OF assms(1)] mock_invD(6,7) [OF assms(1) f(1)] by simp
qed

lemma clear_mockers_inv: "mock_inv s \<Longrightarrow> clear_mockers ms s = Inr s' \<Longrightarrow> mock_inv s'"
proof (induction ms arbitrary: s)
  case (Cons m ms)
  then obtain s1 where "Mocker_ClearDefaultActionsLocked m s = Inr s1" "clear_mockers ms s1 = Inr s'"
    by (auto simp: rbind_eq_Inr)
  then show ?case using Cons.IH Mocker_Clear_inv [OF Cons.prems(1)] by blast
qed simp

lemma drop_sequence_inv: "mock_inv s \<Longrightarrow> mock_inv (s\<lparr>sequences := (sequences s)(q := x), implicit_sequence := i\<rparr>)"
  if "x = None \<or> x = Some None"
proof -
  assume inv: "mock_inv s"
  let ?s = "s\<lparr>sequences := (sequences s)(q := x), implicit_sequence := i\<rparr>"
  have g: "exps ?s = exps s" by simp
  show "mock_inv ?s" using inv graph_cong [OF g] that unfolding mock_inv_def by auto
qed

lemma mock_step_inv:
  assumes "mock_step s s'" and inv: "mock_inv s"
  shows "mock_inv s'"
  using assms(1)
proof cases
  case (new_mocker m pa pr v d)
  then show ?thesis using put_mocker_inv [OF inv] by (simp add: FunctionMocker_new_def)
next
  case (owner obj m)
  then obtain f where f: "mockers s m = Some f" "s' = Register obj m (put_mocker m (f\<lparr>mock_obj := Some obj\<rparr>) s)"
    by (auto simp: RegisterOwner_def get_mocker_def split: option.splits)
  have "mock_inv (put_mocker m (f\<lparr>mock_obj := Some obj\<rparr>) s)"
    using put_mocker_inv [OF inv] mock_invD(6,7) [OF inv f(1)] by simp
  then show ?thesis unfolding f(2) by (rule mock_inv_cong) (simp_all add: Register_def)
next
  case (owner_and_name obj nm m)
  then obtain f where f: "mockers s m = Some f" "s' = put_mocker m (f\<lparr>mock_obj := Some obj, mocker_name := Some nm\<rparr>) s"
    by (auto simp: SetOwnerAndName_def get_mocker_def split: option.splits)
  then show ?thesis using put_mocker_inv [OF inv] mock_invD(6,7) [OF inv f(1)] by simp
next
  case (new_sequence q)
  then show ?thesis using drop_sequence_inv [where x = "Some None" and s = s and q = q and i = "implicit_sequence s"] inv by (simp add: Sequence_new_def)
next
  case (enter q b)
  then show ?thesis using drop_sequence_inv [where x = "Some None" and s = s and q = q and i = "Some q"] inv
    by (auto simp: InSequence_new_def Sequence_new_def split: if_splits)
next
  case (leave b)
  have "mock_inv (s\<lparr>implicit_sequence := None\<rparr>)" by (rule mock_inv_cong [OF inv]) simp_all
  then show ?thesis using leave drop_sequence_inv [where x = None and s = s] inv
    by (auto simp: InSequence_destroy_def split: if_splits option.splits)
next
  case (expect a fl ln ob ct ms ex m s1 cs)
  then show ?thesis using expect_inv [OF inv] by blast
next
  case (on_call f ln ms m)
  then obtain g obj spec where g: "mockers s m = Some g"
    "s' = put_mocker m (g\<lparr>on_call_specs := on_call_specs g @ [spec]\<rparr>) (RegisterUseByOnCallOrExpectCall obj f ln s)"
    by (auto simp: AddNewOnCallSpec_def get_mocker_def rbind_eq_Inr Let_def split: option.splits)
  have "mock_inv (RegisterUseByOnCallOrExpectCall obj f ln s)" by (rule mock_inv_cong [OF inv]) simp_all
  then show ?thesis using put_mocker_inv mock_invD(6,7) [OF inv g(1)] unfolding g(2) by fastforce
next
  case (on_call_clauses m f specs)
  then show ?thesis using put_mocker_inv [OF inv] mock_invD(6,7) [OF inv] by simp
next
  case (reaction obj r)
  show ?thesis unfolding reaction by (rule mock_inv_cong [OF inv]) (simp_all add: SetReactionOnUninterestingCalls_def)
next
  case (allow_leak obj)
  show ?thesis unfolding allow_leak by (rule mock_inv_cong [OF inv]) (simp_all add: AllowLeak_def)
next
  case (call m args r)
  then show ?thesis using UntypedInvokeWith_inv [OF inv] by blast
next
  case (verify gone obj b)
  then show ?thesis using verify_mockers_inv [OF inv] inv
    by (auto simp: VerifyAndClearExpectations_def VerifyAndClearExpectationsLocked_def split: if_splits)
next
  case (verify_and_clear gone obj b)
  then obtain s1 where s1: "ClearDefaultActionsLocked obj s = Inr s1" "VerifyAndClearExpectationsLocked gone obj s1 = Inr (b, s')"
    by (auto simp: VerifyAndClear_def rbind_eq_Inr)
  then have "mock_inv s1" using clear_mockers_inv [OF inv] inv by (auto simp: ClearDefaultActionsLocked_def split: if_splits)
  then show ?thesis using verify_mockers_inv s1(2) by (auto simp: VerifyAndClearExpectationsLocked_def split: if_splits)
next
  case (destroy gone m)
  then obtain b s1 s2 where s: "Mocker_VerifyAndClearExpectationsLocked gone m s = Inr (b, s1)"
    "Mocker_ClearDefaultActionsLocked m (UnregisterLocked m s1) = Inr s2" "s' = s2\<lparr>mockers := (mockers s2)(m := None)\<rparr>"
    by (auto simp: FunctionMocker_destroy_def rbind_eq_Inr)
  have "mock_inv (UnregisterLocked m s1)"
    by (rule mock_inv_cong [OF Mocker_Verify_inv [OF inv s(1)]]) (simp_all add: UnregisterLocked_def)
  then have i2: "mock_inv s2" using Mocker_Clear_inv s(2) by blast
  have g: "exps s' = exps s2" by (simp add: s(3))
  show ?thesis using i2 graph_cong [OF g] unfolding mock_inv_def s(3) by auto
qed

lemma mock_reach_inv: "mock_reach s \<Longrightarrow> mock_inv s"
proof (induction rule: mock_reach.induct)
  case (start s)
  then show ?case
    by (auto simp: mock_inv_def graph_ok_def ranked_def retired_closed_def order_ok_def)
qed (rule mock_step_inv)

section \<open>What mock functions promise\<close>

text \<open>
  C5: In every state a program reaches, a call of a mock function whose owner and name are set, as \<open>SetOwnerAndName\<close>
  does before each call, and whose \<open>ON_CALL\<close>s have their actions returns, as long as no call count is at the largest
  \<open>int\<close>: it recurses through no cycle of pre-requisites, meets no dangling expectation and fails no assertion. It goes to the
  expectation declared last that is active, matches and has its pre-requisites satisfied, counts there and nowhere else,
  performs the action due for that count, and retires the pre-requisites of the expectation, and the expectation
  itself if it is to retire when saturated.
\<close>

theorem mock_call_dispatch:
  assumes "mock_reach s" and "mockers s m = Some f" and "mock_obj f \<noteq> None" and "mocker_name f \<noteq> None"
    and "on_calls_ok f" and "\<forall>e \<in> ran (exps s). call_count e < INT_MAX"
  shows "\<exists>r s'. UntypedInvokeWith m args s = Some (Inr (r, s')) \<and>
    (\<forall>b. map_option call_count (exps s' b) =
      map_option (\<lambda>e. if handler s m args = Some b then call_count e + 1 else call_count e) (exps s b)) \<and>
    (\<forall>a e. handler s m args = Some a \<longrightarrow> exps s a = Some e \<longrightarrow>
      (\<forall>x. performs e x \<longrightarrow> r = Returned (x args)) \<and>
      (\<forall>b. is_retired s' b \<longleftrightarrow> is_retired s b \<or> \<not> IsSaturated e \<and>
        (requires s a b \<or> b = a \<and> retires_on_saturation e \<and> IsSaturated (called e))))"
proof -
  have inv: "mock_inv s" by (rule mock_reach_inv [OF assms(1)])
  have bound: "call_count (the (exps s a)) < INT_MAX" if h: "handler s m args = Some a" for a
  proof -
    obtain e where "exps s a = Some e" using handlerD(1) [OF h] unfolding would_handle_def by blast
    then show ?thesis using assms(6) by (auto simp: ran_def)
  qed
  obtain r s' where r: "UntypedInvokeWith m args s = Some (Inr (r, s'))" and ag: "agree (expected_state m args s) s'"
    and act: "\<And>a x. handler s m args = Some a \<Longrightarrow> performs (the (exps s a)) x \<Longrightarrow> r = Returned (x args)"
    using UntypedInvokeWith_ok [of s m f args, OF inv assms(2) _ bound] assms(3-5) by blast
  have same: "map_option call_count (exps s' b) = map_option call_count (exps (expected_state m args s) b)" for b
    using agreeD(4) [OF ag, of b] agreeD(5) [OF ag, of b]
    by (cases "exps (expected_state m args s) b"; cases "exps s' b") auto
  have "map_option call_count (exps s' b) =
      map_option (\<lambda>e. if handler s m args = Some b then call_count e + 1 else call_count e) (exps s b)" for b
  proof (cases "handler s m args")
    case None
    then show ?thesis using same by (simp add: expected_state_def)
  next
    case (Some a)
    obtain e where e: "exps s a = Some e" using handlerD(1) [OF Some] unfolding would_handle_def by blast
    show ?thesis
      unfolding same expected_state_def Some option.case e option.sel exps_after_call [OF mock_invD(1) [OF inv] e]
      using e by (cases "exps s b") auto
  qed
  moreover have "is_retired s' b \<longleftrightarrow> is_retired s b \<or> \<not> IsSaturated e \<and>
      (requires s a b \<or> b = a \<and> retires_on_saturation e \<and> IsSaturated (called e))"
    if h: "handler s m args = Some a" and e: "exps s a = Some e" for a e b
  proof -
    have nr: "\<not> requires s a a" using mock_invD(1) [OF inv] requires_rank unfolding graph_ok_def by blast
    have dom: "requires s a b \<Longrightarrow> b \<in> dom (exps s)"
      using mock_invD(1) [OF inv] requires_rank unfolding graph_ok_def by blast
    have "retired (handled_by e) \<longleftrightarrow> retired e \<or> retires_on_saturation e \<and> IsSaturated (called e)"
      by (auto simp: handled_by_def)
    then have "is_retired (after_call a e s) b \<longleftrightarrow> is_retired s b \<or> \<not> IsSaturated e \<and>
        (requires s a b \<or> b = a \<and> retires_on_saturation e \<and> IsSaturated (called e))"
      using e nr dom by (auto simp: is_retired_def exps_after_call [OF mock_invD(1) [OF inv] e])
    then show ?thesis using agree_graph(2) [OF ag] h e by (simp add: expected_state_def)
  qed
  ultimately show ?thesis using r act by fastforce
qed

text \<open>
  C13: Sequences and \<open>After\<close> are kept: in every state a program reaches, an expectation that may be called at all (the
  upper bound of its cardinality is positive, which \<open>Times(0)\<close> excludes) and has handled a call has all its pre-requisites satisfied and retired, so that no further call goes to any of them.
\<close>

theorem prerequisites_in_order:
  assumes "mock_reach s" and "exps s a = Some e" and "0 < call_count e"
    and "0 < ConservativeUpperBound (cardinality e)" and "requires s a p"
  shows "is_retired s p \<and> sat s p \<and> handler s m args \<noteq> Some p"
proof -
  have "is_retired s p \<and> sat s p"
    using mock_invD(3) [OF mock_reach_inv [OF assms(1)]] assms(2-5) unfolding order_ok_def handled_def upper_of_def by blast
  moreover have "handler s m args \<noteq> Some p" if "is_retired s p"
    using that handlerD(1) [of s m args p] by (auto simp: would_handle_def is_retired_def)
  ultimately show ?thesis by blast
qed

text \<open>
  C28: Verification of a mock function in a state a program reaches answers that the expectations are met exactly if every
  one of them was called as often as it allows. The failures it reports are one for each expectation, of which no two are
  the same, that was called too seldom, in their order; those called too often make the answer false but were reported
  by the calls. It clears the expectations, and those that are destroyed with it print at most a warning each.
\<close>

theorem mock_verification:
  assumes "mock_reach s" and "mockers s m = Some f"
  shows "\<exists>s' ws. Mocker_VerifyAndClearExpectationsLocked gone m s = Inr (\<forall>a \<in> set (untyped_expectations f). sat s a, s') \<and>
    mockers s' = (mockers s)(m \<mapsto> f\<lparr>untyped_expectations := []\<rparr>) \<and> distinct (untyped_expectations f) \<and>
    events s' = events s @
      map (\<lambda>a. unmet_failure (the (exps s a))) (filter (called_too_seldom s) (untyped_expectations f)) @ map Printed ws \<and>
    length ws \<le> length (filter (\<lambda>a. a \<in> gone) (untyped_expectations f))"
  using Mocker_Verify_ok [OF mock_reach_inv [OF assms(1)] assms(2), of gone]
    mock_invD(7) [OF mock_reach_inv [OF assms(1)] assms(2)] unfolding verify_reports by blast

section \<open>Examples\<close>

text \<open>A small program over mock functions without arguments and results, run by the operations.\<close>

datatype command = Declare nat nat | New_sequence nat | Expected nat nat "nat list" | Named nat nat | Call nat

primrec exec :: "command \<Rightarrow> (unit, unit) Mocks \<Rightarrow> (unit, unit) Mocks res option" where
  "exec (Declare m obj) s =
     (if mockers s m = None
      then Some (RegisterOwner obj m (put_mocker m (FunctionMocker_new (\<lambda>_. []) (\<lambda>_. []) True (Some ())) s)) else None)"
| "exec (New_sequence q) s = (if sequences s q = None then Some (Inr (Sequence_new q s)) else None)"
| "exec (Expected a m qs) s =
     (if exps s a = None
      then Some (rbind (InternalExpectedAt a [] 0 [] [] (\<lambda>_. True) (\<lambda>_. []) m s) (apply_clauses (map in_sequence qs) a))
      else None)"
| "exec (Named m obj) s = Some (SetOwnerAndName obj (lit ''f'') m s)"
| "exec (Call m) s = obind (UntypedInvokeWith m () s) (\<lambda>(r, s'). Some (Inr s'))"

primrec exec_all :: "command list \<Rightarrow> (unit, unit) Mocks \<Rightarrow> (unit, unit) Mocks res option" where
  "exec_all [] s = Some (Inr s)"
| "exec_all (c # cs) s = obind (exec c s) (exec_all cs)"

definition no_mocks :: "(unit, unit) Mocks" where
  "no_mocks = \<lparr>exps = \<lambda>_. None, sequences = \<lambda>_. None, implicit_sequence = None, events = [], verbose = kWarningVerbosity,
     mockers = \<lambda>_. None, registry = [], reactions = \<lambda>_. None, current_test = None\<rparr>"

lemma obind_Inr: "obind m f = Some (Inr y) \<longleftrightarrow> (\<exists>x. m = Some (Inr x) \<and> f x = Some (Inr y))"
  by (cases m) (auto simp: obind_def split: sum.splits)

lemma exec_reach:
  assumes "mock_reach s" and "exec c s = Some (Inr s')"
  shows "mock_reach s'"
proof (cases c)
  case (Declare m obj)
  then have new: "mockers s m = None"
    and own: "RegisterOwner obj m (put_mocker m (FunctionMocker_new (\<lambda>_. []) (\<lambda>_. []) True (Some ())) s) = Inr s'"
    using assms(2) by (auto split: if_splits)
  show ?thesis
    by (rule mock_reach.step [OF mock_reach.step [OF assms(1) mock_step.new_mocker [OF new]] mock_step.owner [OF own]])
next
  case (New_sequence q)
  then have "mock_step s s'" using assms(2) mock_step.new_sequence by (auto split: if_splits)
  then show ?thesis by (rule mock_reach.step [OF assms(1)])
next
  case (Expected a m qs)
  then obtain s1 where "exps s a = None" "InternalExpectedAt a [] 0 [] [] (\<lambda>_. True) (\<lambda>_. []) m s = Inr s1"
    "apply_clauses (map in_sequence qs) a s1 = Inr s'"
    using assms(2) by (auto simp: rbind_eq_Inr split: if_splits)
  then have "mock_step s s'" by (intro mock_step.expect [where cs = "map in_sequence qs"]) auto
  then show ?thesis by (rule mock_reach.step [OF assms(1)])
next
  case (Named m obj)
  then have "mock_step s s'" using assms(2) mock_step.owner_and_name by auto
  then show ?thesis by (rule mock_reach.step [OF assms(1)])
next
  case (Call m)
  then obtain r where "UntypedInvokeWith m () s = Some (Inr (r, s'))" using assms(2) by (auto simp: obind_Inr)
  from mock_reach.step [OF assms(1) mock_step.call [OF this]] show ?thesis .
qed

lemma exec_all_reach: "mock_reach s \<Longrightarrow> exec_all cs s = Some (Inr s') \<Longrightarrow> mock_reach s'"
  by (induction cs arbitrary: s) (auto simp: obind_Inr intro: exec_reach)

lemma no_mocks_reach: "mock_reach no_mocks"
  by (rule mock_reach.start) (simp_all add: no_mocks_def)

text \<open>Two expectations in a sequence, and a call of the first function, then one of the second.\<close>

definition in_order :: "command list" where
  "in_order = [Declare 1 7, Declare 2 7, New_sequence 5, Expected 10 1 [5], Expected 11 2 [5],
     Named 1 7, Call 1, Named 2 7, Call 2]"

lemma not_info: "LogIsVisible kWarningVerbosity kInfo = False"
  by (simp add: LogIsVisible_def kWarningVerbosity_def kInfoVerbosity_def)

lemmas run_simps =
  no_mocks_def obind_def rbind_def get_mocker_def put_mocker_def get_exp_def put_exp_def RegisterOwner_def Register_def SetOwnerAndName_def
  put_state_def state_at_def FunctionMocker_new_def MockObjectState_new_def ExpectationSet_add_def Sequence_new_def
  InternalExpectedAt_def log_to_def AddNewExpectation_def MockObject_def RegisterUseByOnCallOrExpectCall_def Let_def
  InSequence_def ExpectSpecProperty_def Expect_def GetHandleOf_def AddExpectation_def Expectation_new_def not_info
  less_eq_Clause_def

lemma loop_simps:
  "satisfied_loop [] s = Some (Inr True)"
  "satisfied_loop (p # ps) s = obind (Some (get_exp p s)) (\<lambda>e.
     if \<not> IsSatisfied e then Some (Inr False)
     else obind (satisfied_loop (immediate_prerequisites e) s) (\<lambda>b. if \<not> b then Some (Inr False) else satisfied_loop ps s))"
  "retire_loop [] s = Some (Inr s)"
  "retire_loop (p # ps) s = obind (Some (get_exp p s)) (\<lambda>e.
     if retired e then retire_loop ps s
     else obind (retire_loop (immediate_prerequisites e) s) (\<lambda>s1.
          obind (Some (get_exp p s1)) (\<lambda>e1. retire_loop ps (put_exp p (Retire e1) s1))))"
  by (simp_all add: satisfied_loop.simps retire_loop.simps)

lemmas call_simps = run_simps loop_simps UntypedInvokeWith_def UntypedFindMatchingExpectation_def FindMatchingExpectationLocked_def
  ShouldHandleArguments_def CheckActionCountIfNotDone_def AllPrerequisitesAreSatisfied_def GetActionForArguments_def
  IncrementCallCount_def RetireAllPreRequisites_def GetCurrentAction_def IsSaturated_def IsSatisfied_def Exactly_def Between_def
  BetweenCardinalityImpl_def Matches_def Retire_def perform_call_def PerformDefaultAction_def FindOnCallSpec_def INT_MAX_def

lemma in_order_runs:
  "\<exists>s f e. exec_all in_order no_mocks = Some (Inr s) \<and> mockers s 2 = Some f \<and> untyped_expectations f = [11] \<and>
    exps s 11 = Some e \<and> call_count e = 1 \<and> ConservativeUpperBound (cardinality e) = 1 \<and> IsSatisfied e \<and>
    immediate_prerequisites e = [10]"
  by (simp add: in_order_def call_simps del: lit_Cons not_None_eq)

lemma declared_runs:
  "\<exists>s f. exec_all (take 6 in_order) no_mocks = Some (Inr s) \<and> mockers s 1 = Some f \<and> mock_obj f \<noteq> None \<and>
    mocker_name f \<noteq> None \<and> on_calls_ok f \<and> (\<forall>a e. exps s a = Some e \<longrightarrow> call_count e < INT_MAX)"
  by (auto simp: in_order_def call_simps on_calls_ok_def simp del: lit_Cons not_None_eq)

theorem mock_call_dispatch_witness:
  "\<exists>(s :: (unit, unit) Mocks) r s'. mock_reach s \<and> UntypedInvokeWith 1 () s = Some (Inr (r, s'))"
proof -
  obtain s f where s: "exec_all (take 6 in_order) no_mocks = Some (Inr s)" "mockers s 1 = Some f" "mock_obj f \<noteq> None"
    "mocker_name f \<noteq> None" "on_calls_ok f" "\<forall>a e. exps s a = Some e \<longrightarrow> call_count e < INT_MAX"
    using declared_runs by blast
  have r: "mock_reach s" by (rule exec_all_reach [OF no_mocks_reach s(1)])
  have "\<forall>e \<in> ran (exps s). call_count e < INT_MAX" using s(6) by (auto simp: ran_def)
  from mock_call_dispatch [OF r s(2-5) this, of "()"] show ?thesis using r by blast
qed

theorem prerequisites_in_order_witness:
  "\<exists>s :: (unit, unit) Mocks. mock_reach s \<and> is_retired s 10 \<and> sat s 10 \<and> handler s 1 () \<noteq> Some 10"
proof -
  obtain s f e where s: "exec_all in_order no_mocks = Some (Inr s)" "exps s 11 = Some e" "call_count e = 1"
    "ConservativeUpperBound (cardinality e) = 1" "immediate_prerequisites e = [10]"
    using in_order_runs by blast
  have r: "mock_reach s" by (rule exec_all_reach [OF no_mocks_reach s(1)])
  have "requires s 11 10" by (rule requires.direct [OF s(2)]) (simp add: s(5))
  from prerequisites_in_order [OF r s(2) _ _ this, of 1 "()"] s(3,4) show ?thesis using r by auto
qed

theorem mock_verification_witness:
  "\<exists>(s :: (unit, unit) Mocks) s'. mock_reach s \<and> Mocker_VerifyAndClearExpectationsLocked {} 2 s = Inr (True, s')"
proof -
  obtain s f e where s: "exec_all in_order no_mocks = Some (Inr s)" "mockers s 2 = Some f" "untyped_expectations f = [11]"
    "exps s 11 = Some e" "IsSatisfied e"
    using in_order_runs by blast
  have r: "mock_reach s" by (rule exec_all_reach [OF no_mocks_reach s(1)])
  have "\<forall>a \<in> set (untyped_expectations f). sat s a" using s(3-5) by (simp add: sat_def)
  then show ?thesis using mock_verification [OF r s(2), of "{}"] r by auto
qed

end
