(* ===== verification/Gtest_Flags.thy ===== *)
theory Gtest_Flags
  imports Gtest_String
begin

text \<open>
  The flags of the test library (src/libs/googletest/src/gtest.cc, src/libs/googletest/src/gtest-port.cc,
  src/libs/googletest/src/gtest-internal-inl.h): their defaults from the environment, the parsing of one
  flag, flag files and the command line, from which recognised flags are removed, and the
  coloured help text. What is printed is returned as text. The lemmas show that a flag argument
  is a table lookup whatever the order of the parser's alternatives, and what is left of the command line.
\<close>

section \<open>Definitions\<close>

subsection \<open>The C library's conversion of numbers\<close>

definition LONG_MAX :: int where "LONG_MAX = 9223372036854775807"
definition LONG_MIN :: int where "LONG_MIN = - 9223372036854775808"

definition is_space :: "byte \<Rightarrow> bool" where
  "is_space b \<longleftrightarrow> b = 32 \<or> (9 \<le> unat b \<and> unat b \<le> 13)"

definition is_digit :: "byte \<Rightarrow> bool" where
  "is_digit b \<longleftrightarrow> 48 \<le> unat b \<and> unat b \<le> 57"

definition digits_value :: "bytes \<Rightarrow> nat" where
  "digits_value ds = foldl (\<lambda>n d. 10 * n + (unat d - 48)) 0 ds"

text \<open>\<open>strtol(str, &end, 10)\<close>: the value and the text at \<open>end\<close>; without digits nothing is consumed.\<close>

definition strtol :: "bytes \<Rightarrow> int \<times> bytes" where
  "strtol str =
     (let s = dropWhile is_space str;
          neg = (s \<noteq> [] \<and> hd s = 45);
          t = (if s \<noteq> [] \<and> (hd s = 45 \<or> hd s = 43) then tl s else s);
          ds = takeWhile is_digit t;
          n = int (digits_value ds)
      in if ds = [] then (0, str)
         else (max LONG_MIN (min LONG_MAX (if neg then - n else n)), drop (length ds) t))"

subsection \<open>Integers\<close>

text \<open>The new value, if any, and the warning that is printed.\<close>

definition ParseInt32 :: "bytes \<Rightarrow> bytes \<Rightarrow> int option \<times> bytes" where
  "ParseInt32 src_text str =
     (let (long_value, rest_of_str) = strtol str
      in if rest_of_str \<noteq> [] then
           (None, lit ''WARNING: '' @ src_text @ lit '' is expected to be a 32-bit integer, but actually'' @
              lit '' has value '' @ [34] @ str @ [34] @ lit ''.'' @ newline)
         else
           let result = sint (word_of_int long_value :: 32 word)
           in if long_value = LONG_MAX \<or> long_value = LONG_MIN \<or> result \<noteq> long_value then
                (None, lit ''WARNING: '' @ src_text @ lit '' is expected to be a 32-bit integer, but actually'' @
                   lit '' has value '' @ str @ lit '', which overflows.'' @ newline)
              else (Some result, []))"

subsection \<open>Flags from the environment\<close>

definition ToUpper :: "byte \<Rightarrow> byte" where
  "ToUpper ch = (if 97 \<le> unat ch \<and> unat ch \<le> 122 then ch - 32 else ch)"

definition GTEST_FLAG_PREFIX :: bytes where "GTEST_FLAG_PREFIX = lit ''gtest_''"
definition GTEST_FLAG_PREFIX_DASH :: bytes where "GTEST_FLAG_PREFIX_DASH = lit ''gtest-''"
definition GTEST_FLAG_PREFIX_UPPER :: bytes where "GTEST_FLAG_PREFIX_UPPER = lit ''GTEST_''"

definition FlagToEnvVar :: "bytes \<Rightarrow> bytes" where
  "FlagToEnvVar flag = map ToUpper (GTEST_FLAG_PREFIX @ flag)"

type_synonym environment = "bytes \<Rightarrow> bytes option"

definition BoolFromGTestEnv :: "environment \<Rightarrow> bytes \<Rightarrow> bool \<Rightarrow> bool" where
  "BoolFromGTestEnv getenv flag default_value =
     (case getenv (FlagToEnvVar flag) of
        None \<Rightarrow> default_value
      | Some string_value \<Rightarrow> string_value \<noteq> lit ''0'')"

definition Int32FromGTestEnv :: "environment \<Rightarrow> bytes \<Rightarrow> int \<Rightarrow> int \<times> bytes" where
  "Int32FromGTestEnv getenv flag default_value =
     (case getenv (FlagToEnvVar flag) of
        None \<Rightarrow> (default_value, [])
      | Some string_value \<Rightarrow>
          (case ParseInt32 (lit ''Environment variable '' @ FlagToEnvVar flag) string_value of
             (None, warning) \<Rightarrow>
               (default_value, warning @ lit ''The default value '' @ decimal_int default_value @ lit '' is used.'' @ newline)
           | (Some result, warning) \<Rightarrow> (result, warning)))"

definition StringFromGTestEnv :: "environment \<Rightarrow> bytes \<Rightarrow> bytes \<Rightarrow> bytes" where
  "StringFromGTestEnv getenv flag default_value =
     (case getenv (FlagToEnvVar flag) of
        Some value \<Rightarrow> value
      | None \<Rightarrow>
          (case (if flag = lit ''output'' then getenv (lit ''XML_OUTPUT_FILE'') else None) of
             Some value \<Rightarrow> lit ''xml:'' @ value
           | None \<Rightarrow> default_value))"

subsection \<open>The flags\<close>

record Flags =
  also_run_disabled_tests :: bool
  break_on_failure :: bool
  catch_exceptions :: bool
  color_flag :: bytes
  death_test_style :: bytes
  death_test_use_fork :: bool
  filter_flag :: bytes
  internal_run_death_test :: bytes
  list_tests :: bool
  output_flag :: bytes
  print_time :: bool
  random_seed_flag :: int
  repeat_flag :: int
  shuffle_flag :: bool
  stack_trace_depth :: int
  stream_result_to :: bytes
  throw_on_failure :: bool
  flagfile :: bytes

definition kUniversalFilter :: bytes where "kUniversalFilter = lit ''*''"
definition kMaxStackTraceDepth :: int where "kMaxStackTraceDepth = 100"

definition kAlsoRunDisabledTestsFlag :: bytes where "kAlsoRunDisabledTestsFlag = lit ''also_run_disabled_tests''"
definition kBreakOnFailureFlag :: bytes where "kBreakOnFailureFlag = lit ''break_on_failure''"
definition kCatchExceptionsFlag :: bytes where "kCatchExceptionsFlag = lit ''catch_exceptions''"
definition kColorFlag :: bytes where "kColorFlag = lit ''color''"
definition kFilterFlag :: bytes where "kFilterFlag = lit ''filter''"
definition kListTestsFlag :: bytes where "kListTestsFlag = lit ''list_tests''"
definition kOutputFlag :: bytes where "kOutputFlag = lit ''output''"
definition kPrintTimeFlag :: bytes where "kPrintTimeFlag = lit ''print_time''"
definition kRandomSeedFlag :: bytes where "kRandomSeedFlag = lit ''random_seed''"
definition kRepeatFlag :: bytes where "kRepeatFlag = lit ''repeat''"
definition kShuffleFlag :: bytes where "kShuffleFlag = lit ''shuffle''"
definition kStackTraceDepthFlag :: bytes where "kStackTraceDepthFlag = lit ''stack_trace_depth''"
definition kStreamResultToFlag :: bytes where "kStreamResultToFlag = lit ''stream_result_to''"
definition kThrowOnFailureFlag :: bytes where "kThrowOnFailureFlag = lit ''throw_on_failure''"
definition kFlagfileFlag :: bytes where "kFlagfileFlag = lit ''flagfile''"
definition kDeathTestStyleFlag :: bytes where "kDeathTestStyleFlag = lit ''death_test_style''"
definition kDeathTestUseFork :: bytes where "kDeathTestUseFork = lit ''death_test_use_fork''"
definition kInternalRunDeathTestFlag :: bytes where "kInternalRunDeathTestFlag = lit ''internal_run_death_test''"

text \<open>The initial values, and the warnings printed when the program is loaded.\<close>

definition Flags_init :: "environment \<Rightarrow> Flags \<times> bytes" where
  "Flags_init getenv =
     (let (seed, w1) = Int32FromGTestEnv getenv (lit ''random_seed'') 0;
          (times, w2) = Int32FromGTestEnv getenv (lit ''repeat'') 1;
          (depth, w3) = Int32FromGTestEnv getenv (lit ''stack_trace_depth'') kMaxStackTraceDepth
      in (\<lparr>also_run_disabled_tests = BoolFromGTestEnv getenv (lit ''also_run_disabled_tests'') False,
           break_on_failure = BoolFromGTestEnv getenv (lit ''break_on_failure'') False,
           catch_exceptions = BoolFromGTestEnv getenv (lit ''catch_exceptions'') True,
           color_flag = StringFromGTestEnv getenv (lit ''color'') (lit ''auto''),
           death_test_style = StringFromGTestEnv getenv (lit ''death_test_style'') (lit ''fast''),
           death_test_use_fork = BoolFromGTestEnv getenv (lit ''death_test_use_fork'') False,
           filter_flag = StringFromGTestEnv getenv (lit ''filter'') kUniversalFilter,
           internal_run_death_test = [],
           list_tests = False,
           output_flag = StringFromGTestEnv getenv (lit ''output'') [],
           print_time = BoolFromGTestEnv getenv (lit ''print_time'') True,
           random_seed_flag = seed,
           repeat_flag = times,
           shuffle_flag = BoolFromGTestEnv getenv (lit ''shuffle'') False,
           stack_trace_depth = depth,
           stream_result_to = StringFromGTestEnv getenv (lit ''stream_result_to'') [],
           throw_on_failure = BoolFromGTestEnv getenv (lit ''throw_on_failure'') False,
           flagfile = StringFromGTestEnv getenv (lit ''flagfile'') []\<rparr>,
          w1 @ w2 @ w3))"

subsection \<open>One flag\<close>

definition ParseFlagValue :: "bytes option \<Rightarrow> bytes option \<Rightarrow> bool \<Rightarrow> bytes option" where
  "ParseFlagValue str flag def_optional =
     (case (str, flag) of
        (Some s, Some f) \<Rightarrow>
          (let flag_str = lit ''--'' @ GTEST_FLAG_PREFIX @ f
           in if take (length flag_str) s \<noteq> flag_str then None
              else
                let flag_rest = drop (length flag_str) s
                in if def_optional \<and> flag_rest = [] then Some flag_rest
                   else if flag_rest = [] \<or> hd flag_rest \<noteq> 61 then None
                   else Some (tl flag_rest))
      | _ \<Rightarrow> None)"

definition bool_value :: "bytes \<Rightarrow> bool" where
  "bool_value value_str \<longleftrightarrow> \<not> (value_str \<noteq> [] \<and> hd value_str \<in> {of_char (CHR ''0''), of_char (CHR ''f''), of_char (CHR ''F'')})"

definition ParseBoolFlag :: "bytes \<Rightarrow> bytes \<Rightarrow> bool option" where
  "ParseBoolFlag str flag = map_option bool_value (ParseFlagValue (Some str) (Some flag) True)"

definition ParseInt32Flag :: "bytes \<Rightarrow> bytes \<Rightarrow> int option \<times> bytes" where
  "ParseInt32Flag str flag =
     (case ParseFlagValue (Some str) (Some flag) False of
        None \<Rightarrow> (None, [])
      | Some value_str \<Rightarrow> ParseInt32 (lit ''The value of flag --'' @ flag) value_str)"

definition ParseStringFlag :: "bytes \<Rightarrow> bytes \<Rightarrow> bytes option" where
  "ParseStringFlag str flag = ParseFlagValue (Some str) (Some flag) False"

text \<open>
  The operands of \<open>||\<close> in \<open>ParseGoogleTestFlag\<close>: each answers whether it was its flag, and has set the
  flag then; a warning may be printed in either case.
\<close>

type_synonym operand = "Flags \<Rightarrow> bool \<times> Flags \<times> bytes"

definition bool_operand :: "bytes \<Rightarrow> bytes \<Rightarrow> ((bool \<Rightarrow> bool) \<Rightarrow> Flags \<Rightarrow> Flags) \<Rightarrow> operand" where
  "bool_operand arg flag update fl =
     (case ParseBoolFlag arg flag of None \<Rightarrow> (False, fl, []) | Some v \<Rightarrow> (True, update (\<lambda>_. v) fl, []))"

definition string_operand :: "bytes \<Rightarrow> bytes \<Rightarrow> ((bytes \<Rightarrow> bytes) \<Rightarrow> Flags \<Rightarrow> Flags) \<Rightarrow> operand" where
  "string_operand arg flag update fl =
     (case ParseStringFlag arg flag of None \<Rightarrow> (False, fl, []) | Some v \<Rightarrow> (True, update (\<lambda>_. v) fl, []))"

definition int32_operand :: "bytes \<Rightarrow> bytes \<Rightarrow> ((int \<Rightarrow> int) \<Rightarrow> Flags \<Rightarrow> Flags) \<Rightarrow> operand" where
  "int32_operand arg flag update fl =
     (case ParseInt32Flag arg flag of
        (None, warning) \<Rightarrow> (False, fl, warning)
      | (Some v, warning) \<Rightarrow> (True, update (\<lambda>_. v) fl, warning))"

fun any_operand :: "operand list \<Rightarrow> operand" where
  "any_operand [] fl = (False, fl, [])"
| "any_operand (f # fs) fl =
     (case f fl of
        (True, fl1, w1) \<Rightarrow> (True, fl1, w1)
      | (False, fl1, w1) \<Rightarrow> (case any_operand fs fl1 of (b, fl2, w2) \<Rightarrow> (b, fl2, w1 @ w2)))"

definition ParseGoogleTestFlag :: "bytes \<Rightarrow> operand" where
  "ParseGoogleTestFlag arg =
     any_operand
       [bool_operand arg kAlsoRunDisabledTestsFlag also_run_disabled_tests_update,
        bool_operand arg kBreakOnFailureFlag break_on_failure_update,
        bool_operand arg kCatchExceptionsFlag catch_exceptions_update,
        string_operand arg kColorFlag color_flag_update,
        string_operand arg kDeathTestStyleFlag death_test_style_update,
        bool_operand arg kDeathTestUseFork death_test_use_fork_update,
        string_operand arg kFilterFlag filter_flag_update,
        string_operand arg kInternalRunDeathTestFlag internal_run_death_test_update,
        bool_operand arg kListTestsFlag list_tests_update,
        string_operand arg kOutputFlag output_flag_update,
        bool_operand arg kPrintTimeFlag print_time_update,
        int32_operand arg kRandomSeedFlag random_seed_flag_update,
        int32_operand arg kRepeatFlag repeat_flag_update,
        bool_operand arg kShuffleFlag shuffle_flag_update,
        int32_operand arg kStackTraceDepthFlag stack_trace_depth_update,
        string_operand arg kStreamResultToFlag stream_result_to_update,
        bool_operand arg kThrowOnFailureFlag throw_on_failure_update]"

definition SkipPrefix :: "bytes \<Rightarrow> bytes \<Rightarrow> bytes option" where
  "SkipPrefix prefix str = (if take (length prefix) str = prefix then Some (drop (length prefix) str) else None)"

definition HasGoogleTestFlagPrefix :: "bytes \<Rightarrow> bool" where
  "HasGoogleTestFlagPrefix str =
     (case (case SkipPrefix (lit ''--'') str of
              Some s \<Rightarrow> Some s
            | None \<Rightarrow> (case SkipPrefix (lit ''-'') str of Some s \<Rightarrow> Some s | None \<Rightarrow> SkipPrefix (lit ''/'') str)) of
        None \<Rightarrow> False
      | Some s \<Rightarrow>
          SkipPrefix (GTEST_FLAG_PREFIX @ lit ''internal_'') s = None \<and>
          (SkipPrefix GTEST_FLAG_PREFIX s \<noteq> None \<or> SkipPrefix GTEST_FLAG_PREFIX_DASH s \<noteq> None))"

subsection \<open>Coloured text\<close>

datatype GTestColor = COLOR_DEFAULT | COLOR_RED | COLOR_GREEN | COLOR_YELLOW

definition GetAnsiColorCode :: "GTestColor \<Rightarrow> bytes option" where
  "GetAnsiColorCode color =
     (case color of
        COLOR_RED \<Rightarrow> Some (lit ''1'')
      | COLOR_GREEN \<Rightarrow> Some (lit ''2'')
      | COLOR_YELLOW \<Rightarrow> Some (lit ''3'')
      | COLOR_DEFAULT \<Rightarrow> None)"

definition ShouldUseColor :: "environment \<Rightarrow> Flags \<Rightarrow> bool \<Rightarrow> bool" where
  "ShouldUseColor getenv fl stdout_is_tty =
     (let gtest_color = Some (color_flag fl)
      in if CaseInsensitiveCStringEquals gtest_color (Some (lit ''auto'')) then
           let term = getenv (lit ''TERM'');
               term_supports_color =
                 CStringEquals term (Some (lit ''xterm'')) \<or>
                 CStringEquals term (Some (lit ''xterm-color'')) \<or>
                 CStringEquals term (Some (lit ''xterm-256color'')) \<or>
                 CStringEquals term (Some (lit ''screen'')) \<or>
                 CStringEquals term (Some (lit ''screen-256color'')) \<or>
                 CStringEquals term (Some (lit ''tmux'')) \<or>
                 CStringEquals term (Some (lit ''tmux-256color'')) \<or>
                 CStringEquals term (Some (lit ''rxvt-unicode'')) \<or>
                 CStringEquals term (Some (lit ''rxvt-unicode-256color'')) \<or>
                 CStringEquals term (Some (lit ''linux'')) \<or>
                 CStringEquals term (Some (lit ''cygwin''))
           in stdout_is_tty \<and> term_supports_color
         else
           CaseInsensitiveCStringEquals gtest_color (Some (lit ''yes'')) \<or>
           CaseInsensitiveCStringEquals gtest_color (Some (lit ''true'')) \<or>
           CaseInsensitiveCStringEquals gtest_color (Some (lit ''t'')) \<or>
           CStringEquals gtest_color (Some (lit ''1'')))"

text \<open>The text is already formatted; 27 is the escape character.\<close>

definition ColoredPrintf :: "bool \<Rightarrow> GTestColor \<Rightarrow> bytes \<Rightarrow> bytes" where
  "ColoredPrintf in_color_mode color message =
     (let use_color = (in_color_mode \<and> color \<noteq> COLOR_DEFAULT)
      in if \<not> use_color then message
         else [27] @ lit ''[0;3'' @ the (GetAnsiColorCode color) @ lit ''m'' @ message @ [27] @ lit ''[m'')"

text \<open>64 is the at sign. One past the NUL, the pointer is moved back.\<close>

function color_encoded_loop :: "bool \<Rightarrow> GTestColor \<Rightarrow> bytes \<Rightarrow> bytes" where
  "color_encoded_loop in_color_mode color str =
     (if 64 \<notin> set str then ColoredPrintf in_color_mode color str
      else
        let segment = takeWhile (\<lambda>b. b \<noteq> 64) str;
            after = drop (length segment + 1) str;
            ch = (if after = [] then 0 else hd after)
        in ColoredPrintf in_color_mode color segment @
           (if ch = 64 then
              ColoredPrintf in_color_mode color (lit ''@'') @ color_encoded_loop in_color_mode color (tl after)
            else if ch = of_char (CHR ''D'') then color_encoded_loop in_color_mode COLOR_DEFAULT (tl after)
            else if ch = of_char (CHR ''R'') then color_encoded_loop in_color_mode COLOR_RED (tl after)
            else if ch = of_char (CHR ''G'') then color_encoded_loop in_color_mode COLOR_GREEN (tl after)
            else if ch = of_char (CHR ''Y'') then color_encoded_loop in_color_mode COLOR_YELLOW (tl after)
            else color_encoded_loop in_color_mode color after))"
  by pat_completeness auto
termination
  by (relation "measure (\<lambda>(m, c, s). length s)") (auto dest: length_pos_if_in_set)

definition PrintColorEncoded :: "bool \<Rightarrow> bytes \<Rightarrow> bytes" where
  "PrintColorEncoded in_color_mode str = color_encoded_loop in_color_mode COLOR_DEFAULT str"

text \<open>On a system that streams results over sockets and has death tests.\<close>

definition kColorEncodedHelpMessage :: bytes where
  "kColorEncodedHelpMessage =
     lit ''This program contains tests written using Google Test. You can use the'' @ newline @
     lit ''following command line flags to control its behavior:'' @ newline @
     newline @
     lit ''Test Selection:'' @ newline @
     lit ''  @G--gtest_list_tests@D'' @ newline @
     lit ''      List the names of all tests instead of running them. The name of'' @ newline @
     lit ''      TEST(Foo, Bar) is '' @ [34] @ lit ''Foo.Bar'' @ [34] @ lit ''.'' @ newline @
     lit ''  @G--gtest_filter=@YPOSTIVE_PATTERNS[@G-@YNEGATIVE_PATTERNS]@D'' @ newline @
     lit ''      Run only the tests whose name matches one of the positive patterns but'' @ newline @
     lit ''      none of the negative patterns. '' @ [39] @ lit ''?'' @ [39] @ lit '' matches any single character; '' @ [39] @ lit ''*'' @ [39] @ newline @
     lit ''      matches any substring; '' @ [39] @ lit '':'' @ [39] @ lit '' separates two patterns.'' @ newline @
     lit ''  @G--gtest_also_run_disabled_tests@D'' @ newline @
     lit ''      Run all disabled tests too.'' @ newline @
     newline @
     lit ''Test Execution:'' @ newline @
     lit ''  @G--gtest_repeat=@Y[COUNT]@D'' @ newline @
     lit ''      Run the tests repeatedly; use a negative count to repeat forever.'' @ newline @
     lit ''  @G--gtest_shuffle@D'' @ newline @
     lit ''      Randomize tests'' @ [39] @ lit '' orders on every iteration.'' @ newline @
     lit ''  @G--gtest_random_seed=@Y[NUMBER]@D'' @ newline @
     lit ''      Random number seed to use for shuffling test orders (between 1 and'' @ newline @
     lit ''      99999, or 0 to use a seed based on the current time).'' @ newline @
     newline @
     lit ''Test Output:'' @ newline @
     lit ''  @G--gtest_color=@Y(@Gyes@Y|@Gno@Y|@Gauto@Y)@D'' @ newline @
     lit ''      Enable/disable colored output. The default is @Gauto@D.'' @ newline @
     lit ''  -@G-gtest_print_time=0@D'' @ newline @
     lit ''      Don'' @ [39] @ lit ''t print the elapsed time of each test.'' @ newline @
     lit ''  @G--gtest_output=xml@Y[@G:@YDIRECTORY_PATH@G/@Y|@G:@YFILE_PATH]@D'' @ newline @
     lit ''      Generate an XML report in the given directory or with the given file'' @ newline @
     lit ''      name. @YFILE_PATH@D defaults to @Gtest_details.xml@D.'' @ newline @
     lit ''  @G--gtest_stream_result_to=@YHOST@G:@YPORT@D'' @ newline @
     lit ''      Stream test results to the given server.'' @ newline @
     newline @
     lit ''Assertion Behavior:'' @ newline @
     lit ''  @G--gtest_death_test_style=@Y(@Gfast@Y|@Gthreadsafe@Y)@D'' @ newline @
     lit ''      Set the default death test style.'' @ newline @
     lit ''  @G--gtest_break_on_failure@D'' @ newline @
     lit ''      Turn assertion failures into debugger break-points.'' @ newline @
     lit ''  @G--gtest_throw_on_failure@D'' @ newline @
     lit ''      Turn assertion failures into C++ exceptions.'' @ newline @
     lit ''  @G--gtest_catch_exceptions=0@D'' @ newline @
     lit ''      Do not report exceptions as test failures. Instead, allow them'' @ newline @
     lit ''      to crash the program or throw a pop-up (on Windows).'' @ newline @
     newline @
     lit ''Except for @G--gtest_list_tests@D, you can alternatively set the corresponding'' @ newline @
     lit ''environment variable of a flag (all letters in upper-case). For example, to'' @ newline @
     lit ''disable colored text output, you can either specify @G--gtest_color=no@D or set'' @ newline @
     lit ''the @GGTEST_COLOR@D environment variable to @Gno@D.'' @ newline @
     newline @
     lit ''For more information, please read the Google Test documentation at'' @ newline @
     lit ''@Ghttps://github.com/google/googletest/@D. If you find a bug in Google Test'' @ newline @
     lit ''(not one in your own code or tests), please report it to'' @ newline @
     lit ''@G<googletestframework@@googlegroups.com>@D.'' @ newline"

subsection \<open>Flag files\<close>

text \<open>
  A call may end the process: by a fault, or by \<open>exit(EXIT_FAILURE)\<close> after printing something.
\<close>

datatype stop = Fault fault | Exit_failure bytes

type_synonym 'a run = "stop + 'a"

definition run_bind :: "'a run \<Rightarrow> ('a \<Rightarrow> 'b run) \<Rightarrow> 'b run" where
  "run_bind m f = (case m of Inl e \<Rightarrow> Inl e | Inr x \<Rightarrow> f x)"

definition checked :: "'a res \<Rightarrow> 'a run" where
  "checked m = (case m of Inl e \<Rightarrow> Inl (Fault e) | Inr x \<Rightarrow> Inr x)"

text \<open>\<open>fread p n\<close> is how many of \<open>n\<close> bytes a call delivers at position \<open>p\<close>.\<close>

function read_file_loop :: "(nat \<Rightarrow> nat \<Rightarrow> nat) \<Rightarrow> bytes \<Rightarrow> nat \<Rightarrow> bytes \<Rightarrow> bytes" where
  "read_file_loop fread file bytes_read buffer =
     (let file_size = length file;
          bytes_last_read = min (fread bytes_read (file_size - bytes_read)) (file_size - bytes_read);
          buffer2 = buffer @ take bytes_last_read (drop bytes_read file)
      in if bytes_last_read > 0 \<and> bytes_read + bytes_last_read < file_size
         then read_file_loop fread file (bytes_read + bytes_last_read) buffer2 else buffer2)"
  by pat_completeness auto
termination
  by (relation "measure (\<lambda>(r, f, p, b). length f - p)") auto

definition ReadEntireFile :: "(nat \<Rightarrow> nat \<Rightarrow> nat) \<Rightarrow> bytes \<Rightarrow> bytes" where
  "ReadEntireFile fread file = read_file_loop fread file 0 []"

text \<open>What the parser changes: the flags, whether help is wanted, what is printed, and the static variable of \<open>ColoredPrintf\<close>.\<close>

record Options =
  cmd_flags :: Flags
  g_help_flag :: bool
  printed :: bytes
  in_color_mode :: "bool option"

text \<open>The system: readable files, how \<open>fread\<close> delivers them, the environment, whether the output is a terminal.\<close>

record Host =
  readable :: "bytes \<Rightarrow> bytes option"
  deliver :: "nat \<Rightarrow> nat \<Rightarrow> nat"
  host_env :: environment
  stdout_is_tty :: bool

definition parse_one :: "bytes \<Rightarrow> Options \<Rightarrow> bool \<times> Options" where
  "parse_one arg op =
     (case ParseGoogleTestFlag arg (cmd_flags op) of
        (b, fl, warning) \<Rightarrow> (b, op\<lparr>cmd_flags := fl, printed := printed op @ warning\<rparr>))"

definition load_line :: "bytes \<Rightarrow> Options \<Rightarrow> Options" where
  "load_line line op =
     (if line = [] then op
      else case parse_one (until_nul line) op of
             (True, op1) \<Rightarrow> op1
           | (False, op1) \<Rightarrow> op1\<lparr>g_help_flag := True\<rparr>)"

definition LoadFlagsFromFile :: "Host \<Rightarrow> bytes \<Rightarrow> Options \<Rightarrow> Options run" where
  "LoadFlagsFromFile host path op =
     (case readable host path of
        None \<Rightarrow> Inl (Exit_failure (lit ''Unable to open file '' @ [34] @ flagfile (cmd_flags op) @ [34] @ newline))
      | Some contents \<Rightarrow> Inr (fold load_line (SplitString 10 (ReadEntireFile (deliver host) contents)) op))"

subsection \<open>The command line\<close>

definition array_at :: "'x list \<Rightarrow> nat \<Rightarrow> 'x res" where
  "array_at xs i = (if i < length xs then Inr (xs ! i) else Inl Out_of_bounds)"

definition array_put :: "'x list \<Rightarrow> nat \<Rightarrow> 'x \<Rightarrow> 'x list res" where
  "array_put xs i x = (if i < length xs then Inr (xs[i := x]) else Inl Out_of_bounds)"

text \<open>The loop that moves the rest of \<open>argv\<close>, with its NULL, one place to the left.\<close>

function shift_args :: "nat \<Rightarrow> nat \<Rightarrow> 'x list \<Rightarrow> 'x list res" where
  "shift_args j argc argv =
     (if argc \<le> j then Inr argv
      else rbind (array_at argv (j + 1)) (\<lambda>x. rbind (array_put argv j x) (shift_args (j + 1) argc)))"
  by pat_completeness auto
termination
  by (relation "measure (\<lambda>(j, n, v). n - j)") auto

text \<open>A NULL pointer is streamed as \<open>(null)\<close>.\<close>

definition StreamableToString :: "bytes option \<Rightarrow> bytes" where
  "StreamableToString s = (case s of None \<Rightarrow> lit ''(null)'' | Some t \<Rightarrow> t)"

text \<open>The loop over the arguments; \<open>step\<close> is the part of its body that decides whether the argument is removed.\<close>

function args_loop :: "(bytes \<Rightarrow> 's \<Rightarrow> (bool \<times> 's) run) \<Rightarrow> nat \<Rightarrow> nat \<Rightarrow> bytes option list \<Rightarrow> 's
    \<Rightarrow> (nat \<times> bytes option list \<times> 's) run" where
  "args_loop step i argc argv op =
     (if argc \<le> i then Inr (argc, argv, op)
      else
        run_bind (checked (array_at argv i)) (\<lambda>a.
        run_bind (step (StreamableToString a) op) (\<lambda>(remove_flag, op1).
          if remove_flag then
            run_bind (checked (shift_args i argc argv)) (\<lambda>argv1. args_loop step i (argc - 1) argv1 op1)
          else args_loop step (i + 1) argc argv op1)))"
  by pat_completeness auto
termination
  by (relation "measure (\<lambda>(s, i, n, v, p). n - i)") auto

definition flag_step :: "Host \<Rightarrow> bytes \<Rightarrow> Options \<Rightarrow> (bool \<times> Options) run" where
  "flag_step host arg op =
     (case parse_one arg op of
        (True, op1) \<Rightarrow> Inr (True, op1)
      | (False, op1) \<Rightarrow>
          (case ParseStringFlag arg kFlagfileFlag of
             Some path \<Rightarrow>
               run_bind (LoadFlagsFromFile host path (op1\<lparr>cmd_flags := (cmd_flags op1)\<lparr>flagfile := path\<rparr>\<rparr>))
                 (\<lambda>op2. Inr (True, op2))
           | None \<Rightarrow>
               Inr (False,
                 if arg = lit ''--help'' \<or> arg = lit ''-h'' \<or> arg = lit ''-?'' \<or> arg = lit ''/?'' \<or>
                    HasGoogleTestFlagPrefix arg
                 then op1\<lparr>g_help_flag := True\<rparr> else op1)))"

text \<open>The static variable of \<open>ColoredPrintf\<close> is set by the first call.\<close>

definition print_help :: "Host \<Rightarrow> Options \<Rightarrow> Options" where
  "print_help host op =
     (let mode = (case in_color_mode op of
                    Some m \<Rightarrow> m
                  | None \<Rightarrow> ShouldUseColor (host_env host) (cmd_flags op) (stdout_is_tty host))
      in op\<lparr>in_color_mode := Some mode, printed := printed op @ PrintColorEncoded mode kColorEncodedHelpMessage\<rparr>)"

definition ParseGoogleTestFlagsOnlyImpl ::
  "Host \<Rightarrow> nat \<Rightarrow> bytes option list \<Rightarrow> Options \<Rightarrow> (nat \<times> bytes option list \<times> Options) run" where
  "ParseGoogleTestFlagsOnlyImpl host argc argv op =
     run_bind (args_loop (flag_step host) 1 argc argv op) (\<lambda>(argc1, argv1, op1).
       Inr (argc1, argv1, if g_help_flag op1 then print_help host op1 else op1))"

section \<open>Properties\<close>

subsection \<open>A flag is a table lookup\<close>

datatype flag_kind =
    Bool_flag "(bool \<Rightarrow> bool) \<Rightarrow> Flags \<Rightarrow> Flags"
  | Int_flag "(int \<Rightarrow> int) \<Rightarrow> Flags \<Rightarrow> Flags"
  | String_flag "(bytes \<Rightarrow> bytes) \<Rightarrow> Flags \<Rightarrow> Flags"

definition flag_table :: "(bytes \<times> flag_kind) list" where
  "flag_table =
     [(lit ''also_run_disabled_tests'', Bool_flag also_run_disabled_tests_update),
      (lit ''break_on_failure'', Bool_flag break_on_failure_update),
      (lit ''catch_exceptions'', Bool_flag catch_exceptions_update),
      (lit ''color'', String_flag color_flag_update),
      (lit ''death_test_style'', String_flag death_test_style_update),
      (lit ''death_test_use_fork'', Bool_flag death_test_use_fork_update),
      (lit ''filter'', String_flag filter_flag_update),
      (lit ''internal_run_death_test'', String_flag internal_run_death_test_update),
      (lit ''list_tests'', Bool_flag list_tests_update),
      (lit ''output'', String_flag output_flag_update),
      (lit ''print_time'', Bool_flag print_time_update),
      (lit ''random_seed'', Int_flag random_seed_flag_update),
      (lit ''repeat'', Int_flag repeat_flag_update),
      (lit ''shuffle'', Bool_flag shuffle_flag_update),
      (lit ''stack_trace_depth'', Int_flag stack_trace_depth_update),
      (lit ''stream_result_to'', String_flag stream_result_to_update),
      (lit ''throw_on_failure'', Bool_flag throw_on_failure_update)]"

text \<open>The argument as a name and, after the first equals sign, a value.\<close>

definition split_flag :: "bytes \<Rightarrow> (bytes \<times> bytes option) option" where
  "split_flag arg =
     (if take 8 arg = lit ''--gtest_'' then
        let body = drop 8 arg; name = takeWhile (\<lambda>b. b \<noteq> 61) body
        in Some (name, if 61 \<in> set body then Some (drop (length name + 1) body) else None)
      else None)"

fun set_flag :: "bytes \<Rightarrow> bytes option \<Rightarrow> flag_kind \<Rightarrow> operand" where
  "set_flag name value (Bool_flag update) fl =
     (True, update (\<lambda>_. case value of None \<Rightarrow> True | Some v \<Rightarrow> bool_value v) fl, [])"
| "set_flag name value (String_flag update) fl =
     (case value of None \<Rightarrow> (False, fl, []) | Some v \<Rightarrow> (True, update (\<lambda>_. v) fl, []))"
| "set_flag name value (Int_flag update) fl =
     (case value of
        None \<Rightarrow> (False, fl, [])
      | Some v \<Rightarrow>
          (case ParseInt32 (lit ''The value of flag --'' @ name) v of
             (None, warning) \<Rightarrow> (False, fl, warning)
           | (Some n, warning) \<Rightarrow> (True, update (\<lambda>_. n) fl, warning)))"

fun operand_of :: "bytes \<Rightarrow> bytes \<times> flag_kind \<Rightarrow> operand" where
  "operand_of arg (name, Bool_flag update) = bool_operand arg name update"
| "operand_of arg (name, String_flag update) = string_operand arg name update"
| "operand_of arg (name, Int_flag update) = int32_operand arg name update"

text \<open>The prefix of eight characters.\<close>

definition flag_prefix :: bytes where "flag_prefix = lit ''--gtest_''"

lemma prefix_text: "lit ''--'' @ GTEST_FLAG_PREFIX @ f = flag_prefix @ f" "length flag_prefix = 8"
  by (simp_all add: GTEST_FLAG_PREFIX_def flag_prefix_def lit_def)

lemma split_flag_prefix:
  "split_flag arg =
     (if take 8 arg = flag_prefix then
        let body = drop 8 arg; name = takeWhile (\<lambda>b. b \<noteq> 61) body
        in Some (name, if 61 \<in> set body then Some (drop (length name + 1) body) else None)
      else None)"
  by (simp only: split_flag_def flag_prefix_def)

lemma ParseFlagValue_prefix:
  "ParseFlagValue (Some s) (Some f) def_optional =
     (if take (8 + length f) s \<noteq> flag_prefix @ f then None
      else
        let flag_rest = drop (8 + length f) s
        in if def_optional \<and> flag_rest = [] then Some flag_rest
           else if flag_rest = [] \<or> hd flag_rest \<noteq> 61 then None
           else Some (tl flag_rest))"
  by (simp only: ParseFlagValue_def prefix_text length_append option.case prod.case Let_def)

lemma ParseFlagValue_split:
  assumes "61 \<notin> set name"
  shows "ParseFlagValue (Some arg) (Some name) def_optional =
    (case split_flag arg of
       None \<Rightarrow> None
     | Some (n, value) \<Rightarrow>
         if n \<noteq> name then None
         else (case value of Some v \<Rightarrow> Some v | None \<Rightarrow> if def_optional then Some [] else None))"
proof (cases "take 8 arg = flag_prefix")
  case True
  define body where "body = drop 8 arg"
  have arg: "arg = flag_prefix @ body" using True append_take_drop_id [of 8 arg] by (simp add: body_def)
  have split: "split_flag arg = Some (takeWhile (\<lambda>b. b \<noteq> 61) body,
      if 61 \<in> set body then Some (drop (length (takeWhile (\<lambda>b. b \<noteq> 61) body) + 1) body) else None)"
    using True by (simp add: split_flag_prefix body_def Let_def)
  have parse: "ParseFlagValue (Some arg) (Some name) def_optional =
      (if take (length name) body \<noteq> name then None
       else let r = drop (length name) body
         in if def_optional \<and> r = [] then Some r else if r = [] \<or> hd r \<noteq> 61 then None else Some (tl r))"
    unfolding ParseFlagValue_prefix arg by (simp add: prefix_text)
  show ?thesis
  proof (cases "take (length name) body = name")
    case pre: True
    then obtain r where body: "body = name @ r" by (metis append_take_drop_id)
    have tw: "takeWhile (\<lambda>b. b \<noteq> 61) (name @ r) = name @ takeWhile (\<lambda>b. b \<noteq> 61) r"
      using assms by (subst takeWhile_append2) auto
    show ?thesis
      by (cases r) (use assms tw in \<open>auto simp: parse split body Let_def\<close>)
  next
    case False
    have "takeWhile (\<lambda>b. b \<noteq> 61) body \<noteq> name"
      using False by (metis append_eq_conv_conj takeWhile_dropWhile_id)
    then show ?thesis using False by (simp add: parse split)
  qed
next
  case False
  have "take (8 + length name) arg \<noteq> flag_prefix @ name"
  proof
    assume eq: "take (8 + length name) arg = flag_prefix @ name"
    have "take 8 (take (8 + length name) arg) = flag_prefix" by (simp add: eq prefix_text)
    then show False using False by simp
  qed
  then show ?thesis using False by (simp add: ParseFlagValue_prefix split_flag_prefix)
qed

lemma operand_of_split:
  assumes "61 \<notin> set name"
  shows "operand_of arg (name, kind) fl =
    (case split_flag arg of
       None \<Rightarrow> (False, fl, [])
     | Some (n, value) \<Rightarrow> if n = name then set_flag name value kind fl else (False, fl, []))"
  by (cases kind)
    (auto simp: bool_operand_def string_operand_def int32_operand_def ParseBoolFlag_def ParseStringFlag_def ParseInt32Flag_def
      ParseFlagValue_split [OF assms] bool_value_def split: option.splits prod.splits)

lemma any_operand_table:
  assumes "distinct (map fst table)" and "\<forall>n \<in> fst ` set table. 61 \<notin> set n"
  shows "any_operand (map (operand_of arg) table) fl =
    (case split_flag arg of
       None \<Rightarrow> (False, fl, [])
     | Some (n, value) \<Rightarrow> (case map_of table n of None \<Rightarrow> (False, fl, []) | Some kind \<Rightarrow> set_flag n value kind fl))"
  using assms
proof (induction table arbitrary: fl)
  case Nil
  then show ?case by (simp split: option.splits prod.splits)
next
  case (Cons e table)
  obtain name kind where e: "e = (name, kind)" by (cases e)
  have IH: "any_operand (map (operand_of arg) table) fl =
    (case split_flag arg of
       None \<Rightarrow> (False, fl, [])
     | Some (n, value) \<Rightarrow> (case map_of table n of None \<Rightarrow> (False, fl, []) | Some kind \<Rightarrow> set_flag n value kind fl))" for fl
    using Cons by simp
  have op: "operand_of arg e fl' =
    (case split_flag arg of
       None \<Rightarrow> (False, fl', [])
     | Some (n, value) \<Rightarrow> if n = name then set_flag name value kind fl' else (False, fl', []))" for fl'
    unfolding e using Cons.prems(2) e by (intro operand_of_split) auto
  show ?case
  proof (cases "split_flag arg")
    case None
    then show ?thesis using IH [of fl] by (simp add: op)
  next
    case (Some nv)
    obtain n v where nv: "nv = (n, v)" by (cases nv)
    show ?thesis
    proof (cases "n = name")
      case True
      have none: "map_of table name = None" using Cons.prems(1) e by (simp add: map_of_eq_None_iff)
      obtain b fl1 w where set: "set_flag name v kind fl = (b, fl1, w)" by (metis prod_cases3)
      have "\<not> b \<Longrightarrow> fl1 = fl" using set by (cases kind) (auto split: option.splits prod.splits)
      then show ?thesis using Cons.prems
        by (cases b) (simp_all add: op [unfolded e] Some nv True e set IH none)
    next
      case False
      then show ?thesis using IH [of fl] by (simp add: op [unfolded e] Some nv e)
    qed
  qed
qed

lemmas flag_names =
  kAlsoRunDisabledTestsFlag_def kBreakOnFailureFlag_def kCatchExceptionsFlag_def kColorFlag_def kFilterFlag_def
  kListTestsFlag_def kOutputFlag_def kPrintTimeFlag_def kRandomSeedFlag_def kRepeatFlag_def kShuffleFlag_def
  kStackTraceDepthFlag_def kStreamResultToFlag_def kThrowOnFailureFlag_def kFlagfileFlag_def kDeathTestStyleFlag_def
  kDeathTestUseFork_def kInternalRunDeathTestFlag_def

lemma ParseGoogleTestFlag_lookup:
  "ParseGoogleTestFlag arg fl =
    (case split_flag arg of
       None \<Rightarrow> (False, fl, [])
     | Some (n, value) \<Rightarrow> (case map_of flag_table n of None \<Rightarrow> (False, fl, []) | Some kind \<Rightarrow> set_flag n value kind fl))"
proof -
  have "ParseGoogleTestFlag arg = any_operand (map (operand_of arg) flag_table)"
    by (simp add: ParseGoogleTestFlag_def flag_table_def flag_names)
  moreover have "distinct (map fst flag_table)" "\<forall>n \<in> fst ` set flag_table. 61 \<notin> set n"
    by (simp_all add: flag_table_def lit_def of_char_def)
  ultimately show ?thesis by (simp add: any_operand_table)
qed

text \<open>
  C33: The parser tries seventeen flags in turn. For every argument and all flags, its answer, the
  flag it sets and the warning it prints are those of a lookup of the text between \<open>--gtest_\<close> and the
  first equals sign in the table of flags: no alternative shadows another, a prefix of a name or a
  longer name sets nothing, and a rejected value leaves all flags as they are.
\<close>

theorem ParseGoogleTestFlag_table:
  "ParseGoogleTestFlag arg fl =
    (case split_flag arg of
       None \<Rightarrow> (False, fl, [])
     | Some (n, value) \<Rightarrow> (case map_of flag_table n of None \<Rightarrow> (False, fl, []) | Some kind \<Rightarrow> set_flag n value kind fl))"
  by (rule ParseGoogleTestFlag_lookup)

subsection \<open>Decimal numbers\<close>

lemma digits_value_snoc: "digits_value (ds @ [d]) = 10 * digits_value ds + (unat d - 48)"
  by (simp add: digits_value_def)

lemma digit_byte:
  assumes "n < 10"
  shows "unat (of_nat (48 + n) :: byte) = 48 + n" and "is_digit (of_nat (48 + n))"
proof -
  have "unat (of_nat (48 + n) :: byte) = (48 + n) mod 256" unfolding unat_of_nat by simp
  then show u: "unat (of_nat (48 + n) :: byte) = 48 + n" using assms by simp
  show "is_digit (of_nat (48 + n))" unfolding is_digit_def u using assms by simp
qed

lemma digits_value_decimal: "digits_value (decimal n) = n"
proof (induction n rule: less_induct)
  case (less n)
  show ?case
  proof (cases "n < 10")
    case True
    then show ?thesis by (subst decimal.simps) (simp add: digits_value_def digit_byte(1) [OF True, simplified])
  next
    case False
    have "unat (of_nat (48 + n mod 10) :: byte) = 48 + n mod 10" by (rule digit_byte) simp
    then show ?thesis using False less [of "n div 10"]
      by (subst decimal.simps) (simp add: digits_value_snoc)
  qed
qed

lemma decimal_is_digits: "list_all is_digit (decimal n) \<and> decimal n \<noteq> []"
proof (induction n rule: less_induct)
  case (less n)
  show ?case
  proof (cases "n < 10")
    case True
    then show ?thesis using digit_byte(2) [OF True] by (subst decimal.simps, subst (2) decimal.simps) simp
  next
    case False
    have "is_digit (of_nat (48 + n mod 10))" by (rule digit_byte) simp
    then show ?thesis using False less [of "n div 10"] by (subst decimal.simps, subst (2) decimal.simps) simp
  qed
qed

lemma strtol_decimal:
  "strtol (decimal_int v) = (max LONG_MIN (min LONG_MAX v), [])"
proof -
  have dec: "takeWhile is_digit (decimal n) = decimal n" "decimal n \<noteq> []" "is_digit (hd (decimal n))" for n
    using decimal_is_digits [of n] by (auto simp: takeWhile_eq_all_conv list_all_iff)
  have hd: "\<not> is_space (hd (decimal n))" "hd (decimal n) \<noteq> 45" "hd (decimal n) \<noteq> 43" for n
    using dec(3) [of n] by (auto simp: is_digit_def is_space_def)
  have skip: "dropWhile is_space (decimal n) = decimal n" for n
    using dec(2) [of n] hd(1) [of n] by (cases "decimal n") auto
  show ?thesis
  proof (cases "v < 0")
    case True
    then show ?thesis
      by (simp add: strtol_def decimal_int_def lit_def of_char_def is_space_def Let_def digits_value_decimal dec(1,2))
  next
    case False
    then show ?thesis
      by (simp add: strtol_def decimal_int_def Let_def digits_value_decimal dec(1,2) skip hd(2,3))
  qed
qed

lemma ParseInt32_of_decimal:
  "fst (ParseInt32 src_text (decimal_int v)) = (if - (2 ^ 31) \<le> v \<and> v < 2 ^ 31 then Some v else None)"
proof -
  define w where "w = max LONG_MIN (min LONG_MAX v)"
  have res: "sint (word_of_int w :: 32 word) = w \<longleftrightarrow> - (2 ^ 31) \<le> w \<and> w < 2 ^ 31"
    using signed_take_bit_int_eq_self_iff [of 31 w] by (simp add: sint_sbintrunc')
  have "fst (ParseInt32 src_text (decimal_int v)) =
      (if w = LONG_MAX \<or> w = LONG_MIN \<or> sint (word_of_int w :: 32 word) \<noteq> w then None else Some w)"
    by (simp add: ParseInt32_def strtol_decimal w_def [symmetric] Let_def)
  then show ?thesis using res by (auto simp: w_def LONG_MAX_def LONG_MIN_def)
qed

text \<open>
  The decimal text of a number is read back as that number exactly if the number has 32 bits;
  any other number, also one beyond the range of \<open>long\<close>, is rejected.
\<close>

theorem ParseInt32_decimal:
  "fst (ParseInt32 src_text (decimal_int v)) = (if - (2 ^ 31) \<le> v \<and> v < 2 ^ 31 then Some v else None)"
  by (rule ParseInt32_of_decimal)

text \<open>The empty text is accepted as zero.\<close>

lemma ParseInt32_empty: "ParseInt32 src_text [] = (Some 0, [])"
  by (simp add: ParseInt32_def strtol_def LONG_MAX_def LONG_MIN_def)

subsection \<open>What is left of the command line\<close>

lemma run_bind_simps [simp]: "run_bind (Inl e) f = Inl e" "run_bind (Inr x) f = f x"
  by (simp_all add: run_bind_def)

lemma checked_simps [simp]: "checked (Inl e) = Inl (Fault e)" "checked (Inr x) = Inr x"
  by (simp_all add: checked_def)

lemma run_bind_Inr: "run_bind m f = Inr y \<longleftrightarrow> (\<exists>x. m = Inr x \<and> f x = Inr y)"
  by (cases m) auto

declare shift_args.simps [simp del] args_loop.simps [simp del]

lemma shift_args_list:
  "shift_args (length pre) (Suc (length pre + length ms)) (pre @ m # ms @ z # zs) = Inr (pre @ ms @ z # z # zs)"
proof (induction ms arbitrary: pre m)
  case Nil
  have "shift_args (length pre) (Suc (length pre)) (pre @ [m, z] @ zs) = shift_args (Suc (length pre)) (Suc (length pre)) (pre @ [z, z] @ zs)"
    by (subst shift_args.simps) (simp add: array_at_def array_put_def rbind_def nth_append list_update_append)
  then show ?case by (subst (asm) (2) shift_args.simps) simp
next
  case (Cons n ns)
  have "shift_args (length pre) (Suc (length pre + length (n # ns))) (pre @ m # (n # ns) @ z # zs) =
      shift_args (length (pre @ [n])) (Suc (length (pre @ [n]) + length ns)) ((pre @ [n]) @ n # ns @ z # zs)"
    by (subst shift_args.simps) (simp add: array_at_def array_put_def rbind_def nth_append list_update_append)
  then show ?case using Cons.IH [of "pre @ [n]" n] by simp
qed

text \<open>The reference: each argument is shown to \<open>step\<close> once, in order, and kept unless it is recognised.\<close>

fun run_args :: "(bytes \<Rightarrow> 's \<Rightarrow> (bool \<times> 's) run) \<Rightarrow> bytes list \<Rightarrow> 's \<Rightarrow> (bytes list \<times> 's) run" where
  "run_args step [] s = Inr ([], s)"
| "run_args step (a # as) s =
     run_bind (step a s) (\<lambda>(remove, s1).
     run_bind (run_args step as s1) (\<lambda>(kept, s2). Inr (if remove then kept else a # kept, s2)))"

lemma run_args_length: "run_args step as s = Inr (kept, s') \<Longrightarrow> length kept \<le> length as"
  by (induction as arbitrary: s kept)
    (fastforce simp: run_bind_Inr split: prod.splits if_splits)+

lemma args_loop_run:
  "args_loop step (length pre) (length pre + length as) (pre @ map Some as @ replicate (Suc k) None) s =
    run_bind (run_args step as s) (\<lambda>(kept, s').
      Inr (length pre + length kept, pre @ map Some kept @ replicate (Suc (k + (length as - length kept))) None, s'))"
proof (induction as arbitrary: pre k s)
  case Nil
  then show ?case by (subst args_loop.simps) simp
next
  case (Cons a as)
  have at: "array_at (pre @ Some a # map Some as @ replicate (Suc k) None) (length pre) = Inr (Some a)"
    by (simp add: array_at_def)
  have arg: "StreamableToString (Some a) = a" by (simp add: StreamableToString_def)
  show ?case
  proof (cases "step a s")
    case (Inl e)
    then show ?thesis by (subst args_loop.simps) (simp add: at [simplified] arg)
  next
    case (Inr r)
    obtain rm s1 where r: "r = (rm, s1)" by (cases r)
    show ?thesis
    proof (cases rm)
      case True
      have sh: "shift_args (length pre) (Suc (length pre + length as)) (pre @ Some a # map Some as @ None # replicate k None) =
          Inr (pre @ map Some as @ replicate (Suc (Suc k)) None)"
        using shift_args_list [of pre "map Some as" "Some a" None "replicate k None"] by simp
      have "args_loop step (length pre) (length pre + length (a # as)) (pre @ map Some (a # as) @ replicate (Suc k) None) s =
          args_loop step (length pre) (length pre + length as) (pre @ map Some as @ replicate (Suc (Suc k)) None) s1"
        by (subst args_loop.simps) (simp add: at [simplified] arg Inr r True sh)
      also have "\<dots> = run_bind (run_args step as s1) (\<lambda>(kept, s').
          Inr (length pre + length kept, pre @ map Some kept @ replicate (Suc (Suc k + (length as - length kept))) None, s'))"
        by (rule Cons.IH)
      finally show ?thesis
        by (cases "run_args step as s1") (auto simp: Inr r True Suc_diff_le dest: run_args_length)
    next
      case False
      have "args_loop step (length pre) (length pre + length (a # as)) (pre @ map Some (a # as) @ replicate (Suc k) None) s =
          args_loop step (length (pre @ [Some a])) (length (pre @ [Some a]) + length as)
            ((pre @ [Some a]) @ map Some as @ replicate (Suc k) None) s1"
        by (subst args_loop.simps) (simp add: at [simplified] arg Inr r False)
      also note Cons.IH [of "pre @ [Some a]" k s1]
      finally show ?thesis
        by (cases "run_args step as s1") (auto simp: Inr r False)
    qed
  qed
qed

lemma args_loop_from_one:
  "args_loop step 1 (Suc (length as)) (p # map Some as @ [None]) s =
    run_bind (run_args step as s) (\<lambda>(kept, s').
      Inr (Suc (length kept), p # map Some kept @ replicate (Suc (length as - length kept)) None, s'))"
  using args_loop_run [of step "[p]" as 0 s] by simp

text \<open>Whether an argument is a flag does not depend on the state; flag files are recognised if they can be read.\<close>

definition is_flag :: "bytes \<Rightarrow> bool" where
  "is_flag arg \<longleftrightarrow> (\<exists>fl. fst (ParseGoogleTestFlag arg fl)) \<or> ParseStringFlag arg kFlagfileFlag \<noteq> None"

lemma fst_ParseGoogleTestFlag: "fst (ParseGoogleTestFlag arg fl) = fst (ParseGoogleTestFlag arg fl')"
proof -
  have "fst (set_flag n v kind fl) = fst (set_flag n v kind fl')" for n v kind
    by (cases kind) (auto split: option.splits prod.splits)
  then show ?thesis by (simp add: ParseGoogleTestFlag_lookup split: option.splits prod.splits)
qed

text \<open>
  The reference for what the arguments do. An argument is a text that may set a flag; a flag file gives the flag
  \<open>flagfile\<close> its name, and each of its lines that is not empty is such a text too.
\<close>

definition recognised :: "bytes \<Rightarrow> bool" where
  "recognised arg \<longleftrightarrow> (\<exists>fl. fst (ParseGoogleTestFlag arg fl))"

definition flag_file_lines :: "Host \<Rightarrow> bytes \<Rightarrow> bytes list" where
  "flag_file_lines host path =
     map until_nul (filter (\<lambda>line. line \<noteq> []) (SplitString 10 (ReadEntireFile (deliver host) (the (readable host path)))))"

datatype flag_text = Flag_text bytes | Flag_file bytes

definition flag_texts :: "Host \<Rightarrow> bytes \<Rightarrow> flag_text list" where
  "flag_texts host arg =
     Flag_text arg #
     (if recognised arg then []
      else case ParseStringFlag arg kFlagfileFlag of
             None \<Rightarrow> []
           | Some path \<Rightarrow> Flag_file path # map Flag_text (flag_file_lines host path))"

text \<open>The flags, and what is printed: the warnings about operands.\<close>

fun apply_text :: "flag_text \<Rightarrow> Flags \<times> bytes \<Rightarrow> Flags \<times> bytes" where
  "apply_text (Flag_text t) (fl, out) = (case ParseGoogleTestFlag t fl of (_, fl', warning) \<Rightarrow> (fl', out @ warning))"
| "apply_text (Flag_file path) (fl, out) = (fl\<lparr>flagfile := path\<rparr>, out)"

text \<open>
  Help is asked for by name, by an argument that looks like a flag of the library but is none, and by a line of a flag file
  that is no flag.
\<close>

definition asks_help :: "Host \<Rightarrow> bytes \<Rightarrow> bool" where
  "asks_help host arg \<longleftrightarrow> \<not> recognised arg \<and>
     (case ParseStringFlag arg kFlagfileFlag of
        Some path \<Rightarrow> \<exists>line \<in> set (flag_file_lines host path). \<not> recognised line
      | None \<Rightarrow> arg \<in> {lit ''--help'', lit ''-h'', lit ''-?'', lit ''/?''} \<or> HasGoogleTestFlagPrefix arg)"

definition after_texts :: "flag_text list \<Rightarrow> bool \<Rightarrow> Options \<Rightarrow> Options" where
  "after_texts ts help op =
     (let r = fold apply_text ts (cmd_flags op, printed op)
      in op\<lparr>cmd_flags := fst r, printed := snd r, g_help_flag := g_help_flag op \<or> help\<rparr>)"

lemma after_texts_Nil: "after_texts [] help op = op\<lparr>g_help_flag := g_help_flag op \<or> help\<rparr>"
  by (simp add: after_texts_def)

lemma after_texts_append: "after_texts us h2 (after_texts ts h1 op) = after_texts (ts @ us) (h1 \<or> h2) op"
  by (simp add: after_texts_def Let_def disj_assoc)

lemma parse_one_after:
  "parse_one arg op = (recognised arg, after_texts [Flag_text arg] False op)"
proof -
  obtain b fl w where p: "ParseGoogleTestFlag arg (cmd_flags op) = (b, fl, w)" by (metis prod_cases3)
  have "recognised arg = b"
    unfolding recognised_def using fst_ParseGoogleTestFlag [of arg _ "cmd_flags op"] p by simp
  then show ?thesis by (simp add: parse_one_def p after_texts_def)
qed

lemma load_line_after:
  "load_line line op =
     (if line = [] then op else after_texts [Flag_text (until_nul line)] (\<not> recognised (until_nul line)) op)"
  by (simp add: load_line_def parse_one_after after_texts_def Let_def split: bool.split)

lemma load_lines_after:
  "fold load_line ls op =
     after_texts (map Flag_text (map until_nul (filter (\<lambda>l. l \<noteq> []) ls)))
       (\<exists>l \<in> set (map until_nul (filter (\<lambda>l. l \<noteq> []) ls)). \<not> recognised l) op"
proof (induction ls arbitrary: op)
  case Nil
  then show ?case by (simp add: after_texts_Nil)
next
  case (Cons l ls)
  then show ?case by (simp add: load_line_after after_texts_append del: set_map)
qed

lemma flag_step_after:
  assumes "\<And>path. ParseStringFlag arg kFlagfileFlag = Some path \<Longrightarrow> readable host path \<noteq> None"
  shows "flag_step host arg op = Inr (is_flag arg, after_texts (flag_texts host arg) (asks_help host arg) op)"
proof (cases "recognised arg")
  case True
  then show ?thesis
    by (simp add: flag_step_def parse_one_after flag_texts_def asks_help_def is_flag_def recognised_def [symmetric])
next
  case False
  show ?thesis
  proof (cases "ParseStringFlag arg kFlagfileFlag")
    case None
    then show ?thesis using False
      by (simp add: flag_step_def parse_one_after flag_texts_def asks_help_def is_flag_def recognised_def [symmetric]
          after_texts_def Let_def del: lit_Cons)
  next
    case (Some path)
    obtain contents where c: "readable host path = Some contents" using assms [OF Some] by blast
    have "op1\<lparr>cmd_flags := (cmd_flags op1)\<lparr>flagfile := path\<rparr>\<rparr> = after_texts [Flag_file path] False op1" for op1
      by (simp add: after_texts_def)
    then show ?thesis using False Some c
      by (simp add: flag_step_def parse_one_after flag_texts_def asks_help_def is_flag_def recognised_def [symmetric]
          LoadFlagsFromFile_def load_lines_after after_texts_append flag_file_lines_def)
  qed
qed

lemma run_args_after:
  assumes "\<And>arg path. arg \<in> set as \<Longrightarrow> ParseStringFlag arg kFlagfileFlag = Some path \<Longrightarrow> readable host path \<noteq> None"
  shows "run_args (flag_step host) as op = Inr (filter (\<lambda>a. \<not> is_flag a) as,
    after_texts (concat (map (flag_texts host) as)) (\<exists>arg \<in> set as. asks_help host arg) op)"
  using assms
proof (induction as arbitrary: op)
  case Nil
  then show ?case by (simp add: after_texts_Nil)
next
  case (Cons a as)
  have step: "flag_step host a op = Inr (is_flag a, after_texts (flag_texts host a) (asks_help host a) op)"
    by (rule flag_step_after) (rule Cons.prems [OF list.set_intros(1)])
  have "run_args (flag_step host) as op1 = Inr (filter (\<lambda>a. \<not> is_flag a) as,
      after_texts (concat (map (flag_texts host) as)) (\<exists>arg \<in> set as. asks_help host arg) op1)" for op1
    by (rule Cons.IH) (rule Cons.prems [OF list.set_intros(2)])
  then show ?case by (simp add: step after_texts_append)
qed

text \<open>
  C31: Parsing a command line whose flag files can be read stays inside \<open>argv\<close> and returns. The program
  name and the arguments that are no flags are kept in order, their number is the new \<open>argc\<close>, a NULL
  follows them, and every flag is gone. The flags are what the arguments and the lines of flag files set, in order, and
  the warnings about their operands are printed. Help is wanted exactly if it was before or an argument asks for it: by
  name, as an unknown flag of the library, or by a line of a flag file that is no flag. The help text is printed, after the
  warnings, exactly then.
\<close>

theorem command_line_parsed:
  assumes "\<forall>arg \<in> set as. \<forall>path. ParseStringFlag arg kFlagfileFlag = Some path \<longrightarrow> readable host path \<noteq> None"
  shows "let kept = filter (\<lambda>a. \<not> is_flag a) as;
             (fl, out) = fold apply_text (concat (map (flag_texts host) as)) (cmd_flags op, printed op);
             help = (g_help_flag op \<or> (\<exists>arg \<in> set as. asks_help host arg));
             mode = (case in_color_mode op of None \<Rightarrow> ShouldUseColor (host_env host) fl (stdout_is_tty host) | Some m \<Rightarrow> m)
         in ParseGoogleTestFlagsOnlyImpl host (Suc (length as)) (program # map Some as @ [None]) op =
              Inr (Suc (length kept), program # map Some kept @ replicate (Suc (length as - length kept)) None,
                op\<lparr>cmd_flags := fl, g_help_flag := help,
                   printed := out @ (if help then PrintColorEncoded mode kColorEncodedHelpMessage else []),
                   in_color_mode := (if help then Some mode else in_color_mode op)\<rparr>)"
proof -
  have "run_args (flag_step host) as op = Inr (filter (\<lambda>a. \<not> is_flag a) as,
      after_texts (concat (map (flag_texts host) as)) (\<exists>arg \<in> set as. asks_help host arg) op)"
    using assms by (intro run_args_after) blast
  then show ?thesis
    by (auto simp: ParseGoogleTestFlagsOnlyImpl_def args_loop_from_one [simplified] print_help_def after_texts_def Let_def
        split: prod.split option.split)
qed

lemma is_flag_at: "is_flag arg \<longleftrightarrow> fst (ParseGoogleTestFlag arg fl) \<or> ParseStringFlag arg kFlagfileFlag \<noteq> None"
  using fst_ParseGoogleTestFlag [of arg] by (auto simp: is_flag_def)

definition no_host :: Host where
  "no_host = \<lparr>readable = (\<lambda>_. None), deliver = (\<lambda>p n. n), host_env = (\<lambda>_. None), stdout_is_tty = False\<rparr>"

definition first_options :: Options where
  "first_options = \<lparr>cmd_flags = fst (Flags_init (\<lambda>_. None)), g_help_flag = False, printed = [], in_color_mode = None\<rparr>"

lemma example_arguments:
  "ParseStringFlag (lit ''--gtest_repeat=3'') kFlagfileFlag = None" "ParseStringFlag (lit ''--help'') kFlagfileFlag = None"
  "fst (ParseGoogleTestFlag (lit ''--gtest_repeat=3'') (cmd_flags first_options))"
  "\<not> fst (ParseGoogleTestFlag (lit ''--help'') (cmd_flags first_options))"
  "repeat_flag (fst (fold apply_text [Flag_text (lit ''--gtest_repeat=3''), Flag_text (lit ''--help'')] (cmd_flags first_options, []))) = 3"
  by code_simp+

theorem command_line_parsed_witness:
  "\<exists>op'. ParseGoogleTestFlagsOnlyImpl no_host 3 [Some (lit ''t''), Some (lit ''--gtest_repeat=3''), Some (lit ''--help''), None]
      first_options = Inr (2, [Some (lit ''t''), Some (lit ''--help''), None, None], op') \<and>
    repeat_flag (cmd_flags op') = 3 \<and> g_help_flag op' \<and>
    (\<exists>out mode. printed op' = out @ PrintColorEncoded mode kColorEncodedHelpMessage)"
proof -
  let ?as = "[lit ''--gtest_repeat=3'', lit ''--help'']"
  have flags: "is_flag (lit ''--gtest_repeat=3'')" "\<not> is_flag (lit ''--help'')"
    using example_arguments by (simp_all only: is_flag_at [of _ "cmd_flags first_options"] simp_thms)
  have rec: "recognised (lit ''--gtest_repeat=3'')" "\<not> recognised (lit ''--help'')"
    using flags example_arguments(1) unfolding recognised_def is_flag_def by blast+
  have kept: "filter (\<lambda>a. \<not> is_flag a) ?as = [lit ''--help'']" using flags by simp
  have texts: "concat (map (flag_texts no_host) ?as) = [Flag_text (lit ''--gtest_repeat=3''), Flag_text (lit ''--help'')]"
    by (simp only: list.map concat.simps append.simps flag_texts_def rec example_arguments(2) option.case if_True if_False)
  have wanted: "\<exists>arg \<in> set ?as. asks_help no_host arg"
    using rec(2) example_arguments(2) by (simp add: asks_help_def del: lit_Cons)
  have start: "cmd_flags first_options = fst (Flags_init (\<lambda>_. None))" "printed first_options = []" "in_color_mode first_options = None"
    by (simp_all add: first_options_def)
  obtain fl out where r: "fold apply_text [Flag_text (lit ''--gtest_repeat=3''), Flag_text (lit ''--help'')]
      (cmd_flags first_options, []) = (fl, out)" by fastforce
  have three: "repeat_flag fl = 3" using example_arguments(5) unfolding r by simp
  have "\<forall>arg \<in> set ?as. \<forall>path. ParseStringFlag arg kFlagfileFlag = Some path \<longrightarrow> readable no_host path \<noteq> None"
    using example_arguments(1,2) by simp
  from command_line_parsed [OF this, of first_options "Some (lit ''t'')"] show ?thesis
    unfolding kept texts Let_def start(2) r prod.case using wanted three
    by (simp add: numeral_eq_Suc del: lit_Cons) blast
qed

end
