(* ===== verification/Gtest_Result.thy ===== *)
theory Gtest_Result
  imports Gmock_Utils Gtest_Flags
begin

text \<open>
  Results of tests and the objects that carry them: test part results, properties, \<open>TestResult\<close>,
  \<open>TestInfo\<close> and \<open>TestCase\<close> with their counts (src/libs/googletest/src/gtest.cc,
  src/libs/googletest/src/gtest-test-part.cc, src/libs/googletest/include/gtest/gtest.h,
  src/libs/googletest/include/gtest/gtest-test-part.h). A count is an integer; a time is in
  milliseconds. What a test does is not part of its \<open>TestInfo\<close>, which holds the number of its factory.
\<close>

section \<open>Definitions\<close>

subsection \<open>Test parts\<close>

datatype TestPartResultType = kSuccess | kNonFatalFailure | kFatalFailure

record TestPartResult =
  part_type :: TestPartResultType
  part_file_name :: bytes
  part_line :: int
  part_summary :: bytes
  part_message :: bytes

definition kStackTraceMarker :: bytes where
  "kStackTraceMarker = newline @ lit ''Stack trace:'' @ newline"

text \<open>\<open>strstr\<close>: the text before the first occurrence.\<close>

fun before_substring :: "bytes \<Rightarrow> bytes \<Rightarrow> bytes option" where
  "before_substring needle hay =
     (if take (length needle) hay = needle then Some []
      else case hay of [] \<Rightarrow> None | c # hay' \<Rightarrow> map_option ((#) c) (before_substring needle hay'))"

declare before_substring.simps [simp del]

definition ExtractSummary :: "bytes \<Rightarrow> bytes" where
  "ExtractSummary message =
     (case before_substring kStackTraceMarker message of None \<Rightarrow> message | Some text_before \<Rightarrow> text_before)"

definition TestPartResult_new :: "TestPartResultType \<Rightarrow> bytes option \<Rightarrow> int \<Rightarrow> bytes \<Rightarrow> TestPartResult" where
  "TestPartResult_new a_type a_file_name a_line_number a_message =
     \<lparr>part_type = a_type, part_file_name = (case a_file_name of None \<Rightarrow> [] | Some f \<Rightarrow> f), part_line = a_line_number,
      part_summary = ExtractSummary a_message, part_message = a_message\<rparr>"

definition file_name :: "TestPartResult \<Rightarrow> bytes option" where
  "file_name r = (if part_file_name r = [] then None else Some (part_file_name r))"

definition part_passed :: "TestPartResult \<Rightarrow> bool" where "part_passed r \<longleftrightarrow> part_type r = kSuccess"
definition part_failed :: "TestPartResult \<Rightarrow> bool" where "part_failed r \<longleftrightarrow> part_type r \<noteq> kSuccess"
definition nonfatally_failed :: "TestPartResult \<Rightarrow> bool" where "nonfatally_failed r \<longleftrightarrow> part_type r = kNonFatalFailure"
definition fatally_failed :: "TestPartResult \<Rightarrow> bool" where "fatally_failed r \<longleftrightarrow> part_type r = kFatalFailure"

text \<open>Streaming a part result writes its file name, which must not be NULL.\<close>

definition TestPartResult_stream :: "TestPartResult \<Rightarrow> bytes res" where
  "TestPartResult_stream r =
     (case file_name r of
        None \<Rightarrow> Inl Null_pointer
      | Some f \<Rightarrow>
          Inr (f @ lit '':'' @ decimal_int (part_line r) @ lit '': '' @
            (if part_type r = kSuccess then lit ''Success''
             else if part_type r = kFatalFailure then lit ''Fatal failure'' else lit ''Non-fatal failure'') @
            lit '':'' @ newline @ part_message r @ newline))"

definition TestPartResultTypeToString :: "TestPartResultType \<Rightarrow> bytes" where
  "TestPartResultTypeToString t =
     (case t of kSuccess \<Rightarrow> lit ''Success'' | kNonFatalFailure \<Rightarrow> lit ''Failure'' @ newline | kFatalFailure \<Rightarrow> lit ''Failure'' @ newline)"

definition PrintTestPartResultToString :: "TestPartResult \<Rightarrow> bytes" where
  "PrintTestPartResultToString r =
     FormatFileLocation (file_name r) (part_line r) @ lit '' '' @ TestPartResultTypeToString (part_type r) @ part_message r"

text \<open>The array of intercepted results, and the check that it holds one failure of a kind.\<close>

definition TestPartResultArray_get :: "TestPartResult list \<Rightarrow> int \<Rightarrow> TestPartResult res" where
  "TestPartResultArray_get results index =
     (if index < 0 \<or> index \<ge> int (length results) then Inl Aborted else Inr (results ! nat index))"

fun stream_results :: "TestPartResult list \<Rightarrow> bytes res" where
  "stream_results [] = Inr []"
| "stream_results (r # rs) =
     rbind (TestPartResult_stream r) (\<lambda>t. rbind (stream_results rs) (\<lambda>ts. Inr (newline @ t @ ts)))"

definition HasOneFailure :: "TestPartResult list \<Rightarrow> TestPartResultType \<Rightarrow> bytes \<Rightarrow> (bool \<times> bytes) res" where
  "HasOneFailure results a_type substr =
     (let expected = (if a_type = kFatalFailure then lit ''1 fatal failure'' else lit ''1 non-fatal failure'')
      in if length results \<noteq> 1 then
           rbind (stream_results results) (\<lambda>t.
             Inr (False, lit ''Expected: '' @ expected @ newline @ lit ''  Actual: '' @ decimal (length results) @ lit '' failures'' @ t))
         else
           rbind (TestPartResultArray_get results 0) (\<lambda>r.
           if part_type r \<noteq> a_type then
             rbind (TestPartResult_stream r) (\<lambda>t.
               Inr (False, lit ''Expected: '' @ expected @ newline @ lit ''  Actual:'' @ newline @ t))
           else if \<not> has_substring substr (part_message r) then
             rbind (TestPartResult_stream r) (\<lambda>t.
               Inr (False, lit ''Expected: '' @ expected @ lit '' containing '' @ [34] @ substr @ [34] @ newline @
                      lit ''  Actual:'' @ newline @ t))
           else Inr (True, [])))"

subsection \<open>Test results\<close>

record TestProperty =
  property_key :: bytes
  property_value :: bytes

record TestResult =
  test_part_results :: "TestPartResult list"
  test_properties :: "TestProperty list"
  death_test_count :: int
  elapsed_time :: int

definition TestResult_new :: TestResult where
  "TestResult_new = \<lparr>test_part_results = [], test_properties = [], death_test_count = 0, elapsed_time = 0\<rparr>"

definition total_part_count :: "TestResult \<Rightarrow> int" where "total_part_count r = int (length (test_part_results r))"
definition test_property_count :: "TestResult \<Rightarrow> int" where "test_property_count r = int (length (test_properties r))"

definition GetTestPartResult :: "TestResult \<Rightarrow> int \<Rightarrow> TestPartResult res" where
  "GetTestPartResult r i =
     (if i < 0 \<or> i \<ge> total_part_count r then Inl Aborted else Inr (test_part_results r ! nat i))"

definition GetTestProperty :: "TestResult \<Rightarrow> int \<Rightarrow> TestProperty res" where
  "GetTestProperty r i =
     (if i < 0 \<or> i \<ge> test_property_count r then Inl Aborted else Inr (test_properties r ! nat i))"

definition ClearTestPartResults :: "TestResult \<Rightarrow> TestResult" where
  "ClearTestPartResults r = r\<lparr>test_part_results := []\<rparr>"

definition TestResult_AddTestPartResult :: "TestPartResult \<Rightarrow> TestResult \<Rightarrow> TestResult" where
  "TestResult_AddTestPartResult test_part_result r = r\<lparr>test_part_results := test_part_results r @ [test_part_result]\<rparr>"

definition TestResult_Clear :: "TestResult \<Rightarrow> TestResult" where
  "TestResult_Clear r = r\<lparr>test_part_results := [], test_properties := [], death_test_count := 0, elapsed_time := 0\<rparr>"

text \<open>The loop of \<open>Failed\<close> over the indices.\<close>

function failed_loop :: "TestResult \<Rightarrow> int \<Rightarrow> bool res" where
  "failed_loop r i =
     (if i < total_part_count r then
        rbind (GetTestPartResult r i) (\<lambda>p. if part_failed p then Inr True else failed_loop r (i + 1))
      else Inr False)"
  by pat_completeness auto
termination
  by (relation "measure (\<lambda>(r, i). nat (total_part_count r - i))") auto

definition TestResult_Failed :: "TestResult \<Rightarrow> bool res" where "TestResult_Failed r = failed_loop r 0"

fun CountIf :: "'x list \<Rightarrow> ('x \<Rightarrow> bool) \<Rightarrow> int" where
  "CountIf [] predicate = 0"
| "CountIf (x # xs) predicate = (if predicate x then 1 else 0) + CountIf xs predicate"

definition HasFatalFailure :: "TestResult \<Rightarrow> bool" where
  "HasFatalFailure r \<longleftrightarrow> CountIf (test_part_results r) fatally_failed > 0"

definition HasNonfatalFailure :: "TestResult \<Rightarrow> bool" where
  "HasNonfatalFailure r \<longleftrightarrow> CountIf (test_part_results r) nonfatally_failed > 0"

subsection \<open>Properties that tests record\<close>

definition kReservedTestSuitesAttributes :: "bytes list" where
  "kReservedTestSuitesAttributes =
     [lit ''disabled'', lit ''errors'', lit ''failures'', lit ''name'', lit ''random_seed'', lit ''tests'', lit ''time'',
      lit ''timestamp'']"

definition kReservedTestSuiteAttributes :: "bytes list" where
  "kReservedTestSuiteAttributes =
     [lit ''disabled'', lit ''errors'', lit ''failures'', lit ''name'', lit ''tests'', lit ''time'']"

definition kReservedTestCaseAttributes :: "bytes list" where
  "kReservedTestCaseAttributes =
     [lit ''classname'', lit ''name'', lit ''status'', lit ''time'', lit ''type_param'', lit ''value_param'']"

definition GetReservedAttributesForElement :: "bytes \<Rightarrow> bytes list res" where
  "GetReservedAttributesForElement xml_element =
     (if xml_element = lit ''testsuites'' then Inr kReservedTestSuitesAttributes
      else if xml_element = lit ''testsuite'' then Inr kReservedTestSuiteAttributes
      else if xml_element = lit ''testcase'' then Inr kReservedTestCaseAttributes
      else Inl Aborted)"

text \<open>39 is the quote. The words from index \<open>i\<close> on, of \<open>n\<close>.\<close>

fun word_list :: "nat \<Rightarrow> nat \<Rightarrow> bytes list \<Rightarrow> bytes" where
  "word_list n i [] = []"
| "word_list n i (w # ws) =
     (if i > 0 \<and> n > 2 then lit '', '' else []) @ (if Suc i = n then lit ''and '' else []) @ [39] @ w @ [39] @ word_list n (i + 1) ws"

definition FormatWordList :: "bytes list \<Rightarrow> bytes" where
  "FormatWordList words = word_list (length words) 0 words"

text \<open>The answer, and the message of the failure that is added if the name is reserved.\<close>

definition ValidateTestPropertyName :: "bytes \<Rightarrow> bytes list \<Rightarrow> bool \<times> bytes" where
  "ValidateTestPropertyName property_name reserved_names =
     (if property_name \<in> set reserved_names then
        (False, lit ''Reserved key used in RecordProperty(): '' @ property_name @ lit '' ('' @ FormatWordList reserved_names @
           lit '' are reserved by Google Test)'')
      else (True, []))"

text \<open>\<open>find_if\<close> and the assignment through its iterator, or the addition at the back.\<close>

fun set_property :: "TestProperty \<Rightarrow> TestProperty list \<Rightarrow> TestProperty list" where
  "set_property p [] = [p]"
| "set_property p (q # qs) =
     (if property_key q = property_key p then q\<lparr>property_value := property_value p\<rparr> # qs else q # set_property p qs)"

text \<open>The new result, or the message of the failure.\<close>

definition TestResult_RecordProperty :: "bytes \<Rightarrow> TestProperty \<Rightarrow> TestResult \<Rightarrow> (bytes + TestResult) res" where
  "TestResult_RecordProperty xml_element test_property r =
     rbind (GetReservedAttributesForElement xml_element) (\<lambda>reserved.
       case ValidateTestPropertyName (property_key test_property) reserved of
         (False, message) \<Rightarrow> Inr (Inl message)
       | (True, _) \<Rightarrow> Inr (Inr (r\<lparr>test_properties := set_property test_property (test_properties r)\<rparr>)))"

subsection \<open>Tests and test cases\<close>

record TestInfo =
  info_case_name :: bytes
  info_name :: bytes
  info_type_param :: "bytes option"
  info_value_param :: "bytes option"
  info_location :: "bytes \<times> int"
  fixture_class_id :: nat
  info_should_run :: bool
  is_disabled :: bool
  matches_filter :: bool
  test_factory :: nat
  test_result :: TestResult

definition TestInfo_new ::
  "bytes \<Rightarrow> bytes \<Rightarrow> bytes option \<Rightarrow> bytes option \<Rightarrow> bytes \<times> int \<Rightarrow> nat \<Rightarrow> nat \<Rightarrow> TestInfo" where
  "TestInfo_new a_test_case_name a_name a_type_param a_value_param a_code_location a_fixture_class_id a_factory =
     \<lparr>info_case_name = a_test_case_name, info_name = a_name, info_type_param = a_type_param, info_value_param = a_value_param,
      info_location = a_code_location, fixture_class_id = a_fixture_class_id, info_should_run = False, is_disabled = False,
      matches_filter = False, test_factory = a_factory, test_result = TestResult_new\<rparr>"

definition is_reportable :: "TestInfo \<Rightarrow> bool" where "is_reportable t \<longleftrightarrow> matches_filter t"

definition ClearTestResult :: "TestInfo \<Rightarrow> TestInfo" where
  "ClearTestResult t = t\<lparr>test_result := TestResult_Clear (test_result t)\<rparr>"

record TestCase =
  case_name :: bytes
  case_type_param :: "bytes option"
  test_info_list :: "TestInfo list"
  test_indices :: "int list"
  set_up_tc :: nat
  tear_down_tc :: nat
  case_should_run :: bool
  case_elapsed_time :: int
  case_ad_hoc_test_result :: TestResult

definition TestCase_new :: "bytes \<Rightarrow> bytes option \<Rightarrow> nat \<Rightarrow> nat \<Rightarrow> TestCase" where
  "TestCase_new a_name a_type_param a_set_up a_tear_down =
     \<lparr>case_name = a_name, case_type_param = a_type_param, test_info_list = [], test_indices = [], set_up_tc = a_set_up,
      tear_down_tc = a_tear_down, case_should_run = False, case_elapsed_time = 0, case_ad_hoc_test_result = TestResult_new\<rparr>"

definition TestCase_AddTestInfo :: "TestInfo \<Rightarrow> TestCase \<Rightarrow> TestCase" where
  "TestCase_AddTestInfo t c =
     c\<lparr>test_info_list := test_info_list c @ [t], test_indices := test_indices c @ [int (length (test_indices c))]\<rparr>"

definition GetElementOr :: "'x list \<Rightarrow> int \<Rightarrow> 'x \<Rightarrow> 'x" where
  "GetElementOr v i default_value = (if i < 0 \<or> i \<ge> int (length v) then default_value else v ! nat i)"

text \<open>The index of the \<open>i\<close>-th test in \<open>test_info_list\<close>; None is NULL.\<close>

definition GetMutableTestInfo :: "TestCase \<Rightarrow> int \<Rightarrow> nat option" where
  "GetMutableTestInfo c i = (let index = GetElementOr (test_indices c) i (- 1) in if index < 0 then None else Some (nat index))"

definition ClearResult :: "TestCase \<Rightarrow> TestCase" where
  "ClearResult c =
     c\<lparr>case_ad_hoc_test_result := TestResult_Clear (case_ad_hoc_test_result c),
       test_info_list := map ClearTestResult (test_info_list c)\<rparr>"

text \<open>The predicates that are counted; \<open>Failed\<close> of a result does not fault (below).\<close>

definition failed :: "TestResult \<Rightarrow> bool" where "failed r = (case TestResult_Failed r of Inl _ \<Rightarrow> False | Inr b \<Rightarrow> b)"

definition TestPassed :: "TestInfo \<Rightarrow> bool" where "TestPassed t \<longleftrightarrow> info_should_run t \<and> \<not> failed (test_result t)"
definition TestFailed :: "TestInfo \<Rightarrow> bool" where "TestFailed t \<longleftrightarrow> info_should_run t \<and> failed (test_result t)"
definition TestReportableDisabled :: "TestInfo \<Rightarrow> bool" where "TestReportableDisabled t \<longleftrightarrow> is_reportable t \<and> is_disabled t"
definition TestDisabled :: "TestInfo \<Rightarrow> bool" where "TestDisabled t \<longleftrightarrow> is_disabled t"
definition TestReportable :: "TestInfo \<Rightarrow> bool" where "TestReportable t \<longleftrightarrow> is_reportable t"
definition ShouldRunTest :: "TestInfo \<Rightarrow> bool" where "ShouldRunTest t \<longleftrightarrow> info_should_run t"

definition case_successful_test_count :: "TestCase \<Rightarrow> int" where
  "case_successful_test_count c = CountIf (test_info_list c) TestPassed"
definition case_failed_test_count :: "TestCase \<Rightarrow> int" where
  "case_failed_test_count c = CountIf (test_info_list c) TestFailed"
definition case_reportable_disabled_test_count :: "TestCase \<Rightarrow> int" where
  "case_reportable_disabled_test_count c = CountIf (test_info_list c) TestReportableDisabled"
definition case_disabled_test_count :: "TestCase \<Rightarrow> int" where
  "case_disabled_test_count c = CountIf (test_info_list c) TestDisabled"
definition case_reportable_test_count :: "TestCase \<Rightarrow> int" where
  "case_reportable_test_count c = CountIf (test_info_list c) TestReportable"
definition case_test_to_run_count :: "TestCase \<Rightarrow> int" where
  "case_test_to_run_count c = CountIf (test_info_list c) ShouldRunTest"
definition case_total_test_count :: "TestCase \<Rightarrow> int" where
  "case_total_test_count c = int (length (test_info_list c))"

definition case_Failed :: "TestCase \<Rightarrow> bool" where "case_Failed c \<longleftrightarrow> case_failed_test_count c > 0"

section \<open>Properties\<close>

subsection \<open>Results\<close>

lemma CountIf_filter: "CountIf xs P = int (length (filter P xs))"
  by (induction xs) auto

lemma CountIf_pos: "CountIf xs P > 0 \<longleftrightarrow> (\<exists>x \<in> set xs. P x)"
  by (auto simp: CountIf_filter filter_empty_conv)

lemma CountIf_split:
  assumes "\<And>x. x \<in> set xs \<Longrightarrow> P x \<longleftrightarrow> Q x \<or> R x" and "\<And>x. x \<in> set xs \<Longrightarrow> \<not> (Q x \<and> R x)"
  shows "CountIf xs P = CountIf xs Q + CountIf xs R"
  using assms by (induction xs) auto

declare failed_loop.simps [simp del]

lemma failed_loop_from:
  "i \<le> length (test_part_results r) \<Longrightarrow>
    failed_loop r (int i) = Inr (\<exists>p \<in> set (drop i (test_part_results r)). part_failed p)"
proof (induction "length (test_part_results r) - i" arbitrary: i)
  case 0
  then show ?case by (subst failed_loop.simps) (simp add: total_part_count_def)
next
  case (Suc n)
  have lt: "i < length (test_part_results r)" using Suc.hyps(2) by linarith
  have step: "drop i (test_part_results r) = test_part_results r ! i # drop (Suc i) (test_part_results r)"
    using lt by (simp add: Cons_nth_drop_Suc)
  have IH: "failed_loop r (int (Suc i)) = Inr (\<exists>p \<in> set (drop (Suc i) (test_part_results r)). part_failed p)"
    using Suc.hyps(2) lt by (intro Suc.hyps(1)) simp_all
  show ?case using IH lt
    by (subst failed_loop.simps) (simp add: total_part_count_def GetTestPartResult_def rbind_def step add.commute)
qed

lemma TestResult_Failed_iff: "TestResult_Failed r = Inr (\<exists>p \<in> set (test_part_results r). part_failed p)"
  using failed_loop_from [of 0 r] by (simp add: TestResult_Failed_def)

lemma failed_iff: "failed r \<longleftrightarrow> (\<exists>p \<in> set (test_part_results r). part_failed p)"
  by (simp add: failed_def TestResult_Failed_iff)

lemma failed_kinds: "failed r \<longleftrightarrow> HasFatalFailure r \<or> HasNonfatalFailure r"
proof -
  have "part_failed p \<longleftrightarrow> fatally_failed p \<or> nonfatally_failed p" for p
    by (cases "part_type p") (simp_all add: part_failed_def fatally_failed_def nonfatally_failed_def)
  then show ?thesis by (auto simp: failed_iff HasFatalFailure_def HasNonfatalFailure_def CountIf_pos)
qed

lemma counts_add_up: "case_successful_test_count c + case_failed_test_count c = case_test_to_run_count c"
  unfolding case_successful_test_count_def case_failed_test_count_def case_test_to_run_count_def
  by (rule CountIf_split [symmetric]) (auto simp: TestPassed_def TestFailed_def ShouldRunTest_def)

lemma case_Failed_iff: "case_Failed c \<longleftrightarrow> (\<exists>t \<in> set (test_info_list c). info_should_run t \<and> failed (test_result t))"
  by (auto simp: case_Failed_def case_failed_test_count_def CountIf_pos TestFailed_def)

subsection \<open>Recorded properties as a map\<close>

definition property_map :: "TestProperty list \<Rightarrow> bytes \<Rightarrow> bytes option" where
  "property_map ps = map_of (map (\<lambda>p. (property_key p, property_value p)) ps)"

lemma set_property_map: "property_map (set_property p ps) = (property_map ps)(property_key p \<mapsto> property_value p)"
  by (induction ps) (auto simp: property_map_def fun_eq_iff)

lemma set_property_keys:
  "map property_key (set_property p ps) =
    (if property_key p \<in> set (map property_key ps) then map property_key ps else map property_key ps @ [property_key p])"
  by (induction ps) auto

end
