(* ===== verification/Gtest_Select.thy ===== *)
theory Gtest_Select
  imports Gtest_Result Gtest_FilePath "HOL-Library.Multiset" "HOL-Library.Signed_Division"
begin

text \<open>
  The choice and the order of the tests (src/libs/googletest/src/gtest.cc,
  src/libs/googletest/src/gtest-internal-inl.h): the glob patterns of the filter, disabled tests, sharding
  over several processes, the random number generator and the shuffle. A C string is the list of its
  characters; an \<open>int\<close> is an integer. The lemmas show that the matcher decides the patterns, that
  the shards divide the tests among themselves, and that a shuffle is a permutation.
\<close>

section \<open>Definitions\<close>

subsection \<open>Filters\<close>

text \<open>58 is the colon, 63 the question mark, 42 the star.\<close>

function PatternMatchesString :: "bytes \<Rightarrow> bytes \<Rightarrow> bool" where
  "PatternMatchesString pattern str =
     (case pattern of
        [] \<Rightarrow> str = []
      | p # ps \<Rightarrow>
          if p = 58 then str = []
          else if p = 63 then (case str of [] \<Rightarrow> False | c # cs \<Rightarrow> PatternMatchesString ps cs)
          else if p = 42 then
            (case str of
               [] \<Rightarrow> PatternMatchesString ps str
             | c # cs \<Rightarrow> (if PatternMatchesString pattern cs then True else PatternMatchesString ps str))
          else (case str of [] \<Rightarrow> False | c # cs \<Rightarrow> if p = c then PatternMatchesString ps cs else False))"
  by pat_completeness auto
termination
  by (relation "measure (\<lambda>(p, s). length p + length s)") auto

declare PatternMatchesString.simps [simp del]

function MatchesFilter :: "bytes \<Rightarrow> bytes \<Rightarrow> bool" where
  "MatchesFilter name cur_pattern =
     (if PatternMatchesString cur_pattern name then True
      else if 58 \<notin> set cur_pattern then False
      else MatchesFilter name (drop (length (takeWhile (\<lambda>b. b \<noteq> 58) cur_pattern) + 1) cur_pattern))"
  by pat_completeness auto
termination
  by (relation "measure (\<lambda>(n, p). length p)") (auto dest: length_pos_if_in_set)

declare MatchesFilter.simps [simp del]

definition kDisableTestFilter :: bytes where "kDisableTestFilter = lit ''DISABLED_*:*/DISABLED_*''"
definition kDeathTestCaseFilter :: bytes where "kDeathTestCaseFilter = lit ''*DeathTest:*DeathTest/*''"

text \<open>45 is the dash.\<close>

definition FilterMatchesTest :: "bytes \<Rightarrow> bytes \<Rightarrow> bytes \<Rightarrow> bool" where
  "FilterMatchesTest p test_case_name test_name =
     (let full_name = test_case_name @ lit ''.'' @ test_name;
          (positive, negative) =
            (if 45 \<notin> set p then (p, [])
             else
               let dash = length (takeWhile (\<lambda>b. b \<noteq> 45) p); positive = take dash p
               in (if positive = [] then kUniversalFilter else positive, drop (dash + 1) p))
      in MatchesFilter full_name positive \<and> \<not> MatchesFilter full_name negative)"

subsection \<open>The output file\<close>

definition kDefaultOutputFile :: bytes where "kDefaultOutputFile = lit ''test_detail.xml''"

definition GetOutputFormat :: "Flags \<Rightarrow> bytes" where
  "GetOutputFormat fl =
     (let gtest_output_flag = output_flag fl
      in if 58 \<notin> set gtest_output_flag then gtest_output_flag
         else take (length (takeWhile (\<lambda>b. b \<noteq> 58) gtest_output_flag)) gtest_output_flag)"

definition GetCurrentExecutableName :: "bytes list \<Rightarrow> FilePath res" where
  "GetCurrentExecutableName argvs = rbind (array_at argvs 0) (\<lambda>a. Inr (RemoveDirectoryName (FilePath_Set FilePath_default (FilePath_new a))))"

text \<open>None: the search for a free name does not end.\<close>

definition GetAbsolutePathToOutputFile ::
  "'w stat_call \<Rightarrow> Flags \<Rightarrow> bytes list \<Rightarrow> FilePath \<Rightarrow> 'w \<Rightarrow> (bytes \<times> 'w) res option" where
  "GetAbsolutePathToOutputFile stat fl argvs original_working_dir w =
     (let gtest_output_flag = output_flag fl
      in if 58 \<notin> set gtest_output_flag then
           Some (Inr (pathname (ConcatPaths (FilePath_new (pathname original_working_dir)) (FilePath_new kDefaultOutputFile)), w))
         else
           let given = drop (length (takeWhile (\<lambda>b. b \<noteq> 58) gtest_output_flag) + 1) gtest_output_flag;
               output_name1 = FilePath_new given;
               output_name = (if \<not> IsAbsolutePath output_name1
                              then ConcatPaths (FilePath_new (pathname original_working_dir)) (FilePath_new given)
                              else output_name1)
           in if \<not> IsDirectory output_name then Some (Inr (pathname output_name, w))
              else
                (case GetCurrentExecutableName argvs of
                   Inl e \<Rightarrow> Some (Inl e)
                 | Inr exe \<Rightarrow>
                     map_option (\<lambda>(p, w1). Inr (pathname p, w1))
                       (GenerateUniqueFileName stat output_name exe (GetOutputFormat fl) 0 w)))"

subsection \<open>Shards\<close>

definition kTestShardIndex :: bytes where "kTestShardIndex = lit ''GTEST_SHARD_INDEX''"
definition kTestTotalShards :: bytes where "kTestTotalShards = lit ''GTEST_TOTAL_SHARDS''"
definition kTestShardStatusFile :: bytes where "kTestShardStatusFile = lit ''GTEST_SHARD_STATUS_FILE''"

definition Int32FromEnvOrDie :: "environment \<Rightarrow> bytes \<Rightarrow> int \<Rightarrow> int run" where
  "Int32FromEnvOrDie getenv var default_val =
     (case getenv var of
        None \<Rightarrow> Inr default_val
      | Some str_val \<Rightarrow>
          (case ParseInt32 (lit ''The value of environment variable '' @ var) str_val of
             (None, warning) \<Rightarrow> Inl (Exit_failure warning)
           | (Some result, _) \<Rightarrow> Inr result))"

text \<open>\<open>mode\<close> is whether \<open>ColoredPrintf\<close> uses colours.\<close>

definition ShouldShard :: "bool \<Rightarrow> environment \<Rightarrow> bytes \<Rightarrow> bytes \<Rightarrow> bool \<Rightarrow> bool run" where
  "ShouldShard mode getenv total_shards_env shard_index_env in_subprocess_for_death_test =
     (if in_subprocess_for_death_test then Inr False
      else
        run_bind (Int32FromEnvOrDie getenv total_shards_env (- 1)) (\<lambda>total_shards.
        run_bind (Int32FromEnvOrDie getenv shard_index_env (- 1)) (\<lambda>shard_index.
        if total_shards = - 1 \<and> shard_index = - 1 then Inr False
        else if total_shards = - 1 \<and> shard_index \<noteq> - 1 then
          Inl (Exit_failure (ColoredPrintf mode COLOR_RED
            (lit ''Invalid environment variables: you have '' @ kTestShardIndex @ lit '' = '' @ decimal_int shard_index @
             lit '', but have left '' @ kTestTotalShards @ lit '' unset.'' @ newline)))
        else if total_shards \<noteq> - 1 \<and> shard_index = - 1 then
          Inl (Exit_failure (ColoredPrintf mode COLOR_RED
            (lit ''Invalid environment variables: you have '' @ kTestTotalShards @ lit '' = '' @ decimal_int total_shards @
             lit '', but have left '' @ kTestShardIndex @ lit '' unset.'' @ newline)))
        else if shard_index < 0 \<or> shard_index \<ge> total_shards then
          Inl (Exit_failure (ColoredPrintf mode COLOR_RED
            (lit ''Invalid environment variables: we require 0 <= '' @ kTestShardIndex @ lit '' < '' @ kTestTotalShards @
             lit '', but you have '' @ kTestShardIndex @ lit ''='' @ decimal_int shard_index @ lit '', '' @ kTestTotalShards @
             lit ''='' @ decimal_int total_shards @ lit ''.'' @ newline)))
        else Inr (total_shards > 1))))"

text \<open>The code assumes that the index is below the total, so that the total is not zero.\<close>

definition ShouldRunTestOnShard :: "int \<Rightarrow> int \<Rightarrow> int \<Rightarrow> bool" where
  "ShouldRunTestOnShard total_shards shard_index test_id \<longleftrightarrow> test_id smod total_shards = shard_index"

datatype ReactionToSharding = HONOR_SHARDING_PROTOCOL | IGNORE_SHARDING_PROTOCOL

text \<open>What is fixed while the tests are filtered.\<close>

record Selection =
  sel_flags :: Flags
  shard_tests :: ReactionToSharding
  total_shards :: int
  shard_index :: int

definition test_runnable :: "Flags \<Rightarrow> bytes \<Rightarrow> TestInfo \<Rightarrow> bool" where
  "test_runnable fl test_case_name t \<longleftrightarrow>
     (also_run_disabled_tests fl \<or>
        \<not> (MatchesFilter test_case_name kDisableTestFilter \<or> MatchesFilter (info_name t) kDisableTestFilter)) \<and>
     FilterMatchesTest (filter_flag fl) test_case_name (info_name t)"

text \<open>The body of the inner loop.\<close>

definition filter_one :: "Selection \<Rightarrow> bytes \<Rightarrow> int \<Rightarrow> TestInfo \<Rightarrow> TestInfo \<times> bool \<times> bool" where
  "filter_one s test_case_name num_runnable_tests t =
     (let disabled = (MatchesFilter test_case_name kDisableTestFilter \<or> MatchesFilter (info_name t) kDisableTestFilter);
          matching = FilterMatchesTest (filter_flag (sel_flags s)) test_case_name (info_name t);
          is_runnable = ((also_run_disabled_tests (sel_flags s) \<or> \<not> disabled) \<and> matching);
          is_selected = (is_runnable \<and>
            (shard_tests s = IGNORE_SHARDING_PROTOCOL \<or> ShouldRunTestOnShard (total_shards s) (shard_index s) num_runnable_tests))
      in (t\<lparr>is_disabled := disabled, matches_filter := matching, info_should_run := is_selected\<rparr>, is_runnable, is_selected))"

fun filter_infos :: "Selection \<Rightarrow> bytes \<Rightarrow> TestInfo list \<Rightarrow> int \<Rightarrow> int \<Rightarrow> bool \<Rightarrow> TestInfo list \<times> int \<times> int \<times> bool" where
  "filter_infos s test_case_name [] num_runnable num_selected case_run = ([], num_runnable, num_selected, case_run)"
| "filter_infos s test_case_name (t # ts) num_runnable num_selected case_run =
     (case filter_one s test_case_name num_runnable t of (t1, is_runnable, is_selected) \<Rightarrow>
      case filter_infos s test_case_name ts (num_runnable + of_bool is_runnable) (num_selected + of_bool is_selected)
             (case_run \<or> is_selected) of
        (ts1, rest) \<Rightarrow> (t1 # ts1, rest))"

fun filter_cases :: "Selection \<Rightarrow> TestCase list \<Rightarrow> int \<Rightarrow> int \<Rightarrow> TestCase list \<times> int \<times> int" where
  "filter_cases s [] num_runnable num_selected = ([], num_runnable, num_selected)"
| "filter_cases s (c # cs) num_runnable num_selected =
     (case filter_infos s (case_name c) (test_info_list c) num_runnable num_selected False of (ts, n1, n2, case_run) \<Rightarrow>
      case filter_cases s cs n1 n2 of (cs1, rest) \<Rightarrow>
        (c\<lparr>test_info_list := ts, case_should_run := case_run\<rparr> # cs1, rest))"

definition FilterTests :: "environment \<Rightarrow> Flags \<Rightarrow> ReactionToSharding \<Rightarrow> TestCase list \<Rightarrow> (int \<times> TestCase list) run" where
  "FilterTests getenv fl reaction test_cases =
     run_bind (if reaction = HONOR_SHARDING_PROTOCOL then Int32FromEnvOrDie getenv kTestTotalShards (- 1) else Inr (- 1)) (\<lambda>total.
     run_bind (if reaction = HONOR_SHARDING_PROTOCOL then Int32FromEnvOrDie getenv kTestShardIndex (- 1) else Inr (- 1)) (\<lambda>index.
       case filter_cases \<lparr>sel_flags = fl, shard_tests = reaction, total_shards = total, shard_index = index\<rparr> test_cases 0 0 of
         (test_cases1, num_runnable_tests, num_selected_tests) \<Rightarrow> Inr (num_selected_tests, test_cases1)))"

subsection \<open>Random numbers and shuffling\<close>

definition kMaxRange :: u32 where "kMaxRange = 2147483648"

text \<open>The number and the new state.\<close>

definition Random_Generate :: "u32 \<Rightarrow> u32 \<Rightarrow> (u32 \<times> u32) res" where
  "Random_Generate state num_range =
     (let state1 = (1103515245 * state + 12345) mod kMaxRange
      in if \<not> num_range > 0 then Inl Aborted
         else if \<not> num_range \<le> kMaxRange then Inl Aborted
         else Inr (state1 mod num_range, state1))"

definition list_swap :: "'x list \<Rightarrow> nat \<Rightarrow> nat \<Rightarrow> 'x list res" where
  "list_swap v i j =
     rbind (array_at v i) (\<lambda>x. rbind (array_at v j) (\<lambda>y. rbind (array_put v i y) (\<lambda>v1. array_put v1 j x)))"

fun shuffle_loop :: "nat \<Rightarrow> nat \<Rightarrow> 'x list \<Rightarrow> u32 \<Rightarrow> ('x list \<times> u32) res" where
  "shuffle_loop begin_index range_width v state =
     (if range_width < 2 then Inr (v, state)
      else
        let last_in_range = begin_index + range_width - 1
        in rbind (Random_Generate state (of_nat range_width)) (\<lambda>(r, state1).
             rbind (list_swap v (begin_index + unat r) last_in_range) (\<lambda>v1.
               shuffle_loop begin_index (range_width - 1) v1 state1)))"

declare shuffle_loop.simps [simp del]

text \<open>\<open>static_cast<int>\<close> of a \<open>size_t\<close>: the low 32 bits, read as a signed number.\<close>

definition int_of_size :: "nat \<Rightarrow> int" where
  "int_of_size n = sint (of_nat n :: 32 word)"

lemma int_of_size_eq: "n < 2 ^ 31 \<Longrightarrow> int_of_size n = int n"
  by (simp add: int_of_size_def signed_of_nat signed_take_bit_int_eq_self_iff)

definition ShuffleRange :: "u32 \<Rightarrow> int \<Rightarrow> int \<Rightarrow> 'x list \<Rightarrow> ('x list \<times> u32) res" where
  "ShuffleRange state first_index last_index v =
     (let n = int_of_size (length v)
      in if \<not> (0 \<le> first_index \<and> first_index \<le> n) then Inl Aborted
         else if \<not> (first_index \<le> last_index \<and> last_index \<le> n) then Inl Aborted
         else shuffle_loop (nat first_index) (nat (last_index - first_index)) v state)"

definition Shuffle :: "u32 \<Rightarrow> 'x list \<Rightarrow> ('x list \<times> u32) res" where
  "Shuffle state v = ShuffleRange state 0 (int_of_size (length v)) v"

definition kMaxRandomSeed :: int where "kMaxRandomSeed = 99999"

text \<open>The time is an argument.\<close>

definition GetRandomSeedFromFlag :: "int \<Rightarrow> int \<Rightarrow> int" where
  "GetRandomSeedFromFlag now seed_flag =
     (let raw_seed = (if seed_flag = 0 then word_of_int now else word_of_int seed_flag) :: u32
      in uint ((raw_seed - 1) mod word_of_int kMaxRandomSeed) + 1)"

definition GetNextRandomSeed :: "int \<Rightarrow> int res" where
  "GetNextRandomSeed seed =
     (if \<not> (1 \<le> seed \<and> seed \<le> kMaxRandomSeed) then Inl Aborted
      else let next_seed = seed + 1 in Inr (if next_seed > kMaxRandomSeed then 1 else next_seed))"

definition TestCase_ShuffleTests :: "u32 \<Rightarrow> TestCase \<Rightarrow> (TestCase \<times> u32) res" where
  "TestCase_ShuffleTests state c =
     rbind (Shuffle state (test_indices c)) (\<lambda>(v, state1). Inr (c\<lparr>test_indices := v\<rparr>, state1))"

definition TestCase_UnshuffleTests :: "TestCase \<Rightarrow> TestCase" where
  "TestCase_UnshuffleTests c = c\<lparr>test_indices := map int [0..<length (test_indices c)]\<rparr>"

section \<open>Properties\<close>

subsection \<open>Glob patterns\<close>

text \<open>The strings of a pattern without colons.\<close>

inductive glob :: "bytes \<Rightarrow> bytes \<Rightarrow> bool" where
  glob_Nil: "glob [] []"
| glob_any: "glob ps s \<Longrightarrow> glob (63 # ps) (c # s)"
| glob_star: "glob ps s \<Longrightarrow> glob (42 # ps) (w @ s)"
| glob_char: "p \<noteq> 63 \<Longrightarrow> p \<noteq> 42 \<Longrightarrow> glob ps s \<Longrightarrow> glob (p # ps) (p # s)"

inductive_simps glob_simps: "glob [] s" "glob (p # ps) []"
inductive_cases glob_ConsE: "glob (p # ps) s"

lemma glob_star_iff: "glob (42 # ps) s \<longleftrightarrow> (\<exists>w t. s = w @ t \<and> glob ps t)"
proof
  assume "glob (42 # ps) s"
  then show "\<exists>w t. s = w @ t \<and> glob ps t" by (rule glob_ConsE) auto
qed (auto intro: glob_star)

lemma glob_star_step: "glob (42 # ps) (c # s) \<longleftrightarrow> glob (42 # ps) s \<or> glob ps (c # s)"
proof
  assume "glob (42 # ps) (c # s)"
  then obtain w t where w: "c # s = w @ t" "glob ps t" by (auto simp: glob_star_iff)
  then show "glob (42 # ps) s \<or> glob ps (c # s)" by (cases w) (auto simp: glob_star_iff)
next
  assume "glob (42 # ps) s \<or> glob ps (c # s)"
  then obtain w t where "c # s = w @ t" "glob ps t"
    unfolding glob_star_iff by (metis append_Cons append_Nil)
  then show "glob (42 # ps) (c # s)" by (auto simp: glob_star_iff)
qed

lemma glob_step:
  "glob (63 # ps) (c # s) \<longleftrightarrow> glob ps s"
  "p \<noteq> 63 \<Longrightarrow> p \<noteq> 42 \<Longrightarrow> glob (p # ps) (c # s) \<longleftrightarrow> p = c \<and> glob ps s"
  by (auto intro: glob.intros elim: glob_ConsE)

lemma PatternMatchesString_glob: "PatternMatchesString pattern str \<longleftrightarrow> glob (takeWhile (\<lambda>b. b \<noteq> 58) pattern) str"
proof (induction pattern str rule: PatternMatchesString.induct)
  case (1 pattern str)
  show ?case
  proof (cases pattern)
    case Nil
    then show ?thesis by (subst PatternMatchesString.simps) (simp add: glob_simps)
  next
    case (Cons p ps)
    show ?thesis
    proof (cases str)
      case Nil
      then show ?thesis using 1 Cons
        by (subst PatternMatchesString.simps) (auto simp: glob_simps)
    next
      case str: (Cons c cs)
      consider "p = 58" | "p = 63" | "p = 42" | "p \<noteq> 58" "p \<noteq> 63" "p \<noteq> 42" by blast
      then show ?thesis
      proof cases
        case 1
        then show ?thesis using Cons str by (subst PatternMatchesString.simps) (simp add: glob_simps)
      next
        case 2
        then show ?thesis using "1.IH"(1) [OF Cons _ _ str] Cons str
          by (subst PatternMatchesString.simps) (simp add: glob_step)
      next
        case 3
        then show ?thesis using "1.IH"(3) [OF Cons _ _ _ str] "1.IH"(4) [OF Cons _ _ _ str] Cons str
          by (subst PatternMatchesString.simps) (auto simp: glob_star_step)
      next
        case 4
        then show ?thesis using "1.IH"(5) [OF Cons _ _ _ str] Cons str
          by (subst PatternMatchesString.simps) (auto simp: glob_step)
      qed
    qed
  qed
qed

lemma MatchesFilter_pieces: "MatchesFilter name p \<longleftrightarrow> (\<exists>q \<in> set (SplitString 58 p). glob q name)"
proof (induction name p rule: MatchesFilter.induct)
  case (1 name p)
  have piece: "PatternMatchesString p name \<longleftrightarrow> glob (takeWhile (\<lambda>b. b \<noteq> 58) p) name" by (rule PatternMatchesString_glob)
  have tw: "58 \<notin> set p \<Longrightarrow> takeWhile (\<lambda>b. b \<noteq> 58) p = p" by (simp add: takeWhile_eq_all_conv) blast
  have tk: "take (length (takeWhile (\<lambda>b. b \<noteq> 58) p)) p = takeWhile (\<lambda>b. b \<noteq> 58) p" by (rule takeWhile_eq_take [symmetric])
  show ?case
  proof (cases "58 \<in> set p")
    case True
    have split: "SplitString 58 p = takeWhile (\<lambda>b. b \<noteq> 58) p # SplitString 58 (drop (length (takeWhile (\<lambda>b. b \<noteq> 58) p) + 1) p)"
      using True tk by (subst SplitString.simps) (simp add: Let_def)
    show ?thesis
      unfolding split using "1.IH" True piece by (subst MatchesFilter.simps) auto
  next
    case False
    have split: "SplitString 58 p = [p]" using False by (subst SplitString.simps) simp
    show ?thesis using False piece tw by (subst MatchesFilter.simps) (simp add: split)
  qed
qed

definition positive_part :: "bytes \<Rightarrow> bytes" where
  "positive_part p = (let h = takeWhile (\<lambda>b. b \<noteq> 45) p in if 45 \<in> set p \<and> h = [] then kUniversalFilter else h)"

definition negative_part :: "bytes \<Rightarrow> bytes" where
  "negative_part p = tl (dropWhile (\<lambda>b. b \<noteq> 45) p)"

lemma drop_after_takeWhile: "drop (Suc (length (takeWhile P xs))) xs = tl (dropWhile P xs)"
  by (simp add: dropWhile_eq_drop drop_Suc tl_drop)

text \<open>
  C37: A test is matched by the filter exactly if one of the glob patterns before the first dash
  describes its full name and none of those after it does; with nothing before the dash every name is
  described. A star stands for any characters, a question mark for one.
\<close>

theorem FilterMatchesTest_patterns:
  "FilterMatchesTest p test_case_name test_name \<longleftrightarrow>
    (\<exists>q \<in> set (SplitString 58 (positive_part p)). glob q (test_case_name @ lit ''.'' @ test_name)) \<and>
    \<not> (\<exists>q \<in> set (SplitString 58 (negative_part p)). glob q (test_case_name @ lit ''.'' @ test_name))"
proof (cases "45 \<in> set p")
  case True
  have "take (length (takeWhile (\<lambda>b. b \<noteq> 45) p)) p = takeWhile (\<lambda>b. b \<noteq> 45) p" by (rule takeWhile_eq_take [symmetric])
  then show ?thesis using True
    by (simp add: FilterMatchesTest_def Let_def MatchesFilter_pieces positive_part_def negative_part_def drop_after_takeWhile
        del: lit_Cons)
next
  case False
  then have parts: "takeWhile (\<lambda>b. b \<noteq> 45) p = p" "dropWhile (\<lambda>b. b \<noteq> 45) p = []"
    by (auto simp: takeWhile_eq_all_conv dropWhile_eq_Nil_conv)
  show ?thesis using False
    by (simp add: parts FilterMatchesTest_def Let_def MatchesFilter_pieces positive_part_def negative_part_def del: lit_Cons)
qed

subsection \<open>Shards\<close>

lemma smod_pos: "0 \<le> a \<Longrightarrow> 0 < b \<Longrightarrow> (a :: int) smod b = a mod b"
  by (simp add: signed_modulo_int_def signed_divide_int_def sgn_if minus_div_mult_eq_mod)

text \<open>How many runnable tests come before the test \<open>j\<close> of test case \<open>i\<close>: its number among them.\<close>

definition runnable_in :: "Flags \<Rightarrow> TestCase \<Rightarrow> TestInfo list \<Rightarrow> int" where
  "runnable_in fl c ts = CountIf ts (test_runnable fl (case_name c))"

definition test_number :: "Flags \<Rightarrow> TestCase list \<Rightarrow> nat \<Rightarrow> nat \<Rightarrow> int" where
  "test_number fl cs i j =
     (\<Sum>c \<leftarrow> take i cs. runnable_in fl c (test_info_list c)) + runnable_in fl (cs ! i) (take j (test_info_list (cs ! i)))"

definition chosen :: "Selection \<Rightarrow> int \<Rightarrow> bool" where
  "chosen s n \<longleftrightarrow> shard_tests s = IGNORE_SHARDING_PROTOCOL \<or> ShouldRunTestOnShard (total_shards s) (shard_index s) n"

lemma filter_one_runs:
  "filter_one s cn n t = (t1, r, b) \<Longrightarrow>
    r = test_runnable (sel_flags s) cn t \<and> b = (r \<and> chosen s n) \<and> info_should_run t1 = b \<and> info_name t1 = info_name t \<and>
    test_factory t1 = test_factory t \<and> test_result t1 = test_result t \<and> fixture_class_id t1 = fixture_class_id t"
  by (auto simp: filter_one_def test_runnable_def chosen_def Let_def)

lemma filter_infos_runs:
  assumes "filter_infos s cn ts n m b = (ts', n', m', b')"
  shows "n' = n + CountIf ts (test_runnable (sel_flags s) cn) \<and> m' = m + CountIf ts' info_should_run \<and>
    (b' \<longleftrightarrow> b \<or> (\<exists>t \<in> set ts'. info_should_run t)) \<and> length ts' = length ts \<and>
    (\<forall>j < length ts. info_should_run (ts' ! j) \<longleftrightarrow>
      test_runnable (sel_flags s) cn (ts ! j) \<and> chosen s (n + CountIf (take j ts) (test_runnable (sel_flags s) cn)))"
  using assms
proof (induction ts arbitrary: n m b ts')
  case Nil
  then show ?case by simp
next
  case (Cons t ts)
  obtain t1 r sel where one: "filter_one s cn n t = (t1, r, sel)" by (metis prod_cases3)
  obtain ts1 where ts1: "filter_infos s cn ts (n + of_bool r) (m + of_bool sel) (b \<or> sel) = (ts1, n', m', b')" "ts' = t1 # ts1"
    using Cons.prems by (auto simp: one split: prod.splits)
  note IH = Cons.IH [OF ts1(1)]
  note one' = filter_one_runs [OF one]
  have "info_should_run (ts' ! j) \<longleftrightarrow> test_runnable (sel_flags s) cn ((t # ts) ! j) \<and>
      chosen s (n + CountIf (take j (t # ts)) (test_runnable (sel_flags s) cn))" if "j < length (t # ts)" for j
  proof (cases j)
    case 0
    then show ?thesis using one' ts1(2) by auto
  next
    case (Suc k)
    then show ?thesis using IH one' ts1(2) that by (auto simp: ac_simps)
  qed
  then show ?case using IH one' ts1(2) by (auto simp: ac_simps)
qed

lemma filter_cases_runs:
  assumes "filter_cases s cs n m = (cs', n', m')"
  shows "m' = m + (\<Sum>c \<leftarrow> cs'. case_test_to_run_count c) \<and> length cs' = length cs \<and>
    (\<forall>i < length cs. length (test_info_list (cs' ! i)) = length (test_info_list (cs ! i)) \<and>
      (case_should_run (cs' ! i) \<longleftrightarrow> (\<exists>t \<in> set (test_info_list (cs' ! i)). info_should_run t)) \<and>
      (\<forall>j < length (test_info_list (cs ! i)). info_should_run (test_info_list (cs' ! i) ! j) \<longleftrightarrow>
        test_runnable (sel_flags s) (case_name (cs ! i)) (test_info_list (cs ! i) ! j) \<and>
        chosen s (n + test_number (sel_flags s) cs i j)))"
  using assms
proof (induction cs arbitrary: n m cs')
  case Nil
  then show ?case by simp
next
  case (Cons c cs)
  obtain ts n1 m1 b where ts: "filter_infos s (case_name c) (test_info_list c) n m False = (ts, n1, m1, b)" by (metis prod_cases4)
  obtain cs1 where cs1: "filter_cases s cs n1 m1 = (cs1, n', m')"
    and cs': "cs' = c\<lparr>test_info_list := ts, case_should_run := b\<rparr> # cs1"
    using Cons.prems by (auto simp: ts split: prod.splits)
  note IH = Cons.IH [OF cs1]
  note T = filter_infos_runs [OF ts]
  have n1: "n1 = n + runnable_in (sel_flags s) c (test_info_list c)" using T by (simp add: runnable_in_def)
  have num: "n1 + test_number (sel_flags s) cs i j = n + test_number (sel_flags s) (c # cs) (Suc i) j" for i j
    by (simp add: test_number_def n1)
  have m1: "m1 = m + case_test_to_run_count (c\<lparr>test_info_list := ts, case_should_run := b\<rparr>)"
    using T by (simp add: case_test_to_run_count_def ShouldRunTest_def [abs_def])
  have "length (test_info_list (cs' ! i)) = length (test_info_list ((c # cs) ! i)) \<and>
      (case_should_run (cs' ! i) \<longleftrightarrow> (\<exists>t \<in> set (test_info_list (cs' ! i)). info_should_run t)) \<and>
      (\<forall>j < length (test_info_list ((c # cs) ! i)). info_should_run (test_info_list (cs' ! i) ! j) \<longleftrightarrow>
        test_runnable (sel_flags s) (case_name ((c # cs) ! i)) (test_info_list ((c # cs) ! i) ! j) \<and>
        chosen s (n + test_number (sel_flags s) (c # cs) i j))" if "i < length (c # cs)" for i
  proof (cases i)
    case 0
    then show ?thesis using T by (simp add: cs' test_number_def runnable_in_def)
  next
    case (Suc k)
    then have k: "k < length cs" using that by simp
    show ?thesis using IH [THEN conjunct2, THEN conjunct2, rule_format, OF k] by (simp add: cs' Suc num)
  qed
  then show ?case using IH m1 by (simp add: cs')
qed

text \<open>The environment of one of \<open>n\<close> processes.\<close>

definition shard_env :: "int \<Rightarrow> int \<Rightarrow> environment" where
  "shard_env n i = [kTestTotalShards \<mapsto> decimal_int n, kTestShardIndex \<mapsto> decimal_int i]"

lemma shard_env_read:
  assumes "0 \<le> i" and "i < n" and "n < 2 ^ 31"
  shows "Int32FromEnvOrDie (shard_env n i) kTestTotalShards (- 1) = Inr n"
    and "Int32FromEnvOrDie (shard_env n i) kTestShardIndex (- 1) = Inr i"
proof -
  have ne: "kTestTotalShards \<noteq> kTestShardIndex" by (simp add: kTestTotalShards_def kTestShardIndex_def)
  have fst: "fst p = Some v \<Longrightarrow> \<exists>w. p = (Some v, w)" for p :: "int option \<times> bytes" and v by (cases p) simp
  obtain w where "ParseInt32 (lit ''The value of environment variable '' @ kTestTotalShards) (decimal_int n) = (Some n, w)"
    using fst [of "ParseInt32 (lit ''The value of environment variable '' @ kTestTotalShards) (decimal_int n)" n]
      ParseInt32_of_decimal assms by fastforce
  then show "Int32FromEnvOrDie (shard_env n i) kTestTotalShards (- 1) = Inr n"
    using ne by (simp add: Int32FromEnvOrDie_def shard_env_def del: lit_Cons)
  obtain w where "ParseInt32 (lit ''The value of environment variable '' @ kTestShardIndex) (decimal_int i) = (Some i, w)"
    using fst [of "ParseInt32 (lit ''The value of environment variable '' @ kTestShardIndex) (decimal_int i)" i]
      ParseInt32_of_decimal assms by fastforce
  then show "Int32FromEnvOrDie (shard_env n i) kTestShardIndex (- 1) = Inr i"
    by (simp add: Int32FromEnvOrDie_def shard_env_def del: lit_Cons)
qed

lemma CountIf_nonneg: "0 \<le> CountIf xs P"
  by (simp add: CountIf_filter)

lemma test_number_nonneg: "0 \<le> test_number fl cs i j"
  by (auto simp: test_number_def runnable_in_def CountIf_nonneg intro!: add_nonneg_nonneg sum_list_nonneg)

text \<open>
  C15: The shards divide the tests. When a program is started as \<open>n\<close> processes that know \<open>n\<close> and their
  own index, each of them filters without an error and answers the number of its tests. Every test that
  the filter and the disabling patterns let run is run by exactly one process, and no other test by any.
\<close>

theorem shards_partition:
  assumes "0 < n" and "n < 2 ^ 31"
  shows "\<exists>sel. (\<forall>k. 0 \<le> k \<and> k < n \<longrightarrow>
      FilterTests (shard_env n k) fl HONOR_SHARDING_PROTOCOL cs = Inr (\<Sum>c \<leftarrow> sel k. case_test_to_run_count c, sel k)) \<and>
    (\<forall>i < length cs. \<forall>j < length (test_info_list (cs ! i)).
      (\<exists>k. 0 \<le> k \<and> k < n \<and> info_should_run (test_info_list (sel k ! i) ! j)) =
        test_runnable fl (case_name (cs ! i)) (test_info_list (cs ! i) ! j) \<and>
      (\<forall>k k'. 0 \<le> k \<and> k < n \<and> info_should_run (test_info_list (sel k ! i) ! j) \<and>
        0 \<le> k' \<and> k' < n \<and> info_should_run (test_info_list (sel k' ! i) ! j) \<longrightarrow> k = k'))"
proof -
  define S where "S k = \<lparr>sel_flags = fl, shard_tests = HONOR_SHARDING_PROTOCOL, total_shards = n, shard_index = k\<rparr>" for k :: int
  define sel where "sel k = fst (filter_cases (S k) cs 0 0)" for k
  have split: "filter_cases (S k) cs 0 0 = (sel k, fst (snd (filter_cases (S k) cs 0 0)), snd (snd (filter_cases (S k) cs 0 0)))" for k
    by (simp add: sel_def)
  note R = filter_cases_runs [OF split]
  have filt: "FilterTests (shard_env n k) fl HONOR_SHARDING_PROTOCOL cs = Inr (\<Sum>c \<leftarrow> sel k. case_test_to_run_count c, sel k)"
    if "0 \<le> k" "k < n" for k
    using shard_env_read [OF that assms(2)] R [THEN conjunct1, of k]
    by (auto simp: FilterTests_def S_def [symmetric] sel_def split: prod.splits)
  have run: "info_should_run (test_info_list (sel k ! i) ! j) \<longleftrightarrow>
      test_runnable fl (case_name (cs ! i)) (test_info_list (cs ! i) ! j) \<and> test_number fl cs i j mod n = k"
    if "i < length cs" "j < length (test_info_list (cs ! i))" for i j k
    using R [of k] that smod_pos [OF test_number_nonneg assms(1), of fl cs i j]
    by (simp add: S_def chosen_def ShouldRunTestOnShard_def)
  show ?thesis
  proof (rule exI [of _ sel], intro conjI allI impI)
    fix k assume "0 \<le> k \<and> k < n"
    then show "FilterTests (shard_env n k) fl HONOR_SHARDING_PROTOCOL cs = Inr (\<Sum>c \<leftarrow> sel k. case_test_to_run_count c, sel k)"
      using filt by blast
  next
    fix i j assume ij: "i < length cs" "j < length (test_info_list (cs ! i))"
    have "0 \<le> test_number fl cs i j mod n" "test_number fl cs i j mod n < n" using assms(1) by simp_all
    then show "(\<exists>k. 0 \<le> k \<and> k < n \<and> info_should_run (test_info_list (sel k ! i) ! j)) =
        test_runnable fl (case_name (cs ! i)) (test_info_list (cs ! i) ! j)"
      using run [OF ij] by blast
  next
    fix i j k k' assume ij: "i < length cs" "j < length (test_info_list (cs ! i))"
      and "0 \<le> k \<and> k < n \<and> info_should_run (test_info_list (sel k ! i) ! j) \<and>
        0 \<le> k' \<and> k' < n \<and> info_should_run (test_info_list (sel k' ! i) ! j)"
    then show "k = k'" by (simp add: run [OF ij])
  qed
qed

theorem shards_partition_witness:
  "\<exists>sel. \<forall>k. 0 \<le> k \<and> k < 2 \<longrightarrow>
    FilterTests (shard_env 2 k) (fst (Flags_init (\<lambda>_. None))) HONOR_SHARDING_PROTOCOL [TestCase_new (lit ''Foo'') None 0 0] =
      Inr (\<Sum>c \<leftarrow> sel k. case_test_to_run_count c, sel k)"
  using shards_partition [of 2 "fst (Flags_init (\<lambda>_. None))" "[TestCase_new (lit ''Foo'') None 0 0]"] by (auto simp del: lit_Cons)

subsection \<open>Shuffling\<close>

lemma array_ops [simp]:
  "i < length xs \<Longrightarrow> array_at xs i = Inr (xs ! i)" "i < length xs \<Longrightarrow> array_put xs i x = Inr (xs[i := x])"
  by (simp_all add: array_at_def array_put_def)

lemma list_swap_ok:
  assumes "i < length v" and "j < length v"
  shows "list_swap v i j = Inr (v[i := v ! j, j := v ! i])"
  using assms by (simp add: list_swap_def rbind_def)

lemma Random_Generate_ok:
  assumes "0 < w" and "w \<le> 2 ^ 31"
  shows "\<exists>r st. Random_Generate state (of_nat w) = Inr (r, st) \<and> unat r < w"
proof -
  have u: "unat (of_nat w :: u32) = w" using assms by (simp add: unat_of_nat)
  have "(of_nat w :: u32) \<noteq> 0" using u assms(1) by (metis less_numeral_extra(3) unat_0)
  then have pos: "(0 :: u32) < of_nat w" by (simp add: word_neq_0_conv)
  have "of_nat w \<le> kMaxRange" using u assms(2) by (simp add: word_le_nat_alt kMaxRange_def)
  moreover have "unat (x mod of_nat w) < w" for x :: u32
    using assms(1) by (simp add: unat_mod_distrib u)
  ultimately show ?thesis using pos by (auto simp: Random_Generate_def Let_def)
qed

lemma shuffle_loop_permutes:
  assumes "b + w \<le> length v" and "w \<le> 2 ^ 31"
  shows "\<exists>v' st'. shuffle_loop b w v state = Inr (v', st') \<and> mset v' = mset v \<and>
    take b v' = take b v \<and> drop (b + w) v' = drop (b + w) v"
  using assms
proof (induction w arbitrary: v state)
  case 0
  then show ?case by (subst shuffle_loop.simps) simp
next
  case (Suc w)
  show ?case
  proof (cases "Suc w < 2")
    case True
    then show ?thesis by (subst shuffle_loop.simps) simp
  next
    case False
    obtain r st where r: "Random_Generate state (of_nat (Suc w)) = Inr (r, st)" "unat r < Suc w"
      using Random_Generate_ok [of "Suc w" state] Suc.prems(2) by auto
    let ?i = "b + unat r" and ?j = "b + w"
    define v1 where "v1 = v[?i := v ! ?j, ?j := v ! ?i]"
    have ij: "?i < length v" "?j < length v" using r(2) Suc.prems(1) by auto
    have m: "mset v1 = mset v" using mset_swap [OF ij(2,1)] by (simp add: v1_def)
    have keep: "take b v1 = take b v" "drop (b + Suc w) v1 = drop (b + Suc w) v" "length v1 = length v"
      using r(2) by (simp_all add: v1_def)
    obtain v' st' where v': "shuffle_loop b w v1 st = Inr (v', st')" "mset v' = mset v1" "take b v' = take b v1"
      "drop (b + w) v' = drop (b + w) v1"
      using Suc.IH [of v1 st] Suc.prems keep(3) by auto
    have "drop (b + Suc w) v' = drop 1 (drop (b + w) v')" by simp
    also have "\<dots> = drop (b + Suc w) v1" unfolding v'(4) by simp
    finally have d: "drop (b + Suc w) v' = drop (b + Suc w) v" using keep(2) by simp
    have "shuffle_loop b (Suc w) v state = Inr (v', st')"
      using False r v'(1) list_swap_ok [OF ij] by (subst shuffle_loop.simps) (simp add: rbind_def v1_def [symmetric])
    then show ?thesis using v'(2,3) m keep(1) d by auto
  qed
qed

text \<open>
  A shuffle of part of a vector with less than \<open>2\<^sup>31\<close> elements returns for every seed: it
  stays inside the vector, permutes the part and leaves the rest in place.
\<close>

theorem ShuffleRange_permutes:
  assumes "0 \<le> start" and "start \<le> until" and "until \<le> int (length v)" and "length v < 2 ^ 31"
  shows "\<exists>v' state'. ShuffleRange state start until v = Inr (v', state') \<and> mset v' = mset v \<and>
    take (nat start) v' = take (nat start) v \<and> drop (nat until) v' = drop (nat until) v"
proof -
  have "nat start + nat (until - start) \<le> length v" "nat (until - start) \<le> 2 ^ 31" "nat start + nat (until - start) = nat until"
    using assms by auto
  then show ?thesis using shuffle_loop_permutes [of "nat start" "nat (until - start)" v state] assms
    by (auto simp: ShuffleRange_def int_of_size_eq)
qed

theorem ShuffleRange_permutes_witness:
  "\<exists>v' state'. ShuffleRange 7 1 3 [10, 20, 30, 40 :: int] = Inr (v', state') \<and> mset v' = {#10, 20, 30, 40#} \<and> take 1 v' = [10]"
  using ShuffleRange_permutes [of 1 3 "[10, 20, 30, 40 :: int]" 7] by auto

lemma Shuffle_permutes:
  assumes "length v < 2 ^ 31"
  shows "\<exists>v' state'. Shuffle state v = Inr (v', state') \<and> mset v' = mset v"
  using shuffle_loop_permutes [of 0 "length v" v state] assms by (auto simp: Shuffle_def ShuffleRange_def int_of_size_eq)

text \<open>Seeds stay between 1 and 99999.\<close>

definition valid_seed :: "int \<Rightarrow> bool" where "valid_seed seed \<longleftrightarrow> 1 \<le> seed \<and> seed \<le> kMaxRandomSeed"

lemma GetRandomSeedFromFlag_valid: "valid_seed (GetRandomSeedFromFlag now seed_flag)"
proof -
  have "uint (x mod word_of_int 99999 :: u32) = uint x mod 99999" for x :: u32
    by (simp add: uint_mod_distrib)
  then show ?thesis by (simp add: valid_seed_def GetRandomSeedFromFlag_def kMaxRandomSeed_def Let_def)
qed

lemma GetNextRandomSeed_valid: "valid_seed seed \<Longrightarrow> \<exists>seed'. GetNextRandomSeed seed = Inr seed' \<and> valid_seed seed'"
  by (auto simp: valid_seed_def GetNextRandomSeed_def kMaxRandomSeed_def Let_def)

end
