(* ===== verification/Gtest_Unit.thy ===== *)
theory Gtest_Unit
  imports Gtest_Select
begin

text \<open>
  The unit test object (src/libs/googletest/src/gtest.cc, class \<open>UnitTestImpl\<close> of
  src/libs/googletest/src/gtest-internal-inl.h): the registered test cases, the listeners, the
  reporting of assertion results and properties, traces, and the preparation after the flags are
  known. Test cases and tests are named by their positions, listeners and environments by numbers. A
  listener only observes: what it is told is recorded. The lemmas give the invariant of
  registration, with the death test cases in front.
\<close>

section \<open>Definitions\<close>

subsection \<open>Listeners\<close>

datatype listener_event =
    OnTestProgramStart | OnTestIterationStart int | OnEnvironmentsSetUpStart | OnEnvironmentsSetUpEnd
  | OnTestCaseStart nat | OnTestStart "nat \<times> nat" | OnTestPartResult TestPartResult | OnTestEnd "nat \<times> nat" | OnTestCaseEnd nat
  | OnEnvironmentsTearDownStart | OnEnvironmentsTearDownEnd | OnTestIterationEnd int | OnTestProgramEnd

record TestEventRepeater =
  forwarding_enabled :: bool
  listeners :: "nat list"

text \<open>What the repeater sends: events of a start to the first listener first, events of an end to the last one first.\<close>

definition forward :: "TestEventRepeater \<Rightarrow> listener_event \<Rightarrow> (nat \<times> listener_event) list" where
  "forward r e = (if forwarding_enabled r then map (\<lambda>l. (l, e)) (listeners r) else [])"

definition forward_reverse :: "TestEventRepeater \<Rightarrow> listener_event \<Rightarrow> (nat \<times> listener_event) list" where
  "forward_reverse r e = (if forwarding_enabled r then map (\<lambda>l. (l, e)) (rev (listeners r)) else [])"

definition repeat_event :: "TestEventRepeater \<Rightarrow> listener_event \<Rightarrow> (nat \<times> listener_event) list" where
  "repeat_event r e =
     (case e of
        OnTestProgramStart \<Rightarrow> forward r e
      | OnEnvironmentsSetUpStart \<Rightarrow> forward r e
      | OnTestCaseStart _ \<Rightarrow> forward r e
      | OnTestStart _ \<Rightarrow> forward r e
      | OnTestPartResult _ \<Rightarrow> forward r e
      | OnEnvironmentsTearDownStart \<Rightarrow> forward r e
      | OnEnvironmentsSetUpEnd \<Rightarrow> forward_reverse r e
      | OnEnvironmentsTearDownEnd \<Rightarrow> forward_reverse r e
      | OnTestEnd _ \<Rightarrow> forward_reverse r e
      | OnTestCaseEnd _ \<Rightarrow> forward_reverse r e
      | OnTestProgramEnd \<Rightarrow> forward_reverse r e
      | OnTestIterationStart _ \<Rightarrow> forward r e
      | OnTestIterationEnd _ \<Rightarrow> forward_reverse r e)"

definition Repeater_Append :: "nat \<Rightarrow> TestEventRepeater \<Rightarrow> TestEventRepeater" where
  "Repeater_Append listener r = r\<lparr>listeners := listeners r @ [listener]\<rparr>"

text \<open>NULL is not in the list; the loop erases the first occurrence.\<close>

fun release_loop :: "nat option \<Rightarrow> nat list \<Rightarrow> nat option \<times> nat list" where
  "release_loop listener [] = (None, [])"
| "release_loop listener (l # ls) =
     (if listener = Some l then (listener, ls) else case release_loop listener ls of (r, ls1) \<Rightarrow> (r, l # ls1))"

definition Repeater_Release :: "nat option \<Rightarrow> TestEventRepeater \<Rightarrow> nat option \<times> TestEventRepeater" where
  "Repeater_Release listener r = (case release_loop listener (listeners r) of (res, ls) \<Rightarrow> (res, r\<lparr>listeners := ls\<rparr>))"

text \<open>\<open>deleted\<close> records the listeners that were deleted.\<close>

record TestEventListeners =
  repeater :: TestEventRepeater
  default_result_printer :: "nat option"
  default_xml_generator :: "nat option"
  deleted :: "nat list"

definition TestEventListeners_new :: TestEventListeners where
  "TestEventListeners_new =
     \<lparr>repeater = \<lparr>forwarding_enabled = True, listeners = []\<rparr>, default_result_printer = None, default_xml_generator = None,
      deleted = []\<rparr>"

definition Listeners_Append :: "nat \<Rightarrow> TestEventListeners \<Rightarrow> TestEventListeners" where
  "Listeners_Append listener ls = ls\<lparr>repeater := Repeater_Append listener (repeater ls)\<rparr>"

definition Listeners_Release :: "nat option \<Rightarrow> TestEventListeners \<Rightarrow> nat option \<times> TestEventListeners" where
  "Listeners_Release listener ls =
     (let ls1 = (if listener = default_result_printer ls then ls\<lparr>default_result_printer := None\<rparr>
                 else if listener = default_xml_generator ls then ls\<lparr>default_xml_generator := None\<rparr>
                 else ls)
      in case Repeater_Release listener (repeater ls1) of (res, r) \<Rightarrow> (res, ls1\<lparr>repeater := r\<rparr>))"

definition delete_listener :: "nat option \<times> TestEventListeners \<Rightarrow> TestEventListeners" where
  "delete_listener p = (case p of (None, ls) \<Rightarrow> ls | (Some l, ls) \<Rightarrow> ls\<lparr>deleted := deleted ls @ [l]\<rparr>)"

definition SetDefaultResultPrinter :: "nat option \<Rightarrow> TestEventListeners \<Rightarrow> TestEventListeners" where
  "SetDefaultResultPrinter listener ls =
     (if default_result_printer ls \<noteq> listener then
        let ls1 = (delete_listener (Listeners_Release (default_result_printer ls) ls))\<lparr>default_result_printer := listener\<rparr>
        in (case listener of None \<Rightarrow> ls1 | Some l \<Rightarrow> Listeners_Append l ls1)
      else ls)"

definition SetDefaultXmlGenerator :: "nat option \<Rightarrow> TestEventListeners \<Rightarrow> TestEventListeners" where
  "SetDefaultXmlGenerator listener ls =
     (if default_xml_generator ls \<noteq> listener then
        let ls1 = (delete_listener (Listeners_Release (default_xml_generator ls) ls))\<lparr>default_xml_generator := listener\<rparr>
        in (case listener of None \<Rightarrow> ls1 | Some l \<Rightarrow> Listeners_Append l ls1)
      else ls)"

definition EventForwardingEnabled :: "TestEventListeners \<Rightarrow> bool" where
  "EventForwardingEnabled ls = forwarding_enabled (repeater ls)"

definition SuppressEventForwarding :: "TestEventListeners \<Rightarrow> TestEventListeners" where
  "SuppressEventForwarding ls = ls\<lparr>repeater := (repeater ls)\<lparr>forwarding_enabled := False\<rparr>\<rparr>"

subsection \<open>The unit test object\<close>

record TraceInfo =
  trace_file :: bytes
  trace_line :: int
  trace_message :: bytes

record InternalRunDeathTestFlag =
  death_file :: bytes
  death_line :: int
  death_index :: int
  death_write_fd :: int

text \<open>
  \<open>options\<close> holds the flags and what was printed; \<open>ticks\<close> counts the readings of the clock;
  \<open>notified\<close> is what the listeners were told, in order.
\<close>

record UnitTest =
  options :: Options
  g_argvs :: "bytes list"
  original_working_dir :: FilePath
  environments :: "nat list"
  test_cases :: "TestCase list"
  test_case_indices :: "int list"
  parameterized_tests_registered :: bool
  last_death_test_case :: int
  current_test_case :: "nat option"
  current_test_info :: "(nat \<times> nat) option"
  ad_hoc_test_result :: TestResult
  event_listeners :: TestEventListeners
  next_listener :: nat
  post_flag_parse_init_performed :: bool
  random_seed :: int
  random_state :: u32
  start_timestamp :: int
  unit_elapsed_time :: int
  internal_run_death_test_flag :: "InternalRunDeathTestFlag option"
  gtest_trace_stack :: "TraceInfo list"
  catching_exceptions :: bool
  ticks :: nat
  notified :: "(nat \<times> listener_event) list"

definition gtest_flags :: "UnitTest \<Rightarrow> Flags" where "gtest_flags s = cmd_flags (options s)"

definition set_flags :: "Flags \<Rightarrow> UnitTest \<Rightarrow> UnitTest" where
  "set_flags fl s = s\<lparr>options := (options s)\<lparr>cmd_flags := fl\<rparr>\<rparr>"

definition print_out :: "bytes \<Rightarrow> UnitTest \<Rightarrow> UnitTest" where
  "print_out text_out s = s\<lparr>options := (options s)\<lparr>printed := printed (options s) @ text_out\<rparr>\<rparr>"

text \<open>The listener with number 0 is the pretty printer.\<close>

definition UnitTestImpl_new :: "Flags \<Rightarrow> UnitTest" where
  "UnitTestImpl_new fl =
     \<lparr>options = \<lparr>cmd_flags = fl, g_help_flag = False, printed = [], in_color_mode = None\<rparr>, g_argvs = [],
      original_working_dir = FilePath_default, environments = [], test_cases = [], test_case_indices = [],
      parameterized_tests_registered = False, last_death_test_case = - 1, current_test_case = None, current_test_info = None,
      ad_hoc_test_result = TestResult_new, event_listeners = SetDefaultResultPrinter (Some 0) TestEventListeners_new,
      next_listener = 1, post_flag_parse_init_performed = False, random_seed = 0, random_state = 0, start_timestamp = 0,
      unit_elapsed_time = 0, internal_run_death_test_flag = None, gtest_trace_stack = [], catching_exceptions = False, ticks = 0,
      notified = []\<rparr>"

definition notify :: "listener_event \<Rightarrow> UnitTest \<Rightarrow> UnitTest" where
  "notify e s = s\<lparr>notified := notified s @ repeat_event (repeater (event_listeners s)) e\<rparr>"

subsection \<open>Registration\<close>

definition AddEnvironment :: "nat option \<Rightarrow> UnitTest \<Rightarrow> nat option \<times> UnitTest" where
  "AddEnvironment env s = (case env of None \<Rightarrow> (None, s) | Some e \<Rightarrow> (env, s\<lparr>environments := environments s @ [e]\<rparr>))"

text \<open>The position of the test case with a name.\<close>

fun find_case :: "bytes \<Rightarrow> TestCase list \<Rightarrow> nat option" where
  "find_case test_case_name [] = None"
| "find_case test_case_name (c # cs) =
     (if case_name c = test_case_name then Some 0 else map_option Suc (find_case test_case_name cs))"

definition insert_at :: "nat \<Rightarrow> 'x \<Rightarrow> 'x list \<Rightarrow> 'x list" where
  "insert_at i x xs = take i xs @ x # drop i xs"

definition GetTestCase :: "bytes \<Rightarrow> bytes option \<Rightarrow> nat \<Rightarrow> nat \<Rightarrow> UnitTest \<Rightarrow> nat \<times> UnitTest" where
  "GetTestCase test_case_name type_param a_set_up a_tear_down s =
     (case find_case test_case_name (test_cases s) of
        Some i \<Rightarrow> (i, s)
      | None \<Rightarrow>
          let new_test_case = TestCase_new test_case_name type_param a_set_up a_tear_down;
              (i, s1) =
                (if MatchesFilter test_case_name kDeathTestCaseFilter then
                   let last = last_death_test_case s + 1
                   in (nat last, s\<lparr>last_death_test_case := last, test_cases := insert_at (nat last) new_test_case (test_cases s)\<rparr>)
                 else (length (test_cases s), s\<lparr>test_cases := test_cases s @ [new_test_case]\<rparr>))
          in (i, s1\<lparr>test_case_indices := test_case_indices s1 @ [int (length (test_case_indices s1))]\<rparr>))"

text \<open>\<open>cwd\<close> is the answer of \<open>getcwd\<close>.\<close>

definition UnitTest_AddTestInfo :: "bytes option \<Rightarrow> nat \<Rightarrow> nat \<Rightarrow> TestInfo \<Rightarrow> UnitTest \<Rightarrow> UnitTest res" where
  "UnitTest_AddTestInfo cwd a_set_up a_tear_down test_info s =
     (let s1 = (if IsEmpty (original_working_dir s)
                then s\<lparr>original_working_dir := FilePath_Set (original_working_dir s) (GetCurrentDir cwd)\<rparr> else s)
      in if IsEmpty (original_working_dir s1) then Inl Aborted
         else case GetTestCase (info_case_name test_info) (info_type_param test_info) a_set_up a_tear_down s1 of
                (i, s2) \<Rightarrow> Inr (s2\<lparr>test_cases := (test_cases s2)[i := TestCase_AddTestInfo test_info (test_cases s2 ! i)]\<rparr>))"

record Registration =
  reg_case_name :: bytes
  reg_name :: bytes
  reg_type_param :: "bytes option"
  reg_value_param :: "bytes option"
  reg_location :: "bytes \<times> int"
  reg_fixture :: nat
  reg_set_up :: nat
  reg_tear_down :: nat
  reg_factory :: nat

definition MakeAndRegisterTestInfo :: "bytes option \<Rightarrow> Registration \<Rightarrow> UnitTest \<Rightarrow> UnitTest res" where
  "MakeAndRegisterTestInfo cwd r s =
     UnitTest_AddTestInfo cwd (reg_set_up r) (reg_tear_down r)
       (TestInfo_new (reg_case_name r) (reg_name r) (reg_type_param r) (reg_value_param r) (reg_location r) (reg_fixture r)
          (reg_factory r)) s"

text \<open>
  The \<open>i\<close>-th test case as the listeners see it, and as the runner sees it. The first looks at the
  order with \<open>i\<close> itself.
\<close>

definition GetTestCase_const :: "UnitTest \<Rightarrow> int \<Rightarrow> nat option" where
  "GetTestCase_const s i =
     (let index = GetElementOr (test_case_indices s) i (- 1) in if index < 0 then None else Some (nat i))"

definition GetMutableTestCase :: "UnitTest \<Rightarrow> int \<Rightarrow> nat option" where
  "GetMutableTestCase s i =
     (let index = GetElementOr (test_case_indices s) i (- 1) in if index < 0 then None else Some (nat index))"

subsection \<open>Counts\<close>

definition SumOverTestCaseList :: "TestCase list \<Rightarrow> (TestCase \<Rightarrow> int) \<Rightarrow> int" where
  "SumOverTestCaseList cases method = fold (\<lambda>c n. n + method c) cases 0"

definition TestCasePassed :: "TestCase \<Rightarrow> bool" where "TestCasePassed c \<longleftrightarrow> case_should_run c \<and> \<not> case_Failed c"
definition TestCaseFailed :: "TestCase \<Rightarrow> bool" where "TestCaseFailed c \<longleftrightarrow> case_should_run c \<and> case_Failed c"

definition successful_test_case_count :: "UnitTest \<Rightarrow> int" where "successful_test_case_count s = CountIf (test_cases s) TestCasePassed"
definition failed_test_case_count :: "UnitTest \<Rightarrow> int" where "failed_test_case_count s = CountIf (test_cases s) TestCaseFailed"
definition total_test_case_count :: "UnitTest \<Rightarrow> int" where "total_test_case_count s = int (length (test_cases s))"
definition test_case_to_run_count :: "UnitTest \<Rightarrow> int" where "test_case_to_run_count s = CountIf (test_cases s) case_should_run"
definition successful_test_count :: "UnitTest \<Rightarrow> int" where "successful_test_count s = SumOverTestCaseList (test_cases s) case_successful_test_count"
definition failed_test_count :: "UnitTest \<Rightarrow> int" where "failed_test_count s = SumOverTestCaseList (test_cases s) case_failed_test_count"
definition reportable_disabled_test_count :: "UnitTest \<Rightarrow> int" where
  "reportable_disabled_test_count s = SumOverTestCaseList (test_cases s) case_reportable_disabled_test_count"
definition disabled_test_count :: "UnitTest \<Rightarrow> int" where "disabled_test_count s = SumOverTestCaseList (test_cases s) case_disabled_test_count"
definition reportable_test_count :: "UnitTest \<Rightarrow> int" where "reportable_test_count s = SumOverTestCaseList (test_cases s) case_reportable_test_count"
definition total_test_count :: "UnitTest \<Rightarrow> int" where "total_test_count s = SumOverTestCaseList (test_cases s) case_total_test_count"
definition test_to_run_count :: "UnitTest \<Rightarrow> int" where "test_to_run_count s = SumOverTestCaseList (test_cases s) case_test_to_run_count"

definition UnitTest_Failed :: "UnitTest \<Rightarrow> bool" where
  "UnitTest_Failed s \<longleftrightarrow> failed_test_case_count s > 0 \<or> failed (ad_hoc_test_result s)"

subsection \<open>Order\<close>

fun shuffle_cases :: "u32 \<Rightarrow> TestCase list \<Rightarrow> (TestCase list \<times> u32) res" where
  "shuffle_cases state [] = Inr ([], state)"
| "shuffle_cases state (c # cs) =
     rbind (TestCase_ShuffleTests state c) (\<lambda>(c1, state1).
     rbind (shuffle_cases state1 cs) (\<lambda>(cs1, state2). Inr (c1 # cs1, state2)))"

definition ShuffleTests :: "UnitTest \<Rightarrow> UnitTest res" where
  "ShuffleTests s =
     rbind (ShuffleRange (random_state s) 0 (last_death_test_case s + 1) (test_case_indices s)) (\<lambda>(v1, r1).
     rbind (ShuffleRange r1 (last_death_test_case s + 1) (int_of_size (length (test_cases s))) v1) (\<lambda>(v2, r2).
     rbind (shuffle_cases r2 (test_cases s)) (\<lambda>(cs, r3).
       Inr (s\<lparr>test_case_indices := v2, test_cases := cs, random_state := r3\<rparr>))))"

text \<open>The indices are overwritten one by one while the test cases are visited.\<close>

definition UnshuffleTests :: "UnitTest \<Rightarrow> UnitTest" where
  "UnshuffleTests s =
     s\<lparr>test_cases := map TestCase_UnshuffleTests (test_cases s),
       test_case_indices := fold (\<lambda>i v. v[i := int i]) [0..<length (test_cases s)] (test_case_indices s)\<rparr>"

definition ClearNonAdHocTestResult :: "UnitTest \<Rightarrow> UnitTest" where
  "ClearNonAdHocTestResult s = s\<lparr>test_cases := map ClearResult (test_cases s)\<rparr>"

definition ClearAdHocTestResult :: "UnitTest \<Rightarrow> UnitTest" where
  "ClearAdHocTestResult s = s\<lparr>ad_hoc_test_result := TestResult_Clear (ad_hoc_test_result s)\<rparr>"

subsection \<open>Reports\<close>

text \<open>
  C++ exceptions, and how a function ends: normally, by an exception, or by the end of the process.
\<close>

datatype exc = Std_exception bytes | Other_exception | GoogleTestFailureException TestPartResult

datatype 'a completion = Normal 'a | Throws exc | Stops stop

type_synonym 'a action = "UnitTest \<Rightarrow> 'a completion \<times> UnitTest"

definition ubind :: "'a action \<Rightarrow> ('a \<Rightarrow> 'b action) \<Rightarrow> 'b action" where
  "ubind m f s =
     (case m s of (Normal x, s1) \<Rightarrow> f x s1 | (Throws e, s1) \<Rightarrow> (Throws e, s1) | (Stops e, s1) \<Rightarrow> (Stops e, s1))"

definition ureturn :: "'a \<Rightarrow> 'a action" where "ureturn x s = (Normal x, s)"
definition uchange :: "(UnitTest \<Rightarrow> UnitTest) \<Rightarrow> unit action" where "uchange f s = (Normal (), f s)"
definition uread :: "(UnitTest \<Rightarrow> 'a) \<Rightarrow> 'a action" where "uread f s = (Normal (f s), s)"
definition uskip :: "unit action" where "uskip = ureturn ()"

definition current_test_result :: "UnitTest \<Rightarrow> TestResult" where
  "current_test_result s =
     (case current_test_info s of
        Some (i, j) \<Rightarrow> test_result (test_info_list (test_cases s ! i) ! j)
      | None \<Rightarrow> ad_hoc_test_result s)"

definition change_info :: "nat \<times> nat \<Rightarrow> (TestInfo \<Rightarrow> TestInfo) \<Rightarrow> UnitTest \<Rightarrow> UnitTest" where
  "change_info p f s =
     (case p of (i, j) \<Rightarrow>
        let c = test_cases s ! i
        in s\<lparr>test_cases := (test_cases s)[i := c\<lparr>test_info_list := (test_info_list c)[j := f (test_info_list c ! j)]\<rparr>]\<rparr>)"

definition change_case :: "nat \<Rightarrow> (TestCase \<Rightarrow> TestCase) \<Rightarrow> UnitTest \<Rightarrow> UnitTest" where
  "change_case i f s = s\<lparr>test_cases := (test_cases s)[i := f (test_cases s ! i)]\<rparr>"

definition change_current_result :: "(TestResult \<Rightarrow> TestResult) \<Rightarrow> UnitTest \<Rightarrow> UnitTest" where
  "change_current_result f s =
     (case current_test_info s of
        Some p \<Rightarrow> change_info p (\<lambda>t. t\<lparr>test_result := f (test_result t)\<rparr>) s
      | None \<Rightarrow> s\<lparr>ad_hoc_test_result := f (ad_hoc_test_result s)\<rparr>)"

text \<open>The default reporter of a thread passes a result on to the default global one.\<close>

definition ReportTestPartResult :: "TestPartResult \<Rightarrow> UnitTest \<Rightarrow> UnitTest" where
  "ReportTestPartResult result s =
     notify (OnTestPartResult result) (change_current_result (TestResult_AddTestPartResult result) s)"

fun trace_lines :: "TraceInfo list \<Rightarrow> bytes" where
  "trace_lines [] = []"
| "trace_lines (t # ts) =
     newline @ FormatFileLocation (Some (trace_file t)) (trace_line t) @ lit '' '' @ trace_message t @ trace_lines ts"

text \<open>A failure under \<open>break_on_failure\<close> writes through a NULL pointer.\<close>

definition UnitTest_AddTestPartResult :: "TestPartResultType \<Rightarrow> bytes option \<Rightarrow> int \<Rightarrow> bytes \<Rightarrow> bytes \<Rightarrow> unit action" where
  "UnitTest_AddTestPartResult result_type file line message os_stack_trace s =
     (let msg = message @
            (if gtest_trace_stack s \<noteq> []
             then newline @ lit ''Google Test trace:'' @ trace_lines (rev (gtest_trace_stack s)) else []) @
            (if os_stack_trace \<noteq> [] then kStackTraceMarker @ os_stack_trace else []);
          result = TestPartResult_new result_type file line msg;
          s1 = ReportTestPartResult result s
      in if result_type \<noteq> kSuccess then
           if break_on_failure (gtest_flags s1) then (Stops (Fault Null_pointer), s1)
           else if throw_on_failure (gtest_flags s1) then (Throws (GoogleTestFailureException result), s1)
           else (Normal (), s1)
         else (Normal (), s1))"

definition AssertHelper_assign :: "TestPartResultType \<Rightarrow> bytes option \<Rightarrow> int \<Rightarrow> bytes \<Rightarrow> bytes \<Rightarrow> unit action" where
  "AssertHelper_assign a_type file line message user_message =
     UnitTest_AddTestPartResult a_type file line (AppendUserMessage message user_message) CurrentStackTrace"

definition ReportFailureInUnknownLocation :: "TestPartResultType \<Rightarrow> bytes \<Rightarrow> unit action" where
  "ReportFailureInUnknownLocation result_type message = UnitTest_AddTestPartResult result_type None (- 1) message []"

text \<open>\<open>here\<close> is the file and the line of an \<open>ADD_FAILURE()\<close> in the library.\<close>

definition ADD_FAILURE :: "bytes \<times> int \<Rightarrow> bytes \<Rightarrow> unit action" where
  "ADD_FAILURE here message = AssertHelper_assign kNonFatalFailure (Some (fst here)) (snd here) (lit ''Failed'') message"

text \<open>The result that a property goes to, by the element of the report.\<close>

definition UnitTest_RecordProperty :: "bytes \<times> int \<Rightarrow> TestProperty \<Rightarrow> unit action" where
  "UnitTest_RecordProperty here test_property s =
     (let (xml_element, r, put) =
        (case current_test_info s of
           Some p \<Rightarrow>
             (lit ''testcase'', current_test_result s, (\<lambda>r1. change_info p (\<lambda>t. t\<lparr>test_result := r1\<rparr>) s))
         | None \<Rightarrow>
             (case current_test_case s of
                Some i \<Rightarrow>
                  (lit ''testsuite'', case_ad_hoc_test_result (test_cases s ! i),
                   (\<lambda>r1. change_case i (\<lambda>c. c\<lparr>case_ad_hoc_test_result := r1\<rparr>) s))
              | None \<Rightarrow> (lit ''testsuites'', ad_hoc_test_result s, (\<lambda>r1. s\<lparr>ad_hoc_test_result := r1\<rparr>))))
      in case TestResult_RecordProperty xml_element test_property r of
           Inl e \<Rightarrow> (Stops (Fault e), s)
         | Inr (Inl message) \<Rightarrow> ADD_FAILURE here message s
         | Inr (Inr r1) \<Rightarrow> (Normal (), put r1))"

definition PushGTestTrace :: "TraceInfo \<Rightarrow> UnitTest \<Rightarrow> UnitTest" where
  "PushGTestTrace t s = s\<lparr>gtest_trace_stack := gtest_trace_stack s @ [t]\<rparr>"

definition PopGTestTrace :: "unit action" where
  "PopGTestTrace s =
     (if gtest_trace_stack s = [] then (Stops (Fault Out_of_bounds), s)
      else (Normal (), s\<lparr>gtest_trace_stack := butlast (gtest_trace_stack s)\<rparr>))"

subsection \<open>Preparation after the flags are known\<close>

text \<open>The system: besides what the flag parser uses, \<open>stat\<close>, which files can be created, and the clock.\<close>

record System = Host +
  stat_of :: "bytes \<Rightarrow> bool option"
  creatable :: "bytes \<Rightarrow> bool"
  clock :: "nat \<Rightarrow> int"

text \<open>\<open>strtoull\<close> with its range error, and the two conversions to \<open>int\<close> and back.\<close>

definition ParseNaturalNumber :: "bytes \<Rightarrow> int option" where
  "ParseNaturalNumber str =
     (if str = [] \<or> \<not> IsDigit (hd str) then None
      else
        let ds = takeWhile is_digit str; parsed = digits_value ds; parse_success = (drop (length ds) str = [] \<and> parsed < 2 ^ 64);
            result = sint (of_nat parsed :: 32 word)
        in if parse_success \<and> (word_of_int result :: 64 word) = of_nat parsed then Some result else None)"

text \<open>124 is the bar. A bad flag aborts the process.\<close>

definition ParseInternalRunDeathTestFlag :: "Flags \<Rightarrow> InternalRunDeathTestFlag option run" where
  "ParseInternalRunDeathTestFlag fl =
     (if internal_run_death_test fl = [] then Inr None
      else case SplitString 124 (internal_run_death_test fl) of
             [f0, f1, f2, f3] \<Rightarrow>
               (case (ParseNaturalNumber f1, ParseNaturalNumber f2, ParseNaturalNumber f3) of
                  (Some line, Some index, Some write_fd) \<Rightarrow>
                    Inr (Some \<lparr>death_file = f0, death_line = line, death_index = index, death_write_fd = write_fd\<rparr>)
                | _ \<Rightarrow> Inl (Fault Aborted))
           | _ \<Rightarrow> Inl (Fault Aborted))"

definition InitDeathTestSubprocessControlInfo :: "UnitTest \<Rightarrow> UnitTest run" where
  "InitDeathTestSubprocessControlInfo s =
     run_bind (ParseInternalRunDeathTestFlag (gtest_flags s)) (\<lambda>f. Inr (s\<lparr>internal_run_death_test_flag := f\<rparr>))"

definition SuppressTestEventsIfInSubprocess :: "UnitTest \<Rightarrow> UnitTest" where
  "SuppressTestEventsIfInSubprocess s =
     (if internal_run_death_test_flag s \<noteq> None then s\<lparr>event_listeners := SuppressEventForwarding (event_listeners s)\<rparr> else s)"

text \<open>The registry of value-parameterized tests is empty here: nothing is registered.\<close>

definition RegisterParameterizedTests :: "UnitTest \<Rightarrow> UnitTest" where
  "RegisterParameterizedTests s =
     (if \<not> parameterized_tests_registered s then s\<lparr>parameterized_tests_registered := True\<rparr> else s)"

definition XmlUnitTestResultPrinter_new :: "bytes \<Rightarrow> bytes run" where
  "XmlUnitTestResultPrinter_new output_file =
     (if output_file = [] then Inl (Exit_failure (lit ''XML output file may not be null'' @ newline)) else Inr output_file)"

text \<open>None: the search for a free file name does not end.\<close>

definition ConfigureXmlOutput :: "('z) System_scheme \<Rightarrow> UnitTest \<Rightarrow> UnitTest run option" where
  "ConfigureXmlOutput sys s =
     (let output_format = GetOutputFormat (gtest_flags s)
      in if output_format = lit ''xml'' then
           map_option
             (\<lambda>r. run_bind (checked r) (\<lambda>(path, _). run_bind (XmlUnitTestResultPrinter_new path) (\<lambda>_.
                Inr (s\<lparr>event_listeners := SetDefaultXmlGenerator (Some (next_listener s)) (event_listeners s),
                       next_listener := next_listener s + 1\<rparr>))))
             (GetAbsolutePathToOutputFile (\<lambda>path w. (stat_of sys path, w)) (gtest_flags s) (g_argvs s)
                (original_working_dir s) ())
         else if output_format \<noteq> [] then
           Some (Inr (print_out (lit ''WARNING: unrecognized output format '' @ [34] @ output_format @ [34] @ lit '' ignored.'' @ newline) s))
         else Some (Inr s))"

text \<open>58 is the colon. The listener that streams is only numbered.\<close>

definition ConfigureStreamingOutput :: "UnitTest \<Rightarrow> UnitTest" where
  "ConfigureStreamingOutput s =
     (let target = stream_result_to (gtest_flags s)
      in if target \<noteq> [] then
           if 58 \<in> set target then
             s\<lparr>event_listeners := Listeners_Append (next_listener s) (event_listeners s), next_listener := next_listener s + 1\<rparr>
           else print_out (lit ''WARNING: unrecognized streaming target '' @ [34] @ target @ [34] @ lit '' ignored.'' @ newline) s
         else s)"

definition PostFlagParsingInit :: "('z) System_scheme \<Rightarrow> UnitTest \<Rightarrow> UnitTest run option" where
  "PostFlagParsingInit sys s =
     (if \<not> post_flag_parse_init_performed s then
        case InitDeathTestSubprocessControlInfo (s\<lparr>post_flag_parse_init_performed := True\<rparr>) of
          Inl e \<Rightarrow> Some (Inl e)
        | Inr s1 \<Rightarrow>
            map_option (\<lambda>r. run_bind r (\<lambda>s2. Inr (ConfigureStreamingOutput s2)))
              (ConfigureXmlOutput sys (RegisterParameterizedTests (SuppressTestEventsIfInSubprocess s1)))
      else Some (Inr s))"

definition GTestIsInitialized :: "UnitTest \<Rightarrow> bool" where "GTestIsInitialized s \<longleftrightarrow> length (g_argvs s) > 0"

definition InitGoogleTestImpl ::
  "('z) System_scheme \<Rightarrow> nat \<Rightarrow> bytes option list \<Rightarrow> UnitTest \<Rightarrow> (nat \<times> bytes option list \<times> UnitTest) run option" where
  "InitGoogleTestImpl sys argc argv s =
     (if GTestIsInitialized s then Some (Inr (argc, argv, s))
      else if argc = 0 then Some (Inr (argc, argv, s))
      else if length argv < argc then Some (Inl (Fault Out_of_bounds))
      else
        let s1 = s\<lparr>g_argvs := map StreamableToString (take argc argv)\<rparr>
        in case ParseGoogleTestFlagsOnlyImpl (Host.truncate sys) argc argv (options s1) of
             Inl e \<Rightarrow> Some (Inl e)
           | Inr (argc1, argv1, op) \<Rightarrow>
               map_option (\<lambda>r. run_bind r (\<lambda>s2. Inr (argc1, argv1, s2))) (PostFlagParsingInit sys (s1\<lparr>options := op\<rparr>)))"

subsection \<open>The flags of the mocking library\<close>

record MockFlags =
  catch_leaked_mocks :: bool
  mock_verbose :: bytes

definition MockFlags_init :: MockFlags where
  "MockFlags_init = \<lparr>catch_leaked_mocks = True, mock_verbose = kWarningVerbosity\<rparr>"

definition ParseGoogleMockFlagValue :: "bytes option \<Rightarrow> bytes option \<Rightarrow> bool \<Rightarrow> bytes option" where
  "ParseGoogleMockFlagValue str flag def_optional =
     (case (str, flag) of
        (Some s, Some f) \<Rightarrow>
          (let flag_str = lit ''--gmock_'' @ f
           in if take (length flag_str) s \<noteq> flag_str then None
              else
                let flag_rest = drop (length flag_str) s
                in if def_optional \<and> flag_rest = [] then Some flag_rest
                   else if flag_rest = [] \<or> hd flag_rest \<noteq> 61 then None
                   else Some (tl flag_rest))
      | _ \<Rightarrow> None)"

definition ParseGoogleMockBoolFlag :: "bytes \<Rightarrow> bytes \<Rightarrow> bool option" where
  "ParseGoogleMockBoolFlag str flag = map_option bool_value (ParseGoogleMockFlagValue (Some str) (Some flag) True)"

definition ParseGoogleMockStringFlag :: "bytes \<Rightarrow> bytes \<Rightarrow> bytes option" where
  "ParseGoogleMockStringFlag str flag = ParseGoogleMockFlagValue (Some str) (Some flag) False"

definition mock_flag_step :: "bytes \<Rightarrow> MockFlags \<Rightarrow> (bool \<times> MockFlags) run" where
  "mock_flag_step arg mf =
     (case ParseGoogleMockBoolFlag arg (lit ''catch_leaked_mocks'') of
        Some v \<Rightarrow> Inr (True, mf\<lparr>catch_leaked_mocks := v\<rparr>)
      | None \<Rightarrow>
          (case ParseGoogleMockStringFlag arg (lit ''verbose'') of
             Some v \<Rightarrow> Inr (True, mf\<lparr>mock_verbose := v\<rparr>)
           | None \<Rightarrow> Inr (False, mf)))"

definition InitGoogleMockImpl ::
  "('z) System_scheme \<Rightarrow> nat \<Rightarrow> bytes option list \<Rightarrow> UnitTest \<Rightarrow> MockFlags
    \<Rightarrow> (nat \<times> bytes option list \<times> UnitTest \<times> MockFlags) run option" where
  "InitGoogleMockImpl sys argc argv s mf =
     map_option
       (\<lambda>r. run_bind r (\<lambda>(argc1, argv1, s1).
          if argc1 = 0 then Inr (argc1, argv1, s1, mf)
          else run_bind (args_loop mock_flag_step 1 argc1 argv1 mf) (\<lambda>(argc2, argv2, mf1). Inr (argc2, argv2, s1, mf1))))
       (InitGoogleTestImpl sys argc argv s)"

section \<open>Properties\<close>

subsection \<open>Registration\<close>

primrec register_tests :: "bytes option \<Rightarrow> Registration list \<Rightarrow> UnitTest \<Rightarrow> UnitTest res" where
  "register_tests cwd [] s = Inr s"
| "register_tests cwd (r # rs) s = rbind (MakeAndRegisterTestInfo cwd r s) (register_tests cwd rs)"

definition is_death_name :: "bytes \<Rightarrow> bool" where "is_death_name n = MatchesFilter n kDeathTestCaseFilter"

text \<open>Before a shuffle: the death test cases come first, and the indices are in order.\<close>

definition cases_ok :: "UnitTest \<Rightarrow> bool" where
  "cases_ok s \<longleftrightarrow>
     distinct (map case_name (test_cases s)) \<and>
     - 1 \<le> last_death_test_case s \<and> last_death_test_case s < int (length (test_cases s)) \<and>
     (\<forall>i < length (test_cases s). is_death_name (case_name (test_cases s ! i)) \<longleftrightarrow> int i \<le> last_death_test_case s) \<and>
     length (test_case_indices s) = length (test_cases s) \<and>
     (\<forall>c \<in> set (test_cases s). length (test_indices c) = length (test_info_list c))"

definition unshuffled :: "UnitTest \<Rightarrow> bool" where
  "unshuffled s \<longleftrightarrow>
     test_case_indices s = map int [0..<length (test_cases s)] \<and>
     (\<forall>c \<in> set (test_cases s). test_indices c = map int [0..<length (test_info_list c)])"

lemma find_case_None: "find_case n cs = None \<longleftrightarrow> n \<notin> set (map case_name cs)"
  by (induction cs) auto

lemma find_case_Some: "find_case n cs = Some i \<Longrightarrow> i < length cs \<and> case_name (cs ! i) = n"
  by (induction cs arbitrary: i) (auto split: if_splits)

lemma insert_at_simps:
  "i \<le> length xs \<Longrightarrow> length (insert_at i x xs) = Suc (length xs)"
  "i \<le> length xs \<Longrightarrow> mset (insert_at i x xs) = add_mset x (mset xs)"
  "i \<le> length xs \<Longrightarrow> j < Suc (length xs) \<Longrightarrow> insert_at i x xs ! j = (if j < i then xs ! j else if j = i then x else xs ! (j - 1))"
  "i \<le> length xs \<Longrightarrow> map f (insert_at i x xs) = insert_at i (f x) (map f xs)"
proof -
  show "i \<le> length xs \<Longrightarrow> length (insert_at i x xs) = Suc (length xs)" by (simp add: insert_at_def)
  show "i \<le> length xs \<Longrightarrow> mset (insert_at i x xs) = add_mset x (mset xs)"
    unfolding insert_at_def by (metis append_take_drop_id mset.simps(2) mset_append union_mset_add_mset_right)
  show "insert_at i x xs ! j = (if j < i then xs ! j else if j = i then x else xs ! (j - 1))"
    if "i \<le> length xs" "j < Suc (length xs)"
  proof -
    have "i < j \<Longrightarrow> i + (j - i - Suc 0) = j - Suc 0" by simp
    then show ?thesis using that by (auto simp: insert_at_def nth_append nth_Cons')
  qed
  show "i \<le> length xs \<Longrightarrow> map f (insert_at i x xs) = insert_at i (f x) (map f xs)"
    by (simp add: insert_at_def take_map drop_map)
qed

lemma cases_okD:
  assumes "cases_ok s"
  shows "distinct (map case_name (test_cases s))" "- 1 \<le> last_death_test_case s"
    "last_death_test_case s < int (length (test_cases s))"
    "\<And>i. i < length (test_cases s) \<Longrightarrow> is_death_name (case_name (test_cases s ! i)) \<longleftrightarrow> int i \<le> last_death_test_case s"
    "length (test_case_indices s) = length (test_cases s)"
    "\<And>c. c \<in> set (test_cases s) \<Longrightarrow> length (test_indices c) = length (test_info_list c)"
  using assms unfolding cases_ok_def by blast+

lemma TestCase_new_sel [simp]:
  "case_name (TestCase_new n tp a b) = n" "test_info_list (TestCase_new n tp a b) = []" "test_indices (TestCase_new n tp a b) = []"
  by (simp_all add: TestCase_new_def)

lemma GetTestCase_ok:
  assumes ok: "cases_ok s" "unshuffled s" and get: "GetTestCase n tp a b s = (i, s1)"
  shows "cases_ok s1" and "unshuffled s1" and "i < length (test_cases s1)" and "case_name (test_cases s1 ! i) = n"
    and "original_working_dir s1 = original_working_dir s"
    and "set (test_cases s1) = set (test_cases s) \<or>
      n \<notin> case_name ` set (test_cases s) \<and> set (test_cases s1) = insert (TestCase_new n tp a b) (set (test_cases s))"
proof -
  note D = cases_okD [OF ok(1)]
  have all: "cases_ok s1 \<and> unshuffled s1 \<and> i < length (test_cases s1) \<and> case_name (test_cases s1 ! i) = n \<and>
    original_working_dir s1 = original_working_dir s \<and> (set (test_cases s1) = set (test_cases s) \<or>
      n \<notin> case_name ` set (test_cases s) \<and> set (test_cases s1) = insert (TestCase_new n tp a b) (set (test_cases s)))"
  proof (cases "find_case n (test_cases s)")
    case (Some k)
    then show ?thesis using get ok find_case_Some [OF Some] by (simp add: GetTestCase_def)
  next
    case None
    then have new: "n \<notin> case_name ` set (test_cases s)" by (simp add: find_case_None)
    let ?c = "TestCase_new n tp a b" and ?cs = "test_cases s"
    define k where "k = (if is_death_name n then nat (last_death_test_case s + 1) else length ?cs)"
    have k: "k \<le> length ?cs" using D(2,3) by (auto simp: k_def)
    have cs1: "test_cases s1 = insert_at k ?c ?cs" and i: "i = k"
      and last1: "last_death_test_case s1 = (if is_death_name n then last_death_test_case s + 1 else last_death_test_case s)"
      and idx: "test_case_indices s1 = test_case_indices s @ [int (length (test_case_indices s))]"
      and owd: "original_working_dir s1 = original_working_dir s"
      using get None by (auto simp: GetTestCase_def Let_def k_def is_death_name_def insert_at_def split: if_splits)
    have set1: "set (test_cases s1) = insert ?c (set ?cs)"
      unfolding cs1 using insert_at_simps(2) [OF k, of ?c] by (metis set_mset_add_mset_insert set_mset_mset)
    have len1: "length (test_cases s1) = Suc (length ?cs)" by (simp add: cs1 insert_at_simps(1) [OF k])
    have names: "mset (map case_name (test_cases s1)) = add_mset n (mset (map case_name ?cs))"
      using insert_at_simps(2) [OF k, of ?c] by (simp add: cs1 mset_map)
    have dist: "distinct (map case_name (test_cases s1))"
      using D(1) new mset_eq_imp_distinct_iff [OF names [folded mset.simps(2)]] by simp
    have death: "is_death_name (case_name (test_cases s1 ! j)) \<longleftrightarrow> int j \<le> last_death_test_case s1"
      if "j < length (test_cases s1)" for j
    proof -
      have "test_cases s1 ! j = (if j < k then ?cs ! j else if j = k then ?c else ?cs ! (j - 1))"
        using insert_at_simps(3) [OF k] that len1 by (simp add: cs1)
      moreover have "int k = last_death_test_case s + 1" if "is_death_name n" using that D(2) by (simp add: k_def)
      moreover have "k = length ?cs" if "\<not> is_death_name n" using that by (simp add: k_def)
      ultimately show ?thesis using D(3) D(4) [of j] D(4) [of "j - 1"] that len1 k last1 by auto
    qed
    have "cases_ok s1"
      unfolding cases_ok_def using dist death D(2,3,5,6) last1 len1 idx set1 by auto
    moreover have "unshuffled s1" using ok(2) D(5) by (auto simp: unshuffled_def idx len1 set1)
    moreover have "case_name (test_cases s1 ! i) = n" by (simp add: cs1 i insert_at_simps(3) [OF k] less_Suc_eq_le k)
    ultimately show ?thesis using new set1 owd i k len1 by auto
  qed
  then show "cases_ok s1" "unshuffled s1" "i < length (test_cases s1)" "case_name (test_cases s1 ! i) = n"
    "original_working_dir s1 = original_working_dir s"
    "set (test_cases s1) = set (test_cases s) \<or>
      n \<notin> case_name ` set (test_cases s) \<and> set (test_cases s1) = insert (TestCase_new n tp a b) (set (test_cases s))" by blast+
qed

text \<open>What is registered: for each name the tests in the order of their registration.\<close>

definition registered_tests :: "Registration list \<Rightarrow> UnitTest \<Rightarrow> bool" where
  "registered_tests rs s \<longleftrightarrow>
     case_name ` set (test_cases s) = reg_case_name ` set rs \<and>
     (\<forall>c \<in> set (test_cases s). map test_factory (test_info_list c) = map reg_factory (filter (\<lambda>r. reg_case_name r = case_name c) rs))"

lemma MakeAndRegisterTestInfo_ok:
  assumes ok: "cases_ok s" "unshuffled s" "registered_tests rs s" and cwd: "\<not> IsEmpty (GetCurrentDir cwd)"
  shows "\<exists>s'. MakeAndRegisterTestInfo cwd r s = Inr s' \<and> cases_ok s' \<and> unshuffled s' \<and> registered_tests (rs @ [r]) s'"
proof -
  let ?t = "TestInfo_new (reg_case_name r) (reg_name r) (reg_type_param r) (reg_value_param r) (reg_location r) (reg_fixture r) (reg_factory r)"
  define s0 where "s0 = (if IsEmpty (original_working_dir s)
    then s\<lparr>original_working_dir := FilePath_Set (original_working_dir s) (GetCurrentDir cwd)\<rparr> else s)"
  have dir: "\<not> IsEmpty (original_working_dir s0)" using cwd by (auto simp: s0_def IsEmpty_def FilePath_Set_def)
  have ok0: "cases_ok s0" "unshuffled s0" and same: "test_cases s0 = test_cases s"
    using ok by (auto simp: s0_def cases_ok_def unshuffled_def)
  obtain i s1 where get: "GetTestCase (reg_case_name r) (reg_type_param r) (reg_set_up r) (reg_tear_down r) s0 = (i, s1)"
    by (metis prod.exhaust)
  note G = GetTestCase_ok [OF ok0 get]
  define c where "c = test_cases s1 ! i"
  define s2 where "s2 = s1\<lparr>test_cases := (test_cases s1)[i := TestCase_AddTestInfo ?t c]\<rparr>"
  have c: "c \<in> set (test_cases s1)" "case_name c = reg_case_name r" using G(3,4) by (auto simp: c_def)
  have run: "MakeAndRegisterTestInfo cwd r s = Inr s2"
    using dir by (simp add: MakeAndRegisterTestInfo_def UnitTest_AddTestInfo_def Let_def s0_def [symmetric] get [unfolded s0_def] s2_def c_def
        TestInfo_new_def) (simp add: s0_def get [unfolded s0_def])
  have upd: "map case_name (test_cases s2) = map case_name (test_cases s1)" "length (test_cases s2) = length (test_cases s1)"
    using G(3) by (simp_all add: s2_def map_update TestCase_AddTestInfo_def c_def list_update_same_conv)
  have at: "test_cases s2 ! j = (if j = i then TestCase_AddTestInfo ?t c else test_cases s1 ! j)" if "j < length (test_cases s1)" for j
    using that G(3) by (simp add: s2_def)
  have mem: "\<exists>d \<in> set (test_cases s1). case_name e = case_name d \<and>
      (e = d \<and> case_name d \<noteq> reg_case_name r \<or> e = TestCase_AddTestInfo ?t d \<and> case_name d = reg_case_name r)"
    if "e \<in> set (test_cases s2)" for e
  proof -
    obtain j where j: "j < length (test_cases s1)" "e = test_cases s2 ! j" using \<open>e \<in> _\<close> upd(2) by (metis in_set_conv_nth)
    show ?thesis
    proof (cases "j = i")
      case True
      then have "e = TestCase_AddTestInfo ?t c" using at [OF j(1)] j(2) by simp
      then show ?thesis using c by (intro bexI [of _ c]) (simp_all add: TestCase_AddTestInfo_def)
    next
      case False
      have "case_name (test_cases s1 ! j) \<noteq> case_name (test_cases s1 ! i)"
        using False j(1) G(3) cases_okD(1) [OF G(1)] by (metis length_map nth_eq_iff_index_eq nth_map)
      then show ?thesis using at [OF j(1)] j False G(4) by (intro bexI [of _ "test_cases s1 ! j"]) auto
    qed
  qed
  note D = cases_okD [OF G(1)]
  have names: "case_name (test_cases s2 ! j) = case_name (test_cases s1 ! j)" if "j < length (test_cases s1)" for j
    using that upd by (metis nth_map)
  have "cases_ok s2"
    unfolding cases_ok_def
  proof (intro conjI allI impI ballI)
    fix e assume "e \<in> set (test_cases s2)"
    then show "length (test_indices e) = length (test_info_list e)"
      using mem [of e] D(6) by (auto simp: TestCase_AddTestInfo_def)
  qed (use D names upd in \<open>auto simp: s2_def\<close>)
  moreover have "unshuffled s2"
    unfolding unshuffled_def
  proof (intro conjI ballI)
    show "test_case_indices s2 = map int [0..<length (test_cases s2)]" using G(2) upd(2) by (simp add: unshuffled_def s2_def)
    fix e assume "e \<in> set (test_cases s2)"
    then show "test_indices e = map int [0..<length (test_info_list e)]"
      using mem [of e] G(2) by (auto simp: TestCase_AddTestInfo_def unshuffled_def)
  qed
  moreover have "registered_tests (rs @ [r]) s2"
    unfolding registered_tests_def
  proof (intro conjI ballI)
    have "case_name ` set (test_cases s2) = case_name ` set (test_cases s1)" using upd(1) by (metis set_map)
    also have "\<dots> = insert (reg_case_name r) (case_name ` set (test_cases s))" using G(6) c same imageI [OF c(1), of case_name] by auto
    finally show "case_name ` set (test_cases s2) = reg_case_name ` set (rs @ [r])"
      using ok(3) by (simp add: registered_tests_def)
    fix e assume "e \<in> set (test_cases s2)"
    then obtain d where d: "d \<in> set (test_cases s1)" "case_name e = case_name d"
      "e = d \<and> case_name d \<noteq> reg_case_name r \<or> e = TestCase_AddTestInfo ?t d \<and> case_name d = reg_case_name r"
      using mem by blast
    have "map test_factory (test_info_list d) = map reg_factory (filter (\<lambda>q. reg_case_name q = case_name d) rs)"
    proof (cases "d \<in> set (test_cases s)")
      case True
      then show ?thesis using ok(3) by (simp add: registered_tests_def)
    next
      case False
      then have "reg_case_name r \<notin> case_name ` set (test_cases s)" "case_name d = reg_case_name r" "test_info_list d = []"
        using G(6) d(1) same by auto
      moreover from this(1) have "\<forall>q \<in> set rs. reg_case_name q \<noteq> reg_case_name r"
        using ok(3) by (metis imageI registered_tests_def)
      ultimately show ?thesis by (simp add: filter_empty_conv)
    qed
    then show "map test_factory (test_info_list e) = map reg_factory (filter (\<lambda>q. reg_case_name q = case_name e) (rs @ [r]))"
      using d(2) by - (rule disjE [OF d(3)], simp_all add: TestCase_AddTestInfo_def TestInfo_new_def eq_commute [of "reg_case_name r"])
  qed
  ultimately show ?thesis using run by blast
qed

lemma register_tests_ok:
  assumes "cases_ok s" "unshuffled s" "registered_tests done_rs s" "\<not> IsEmpty (GetCurrentDir cwd)"
  shows "\<exists>s'. register_tests cwd rs s = Inr s' \<and> cases_ok s' \<and> unshuffled s' \<and> registered_tests (done_rs @ rs) s'"
  using assms
proof (induction rs arbitrary: s done_rs)
  case Nil
  then show ?case by simp
next
  case (Cons r rs)
  obtain s1 where s1: "MakeAndRegisterTestInfo cwd r s = Inr s1" "cases_ok s1" "unshuffled s1" "registered_tests (done_rs @ [r]) s1"
    using MakeAndRegisterTestInfo_ok [OF Cons.prems] by blast
  show ?case using Cons.IH [OF s1(2-4) Cons.prems(4)] s1(1) by (simp add: rbind_def)
qed

text \<open>
  C21: Registration from the start never fails if the working directory is known. Test cases have
  different names, exactly those given; each holds its tests in the order of registration; all death
  test cases, by their names, come before all others, and the indices are in order.
\<close>

theorem registration_ordered:
  assumes "\<not> IsEmpty (GetCurrentDir cwd)"
  shows "\<exists>s. register_tests cwd rs (UnitTestImpl_new fl) = Inr s \<and>
    distinct (map case_name (test_cases s)) \<and> case_name ` set (test_cases s) = reg_case_name ` set rs \<and>
    (\<forall>c \<in> set (test_cases s). map test_factory (test_info_list c) = map reg_factory (filter (\<lambda>r. reg_case_name r = case_name c) rs)) \<and>
    (\<forall>i < length (test_cases s). is_death_name (case_name (test_cases s ! i)) = (int i \<le> last_death_test_case s)) \<and>
    test_case_indices s = map int [0..<length (test_cases s)]"
proof -
  have "cases_ok (UnitTestImpl_new fl)" "unshuffled (UnitTestImpl_new fl)" "registered_tests [] (UnitTestImpl_new fl)"
    by (simp_all add: cases_ok_def unshuffled_def registered_tests_def UnitTestImpl_new_def)
  from register_tests_ok [OF this assms] obtain s where
    s: "register_tests cwd rs (UnitTestImpl_new fl) = Inr s" "cases_ok s" "unshuffled s" "registered_tests rs s" by auto
  show ?thesis
    by (rule exI [of _ s]) (use s cases_okD(1,4) [OF s(2)] in \<open>simp add: unshuffled_def registered_tests_def\<close>)
qed

definition example_registration :: "bytes \<Rightarrow> nat \<Rightarrow> Registration" where
  "example_registration n k =
     \<lparr>reg_case_name = n, reg_name = lit ''T'', reg_type_param = None, reg_value_param = None, reg_location = (lit ''t.cc'', 1),
      reg_fixture = 0, reg_set_up = 0, reg_tear_down = 0, reg_factory = k\<rparr>"

theorem registration_ordered_witness:
  "\<exists>s. register_tests (Some (lit ''w'')) [example_registration (lit ''Foo'') 0, example_registration (lit ''FooDeathTest'') 1]
      (UnitTestImpl_new (fst (Flags_init (\<lambda>_. None)))) = Inr s \<and>
    (\<forall>i < length (test_cases s). is_death_name (case_name (test_cases s ! i)) = (int i \<le> last_death_test_case s))"
proof -
  have "\<not> IsEmpty (GetCurrentDir (Some (lit ''w'')))" by code_simp
  from registration_ordered [OF this, of "[example_registration (lit ''Foo'') 0, example_registration (lit ''FooDeathTest'') 1]"
      "fst (Flags_init (\<lambda>_. None))"]
  show ?thesis by blast
qed

subsection \<open>Order\<close>

text \<open>The indices are permutations.\<close>

definition arranged :: "UnitTest \<Rightarrow> bool" where
  "arranged s \<longleftrightarrow>
     mset (test_case_indices s) = mset (map int [0..<length (test_cases s)]) \<and>
     (\<forall>c \<in> set (test_cases s). mset (test_indices c) = mset (map int [0..<length (test_info_list c)]))"

definition small :: "UnitTest \<Rightarrow> bool" where
  "small s \<longleftrightarrow> length (test_cases s) < 2 ^ 31 \<and> (\<forall>c \<in> set (test_cases s). length (test_info_list c) < 2 ^ 31)"

lemma in_order_arranged: "unshuffled s \<Longrightarrow> arranged s"
  by (simp add: unshuffled_def arranged_def)

lemma mset_ints_length: "mset v = mset (map int [0..<n]) \<Longrightarrow> length v = n"
  by (metis diff_zero length_map length_upt size_mset)

lemma fold_update: "length v = n \<Longrightarrow> k \<le> n \<Longrightarrow> fold (\<lambda>i v. v[i := int i]) [0..<k] v = map int [0..<k] @ drop k v"
proof (induction k)
  case 0
  then show ?case by simp
next
  case (Suc k)
  have "drop k v = v ! k # drop (Suc k) v" using Suc.prems by (simp add: Cons_nth_drop_Suc)
  then show ?case using Suc by (simp add: list_update_append)
qed

lemma UnshuffleTests_in_order:
  assumes "arranged s"
  shows "unshuffled (UnshuffleTests s)"
proof -
  have len: "length (test_case_indices s) = length (test_cases s)"
    using assms mset_ints_length unfolding arranged_def by blast
  have "length (test_indices c) = length (test_info_list c)" if "c \<in> set (test_cases s)" for c
    using assms that mset_ints_length unfolding arranged_def by blast
  then show ?thesis using fold_update [OF len order_refl]
    by (simp add: unshuffled_def UnshuffleTests_def TestCase_UnshuffleTests_def len)
qed

lemma UnshuffleTests_id: "unshuffled s \<Longrightarrow> UnshuffleTests s = s"
proof -
  assume ok: "unshuffled s"
  have "map TestCase_UnshuffleTests (test_cases s) = test_cases s"
    using ok by (intro map_idI) (simp add: unshuffled_def TestCase_UnshuffleTests_def)
  moreover have "fold (\<lambda>i v. v[i := int i]) [0..<length (test_cases s)] (test_case_indices s) = test_case_indices s"
    using ok by (subst fold_update [of _ "length (test_cases s)"]) (simp_all add: unshuffled_def)
  ultimately show ?thesis by (simp add: UnshuffleTests_def)
qed

text \<open>Two test cases that differ in the order of their tests only.\<close>

definition reordered :: "TestCase \<Rightarrow> TestCase \<Rightarrow> bool" where
  "reordered c c' \<longleftrightarrow> mset (test_indices c') = mset (test_indices c) \<and> c' = c\<lparr>test_indices := test_indices c'\<rparr>"

lemma shuffle_cases_ok:
  assumes "\<forall>c \<in> set cs. length (test_indices c) < 2 ^ 31"
  shows "\<exists>cs' st. shuffle_cases state cs = Inr (cs', st) \<and> list_all2 reordered cs cs'"
  using assms
proof (induction cs arbitrary: state)
  case Nil
  then show ?case by simp
next
  case (Cons c cs)
  obtain v st1 where v: "Shuffle state (test_indices c) = Inr (v, st1)" "mset v = mset (test_indices c)"
    using Shuffle_permutes [of "test_indices c" state] Cons.prems by auto
  obtain cs' st where "shuffle_cases st1 cs = Inr (cs', st)" "list_all2 reordered cs cs'"
    using Cons.IH [of st1] Cons.prems by auto
  moreover have "reordered c (c\<lparr>test_indices := v\<rparr>)" using v(2) by (simp add: reordered_def)
  ultimately show ?case by (simp add: TestCase_ShuffleTests_def v(1) rbind_def)
qed

text \<open>\<open>s'\<close> is \<open>s\<close> with the tests and test cases in another order, the death test cases still first.\<close>

definition shuffled :: "UnitTest \<Rightarrow> UnitTest \<Rightarrow> bool" where
  "shuffled s s' \<longleftrightarrow>
     (let k = nat (last_death_test_case s + 1)
      in mset (take k (test_case_indices s')) = mset (take k (test_case_indices s)) \<and>
         mset (drop k (test_case_indices s')) = mset (drop k (test_case_indices s))) \<and>
     list_all2 reordered (test_cases s) (test_cases s') \<and>
     s' = s\<lparr>test_case_indices := test_case_indices s', test_cases := test_cases s', random_state := random_state s'\<rparr>"

lemma ShuffleTests_ok:
  assumes ok: "cases_ok s" "small s"
  shows "\<exists>s'. ShuffleTests s = Inr s' \<and> shuffled s s'"
proof -
  note D = cases_okD [OF ok(1)]
  let ?n = "length (test_cases s)" and ?v = "test_case_indices s"
  define k where "k = nat (last_death_test_case s + 1)"
  have k: "k \<le> ?n" "int k = last_death_test_case s + 1" using D(2,3) by (auto simp: k_def)
  have n: "?n < 2 ^ 31" using ok(2) by (simp add: small_def)
  have kn: "k \<le> 2 ^ 31" "?n - k \<le> 2 ^ 31" using k(1) n by linarith+
  have b1: "0 + k \<le> length ?v" using k(1) D(5) by simp
  obtain v1 r1 where v1: "shuffle_loop 0 k ?v (random_state s) = Inr (v1, r1)" "mset v1 = mset ?v" "drop k v1 = drop k ?v"
    using shuffle_loop_permutes [OF b1 kn(1), of "random_state s"] by auto
  have len1: "length v1 = ?n" using v1(2) D(5) by (metis size_mset)
  have b2: "k + (?n - k) \<le> length v1" using k(1) len1 by simp
  obtain v2 r2 where v2: "shuffle_loop k (?n - k) v1 r1 = Inr (v2, r2)" "mset v2 = mset v1" "take k v2 = take k v1"
    using shuffle_loop_permutes [OF b2 kn(2), of r1] by auto
  have "\<forall>c \<in> set (test_cases s). length (test_indices c) < 2 ^ 31" using ok(2) D(6) by (simp add: small_def)
  then obtain cs r3 where cs: "shuffle_cases r2 (test_cases s) = Inr (cs, r3)" "list_all2 reordered (test_cases s) cs"
    using shuffle_cases_ok by blast
  have parts: "mset (take k w) + mset (drop k w) = mset w" for w :: "int list"
    by (metis append_take_drop_id mset_append)
  have m1: "mset (take k v1) = mset (take k ?v)"
    using parts [of v1] parts [of ?v] v1(2,3) by (metis add_right_cancel)
  have m2: "mset (drop k v2) = mset (drop k ?v)"
    using parts [of v2] parts [of v1] v2(2,3) v1(3) by (metis add_left_cancel)
  have run: "ShuffleTests s = Inr (s\<lparr>test_case_indices := v2, test_cases := cs, random_state := r3\<rparr>)"
    using k v1(1) v2(1) cs(1) D(5) len1
    by (simp add: ShuffleTests_def ShuffleRange_def k_def [symmetric] k(2) [symmetric] rbind_def nat_diff_distrib int_of_size_eq [OF n])
  show ?thesis unfolding run using m1 m2 v2(3) cs(2) by (auto simp: shuffled_def k_def [symmetric] Let_def)
qed

lemma reordered_unshuffle: "reordered c c' \<Longrightarrow> TestCase_UnshuffleTests c' = TestCase_UnshuffleTests c"
  unfolding reordered_def TestCase_UnshuffleTests_def
  by (metis (no_types, lifting) TestCase.select_convs TestCase.surjective TestCase.update_convs(4) mset_eq_length)

lemma shuffled_unshuffle:
  assumes "shuffled s s'" and "unshuffled s" and "arranged s'"
  shows "UnshuffleTests s' = s\<lparr>random_state := random_state s'\<rparr>"
proof -
  have rel: "list_all2 reordered (test_cases s) (test_cases s')"
    and eq: "s' = s\<lparr>test_case_indices := test_case_indices s', test_cases := test_cases s', random_state := random_state s'\<rparr>"
    using assms(1) unfolding shuffled_def by blast+
  have len: "length (test_cases s') = length (test_cases s)" using rel by (simp add: list_all2_lengthD)
  have "map TestCase_UnshuffleTests (test_cases s') = map TestCase_UnshuffleTests (test_cases s)"
    using rel by (auto simp: list_eq_iff_nth_eq list_all2_conv_all_nth intro!: reordered_unshuffle)
  also have "\<dots> = test_cases s" using arg_cong [OF UnshuffleTests_id [OF assms(2)], of test_cases] by (simp add: UnshuffleTests_def)
  finally have "test_cases (UnshuffleTests s') = test_cases s" by (simp add: UnshuffleTests_def)
  moreover have "test_case_indices (UnshuffleTests s') = test_case_indices s"
    using UnshuffleTests_in_order [OF assms(3)] assms(2) len by (simp add: unshuffled_def UnshuffleTests_def)
  ultimately show ?thesis by (subst (asm) UnshuffleTests_def, subst UnshuffleTests_def, subst eq) (simp add: UnshuffleTests_def)
qed

lemma shuffled_arranged:
  assumes "shuffled s s'" and "arranged s"
  shows "arranged s'"
proof -
  let ?k = "nat (last_death_test_case s + 1)"
  have parts: "mset (take ?k (test_case_indices s')) = mset (take ?k (test_case_indices s))"
      "mset (drop ?k (test_case_indices s')) = mset (drop ?k (test_case_indices s))"
    and rel: "list_all2 reordered (test_cases s) (test_cases s')"
    using assms(1) unfolding shuffled_def Let_def by blast+
  have "mset (test_case_indices s') = mset (test_case_indices s)"
    using parts by (metis append_take_drop_id mset_append)
  moreover have "mset (test_indices c') = mset (map int [0..<length (test_info_list c')])" if c': "c' \<in> set (test_cases s')" for c'
  proof -
    obtain c where "c \<in> set (test_cases s)" "reordered c c'" using rel c' by (metis in_set_conv_nth list_all2_conv_all_nth)
    then show ?thesis using assms(2) unfolding arranged_def reordered_def
      by (metis TestCase.select_convs(3) TestCase.surjective TestCase.update_convs(4))
  qed
  ultimately show ?thesis using assms(2) rel by (simp add: arranged_def list_all2_lengthD)
qed

text \<open>
  C27: A shuffle of registered tests, of which no test case and no list of test cases has \<open>2 ^ 31\<close> elements, returns. The order of the test cases is a permutation in
  which no death test case comes after another test case, and undoing the shuffle restores the whole
  state but for the random numbers.
\<close>

theorem shuffle_death_tests_first:
  assumes "cases_ok s" and "unshuffled s" and "small s"
  shows "\<exists>s'. ShuffleTests s = Inr s' \<and> mset (test_case_indices s') = mset (test_case_indices s) \<and>
    (\<forall>i j. i < j \<and> j < length (test_cases s) \<and> is_death_name (case_name (test_cases s' ! nat (test_case_indices s' ! j))) \<longrightarrow>
      is_death_name (case_name (test_cases s' ! nat (test_case_indices s' ! i)))) \<and>
    UnshuffleTests s' = s\<lparr>random_state := random_state s'\<rparr>"
proof -
  note D = cases_okD [OF assms(1)]
  let ?n = "length (test_cases s)"
  obtain s' where s': "ShuffleTests s = Inr s'" "shuffled s s'" using ShuffleTests_ok [OF assms(1,3)] by blast
  define k where "k = nat (last_death_test_case s + 1)"
  have parts: "mset (take k (test_case_indices s')) = mset (take k (test_case_indices s))"
      "mset (drop k (test_case_indices s')) = mset (drop k (test_case_indices s))"
    and rel: "list_all2 reordered (test_cases s) (test_cases s')"
    using s'(2) unfolding shuffled_def Let_def k_def by blast+
  have idx: "test_case_indices s = map int [0..<?n]" using assms(2) by (simp add: unshuffled_def)
  have all: "mset (test_case_indices s') = mset (test_case_indices s)"
    using parts by (metis append_take_drop_id mset_append)
  have len: "length (test_case_indices s') = ?n" using all D(5) by (metis size_mset)
  have k: "k \<le> ?n" using D(2,3) by (auto simp: k_def)
  have low: "set (take k (test_case_indices s')) = int ` {0..<k}"
    using parts(1) k idx by (metis atLeastLessThan_upt diff_zero min.absorb2 set_map set_mset_mset take_map take_upt add_0)
  have high: "set (drop k (test_case_indices s')) = int ` {k..<?n}"
    using parts(2) idx by (metis add_0 atLeastLessThan_upt drop_map drop_upt set_map set_mset_mset)
  have same: "case_name (test_cases s' ! m) = case_name (test_cases s ! m)" if "m < ?n" for m
  proof -
    have "reordered (test_cases s ! m) (test_cases s' ! m)" using rel that by (simp add: list_all2_nthD)
    then show ?thesis unfolding reordered_def by (metis TestCase.select_convs(1) TestCase.surjective TestCase.update_convs(4))
  qed
  have death: "is_death_name (case_name (test_cases s' ! nat (test_case_indices s' ! j))) \<longleftrightarrow> j < k" if j: "j < ?n" for j
  proof (cases "j < k")
    case True
    then have "test_case_indices s' ! j \<in> set (take k (test_case_indices s'))"
      using len k by (metis in_set_conv_nth length_take min.absorb2 nth_take)
    then obtain m where m: "test_case_indices s' ! j = int m" "m < k" unfolding low by auto
    then show ?thesis using same [of m] D(4) [of m] k True by (auto simp: k_def)
  next
    case False
    then have "drop k (test_case_indices s') ! (j - k) = test_case_indices s' ! j" using len j by simp
    then have "test_case_indices s' ! j \<in> set (drop k (test_case_indices s'))"
      using False len j by (metis diff_less_mono length_drop linorder_not_less nth_mem)
    then obtain m where m: "test_case_indices s' ! j = int m" "k \<le> m" "m < ?n" unfolding high by auto
    then show ?thesis using same [of m] D(4) [of m] False by (auto simp: k_def)
  qed
  have "UnshuffleTests s' = s\<lparr>random_state := random_state s'\<rparr>"
    by (rule shuffled_unshuffle [OF s'(2) assms(2) shuffled_arranged [OF s'(2) in_order_arranged [OF assms(2)]]])
  then show ?thesis using s'(1) all death by (intro exI [of _ s']) auto
qed

text \<open>Two test cases, one of them of death tests; the other one has two tests.\<close>

definition example_registrations :: "Registration list" where
  "example_registrations =
     [example_registration (lit ''Foo'') 0, example_registration (lit ''FooDeathTest'') 1, example_registration (lit ''Foo'') 2]"

lemma example_registered:
  "\<exists>s. register_tests (Some (lit ''w'')) example_registrations (UnitTestImpl_new (fst (Flags_init (\<lambda>_. None)))) = Inr s \<and>
    length (test_cases s) = 2 \<and> cases_ok s \<and> unshuffled s \<and> small s"
proof -
  let ?s = "UnitTestImpl_new (fst (Flags_init (\<lambda>_. None)))"
  have start: "cases_ok ?s" "unshuffled ?s" "registered_tests [] ?s"
    by (simp_all add: cases_ok_def unshuffled_def registered_tests_def UnitTestImpl_new_def)
  have "\<not> IsEmpty (GetCurrentDir (Some (lit ''w'')))" by code_simp
  from register_tests_ok [OF start this, of example_registrations] obtain s where
    s: "register_tests (Some (lit ''w'')) example_registrations ?s = Inr s" "cases_ok s" "unshuffled s"
      "registered_tests example_registrations s" by auto
  have "case_name ` set (test_cases s) = {lit ''Foo'', lit ''FooDeathTest''}"
    using s(4) by (auto simp: registered_tests_def example_registrations_def example_registration_def simp del: lit_Cons)
  moreover have "lit ''Foo'' \<noteq> lit ''FooDeathTest''" by simp
  ultimately have two: "length (test_cases s) = 2"
    using distinct_card [OF cases_okD(1) [OF s(2)]] by simp
  have "length (test_info_list c) \<le> 3" if "c \<in> set (test_cases s)" for c
  proof -
    have "length (map test_factory (test_info_list c)) \<le> length example_registrations"
      using s(4) that length_filter_le unfolding registered_tests_def by (metis length_map)
    then show ?thesis by (simp add: example_registrations_def)
  qed
  then have "small s" using two by (fastforce simp: small_def)
  then show ?thesis using s(1-3) two by blast
qed

theorem shuffle_death_tests_first_witness:
  "\<exists>s s'. register_tests (Some (lit ''w'')) example_registrations (UnitTestImpl_new (fst (Flags_init (\<lambda>_. None)))) = Inr s \<and>
    length (test_cases s) = 2 \<and> ShuffleTests s = Inr s' \<and> mset (test_case_indices s') = mset (test_case_indices s) \<and>
    UnshuffleTests s' = s\<lparr>random_state := random_state s'\<rparr>"
proof -
  obtain s where s: "register_tests (Some (lit ''w'')) example_registrations (UnitTestImpl_new (fst (Flags_init (\<lambda>_. None)))) = Inr s"
    "length (test_cases s) = 2" "cases_ok s" "unshuffled s" "small s"
    using example_registered by blast
  from shuffle_death_tests_first [OF s(3-5)] show ?thesis using s(1,2) by blast
qed

text \<open>
  The test cases that a listener asks for are in the order of registration even after a shuffle; those
  that are run are not.
\<close>

lemma GetTestCase_const_unshuffled:
  assumes "arranged s" and "0 \<le> i" and "i < int (length (test_cases s))"
  shows "GetTestCase_const s i = Some (nat i)" and "GetMutableTestCase s i = Some (nat (test_case_indices s ! nat i))"
proof -
  have len: "length (test_case_indices s) = length (test_cases s)"
    using assms(1) mset_ints_length unfolding arranged_def by blast
  have "test_case_indices s ! nat i \<in> set (map int [0..<length (test_cases s)])"
    using assms len unfolding arranged_def by (metis nat_less_iff nth_mem set_mset_mset)
  then have "0 \<le> test_case_indices s ! nat i" by auto
  then show "GetTestCase_const s i = Some (nat i)" "GetMutableTestCase s i = Some (nat (test_case_indices s ! nat i))"
    using assms len by (simp_all add: GetTestCase_const_def GetMutableTestCase_def GetElementOr_def)
qed

subsection \<open>The flags of the mocking library\<close>

lemma run_args_total:
  assumes "\<And>a s. step a s = Inr (P a, f a s)"
  shows "run_args step as s = Inr (filter (\<lambda>a. \<not> P a) as, fold f as s)"
  by (induction as arbitrary: s) (simp_all add: assms)

definition is_mock_flag :: "bytes \<Rightarrow> bool" where
  "is_mock_flag arg \<longleftrightarrow> ParseGoogleMockBoolFlag arg (lit ''catch_leaked_mocks'') \<noteq> None \<or> ParseGoogleMockStringFlag arg (lit ''verbose'') \<noteq> None"

definition set_mock_flag :: "bytes \<Rightarrow> MockFlags \<Rightarrow> MockFlags" where
  "set_mock_flag arg mf =
     (case ParseGoogleMockBoolFlag arg (lit ''catch_leaked_mocks'') of
        Some v \<Rightarrow> mf\<lparr>catch_leaked_mocks := v\<rparr>
      | None \<Rightarrow> (case ParseGoogleMockStringFlag arg (lit ''verbose'') of Some v \<Rightarrow> mf\<lparr>mock_verbose := v\<rparr> | None \<Rightarrow> mf))"

text \<open>The second pass over the command line keeps what is no flag of the mocking library.\<close>

lemma mock_command_line_parsed:
  "args_loop mock_flag_step 1 (Suc (length as)) (program # map Some as @ [None]) mf =
    Inr (Suc (length (filter (\<lambda>a. \<not> is_mock_flag a) as)),
      program # map Some (filter (\<lambda>a. \<not> is_mock_flag a) as) @
        replicate (Suc (length as - length (filter (\<lambda>a. \<not> is_mock_flag a) as))) None,
      fold set_mock_flag as mf)"
proof -
  have "mock_flag_step a s = Inr (is_mock_flag a, set_mock_flag a s)" for a s
    by (auto simp: mock_flag_step_def is_mock_flag_def set_mock_flag_def split: option.splits)
  from run_args_total [of mock_flag_step is_mock_flag set_mock_flag, OF this] show ?thesis
    by (simp add: args_loop_from_one [simplified])
qed

end
