(* ===== verification/Gtest_Run.thy ===== *)
theory Gtest_Run
  imports Gtest_Unit
begin

text \<open>
  Running the tests (src/libs/googletest/src/gtest.cc: classes \<open>Test\<close>, \<open>TestInfo\<close>, \<open>TestCase\<close>,
  \<open>UnitTestImpl\<close> and \<open>UnitTest\<close>). The user's code is data: a tree of assertions, recorded
  properties, thrown exceptions, changes of flags and traced scopes that may look at the whole state
  between any two of them. The functions of the library interpret it, with C++ exceptions and the end of
  the process as results. The lemmas show what user code can change,
  which events listeners are told of in which order, and that flags are restored after each test.
\<close>

section \<open>Definitions\<close>

subsection \<open>User code\<close>

datatype act =
    Assertion TestPartResultType "bytes option" int bytes bytes
  | Property bytes bytes
  | Raise exc
  | Modify_flags "Flags \<Rightarrow> Flags"

datatype code =
    Return
  | Do act "UnitTest \<Rightarrow> code"
  | Scoped TraceInfo code "UnitTest \<Rightarrow> code"

text \<open>\<open>gtest_cc\<close> is \<open>__FILE__\<close> of the library's source; the numbers are the lines of its \<open>ADD_FAILURE()\<close>.\<close>

definition do_act :: "bytes \<Rightarrow> act \<Rightarrow> unit action" where
  "do_act gtest_cc a =
     (case a of
        Assertion a_type file line message user_message \<Rightarrow> AssertHelper_assign a_type file line message user_message
      | Property key v \<Rightarrow> UnitTest_RecordProperty (gtest_cc, 2145) \<lparr>property_key = key, property_value = v\<rparr>
      | Raise e \<Rightarrow> (\<lambda>s. (Throws e, s))
      | Modify_flags f \<Rightarrow> uchange (\<lambda>s. set_flags (f (gtest_flags s)) s))"

text \<open>A scope with a trace is left by its destructor, also when an exception passes.\<close>

primrec run_code :: "bytes \<Rightarrow> code \<Rightarrow> unit action" where
  "run_code gtest_cc Return = uskip"
| "run_code gtest_cc (Do a k) = ubind (do_act gtest_cc a) (\<lambda>_ s. run_code gtest_cc (k s) s)"
| "run_code gtest_cc (Scoped t body k) =
     (\<lambda>s. case run_code gtest_cc body (PushGTestTrace t s) of
            (Normal _, s1) \<Rightarrow> ubind PopGTestTrace (\<lambda>_ s2. run_code gtest_cc (k s2) s2) s1
          | (Throws e, s1) \<Rightarrow> ubind PopGTestTrace (\<lambda>_ s2. (Throws e, s2)) s1
          | (Stops e, s1) \<Rightarrow> (Stops e, s1))"

text \<open>A test class: its constructor, \<open>SetUp\<close>, \<open>TestBody\<close>, \<open>TearDown\<close> and destructor.\<close>

record TestClass =
  constructor :: code
  SetUp :: code
  TestBody :: code
  TearDown :: code
  destructor :: code

text \<open>What the numbers of factories, set-up functions and environments stand for.\<close>

record Program =
  test_class :: "nat \<Rightarrow> TestClass"
  case_function :: "nat \<Rightarrow> code"
  environment_SetUp :: "nat \<Rightarrow> code"
  environment_TearDown :: "nat \<Rightarrow> code"
  test_type_id :: nat
  gtest_cc_file :: bytes

subsection \<open>Exceptions\<close>

definition FormatCxxExceptionMessage :: "bytes option \<Rightarrow> bytes \<Rightarrow> bytes" where
  "FormatCxxExceptionMessage description location =
     (case description of
        Some d \<Rightarrow> lit ''C++ exception with description '' @ [34] @ d @ [34]
      | None \<Rightarrow> lit ''Unknown C++ exception'') @
     lit '' thrown in '' @ location @ lit ''.''"

text \<open>The handlers: what they make of the way the method ended.\<close>

definition catch_result :: "bytes \<Rightarrow> 'a \<Rightarrow> 'a completion \<times> UnitTest \<Rightarrow> 'a completion \<times> UnitTest" where
  "catch_result location zero r =
     (case r of
        (Throws (GoogleTestFailureException f), s1) \<Rightarrow> (Throws (GoogleTestFailureException f), s1)
      | (Throws (Std_exception d), s1) \<Rightarrow>
          ubind (ReportFailureInUnknownLocation kFatalFailure (FormatCxxExceptionMessage (Some d) location)) (\<lambda>_. ureturn zero) s1
      | (Throws Other_exception, s1) \<Rightarrow>
          ubind (ReportFailureInUnknownLocation kFatalFailure (FormatCxxExceptionMessage None location)) (\<lambda>_. ureturn zero) s1
      | (Normal x, s1) \<Rightarrow> (Normal x, s1)
      | (Stops e, s1) \<Rightarrow> (Stops e, s1))"

definition HandleExceptionsInMethodIfSupported :: "bytes \<Rightarrow> 'a \<Rightarrow> 'a action \<Rightarrow> 'a action" where
  "HandleExceptionsInMethodIfSupported location zero method s =
     (if catching_exceptions s then catch_result location zero (method s) else method s)"

subsection \<open>One test\<close>

text \<open>The flags saved by the constructor of \<open>Test\<close>; \<open>flagfile\<close> is not among them.\<close>

definition restore_flags :: "Flags \<Rightarrow> UnitTest \<Rightarrow> UnitTest" where
  "restore_flags saved s = set_flags (saved\<lparr>flagfile := flagfile (gtest_flags s)\<rparr>) s"

text \<open>A test object is its saved flags. If the constructor throws, the base object is destroyed.\<close>

definition CreateTest :: "Program \<Rightarrow> nat \<Rightarrow> Flags option action" where
  "CreateTest p factory s =
     (let saved = gtest_flags s
      in case run_code (gtest_cc_file p) (constructor (test_class p factory)) s of
           (Normal _, s1) \<Rightarrow> (Normal (Some saved), s1)
         | (Throws e, s1) \<Rightarrow> (Throws e, restore_flags saved s1)
         | (Stops e, s1) \<Rightarrow> (Stops e, s1))"

text \<open>
  An exception may not leave a destructor in C++11. Without an object the code still calls the member function,
  whose \<open>delete this\<close> then does nothing.
\<close>

definition DeleteSelf :: "Program \<Rightarrow> nat \<Rightarrow> Flags option \<Rightarrow> unit action" where
  "DeleteSelf p factory test s =
     (case test of
        None \<Rightarrow> (Normal (), s)
      | Some saved \<Rightarrow>
          (case run_code (gtest_cc_file p) (destructor (test_class p factory)) s of
             (Normal _, s1) \<Rightarrow> (Normal (), restore_flags saved s1)
           | (Throws e, s1) \<Rightarrow> (Stops (Fault Aborted), s1)
           | (Stops e, s1) \<Rightarrow> (Stops e, s1)))"

definition HasSameFixtureClass :: "Program \<Rightarrow> nat \<times> nat \<Rightarrow> bool action" where
  "HasSameFixtureClass p ij s =
     (let tests = test_info_list (test_cases s ! fst ij); first_test_info = tests ! 0; this_test_info = tests ! snd ij;
          first_fixture_id = fixture_class_id first_test_info; this_fixture_id = fixture_class_id this_test_info;
          first_test_name = info_name first_test_info; this_test_name = info_name this_test_info
      in if this_fixture_id \<noteq> first_fixture_id then
           let first_is_TEST = (first_fixture_id = test_type_id p);
               this_is_TEST = (this_fixture_id = test_type_id p)
           in if first_is_TEST \<or> this_is_TEST then
                let TEST_name = (if first_is_TEST then first_test_name else this_test_name);
                    TEST_F_name = (if first_is_TEST then this_test_name else first_test_name)
                in ubind (ADD_FAILURE (gtest_cc_file p, 2301)
                     (lit ''All tests in the same test case must use the same test fixture'' @ newline @
                      lit ''class, so mixing TEST_F and TEST in the same test case is'' @ newline @
                      lit ''illegal.  In test case '' @ info_case_name this_test_info @ lit '','' @ newline @
                      lit ''test '' @ TEST_F_name @ lit '' is defined using TEST_F but'' @ newline @
                      lit ''test '' @ TEST_name @ lit '' is defined using TEST.  You probably'' @ newline @
                      lit ''want to change the TEST to TEST_F or move it to another test'' @ newline @
                      lit ''case.'')) (\<lambda>_. ureturn False) s
              else
                ubind (ADD_FAILURE (gtest_cc_file p, 2313)
                     (lit ''All tests in the same test case must use the same test fixture'' @ newline @
                      lit ''class.  However, in test case '' @ info_case_name this_test_info @ lit '','' @ newline @
                      lit ''you defined test '' @ first_test_name @ lit '' and test '' @ this_test_name @ newline @
                      lit ''using two different test fixture classes.  This can happen if'' @ newline @
                      lit ''the two classes are from different namespaces or translation'' @ newline @
                      lit ''units and have the same name.  You should probably rename one'' @ newline @
                      lit ''of the classes to put the tests into different test cases.'')) (\<lambda>_. ureturn False) s
         else (Normal True, s))"

definition Test_HasFatalFailure :: "UnitTest \<Rightarrow> bool" where
  "Test_HasFatalFailure s = HasFatalFailure (current_test_result s)"

definition Test_HasNonfatalFailure :: "UnitTest \<Rightarrow> bool" where
  "Test_HasNonfatalFailure s = HasNonfatalFailure (current_test_result s)"

definition Test_Run :: "Program \<Rightarrow> nat \<times> nat \<Rightarrow> nat \<Rightarrow> unit action" where
  "Test_Run p ij factory =
     ubind (HasSameFixtureClass p ij) (\<lambda>same.
     if \<not> same then uskip
     else
       let c = test_class p factory
       in ubind (HandleExceptionsInMethodIfSupported (lit ''SetUp()'') () (run_code (gtest_cc_file p) (SetUp c))) (\<lambda>_.
          ubind (uread Test_HasFatalFailure) (\<lambda>fatal.
          ubind (if \<not> fatal
                 then HandleExceptionsInMethodIfSupported (lit ''the test body'') () (run_code (gtest_cc_file p) (TestBody c))
                 else uskip) (\<lambda>_.
          HandleExceptionsInMethodIfSupported (lit ''TearDown()'') () (run_code (gtest_cc_file p) (TearDown c))))))"

definition GetTimeInMillis :: "('z) System_scheme \<Rightarrow> int action" where
  "GetTimeInMillis sys s = (Normal (clock sys (ticks s)), s\<lparr>ticks := ticks s + 1\<rparr>)"

text \<open>The places that messages name; 39 is the apostrophe.\<close>

definition kFixtureConstructor :: bytes where "kFixtureConstructor = lit ''the test fixture'' @ [39] @ lit ''s constructor''"
definition kFixtureDestructor :: bytes where "kFixtureDestructor = lit ''the test fixture'' @ [39] @ lit ''s destructor''"

text \<open>Between the two readings of the clock: the test object is created, used and deleted.\<close>

definition run_test_object :: "Program \<Rightarrow> nat \<times> nat \<Rightarrow> nat \<Rightarrow> unit action" where
  "run_test_object p ij factory =
     ubind (HandleExceptionsInMethodIfSupported kFixtureConstructor None (CreateTest p factory)) (\<lambda>test.
     ubind (uread Test_HasFatalFailure) (\<lambda>fatal.
     ubind (if test \<noteq> None \<and> \<not> fatal then Test_Run p ij factory else uskip) (\<lambda>_.
       HandleExceptionsInMethodIfSupported kFixtureDestructor () (DeleteSelf p factory test))))"

definition start_test :: "nat \<times> nat \<Rightarrow> UnitTest \<Rightarrow> UnitTest" where
  "start_test ij s = notify (OnTestStart ij) (s\<lparr>current_test_info := Some ij\<rparr>)"

definition finish_test :: "nat \<times> nat \<Rightarrow> int \<Rightarrow> UnitTest \<Rightarrow> UnitTest" where
  "finish_test ij elapsed s =
     (notify (OnTestEnd ij) (change_info ij (\<lambda>t. t\<lparr>test_result := (test_result t)\<lparr>elapsed_time := elapsed\<rparr>\<rparr>) s))
       \<lparr>current_test_info := None\<rparr>"

definition TestInfo_Run :: "('z) System_scheme \<Rightarrow> Program \<Rightarrow> nat \<times> nat \<Rightarrow> unit action" where
  "TestInfo_Run sys p ij s =
     (let t = test_info_list (test_cases s ! fst ij) ! snd ij
      in if \<not> info_should_run t then (Normal (), s)
         else
           ubind (uchange (start_test ij)) (\<lambda>_.
           ubind (GetTimeInMillis sys) (\<lambda>start.
           ubind (run_test_object p ij (test_factory t)) (\<lambda>_.
           ubind (GetTimeInMillis sys) (\<lambda>now.
             uchange (finish_test ij (now - start)))))) s)"

subsection \<open>Test cases and environments\<close>

primrec for_each :: "('x \<Rightarrow> unit action) \<Rightarrow> 'x list \<Rightarrow> unit action" where
  "for_each f [] = uskip"
| "for_each f (x # xs) = ubind (f x) (\<lambda>_. for_each f xs)"

definition run_nth_test :: "('z) System_scheme \<Rightarrow> Program \<Rightarrow> nat \<Rightarrow> int \<Rightarrow> unit action" where
  "run_nth_test sys p i k s =
     (case GetMutableTestInfo (test_cases s ! i) k of
        None \<Rightarrow> (Stops (Fault Null_pointer), s)
      | Some j \<Rightarrow> TestInfo_Run sys p (i, j) s)"

definition start_case :: "nat \<Rightarrow> UnitTest \<Rightarrow> UnitTest" where
  "start_case i s = notify (OnTestCaseStart i) (s\<lparr>current_test_case := Some i\<rparr>)"

definition finish_case :: "nat \<Rightarrow> UnitTest \<Rightarrow> UnitTest" where
  "finish_case i s = (notify (OnTestCaseEnd i) s)\<lparr>current_test_case := None\<rparr>"

definition run_case_function :: "Program \<Rightarrow> bytes \<Rightarrow> nat \<Rightarrow> unit action" where
  "run_case_function p location f =
     HandleExceptionsInMethodIfSupported location () (run_code (gtest_cc_file p) (case_function p f))"

definition TestCase_Run :: "('z) System_scheme \<Rightarrow> Program \<Rightarrow> nat \<Rightarrow> unit action" where
  "TestCase_Run sys p i s =
     (let c = test_cases s ! i
      in if \<not> case_should_run c then (Normal (), s)
         else
           ubind (uchange (start_case i)) (\<lambda>_.
           ubind (run_case_function p (lit ''SetUpTestCase()'') (set_up_tc c)) (\<lambda>_.
           ubind (GetTimeInMillis sys) (\<lambda>start.
           ubind (for_each (run_nth_test sys p i) (map int [0..<length (test_info_list c)])) (\<lambda>_.
           ubind (GetTimeInMillis sys) (\<lambda>now.
           ubind (uchange (change_case i (\<lambda>c. c\<lparr>case_elapsed_time := now - start\<rparr>))) (\<lambda>_.
           ubind (run_case_function p (lit ''TearDownTestCase()'') (tear_down_tc c)) (\<lambda>_.
             uchange (finish_case i)))))))) s)"

definition run_nth_case :: "('z) System_scheme \<Rightarrow> Program \<Rightarrow> int \<Rightarrow> unit action" where
  "run_nth_case sys p k s =
     (case GetMutableTestCase s k of
        None \<Rightarrow> (Stops (Fault Null_pointer), s)
      | Some i \<Rightarrow> TestCase_Run sys p i s)"

subsection \<open>All tests\<close>

definition lift_res :: "(UnitTest \<Rightarrow> UnitTest res) \<Rightarrow> unit action" where
  "lift_res f s = (case f s of Inl e \<Rightarrow> (Stops (Fault e), s) | Inr s1 \<Rightarrow> (Normal (), s1))"

definition shuffle_if_requested :: "bool \<Rightarrow> unit action" where
  "shuffle_if_requested has_tests_to_run s =
     (if has_tests_to_run \<and> shuffle_flag (gtest_flags s)
      then lift_res ShuffleTests (s\<lparr>random_state := word_of_int (random_seed s)\<rparr>) else (Normal (), s))"

definition next_seed :: "unit action" where
  "next_seed s =
     (if shuffle_flag (gtest_flags s)
      then lift_res (\<lambda>s. rbind (GetNextRandomSeed (random_seed s)) (\<lambda>seed. Inr (s\<lparr>random_seed := seed\<rparr>))) s else (Normal (), s))"

text \<open>The environments around the test cases.\<close>

definition run_environments :: "('z) System_scheme \<Rightarrow> Program \<Rightarrow> unit action" where
  "run_environments sys p =
     ubind (uchange (notify OnEnvironmentsSetUpStart)) (\<lambda>_.
     ubind (\<lambda>s. for_each (\<lambda>e. run_code (gtest_cc_file p) (environment_SetUp p e)) (environments s) s) (\<lambda>_.
     ubind (uchange (notify OnEnvironmentsSetUpEnd)) (\<lambda>_.
     ubind (\<lambda>s. if \<not> Test_HasFatalFailure s then for_each (run_nth_case sys p) (map int [0..<length (test_cases s)]) s
                else (Normal (), s)) (\<lambda>_.
     ubind (uchange (notify OnEnvironmentsTearDownStart)) (\<lambda>_.
     ubind (\<lambda>s. for_each (\<lambda>e. run_code (gtest_cc_file p) (environment_TearDown p e)) (rev (environments s)) s) (\<lambda>_.
       uchange (notify OnEnvironmentsTearDownEnd)))))))"

text \<open>The body of the loop; it returns whether something failed.\<close>

definition run_iteration :: "('z) System_scheme \<Rightarrow> Program \<Rightarrow> bool \<Rightarrow> int \<Rightarrow> bool action" where
  "run_iteration sys p has_tests_to_run i =
     ubind (uchange ClearNonAdHocTestResult) (\<lambda>_.
     ubind (GetTimeInMillis sys) (\<lambda>start.
     ubind (shuffle_if_requested has_tests_to_run) (\<lambda>_.
     ubind (uchange (notify (OnTestIterationStart i))) (\<lambda>_.
     ubind (if has_tests_to_run then run_environments sys p else uskip) (\<lambda>_.
     ubind (GetTimeInMillis sys) (\<lambda>now.
     ubind (uchange (\<lambda>s. notify (OnTestIterationEnd i) (s\<lparr>unit_elapsed_time := now - start\<rparr>))) (\<lambda>_.
     ubind (uread UnitTest_Failed) (\<lambda>failed_now.
     ubind (uchange UnshuffleTests) (\<lambda>_.
     ubind next_seed (\<lambda>_. ureturn failed_now))))))))))"

text \<open>None: a negative count repeats for ever.\<close>

partial_function (option) iterations ::
  "('z) System_scheme \<Rightarrow> Program \<Rightarrow> bool \<Rightarrow> int \<Rightarrow> int \<Rightarrow> bool \<Rightarrow> UnitTest \<Rightarrow> (bool completion \<times> UnitTest) option" where
  "iterations sys p has_tests_to_run repeat_count i failed_before s =
     (if \<not> repeat_count < 0 \<and> i = repeat_count then Some (Normal failed_before, s)
      else case run_iteration sys p has_tests_to_run i s of
             (Normal f, s1) \<Rightarrow> iterations sys p has_tests_to_run repeat_count (i + 1) (failed_before \<or> f) s1
           | (Throws e, s1) \<Rightarrow> Some (Throws e, s1)
           | (Stops e, s1) \<Rightarrow> Some (Stops e, s1))"

subsection \<open>The list of tests\<close>

fun one_line :: "int \<Rightarrow> int \<Rightarrow> bytes \<Rightarrow> bytes" where
  "one_line i max_length [] = []"
| "one_line i max_length (c # cs) =
     (if i \<ge> max_length then lit ''...''
      else if c = 10 then [92] @ lit ''n'' @ one_line (i + 2) max_length cs
      else c # one_line (i + 1) max_length cs)"

definition PrintOnOneLine :: "bytes option \<Rightarrow> int \<Rightarrow> bytes" where
  "PrintOnOneLine str max_length = (case str of None \<Rightarrow> [] | Some cs \<Rightarrow> one_line 0 max_length cs)"

definition kTypeParamLabel :: bytes where "kTypeParamLabel = lit ''TypeParam''"
definition kValueParamLabel :: bytes where "kValueParamLabel = lit ''GetParam()''"

text \<open>The lines of the tests of a case, the name of the case before the first of them.\<close>

fun list_infos :: "TestCase \<Rightarrow> bool \<Rightarrow> TestInfo list \<Rightarrow> bytes" where
  "list_infos c printed_test_case_name [] = []"
| "list_infos c printed_test_case_name (t # ts) =
     (if matches_filter t then
        (if \<not> printed_test_case_name then
           case_name c @ lit ''.'' @
           (case case_type_param c of
              None \<Rightarrow> []
            | Some _ \<Rightarrow> lit ''  # '' @ kTypeParamLabel @ lit '' = '' @ PrintOnOneLine (case_type_param c) 250) @ newline
         else []) @
        lit ''  '' @ info_name t @
        (case info_value_param t of
           None \<Rightarrow> []
         | Some _ \<Rightarrow> lit ''  # '' @ kValueParamLabel @ lit '' = '' @ PrintOnOneLine (info_value_param t) 250) @ newline @
        list_infos c True ts
      else list_infos c printed_test_case_name ts)"

definition ListTestsMatchingFilter :: "UnitTest \<Rightarrow> UnitTest" where
  "ListTestsMatchingFilter s = print_out (concat (map (\<lambda>c. list_infos c False (test_info_list c)) (test_cases s))) s"

subsection \<open>The run\<close>

text \<open>Whether \<open>ColoredPrintf\<close> uses colours, by its static variable.\<close>

definition color_mode :: "('z) System_scheme \<Rightarrow> UnitTest \<Rightarrow> bool" where
  "color_mode sys s =
     (case in_color_mode (options s) of
        Some m \<Rightarrow> m
      | None \<Rightarrow> ShouldUseColor (host_env sys) (gtest_flags s) (stdout_is_tty sys))"

definition WriteToShardStatusFileIfNeeded :: "('z) System_scheme \<Rightarrow> UnitTest \<Rightarrow> unit run" where
  "WriteToShardStatusFileIfNeeded sys s =
     (case host_env sys kTestShardStatusFile of
        None \<Rightarrow> Inr ()
      | Some test_shard_file \<Rightarrow>
          if creatable sys test_shard_file then Inr ()
          else Inl (Exit_failure (ColoredPrintf (color_mode sys s) COLOR_RED
            (lit ''Could not write to the test shard status file '' @ [34] @ test_shard_file @ [34] @
             lit '' specified by the '' @ kTestShardStatusFile @ lit '' environment variable.'' @ newline))))"

text \<open>What comes before the loop: the tests to run, and whether to list them only. The whole may not end, see above.\<close>

definition prepare_run :: "('z) System_scheme \<Rightarrow> UnitTest \<Rightarrow> (int \<times> UnitTest) run option" where
  "prepare_run sys s =
     map_option
       (\<lambda>r. run_bind r (\<lambda>s1.
          run_bind (WriteToShardStatusFileIfNeeded sys s1) (\<lambda>_.
          run_bind (ShouldShard (color_mode sys s1) (host_env sys) kTestTotalShards kTestShardIndex
                      (internal_run_death_test_flag s1 \<noteq> None)) (\<lambda>should_shard.
          run_bind (FilterTests (host_env sys) (gtest_flags s1)
                      (if should_shard then HONOR_SHARDING_PROTOCOL else IGNORE_SHARDING_PROTOCOL) (test_cases s1)) (\<lambda>(n, cs).
            Inr (n, s1\<lparr>test_cases := cs\<rparr>))))))
       (PostFlagParsingInit sys s)"

text \<open>The random seed, the time of the start, and the first event.\<close>

definition start_run :: "('z) System_scheme \<Rightarrow> UnitTest \<Rightarrow> UnitTest" where
  "start_run sys s1 =
     (let fl = gtest_flags s1;
          (seed, s2) = (if shuffle_flag fl then
                          (if random_seed_flag fl = 0
                           then (GetRandomSeedFromFlag (clock sys (ticks s1)) 0, s1\<lparr>ticks := ticks s1 + 1\<rparr>)
                           else (GetRandomSeedFromFlag 0 (random_seed_flag fl), s1))
                        else (0, s1))
      in notify OnTestProgramStart
           (s2\<lparr>random_seed := seed, start_timestamp := clock sys (ticks s2), ticks := ticks s2 + 1\<rparr>))"

definition RunAllTests :: "('z) System_scheme \<Rightarrow> Program \<Rightarrow> UnitTest \<Rightarrow> (bool completion \<times> UnitTest) option" where
  "RunAllTests sys p s =
     (if \<not> GTestIsInitialized s then
        Some (Normal False, print_out (newline @ lit ''This test program did NOT call ::testing::InitGoogleTest '' @
          lit ''before calling RUN_ALL_TESTS().  Please fix it.'' @ newline) s)
      else if g_help_flag (options s) then Some (Normal True, s)
      else case prepare_run sys s of
             None \<Rightarrow> None
           | Some (Inl e) \<Rightarrow> Some (Stops e, s)
           | Some (Inr (n, s1)) \<Rightarrow>
               if list_tests (gtest_flags s1) then Some (Normal True, ListTestsMatchingFilter s1)
               else
                 let s2 = start_run sys s1;
                     repeat_count = (if internal_run_death_test_flag s2 \<noteq> None then 1 else repeat_flag (gtest_flags s2))
                 in (case iterations sys p (n > 0) repeat_count 0 False s2 of
                       None \<Rightarrow> None
                     | Some (Normal failed_ever, s3) \<Rightarrow> Some (Normal (\<not> failed_ever), notify OnTestProgramEnd s3)
                     | Some (Throws e, s3) \<Rightarrow> Some (Throws e, s3)
                     | Some (Stops e, s3) \<Rightarrow> Some (Stops e, s3)))"

text \<open>
  The file that tells of a premature exit. The code writes to the stream that \<open>fopen\<close> returns without
  looking at it. The last part of the result is the file that is left behind.
\<close>

definition ScopedPrematureExitFile_new :: "('z) System_scheme \<Rightarrow> bytes option \<Rightarrow> bytes option run" where
  "ScopedPrematureExitFile_new sys premature_exit_filepath =
     (case premature_exit_filepath of
        None \<Rightarrow> Inr None
      | Some path \<Rightarrow>
          if path = [] then Inr None
          else if creatable sys path then Inr (Some path) else Inl (Fault Null_pointer))"

definition UnitTest_Run :: "('z) System_scheme \<Rightarrow> Program \<Rightarrow> UnitTest \<Rightarrow> (int completion \<times> UnitTest \<times> bytes option) option" where
  "UnitTest_Run sys p s =
     (let in_death_test_child_process = (internal_run_death_test (gtest_flags s) \<noteq> [])
      in case ScopedPrematureExitFile_new sys
                (if in_death_test_child_process then None else host_env sys (lit ''TEST_PREMATURE_EXIT_FILE'')) of
           Inl e \<Rightarrow> Some (Stops e, s, None)
         | Inr premature_exit_file \<Rightarrow>
             let s1 = s\<lparr>catching_exceptions := catch_exceptions (gtest_flags s)\<rparr>
             in map_option
                  (\<lambda>r. case (if catching_exceptions s1
                              then catch_result (lit ''auxiliary test code (environments or event listeners)'') False r else r) of
                     (Normal ok, s2) \<Rightarrow> (Normal (if ok then 0 else 1), s2, None)
                   | (Throws e, s2) \<Rightarrow> (Throws e, s2, None)
                   | (Stops e, s2) \<Rightarrow> (Stops e, s2, premature_exit_file))
                  (RunAllTests sys p s1))"

section \<open>Properties\<close>

subsection \<open>What the user's code may change\<close>

text \<open>
  The library calls the user's code, and the code calls back: it reports results, records properties,
  sets flags and opens traced scopes. A relation between the states before and after that each of these
  keeps is kept by every piece of code, however it ends, and by the functions of the library around it.
\<close>

locale code_contract =
  fixes R :: "UnitTest \<Rightarrow> UnitTest \<Rightarrow> bool"
  assumes R_refl: "R s s"
    and R_trans: "R s1 s2 \<Longrightarrow> R s2 s3 \<Longrightarrow> R s1 s3"
    and R_report: "R s (ReportTestPartResult result s)"
    and R_info_property: "current_test_info s = Some ij \<Longrightarrow>
      R s (change_info ij (\<lambda>t. t\<lparr>test_result := (test_result t)\<lparr>test_properties := ps\<rparr>\<rparr>) s)"
    and R_case_property: "R s (change_case i (\<lambda>c. c\<lparr>case_ad_hoc_test_result := (case_ad_hoc_test_result c)\<lparr>test_properties := ps\<rparr>\<rparr>) s)"
    and R_unit_property: "R s (s\<lparr>ad_hoc_test_result := (ad_hoc_test_result s)\<lparr>test_properties := ps\<rparr>\<rparr>)"
    and R_flags: "R s (set_flags fl s)"
    and R_traces: "R s (s\<lparr>gtest_trace_stack := ts\<rparr>)"
begin

lemma R_ubind: "R s (snd (m s)) \<Longrightarrow> (\<And>x s1. m s = (Normal x, s1) \<Longrightarrow> R s1 (snd (f x s1))) \<Longrightarrow> R s (snd (ubind m f s))"
  by (auto simp: ubind_def split: completion.splits prod.splits intro: R_trans)

lemma R_AddTestPartResult: "R s (snd (UnitTest_AddTestPartResult k file line message trace s))"
  by (simp add: UnitTest_AddTestPartResult_def Let_def R_report)

lemma R_ADD_FAILURE: "R s (snd (ADD_FAILURE here message s))"
  by (simp add: ADD_FAILURE_def AssertHelper_assign_def R_AddTestPartResult)

lemma R_RecordProperty: "R s (snd (UnitTest_RecordProperty here prop s))"
proof -
  have put: "R s (put r1)"
    if put: "(put, r) = (case current_test_info s of
           Some p \<Rightarrow> ((\<lambda>r1. change_info p (\<lambda>t. t\<lparr>test_result := r1\<rparr>) s), current_test_result s)
         | None \<Rightarrow> (case current_test_case s of
                Some i \<Rightarrow> ((\<lambda>r1. change_case i (\<lambda>c. c\<lparr>case_ad_hoc_test_result := r1\<rparr>) s), case_ad_hoc_test_result (test_cases s ! i))
              | None \<Rightarrow> ((\<lambda>r1. s\<lparr>ad_hoc_test_result := r1\<rparr>), ad_hoc_test_result s)))"
      and rec: "TestResult_RecordProperty e prop r = Inr (Inr r1)" for put r r1 e
  proof -
    obtain ps where r1: "r1 = r\<lparr>test_properties := ps\<rparr>"
      using rec by (auto simp: TestResult_RecordProperty_def rbind_def split: sum.splits prod.splits bool.splits)
    show ?thesis
      using put R_info_property [of s _ ps] R_case_property [of s _ ps] R_unit_property [of s ps]
      by (auto simp: r1 current_test_result_def change_info_def change_case_def split: option.splits prod.splits)
  qed
  show ?thesis
    by (auto simp: UnitTest_RecordProperty_def Let_def R_ADD_FAILURE R_refl split: option.splits sum.splits intro!: put)
qed

lemma R_do_act: "R s (snd (do_act f a s))"
  by (cases a) (simp_all add: do_act_def AssertHelper_assign_def R_AddTestPartResult R_RecordProperty R_refl R_flags uchange_def)

lemma R_PopGTestTrace: "R s (snd (PopGTestTrace s))"
  by (simp add: PopGTestTrace_def R_refl R_traces)

lemma R_run_code: "R s (snd (run_code f c s))"
proof (induction c arbitrary: s)
  case Return
  then show ?case by (simp add: uskip_def ureturn_def R_refl)
next
  case (Do a k)
  then show ?case by (auto intro!: R_ubind R_do_act)
next
  case (Scoped t body k)
  define r where "r = run_code f body (PushGTestTrace t s)"
  have "R s (PushGTestTrace t s)" by (simp add: PushGTestTrace_def R_traces)
  then have r: "R s (snd r)" using Scoped.IH(1) R_trans unfolding r_def by blast
  have pop: "R (snd r) (snd (ubind PopGTestTrace g (snd r)))" if "\<And>x s1. R s1 (snd (g x s1))" for g :: "unit \<Rightarrow> unit action"
    using that by (intro R_ubind R_PopGTestTrace)
  have "R (snd r) (snd (ubind PopGTestTrace (\<lambda>_ s2. run_code f (k s2) s2) (snd r)))" using Scoped.IH(2) by (intro pop) auto
  moreover have "R (snd r) (snd (ubind PopGTestTrace (\<lambda>_ s2. (Throws e :: unit completion, s2)) (snd r)))" for e
    by (intro pop) (simp add: R_refl)
  ultimately show ?case using r R_trans
    by (cases r) (auto simp: r_def [symmetric] split: completion.splits)
qed

lemma R_catch_result: "R s (snd r) \<Longrightarrow> R s (snd (catch_result location zero r))"
proof -
  assume r: "R s (snd r)"
  have "R (snd r) (snd (ubind (ReportFailureInUnknownLocation k m) (\<lambda>_. ureturn zero) (snd r)))" for k m
    by (rule R_ubind) (simp_all add: ReportFailureInUnknownLocation_def R_AddTestPartResult ureturn_def R_refl)
  then show ?thesis using r R_trans by (cases r) (auto simp: catch_result_def split: completion.splits exc.splits)
qed

lemma R_Handle: "R s (snd (m s)) \<Longrightarrow> R s (snd (HandleExceptionsInMethodIfSupported location zero m s))"
  by (simp add: HandleExceptionsInMethodIfSupported_def R_catch_result)

lemma R_restore_flags: "R s (restore_flags fl s)"
  by (simp add: restore_flags_def R_flags)

lemma R_CreateTest: "R s (snd (CreateTest p factory s))"
  using R_run_code [of s "gtest_cc_file p" "constructor (test_class p factory)"] R_restore_flags R_trans
  by (auto simp: CreateTest_def Let_def split: prod.splits completion.splits)

lemma R_DeleteSelf: "R s (snd (DeleteSelf p factory test s))"
  using R_run_code [of s "gtest_cc_file p" "destructor (test_class p factory)"] R_restore_flags R_trans R_refl
  by (auto simp: DeleteSelf_def Let_def split: prod.splits completion.splits option.splits)

lemma R_HasSameFixtureClass: "R s (snd (HasSameFixtureClass p ij s))"
  by (auto simp: HasSameFixtureClass_def Let_def R_refl ureturn_def intro!: R_ubind R_ADD_FAILURE)

lemma R_Test_Run: "R s (snd (Test_Run p ij factory s))"
  unfolding Test_Run_def Let_def
  by (rule R_ubind [OF R_HasSameFixtureClass])
    (auto simp: uskip_def ureturn_def uread_def R_refl intro!: R_ubind R_Handle R_run_code)

lemma R_run_test_object: "R s (snd (run_test_object p ij factory s))"
  unfolding run_test_object_def
  by (rule R_ubind [OF R_Handle [OF R_CreateTest]])
    (auto simp: uskip_def ureturn_def uread_def R_refl intro!: R_ubind R_Handle R_Test_Run R_DeleteSelf)

lemma R_for_each: "(\<And>x s. R s (snd (f x s))) \<Longrightarrow> R s (snd (for_each f xs s))"
  by (induction xs arbitrary: s) (auto simp: uskip_def ureturn_def R_refl intro!: R_ubind)

end

subsection \<open>What a run leaves alone\<close>

text \<open>
  \<open>erase\<close> forgets what the user's code may change: flags, results, traces, what the listeners were
  told, and with these the times.
\<close>

definition bare_info :: "TestInfo \<Rightarrow> TestInfo" where "bare_info t = t\<lparr>test_result := TestResult_new\<rparr>"

definition bare_case :: "TestCase \<Rightarrow> TestCase" where
  "bare_case c =
     c\<lparr>test_info_list := map bare_info (test_info_list c), case_elapsed_time := 0, case_ad_hoc_test_result := TestResult_new\<rparr>"

definition erase :: "UnitTest \<Rightarrow> UnitTest" where
  "erase s =
     s\<lparr>options := options (UnitTestImpl_new undefined), test_cases := map bare_case (test_cases s), ad_hoc_test_result := TestResult_new,
       gtest_trace_stack := [], ticks := 0, notified := []\<rparr>"

lemma bare_case_update:
  assumes "bare_info t = bare_info (test_info_list c ! j)"
  shows "bare_case (c\<lparr>test_info_list := (test_info_list c)[j := t]\<rparr>) = bare_case c"
  using assms by (cases "j < length (test_info_list c)") (simp_all add: bare_case_def map_update list_update_same_conv list_update_beyond)

lemma erase_update_case: "bare_case c = bare_case (test_cases s ! i) \<Longrightarrow> erase (s\<lparr>test_cases := (test_cases s)[i := c]\<rparr>) = erase s"
  by (cases "i < length (test_cases s)") (simp_all add: erase_def map_update list_update_same_conv list_update_beyond)

lemma erase_change_info: "(\<And>t. bare_info (f t) = bare_info t) \<Longrightarrow> erase (change_info ij f s) = erase s"
  by (cases ij) (simp add: change_info_def Let_def erase_update_case bare_case_update)

lemma erase_change_case: "(\<And>c. bare_case (f c) = bare_case c) \<Longrightarrow> erase (change_case i f s) = erase s"
  by (simp add: change_case_def erase_update_case)

lemma erase_simps [simp]:
  "erase (notify e s) = erase s" "erase (set_flags fl s) = erase s" "erase (s\<lparr>gtest_trace_stack := ts\<rparr>) = erase s"
  "erase (s\<lparr>ticks := n\<rparr>) = erase s" "erase (s\<lparr>ad_hoc_test_result := r\<rparr>) = erase s"
  by (simp_all add: erase_def notify_def set_flags_def)

lemma bare_simps [simp]:
  "bare_info (t\<lparr>test_result := r\<rparr>) = bare_info t" "bare_case (c\<lparr>case_ad_hoc_test_result := r\<rparr>) = bare_case c"
  "bare_case (c\<lparr>case_elapsed_time := n\<rparr>) = bare_case c"
  by (simp_all add: bare_info_def bare_case_def)

lemma erase_report: "erase (ReportTestPartResult p s) = erase s"
  by (auto simp: ReportTestPartResult_def change_current_result_def erase_change_info split: option.splits)

interpretation frame: code_contract "\<lambda>s s'. erase s' = erase s"
  by unfold_locales (simp_all add: erase_report erase_change_info erase_change_case)

lemma erase_eqD:
  assumes "erase s' = erase s"
  shows "event_listeners s' = event_listeners s" "current_test_info s' = current_test_info s" "current_test_case s' = current_test_case s"
    "test_case_indices s' = test_case_indices s" "last_death_test_case s' = last_death_test_case s"
    "environments s' = environments s" "random_seed s' = random_seed s" "catching_exceptions s' = catching_exceptions s"
    "map bare_case (test_cases s') = map bare_case (test_cases s)" "length (test_cases s') = length (test_cases s)"
proof -
  have "event_listeners (erase s') = event_listeners (erase s)" "current_test_info (erase s') = current_test_info (erase s)"
    "current_test_case (erase s') = current_test_case (erase s)" "test_case_indices (erase s') = test_case_indices (erase s)"
    "last_death_test_case (erase s') = last_death_test_case (erase s)" "environments (erase s') = environments (erase s)"
    "random_seed (erase s') = random_seed (erase s)" "catching_exceptions (erase s') = catching_exceptions (erase s)"
    and cs: "test_cases (erase s') = test_cases (erase s)" using assms by simp_all
  then show "event_listeners s' = event_listeners s" "current_test_info s' = current_test_info s" "current_test_case s' = current_test_case s"
    "test_case_indices s' = test_case_indices s" "last_death_test_case s' = last_death_test_case s"
    "environments s' = environments s" "random_seed s' = random_seed s" "catching_exceptions s' = catching_exceptions s"
    by (simp_all add: erase_def)
  show "map bare_case (test_cases s') = map bare_case (test_cases s)" using cs by (simp add: erase_def)
  then show "length (test_cases s') = length (test_cases s)" by (rule map_eq_imp_length_eq)
qed

lemma bare_case_eqD:
  assumes "bare_case c' = bare_case c"
  shows "case_name c' = case_name c" "case_should_run c' = case_should_run c" "test_indices c' = test_indices c"
    "set_up_tc c' = set_up_tc c" "tear_down_tc c' = tear_down_tc c"
    "map bare_info (test_info_list c') = map bare_info (test_info_list c)" "length (test_info_list c') = length (test_info_list c)"
proof -
  have "case_name (bare_case c') = case_name (bare_case c)" "case_should_run (bare_case c') = case_should_run (bare_case c)"
    "test_indices (bare_case c') = test_indices (bare_case c)" "set_up_tc (bare_case c') = set_up_tc (bare_case c)"
    "tear_down_tc (bare_case c') = tear_down_tc (bare_case c)" and cs: "test_info_list (bare_case c') = test_info_list (bare_case c)"
    using assms by simp_all
  then show "case_name c' = case_name c" "case_should_run c' = case_should_run c" "test_indices c' = test_indices c"
    "set_up_tc c' = set_up_tc c" "tear_down_tc c' = tear_down_tc c" by (simp_all add: bare_case_def)
  show "map bare_info (test_info_list c') = map bare_info (test_info_list c)" using cs by (simp add: bare_case_def)
  then show "length (test_info_list c') = length (test_info_list c)" by (rule map_eq_imp_length_eq)
qed

lemma bare_info_eqD:
  assumes "bare_info t' = bare_info t"
  shows "info_should_run t' = info_should_run t" "test_factory t' = test_factory t"
proof -
  have "info_should_run (bare_info t') = info_should_run (bare_info t)" "test_factory (bare_info t') = test_factory (bare_info t)"
    using assms by simp_all
  then show "info_should_run t' = info_should_run t" "test_factory t' = test_factory t" by (simp_all add: bare_info_def)
qed

lemma erase_case: "erase s' = erase s \<Longrightarrow> i < length (test_cases s) \<Longrightarrow> bare_case (test_cases s' ! i) = bare_case (test_cases s ! i)"
  using erase_eqD(9,10) [of s' s] by (metis nth_map)

lemma bare_case_info: "bare_case c' = bare_case c \<Longrightarrow> j < length (test_info_list c) \<Longrightarrow>
    bare_info (test_info_list c' ! j) = bare_info (test_info_list c ! j)"
  using bare_case_eqD(6,7) [of c' c] by (metis nth_map)

subsection \<open>Failures and events\<close>

text \<open>A selected test, by the positions of its test case and of the test in it.\<close>

definition selected :: "UnitTest \<Rightarrow> nat \<times> nat \<Rightarrow> bool" where
  "selected s ij \<longleftrightarrow>
     (case ij of (i, j) \<Rightarrow>
        i < length (test_cases s) \<and> case_should_run (test_cases s ! i) \<and>
        j < length (test_info_list (test_cases s ! i)) \<and> info_should_run (test_info_list (test_cases s ! i) ! j))"

definition result_of :: "UnitTest \<Rightarrow> nat \<times> nat \<Rightarrow> TestResult" where
  "result_of s ij = test_result (test_info_list (test_cases s ! fst ij) ! snd ij)"

lemma UnitTest_Failed_iff: "UnitTest_Failed s \<longleftrightarrow> failed (ad_hoc_test_result s) \<or> (\<exists>ij. selected s ij \<and> failed (result_of s ij))"
proof -
  have "failed_test_case_count s > 0 \<longleftrightarrow> (\<exists>c \<in> set (test_cases s). case_should_run c \<and>
      (\<exists>t \<in> set (test_info_list c). info_should_run t \<and> failed (test_result t)))"
    by (auto simp: failed_test_case_count_def CountIf_pos TestCaseFailed_def case_Failed_iff)
  also have "\<dots> \<longleftrightarrow> (\<exists>ij. selected s ij \<and> failed (result_of s ij))"
    by (auto simp: selected_def result_of_def in_set_conv_nth Bex_def)
  finally show ?thesis by (auto simp: UnitTest_Failed_def)
qed

lemma UnitTest_Failed_at:
  assumes "selected s ij"
  shows "UnitTest_Failed s \<longleftrightarrow> failed (ad_hoc_test_result s) \<or>
    (\<exists>kl. kl \<noteq> ij \<and> selected s kl \<and> failed (result_of s kl)) \<or> failed (result_of s ij)"
proof -
  have "(\<exists>kl. P kl) \<longleftrightarrow> (\<exists>kl. kl \<noteq> ij \<and> P kl) \<or> P ij" for P :: "nat \<times> nat \<Rightarrow> bool" by metis
  from this [of "\<lambda>kl. selected s kl \<and> failed (result_of s kl)"] show ?thesis using assms by (simp only: UnitTest_Failed_iff simp_thms)
qed

lemma erase_selected: "erase s' = erase s \<Longrightarrow> selected s' ij = selected s ij"
proof -
  assume e: "erase s' = erase s"
  obtain i j where ij: "ij = (i, j)" by (cases ij)
  show ?thesis
  proof (cases "i < length (test_cases s)")
    case True
    note c = erase_case [OF e True]
    show ?thesis
      using True bare_case_eqD(2,7) [OF c] bare_info_eqD(1) [OF bare_case_info [OF c]] erase_eqD(10) [OF e]
      by (auto simp: selected_def ij)
  qed (simp add: selected_def ij erase_eqD(10) [OF e])
qed

lemma result_of_change_info:
  assumes "selected s ij"
  shows "result_of (change_info ij f s) kl = (if kl = ij then test_result (f (test_info_list (test_cases s ! fst ij) ! snd ij)) else result_of s kl)"
  using assms
  by (cases ij; cases kl) (auto simp: selected_def result_of_def change_info_def Let_def nth_list_update)

text \<open>What a listener was told, but for the results of assertions; and whether a failure was told.\<close>

definition is_part :: "listener_event \<Rightarrow> bool" where
  "is_part e = (case e of OnTestPartResult _ \<Rightarrow> True | _ \<Rightarrow> False)"

definition structural :: "nat \<Rightarrow> (nat \<times> listener_event) list \<Rightarrow> listener_event list" where
  "structural l evs = map snd (filter (\<lambda>(k, e). k = l \<and> \<not> is_part e) evs)"

definition reported :: "(nat \<times> listener_event) list \<Rightarrow> bool" where
  "reported evs \<longleftrightarrow> (\<exists>(l, e) \<in> set evs. case e of OnTestPartResult p \<Rightarrow> part_failed p | _ \<Rightarrow> False)"

text \<open>The listeners hear of everything, and the results of a running test are its own.\<close>

definition watched :: "UnitTest \<Rightarrow> bool" where
  "watched s \<longleftrightarrow>
     (let r = repeater (event_listeners s) in forwarding_enabled r \<and> listeners r \<noteq> [] \<and> distinct (listeners r)) \<and>
     (case current_test_info s of None \<Rightarrow> True | Some ij \<Rightarrow> selected s ij)"

definition emits :: "listener_event list \<Rightarrow> UnitTest \<Rightarrow> UnitTest \<Rightarrow> bool" where
  "emits es s s' \<longleftrightarrow>
     event_listeners s' = event_listeners s \<and>
     (\<exists>evs. notified s' = notified s @ evs \<and> (UnitTest_Failed s' \<longleftrightarrow> UnitTest_Failed s \<or> reported evs) \<and>
       (\<forall>l \<in> set (listeners (repeater (event_listeners s))). structural l evs = es))"

definition tells :: "listener_event list \<Rightarrow> UnitTest \<Rightarrow> UnitTest \<Rightarrow> bool" where
  "tells es s s' \<longleftrightarrow> erase s' = erase s \<and> (watched s \<longrightarrow> emits es s s')"

lemma structural_simps [simp]:
  "structural l [] = []" "structural l (xs @ ys) = structural l xs @ structural l ys"
  by (simp_all add: structural_def)

lemma reported_simps [simp]: "\<not> reported []" "reported (xs @ ys) \<longleftrightarrow> reported xs \<or> reported ys"
  by (simp_all add: reported_def bex_Un)

lemma erase_watched: "erase s' = erase s \<Longrightarrow> watched s' = watched s"
  using erase_eqD(1,2) [of s' s] erase_selected [of s' s] by (simp add: watched_def split: option.splits)

lemma emits_refl: "emits [] s s"
  by (simp add: emits_def)

lemma emits_trans: "emits es1 s1 s2 \<Longrightarrow> emits es2 s2 s3 \<Longrightarrow> emits (es1 @ es2) s1 s3"
proof -
  assume a: "emits es1 s1 s2" and b: "emits es2 s2 s3"
  obtain ev1 where 1: "notified s2 = notified s1 @ ev1" "UnitTest_Failed s2 \<longleftrightarrow> UnitTest_Failed s1 \<or> reported ev1"
    "\<forall>l \<in> set (listeners (repeater (event_listeners s1))). structural l ev1 = es1" using a unfolding emits_def by blast
  obtain ev2 where 2: "notified s3 = notified s2 @ ev2" "UnitTest_Failed s3 \<longleftrightarrow> UnitTest_Failed s2 \<or> reported ev2"
    "\<forall>l \<in> set (listeners (repeater (event_listeners s2))). structural l ev2 = es2" using b unfolding emits_def by blast
  have "event_listeners s2 = event_listeners s1" "event_listeners s3 = event_listeners s2" using a b by (simp_all add: emits_def)
  then show ?thesis unfolding emits_def using 1 2 by (intro conjI exI [of _ "ev1 @ ev2"]) auto
qed

lemma emits_silent:
  "event_listeners s' = event_listeners s \<Longrightarrow> notified s' = notified s \<Longrightarrow> UnitTest_Failed s' = UnitTest_Failed s \<Longrightarrow> emits [] s s'"
  by (simp add: emits_def)

lemma UnitTest_Failed_cong:
  "test_cases s' = test_cases s \<Longrightarrow> failed (ad_hoc_test_result s') = failed (ad_hoc_test_result s) \<Longrightarrow> UnitTest_Failed s' = UnitTest_Failed s"
  by (simp add: UnitTest_Failed_def failed_test_case_count_def)

lemma structural_one: "distinct ls \<Longrightarrow> l \<in> set ls \<Longrightarrow> structural l (map (\<lambda>k. (k, e)) ls) = (if is_part e then [] else [e])"
proof (induction ls)
  case (Cons k ls)
  have none: "structural l (map (\<lambda>k. (k, e)) ks) = []" if "l \<notin> set ks" for ks
    using that by (auto simp: structural_def filter_empty_conv)
  have cons: "structural l (map (\<lambda>k. (k, e)) (k # ls)) = (if k = l \<and> \<not> is_part e then [e] else []) @ structural l (map (\<lambda>k. (k, e)) ls)"
    by (simp add: structural_def)
  show ?case using Cons none [of ls] unfolding cons by (cases "k = l") auto
qed simp

lemma reported_one: "ls \<noteq> [] \<Longrightarrow> reported (map (\<lambda>k. (k, e)) ls) \<longleftrightarrow> (case e of OnTestPartResult p \<Rightarrow> part_failed p | _ \<Rightarrow> False)"
  by (cases ls) (auto simp: reported_def)

lemma repeat_event_cases: "forwarding_enabled r \<Longrightarrow>
    \<exists>ls. repeat_event r e = map (\<lambda>k. (k, e)) ls \<and> (ls = listeners r \<or> ls = rev (listeners r))"
  by (cases e) (auto simp: repeat_event_def forward_def forward_reverse_def)

lemma notify_emits:
  assumes "watched s"
  shows "event_listeners (notify e s) = event_listeners s"
    and "\<exists>evs. notified (notify e s) = notified s @ evs \<and> (reported evs \<longleftrightarrow> (case e of OnTestPartResult p \<Rightarrow> part_failed p | _ \<Rightarrow> False)) \<and>
      (\<forall>l \<in> set (listeners (repeater (event_listeners s))). structural l evs = (if is_part e then [] else [e]))"
proof -
  show "event_listeners (notify e s) = event_listeners s" by (simp add: notify_def)
  let ?r = "repeater (event_listeners s)"
  have w: "forwarding_enabled ?r" "listeners ?r \<noteq> []" "distinct (listeners ?r)" using assms by (simp_all add: watched_def Let_def)
  obtain ls where ls: "repeat_event ?r e = map (\<lambda>k. (k, e)) ls" "ls = listeners ?r \<or> ls = rev (listeners ?r)"
    using repeat_event_cases [OF w(1)] by blast
  have "ls \<noteq> []" "distinct ls" "set ls = set (listeners ?r)" using w(2,3) ls(2) by auto
  then show "\<exists>evs. notified (notify e s) = notified s @ evs \<and> (reported evs \<longleftrightarrow> (case e of OnTestPartResult p \<Rightarrow> part_failed p | _ \<Rightarrow> False)) \<and>
      (\<forall>l \<in> set (listeners ?r). structural l evs = (if is_part e then [] else [e]))"
    using reported_one [of ls e] structural_one [of ls _ e] ls(1)
    by (intro exI [of _ "map (\<lambda>k. (k, e)) ls"]) (simp add: notify_def)
qed

lemma emits_notify: "watched s \<Longrightarrow> \<not> is_part e \<Longrightarrow> emits [e] s (notify e s)"
  using notify_emits [of s e] UnitTest_Failed_cong [of "notify e s" s]
  by (auto simp: emits_def is_part_def notify_def split: listener_event.splits)

lemma failed_AddTestPartResult: "failed (TestResult_AddTestPartResult p r) \<longleftrightarrow> failed r \<or> part_failed p"
  by (auto simp: failed_iff TestResult_AddTestPartResult_def)

lemma failed_properties [simp]: "failed (r\<lparr>test_properties := ps\<rparr>) = failed r" "failed (r\<lparr>elapsed_time := n\<rparr>) = failed r"
  by (simp_all add: failed_iff)

lemma Failed_change_info:
  assumes "selected s ij" and "\<And>t. bare_info (f t) = bare_info t"
  shows "UnitTest_Failed (change_info ij f s) \<longleftrightarrow>
    failed (ad_hoc_test_result s) \<or> (\<exists>kl. kl \<noteq> ij \<and> selected s kl \<and> failed (result_of s kl)) \<or>
    failed (test_result (f (test_info_list (test_cases s ! fst ij) ! snd ij)))"
proof -
  have "selected (change_info ij f s) kl = selected s kl" for kl
    using assms(2) by (intro erase_selected erase_change_info)
  moreover have "ad_hoc_test_result (change_info ij f s) = ad_hoc_test_result s" by (cases ij) (simp add: change_info_def Let_def)
  ultimately show ?thesis
    using assms(1) by (auto simp: UnitTest_Failed_iff result_of_change_info simp del: split_paired_Ex split_paired_All)
qed

lemma Failed_change_info_same:
  assumes "selected s ij" and "\<And>t. bare_info (f t) = bare_info t" and "\<And>t. failed (test_result (f t)) = failed (test_result t)"
  shows "UnitTest_Failed (change_info ij f s) = UnitTest_Failed s"
  by (simp only: Failed_change_info [OF assms(1,2)] assms(3) result_of_def [symmetric] UnitTest_Failed_at [OF assms(1)])

lemma emits_report:
  assumes "watched s"
  shows "emits [] s (ReportTestPartResult p s)"
proof -
  define s1 where "s1 = change_current_result (TestResult_AddTestPartResult p) s"
  have "erase s1 = erase s" by (auto simp: s1_def change_current_result_def erase_change_info split: option.splits)
  then have w: "watched s1" "event_listeners s1 = event_listeners s" using assms erase_watched erase_eqD(1) by blast+
  have n: "notified s1 = notified s"
    by (auto simp: s1_def change_current_result_def change_info_def Let_def split: option.splits)
  have F: "UnitTest_Failed s1 \<longleftrightarrow> UnitTest_Failed s \<or> part_failed p"
  proof (cases "current_test_info s")
    case None
    then show ?thesis
      by (auto simp: s1_def change_current_result_def UnitTest_Failed_def failed_test_case_count_def failed_AddTestPartResult)
  next
    case (Some ij)
    have sel: "selected s ij" using assms Some by (simp add: watched_def)
    have "UnitTest_Failed s1 \<longleftrightarrow> failed (ad_hoc_test_result s) \<or> (\<exists>kl. kl \<noteq> ij \<and> selected s kl \<and> failed (result_of s kl)) \<or>
        failed (result_of s ij) \<or> part_failed p"
      by (simp add: s1_def change_current_result_def Some Failed_change_info [OF sel] failed_AddTestPartResult result_of_def
        del: split_paired_Ex)
    then show ?thesis unfolding UnitTest_Failed_at [OF sel] by (simp only: disj_assoc)
  qed
  have "UnitTest_Failed (notify e s1) = UnitTest_Failed s1" for e by (rule UnitTest_Failed_cong) (simp_all add: notify_def)
  then show ?thesis
    using notify_emits [OF w(1), of "OnTestPartResult p"] n w(2) F
    by (auto simp: emits_def ReportTestPartResult_def s1_def [symmetric] is_part_def)
qed

lemma tells_trans: "tells es1 s1 s2 \<Longrightarrow> tells es2 s2 s3 \<Longrightarrow> tells (es1 @ es2) s1 s3"
  using erase_watched [of s2 s1] emits_trans by (auto simp: tells_def)

interpretation told: code_contract "tells []"
proof unfold_locales
  fix s s1 s2 s3 fl ts ps i ij result
  show "tells [] s s" by (simp add: tells_def emits_refl)
  show "tells [] s1 s2 \<Longrightarrow> tells [] s2 s3 \<Longrightarrow> tells [] s1 s3" using tells_trans by fastforce
  show "tells [] s (ReportTestPartResult result s)" by (simp add: tells_def frame.R_report emits_report)
  show "tells [] s (change_info ij (\<lambda>t. t\<lparr>test_result := (test_result t)\<lparr>test_properties := ps\<rparr>\<rparr>) s)" if "current_test_info s = Some ij"
  proof -
    let ?s = "change_info ij (\<lambda>t. t\<lparr>test_result := (test_result t)\<lparr>test_properties := ps\<rparr>\<rparr>) s"
    have "emits [] s ?s" if w: "watched s"
    proof (rule emits_silent)
      have "selected s ij" using w \<open>current_test_info s = Some ij\<close> by (simp add: watched_def)
      then show "UnitTest_Failed ?s = UnitTest_Failed s" by (simp add: Failed_change_info_same)
    qed (simp_all add: change_info_def Let_def split: prod.splits)
    then show ?thesis using frame.R_info_property [OF that] by (simp add: tells_def)
  qed
  show "tells [] s (change_case i (\<lambda>c. c\<lparr>case_ad_hoc_test_result := (case_ad_hoc_test_result c)\<lparr>test_properties := ps\<rparr>\<rparr>) s)" for i
  proof -
    let ?f = "\<lambda>c. c\<lparr>case_ad_hoc_test_result := (case_ad_hoc_test_result c)\<lparr>test_properties := ps\<rparr>\<rparr>"
    have "result_of (change_case i ?f s) kl = result_of s kl" for kl
      by (cases "i < length (test_cases s)") (simp_all add: result_of_def change_case_def nth_list_update list_update_beyond)
    then have "UnitTest_Failed (change_case i ?f s) = UnitTest_Failed s"
      using erase_selected [OF frame.R_case_property [of i ps s]]
      by (simp add: UnitTest_Failed_iff) (simp add: change_case_def)
    then show ?thesis using frame.R_case_property [of i ps s]
      by (auto simp: tells_def intro!: emits_silent) (simp_all add: change_case_def)
  qed
  show "tells [] s (s\<lparr>ad_hoc_test_result := (ad_hoc_test_result s)\<lparr>test_properties := ps\<rparr>\<rparr>)"
    by (simp add: tells_def emits_silent UnitTest_Failed_def failed_test_case_count_def)
  show "tells [] s (set_flags fl s)"
    by (simp add: tells_def) (simp add: set_flags_def emits_silent UnitTest_Failed_def failed_test_case_count_def)
  show "tells [] s (s\<lparr>gtest_trace_stack := ts\<rparr>)"
    by (simp add: tells_def emits_silent UnitTest_Failed_def failed_test_case_count_def)
qed

subsection \<open>The events of a run\<close>

text \<open>What every listener is told, but for the results of assertions.\<close>

definition test_events :: "UnitTest \<Rightarrow> nat \<times> nat \<Rightarrow> listener_event list" where
  "test_events s ij =
     (if info_should_run (test_info_list (test_cases s ! fst ij) ! snd ij) then [OnTestStart ij, OnTestEnd ij] else [])"

definition case_events :: "UnitTest \<Rightarrow> nat \<Rightarrow> listener_event list" where
  "case_events s i =
     (let c = test_cases s ! i
      in if case_should_run c
         then OnTestCaseStart i # concat (map (\<lambda>j. test_events s (i, nat j)) (test_indices c)) @ [OnTestCaseEnd i] else [])"

definition all_case_events :: "UnitTest \<Rightarrow> listener_event list" where
  "all_case_events s = concat (map (\<lambda>i. case_events s (nat i)) (test_case_indices s))"

text \<open>No test runs, and the orders are permutations.\<close>

definition idle :: "UnitTest \<Rightarrow> bool" where
  "idle s \<longleftrightarrow> watched s \<and> current_test_info s = None \<and> arranged s"

lemma erase_arranged: "erase s' = erase s \<Longrightarrow> arranged s' = arranged s"
proof -
  assume e: "erase s' = erase s"
  have all: "(\<forall>c \<in> set cs. P (test_indices c) (length (test_info_list c))) \<longleftrightarrow>
    (\<forall>c \<in> set (map bare_case cs). P (test_indices c) (length (test_info_list c)))" for cs and P :: "int list \<Rightarrow> nat \<Rightarrow> bool"
    by (simp add: bare_case_def)
  show ?thesis
    unfolding arranged_def erase_eqD(4,10) [OF e]
    by (subst all, subst (2) all) (simp add: erase_eqD(9) [OF e])
qed

lemma erase_idle: "erase s' = erase s \<Longrightarrow> idle s' = idle s"
  using erase_watched [of s' s] erase_arranged [of s' s] erase_eqD(2) [of s' s] by (simp add: idle_def)

lemma arranged_index:
  assumes "mset v = mset (map int [0..<n])" and "k < n"
  shows "GetElementOr v (int k) (- 1) = v ! k" "0 \<le> v ! k" "nat (v ! k) < n"
proof -
  have len: "length v = n" using mset_ints_length [OF assms(1)] .
  then show "GetElementOr v (int k) (- 1) = v ! k" using assms(2) by (simp add: GetElementOr_def)
  have "v ! k \<in> set v" using len assms(2) by simp
  also have "set v = int ` {0..<n}" using assms(1) by (metis atLeastLessThan_upt set_map set_mset_mset)
  finally show "0 \<le> v ! k" "nat (v ! k) < n" by auto
qed

lemma ubind_NormalE:
  assumes "ubind m f s = (Normal y, s')"
  obtains x s1 where "m s = (Normal x, s1)" and "f x s1 = (Normal y, s')"
  using assms by (cases "m s"; cases "fst (m s)") (auto simp: ubind_def)

lemma ubind_simps:
  "ubind (uchange g) f1 s = f1 () (g s)" "ubind (uread h) f2 s = f2 (h s) s"
  "ubind (GetTimeInMillis sys) f3 s = f3 (clock sys (ticks s)) (s\<lparr>ticks := ticks s + 1\<rparr>)"
  "m s = (Normal x, s1) \<Longrightarrow> ubind m f s = f x s1"
  by (simp_all add: ubind_def uchange_def uread_def GetTimeInMillis_def)

lemma tells_step: "tells es s (snd (m s)) \<Longrightarrow> m s = (r, s') \<Longrightarrow> tells es s s'"
  by simp

lemma tells_chain: "tells [] s1 s2 \<Longrightarrow> tells es s2 s3 \<Longrightarrow> tells es s1 s3"
  using tells_trans [of "[]"] by simp

lemma tells_time: "GetTimeInMillis sys s = (r, s') \<Longrightarrow> tells [] s s'"
  by (auto simp: GetTimeInMillis_def tells_def UnitTest_Failed_def failed_test_case_count_def intro!: emits_silent)

lemma tells_notify: "\<not> is_part e \<Longrightarrow> tells [e] s (notify e s)"
  by (simp add: tells_def emits_notify)

lemma emits_same: "emits es s s1 \<Longrightarrow> event_listeners s2 = event_listeners s1 \<Longrightarrow> notified s2 = notified s1 \<Longrightarrow>
    UnitTest_Failed s2 = UnitTest_Failed s1 \<Longrightarrow> emits es s s2"
  by (simp add: emits_def)

lemma Failed_current [simp]:
  "UnitTest_Failed (s\<lparr>current_test_info := x\<rparr>) = UnitTest_Failed s" "UnitTest_Failed (s\<lparr>current_test_case := y\<rparr>) = UnitTest_Failed s"
  by (simp_all add: UnitTest_Failed_def failed_test_case_count_def)

lemma erase_current: "erase (s\<lparr>current_test_info := x\<rparr>) = (erase s)\<lparr>current_test_info := x\<rparr>"
    "erase (s\<lparr>current_test_case := y\<rparr>) = (erase s)\<lparr>current_test_case := y\<rparr>"
  by (simp_all add: erase_def)

lemma selected_current [simp]: "selected (s\<lparr>current_test_info := x\<rparr>) = selected s" "selected (s\<lparr>current_test_case := y\<rparr>) = selected s"
  by (simp_all add: selected_def fun_eq_iff)

lemma emits_start: "watched (s\<lparr>current_test_info := Some ij\<rparr>) \<Longrightarrow> emits [OnTestStart ij] s (start_test ij s)"
  using emits_notify [of "s\<lparr>current_test_info := Some ij\<rparr>" "OnTestStart ij"] by (simp add: emits_def start_test_def is_part_def)

lemma emits_finish:
  assumes w: "watched s" and sel: "selected s ij"
  shows "emits [OnTestEnd ij] s (finish_test ij n s)"
proof -
  define s1 where "s1 = change_info ij (\<lambda>t. t\<lparr>test_result := (test_result t)\<lparr>elapsed_time := n\<rparr>\<rparr>) s"
  have e: "erase s1 = erase s" by (simp add: s1_def erase_change_info)
  have "emits [] s s1"
    by (rule emits_silent) (simp_all add: s1_def Failed_change_info_same [OF sel], simp_all add: change_info_def Let_def split: prod.splits)
  moreover have "emits [OnTestEnd ij] s1 (notify (OnTestEnd ij) s1)"
    using erase_watched [OF e] w by (intro emits_notify) (simp_all add: is_part_def)
  ultimately have "emits [OnTestEnd ij] s (notify (OnTestEnd ij) s1)" using emits_trans by fastforce
  then show ?thesis by (rule emits_same) (simp_all add: finish_test_def s1_def)
qed

lemma TestInfo_Run_tells:
  assumes idle: "idle s" and sel: "fst ij < length (test_cases s)" "case_should_run (test_cases s ! fst ij)"
      "snd ij < length (test_info_list (test_cases s ! fst ij))"
    and run: "TestInfo_Run sys p ij s = (Normal (), s')"
  shows "tells (test_events s ij) s s'"
proof (cases "info_should_run (test_info_list (test_cases s ! fst ij) ! snd ij)")
  case False
  then show ?thesis using run by (simp add: TestInfo_Run_def test_events_def told.R_refl)
next
  case True
  define t where "t = test_info_list (test_cases s ! fst ij) ! snd ij"
  define s0 where "s0 = s\<lparr>current_test_info := Some ij\<rparr>"
  have sel0: "selected s ij" using sel True by (cases ij) (simp add: selected_def)
  have w0: "watched s0" using idle sel0 by (simp add: s0_def watched_def idle_def)
  obtain start s2 s3 now s4 where
      time1: "GetTimeInMillis sys (start_test ij s) = (Normal start, s2)"
    and body: "run_test_object p ij (test_factory t) s2 = (Normal (), s3)"
    and time2: "GetTimeInMillis sys s3 = (Normal now, s4)"
    and fin: "s' = finish_test ij (now - start) s4"
    using run True unfolding TestInfo_Run_def Let_def t_def
    by (simp split: if_splits) (elim ubind_NormalE, simp add: uchange_def)
  have e1: "erase (start_test ij s) = erase s0" by (simp add: start_test_def s0_def)
  have w1: "watched (start_test ij s)" using erase_watched [OF e1] w0 by simp
  have "tells [] (start_test ij s) s4"
    using tells_time [OF time1] tells_step [of "[]" _ "run_test_object p ij (test_factory t)", OF told.R_run_test_object body] tells_time [OF time2] told.R_trans by blast
  then have e4: "erase s4 = erase s0" and em: "emits [] (start_test ij s) s4" using e1 w1 by (simp_all add: tells_def)
  have "watched s4" "selected s4 ij" using erase_watched [OF e4] erase_selected [OF e4] w0 sel0 by (simp_all add: s0_def)
  then have "emits ([OnTestStart ij] @ [] @ [OnTestEnd ij]) s s'"
    using emits_trans [OF emits_start emits_trans [OF em emits_finish]] w0 unfolding fin s0_def by blast
  moreover have "erase s' = erase s"
  proof -
    have "erase s' = (erase s4)\<lparr>current_test_info := None\<rparr>"
      by (simp add: fin finish_test_def erase_current erase_change_info)
    then show ?thesis using idle by (simp add: e4 s0_def erase_current) (simp add: erase_def idle_def)
  qed
  ultimately show ?thesis using True by (simp add: tells_def test_events_def)
qed

lemma erase_test_events:
  assumes e: "erase s' = erase s" and "fst ij < length (test_cases s)" "snd ij < length (test_info_list (test_cases s ! fst ij))"
  shows "test_events s' ij = test_events s ij"
  using assms bare_info_eqD(1) [OF bare_case_info [OF erase_case [OF e assms(2)] assms(3)]] by (simp add: test_events_def)

text \<open>A loop tells what its rounds tell.\<close>

lemma for_each_tells:
  assumes "for_each f ks s = (Normal (), s')"
    and "\<And>k s1 s2. k \<in> set ks \<Longrightarrow> erase s1 = erase s \<Longrightarrow> f k s1 = (Normal (), s2) \<Longrightarrow> tells (g k) s1 s2"
  shows "tells (concat (map g ks)) s s'"
  using assms
proof (induction ks arbitrary: s)
  case Nil
  then show ?case by (simp add: uskip_def ureturn_def told.R_refl)
next
  case (Cons k ks)
  obtain s1 where s1: "f k s = (Normal (), s1)" "for_each f ks s1 = (Normal (), s')"
    using Cons.prems(1) by (auto elim!: ubind_NormalE)
  have one: "tells (g k) s s1" using Cons.prems(2) s1(1) by simp
  then have "erase s1 = erase s" by (simp add: tells_def)
  then have "tells (concat (map g ks)) s1 s'" using Cons.prems(2) by (intro Cons.IH [OF s1(2)]) simp
  then show ?case using tells_trans [OF one] by simp
qed

lemma map_index_nth: "length xs = n \<Longrightarrow> map (\<lambda>k. h (xs ! nat k)) (map int [0..<n]) = map h xs"
  by (rule nth_equalityI) simp_all

lemma run_tests_tell:
  assumes idle: "idle s" and i: "i < length (test_cases s)" "case_should_run (test_cases s ! i)"
    and run: "for_each (run_nth_test sys p i) (map int [0..<length (test_info_list (test_cases s ! i))]) s = (Normal (), s')"
  shows "tells (concat (map (\<lambda>j. test_events s (i, nat j)) (test_indices (test_cases s ! i)))) s s'"
proof -
  let ?c = "test_cases s ! i" let ?n = "length (test_info_list ?c)" and ?v = "test_indices ?c"
  have v: "mset ?v = mset (map int [0..<?n])" using idle i(1) by (simp add: idle_def arranged_def)
  have "tells (concat (map (\<lambda>k. test_events s (i, nat (?v ! nat k))) (map int [0..<?n]))) s s'"
  proof (rule for_each_tells [OF run])
    fix k s1 s2
    assume k: "k \<in> set (map int [0..<?n])" and e: "erase s1 = erase s" and r: "run_nth_test sys p i k s1 = (Normal (), s2)"
    obtain m where m: "k = int m" "m < ?n" using k by auto
    note c = bare_case_eqD [OF erase_case [OF e i(1)]]
    note at = arranged_index [OF v m(2)]
    have "GetMutableTestInfo (test_cases s1 ! i) k = Some (nat (?v ! m))"
      using at by (simp add: GetMutableTestInfo_def c(3) m(1))
    then have run: "TestInfo_Run sys p (i, nat (?v ! m)) s1 = (Normal (), s2)" using r by (simp add: run_nth_test_def)
    have "tells (test_events s1 (i, nat (?v ! m))) s1 s2"
      using erase_idle [OF e] idle erase_eqD(10) [OF e] i at(3) c(2,7) by (intro TestInfo_Run_tells [OF _ _ _ _ run]) simp_all
    then show "tells (test_events s (i, nat (?v ! nat k))) s1 s2"
      using erase_test_events [OF e, of "(i, nat (?v ! m))"] i(1) at(3) m(1) by simp
  qed
  then show ?thesis using map_index_nth [OF mset_ints_length [OF v], of "\<lambda>j. test_events s (i, nat j)"] by simp
qed

lemma erase_case_events:
  assumes e: "erase s' = erase s" and "arranged s" "i < length (test_cases s)"
  shows "case_events s' i = case_events s i"
proof -
  let ?c = "test_cases s ! i"
  note c = bare_case_eqD [OF erase_case [OF e assms(3)]]
  have "set (test_indices ?c) = int ` {0..<length (test_info_list ?c)}"
    using assms(2,3) unfolding arranged_def by (metis atLeastLessThan_upt nth_mem set_map set_mset_mset)
  then have "map (\<lambda>j. test_events s' (i, nat j)) (test_indices ?c) = map (\<lambda>j. test_events s (i, nat j)) (test_indices ?c)"
    using assms(3) by (auto intro!: map_cong erase_test_events [OF e])
  then show ?thesis by (simp add: case_events_def Let_def c(2,3) cong: map_cong)
qed

lemma tells_case_time: "tells [] s (change_case i (\<lambda>c. c\<lparr>case_elapsed_time := n\<rparr>) s)"
proof -
  let ?s = "change_case i (\<lambda>c. c\<lparr>case_elapsed_time := n\<rparr>) s"
  have e: "erase ?s = erase s" by (simp add: erase_change_case)
  have "result_of ?s kl = result_of s kl" for kl
    by (cases "i < length (test_cases s)") (simp_all add: result_of_def change_case_def nth_list_update list_update_beyond)
  then have "UnitTest_Failed ?s = UnitTest_Failed s"
    using erase_selected [OF e] by (simp add: UnitTest_Failed_iff) (simp add: change_case_def)
  then show ?thesis by (simp add: tells_def e) (simp add: emits_silent change_case_def)
qed

lemma TestCase_Run_tells:
  assumes idle: "idle s" "current_test_case s = None" and i: "i < length (test_cases s)"
    and run: "TestCase_Run sys p i s = (Normal (), s')"
  shows "tells (case_events s i) s s'"
proof (cases "case_should_run (test_cases s ! i)")
  case False
  then show ?thesis using run by (simp add: TestCase_Run_def case_events_def told.R_refl)
next
  case True
  let ?c = "test_cases s ! i"
  define s0 where "s0 = s\<lparr>current_test_case := Some i\<rparr>"
  have called: "tells [] a b" if "run_case_function p l f a = (Normal (), b)" for l f a b
    using told.R_Handle [where m = "run_code (gtest_cc_file p) (case_function p f)" and s = a and location = l and zero = "()"]
      told.R_run_code that by (simp add: run_case_function_def)
  obtain s2 start s3 s4 now s5 s6 where
      set_up: "run_case_function p (lit ''SetUpTestCase()'') (set_up_tc ?c) (start_case i s) = (Normal (), s2)"
    and time1: "GetTimeInMillis sys s2 = (Normal start, s3)"
    and tests: "for_each (run_nth_test sys p i) (map int [0..<length (test_info_list ?c)]) s3 = (Normal (), s4)"
    and time2: "GetTimeInMillis sys s4 = (Normal now, s5)"
    and tear_down: "run_case_function p (lit ''TearDownTestCase()'') (tear_down_tc ?c) (change_case i (\<lambda>c. c\<lparr>case_elapsed_time := now - start\<rparr>) s5) = (Normal (), s6)"
    and fin: "s' = finish_case i s6"
    using run True unfolding TestCase_Run_def Let_def
    by (simp split: if_splits del: lit_Cons) (elim ubind_NormalE, auto simp add: uchange_def simp del: lit_Cons)
  have e1: "erase (start_case i s) = erase s0" by (simp add: start_case_def s0_def)
  have idle0: "idle s0" using idle by (simp add: s0_def idle_def watched_def arranged_def)
  have em1: "emits [OnTestCaseStart i] s (start_case i s)"
    using emits_notify [of s0 "OnTestCaseStart i"] idle0 by (simp add: emits_def start_case_def s0_def is_part_def idle_def)
  have "tells [] (start_case i s) s3" using tells_chain [OF called [OF set_up] tells_time [OF time1]] .
  then have t3: "tells [] (start_case i s) s3" and e3: "erase s3 = erase s0" using e1 by (simp_all add: tells_def)
  have c3: "bare_case (test_cases s3 ! i) = bare_case ?c" using erase_case [OF e3] i by (simp add: s0_def)
  have "tells (concat (map (\<lambda>j. test_events s3 (i, nat j)) (test_indices (test_cases s3 ! i)))) s3 s4"
    using erase_idle [OF e3] idle0 erase_eqD(10) [OF e3] i True tests bare_case_eqD(2,7) [OF c3]
    by (intro run_tests_tell) (simp_all add: s0_def)
  moreover have "concat (map (\<lambda>j. test_events s3 (i, nat j)) (test_indices (test_cases s3 ! i))) =
      concat (map (\<lambda>j. test_events s (i, nat j)) (test_indices ?c))"
  proof -
    have "case_events s3 i = case_events s0 i"
      using idle0 i by (intro erase_case_events [OF e3]) (simp_all add: idle_def s0_def)
    then show ?thesis using True bare_case_eqD(2) [OF c3] by (simp add: case_events_def Let_def s0_def test_events_def)
  qed
  ultimately have t4: "tells (concat (map (\<lambda>j. test_events s (i, nat j)) (test_indices ?c))) s3 s4" by simp
  have "tells [] s4 s6" using told.R_trans [OF tells_time [OF time2] told.R_trans [OF tells_case_time called [OF tear_down]]] .
  with tells_trans [OF tells_chain [OF t3 t4]]
  have t6: "tells (concat (map (\<lambda>j. test_events s (i, nat j)) (test_indices ?c))) (start_case i s) s6" by fastforce
  then have e6: "erase s6 = erase s0" using e1 by (simp add: tells_def)
  have w: "watched (start_case i s)" "watched s6" using erase_watched [OF e1] erase_watched [OF e6] idle0 by (simp_all add: idle_def)
  have em6: "emits [OnTestCaseEnd i] s6 s'"
    using emits_notify [OF w(2), of "OnTestCaseEnd i"] by (simp add: emits_def fin finish_case_def is_part_def)
  have "emits ([OnTestCaseStart i] @ concat (map (\<lambda>j. test_events s (i, nat j)) (test_indices ?c)) @ [OnTestCaseEnd i]) s s'"
    using emits_trans [OF em1 emits_trans [OF _ em6]] t6 w(1) by (simp add: tells_def)
  moreover have "erase s' = erase s"
  proof -
    have "erase s' = (erase s6)\<lparr>current_test_case := None\<rparr>" by (simp add: fin finish_case_def erase_current)
    then show ?thesis using idle(2) by (simp add: e6 s0_def erase_current) (simp add: erase_def)
  qed
  ultimately show ?thesis using True by (simp add: tells_def case_events_def)
qed

lemma run_cases_tell:
  assumes idle: "idle s" "current_test_case s = None"
    and run: "for_each (run_nth_case sys p) (map int [0..<length (test_cases s)]) s = (Normal (), s')"
  shows "tells (all_case_events s) s s'"
proof -
  let ?n = "length (test_cases s)" and ?v = "test_case_indices s"
  have v: "mset ?v = mset (map int [0..<?n])" using idle(1) by (simp add: idle_def arranged_def)
  have "tells (concat (map (\<lambda>k. case_events s (nat (?v ! nat k))) (map int [0..<?n]))) s s'"
  proof (rule for_each_tells [OF run])
    fix k s1 s2
    assume k: "k \<in> set (map int [0..<?n])" and e: "erase s1 = erase s" and r: "run_nth_case sys p k s1 = (Normal (), s2)"
    obtain m where m: "k = int m" "m < ?n" using k by auto
    note at = arranged_index [OF v m(2)]
    have "GetMutableTestCase s1 k = Some (nat (?v ! m))"
      using at by (simp add: GetMutableTestCase_def erase_eqD(4) [OF e] m(1))
    then have run: "TestCase_Run sys p (nat (?v ! m)) s1 = (Normal (), s2)" using r by (simp add: run_nth_case_def)
    have "tells (case_events s1 (nat (?v ! m))) s1 s2"
      using erase_idle [OF e] idle erase_eqD(3,10) [OF e] at(3) by (intro TestCase_Run_tells [OF _ _ _ run]) simp_all
    then show "tells (case_events s (nat (?v ! nat k))) s1 s2"
      using erase_case_events [OF e _ at(3)] idle(1) m(1) by (simp add: idle_def)
  qed
  then show ?thesis
    using map_index_nth [OF mset_ints_length [OF v], of "\<lambda>i. case_events s (nat i)"] by (simp add: all_case_events_def)
qed

text \<open>
  Fatal failures outside tests. User code that runs while no test does tells the listeners of results only, and the
  result of the whole unit test has a fatal failure afterwards exactly if it had one before or one was told.
\<close>

definition fatally_reported :: "(nat \<times> listener_event) list \<Rightarrow> bool" where
  "fatally_reported evs \<longleftrightarrow> (\<exists>(l, e) \<in> set evs. case e of OnTestPartResult p \<Rightarrow> fatally_failed p | _ \<Rightarrow> False)"

definition accounted :: "(nat \<times> listener_event) list \<Rightarrow> UnitTest \<Rightarrow> UnitTest \<Rightarrow> bool" where
  "accounted evs s s' \<longleftrightarrow>
     notified s' = notified s @ evs \<and> (\<forall>e \<in> set evs. is_part (snd e)) \<and>
     (watched s \<and> current_test_info s = None \<longrightarrow>
       HasFatalFailure (ad_hoc_test_result s') = (HasFatalFailure (ad_hoc_test_result s) \<or> fatally_reported evs))"

definition accounts :: "UnitTest \<Rightarrow> UnitTest \<Rightarrow> bool" where
  "accounts s s' \<longleftrightarrow> erase s' = erase s \<and> (\<exists>evs. accounted evs s s')"

lemma fatally_reported_simps [simp]:
  "\<not> fatally_reported []" "fatally_reported (xs @ ys) \<longleftrightarrow> fatally_reported xs \<or> fatally_reported ys"
  by (simp_all add: fatally_reported_def bex_Un)

lemma accounts_silent:
  assumes "erase s' = erase s" and "notified s' = notified s"
    and "current_test_info s = None \<Longrightarrow> HasFatalFailure (ad_hoc_test_result s') = HasFatalFailure (ad_hoc_test_result s)"
  shows "accounts s s'"
  using assms by (auto simp: accounts_def accounted_def intro!: exI [of _ "[]"])

lemma accounts_trans:
  assumes "accounts s1 s2" and "accounts s2 s3"
  shows "accounts s1 s3"
proof -
  obtain ev1 ev2 where 1: "erase s2 = erase s1" "accounted ev1 s1 s2" and 2: "erase s3 = erase s2" "accounted ev2 s2 s3"
    using assms unfolding accounts_def by blast
  have "accounted (ev1 @ ev2) s1 s3"
    using 1(2) 2(2) erase_watched [OF 1(1)] erase_eqD(2) [OF 1(1)] by (auto simp: accounted_def)
  then show ?thesis using 1(1) 2(1) unfolding accounts_def by auto
qed

lemma HasFatal_add: "HasFatalFailure (TestResult_AddTestPartResult p r) \<longleftrightarrow> HasFatalFailure r \<or> fatally_failed p"
  by (auto simp: HasFatalFailure_def CountIf_pos TestResult_AddTestPartResult_def)

lemma accounts_report: "accounts s (ReportTestPartResult p s)"
proof -
  let ?r = "repeater (event_listeners s)"
  define s1 where "s1 = change_current_result (TestResult_AddTestPartResult p) s"
  have same: "event_listeners s1 = event_listeners s" "notified s1 = notified s"
    by (auto simp: s1_def change_current_result_def change_info_def Let_def split: option.splits)
  define evs where "evs = repeat_event ?r (OnTestPartResult p)"
  have n: "notified (ReportTestPartResult p s) = notified s @ evs"
    by (simp add: ReportTestPartResult_def s1_def [symmetric] notify_def same evs_def)
  have parts: "snd e = OnTestPartResult p" if "e \<in> set evs" for e
    using that by (auto simp: evs_def repeat_event_def forward_def forward_reverse_def split: if_splits)
  then have "\<forall>e \<in> set evs. is_part (snd e)" by (simp add: is_part_def)
  moreover have "fatally_reported evs \<longleftrightarrow> fatally_failed p" if w: "watched s"
  proof -
    have w: "forwarding_enabled ?r" "listeners ?r \<noteq> []" using w by (simp_all add: watched_def Let_def)
    then have "evs \<noteq> []" using repeat_event_cases [OF w(1), of "OnTestPartResult p"] by (auto simp: evs_def)
    then obtain x where "x \<in> set evs" by (cases evs) auto
    moreover have "fatally_reported evs \<longleftrightarrow> (\<exists>x \<in> set evs. fatally_failed p)"
      using parts by (auto simp: fatally_reported_def case_prod_unfold)
    ultimately show ?thesis by blast
  qed
  moreover have "HasFatalFailure (ad_hoc_test_result (ReportTestPartResult p s)) \<longleftrightarrow> HasFatalFailure (ad_hoc_test_result s) \<or> fatally_failed p"
    if "current_test_info s = None"
    using that by (simp add: ReportTestPartResult_def change_current_result_def notify_def HasFatal_add)
  ultimately have "accounted evs s (ReportTestPartResult p s)" using n by (simp add: accounted_def)
  then show ?thesis using erase_report unfolding accounts_def by blast
qed

interpretation outside: code_contract accounts
proof unfold_locales
  fix s s1 s2 s3 fl ts ps i ij result
  show "accounts s s" by (rule accounts_silent) simp_all
  show "accounts s1 s2 \<Longrightarrow> accounts s2 s3 \<Longrightarrow> accounts s1 s3" by (rule accounts_trans)
  show "accounts s (ReportTestPartResult result s)" by (rule accounts_report)
  show "accounts s (change_info ij (\<lambda>t. t\<lparr>test_result := (test_result t)\<lparr>test_properties := ps\<rparr>\<rparr>) s)" if "current_test_info s = Some ij"
    using that by (intro accounts_silent frame.R_info_property) (simp_all add: change_info_def Let_def split: prod.splits)
  show "accounts s (change_case i (\<lambda>c. c\<lparr>case_ad_hoc_test_result := (case_ad_hoc_test_result c)\<lparr>test_properties := ps\<rparr>\<rparr>) s)" for i
    by (intro accounts_silent frame.R_case_property) (simp_all add: change_case_def)
  show "accounts s (s\<lparr>ad_hoc_test_result := (ad_hoc_test_result s)\<lparr>test_properties := ps\<rparr>\<rparr>)"
    by (intro accounts_silent frame.R_unit_property) (simp_all add: HasFatalFailure_def)
  show "accounts s (set_flags fl s)"
    by (intro accounts_silent frame.R_flags) (simp_all add: set_flags_def)
  show "accounts s (s\<lparr>gtest_trace_stack := ts\<rparr>)"
    by (intro accounts_silent frame.R_traces) simp_all
qed

text \<open>What the listeners are told before the end of the set-up of the environments; and whether that set-up failed.\<close>

definition set_up_part :: "(nat \<times> listener_event) list \<Rightarrow> (nat \<times> listener_event) list" where
  "set_up_part evs = takeWhile (\<lambda>e. snd e \<noteq> OnEnvironmentsSetUpEnd) evs"

definition environment_events :: "bool \<Rightarrow> UnitTest \<Rightarrow> listener_event list" where
  "environment_events set_up_failed s =
     [OnEnvironmentsSetUpStart, OnEnvironmentsSetUpEnd] @ (if set_up_failed then [] else all_case_events s) @
     [OnEnvironmentsTearDownStart, OnEnvironmentsTearDownEnd]"

lemma erase_all_case_events:
  assumes e: "erase s' = erase s" and "arranged s"
  shows "all_case_events s' = all_case_events s"
proof -
  have "set (test_case_indices s) = int ` {0..<length (test_cases s)}"
    using assms(2) unfolding arranged_def by (metis atLeastLessThan_upt set_map set_mset_mset)
  then have "map (\<lambda>i. case_events s' (nat i)) (test_case_indices s) = map (\<lambda>i. case_events s (nat i)) (test_case_indices s)"
    using assms by (auto intro!: map_cong erase_case_events)
  then show ?thesis by (simp add: all_case_events_def erase_eqD(4) [OF e] cong: map_cong)
qed

lemma notify_only: "\<exists>evs. notified (notify e s) = notified s @ evs \<and> (\<forall>x \<in> set evs. snd x = e)"
  by (cases e) (auto simp: notify_def repeat_event_def forward_def forward_reverse_def)

lemma notify_some: "watched s \<Longrightarrow> notified (notify e s) \<noteq> notified s"
  using repeat_event_cases [of "repeater (event_listeners s)" e] by (auto simp: notify_def watched_def Let_def)

lemma run_environments_tells:
  assumes idle: "idle s" "current_test_case s = None" and run: "run_environments sys p s = (Normal (), s')"
  shows "\<exists>evs. notified s' = notified s @ evs \<and>
    tells (environment_events (HasFatalFailure (ad_hoc_test_result s) \<or> fatally_reported (set_up_part evs)) s) s s'"
proof -
  define s1 where "s1 = notify OnEnvironmentsSetUpStart s"
  obtain s2 s4 s6 where
      up: "for_each (\<lambda>e. run_code (gtest_cc_file p) (environment_SetUp p e)) (environments s1) s1 = (Normal (), s2)"
    and cases: "(if \<not> Test_HasFatalFailure (notify OnEnvironmentsSetUpEnd s2)
      then for_each (run_nth_case sys p) (map int [0..<length (test_cases (notify OnEnvironmentsSetUpEnd s2))]) (notify OnEnvironmentsSetUpEnd s2)
      else (Normal (), notify OnEnvironmentsSetUpEnd s2)) = (Normal (), s4)"
    and down: "for_each (\<lambda>e. run_code (gtest_cc_file p) (environment_TearDown p e)) (rev (environments (notify OnEnvironmentsTearDownStart s4)))
      (notify OnEnvironmentsTearDownStart s4) = (Normal (), s6)"
    and fin: "s' = notify OnEnvironmentsTearDownEnd s6"
    using run unfolding run_environments_def by (elim ubind_NormalE) (auto simp: uchange_def s1_def simp del: not_not split del: if_split)
  define s3 where "s3 = notify OnEnvironmentsSetUpEnd s2"
  have part: "\<not> is_part OnEnvironmentsSetUpStart" "\<not> is_part OnEnvironmentsSetUpEnd" "\<not> is_part OnEnvironmentsTearDownStart"
    "\<not> is_part OnEnvironmentsTearDownEnd" by (simp_all add: is_part_def)
  have silent: "tells [] a b" if "for_each (\<lambda>e. run_code (gtest_cc_file p) (g e)) es a = (Normal (), b)" for g :: "nat \<Rightarrow> code" and es a b
    using told.R_for_each [of "\<lambda>e. run_code (gtest_cc_file p) (g e)" a es] told.R_run_code that by simp
  have t1: "tells [OnEnvironmentsSetUpStart] s s1" unfolding s1_def using tells_notify [OF part(1)] .
  have t2: "tells [] s1 s2" using silent [OF up] .
  have t3: "tells [OnEnvironmentsSetUpEnd] s2 s3" unfolding s3_def using tells_notify [OF part(2)] .
  have t123: "tells [OnEnvironmentsSetUpStart, OnEnvironmentsSetUpEnd] s s3"
    using tells_trans [OF t1 tells_chain [OF t2 t3]] by simp
  then have e3: "erase s3 = erase s" by (simp add: tells_def)
  have t4: "tells (if Test_HasFatalFailure s3 then [] else all_case_events s) s3 s4"
  proof (cases "Test_HasFatalFailure s3")
    case True
    then show ?thesis using cases by (simp add: s3_def told.R_refl)
  next
    case False
    then have "tells (all_case_events s3) s3 s4"
      using cases erase_idle [OF e3] erase_eqD(3) [OF e3] idle by (intro run_cases_tell) (simp_all add: s3_def)
    then show ?thesis using False erase_all_case_events [OF e3] idle(1) by (simp add: idle_def)
  qed
  have t6: "tells ([OnEnvironmentsTearDownStart] @ [] @ [OnEnvironmentsTearDownEnd]) s4 s'"
    unfolding fin using tells_trans [OF tells_notify [OF part(3)] tells_trans [OF silent [OF down] tells_notify [OF part(4)]]] .
  have told: "tells (environment_events (Test_HasFatalFailure s3) s) s s'"
    using tells_trans [OF t123 tells_trans [OF t4 t6]] by (simp add: environment_events_def)
  have "\<exists>evs. notified s' = notified s @ evs \<and>
      (Test_HasFatalFailure s3 \<longleftrightarrow> HasFatalFailure (ad_hoc_test_result s) \<or> fatally_reported (set_up_part evs))"
  proof -
    have w: "watched s" "current_test_info s = None" using idle(1) by (simp_all add: idle_def)
    have e1: "erase s1 = erase s" using t1 by (simp add: tells_def)
    have w1: "watched s1" "current_test_info s1 = None" using w erase_watched [OF e1] erase_eqD(2) [OF e1] by simp_all
    obtain ev1 where ev1: "notified s1 = notified s @ ev1" "\<forall>e \<in> set ev1. snd e = OnEnvironmentsSetUpStart"
      using notify_only [of OnEnvironmentsSetUpStart s] unfolding s1_def by blast
    have "accounts s1 s2" using outside.R_for_each [of "\<lambda>e. run_code (gtest_cc_file p) (environment_SetUp p e)" s1 "environments s1"]
        outside.R_run_code up by simp
    then obtain ev2 where "accounted ev2 s1 s2" unfolding accounts_def by blast
    then have ev2: "notified s2 = notified s1 @ ev2" "\<forall>e \<in> set ev2. is_part (snd e)"
      "HasFatalFailure (ad_hoc_test_result s2) \<longleftrightarrow> HasFatalFailure (ad_hoc_test_result s1) \<or> fatally_reported ev2"
      using w1 unfolding accounted_def by simp_all
    have e2: "erase s2 = erase s" using t2 e1 unfolding tells_def by metis
    have w2: "watched s2" "current_test_info s2 = None" using w erase_watched [OF e2] erase_eqD(2) [OF e2] by simp_all
    obtain ev3 where ev3: "notified s3 = notified s2 @ ev3" "\<forall>e \<in> set ev3. snd e = OnEnvironmentsSetUpEnd" "ev3 \<noteq> []"
      using notify_only [of OnEnvironmentsSetUpEnd s2] notify_some [OF w2(1), of OnEnvironmentsSetUpEnd] unfolding s3_def by (metis append_Nil2)
    obtain rest where rest: "notified s' = notified s3 @ rest"
      using tells_trans [OF t4 t6] w erase_watched [OF e3] unfolding tells_def emits_def by blast
    have pre: "\<forall>e \<in> set (ev1 @ ev2). snd e \<noteq> OnEnvironmentsSetUpEnd" using ev1(2) ev2(2) by (auto simp: is_part_def)
    obtain x xs where "ev3 @ rest = x # xs" "snd x = OnEnvironmentsSetUpEnd" using ev3(2,3) by (cases ev3) auto
    then have "set_up_part (ev1 @ ev2 @ ev3 @ rest) = ev1 @ ev2"
      using pre unfolding set_up_part_def append_assoc [symmetric, of ev1 ev2] by (subst takeWhile_append2) auto
    moreover have "\<not> fatally_reported ev1" using ev1(2) by (force simp: fatally_reported_def)
    moreover have "Test_HasFatalFailure s3 \<longleftrightarrow> HasFatalFailure (ad_hoc_test_result s2)"
      using w2(2) by (simp add: s3_def Test_HasFatalFailure_def current_test_result_def notify_def)
    moreover have "ad_hoc_test_result s1 = ad_hoc_test_result s" by (simp add: s1_def notify_def)
    ultimately have "Test_HasFatalFailure s3 \<longleftrightarrow>
        HasFatalFailure (ad_hoc_test_result s) \<or> fatally_reported (set_up_part (ev1 @ ev2 @ ev3 @ rest))"
      using ev2(3) by simp
    then show ?thesis using ev1(1) ev2(1) ev3(1) rest by (intro exI [of _ "ev1 @ ev2 @ ev3 @ rest"]) simp
  qed
  then obtain evs where "notified s' = notified s @ evs"
    "Test_HasFatalFailure s3 = (HasFatalFailure (ad_hoc_test_result s) \<or> fatally_reported (set_up_part evs))" by blast
  with told show ?thesis by (intro exI [of _ evs]) simp
qed

text \<open>
  C14: What every listener is told, from the set-up of the environments to their end, but for results
  of assertions: the test cases in the order of the indices, each selected one begun and ended once,
  and within it each selected test begun and ended once, in the order of its indices; nothing of others;
  no test case at all exactly if the result of the whole had a fatal failure before or a fatal failure was told before the
  end of the set-up of the environments. The unit test has failed afterwards exactly if it had before or a failure was
  told in between.
\<close>

theorem environment_events_in_order:
  assumes "idle s" and "current_test_case s = None" and "run_environments sys p s = (Normal (), s')"
  shows "\<exists>evs. notified s' = notified s @ evs \<and>
    (\<forall>l \<in> set (listeners (repeater (event_listeners s))). structural l evs =
      environment_events (HasFatalFailure (ad_hoc_test_result s) \<or> fatally_reported (set_up_part evs)) s) \<and>
    UnitTest_Failed s' = (UnitTest_Failed s \<or> reported evs)"
proof -
  obtain evs where evs: "notified s' = notified s @ evs"
    "tells (environment_events (HasFatalFailure (ad_hoc_test_result s) \<or> fatally_reported (set_up_part evs)) s) s s'"
    using run_environments_tells [OF assms] by blast
  then have "emits (environment_events (HasFatalFailure (ad_hoc_test_result s) \<or> fatally_reported (set_up_part evs)) s) s s'"
    using assms(1) by (simp add: tells_def idle_def)
  then show ?thesis using evs(1) unfolding emits_def by (metis same_append_eq)
qed

subsection \<open>Flags\<close>

lemma flags_simps [simp]:
  "gtest_flags (notify e s) = gtest_flags s" "gtest_flags (change_info ij f s) = gtest_flags s"
  "gtest_flags (start_test ij s) = gtest_flags s" "gtest_flags (finish_test ij n s) = gtest_flags s"
  "gtest_flags (ReportTestPartResult r s) = gtest_flags s"
  by (auto simp: gtest_flags_def notify_def change_info_def start_test_def finish_test_def ReportTestPartResult_def
      change_current_result_def Let_def split: prod.splits option.splits)

lemma AddTestPartResult_flags: "UnitTest_AddTestPartResult k file line message trace s = (r, s') \<Longrightarrow> gtest_flags s' = gtest_flags s"
  by (auto simp: UnitTest_AddTestPartResult_def Let_def split: if_splits)

text \<open>Equal flags but for \<open>flagfile\<close>.\<close>

definition restored :: "Flags \<Rightarrow> UnitTest \<Rightarrow> bool" where
  "restored fl s \<longleftrightarrow> gtest_flags s = fl\<lparr>flagfile := flagfile (gtest_flags s)\<rparr>"

lemma restore_flags_restored: "restored fl (restore_flags fl s)"
  by (simp add: restored_def restore_flags_def set_flags_def gtest_flags_def)

lemma CreateTest_flags:
  assumes "HandleExceptionsInMethodIfSupported l None (CreateTest p factory) s = (Normal test, s')"
  shows "test = Some (gtest_flags s) \<or> test = None \<and> restored (gtest_flags s) s'"
proof -
  obtain r s1 where r: "CreateTest p factory s = (r, s1)" by (cases "CreateTest p factory s")
  have thrown: "restored (gtest_flags s) s1" if "r = Throws e" for e
    using r that restore_flags_restored by (auto simp: CreateTest_def Let_def split: prod.splits completion.splits)
  show ?thesis
  proof (cases r)
    case (Normal x)
    then show ?thesis using assms r
      by (auto simp: HandleExceptionsInMethodIfSupported_def catch_result_def CreateTest_def Let_def split: if_splits prod.splits completion.splits)
  next
    case (Throws e)
    obtain k m where "ubind (ReportFailureInUnknownLocation k m) (\<lambda>_. ureturn None) s1 = (Normal test, s')"
      using assms r Throws by (auto simp: HandleExceptionsInMethodIfSupported_def catch_result_def split: if_splits exc.splits)
    then have "test = None" "gtest_flags s' = gtest_flags s1"
      by (auto simp: ureturn_def ReportFailureInUnknownLocation_def dest: AddTestPartResult_flags elim!: ubind_NormalE)
    then show ?thesis using thrown [OF Throws] by (simp add: restored_def)
  next
    case (Stops e)
    then show ?thesis using assms r by (auto simp: HandleExceptionsInMethodIfSupported_def catch_result_def split: if_splits)
  qed
qed

lemma DeleteSelf_flags:
  assumes "HandleExceptionsInMethodIfSupported l () (DeleteSelf p factory test) s = (Normal (), s')"
  shows "case test of None \<Rightarrow> gtest_flags s' = gtest_flags s | Some fl \<Rightarrow> restored fl s'"
proof -
  have "DeleteSelf p factory test s \<noteq> (Throws e, s1)" for e s1
    by (auto simp: DeleteSelf_def split: option.splits prod.splits completion.splits)
  then have "DeleteSelf p factory test s = (Normal (), s')"
    using assms by (cases "DeleteSelf p factory test s"; cases "fst (DeleteSelf p factory test s)")
      (auto simp: HandleExceptionsInMethodIfSupported_def catch_result_def split: if_splits)
  then show ?thesis using restore_flags_restored
    by (auto simp: DeleteSelf_def split: option.splits prod.splits completion.splits)
qed

text \<open>
  C30: A test that returns leaves the flags as they were before it, whatever its fixture and body set,
  also if the constructor threw; but for \<open>flagfile\<close>, which is not saved.
\<close>

theorem TestInfo_Run_restores_flags:
  assumes "TestInfo_Run sys p ij s = (Normal (), s')"
  shows "gtest_flags s' = (gtest_flags s)\<lparr>flagfile := flagfile (gtest_flags s')\<rparr>"
proof (cases "info_should_run (test_info_list (test_cases s ! fst ij) ! snd ij)")
  case False
  then show ?thesis using assms by (simp add: TestInfo_Run_def)
next
  case True
  obtain k t1 n s2 s3 where body: "run_test_object p ij k ((start_test ij s)\<lparr>ticks := t1\<rparr>) = (Normal (), s2)"
    and s': "gtest_flags s' = gtest_flags s2"
    using assms True unfolding TestInfo_Run_def Let_def
    by (auto simp: ubind_simps(1,3)) (auto elim!: ubind_NormalE simp: GetTimeInMillis_def uchange_def, simp add: gtest_flags_def)
  let ?s1 = "(start_test ij s)\<lparr>ticks := t1\<rparr>"
  have s1: "gtest_flags ?s1 = gtest_flags s" using flags_simps(3) by (simp add: gtest_flags_def)
  obtain test s4 s5 where
      create: "HandleExceptionsInMethodIfSupported kFixtureConstructor None (CreateTest p k) ?s1 = (Normal test, s4)"
    and mid: "(if test \<noteq> None \<and> \<not> Test_HasFatalFailure s4 then Test_Run p ij k else uskip) s4 = (Normal (), s5)"
    and del: "HandleExceptionsInMethodIfSupported kFixtureDestructor () (DeleteSelf p k test) s5 = (Normal (), s2)"
    using body unfolding run_test_object_def by (elim ubind_NormalE) (auto simp: uread_def split del: if_split)
  have "restored (gtest_flags s) s2"
    using CreateTest_flags [OF create] DeleteSelf_flags [OF del] mid s1
    by (auto simp: restored_def uskip_def ureturn_def)
  then show ?thesis using s' by (simp add: restored_def)
qed

subsection \<open>An example\<close>

definition example_host :: System where
  "example_host =
     \<lparr>readable = (\<lambda>_. None), deliver = (\<lambda>_ n. n), host_env = (\<lambda>_. None), stdout_is_tty = False, stat_of = (\<lambda>_. None), creatable = (\<lambda>_. True), clock = int\<rparr>"

text \<open>The body of test 0 fails, that of any other test does not.\<close>

definition example_program :: Program where
  "example_program =
     \<lparr>test_class = (\<lambda>k.
        \<lparr>constructor = Return, SetUp = Return,
         TestBody = (if k = 0 then Do (Assertion kFatalFailure (Some (lit ''t.cc'')) 3 (lit ''no'') []) (\<lambda>_. Return) else Return),
         TearDown = Return, destructor = Return\<rparr>),
      case_function = (\<lambda>_. Return), environment_SetUp = (\<lambda>_. Return), environment_TearDown = (\<lambda>_. Return),
      test_type_id = 0, gtest_cc_file = lit ''gtest.cc''\<rparr>"

definition example_case :: "nat list \<Rightarrow> TestCase" where
  "example_case ks =
     (TestCase_new (lit ''Foo'') None 0 0)
       \<lparr>test_info_list := map (\<lambda>k. TestInfo_new (lit ''Foo'') (lit ''T'') None None (lit ''t.cc'', 1) 0 k) ks,
        test_indices := map int [0..<length ks]\<rparr>"

definition example_flags :: Flags where "example_flags = fst (Flags_init (\<lambda>_. None))"

definition example_state :: "nat list \<Rightarrow> UnitTest" where
  "example_state ks =
     (UnitTestImpl_new example_flags)
       \<lparr>g_argvs := [lit ''t''], post_flag_parse_init_performed := True, test_cases := [example_case ks], test_case_indices := [0]\<rparr>"

lemma example_death: "\<not> is_death_name (lit ''Foo'')"
  by code_simp

lemma example_settled:
  assumes "length ks \<le> 2"
  shows "cases_ok (example_state ks)" "unshuffled (example_state ks)" "small (example_state ks)" "watched (example_state ks)"
    "current_test_info (example_state ks) = None" "current_test_case (example_state ks) = None"
    "GTestIsInitialized (example_state ks)" "post_flag_parse_init_performed (example_state ks)"
    "\<not> failed (ad_hoc_test_result (example_state ks))"
  using assms example_death
  by (simp_all add: example_state_def UnitTestImpl_new_def cases_ok_def unshuffled_def small_def watched_def GTestIsInitialized_def
      failed_iff TestResult_new_def example_case_def TestCase_new_def SetDefaultResultPrinter_def TestEventListeners_new_def
      Listeners_Append_def Listeners_Release_def Repeater_Release_def Repeater_Append_def delete_listener_def Let_def del: lit_Cons)

text \<open>The same with its tests selected.\<close>

definition example_selected :: "nat list \<Rightarrow> UnitTest" where
  "example_selected ks =
     (example_state ks)\<lparr>test_cases :=
        [(example_case ks)\<lparr>case_should_run := True,
           test_info_list := map (\<lambda>t. t\<lparr>info_should_run := True\<rparr>) (test_info_list (example_case ks))\<rparr>]\<rparr>"

lemma example_selected_idle: "idle (example_selected ks)" "current_test_case (example_selected ks) = None"
  by (simp_all add: example_selected_def example_state_def UnitTestImpl_new_def idle_def arranged_def watched_def
      example_case_def TestCase_new_def SetDefaultResultPrinter_def TestEventListeners_new_def
      Listeners_Append_def Listeners_Release_def Repeater_Release_def Repeater_Append_def delete_listener_def Let_def del: lit_Cons)

theorem environment_events_in_order_witness:
  "\<exists>s' evs. run_environments example_host example_program (example_selected [0]) = (Normal (), s') \<and>
     notified s' = notified (example_selected [0]) @ evs \<and>
     structural 0 evs = environment_events (fatally_reported (set_up_part evs)) (example_selected [0])"
proof -
  let ?s = "example_selected [0]"
  have "fst (run_environments example_host example_program ?s) = Normal ()" by code_simp
  then obtain s' where run: "run_environments example_host example_program ?s = (Normal (), s')" by (cases "run_environments example_host example_program ?s") auto
  have "listeners (repeater (event_listeners ?s)) = [0]" by code_simp
  moreover have "\<not> HasFatalFailure (ad_hoc_test_result ?s)" by code_simp
  ultimately show ?thesis using environment_events_in_order [OF example_selected_idle run] run by auto
qed

text \<open>A test whose body changes flags.\<close>

definition flag_program :: Program where
  "flag_program =
     example_program\<lparr>test_class := (\<lambda>k. (test_class example_program k)
       \<lparr>TestBody := Do (Modify_flags (\<lambda>fl. fl\<lparr>repeat_flag := 7, flagfile := lit ''f''\<rparr>)) (\<lambda>_. Return)\<rparr>)\<rparr>"

theorem TestInfo_Run_restores_flags_witness:
  "\<exists>s'. TestInfo_Run example_host flag_program (0, 0) (example_selected [1]) = (Normal (), s') \<and>
     repeat_flag (gtest_flags s') = repeat_flag (gtest_flags (example_selected [1]))"
proof -
  let ?r = "TestInfo_Run example_host flag_program (0, 0) (example_selected [1])"
  have "fst ?r = Normal ()" by code_simp
  then obtain s' where run: "?r = (Normal (), s')" by (cases ?r) auto
  have "repeat_flag (gtest_flags s') = repeat_flag ((gtest_flags (example_selected [1]))\<lparr>flagfile := flagfile (gtest_flags s')\<rparr>)"
    by (rule arg_cong [OF TestInfo_Run_restores_flags [OF run]])
  then show ?thesis using run by simp
qed

end
