(* ===== verification/Gtest_Verdict.thy ===== *)
theory Gtest_Verdict
  imports Gtest_Run
begin

text \<open>
  The answer of a run (src/libs/googletest/src/gtest.cc, \<open>UnitTestImpl::RunAllTests\<close> and
  \<open>UnitTest::Run\<close>, modelled in \<open>Gtest_Run\<close>): it is true exactly if no failure was told to a listener,
  through all iterations, shuffles and filters; and a run completes if the user's code keeps to the rules.
\<close>

subsection \<open>The result of a run\<close>

text \<open>Enough of the test cases for the order invariants.\<close>

definition outline :: "TestCase \<Rightarrow> bytes \<times> nat \<times> int list" where
  "outline c = (case_name c, length (test_info_list c), test_indices c)"

text \<open>The state between the iterations: tests in some order, none running.\<close>

definition settled :: "UnitTest \<Rightarrow> bool" where
  "settled s \<longleftrightarrow> cases_ok s \<and> small s \<and> idle s \<and> current_test_case s = None"

lemma outline_cong:
  assumes o: "map outline (test_cases s') = map outline (test_cases s)" and i: "test_case_indices s' = test_case_indices s"
    and d: "last_death_test_case s' = last_death_test_case s"
  shows "cases_ok s' = cases_ok s" "small s' = small s" "arranged s' = arranged s"
proof -
  have c: "cases_ok s \<longleftrightarrow> (let os = map outline (test_cases s); d = last_death_test_case s
     in distinct (map fst os) \<and> - 1 \<le> d \<and> d < int (length os) \<and>
        (\<forall>i < length os. is_death_name (fst (os ! i)) \<longleftrightarrow> int i \<le> d) \<and> length (test_case_indices s) = length os \<and>
        (\<forall>x \<in> set os. length (snd (snd x)) = fst (snd x)))" for s
    by (simp add: cases_ok_def outline_def comp_def Let_def)
  have sm: "small s \<longleftrightarrow> (let os = map outline (test_cases s) in length os < 2 ^ 31 \<and> (\<forall>x \<in> set os. fst (snd x) < 2 ^ 31))" for s
    by (simp add: small_def outline_def Let_def)
  have a: "arranged s \<longleftrightarrow> (let os = map outline (test_cases s)
     in mset (test_case_indices s) = mset (map int [0..<length os]) \<and>
        (\<forall>x \<in> set os. mset (snd (snd x)) = mset (map int [0..<fst (snd x)])))" for s
    by (simp add: arranged_def outline_def Let_def)
  show "cases_ok s' = cases_ok s" "small s' = small s" "arranged s' = arranged s"
    by (simp_all only: c [of s'] c [of s] sm [of s'] sm [of s] a [of s'] a [of s] o i d)
qed

lemma settled_cong:
  assumes "map outline (test_cases s') = map outline (test_cases s)" and "test_case_indices s' = test_case_indices s"
    and "last_death_test_case s' = last_death_test_case s" and "event_listeners s' = event_listeners s"
    and "current_test_info s' = current_test_info s" and "current_test_case s' = current_test_case s"
  shows "settled s' = settled s"
  using outline_cong [OF assms(1-3)] assms(4-6) by (auto simp: settled_def idle_def watched_def)

lemma settled_erase: "erase s' = erase s \<Longrightarrow> settled s' = settled s"
proof -
  assume e: "erase s' = erase s"
  have "outline c = outline (bare_case c)" for c by (simp add: outline_def bare_case_def)
  then have "map outline (test_cases r) = map outline (map bare_case (test_cases r))" for r by simp
  then have "map outline (test_cases s') = map outline (test_cases s)" using erase_eqD(9) [OF e] by metis
  then show ?thesis using erase_eqD [OF e] by (intro settled_cong)
qed

lemma settled_shuffled:
  assumes "settled s" and sh: "shuffled s s'"
  shows "settled s'"
proof -
  have rel: "list_all2 reordered (test_cases s) (test_cases s')"
    and parts: "mset (take k (test_case_indices s')) = mset (take k (test_case_indices s))"
      "mset (drop k (test_case_indices s')) = mset (drop k (test_case_indices s))"
    and eq: "s' = s\<lparr>test_case_indices := test_case_indices s', test_cases := test_cases s', random_state := random_state s'\<rparr>"
    if "k = nat (last_death_test_case s + 1)" for k
    using sh that unfolding shuffled_def Let_def by blast+
  note eq = eq [OF refl]
  have len: "length (test_case_indices s') = length (test_case_indices s)"
    using parts [OF refl] by (metis append_take_drop_id mset_append size_mset)
  have one: "case_name c' = case_name c" "length (test_info_list c') = length (test_info_list c)"
    "length (test_indices c') = length (test_indices c)" if "reordered c c'" for c c'
    using that unfolding reordered_def by (metis TestCase.select_convs(1,3) TestCase.surjective TestCase.update_convs(4) mset_eq_length)+
  have same: "event_listeners s' = event_listeners s" "current_test_info s' = current_test_info s"
      "current_test_case s' = current_test_case s" "last_death_test_case s' = last_death_test_case s"
    by (subst eq, simp)+
  have names: "map case_name (test_cases s') = map case_name (test_cases s)"
    using rel [OF refl] one(1) by - (rule nth_equalityI, simp_all add: list_all2_conv_all_nth)
  have mem: "\<exists>c \<in> set (test_cases s). reordered c c'" if "c' \<in> set (test_cases s')" for c'
    using that rel [OF refl] by (metis in_set_conv_nth list_all2_conv_all_nth)
  have n: "length (test_cases s') = length (test_cases s)" using names by (rule map_eq_imp_length_eq)
  have ok: "cases_ok s" "small s" "idle s" "current_test_case s = None" using assms(1) by (simp_all add: settled_def)
  have "cases_ok s'"
    unfolding cases_ok_def names n same(4) len
  proof (intro conjI allI impI ballI)
    fix i assume "i < length (test_cases s)"
    then show "is_death_name (case_name (test_cases s' ! i)) \<longleftrightarrow> int i \<le> last_death_test_case s"
      using cases_okD(4) [OF ok(1)] names n by (metis nth_map)
  next
    fix c' assume "c' \<in> set (test_cases s')"
    then show "length (test_indices c') = length (test_info_list c')" using mem one cases_okD(6) [OF ok(1)] by metis
  qed (use cases_okD [OF ok(1)] in auto)
  moreover have "small s'" using ok(2) n mem one(2) unfolding small_def by metis
  moreover have "arranged s'" using shuffled_arranged [OF sh] ok(3) by (simp add: idle_def)
  ultimately show ?thesis using ok(3,4) same by (simp add: settled_def idle_def watched_def)
qed

lemma shuffled_Failed:
  assumes "shuffled s s'"
  shows "UnitTest_Failed s' = UnitTest_Failed s" "notified s' = notified s" "event_listeners s' = event_listeners s"
    "failed (ad_hoc_test_result s') = failed (ad_hoc_test_result s)"
proof -
  have rel: "list_all2 reordered (test_cases s) (test_cases s')"
    and eq: "s' = s\<lparr>test_case_indices := test_case_indices s', test_cases := test_cases s', random_state := random_state s'\<rparr>"
    using assms unfolding shuffled_def by blast+
  have one: "TestCaseFailed c' = TestCaseFailed c" if "reordered c c'" for c c'
  proof -
    have "c' = c\<lparr>test_indices := test_indices c'\<rparr>" using that by (simp add: reordered_def)
    then have "test_info_list c' = test_info_list c" "case_should_run c' = case_should_run c"
      by (metis TestCase.select_convs TestCase.surjective TestCase.update_convs(4))+
    then show ?thesis by (simp add: TestCaseFailed_def case_Failed_iff)
  qed
  have "CountIf (test_cases s') TestCaseFailed = CountIf (test_cases s) TestCaseFailed"
    using rel by (induction rule: list_all2_induct) (simp_all add: one)
  moreover show a: "failed (ad_hoc_test_result s') = failed (ad_hoc_test_result s)" by (subst eq) simp
  ultimately show "UnitTest_Failed s' = UnitTest_Failed s" by (simp add: UnitTest_Failed_def failed_test_case_count_def)
  show "notified s' = notified s" "event_listeners s' = event_listeners s" by (subst eq, simp)+
qed

lemma UnshuffleTests_settled:
  assumes "settled s"
  shows "settled (UnshuffleTests s)"
proof -
  have ok: "cases_ok s" "small s" "idle s" "current_test_case s = None" using assms by (simp_all add: settled_def)
  have ar: "arranged s" using ok(3) by (simp add: idle_def)
  have order: "unshuffled (UnshuffleTests s)" using UnshuffleTests_in_order [OF ar] .
  have "length (test_case_indices (UnshuffleTests s)) = length (test_cases s)"
    using order by (simp add: unshuffled_def UnshuffleTests_def)
  moreover have "\<forall>c \<in> set (test_cases (UnshuffleTests s)). length (test_indices c) = length (test_info_list c)"
    using order unfolding unshuffled_def by (metis diff_zero length_map length_upt)
  moreover have "map case_name (test_cases (UnshuffleTests s)) = map case_name (test_cases s)"
    "length (test_cases (UnshuffleTests s)) = length (test_cases s)" "last_death_test_case (UnshuffleTests s) = last_death_test_case s"
    by (simp_all add: UnshuffleTests_def TestCase_UnshuffleTests_def)
  moreover have "case_name (test_cases (UnshuffleTests s) ! i) = case_name (test_cases s ! i)" if "i < length (test_cases s)" for i
    using that by (simp add: UnshuffleTests_def TestCase_UnshuffleTests_def)
  ultimately have "cases_ok (UnshuffleTests s)" using cases_okD [OF ok(1)] unfolding cases_ok_def by simp
  moreover have "small (UnshuffleTests s)" using ok(2) by (simp add: small_def UnshuffleTests_def TestCase_UnshuffleTests_def)
  moreover have "arranged (UnshuffleTests s)" using in_order_arranged [OF order] .
  moreover have "event_listeners (UnshuffleTests s) = event_listeners s" "current_test_info (UnshuffleTests s) = current_test_info s"
      "current_test_case (UnshuffleTests s) = current_test_case s"
    by (simp_all add: UnshuffleTests_def)
  ultimately show ?thesis using ok(3,4) by (simp add: settled_def idle_def watched_def)
qed

lemma Clear_failed [simp]: "\<not> failed (TestResult_Clear r)"
  by (simp add: failed_iff TestResult_Clear_def)

lemma ClearNonAdHocTestResult_facts:
  "erase (ClearNonAdHocTestResult s) = erase s" "notified (ClearNonAdHocTestResult s) = notified s"
  "UnitTest_Failed (ClearNonAdHocTestResult s) = failed (ad_hoc_test_result s)"
proof -
  have "bare_case (ClearResult c) = bare_case c" for c
    by (simp add: bare_case_def ClearResult_def comp_def bare_info_def ClearTestResult_def)
  then show e: "erase (ClearNonAdHocTestResult s) = erase s" by (simp add: erase_def ClearNonAdHocTestResult_def)
  show "notified (ClearNonAdHocTestResult s) = notified s" by (simp add: ClearNonAdHocTestResult_def)
  have "\<not> failed (result_of (ClearNonAdHocTestResult s) ij)" if "selected s ij" for ij
    using that by (cases ij) (simp add: selected_def result_of_def ClearNonAdHocTestResult_def ClearResult_def ClearTestResult_def)
  then show "UnitTest_Failed (ClearNonAdHocTestResult s) = failed (ad_hoc_test_result s)"
    using erase_selected [OF e] by (auto simp: UnitTest_Failed_iff) (simp_all add: ClearNonAdHocTestResult_def)
qed

lemma shuffle_if_requested_ok:
  assumes "settled s" and "shuffle_if_requested b s = (Normal (), s')"
  shows "settled s'" "UnitTest_Failed s' = UnitTest_Failed s" "notified s' = notified s" "event_listeners s' = event_listeners s"
    "failed (ad_hoc_test_result s') = failed (ad_hoc_test_result s)"
proof -
  let ?s = "s\<lparr>random_state := word_of_int (random_seed s)\<rparr>"
  have all: "settled s' \<and> UnitTest_Failed s' = UnitTest_Failed s \<and> notified s' = notified s \<and> event_listeners s' = event_listeners s \<and>
    failed (ad_hoc_test_result s') = failed (ad_hoc_test_result s)"
  proof (cases "b \<and> shuffle_flag (gtest_flags s)")
    case True
    have st: "settled ?s" by (subst settled_cong [of ?s s]) (simp_all add: assms(1))
    then obtain s1 where "ShuffleTests ?s = Inr s1" "shuffled ?s s1" using ShuffleTests_ok by (auto simp: settled_def)
    then have "shuffled ?s s'" using assms(2) True by (simp add: shuffle_if_requested_def lift_res_def)
    then show ?thesis using settled_shuffled [OF st] shuffled_Failed [of ?s s'] by (simp add: UnitTest_Failed_def failed_test_case_count_def)
  next
    case False
    then show ?thesis using assms by (auto simp: shuffle_if_requested_def)
  qed
  then show "settled s'" "UnitTest_Failed s' = UnitTest_Failed s" "notified s' = notified s" "event_listeners s' = event_listeners s"
    "failed (ad_hoc_test_result s') = failed (ad_hoc_test_result s)" by simp_all
qed

lemma next_seed_ok:
  assumes "next_seed s = (Normal (), s')"
  shows "settled s' = settled s" "notified s' = notified s" "ad_hoc_test_result s' = ad_hoc_test_result s"
proof -
  have "\<exists>n. s' = s\<lparr>random_seed := n\<rparr>"
  proof (cases "shuffle_flag (gtest_flags s)")
    case True
    then show ?thesis using assms by (auto simp: next_seed_def lift_res_def rbind_def split: sum.splits)
  next
    case False
    then show ?thesis using assms by (intro exI [of _ "random_seed s"]) (simp add: next_seed_def)
  qed
  then obtain n where "s' = s\<lparr>random_seed := n\<rparr>" by blast
  then show "settled s' = settled s" "notified s' = notified s" "ad_hoc_test_result s' = ad_hoc_test_result s"
    using settled_cong [of s' s] by simp_all
qed

lemma settled_watched: "settled s \<Longrightarrow> watched s"
  by (simp add: settled_def idle_def)

lemma emits_settled_notify: "settled s \<Longrightarrow> \<not> is_part e \<Longrightarrow> emits [e] s (notify e s) \<and> settled (notify e s)"
  using settled_erase [of "notify e s" s] by (simp add: settled_watched emits_notify)

lemma run_iteration_result:
  assumes st: "settled s" and run: "run_iteration sys p b i s = (Normal f, s')"
  shows "settled s'" and "\<exists>evs. notified s' = notified s @ evs \<and> (f \<longleftrightarrow> failed (ad_hoc_test_result s) \<or> reported evs)"
    and "failed (ad_hoc_test_result s') \<Longrightarrow> f"
proof -
  define s1 where "s1 = ClearNonAdHocTestResult s"
  obtain start s2 s3 s5 now s6 where
      time1: "GetTimeInMillis sys s1 = (Normal start, s2)"
    and shuffle: "shuffle_if_requested b s2 = (Normal (), s3)"
    and body: "(if b then run_environments sys p else uskip) (notify (OnTestIterationStart i) s3) = (Normal (), s5)"
    and time2: "GetTimeInMillis sys s5 = (Normal now, s6)"
    and f: "f = UnitTest_Failed (notify (OnTestIterationEnd i) (s6\<lparr>unit_elapsed_time := now - start\<rparr>))"
    and seed: "next_seed (UnshuffleTests (notify (OnTestIterationEnd i) (s6\<lparr>unit_elapsed_time := now - start\<rparr>))) = (Normal (), s')"
    using run unfolding run_iteration_def
    by (elim ubind_NormalE) (auto simp: uchange_def uread_def ureturn_def s1_def split del: if_split)
  have e1: "erase s1 = erase s" and n1: "notified s1 = notified s" "UnitTest_Failed s1 = failed (ad_hoc_test_result s)"
    using ClearNonAdHocTestResult_facts by (simp_all add: s1_def)
  have t2: "tells [] s1 s2" using tells_time [OF time1] .
  have st2: "settled s2" using t2 settled_erase [of s2 s] st e1 by (simp add: tells_def)
  note sh = shuffle_if_requested_ok [OF st2 shuffle]
  define s4 where "s4 = notify (OnTestIterationStart i) s3"
  have em4: "emits [OnTestIterationStart i] s3 s4" "settled s4"
    using emits_settled_notify [OF sh(1), of "OnTestIterationStart i"] by (simp_all add: s4_def is_part_def)
  have "\<exists>es. tells es s4 s5"
  proof (cases b)
    case True
    then have "run_environments sys p s4 = (Normal (), s5)" using body by (simp add: s4_def)
    moreover have "idle s4" "current_test_case s4 = None" using em4(2) by (simp_all add: settled_def)
    ultimately show ?thesis using run_environments_tells by blast
  next
    case False
    then have "s5 = s4" using body by (simp add: s4_def uskip_def ureturn_def)
    then show ?thesis using told.R_refl by blast
  qed
  then obtain es where t5: "tells es s4 s5" by blast
  have t6: "tells (es @ []) s4 s6" using tells_trans [OF t5 tells_time [OF time2]] .
  define s7 where "s7 = s6\<lparr>unit_elapsed_time := now - start\<rparr>"
  have st6: "settled s6" using t6 settled_erase [of s6 s4] em4(2) by (simp add: tells_def)
  then have st7: "settled s7" using settled_cong [of s7 s6] by (simp add: s7_def)
  have em7: "emits [] s6 s7" by (rule emits_silent) (simp_all add: s7_def UnitTest_Failed_def failed_test_case_count_def)
  define s8 where "s8 = notify (OnTestIterationEnd i) s7"
  have em8: "emits [OnTestIterationEnd i] s7 s8" "settled s8"
    using emits_settled_notify [OF st7, of "OnTestIterationEnd i"] by (simp_all add: s8_def is_part_def)
  have w: "watched s1" "watched s4" using erase_watched [OF e1] st em4(2) by (simp_all add: settled_watched)
  have em3: "emits [] s2 s3" by (rule emits_silent) (simp_all add: sh)
  have "emits [] s1 s2" "emits (es @ []) s4 s6" using t2 t6 w by (simp_all add: tells_def)
  then have "\<exists>es. emits es s1 s8" using emits_trans em3 em4(1) em7 em8(1) by blast
  then obtain evs where evs: "notified s8 = notified s1 @ evs" "UnitTest_Failed s8 \<longleftrightarrow> UnitTest_Failed s1 \<or> reported evs"
    unfolding emits_def by blast
  note nx = next_seed_ok [OF seed [folded s7_def s8_def]]
  show "settled s'" using nx(1) UnshuffleTests_settled [OF em8(2)] by simp
  have "notified s' = notified s @ evs" using nx(2) evs(1) n1(1) by (simp add: UnshuffleTests_def)
  then show "\<exists>evs. notified s' = notified s @ evs \<and> (f \<longleftrightarrow> failed (ad_hoc_test_result s) \<or> reported evs)"
    using evs(2) n1(2) f by (intro exI [of _ evs]) (simp add: s7_def s8_def)
  show "failed (ad_hoc_test_result s') \<Longrightarrow> f" using nx(3) f by (simp add: UnitTest_Failed_def UnshuffleTests_def s7_def s8_def)
qed

lemma iterations_result:
  assumes "iterations sys p b n i fb s = Some (Normal r, s')" and "settled s" and "failed (ad_hoc_test_result s) \<Longrightarrow> fb"
  shows "settled s' \<and> (\<exists>evs. notified s' = notified s @ evs \<and> (r \<longleftrightarrow> fb \<or> reported evs))"
proof -
  let ?P = "\<lambda>(sys :: 'a System_scheme) p b n i fb s y. \<forall>r s'. y = (Normal r, s') \<longrightarrow> settled s \<longrightarrow> (failed (ad_hoc_test_result s) \<longrightarrow> fb) \<longrightarrow>
    settled s' \<and> (\<exists>evs. notified s' = notified s @ evs \<and> (r \<longleftrightarrow> fb \<or> reported evs))"
  have "?P sys p b n i fb s (Normal r, s')"
  proof (rule iterations.raw_induct [where P = ?P, OF _ assms(1)])
    fix it :: "'a System_scheme \<Rightarrow> Program \<Rightarrow> bool \<Rightarrow> int \<Rightarrow> int \<Rightarrow> bool \<Rightarrow> UnitTest \<Rightarrow> (bool completion \<times> UnitTest) option"
      and sys p b n i fb s y
    assume IH: "\<And>sys p b n i fb s y. it sys p b n i fb s = Some y \<Longrightarrow> ?P sys p b n i fb s y"
      and y: "(if \<not> n < 0 \<and> i = n then Some (Normal fb, s)
        else case run_iteration sys p b i s of
               (Normal f, s1) \<Rightarrow> it sys p b n (i + 1) (fb \<or> f) s1
             | (Throws e, s1) \<Rightarrow> Some (Throws e, s1)
             | (Stops e, s1) \<Rightarrow> Some (Stops e, s1)) = Some y"
    show "?P sys p b n i fb s y"
    proof (intro allI impI)
      fix r s'
      assume y': "y = (Normal r, s')" and st: "settled s" and ad: "failed (ad_hoc_test_result s) \<longrightarrow> fb"
      show "settled s' \<and> (\<exists>evs. notified s' = notified s @ evs \<and> (r \<longleftrightarrow> fb \<or> reported evs))"
      proof (cases "\<not> n < 0 \<and> i = n")
        case True
        then show ?thesis using y y' st by auto
      next
        case False
        obtain f s1 where one: "run_iteration sys p b i s = (Normal f, s1)"
          and rest: "it sys p b n (i + 1) (fb \<or> f) s1 = Some (Normal r, s')"
          using y y' False by (auto split: prod.splits completion.splits)
        note R = run_iteration_result [OF st one]
        obtain evs where evs: "notified s1 = notified s @ evs" "f \<longleftrightarrow> failed (ad_hoc_test_result s) \<or> reported evs" using R(2) by blast
        have "settled s' \<and> (\<exists>evs. notified s' = notified s1 @ evs \<and> (r \<longleftrightarrow> (fb \<or> f) \<or> reported evs))"
          using IH [OF rest] R(1,3) by simp
        then obtain ev2 where "settled s'" "notified s' = notified s1 @ ev2" "r \<longleftrightarrow> (fb \<or> f) \<or> reported ev2" by blast
        then show ?thesis using evs ad by (intro conjI exI [of _ "evs @ ev2"]) auto
      qed
    qed
  qed
  then show ?thesis using assms(2,3) by simp
qed

lemma filter_outline:
  assumes "FilterTests getenv fl reaction cs = Inr (n, cs')"
  shows "map outline cs' = map outline cs"
proof -
  have infos: "length ts' = length ts" if "filter_infos sel cn ts a b c = (ts', r)" for sel cn ts a b c ts' r
    using that by (induction ts arbitrary: a b c ts' r) (auto split: prod.splits)
  have "map outline cs' = map outline cs" if "filter_cases sel cs a b = (cs', q, r)" for sel cs a b cs' q r
    using that
  proof (induction cs arbitrary: a b cs' q r)
    case (Cons c cs)
    then show ?case by (auto simp: outline_def infos split: prod.splits)
  qed simp
  then show ?thesis using assms by (auto simp: FilterTests_def run_bind_def split: sum.splits prod.splits if_splits)
qed

text \<open>
  If shuffling is switched on while the program runs, there is no valid seed yet, and the process is aborted
  at the end of the iteration.
\<close>

lemma next_seed_aborts: "shuffle_flag (gtest_flags s) \<Longrightarrow> random_seed s = 0 \<Longrightarrow> next_seed s = (Stops (Fault Aborted), s)"
  by (simp add: next_seed_def lift_res_def GetNextRandomSeed_def rbind_def)

lemma prepare_run_ok:
  assumes "post_flag_parse_init_performed s" and st: "settled s" and "prepare_run sys s = Some (Inr (n, s1))"
  shows "settled s1" "notified s1 = notified s" "ad_hoc_test_result s1 = ad_hoc_test_result s"
proof -
  obtain fl reaction cs where "FilterTests (host_env sys) fl reaction (test_cases s) = Inr (n, cs)" "s1 = s\<lparr>test_cases := cs\<rparr>"
    using assms(1,3) by (auto simp: prepare_run_def PostFlagParsingInit_def run_bind_def split: sum.splits)
  then show "settled s1" "notified s1 = notified s" "ad_hoc_test_result s1 = ad_hoc_test_result s"
    using filter_outline settled_cong [of s1 s] st by simp_all
qed

lemma notify_settled: "settled (notify e s) = settled s"
  by (rule settled_erase) simp

lemma reported_structural:
  assumes "watched s" and "\<not> is_part e"
  shows "\<exists>evs. notified (notify e s) = notified s @ evs \<and> \<not> reported evs"
  using notify_emits(2) [OF assms(1), of e] assms(2) by (auto simp: is_part_def split: listener_event.splits)

lemma start_run_ok:
  assumes "settled s"
  shows "settled (start_run sys s)" "ad_hoc_test_result (start_run sys s) = ad_hoc_test_result s"
    "\<exists>evs. notified (start_run sys s) = notified s @ evs \<and> \<not> reported evs"
proof -
  obtain seed t n where eq: "start_run sys s = notify OnTestProgramStart (s\<lparr>random_seed := seed, start_timestamp := t, ticks := n\<rparr>)"
  proof -
    have "\<exists>seed t n. start_run sys s = notify OnTestProgramStart (s\<lparr>random_seed := seed, start_timestamp := t, ticks := n\<rparr>)"
      by (cases "shuffle_flag (gtest_flags s)"; cases "random_seed_flag (gtest_flags s) = 0")
        (simp_all add: start_run_def Let_def, (rule exI, rule exI, rule exI, rule refl)+)
    then show ?thesis using that by blast
  qed
  let ?s = "s\<lparr>random_seed := seed, start_timestamp := t, ticks := n\<rparr>"
  have st: "settled ?s" using settled_cong [of ?s s] assms by simp
  then show "settled (start_run sys s)" by (simp add: eq notify_settled)
  show "ad_hoc_test_result (start_run sys s) = ad_hoc_test_result s" by (simp add: eq notify_def)
  show "\<exists>evs. notified (start_run sys s) = notified s @ evs \<and> \<not> reported evs"
    using reported_structural [OF settled_watched [OF st], of OnTestProgramStart] by (simp add: eq is_part_def)
qed

lemma RunAllTests_tells:
  assumes "post_flag_parse_init_performed s" and st: "settled s" and ad: "\<not> failed (ad_hoc_test_result s)"
    and init: "GTestIsInitialized s" and run: "RunAllTests sys p s = Some (Normal ok, s')"
  shows "\<exists>evs. notified s' = notified s @ evs \<and> (ok \<longleftrightarrow> \<not> reported evs)"
proof (cases "g_help_flag (options s)")
  case True
  then show ?thesis using run init by (simp add: RunAllTests_def)
next
  case False
  obtain n s1 where prep: "prepare_run sys s = Some (Inr (n, s1))"
    using run init False by (auto simp: RunAllTests_def split: option.splits sum.splits)
  note P = prepare_run_ok [OF assms(1) st prep]
  show ?thesis
  proof (cases "list_tests (gtest_flags s1)")
    case True
    then show ?thesis using run init False prep P(2)
      by (intro exI [of _ "[]"]) (auto simp: RunAllTests_def ListTestsMatchingFilter_def print_out_def)
  next
    case False
    note R = start_run_ok [OF P(1), of sys]
    obtain cnt r s3 where it: "iterations sys p (n > 0) cnt 0 False (start_run sys s1) = Some (Normal r, s3)"
      and res: "ok = (\<not> r)" "s' = notify OnTestProgramEnd s3"
      using run init \<open>\<not> g_help_flag (options s)\<close> prep False
      by (auto simp: RunAllTests_def Let_def split: option.splits completion.splits)
    have "\<not> failed (ad_hoc_test_result (start_run sys s1))" using R(2) P(3) ad by simp
    then obtain ev2 where 2: "settled s3" "notified s3 = notified (start_run sys s1) @ ev2" "r \<longleftrightarrow> reported ev2"
      using iterations_result [OF it R(1)] by auto
    obtain ev1 where 1: "notified (start_run sys s1) = notified s1 @ ev1" "\<not> reported ev1" using R(3) by blast
    obtain ev3 where 3: "notified s' = notified s3 @ ev3" "\<not> reported ev3"
      using reported_structural [OF settled_watched [OF 2(1)], of OnTestProgramEnd] res(2) by (auto simp: is_part_def)
    show ?thesis using 1 2(2,3) 3 P(2) res(1) by (intro exI [of _ "ev1 @ ev2 @ ev3"]) simp
  qed
qed

text \<open>
  C4: After the initialisation, with tests registered in order (fewer than \<open>2 ^ 31\<close> of them in each
  list), listeners attached and no failure before, \<open>RUN_ALL_TESTS\<close> that returns answers true exactly if no failing assertion result was told to a
  listener during the run, for any repeat count, shuffling, sharding and filter, and whatever the
  user's code does.
\<close>

theorem RunAllTests_answers:
  assumes "GTestIsInitialized s" and "post_flag_parse_init_performed s" and "cases_ok s" and "unshuffled s" and "small s"
    and "watched s" and "current_test_info s = None" and "current_test_case s = None" and "\<not> failed (ad_hoc_test_result s)"
    and "RunAllTests sys p s = Some (Normal ok, s')"
  shows "\<exists>evs. notified s' = notified s @ evs \<and> (ok \<longleftrightarrow> \<not> reported evs)"
  using assms in_order_arranged by (intro RunAllTests_tells) (auto simp: settled_def idle_def)

declare iterations.simps [code]

theorem RunAllTests_answers_witness:
  "\<exists>s' evs. RunAllTests example_host example_program (example_state [1, 0]) = Some (Normal False, s') \<and>
     notified s' = notified (example_state [1, 0]) @ evs \<and> reported evs"
proof -
  have st: "length [1, 0 :: nat] \<le> 2" by simp
  note st = example_settled [OF st]
  have "map_option fst (RunAllTests example_host example_program (example_state [1, 0])) = Some (Normal False)" by code_simp
  then obtain s' where "RunAllTests example_host example_program (example_state [1, 0]) = Some (Normal False, s')" by auto
  with RunAllTests_answers [OF st(7,8,1-6,9) this] show ?thesis by auto
qed

subsection \<open>Runs that complete\<close>

text \<open>
  Code that keeps the rules: it does not throw the library's own exception, leaves the flags that stop
  a run off and shuffling as it is; with \<open>throws\<close> false it throws nothing at all.
\<close>

definition quiet :: "Flags \<Rightarrow> bool" where
  "quiet fl \<longleftrightarrow> \<not> break_on_failure fl \<and> \<not> throw_on_failure fl"

definition calm_act :: "bool \<Rightarrow> act \<Rightarrow> bool" where
  "calm_act throws a =
     (case a of
        Assertion _ _ _ _ _ \<Rightarrow> True
      | Property _ _ \<Rightarrow> True
      | Raise e \<Rightarrow> throws \<and> (case e of GoogleTestFailureException _ \<Rightarrow> False | _ \<Rightarrow> True)
      | Modify_flags f \<Rightarrow> (\<forall>fl. quiet fl \<longrightarrow> quiet (f fl) \<and> shuffle_flag (f fl) = shuffle_flag fl))"

primrec calm_code :: "bool \<Rightarrow> code \<Rightarrow> bool" where
  "calm_code throws Return \<longleftrightarrow> True"
| "calm_code throws (Do a k) \<longleftrightarrow> calm_act throws a \<and> (\<forall>s. calm_code throws (k s))"
| "calm_code throws (Scoped t body k) \<longleftrightarrow> calm_code throws body \<and> (\<forall>s. calm_code throws (k s))"

definition calm_program :: "Program \<Rightarrow> bool" where
  "calm_program p \<longleftrightarrow>
     (\<forall>k. calm_code True (constructor (test_class p k)) \<and> calm_code True (SetUp (test_class p k)) \<and> calm_code True (TestBody (test_class p k)) \<and>
        calm_code True (TearDown (test_class p k)) \<and> calm_code False (destructor (test_class p k)) \<and> calm_code True (case_function p k) \<and>
        calm_code False (environment_SetUp p k) \<and> calm_code False (environment_TearDown p k))"

definition steady :: "UnitTest \<Rightarrow> UnitTest \<Rightarrow> bool" where
  "steady s s' \<longleftrightarrow>
     quiet (gtest_flags s') \<and> shuffle_flag (gtest_flags s') = shuffle_flag (gtest_flags s) \<and>
     gtest_trace_stack s' = gtest_trace_stack s \<and> catching_exceptions s' = catching_exceptions s"

text \<open>The ways to end that are allowed.\<close>

definition ends :: "bool \<Rightarrow> UnitTest \<Rightarrow> 'a completion \<times> UnitTest \<Rightarrow> bool" where
  "ends throws s r \<longleftrightarrow>
     steady s (snd r) \<and>
     (case fst r of
        Normal _ \<Rightarrow> True
      | Throws e \<Rightarrow> throws \<and> (case e of GoogleTestFailureException _ \<Rightarrow> False | _ \<Rightarrow> True)
      | Stops _ \<Rightarrow> False)"

lemma steady_refl: "quiet (gtest_flags s) \<Longrightarrow> steady s s"
  by (simp add: steady_def)

lemma steady_trans: "steady s1 s2 \<Longrightarrow> steady s2 s3 \<Longrightarrow> steady s1 s3"
  by (simp add: steady_def)

lemma steady_quiet: "steady s s' \<Longrightarrow> quiet (gtest_flags s')"
  by (simp add: steady_def)

lemma steady_catching: "steady s s' \<Longrightarrow> catching_exceptions s' = catching_exceptions s"
  by (simp add: steady_def)

lemma ends_Normal [simp]: "ends throws s (Normal x, s1) \<longleftrightarrow> steady s s1"
  by (simp add: ends_def)

lemma ends_steady: "steady s1 s2 \<Longrightarrow> ends throws s2 r \<Longrightarrow> ends throws s1 r"
  using steady_trans by (auto simp: ends_def)

lemma ends_ubind:
  assumes "ends throws s (m s)" and "\<And>x s1. m s = (Normal x, s1) \<Longrightarrow> steady s s1 \<Longrightarrow> ends throws s1 (f x s1)"
  shows "ends throws s (ubind m f s)"
proof -
  obtain x s1 where "m s = (x, s1)" by (cases "m s")
  then show ?thesis using assms by (cases x) (auto simp: ubind_def ends_def intro: steady_trans)
qed

lemma ends_uskip: "quiet (gtest_flags s) \<Longrightarrow> ends throws s (uskip s)"
  by (simp add: uskip_def ureturn_def steady_refl)

lemma report_steady: "quiet (gtest_flags s) \<Longrightarrow> steady s (ReportTestPartResult r s)"
  by (auto simp: ReportTestPartResult_def notify_def change_current_result_def change_info_def steady_def gtest_flags_def Let_def
      split: option.splits prod.splits)

lemma ends_AddTestPartResult: "quiet (gtest_flags s) \<Longrightarrow> ends throws s (UnitTest_AddTestPartResult k file line message trace s)"
  using report_steady [of s] by (simp add: UnitTest_AddTestPartResult_def Let_def steady_def quiet_def)

lemma ends_ADD_FAILURE: "quiet (gtest_flags s) \<Longrightarrow> ends throws s (ADD_FAILURE here message s)"
  by (simp add: ADD_FAILURE_def AssertHelper_assign_def ends_AddTestPartResult)

lemma ends_RecordProperty: "quiet (gtest_flags s) \<Longrightarrow> ends throws s (UnitTest_RecordProperty here prop s)"
proof -
  assume q: "quiet (gtest_flags s)"
  have known: "TestResult_RecordProperty e prop r \<noteq> Inl f"
    if "e = lit ''testcase'' \<or> e = lit ''testsuite'' \<or> e = lit ''testsuites''" for e r f
    using that by (auto simp: TestResult_RecordProperty_def GetReservedAttributesForElement_def rbind_def split: prod.splits bool.splits)
  have put: "steady s (change_info ij g s)" "steady s (change_case i h s)" "steady s (s\<lparr>ad_hoc_test_result := r\<rparr>)" for ij g i h r
    using q by (simp_all add: steady_def gtest_flags_def change_info_def change_case_def Let_def split: prod.splits)
  show ?thesis
    unfolding UnitTest_RecordProperty_def Let_def
    by (auto simp: known put ends_ADD_FAILURE [OF q] simp del: lit_Cons split: option.splits sum.splits)
qed

lemma ends_do_act: "quiet (gtest_flags s) \<Longrightarrow> calm_act throws a \<Longrightarrow> ends throws s (do_act f a s)"
proof (cases a)
  case (Raise e)
  then show "quiet (gtest_flags s) \<Longrightarrow> calm_act throws a \<Longrightarrow> ends throws s (do_act f a s)"
    by (simp add: do_act_def calm_act_def ends_def steady_refl)
next
  case (Modify_flags g)
  then show "quiet (gtest_flags s) \<Longrightarrow> calm_act throws a \<Longrightarrow> ends throws s (do_act f a s)"
    by (simp add: do_act_def calm_act_def uchange_def set_flags_def gtest_flags_def steady_def)
qed (simp_all add: do_act_def AssertHelper_assign_def ends_AddTestPartResult ends_RecordProperty)

lemma ends_run_code: "calm_code throws c \<Longrightarrow> quiet (gtest_flags s) \<Longrightarrow> ends throws s (run_code f c s)"
proof (induction c arbitrary: s)
  case Return
  then show ?case by (simp add: ends_uskip)
next
  case (Do a k)
  then show ?case by (auto intro!: ends_ubind ends_do_act simp: steady_def)
next
  case (Scoped t body k)
  define r where "r = run_code f body (PushGTestTrace t s)"
  have r: "ends throws (PushGTestTrace t s) r"
    using Scoped.prems unfolding r_def by (intro Scoped.IH(1)) (simp_all add: PushGTestTrace_def gtest_flags_def)
  define s1 where "s1 = (snd r)\<lparr>gtest_trace_stack := gtest_trace_stack s\<rparr>"
  have pop: "PopGTestTrace (snd r) = (Normal (), s1)" and s1: "steady s s1"
    using r by (simp_all add: ends_def steady_def PopGTestTrace_def PushGTestTrace_def s1_def gtest_flags_def)
  have rest: "ends throws s1 (run_code f (k s1) s1)"
    using Scoped.prems s1 by (intro Scoped.IH(2)) (simp_all add: steady_def)
  show ?case
  proof (cases "fst r")
    case (Normal u)
    then have "run_code f (Scoped t body k) s = run_code f (k s1) s1"
      using pop by (cases r) (simp add: r_def [symmetric] ubind_def)
    then show ?thesis using ends_steady [OF s1 rest] by simp
  next
    case (Throws e)
    then have "run_code f (Scoped t body k) s = (Throws e, s1)"
      using pop by (cases r) (simp add: r_def [symmetric] ubind_def)
    then show ?thesis using r Throws s1 by (simp add: ends_def)
  next
    case (Stops e)
    then show ?thesis using r by (simp add: ends_def)
  qed
qed

lemma ends_catch_result: "ends True s r \<Longrightarrow> ends False s (catch_result location zero r)"
proof -
  assume r: "ends True s r"
  have q: "quiet (gtest_flags (snd r))" and st: "steady s (snd r)" using r by (simp_all add: ends_def steady_def)
  have "ends False (snd r) (ubind (ReportFailureInUnknownLocation k m) (\<lambda>_. ureturn zero) (snd r))" for k m
    using q by (intro ends_ubind) (simp_all add: ReportFailureInUnknownLocation_def ends_AddTestPartResult ureturn_def steady_def)
  then have "ends False s (ubind (ReportFailureInUnknownLocation k m) (\<lambda>_. ureturn zero) (snd r))" for k m
    using ends_steady [OF st] by blast
  then show ?thesis using r by (cases r; cases "fst r") (auto simp: catch_result_def ends_def split: exc.splits)
qed

lemma ends_Handle:
  assumes "catching_exceptions s" and "ends True s (m s)"
  shows "ends False s (HandleExceptionsInMethodIfSupported location zero m s)"
  using assms by (simp add: HandleExceptionsInMethodIfSupported_def ends_catch_result)

lemma ends_weaken: "ends False s r \<Longrightarrow> ends throws s r"
  by (auto simp: ends_def split: completion.splits)

lemma restore_flags_steady:
  assumes "quiet fl" and "steady s s1" and "fl = gtest_flags s"
  shows "steady s (restore_flags fl s1)"
  using assms by (simp add: steady_def restore_flags_def set_flags_def gtest_flags_def quiet_def)

lemma ends_CreateTest:
  assumes "calm_program p" and q: "quiet (gtest_flags s)"
  shows "ends True s (CreateTest p factory s)"
    and "CreateTest p factory s = (Normal test, s1) \<Longrightarrow> test = Some (gtest_flags s)"
proof -
  have e: "ends True s (run_code (gtest_cc_file p) (constructor (test_class p factory)) s)"
    using assms by (intro ends_run_code) (simp_all add: calm_program_def)
  show "ends True s (CreateTest p factory s)"
    using e restore_flags_steady [OF q _ refl] by (auto simp: CreateTest_def Let_def ends_def split: prod.splits completion.splits)
  show "CreateTest p factory s = (Normal test, s1) \<Longrightarrow> test = Some (gtest_flags s)"
    by (auto simp: CreateTest_def Let_def split: prod.splits completion.splits)
qed

lemma ends_DeleteSelf:
  assumes "calm_program p" and q: "quiet (gtest_flags s)"
    and "\<And>fl. test = Some fl \<Longrightarrow> quiet fl \<and> shuffle_flag fl = shuffle_flag (gtest_flags s)"
  shows "ends False s (DeleteSelf p factory test s)"
proof (cases test)
  case None
  then show ?thesis using q by (simp add: DeleteSelf_def steady_refl)
next
  case (Some fl)
  have e: "ends False s (run_code (gtest_cc_file p) (destructor (test_class p factory)) s)"
    using assms(1,2) by (intro ends_run_code) (simp_all add: calm_program_def)
  moreover have "steady s (restore_flags fl s1)" if "steady s s1" for s1
    using that assms(3) [OF Some] by (simp add: steady_def restore_flags_def set_flags_def gtest_flags_def quiet_def)
  ultimately show ?thesis by (auto simp: DeleteSelf_def Some ends_def split: prod.splits completion.splits)
qed

lemma ends_HasSameFixtureClass: "quiet (gtest_flags s) \<Longrightarrow> ends throws s (HasSameFixtureClass p ij s)"
  by (auto simp: HasSameFixtureClass_def Let_def ureturn_def steady_def intro!: ends_ubind ends_ADD_FAILURE)

lemma ends_Test_Run:
  assumes p: "calm_program p" and "catching_exceptions s" and "quiet (gtest_flags s)"
  shows "ends False s (Test_Run p ij factory s)"
  unfolding Test_Run_def Let_def
proof (rule ends_ubind, goal_cases)
  case 1
  show ?case using assms(3) by (rule ends_HasSameFixtureClass)
next
  case (2 same s1)
  have c: "calm_code True (SetUp (test_class p factory))" "calm_code True (TestBody (test_class p factory))" "calm_code True (TearDown (test_class p factory))"
    using p by (simp_all add: calm_program_def)
  have part: "ends False r (HandleExceptionsInMethodIfSupported l () (run_code f k) r)"
    if "calm_code True k" "quiet (gtest_flags r)" "catching_exceptions r" for l f k r
    using that by (intro ends_Handle ends_run_code)
  have "quiet (gtest_flags s1)" "catching_exceptions s1" using 2(2) assms(2) by (simp_all add: steady_def)
  then show ?case using c
    by (auto intro!: ends_ubind part ends_uskip simp: uread_def steady_refl dest: steady_quiet steady_catching)
qed

lemma ends_run_test_object:
  assumes p: "calm_program p" and c: "catching_exceptions s" and q: "quiet (gtest_flags s)"
  shows "ends False s (run_test_object p ij factory s)"
proof -
  let ?h = "HandleExceptionsInMethodIfSupported kFixtureConstructor None (CreateTest p factory)"
  have e: "ends False s (?h s)" by (intro ends_Handle [OF c] ends_CreateTest(1) [OF p q])
  have saved: "quiet fl \<and> shuffle_flag fl = shuffle_flag (gtest_flags s)" if "?h s = (Normal (Some fl), s1)" for fl s1
  proof -
    have "CreateTest p factory s = (Normal (Some fl), s1)"
      using that c by (auto simp: HandleExceptionsInMethodIfSupported_def catch_result_def ubind_def ureturn_def
          split: prod.splits completion.splits exc.splits)
    then show ?thesis using ends_CreateTest(2) [OF p q] q by blast
  qed
  show ?thesis
    unfolding run_test_object_def
  proof (rule ends_ubind, goal_cases)
    case 1
    show ?case by (rule e)
  next
    case (2 test s1)
    have tested: "ends False s1 ((if test \<noteq> None \<and> \<not> b then Test_Run p ij factory else uskip) s1)" for b
      using 2(2) c by (auto intro!: ends_Test_Run [OF p] ends_uskip simp: steady_def)
    have fl: "quiet fl \<and> shuffle_flag fl = shuffle_flag (gtest_flags s)" if "test = Some fl" for fl
      using saved 2(1) that by blast
    have "ends False s2 (HandleExceptionsInMethodIfSupported kFixtureDestructor () (DeleteSelf p factory test) s2)" if "steady s1 s2" for s2
    proof (rule ends_Handle)
      show "catching_exceptions s2" using that 2(2) c by (simp add: steady_def)
      have "ends False s2 (DeleteSelf p factory test s2)"
        using fl that 2(2) by (intro ends_DeleteSelf [OF p]) (simp_all add: steady_def)
      then show "ends True s2 (DeleteSelf p factory test s2)" by (rule ends_weaken)
    qed
    then show ?case using tested 2(2) by (auto intro!: ends_ubind simp: uread_def steady_def)
  qed
qed

lemma ends_time: "quiet (gtest_flags s) \<Longrightarrow> ends throws s (GetTimeInMillis sys s)"
  by (simp add: GetTimeInMillis_def steady_def gtest_flags_def)

lemma steady_changes [simp]:
  "steady s (notify e s') = steady s s'" "steady s (change_info ij f s') = steady s s'" "steady s (change_case i g s') = steady s s'"
  "steady s (s'\<lparr>current_test_info := x\<rparr>) = steady s s'" "steady s (s'\<lparr>current_test_case := y\<rparr>) = steady s s'"
  by (simp_all add: steady_def gtest_flags_def notify_def change_info_def change_case_def Let_def split: prod.splits)

lemma catching_changes [simp]:
  "catching_exceptions (notify e s) = catching_exceptions s" "catching_exceptions (change_case i f s) = catching_exceptions s"
  "catching_exceptions (start_case i s) = catching_exceptions s"
  by (simp_all add: notify_def change_case_def start_case_def)

lemma ends_TestInfo_Run:
  assumes p: "calm_program p" and c: "catching_exceptions s" and q: "quiet (gtest_flags s)"
  shows "ends False s (TestInfo_Run sys p ij s)"
  using steady_refl [OF q] c
  by (auto simp: TestInfo_Run_def Let_def uchange_def start_test_def finish_test_def
      intro!: ends_ubind ends_time ends_run_test_object [OF p] steady_refl dest: steady_quiet steady_catching)

lemma ends_for_each:
  assumes q: "quiet (gtest_flags s)"
    and f: "\<And>k s1. k \<in> set ks \<Longrightarrow> steady s s1 \<Longrightarrow> I s1 \<Longrightarrow> ends throws s1 (f k s1)"
    and I: "I s" "\<And>k s1 s2. k \<in> set ks \<Longrightarrow> I s1 \<Longrightarrow> f k s1 = (Normal (), s2) \<Longrightarrow> I s2"
  shows "ends throws s (for_each f ks s)"
  using assms
proof (induction ks arbitrary: s)
  case Nil
  then show ?case by (simp add: ends_uskip)
next
  case (Cons k ks)
  have "ends throws s1 (for_each f ks s1)" if "f k s = (Normal (), s1)" "steady s s1" for s1
  proof (rule Cons.IH)
    show "quiet (gtest_flags s1)" using that(2) by (rule steady_quiet)
    show "I s1" using Cons.prems(4) [of k s s1] Cons.prems(3) that(1) by simp
    show "ends throws s2 (f j s2)" if "j \<in> set ks" "steady s1 s2" "I s2" for j s2
      using Cons.prems(2) that steady_trans [OF \<open>steady s s1\<close>] by simp
    show "I s3" if "j \<in> set ks" "I s2" "f j s2 = (Normal (), s3)" for j s2 s3
      using Cons.prems(4) that by (meson list.set_intros(2))
  qed
  then show ?case using Cons.prems(1-3) steady_refl by (auto intro!: ends_ubind)
qed

lemma ends_run_case_function:
  assumes "calm_program p" and "catching_exceptions s" and "quiet (gtest_flags s)"
  shows "ends False s (run_case_function p location f s)"
  using assms unfolding run_case_function_def by (intro ends_Handle ends_run_code) (simp_all add: calm_program_def)

lemma ends_TestCase_Run:
  assumes p: "calm_program p" and c: "catching_exceptions s" and q: "quiet (gtest_flags s)"
    and st: "settled s" and i: "i < length (test_cases s)"
  shows "ends False s (TestCase_Run sys p i s)"
proof (cases "case_should_run (test_cases s ! i)")
  case False
  then show ?thesis using q by (simp add: TestCase_Run_def steady_refl)
next
  case True
  let ?c = "test_cases s ! i" and ?s1 = "start_case i s"
  have st1: "steady s ?s1" using steady_refl [OF q] by (simp add: start_case_def)
  have tests: "ends False s3 (for_each (run_nth_test sys p i) (map int [0..<length (test_info_list ?c)]) s3)"
    if s2: "run_case_function p l f ?s1 = (Normal (), s2)" and s3: "GetTimeInMillis sys s2 = (Normal t, s3)" and q3: "quiet (gtest_flags s3)" "catching_exceptions s3" for l f s2 t s3
  proof -
    define s0 where "s0 = s\<lparr>current_test_case := Some i\<rparr>"
    have idle0: "idle s0" using st by (simp add: s0_def settled_def idle_def watched_def arranged_def)
    have "tells [] ?s1 s2"
      using told.R_Handle [where m = "run_code (gtest_cc_file p) (case_function p f)" and s = ?s1 and location = l and zero = "()"]
        told.R_run_code s2 by (simp add: run_case_function_def)
    then have "tells [] ?s1 s3" using told.R_trans tells_time [OF s3] by blast
    then have e3: "erase s3 = erase s0" by (simp add: tells_def start_case_def s0_def)
    have idle3: "idle s3" using erase_idle [OF e3] idle0 by simp
    have c3: "bare_case (test_cases s3 ! i) = bare_case ?c" using erase_case [OF e3] i by (simp add: s0_def)
    have i3: "i < length (test_cases s3)" using erase_eqD(10) [OF e3] i by (simp add: s0_def)
    let ?n = "length (test_info_list (test_cases s3 ! i))"
    have v: "mset (test_indices (test_cases s3 ! i)) = mset (map int [0..<?n])"
      using idle3 i3 by (simp add: idle_def arranged_def)
    have step: "\<exists>j < ?n. run_nth_test sys p i k r = TestInfo_Run sys p (i, j) r" if "k \<in> set (map int [0..<?n])" "erase r = erase s3" for k r
    proof -
      obtain m where m: "k = int m" "m < ?n" using \<open>k \<in> _\<close> by auto
      note at = arranged_index [OF v m(2)]
      have "test_indices (test_cases r ! i) = test_indices (test_cases s3 ! i)"
        using bare_case_eqD(3) [OF erase_case [OF that(2) i3]] .
      then show ?thesis
        using at m by (intro exI [of _ "nat (test_indices (test_cases s3 ! i) ! m)"]) (simp add: run_nth_test_def GetMutableTestInfo_def)
    qed
    have "ends False s3 (for_each (run_nth_test sys p i) (map int [0..<?n]) s3)"
    proof (rule ends_for_each [where I = "\<lambda>r. erase r = erase s3"])
      show "quiet (gtest_flags s3)" by (rule q3(1))
      fix k r assume k: "k \<in> set (map int [0..<?n])" and r: "erase r = erase s3"
      show "ends False r (run_nth_test sys p i k r)" if "steady s3 r"
        using step [OF k r] that q3(2) ends_TestInfo_Run [OF p, of r] by (auto simp: steady_def)
      fix r2 assume one: "run_nth_test sys p i k r = (Normal (), r2)"
      obtain j where j: "j < ?n" "TestInfo_Run sys p (i, j) r = (Normal (), r2)" using step [OF k r] one by auto
      have "bare_case (test_cases r ! i) = bare_case (test_cases s3 ! i)" using erase_case [OF r i3] .
      then have "tells (test_events r (i, j)) r r2"
        using erase_idle [OF r] idle3 erase_eqD(10) [OF r] i3 j(1) bare_case_eqD(2,7) [of "test_cases r ! i"] bare_case_eqD(2) [OF c3] True
        by (intro TestInfo_Run_tells [OF _ _ _ _ j(2)]) simp_all
      then show "erase r2 = erase s3" using r by (simp add: tells_def)
    qed simp
    then show ?thesis using bare_case_eqD(7) [OF c3] by simp
  qed
  show ?thesis
    using True c steady_refl [OF q]
    by (auto simp: TestCase_Run_def Let_def uchange_def finish_case_def simp del: lit_Cons
        intro!: ends_ubind ends_time ends_run_case_function [OF p] tests steady_refl st1
        dest: steady_quiet steady_catching) (metis catching_changes(3) steady_catching)
qed

lemma ends_run_cases:
  assumes p: "calm_program p" and c: "catching_exceptions s" and q: "quiet (gtest_flags s)" and st: "settled s"
  shows "ends False s (for_each (run_nth_case sys p) (map int [0..<length (test_cases s)]) s)"
proof (rule ends_for_each [where I = "\<lambda>r. erase r = erase s"])
  let ?n = "length (test_cases s)" and ?v = "test_case_indices s"
  have v: "mset ?v = mset (map int [0..<?n])" using st by (simp add: settled_def idle_def arranged_def)
  show "quiet (gtest_flags s)" by (rule q)
  fix k r assume k: "k \<in> set (map int [0..<?n])" and r: "erase r = erase s"
  obtain m where m: "k = int m" "m < ?n" using k by auto
  note at = arranged_index [OF v m(2)]
  have step: "run_nth_case sys p k r = TestCase_Run sys p (nat (?v ! m)) r"
    using at by (simp add: run_nth_case_def GetMutableTestCase_def erase_eqD(4) [OF r] m(1))
  have str: "settled r" using settled_erase [OF r] st by simp
  have i: "nat (?v ! m) < length (test_cases r)" using at(3) erase_eqD(10) [OF r] by simp
  show "ends False r (run_nth_case sys p k r)" if "steady s r"
    unfolding step using that c by (intro ends_TestCase_Run [OF p _ _ str i]) (simp_all add: steady_def)
  fix r2 assume "run_nth_case sys p k r = (Normal (), r2)"
  then have "tells (case_events r (nat (?v ! m))) r r2"
    using str i unfolding step by (intro TestCase_Run_tells) (simp_all add: settled_def)
  then show "erase r2 = erase s" using r by (simp add: tells_def)
qed simp

lemma ends_run_environments:
  assumes p: "calm_program p" and c: "catching_exceptions s" and q: "quiet (gtest_flags s)" and st: "settled s"
  shows "ends False s (run_environments sys p s)"
proof -
  have env: "ends False r (for_each (\<lambda>e. run_code (gtest_cc_file p) (g e)) es r)"
    if "quiet (gtest_flags r)" "\<And>e. calm_code False (g e)" for g :: "nat \<Rightarrow> code" and es r
    by (rule ends_for_each [where I = "\<lambda>_. True"]) (use that in \<open>auto intro: ends_run_code dest: steady_quiet\<close>)
  have calm_code: "calm_code False (environment_SetUp p e)" "calm_code False (environment_TearDown p e)" for e
    using p by (simp_all add: calm_program_def)
  have settled: "settled r" if "for_each (\<lambda>e. run_code (gtest_cc_file p) (g e)) es (notify OnEnvironmentsSetUpStart s) = (Normal (), r)"
    for g :: "nat \<Rightarrow> code" and es r
  proof -
    have "erase (snd (for_each (\<lambda>e. run_code (gtest_cc_file p) (g e)) es (notify OnEnvironmentsSetUpStart s))) =
        erase (notify OnEnvironmentsSetUpStart s)"
      by (intro frame.R_for_each frame.R_run_code)
    then have "erase r = erase s" using that by simp
    then show ?thesis using settled_erase [of r s] st by simp
  qed
  have cases: "ends False (notify e r) (for_each (run_nth_case sys p) (map int [0..<length (test_cases (notify e r))]) (notify e r))"
    if "settled r" "quiet (gtest_flags r)" "catching_exceptions r" for e r
    using that by (intro ends_run_cases [OF p]) (simp_all add: notify_settled)
  have quiet: "quiet (gtest_flags (notify e r)) = quiet (gtest_flags r)" for e r by (simp add: notify_def gtest_flags_def)
  show ?thesis
    unfolding run_environments_def
    using q c
    by (auto simp: uchange_def quiet intro!: ends_ubind env calm_code cases steady_refl dest: steady_quiet steady_catching)
      (metis settled steady_quiet steady_catching catching_changes(1))+
qed

lemma endsE:
  assumes "ends False s r"
  obtains x s1 where "r = (Normal x, s1)" and "steady s s1"
  using assms by (cases r; cases "fst r") (auto simp: ends_def)

lemma shuffle_completes:
  assumes "quiet (gtest_flags s)" and "settled s"
  shows "\<exists>s'. shuffle_if_requested b s = (Normal (), s') \<and> steady s s' \<and> random_seed s' = random_seed s"
proof (cases "b \<and> shuffle_flag (gtest_flags s)")
  case True
  let ?s = "s\<lparr>random_state := word_of_int (random_seed s)\<rparr>"
  have "settled ?s" by (subst settled_cong [of ?s s]) (simp_all add: assms(2))
  then obtain s1 where s1: "ShuffleTests ?s = Inr s1" "shuffled ?s s1" using ShuffleTests_ok by (auto simp: settled_def)
  then obtain v cs r where "s1 = ?s\<lparr>test_case_indices := v, test_cases := cs, random_state := r\<rparr>"
    unfolding shuffled_def by blast
  then show ?thesis using True s1(1) assms(1) by (simp add: shuffle_if_requested_def lift_res_def steady_def gtest_flags_def)
next
  case False
  then show ?thesis using steady_refl [OF assms(1)] by (auto simp: shuffle_if_requested_def)
qed

lemma run_iteration_completes:
  assumes p: "calm_program p" and c: "catching_exceptions s" and q: "quiet (gtest_flags s)" and st: "settled s"
    and seed: "shuffle_flag (gtest_flags s) \<Longrightarrow> valid_seed (random_seed s)"
  shows "\<exists>f s'. run_iteration sys p b i s = (Normal f, s') \<and> steady s s' \<and>
    (shuffle_flag (gtest_flags s) \<longrightarrow> valid_seed (random_seed s'))"
proof -
  define s2 where "s2 = (ClearNonAdHocTestResult s)\<lparr>ticks := ticks (ClearNonAdHocTestResult s) + 1\<rparr>"
  have s2: "steady s s2" "random_seed s2 = random_seed s"
    using q by (simp_all add: s2_def ClearNonAdHocTestResult_def steady_def gtest_flags_def)
  have st2: "settled s2" using settled_erase [of s2 s] st by (simp add: s2_def ClearNonAdHocTestResult_facts(1))
  obtain s3 where s3: "shuffle_if_requested b s2 = (Normal (), s3)" "steady s2 s3" "random_seed s3 = random_seed s2"
    using shuffle_completes [OF steady_quiet [OF s2(1)] st2] by blast
  define s4 where "s4 = notify (OnTestIterationStart i) s3"
  have s4: "steady s s4" "settled s4" "random_seed s4 = random_seed s"
    using steady_trans [OF s2(1) s3(2)] shuffle_if_requested_ok(1) [OF st2 s3(1)] s2(2) s3(3)
    by (simp_all add: s4_def notify_settled) (simp add: notify_def)
  have "\<exists>s5. (if b then run_environments sys p else uskip) s4 = (Normal (), s5) \<and> steady s4 s5 \<and> erase s5 = erase s4"
  proof (cases b)
    case True
    have "ends False s4 (run_environments sys p s4)"
      using s4 c by (intro ends_run_environments [OF p]) (simp_all add: steady_def)
    then obtain s5 where s5: "run_environments sys p s4 = (Normal (), s5)" "steady s4 s5" by (rule endsE) simp
    then obtain es where "tells es s4 s5" using run_environments_tells [of s4] s4(2) unfolding settled_def by blast
    then show ?thesis using s5 True by (simp add: tells_def)
  next
    case False
    then show ?thesis using steady_refl [OF steady_quiet [OF s4(1)]] by (simp add: uskip_def ureturn_def)
  qed
  then obtain s5 where s5: "(if b then run_environments sys p else uskip) s4 = (Normal (), s5)" "steady s4 s5" "erase s5 = erase s4" by blast
  define s7 where "s7 = notify (OnTestIterationEnd i)
    (s5\<lparr>ticks := ticks s5 + 1, unit_elapsed_time := clock sys (ticks s5) - clock sys (ticks (ClearNonAdHocTestResult s))\<rparr>)"
  define s8 where "s8 = UnshuffleTests s7"
  have s7: "steady s5 s7" "random_seed s7 = random_seed s"
    using s5(2) erase_eqD(7) [OF s5(3)] s4(3)
    by (simp_all add: s7_def) (simp_all add: steady_def gtest_flags_def notify_def)
  have s8: "steady s s8" "random_seed s8 = random_seed s"
    using steady_trans [OF s4(1) steady_trans [OF s5(2) s7(1)]] s7(2) by (simp_all add: s8_def UnshuffleTests_def steady_def gtest_flags_def)
  have b1: "ubind (shuffle_if_requested b) g s2 = g () s3" for g :: "unit \<Rightarrow> bool action" by (simp add: ubind_def s3(1))
  have b2: "ubind (if b then run_environments sys p else uskip) g s4 = g () s5" for g :: "unit \<Rightarrow> bool action"
    unfolding ubind_def s5(1) by simp
  have run: "run_iteration sys p b i s = ubind next_seed (\<lambda>_. ureturn (UnitTest_Failed s7)) s8"
    unfolding run_iteration_def
    by (simp only: ubind_simps(1-3) s2_def [symmetric] b1 s4_def [symmetric] b2 s7_def [symmetric] s8_def)
  show ?thesis
  proof (cases "shuffle_flag (gtest_flags s8)")
    case True
    then have "valid_seed (random_seed s8)" using seed s8 by (simp add: steady_def)
    then obtain n where n: "GetNextRandomSeed (random_seed s8) = Inr n" "valid_seed n" using GetNextRandomSeed_valid by blast
    then have "next_seed s8 = (Normal (), s8\<lparr>random_seed := n\<rparr>)" using True by (simp add: next_seed_def lift_res_def rbind_def)
    then show ?thesis using n(2) s8(1) by (simp add: run ubind_def ureturn_def) (simp add: steady_def gtest_flags_def)
  next
    case False
    then have "next_seed s8 = (Normal (), s8)" by (simp add: next_seed_def)
    then show ?thesis using s8(1) False by (simp add: run ubind_def ureturn_def) (simp add: steady_def)
  qed
qed

lemma iterations_complete:
  assumes p: "calm_program p" and n: "i \<le> n" "0 \<le> n"
    and "catching_exceptions s" and "quiet (gtest_flags s)" and "settled s"
    and "shuffle_flag (gtest_flags s) \<Longrightarrow> valid_seed (random_seed s)"
  shows "\<exists>r s'. iterations sys p b n i fb s = Some (Normal r, s') \<and> steady s s'"
  using n(1) assms(4-7)
proof (induction "nat (n - i)" arbitrary: i fb s)
  case 0
  then have "i = n" by simp
  then show ?case using n(2) steady_refl [OF 0(4)] by (subst iterations.simps) simp
next
  case (Suc k)
  then have i: "i \<noteq> n" "i + 1 \<le> n" "k = nat (n - (i + 1))" by simp_all
  obtain f s1 where one: "run_iteration sys p b i s = (Normal f, s1)" "steady s s1"
    and seed: "shuffle_flag (gtest_flags s) \<longrightarrow> valid_seed (random_seed s1)"
    using run_iteration_completes [OF p Suc.prems(2-5)] by blast
  have "\<exists>r s'. iterations sys p b n (i + 1) (fb \<or> f) s1 = Some (Normal r, s') \<and> steady s1 s'"
  proof (rule Suc.hyps(1) [OF i(3) i(2)])
    show "settled s1" using run_iteration_result(1) [OF Suc.prems(4) one(1)] .
  qed (use one(2) seed Suc.prems(2) in \<open>auto simp: steady_def\<close>)
  then show ?case using one i(1) steady_trans by (subst iterations.simps) auto
qed

text \<open>The last state and the tests are prepared as \<open>RUN_ALL_TESTS\<close> does it.\<close>

lemma RunAllTests_completes:
  assumes p: "calm_program p" and init: "GTestIsInitialized s" "post_flag_parse_init_performed s"
    and c: "catching_exceptions s" and q: "quiet (gtest_flags s)" and st: "settled s"
    and r: "0 \<le> repeat_flag (gtest_flags s)" and prep: "prepare_run sys s = Some (Inr (n, s1))"
  shows "\<exists>ok s'. RunAllTests sys p s = Some (Normal ok, s')"
proof -
  have same: "options s1 = options s" "catching_exceptions s1 = catching_exceptions s" and st1: "settled s1"
    using prep init(2) prepare_run_ok(1) [OF init(2) st prep]
    by (auto simp: prepare_run_def PostFlagParsingInit_def run_bind_def split: sum.splits)
  define s2 where "s2 = start_run sys s1"
  have s2: "gtest_flags s2 = gtest_flags s" "catching_exceptions s2 = catching_exceptions s"
    and seed: "shuffle_flag (gtest_flags s) \<Longrightarrow> valid_seed (random_seed s2)"
    using same GetRandomSeedFromFlag_valid by (simp_all add: s2_def start_run_def Let_def notify_def gtest_flags_def split: prod.splits)
  define cnt where "cnt = (if internal_run_death_test_flag s2 \<noteq> None then 1 else repeat_flag (gtest_flags s2))"
  have "\<exists>x s'. iterations sys p (n > 0) cnt 0 False s2 = Some (Normal x, s') \<and> steady s2 s'"
    using s2 c q r start_run_ok(1) [OF st1, of sys] seed by (intro iterations_complete [OF p]) (simp_all add: cnt_def s2_def)
  then obtain x s' where it: "iterations sys p (n > 0) cnt 0 False s2 = Some (Normal x, s')" by blast
  show ?thesis
  proof (cases "g_help_flag (options s) \<or> list_tests (gtest_flags s1)")
    case True
    then show ?thesis using init prep by (auto simp: RunAllTests_def)
  next
    case False
    then have "RunAllTests sys p s =
      (case iterations sys p (n > 0) cnt 0 False s2 of
         None \<Rightarrow> None
       | Some (Normal failed_ever, s3) \<Rightarrow> Some (Normal (\<not> failed_ever), notify OnTestProgramEnd s3)
       | Some (Throws e, s3) \<Rightarrow> Some (Throws e, s3)
       | Some (Stops e, s3) \<Rightarrow> Some (Stops e, s3))"
      using init prep by (simp add: RunAllTests_def Let_def s2_def cnt_def)
    then show ?thesis by (simp add: it)
  qed
qed

text \<open>
  The settings of the environment that ask for sharding are valid: there are none, or both are the decimal texts of
  32-bit numbers, of which the index is less than the number of shards.
\<close>

definition sharding_valid :: "environment \<Rightarrow> bool" where
  "sharding_valid getenv \<longleftrightarrow>
     getenv kTestTotalShards = None \<and> getenv kTestShardIndex = None \<or>
     (\<exists>n i. 0 \<le> i \<and> i < n \<and> n < 2 ^ 31 \<and> getenv kTestTotalShards = Some (decimal_int n) \<and>
       getenv kTestShardIndex = Some (decimal_int i))"

lemma sharding_valid_read:
  assumes "sharding_valid getenv"
  obtains "Int32FromEnvOrDie getenv kTestTotalShards (- 1) = Inr (- 1)" "Int32FromEnvOrDie getenv kTestShardIndex (- 1) = Inr (- 1)"
  | n i where "0 \<le> i" "i < n" "Int32FromEnvOrDie getenv kTestTotalShards (- 1) = Inr n"
      "Int32FromEnvOrDie getenv kTestShardIndex (- 1) = Inr i"
proof -
  have same: "Int32FromEnvOrDie getenv v d = Int32FromEnvOrDie getenv' v d" if "getenv v = getenv' v" for v d getenv'
    by (simp add: Int32FromEnvOrDie_def that)
  consider "getenv kTestTotalShards = None" "getenv kTestShardIndex = None"
    | n i where "0 \<le> i" "i < n" "n < 2 ^ 31" "getenv kTestTotalShards = Some (decimal_int n)"
        "getenv kTestShardIndex = Some (decimal_int i)"
    using assms unfolding sharding_valid_def by (elim disjE exE conjE) simp_all
  then show thesis
  proof cases
    case 1
    then show thesis by (intro that(1)) (simp_all add: Int32FromEnvOrDie_def)
  next
    case (2 n i)
    have "kTestTotalShards \<noteq> kTestShardIndex" by (simp add: kTestTotalShards_def kTestShardIndex_def)
    then have "Int32FromEnvOrDie getenv kTestTotalShards (- 1) = Inr n" "Int32FromEnvOrDie getenv kTestShardIndex (- 1) = Inr i"
      using shard_env_read [OF 2(1-3)] same [of kTestTotalShards "shard_env n i"] same [of kTestShardIndex "shard_env n i"] 2(4,5)
      by (simp_all add: shard_env_def)
    then show thesis by (rule that(2) [OF 2(1,2)])
  qed
qed

lemma prepare_run_succeeds:
  assumes "post_flag_parse_init_performed s" and "\<forall>path. creatable sys path" and "sharding_valid (host_env sys)"
  shows "\<exists>r. prepare_run sys s = Some (Inr r)"
proof -
  have filtered: "\<exists>r. FilterTests (host_env sys) fl reaction cs = Inr r" for fl reaction cs
    using assms(3) by (rule sharding_valid_read) (auto simp: FilterTests_def run_bind_def split: prod.split)
  have "\<exists>b. ShouldShard mode (host_env sys) kTestTotalShards kTestShardIndex d = Inr b" for mode d
    using assms(3) by (rule sharding_valid_read) (auto simp: ShouldShard_def run_bind_def)
  then obtain b where b: "ShouldShard (color_mode sys s) (host_env sys) kTestTotalShards kTestShardIndex
      (internal_run_death_test_flag s \<noteq> None) = Inr b" by blast
  obtain r where "FilterTests (host_env sys) (gtest_flags s)
      (if b then HONOR_SHARDING_PROTOCOL else IGNORE_SHARDING_PROTOCOL) (test_cases s) = Inr r" using filtered by blast
  moreover have "WriteToShardStatusFileIfNeeded sys s = Inr ()"
    using assms(2) by (simp add: WriteToShardStatusFileIfNeeded_def split: option.split)
  ultimately show ?thesis
    using assms(1) b by (cases r) (simp add: prepare_run_def PostFlagParsingInit_def run_bind_def)
qed

text \<open>
  C6: A run of all tests completes, with the exit status 0 if no failure was told and 1 otherwise,
  and without leaving the file of a premature exit behind, if exceptions are caught, the program is
  initialised, the flags that stop a run are off, the count of repetitions is not negative, the settings for
  sharding are valid, the status files can be written, no failure was recorded before the run, and the user's code
  keeps to the rules: destructors and environments do not throw.
\<close>

theorem UnitTest_Run_completes:
  assumes "calm_program p" and "GTestIsInitialized s" and "post_flag_parse_init_performed s"
    and "catch_exceptions (gtest_flags s)" and "quiet (gtest_flags s)" and "settled s"
    and "0 \<le> repeat_flag (gtest_flags s)" and "\<forall>path. creatable sys path" and "\<not> failed (ad_hoc_test_result s)"
    and "sharding_valid (host_env sys)"
  shows "\<exists>s' evs. UnitTest_Run sys p s = Some (Normal (if reported evs then 1 else 0), s', None) \<and> notified s' = notified s @ evs"
proof -
  let ?s = "s\<lparr>catching_exceptions := True\<rparr>"
  have st: "settled ?s" using settled_cong [of ?s s] assms(6) by simp
  have same: "GTestIsInitialized ?s" "post_flag_parse_init_performed ?s" "gtest_flags ?s = gtest_flags s"
    "catching_exceptions ?s" "ad_hoc_test_result ?s = ad_hoc_test_result s" "notified ?s = notified s"
    using assms(2,3) by (simp_all add: GTestIsInitialized_def gtest_flags_def)
  obtain n s1 where prep: "prepare_run sys ?s = Some (Inr (n, s1))"
    using prepare_run_succeeds [of ?s sys] assms(8,10) same(2) by fastforce
  have flags: "quiet (gtest_flags ?s)" "0 \<le> repeat_flag (gtest_flags ?s)" using assms(5,7) same(3) by simp_all
  obtain ok s' where run: "RunAllTests sys p ?s = Some (Normal ok, s')"
    using RunAllTests_completes [OF assms(1) same(1,2,4) flags(1) st flags(2) prep] by blast
  then obtain evs where evs: "notified s' = notified s @ evs" "ok \<longleftrightarrow> \<not> reported evs"
    using RunAllTests_tells [OF same(2) st _ same(1) run] assms(9) same(5,6) by auto
  have new_file: "\<exists>f. ScopedPrematureExitFile_new sys path = Inr f" for path
    using assms(8) by (auto simp: ScopedPrematureExitFile_new_def split: option.splits)
  obtain f where f: "ScopedPrematureExitFile_new sys
      (if internal_run_death_test (gtest_flags s) \<noteq> [] then None else host_env sys (lit ''TEST_PREMATURE_EXIT_FILE'')) = Inr f"
    using new_file by blast
  have "UnitTest_Run sys p s = Some (Normal (if reported evs then 1 else 0), s', None)"
    using f run evs(2) assms(4) same(4) by (simp add: UnitTest_Run_def Let_def catch_result_def del: lit_Cons)
  then show ?thesis using evs(1) by blast
qed

theorem UnitTest_Run_completes_witness:
  "\<exists>s' evs. UnitTest_Run (example_host\<lparr>host_env := shard_env 2 1\<rparr>) example_program (example_state [1, 0]) = Some (Normal (if reported evs then 1 else 0), s', None) \<and>
     notified s' = notified (example_state [1, 0]) @ evs"
proof (rule UnitTest_Run_completes)
  have st: "length [1, 0 :: nat] \<le> 2" by simp
  note st = example_settled [OF st]
  show "calm_program example_program" by (simp add: calm_program_def example_program_def calm_act_def)
  show "GTestIsInitialized (example_state [1, 0])" "post_flag_parse_init_performed (example_state [1, 0])"
    "\<not> failed (ad_hoc_test_result (example_state [1, 0]))" by (rule st)+
  show "settled (example_state [1, 0])" using st in_order_arranged by (simp add: settled_def idle_def)
  show "catch_exceptions (gtest_flags (example_state [1, 0]))" "quiet (gtest_flags (example_state [1, 0]))"
    "0 \<le> repeat_flag (gtest_flags (example_state [1, 0]))" by code_simp+
  show "\<forall>path. creatable (example_host\<lparr>host_env := shard_env 2 1\<rparr>) path" by (simp add: example_host_def)
  have "kTestTotalShards \<noteq> kTestShardIndex" by (simp add: kTestTotalShards_def kTestShardIndex_def)
  then show "sharding_valid (host_env (example_host\<lparr>host_env := shard_env 2 1\<rparr>))"
    unfolding sharding_valid_def by (intro disjI2 exI [of _ 2] exI [of _ 1]) (simp add: shard_env_def)
qed

end
