(* ===== verification/Spec2Isabelle.thy ===== *)
theory Spec2Isabelle
  imports Prelude Slices Coding Comparators Logging DB_Format Random_Gen Arena Atomic_Pointer Skip_List
    Status_Val Iterators Blocks Bg_Thread Port_Posix Formats Env_Files Posix_World Posix_Files Posix_Random
    Posix_Logger Posix_Env Gtest_String Gtest_Regex Gtest_FilePath Gtest_Edit Gmock_Matching Gmock_Unordered Gmock_Utils Gmock_Expectation Gmock_Mocker Gmock_Calls
    Gtest_Flags Gtest_Result Gtest_Select Gtest_Unit Gtest_Run Gtest_Verdict
begin

text \<open>
  A verification library for releveldb, a rewrite of the storage library LevelDB in C++ (src/db), and for
  the test libraries it is built with and ships in its tree (src/libs/googletest, src/libs/googlemock).

  \<^bold>\<open>The program.\<close> The database part is a set of components under a table store that does not exist yet.
  Byte strings are passed as slices; integers are stored in fixed or variable length; a user key with a
  sequence number and a type is an internal key, ordered by a comparator over the user's comparator. A
  table in memory is a skip list whose nodes come from an arena and whose links are atomic pointers, read
  without locks while one writer inserts. A table block on disk is read through an iterator, whose errors
  are statuses. Files, locks, the background thread and the logger come from an environment over POSIX.
  The test library registers tests before \<open>main\<close>, reads flags, selects, orders and runs the tests, and tells
  listeners what happens; the mocking library checks calls of mock functions against expectations and
  reports to it. The two meet the database only in its tests.

  \<^bold>\<open>Conventions.\<close> Code that can fault in C++ (a failed assertion, a read outside an object, a null or dangling
  pointer, an uninitialised value, \<open>abort\<close>) returns \<open>'a res\<close> of theory \<open>Prelude\<close>, so that a theorem which states
  a result also states that nothing of the kind happens. Integers keep their width as words where the code's
  arithmetic can wrap (sizes, offsets, tags, random numbers, hashes of 32 and 64 bits); an \<open>int\<close> whose range
  the code cannot leave is an integer. A pointer into an array is the array with an offset. State is passed explicitly:
  the heap of nodes or of buffers, the world of files, the unit test object. The loops that the text of the
  program does not bound are partial functions whose value \<open>None\<close> means that they do not return, and a theorem states
  that they do; no model uses fuel. Threads are step relations, one atomic access or one \<open>pthread\<close> call a step, with
  invariants by rule induction over the reachable states. What is outside the repository is an argument: the byte order,
  what \<open>new\<close> returns, the outcome of every system call, the clock, environment variables, user comparators, matchers, actions
  and tests. Where an argument has a contract it is a locale (\<open>comparator\<close>, \<open>key_order\<close>, \<open>writable_files\<close>,
  \<open>readable_files\<close>, \<open>directory_calls\<close>, \<open>positioned\<close>, \<open>call_limits\<close>, \<open>code_contract\<close>), interpreted on the model of the
  code that provides it.

  \<^bold>\<open>The database part\<close> (all files under src/db).
  \<open>Slices\<close> (Slice.h, Slice.cpp), \<open>Coding\<close> (Coding.h, Coding.cpp), \<open>Logging\<close> (Logging.h, Logging.cpp) and
  \<open>Random_Gen\<close> (random.h): every function, with round trips of the encodings, the generator as multiplication by 16807
  modulo \<open>2 ^ 31 - 1\<close>, and no fault on well-formed arguments.
  \<open>Comparators\<close> (Comparator.h, Comparator.cpp) and \<open>DB_Format\<close> (DBFormat.h, DBFormat.cpp): the contract of a comparator,
  the bytewise one, and the internal key comparator, which keeps the contract over every user comparator that does.
  \<open>Arena\<close> (Arena.h, Arena.cpp): regions handed out are disjoint and inside their blocks; requests near the largest size wrap.
  \<open>Atomic_Pointer\<close> and \<open>Skip_List\<close> (atomic_pointer.h, SkipList.h): insertion and search against the ordered list of keys, and
  the interleaving of one writer with any readers, where a key that was inserted before is always found.
  \<open>Status_Val\<close> (Status.h, Status.cpp): statuses as heap buffers, with leaks and double frees visible.
  \<open>Iterators\<close> and \<open>Blocks\<close> (Iterator.h, Iterator.cpp, Block.h, Block.cpp, Format.h): the cleanup chain, the decoding of
  entries and \<open>Seek\<close>, which returns on every block, however corrupt, and is right on well-formed ones.
  \<open>Bg_Thread\<close>, \<open>Port_Posix\<close> (Env_posix.cpp, port_posix.h, port_posix.cpp, MutexLock.h): the queue of the background thread
  with its mutex and condition variable, once-initialisation, started threads.
  \<open>Env_Files\<close> (Env.h, Env.cpp), \<open>Posix_World\<close>, \<open>Posix_Files\<close>, \<open>Posix_Random\<close>, \<open>Posix_Env\<close> (Env_posix.cpp), \<open>Posix_Logger\<close>
  (posix_logger.h): whole files are written and read under an abstract contract of files, which the POSIX environment
  provides; every pattern of failing system calls is covered, since each call takes its outcome from a script.
  \<open>Formats\<close> (Options.h, DB.h, Log_format.h, Cache.h, FilterPolicy.h): constants, option defaults and abstract classes.

  \<^bold>\<open>The test library\<close> (src/libs/googletest, file gtest.cc unless said otherwise).
  \<open>Gtest_String\<close>: string helpers and UTF-8 encoding, with a reference decoder. \<open>Gtest_Regex\<close> (gtest-port.cc): the simple
  regular expressions and the language they denote. \<open>Gtest_FilePath\<close> (gtest-filepath.cc): paths, and directories under any
  pattern of failing calls. \<open>Gtest_Edit\<close>: edit distance and unified diffs, whose printed hunks patch one text into the other.
  \<open>Gtest_Flags\<close> (also gtest-port.cc): flags from the environment, files and the command line, as a table lookup, and when
  help is printed.
  \<open>Gtest_Result\<close> (gtest.h, gtest-test-part.cc): results, properties, tests and test cases with their counts.
  \<open>Gtest_Select\<close> (gtest-internal-inl.h): filters as glob patterns, shards that divide the tests among themselves, shuffles
  that permute. \<open>Gtest_Unit\<close>: the unit test object (record \<open>UnitTest\<close> for \<open>UnitTestImpl\<close> with its owner), registration with its
  invariant, listeners, reports of assertions, initialisation. \<open>Gtest_Run\<close>: \<open>Test\<close>, \<open>TestInfo\<close>, \<open>TestCase\<close>,
  \<open>RunAllTests\<close> and \<open>UnitTest::Run\<close> over user code given as a tree of actions; the locale \<open>code_contract\<close> shows that
  any relation the single actions keep is kept by all code and by the functions around it, and its interpretations give what
  a run leaves alone, what listeners are told, and which fatal failures outside tests stop a run. \<open>Gtest_Verdict\<close>: the answer of a run against what was told, and
  the completion of runs.

  \<^bold>\<open>The mocking library\<close> (src/libs/googlemock).
  \<open>Gmock_Utils\<close> (gmock-internal-utils.cc, gmock-cardinalities.cc): words, log, cardinalities as intervals. \<open>Gmock_Matching\<close> and
  \<open>Gmock_Unordered\<close> (gmock-matchers.cc, gmock-matchers.h): the maximum bipartite matching, and \<open>UnorderedElementsAre\<close> by a bijection.
  \<open>Gmock_Expectation\<close>, \<open>Gmock_Mocker\<close>, \<open>Gmock_Calls\<close> (gmock-spec-builders.cc, gmock-spec-builders.h): expectations with their
  clauses and pre-requisites in a store, mock functions and objects, and the runs of a program over them as a step relation
  with its invariant: which expectation handles a call, what it changes, and when verification succeeds.

  \<^bold>\<open>Numbers.\<close> Words keep the width of the code. The counters of type \<open>int\<close> of the test library (of tests, results and the like) are
  numbers without a bound, as are the sizes it converts to \<open>int\<close>, except in \<open>ShuffleRange\<close>, where the conversion decides an
  assertion; call counts of mock functions overflow as an error.

  \<^bold>\<open>Not modelled.\<close> Table.h, Table.cpp, LogWritter.h, LogWritter.cpp and Format.cpp are empty or declare what is not defined; Cache and
  FilterPolicy have no implementation. main.cpp and the tests are programs over the library. Of the test libraries: death tests
  (processes, pipes and exit codes of the operating system), the printing of values (overload resolution over all C++ types),
  typed and value-parameterized tests and the generated headers (templates over types and over the number of arguments),
  mutexes, thread-local storage and the capture of output, everything for Windows, the reporters that intercept assertion results
  while a test of the library itself runs, the listeners that print to the terminal, to XML and to sockets, and the polymorphic matcher and
  action templates, of which only the predicate with its texts and the function with its effect are kept. The order of memory accesses
  is the program order: the barriers of the atomic pointer are assumed to give it.
\<close>

end
